(* ===== verification/Prelude.thy ===== *)
theory Prelude
  imports Main "HOL-Library.Word"
begin

text \<open>
  Shared vocabulary of the development: the C integer and address types of the target
  (LP64, little-endian, as on every iOS device the pods are built for), a byte-addressed
  memory with little-endian loads and stores, and the list and word lemmas that the
  component theories use. Nothing in this theory models a particular source function.
\<close>

unbundle bit_operations_syntax

section \<open>Types\<close>

type_synonym byte = "8 word"
type_synonym u16 = "16 word"
type_synonym u32 = "32 word"
type_synonym u64 = "64 word"
type_synonym size_t = "64 word"
type_synonym addr = "64 word"
type_synonym mem = "addr \<Rightarrow> byte"

abbreviation (input) NULL :: addr where
  "NULL \<equiv> 0"

text \<open>Collections that the component proofs refer to.\<close>

named_theorems cmem \<open>loads and stores of the byte memory\<close>

section \<open>Early return\<close>

text \<open>
  \<^verbatim>\<open>if (!f(...)) return false; rest\<close>: functions of the library return a success flag and
  leave their effect in the state they were given.
\<close>

definition c_then :: "bool \<times> 's \<Rightarrow> ('s \<Rightarrow> bool \<times> 's) \<Rightarrow> bool \<times> 's" where
  "c_then r k = (case r of (ok, s) \<Rightarrow> if ok then k s else (False, s))"

lemma c_then_simps [simp]:
  "c_then (True, s) k = k s" "c_then (False, s) k = (False, s)"
  by (simp_all add: c_then_def)

lemma fst_c_then: "fst (c_then r k) \<longleftrightarrow> fst r \<and> fst (k (snd r))"
  by (cases r) (auto simp: c_then_def)

lemma c_then_cong [fundef_cong]:
  "r = r' \<Longrightarrow> (\<And>s. r' = (True, s) \<Longrightarrow> k s = k' s) \<Longrightarrow> c_then r k = c_then r' k'"
  by (cases r') (auto simp: c_then_def)

section \<open>Words and byte lists\<close>

lemma unat_of_nat_small: "i < 2 ^ LENGTH('a::len) \<Longrightarrow> unat (of_nat i :: 'a word) = i"
  by (simp add: unsigned_of_nat take_bit_nat_eq_self)

lemma unat_bound: "unat (w :: 'a::len word) < 2 ^ LENGTH('a)"
  by (rule unsigned_less)

lemma unat_add_small:
  "unat (a :: 'a::len word) + n < 2 ^ LENGTH('a) \<Longrightarrow> unat (a + of_nat n) = unat a + n"
  by (simp add: unat_word_ariths unat_of_nat_small)

lemma unat_add_one: "(a :: 'a::len word) < b \<Longrightarrow> unat (a + 1) = Suc (unat a)"
  using unat_add_small [of a 1] unat_bound [of b] by (simp add: word_less_nat_alt)

lemma unat_drop_bit: "unat (drop_bit n w) = unat w div 2 ^ n"
  unfolding unat_drop_bit_eq by (rule drop_bit_eq_div)

lemma unat_take_bit: "unat (take_bit n w) = unat w mod 2 ^ n"
  unfolding unsigned_take_bit_eq by (rule take_bit_eq_mod)

lemma unat_ucast_down:
  "unat (ucast (w :: 'a::len word) :: 'b::len word) = unat w mod 2 ^ LENGTH('b)"
  by (simp add: unsigned_ucast_eq take_bit_eq_mod)

lemma unat_ucast_up [simp]:
  "unat (ucast (w :: u32) :: u64) = unat w"
  "unat (ucast (b :: byte) :: u64) = unat b" "unat (ucast (b :: byte) :: u32) = unat b"
  using unat_bound [of w] unat_bound [of b] by (simp_all add: unat_ucast_down)

lemma unat_minus_1 [simp]: "unat (- 1 :: u64) = 2 ^ 64 - 1"
  by (simp only: unsigned_minus_1_eq_mask mask_eq_exp_minus_1) simp

lemma byte_cases: "\<forall>x \<in> set (map of_nat [0..<256]). P x \<Longrightarrow> P (b :: byte)"
proof -
  assume P: "\<forall>x \<in> set (map of_nat [0..<256]). P x"
  have "unat b \<in> set [0..<256]"
    using unat_bound [of b] by simp
  then have "of_nat (unat b) \<in> set (map (of_nat :: nat \<Rightarrow> byte) [0..<256])"
    unfolding set_map by (rule imageI)
  with P show "P b" by (metis of_nat_unat ucast_id)
qed

lemma and_mask_bits: "(w :: 'a::len word) AND 0x7F = take_bit 7 w" "w AND 0xFF = take_bit 8 w"
  by (simp_all add: take_bit_eq_mask mask_eq_exp_minus_1 del: take_bit_eq_mask_iff)

text \<open>Little-endian: the byte at index \<open>i\<close> holds the bits \<open>8 * i ..< 8 * i + 8\<close>.\<close>

definition bytes_of_word :: "nat \<Rightarrow> 'a::len word \<Rightarrow> byte list" where
  "bytes_of_word n w = map (\<lambda>i. ucast (drop_bit (8 * i) w)) [0..<n]"

fun word_of_bytes :: "byte list \<Rightarrow> 'a::len word" where
  "word_of_bytes [] = 0"
| "word_of_bytes (b # bs) = ucast b OR push_bit 8 (word_of_bytes bs)"

lemma length_bytes_of_word [simp]: "length (bytes_of_word n w) = n"
  by (simp add: bytes_of_word_def)

lemma nth_bytes_of_word [simp]:
  "i < n \<Longrightarrow> bytes_of_word n w ! i = ucast (drop_bit (8 * i) w)"
  by (simp add: bytes_of_word_def)

lemma bit_word_of_bytes:
  "bit (word_of_bytes bs :: 'a::len word) k \<longleftrightarrow>
     k < LENGTH('a) \<and> k div 8 < length bs \<and> bit (bs ! (k div 8)) (k mod 8)"
proof (induction bs arbitrary: k)
  case Nil
  then show ?case by simp
next
  case (Cons b bs)
  show ?case
  proof (cases "k < 8")
    case True
    then show ?thesis
      by (auto simp: bit_or_iff bit_unsigned_iff bit_push_bit_iff)
  next
    case False
    then obtain j where k: "k = j + 8"
      by (metis add.commute le_add_diff_inverse not_less)
    have nb: "\<not> bit b k"
      using False bit_imp_le_length [of b k] by auto
    have dk: "(j + 8) div 8 = Suc (j div 8)"
      by simp
    show ?thesis
      using Cons.IH [of j] nb
      by (auto simp: dk k bit_or_iff bit_unsigned_iff bit_push_bit_iff)
  qed
qed


lemma word_of_bytes_of_word [simp]:
  assumes "LENGTH('a::len) = 8 * n"
  shows "word_of_bytes (bytes_of_word n (w :: 'a word)) = w"
proof (rule bit_word_eqI)
  fix k assume k: "k < LENGTH('a)"
  then have d: "k div 8 < n"
    using assms by (simp add: less_mult_imp_div_less mult.commute)
  have m: "8 * (k div 8) + k mod 8 = k"
    by simp
  show "bit (word_of_bytes (bytes_of_word n w) :: 'a word) k = bit w k"
    using d k by (simp add: bit_word_of_bytes bit_unsigned_iff bit_drop_bit_eq m)
qed

lemma bytes_of_word_of_bytes [simp]:
  assumes "LENGTH('a::len) = 8 * length bs"
  shows "bytes_of_word (length bs) (word_of_bytes bs :: 'a word) = bs"
proof (rule nth_equalityI)
  fix i assume "i < length (bytes_of_word (length bs) (word_of_bytes bs :: 'a word))"
  then have i: "i < length bs" by simp
  show "bytes_of_word (length bs) (word_of_bytes bs :: 'a word) ! i = bs ! i"
  proof (rule bit_word_eqI)
    fix k assume k: "k < LENGTH(8)"
    then have "8 * i + k < LENGTH('a)" and "(8 * i + k) div 8 = i" and "(8 * i + k) mod 8 = k"
      using assms i by auto
    with i k show "bit (bytes_of_word (length bs) (word_of_bytes bs :: 'a word) ! i) k = bit (bs ! i) k"
      by (simp add: bit_word_of_bytes bit_unsigned_iff bit_drop_bit_eq)
  qed
qed simp

section \<open>Byte memory\<close>

text \<open>
  \<open>region a n\<close> is the set of the \<open>n\<close> addresses from \<open>a\<close> on; address arithmetic is that
  of \<open>uintptr_t\<close>, modulo \<open>2 ^ 64\<close>.
\<close>

definition region :: "addr \<Rightarrow> nat \<Rightarrow> addr set" where
  "region a n = {x. unat (x - a) < n}"

definition load_bytes :: "mem \<Rightarrow> addr \<Rightarrow> nat \<Rightarrow> byte list" where
  "load_bytes m a n = map (\<lambda>i. m (a + of_nat i)) [0..<n]"

definition store_bytes :: "mem \<Rightarrow> addr \<Rightarrow> byte list \<Rightarrow> mem" where
  "store_bytes m a bs = (\<lambda>x. let i = unat (x - a) in if i < length bs then bs ! i else m x)"

text \<open>For evaluation: offsets are compared as integers.\<close>

lemma store_bytes_code [code]:
  "store_bytes m a bs =
     (\<lambda>x. let i = uint (x - a) in if i < int (length bs) then bs ! nat i else m x)"
  by (simp add: store_bytes_def fun_eq_iff Let_def) (metis of_nat_less_iff uint_nat)

definition load_u8 :: "mem \<Rightarrow> addr \<Rightarrow> byte" where
  "load_u8 m a = m a"

definition load_u16 :: "mem \<Rightarrow> addr \<Rightarrow> u16" where
  "load_u16 m a = word_of_bytes (load_bytes m a 2)"

definition load_u32 :: "mem \<Rightarrow> addr \<Rightarrow> u32" where
  "load_u32 m a = word_of_bytes (load_bytes m a 4)"

definition load_u64 :: "mem \<Rightarrow> addr \<Rightarrow> u64" where
  "load_u64 m a = word_of_bytes (load_bytes m a 8)"

definition load_ptr :: "mem \<Rightarrow> addr \<Rightarrow> addr" where
  "load_ptr m a = load_u64 m a"

definition store_u8 :: "mem \<Rightarrow> addr \<Rightarrow> byte \<Rightarrow> mem" where
  "store_u8 m a w = store_bytes m a [w]"

definition store_u16 :: "mem \<Rightarrow> addr \<Rightarrow> u16 \<Rightarrow> mem" where
  "store_u16 m a w = store_bytes m a (bytes_of_word 2 w)"

definition store_u32 :: "mem \<Rightarrow> addr \<Rightarrow> u32 \<Rightarrow> mem" where
  "store_u32 m a w = store_bytes m a (bytes_of_word 4 w)"

definition store_u64 :: "mem \<Rightarrow> addr \<Rightarrow> u64 \<Rightarrow> mem" where
  "store_u64 m a w = store_bytes m a (bytes_of_word 8 w)"

definition store_ptr :: "mem \<Rightarrow> addr \<Rightarrow> addr \<Rightarrow> mem" where
  "store_ptr m a w = store_u64 m a w"

lemma length_load_bytes [simp]: "length (load_bytes m a n) = n"
  by (simp add: load_bytes_def)

lemma nth_load_bytes [simp]: "i < n \<Longrightarrow> load_bytes m a n ! i = m (a + of_nat i)"
  by (simp add: load_bytes_def)

lemma load_bytes_0 [simp]: "load_bytes m a 0 = []"
  by (simp add: load_bytes_def)

lemma load_bytes_cong:
  "(\<And>i. i < n \<Longrightarrow> m (a + of_nat i) = m' (a + of_nat i)) \<Longrightarrow> load_bytes m a n = load_bytes m' a n"
  by (rule nth_equalityI) auto

lemma store_bytes_outside [cmem]: "x \<notin> region a (length bs) \<Longrightarrow> store_bytes m a bs x = m x"
  by (simp add: store_bytes_def region_def)

lemma in_region_of_nat: "i < n \<Longrightarrow> n \<le> 2 ^ 64 \<Longrightarrow> a + of_nat i \<in> region a n"
  by (simp add: region_def unat_of_nat_small)

lemma load_store_bytes_same [cmem]:
  assumes "length bs \<le> 2 ^ 64"
  shows "load_bytes (store_bytes m a bs) a (length bs) = bs"
proof (rule nth_equalityI)
  fix i assume "i < length (load_bytes (store_bytes m a bs) a (length bs))"
  then have i: "i < length bs" by simp
  then have "unat (of_nat i :: 64 word) = i"
    using assms by (simp add: unat_of_nat_small)
  with i show "load_bytes (store_bytes m a bs) a (length bs) ! i = bs ! i"
    by (simp add: store_bytes_def)
qed simp

lemma load_store_bytes_disjoint [cmem]:
  assumes "region a (length bs) \<inter> region b n = {}" and "n \<le> 2 ^ 64"
  shows "load_bytes (store_bytes m a bs) b n = load_bytes m b n"
proof (rule load_bytes_cong)
  fix i assume "i < n"
  then have "b + of_nat i \<in> region b n"
    using assms(2) by (rule in_region_of_nat)
  with assms(1) have "b + of_nat i \<notin> region a (length bs)"
    by blast
  then show "store_bytes m a bs (b + of_nat i) = m (b + of_nat i)"
    by (rule store_bytes_outside)
qed

lemma load_store_word_same [cmem]:
  "load_u16 (store_u16 m a w2) a = w2"
  "load_u32 (store_u32 m a w4) a = w4"
  "load_u64 (store_u64 m a w8) a = w8"
  "load_ptr (store_ptr m a w8) a = w8"
  using load_store_bytes_same [of "bytes_of_word 2 w2" m a]
    load_store_bytes_same [of "bytes_of_word 4 w4" m a]
    load_store_bytes_same [of "bytes_of_word 8 w8" m a]
  by (simp_all add: load_u16_def store_u16_def load_u32_def store_u32_def load_u64_def
      store_u64_def load_ptr_def store_ptr_def)

end
