(* ===== verification/Pb_Base.thy ===== *)
theory Pb_Base
  imports Prelude
begin

text \<open>
  \<^verbatim>\<open>nanopb/pb.h\<close>: the field-type constants, the field descriptor \<open>pb_field_t\<close>, the
  structures the library keeps inside messages (byte arrays, callbacks, extensions), the
  wire types, and the macros by which generated code writes descriptor tables.

  The configuration is the one of the pods' build files: \<^verbatim>\<open>PB_FIELD_32BIT\<close>,
  \<^verbatim>\<open>PB_NO_PACKED_STRUCTS\<close> and \<^verbatim>\<open>PB_ENABLE_MALLOC\<close> are defined; \<^verbatim>\<open>PB_BUFFER_ONLY\<close>,
  \<^verbatim>\<open>PB_NO_ERRMSG\<close>, \<^verbatim>\<open>PB_OLD_CALLBACK_STYLE\<close>, \<^verbatim>\<open>PB_ENCODE_ARRAYS_UNPACKED\<close> and
  \<^verbatim>\<open>PB_WITHOUT_64BIT\<close> are not. So \<open>pb_size_t\<close> is an unsigned 32-bit integer.
\<close>

named_theorems pb_const \<open>the numeric constants of pb.h\<close>

type_synonym pb_type_t = byte
type_synonym pb_size_t = u32
type_synonym pb_byte_t = byte

section \<open>Field types\<close>

definition PB_MAX_REQUIRED_FIELDS :: nat where [pb_const]: "PB_MAX_REQUIRED_FIELDS = 64"

definition PB_LTYPE_BOOL :: pb_type_t where [pb_const]: "PB_LTYPE_BOOL = 0x00"
definition PB_LTYPE_VARINT :: pb_type_t where [pb_const]: "PB_LTYPE_VARINT = 0x01"
definition PB_LTYPE_UVARINT :: pb_type_t where [pb_const]: "PB_LTYPE_UVARINT = 0x02"
definition PB_LTYPE_SVARINT :: pb_type_t where [pb_const]: "PB_LTYPE_SVARINT = 0x03"
definition PB_LTYPE_FIXED32 :: pb_type_t where [pb_const]: "PB_LTYPE_FIXED32 = 0x04"
definition PB_LTYPE_FIXED64 :: pb_type_t where [pb_const]: "PB_LTYPE_FIXED64 = 0x05"
definition PB_LTYPE_LAST_PACKABLE :: pb_type_t where [pb_const]: "PB_LTYPE_LAST_PACKABLE = 0x05"
definition PB_LTYPE_BYTES :: pb_type_t where [pb_const]: "PB_LTYPE_BYTES = 0x06"
definition PB_LTYPE_STRING :: pb_type_t where [pb_const]: "PB_LTYPE_STRING = 0x07"
definition PB_LTYPE_SUBMESSAGE :: pb_type_t where [pb_const]: "PB_LTYPE_SUBMESSAGE = 0x08"
definition PB_LTYPE_EXTENSION :: pb_type_t where [pb_const]: "PB_LTYPE_EXTENSION = 0x09"
definition PB_LTYPE_FIXED_LENGTH_BYTES :: pb_type_t where
  [pb_const]: "PB_LTYPE_FIXED_LENGTH_BYTES = 0x0A"
definition PB_LTYPE_MASK :: pb_type_t where [pb_const]: "PB_LTYPE_MASK = 0x0F"

definition PB_HTYPE_REQUIRED :: pb_type_t where [pb_const]: "PB_HTYPE_REQUIRED = 0x00"
definition PB_HTYPE_OPTIONAL :: pb_type_t where [pb_const]: "PB_HTYPE_OPTIONAL = 0x10"
definition PB_HTYPE_REPEATED :: pb_type_t where [pb_const]: "PB_HTYPE_REPEATED = 0x20"
definition PB_HTYPE_ONEOF :: pb_type_t where [pb_const]: "PB_HTYPE_ONEOF = 0x30"
definition PB_HTYPE_MASK :: pb_type_t where [pb_const]: "PB_HTYPE_MASK = 0x30"

definition PB_ATYPE_STATIC :: pb_type_t where [pb_const]: "PB_ATYPE_STATIC = 0x00"
definition PB_ATYPE_POINTER :: pb_type_t where [pb_const]: "PB_ATYPE_POINTER = 0x80"
definition PB_ATYPE_CALLBACK :: pb_type_t where [pb_const]: "PB_ATYPE_CALLBACK = 0x40"
definition PB_ATYPE_MASK :: pb_type_t where [pb_const]: "PB_ATYPE_MASK = 0xC0"

definition PB_ATYPE :: "pb_type_t \<Rightarrow> pb_type_t" where
  "PB_ATYPE x = x AND PB_ATYPE_MASK"

definition PB_HTYPE :: "pb_type_t \<Rightarrow> pb_type_t" where
  "PB_HTYPE x = x AND PB_HTYPE_MASK"

definition PB_LTYPE :: "pb_type_t \<Rightarrow> pb_type_t" where
  "PB_LTYPE x = x AND PB_LTYPE_MASK"

definition PB_SIZE_MAX :: pb_size_t where [pb_const]: "PB_SIZE_MAX = - 1"

section \<open>Field descriptors\<close>

text \<open>
  \<open>ptr\<close> is null, the field array of a submessage, or the bytes of a default value. A
  descriptor is the finite tree of arrays reachable through it; a descriptor that reaches
  itself (a recursive message type) has no such tree and is outside the model. None of the
  repository's descriptors is recursive.
\<close>

datatype pb_field_t = pb_field_s
    (f_tag: pb_size_t)
    (f_type: pb_type_t)
    (f_data_offset: pb_size_t)
    (f_size_offset: u32)
    (f_data_size: pb_size_t)
    (f_array_size: pb_size_t)
    (f_ptr: pb_ptr)
  and pb_ptr = PtrNull | PtrFields "pb_field_t list" | PtrData "byte list"

definition PB_LAST_FIELD :: pb_field_t where
  "PB_LAST_FIELD = pb_field_s 0 0 0 0 0 0 PtrNull"

text \<open>
  A field array ends with \<open>PB_LAST_FIELD\<close>. Reading past the end of the array, which the
  library never does when the terminator is there, reads as another terminator.
\<close>

definition field_at :: "pb_field_t list \<Rightarrow> nat \<Rightarrow> pb_field_t" where
  "field_at fields i = (if i < length fields then fields ! i else PB_LAST_FIELD)"

lemma PB_LAST_FIELD_simps [simp]:
  "f_tag PB_LAST_FIELD = 0" "f_ptr PB_LAST_FIELD = PtrNull" "f_type PB_LAST_FIELD = 0"
  by (simp_all add: PB_LAST_FIELD_def)

lemma field_at_tag_bound: "f_tag (field_at fields i) \<noteq> 0 \<Longrightarrow> i < length fields"
  by (auto simp: field_at_def split: if_splits)

lemma field_at_in_set: "i < length fields \<Longrightarrow> field_at fields i \<in> set fields"
  by (simp add: field_at_def)

lemma size_pb_field_member: "f \<in> set fields \<Longrightarrow> size f < size_list size fields"
  by (induction fields) auto

lemma size_submsg_fields:
  assumes "f_ptr (field_at fields i) = PtrFields sub"
  shows "size_list size sub < size_list size fields"
proof -
  have i: "i < length fields"
    using assms by (auto simp: field_at_def split: if_splits)
  obtain t ty d so ds as where f: "field_at fields i = pb_field_s t ty d so ds as (PtrFields sub)"
    using assms by (cases "field_at fields i") auto
  have "size (field_at fields i) < size_list size fields"
    by (rule size_pb_field_member [OF field_at_in_set [OF i]])
  with f show ?thesis by simp
qed

lemma size_submsg_field_at:
  assumes "f_ptr field = PtrFields fs"
  shows "size (field_at fs i) < size field"
proof (cases "i < length fs")
  case True
  then have "size (field_at fs i) < size_list size fs"
    by (intro size_pb_field_member field_at_in_set)
  then show ?thesis using assms by (cases field) auto
next
  case False
  then show ?thesis using assms by (cases field) (auto simp: field_at_def PB_LAST_FIELD_def)
qed

section \<open>Wire types\<close>

type_synonym pb_wire_type_t = u32

definition PB_WT_VARINT :: pb_wire_type_t where [pb_const]: "PB_WT_VARINT = 0"
definition PB_WT_64BIT :: pb_wire_type_t where [pb_const]: "PB_WT_64BIT = 1"
definition PB_WT_STRING :: pb_wire_type_t where [pb_const]: "PB_WT_STRING = 2"
definition PB_WT_32BIT :: pb_wire_type_t where [pb_const]: "PB_WT_32BIT = 5"

section \<open>C struct layout\<close>

text \<open>
  Sizes, alignments and member offsets of the structs that the descriptor macros measure
  with \<^verbatim>\<open>sizeof\<close> and \<^verbatim>\<open>offsetof\<close>: natural alignment, 8-byte pointers, 1-byte \<^verbatim>\<open>bool\<close>.
\<close>

datatype ctype =
    CBool
  | CInt nat
  | CPtr ctype
  | CArr ctype nat
  | CStruct "(string \<times> ctype) list"

definition align_up :: "nat \<Rightarrow> nat \<Rightarrow> nat" where
  "align_up n a = ((n + a - 1) div a) * a"

fun alignof :: "ctype \<Rightarrow> nat" and alignof_members :: "(string \<times> ctype) list \<Rightarrow> nat" where
  "alignof CBool = 1"
| "alignof (CInt n) = n"
| "alignof (CPtr t) = 8"
| "alignof (CArr t n) = alignof t"
| "alignof (CStruct ms) = alignof_members ms"
| "alignof_members [] = 1"
| "alignof_members ((nm, t) # ms) = max (alignof t) (alignof_members ms)"

fun sizeof :: "ctype \<Rightarrow> nat" and end_of_members :: "nat \<Rightarrow> (string \<times> ctype) list \<Rightarrow> nat" where
  "sizeof CBool = 1"
| "sizeof (CInt n) = n"
| "sizeof (CPtr t) = 8"
| "sizeof (CArr t n) = n * sizeof t"
| "sizeof (CStruct ms) = align_up (end_of_members 0 ms) (alignof_members ms)"
| "end_of_members off [] = off"
| "end_of_members off ((nm, t) # ms) = end_of_members (align_up off (alignof t) + sizeof t) ms"

fun member_offset :: "nat \<Rightarrow> (string \<times> ctype) list \<Rightarrow> string \<Rightarrow> nat" where
  "member_offset off [] m = off"
| "member_offset off ((nm, t) # ms) m =
     (if nm = m then align_up off (alignof t)
      else member_offset (align_up off (alignof t) + sizeof t) ms m)"

fun members :: "ctype \<Rightarrow> (string \<times> ctype) list" where
  "members (CStruct ms) = ms"
| "members _ = []"

definition offsetof :: "ctype \<Rightarrow> string \<Rightarrow> nat" where
  "offsetof st m = member_offset 0 (members st) m"

definition member_type :: "ctype \<Rightarrow> string \<Rightarrow> ctype" where
  "member_type st m = (case map_of (members st) m of Some t \<Rightarrow> t | None \<Rightarrow> CStruct [])"

text \<open>The type of \<^verbatim>\<open>m[0]\<close> for a member \<open>m\<close> that is an array or a pointer.\<close>

fun element_type :: "ctype \<Rightarrow> ctype" where
  "element_type (CPtr t) = t"
| "element_type (CArr t n) = t"
| "element_type t = t"

text \<open>
  Initialisers of structs, and the bytes of the object they initialise; padding is zero.
\<close>

datatype cinit = I_int int | I_null | I_struct "cinit list"

fun init_image :: "ctype \<Rightarrow> cinit \<Rightarrow> byte list"
  and init_members :: "byte list \<Rightarrow> (string \<times> ctype) list \<Rightarrow> cinit list \<Rightarrow> byte list" where
  "init_image (CStruct ms) (I_struct is) =
     (let bs = init_members [] ms is
      in bs @ replicate (sizeof (CStruct ms) - length bs) 0)"
| "init_image t (I_int i) = bytes_of_word (sizeof t) (of_int i :: u64)"
| "init_image t _ = replicate (sizeof t) 0"
| "init_members bs ((nm, t) # ms) (i # is) =
     init_members (bs @ replicate (align_up (length bs) (alignof t) - length bs) 0 @ init_image t i) ms is"
| "init_members bs _ _ = bs"

section \<open>Structures kept inside messages\<close>

definition pb_bytes_array_t :: ctype where
  "pb_bytes_array_t = CStruct [(''size'', CInt 4), (''bytes'', CArr (CInt 1) 1)]"

definition pb_callback_t :: ctype where
  "pb_callback_t = CStruct [(''funcs'', CPtr CBool), (''arg'', CPtr CBool)]"

definition pb_extension_t :: ctype where
  "pb_extension_t = CStruct [(''type'', CPtr CBool), (''dest'', CPtr CBool),
     (''next'', CPtr CBool), (''found'', CBool)]"

definition PB_BYTES_ARRAY_T_ALLOCSIZE :: "size_t \<Rightarrow> size_t" where
  "PB_BYTES_ARRAY_T_ALLOCSIZE n = n + of_nat (offsetof pb_bytes_array_t ''bytes'')"

definition bytes_size :: "mem \<Rightarrow> addr \<Rightarrow> pb_size_t" where
  "bytes_size m p = load_u32 m (p + of_nat (offsetof pb_bytes_array_t ''size''))"

definition bytes_bytes :: "addr \<Rightarrow> addr" where
  "bytes_bytes p = p + of_nat (offsetof pb_bytes_array_t ''bytes'')"

definition callback_funcs :: "mem \<Rightarrow> addr \<Rightarrow> addr" where
  "callback_funcs m p = load_ptr m (p + of_nat (offsetof pb_callback_t ''funcs''))"

definition callback_arg :: "addr \<Rightarrow> addr" where
  "callback_arg p = p + of_nat (offsetof pb_callback_t ''arg'')"

definition ext_type :: "mem \<Rightarrow> addr \<Rightarrow> addr" where
  "ext_type m p = load_ptr m (p + of_nat (offsetof pb_extension_t ''type''))"

definition ext_dest :: "addr \<Rightarrow> addr" where
  "ext_dest p = p + of_nat (offsetof pb_extension_t ''dest'')"

definition ext_next :: "mem \<Rightarrow> addr \<Rightarrow> addr" where
  "ext_next m p = load_ptr m (p + of_nat (offsetof pb_extension_t ''next''))"

definition ext_found :: "addr \<Rightarrow> addr" where
  "ext_found p = p + of_nat (offsetof pb_extension_t ''found'')"

lemma struct_offsets [simp]:
  "offsetof pb_bytes_array_t ''size'' = 0" "offsetof pb_bytes_array_t ''bytes'' = 4"
  "offsetof pb_callback_t ''funcs'' = 0" "offsetof pb_callback_t ''arg'' = 8"
  "offsetof pb_extension_t ''type'' = 0" "offsetof pb_extension_t ''dest'' = 8"
  "offsetof pb_extension_t ''next'' = 16" "offsetof pb_extension_t ''found'' = 24"
  by (simp_all add: offsetof_def pb_bytes_array_t_def pb_callback_t_def pb_extension_t_def
      align_up_def)

section \<open>Descriptor macros\<close>

definition pb_membersize :: "ctype \<Rightarrow> string \<Rightarrow> nat" where
  "pb_membersize st m = sizeof (member_type st m)"

text \<open>\<^verbatim>\<open>pb_membersize(st, m[0])\<close>.\<close>

definition pb_membersize0 :: "ctype \<Rightarrow> string \<Rightarrow> nat" where
  "pb_membersize0 st m = sizeof (element_type (member_type st m))"

definition pb_arraysize :: "ctype \<Rightarrow> string \<Rightarrow> nat" where
  "pb_arraysize st m = pb_membersize st m div pb_membersize0 st m"

definition pb_delta :: "ctype \<Rightarrow> string \<Rightarrow> string \<Rightarrow> u32" where
  "pb_delta st m1 m2 = of_int (int (offsetof st m1) - int (offsetof st m2))"

definition PB_DATAOFFSET_FIRST :: "ctype \<Rightarrow> string \<Rightarrow> string \<Rightarrow> u32" where
  "PB_DATAOFFSET_FIRST st m1 m2 = of_nat (offsetof st m1)"

definition PB_DATAOFFSET_OTHER :: "ctype \<Rightarrow> string \<Rightarrow> string \<Rightarrow> u32" where
  "PB_DATAOFFSET_OTHER st m1 m2 =
     of_nat (offsetof st m1) - of_nat (offsetof st m2) - of_nat (pb_membersize st m2)"

definition PB_DATAOFFSET_UNION :: "ctype \<Rightarrow> string \<Rightarrow> string \<Rightarrow> u32" where
  "PB_DATAOFFSET_UNION st m1 m2 = PB_SIZE_MAX"

definition PB_REQUIRED_STATIC :: "u32 \<Rightarrow> ctype \<Rightarrow> string \<Rightarrow> u32 \<Rightarrow> byte \<Rightarrow> pb_ptr \<Rightarrow> pb_field_t" where
  "PB_REQUIRED_STATIC tag st m fd ltype ptr =
     pb_field_s tag (PB_ATYPE_STATIC OR PB_HTYPE_REQUIRED OR ltype)
       fd 0 (of_nat (pb_membersize st m)) 0 ptr"

definition PB_OPTIONAL_STATIC :: "u32 \<Rightarrow> ctype \<Rightarrow> string \<Rightarrow> u32 \<Rightarrow> byte \<Rightarrow> pb_ptr \<Rightarrow> pb_field_t" where
  "PB_OPTIONAL_STATIC tag st m fd ltype ptr =
     pb_field_s tag (PB_ATYPE_STATIC OR PB_HTYPE_OPTIONAL OR ltype)
       fd (pb_delta st (''has_'' @ m) m) (of_nat (pb_membersize st m)) 0 ptr"

definition PB_SINGULAR_STATIC :: "u32 \<Rightarrow> ctype \<Rightarrow> string \<Rightarrow> u32 \<Rightarrow> byte \<Rightarrow> pb_ptr \<Rightarrow> pb_field_t" where
  "PB_SINGULAR_STATIC tag st m fd ltype ptr =
     pb_field_s tag (PB_ATYPE_STATIC OR PB_HTYPE_OPTIONAL OR ltype)
       fd 0 (of_nat (pb_membersize st m)) 0 ptr"

definition PB_REPEATED_STATIC :: "u32 \<Rightarrow> ctype \<Rightarrow> string \<Rightarrow> u32 \<Rightarrow> byte \<Rightarrow> pb_ptr \<Rightarrow> pb_field_t" where
  "PB_REPEATED_STATIC tag st m fd ltype ptr =
     pb_field_s tag (PB_ATYPE_STATIC OR PB_HTYPE_REPEATED OR ltype)
       fd (pb_delta st (m @ ''_count'') m) (of_nat (pb_membersize0 st m))
       (of_nat (pb_arraysize st m)) ptr"

definition PB_REQUIRED_POINTER :: "u32 \<Rightarrow> ctype \<Rightarrow> string \<Rightarrow> u32 \<Rightarrow> byte \<Rightarrow> pb_ptr \<Rightarrow> pb_field_t" where
  "PB_REQUIRED_POINTER tag st m fd ltype ptr =
     pb_field_s tag (PB_ATYPE_POINTER OR PB_HTYPE_REQUIRED OR ltype)
       fd 0 (of_nat (pb_membersize0 st m)) 0 ptr"

definition PB_OPTIONAL_POINTER :: "u32 \<Rightarrow> ctype \<Rightarrow> string \<Rightarrow> u32 \<Rightarrow> byte \<Rightarrow> pb_ptr \<Rightarrow> pb_field_t" where
  "PB_OPTIONAL_POINTER tag st m fd ltype ptr =
     pb_field_s tag (PB_ATYPE_POINTER OR PB_HTYPE_OPTIONAL OR ltype)
       fd 0 (of_nat (pb_membersize0 st m)) 0 ptr"

definition PB_SINGULAR_POINTER :: "u32 \<Rightarrow> ctype \<Rightarrow> string \<Rightarrow> u32 \<Rightarrow> byte \<Rightarrow> pb_ptr \<Rightarrow> pb_field_t" where
  "PB_SINGULAR_POINTER tag st m fd ltype ptr =
     pb_field_s tag (PB_ATYPE_POINTER OR PB_HTYPE_OPTIONAL OR ltype)
       fd 0 (of_nat (pb_membersize0 st m)) 0 ptr"

definition PB_REPEATED_POINTER :: "u32 \<Rightarrow> ctype \<Rightarrow> string \<Rightarrow> u32 \<Rightarrow> byte \<Rightarrow> pb_ptr \<Rightarrow> pb_field_t" where
  "PB_REPEATED_POINTER tag st m fd ltype ptr =
     pb_field_s tag (PB_ATYPE_POINTER OR PB_HTYPE_REPEATED OR ltype)
       fd (pb_delta st (m @ ''_count'') m) (of_nat (pb_membersize0 st m)) 0 ptr"

definition PB_REQUIRED_CALLBACK :: "u32 \<Rightarrow> ctype \<Rightarrow> string \<Rightarrow> u32 \<Rightarrow> byte \<Rightarrow> pb_ptr \<Rightarrow> pb_field_t" where
  "PB_REQUIRED_CALLBACK tag st m fd ltype ptr =
     pb_field_s tag (PB_ATYPE_CALLBACK OR PB_HTYPE_REQUIRED OR ltype)
       fd 0 (of_nat (pb_membersize st m)) 0 ptr"

definition PB_OPTIONAL_CALLBACK :: "u32 \<Rightarrow> ctype \<Rightarrow> string \<Rightarrow> u32 \<Rightarrow> byte \<Rightarrow> pb_ptr \<Rightarrow> pb_field_t" where
  "PB_OPTIONAL_CALLBACK tag st m fd ltype ptr =
     pb_field_s tag (PB_ATYPE_CALLBACK OR PB_HTYPE_OPTIONAL OR ltype)
       fd 0 (of_nat (pb_membersize st m)) 0 ptr"

definition PB_SINGULAR_CALLBACK :: "u32 \<Rightarrow> ctype \<Rightarrow> string \<Rightarrow> u32 \<Rightarrow> byte \<Rightarrow> pb_ptr \<Rightarrow> pb_field_t" where
  "PB_SINGULAR_CALLBACK tag st m fd ltype ptr =
     pb_field_s tag (PB_ATYPE_CALLBACK OR PB_HTYPE_OPTIONAL OR ltype)
       fd 0 (of_nat (pb_membersize st m)) 0 ptr"

definition PB_REPEATED_CALLBACK :: "u32 \<Rightarrow> ctype \<Rightarrow> string \<Rightarrow> u32 \<Rightarrow> byte \<Rightarrow> pb_ptr \<Rightarrow> pb_field_t" where
  "PB_REPEATED_CALLBACK tag st m fd ltype ptr =
     pb_field_s tag (PB_ATYPE_CALLBACK OR PB_HTYPE_REPEATED OR ltype)
       fd 0 (of_nat (pb_membersize st m)) 0 ptr"

definition PB_OPTEXT_STATIC :: "u32 \<Rightarrow> ctype \<Rightarrow> string \<Rightarrow> u32 \<Rightarrow> byte \<Rightarrow> pb_ptr \<Rightarrow> pb_field_t" where
  "PB_OPTEXT_STATIC tag st m fd ltype ptr =
     pb_field_s tag (PB_ATYPE_STATIC OR PB_HTYPE_REQUIRED OR ltype)
       0 0 (of_nat (pb_membersize st m)) 0 ptr"

text \<open>
  \<open>PB_FIELD\<close> pastes its argument tokens into the name of one of the macros above; the
  tokens are the constructors of the following types.
\<close>

datatype pb_proto_type =
    T_BOOL | T_BYTES | T_DOUBLE | T_ENUM | T_UENUM | T_FIXED32 | T_FIXED64 | T_FLOAT
  | T_INT32 | T_INT64 | T_MESSAGE | T_SFIXED32 | T_SFIXED64 | T_SINT32 | T_SINT64
  | T_STRING | T_UINT32 | T_UINT64 | T_EXTENSION | T_FIXED_LENGTH_BYTES

datatype pb_rules = R_REQUIRED | R_OPTIONAL | R_SINGULAR | R_REPEATED | R_OPTEXT

datatype pb_allocation = A_STATIC | A_POINTER | A_CALLBACK

datatype pb_placement = P_FIRST | P_OTHER | P_UNION

fun PB_LTYPE_MAP :: "pb_proto_type \<Rightarrow> pb_type_t" where
  "PB_LTYPE_MAP T_BOOL = PB_LTYPE_BOOL"
| "PB_LTYPE_MAP T_BYTES = PB_LTYPE_BYTES"
| "PB_LTYPE_MAP T_DOUBLE = PB_LTYPE_FIXED64"
| "PB_LTYPE_MAP T_ENUM = PB_LTYPE_VARINT"
| "PB_LTYPE_MAP T_UENUM = PB_LTYPE_UVARINT"
| "PB_LTYPE_MAP T_FIXED32 = PB_LTYPE_FIXED32"
| "PB_LTYPE_MAP T_FIXED64 = PB_LTYPE_FIXED64"
| "PB_LTYPE_MAP T_FLOAT = PB_LTYPE_FIXED32"
| "PB_LTYPE_MAP T_INT32 = PB_LTYPE_VARINT"
| "PB_LTYPE_MAP T_INT64 = PB_LTYPE_VARINT"
| "PB_LTYPE_MAP T_MESSAGE = PB_LTYPE_SUBMESSAGE"
| "PB_LTYPE_MAP T_SFIXED32 = PB_LTYPE_FIXED32"
| "PB_LTYPE_MAP T_SFIXED64 = PB_LTYPE_FIXED64"
| "PB_LTYPE_MAP T_SINT32 = PB_LTYPE_SVARINT"
| "PB_LTYPE_MAP T_SINT64 = PB_LTYPE_SVARINT"
| "PB_LTYPE_MAP T_STRING = PB_LTYPE_STRING"
| "PB_LTYPE_MAP T_UINT32 = PB_LTYPE_UVARINT"
| "PB_LTYPE_MAP T_UINT64 = PB_LTYPE_UVARINT"
| "PB_LTYPE_MAP T_EXTENSION = PB_LTYPE_EXTENSION"
| "PB_LTYPE_MAP T_FIXED_LENGTH_BYTES = PB_LTYPE_FIXED_LENGTH_BYTES"

fun PB_DATAOFFSET :: "pb_placement \<Rightarrow> ctype \<Rightarrow> string \<Rightarrow> string \<Rightarrow> u32" where
  "PB_DATAOFFSET P_FIRST st m1 m2 = PB_DATAOFFSET_FIRST st m1 m2"
| "PB_DATAOFFSET P_OTHER st m1 m2 = PB_DATAOFFSET_OTHER st m1 m2"
| "PB_DATAOFFSET P_UNION st m1 m2 = PB_DATAOFFSET_UNION st m1 m2"

fun PB_rules_allocation ::
  "pb_rules \<Rightarrow> pb_allocation \<Rightarrow> u32 \<Rightarrow> ctype \<Rightarrow> string \<Rightarrow> u32 \<Rightarrow> byte \<Rightarrow> pb_ptr \<Rightarrow> pb_field_t" where
  "PB_rules_allocation R_REQUIRED A_STATIC = PB_REQUIRED_STATIC"
| "PB_rules_allocation R_OPTIONAL A_STATIC = PB_OPTIONAL_STATIC"
| "PB_rules_allocation R_SINGULAR A_STATIC = PB_SINGULAR_STATIC"
| "PB_rules_allocation R_REPEATED A_STATIC = PB_REPEATED_STATIC"
| "PB_rules_allocation R_REQUIRED A_POINTER = PB_REQUIRED_POINTER"
| "PB_rules_allocation R_OPTIONAL A_POINTER = PB_OPTIONAL_POINTER"
| "PB_rules_allocation R_SINGULAR A_POINTER = PB_SINGULAR_POINTER"
| "PB_rules_allocation R_REPEATED A_POINTER = PB_REPEATED_POINTER"
| "PB_rules_allocation R_REQUIRED A_CALLBACK = PB_REQUIRED_CALLBACK"
| "PB_rules_allocation R_OPTIONAL A_CALLBACK = PB_OPTIONAL_CALLBACK"
| "PB_rules_allocation R_SINGULAR A_CALLBACK = PB_SINGULAR_CALLBACK"
| "PB_rules_allocation R_REPEATED A_CALLBACK = PB_REPEATED_CALLBACK"
| "PB_rules_allocation R_OPTEXT A_STATIC = PB_OPTEXT_STATIC"
| "PB_rules_allocation R_OPTEXT A_POINTER = PB_OPTIONAL_POINTER"
| "PB_rules_allocation R_OPTEXT A_CALLBACK = PB_OPTIONAL_CALLBACK"

definition PB_FIELD ::
  "u32 \<Rightarrow> pb_proto_type \<Rightarrow> pb_rules \<Rightarrow> pb_allocation \<Rightarrow> pb_placement \<Rightarrow> ctype \<Rightarrow> string \<Rightarrow> string \<Rightarrow>
   pb_ptr \<Rightarrow> pb_field_t" where
  "PB_FIELD tag type rules allocation placement message field prevfield ptr =
     PB_rules_allocation rules allocation tag message field
       (PB_DATAOFFSET placement message field prevfield) (PB_LTYPE_MAP type) ptr"

definition PB_REPEATED_FIXED_COUNT ::
  "u32 \<Rightarrow> pb_proto_type \<Rightarrow> pb_placement \<Rightarrow> ctype \<Rightarrow> string \<Rightarrow> string \<Rightarrow> pb_ptr \<Rightarrow> pb_field_t" where
  "PB_REPEATED_FIXED_COUNT tag type placement message field prevfield ptr =
     pb_field_s tag (PB_ATYPE_STATIC OR PB_HTYPE_REPEATED OR PB_LTYPE_MAP type)
       (PB_DATAOFFSET placement message field prevfield) 0
       (of_nat (pb_membersize0 message field)) (of_nat (pb_arraysize message field)) ptr"

end
