(* ===== verification/Pb_Common.thy ===== *)
theory Pb_Common
  imports Pb_Base
begin

text \<open>
  \<^verbatim>\<open>nanopb/pb_common.c\<close>: the iterator over a field array. It walks a descriptor array and
  a message struct together, keeping the address of the current field's data (\<open>pData\<close>) and
  of its count, has-flag or union tag (\<open>pSize\<close>).
\<close>

section \<open>The iterator\<close>

text \<open>
  \<open>pSize\<close> is an address of the message memory except while \<open>pb_decode_noinit\<close> makes it
  point at its local variable \<open>fixed_count_size\<close>.
\<close>

datatype psize_ptr = PS_mem addr | PS_fixed_count

record pb_field_iter_t =
  it_start :: "pb_field_t list"
  it_pos :: nat
  it_required_field_index :: u32
  it_dest_struct :: addr
  it_pData :: addr
  it_pSize :: psize_ptr

abbreviation it_field :: "pb_field_iter_t \<Rightarrow> pb_field_t" where
  "it_field it \<equiv> field_at (it_start it) (it_pos it)"

definition pb_field_iter_begin :: "pb_field_t list \<Rightarrow> addr \<Rightarrow> bool \<times> pb_field_iter_t" where
  "pb_field_iter_begin fds dest_struct =
     (let pos = field_at fds 0;
          pData = dest_struct + ucast (f_data_offset pos);
          pSize = pData + scast (f_size_offset pos)
      in (f_tag pos \<noteq> 0,
          \<lparr>it_start = fds, it_pos = 0, it_required_field_index = 0,
           it_dest_struct = dest_struct, it_pData = pData, it_pSize = PS_mem pSize\<rparr>))"

definition pb_field_iter_next :: "pb_field_iter_t \<Rightarrow> bool \<times> pb_field_iter_t" where
  "pb_field_iter_next iter =
     (let prev_field = it_field iter in
      if f_tag prev_field = 0 then (False, iter)
      else
        let iter = iter\<lparr>it_pos := Suc (it_pos iter)\<rparr>; pos = it_field iter in
        if f_tag pos = 0 then
          (False, snd (pb_field_iter_begin (it_start iter) (it_dest_struct iter)))
        else if PB_HTYPE (f_type prev_field) = PB_HTYPE_ONEOF \<and>
                PB_HTYPE (f_type pos) = PB_HTYPE_ONEOF \<and>
                f_data_offset pos = PB_SIZE_MAX then
          (True, iter)
        else
          let prev_size :: size_t =
                (if PB_ATYPE (f_type prev_field) = PB_ATYPE_STATIC \<and>
                    PB_HTYPE (f_type prev_field) = PB_HTYPE_REPEATED
                 then ucast (f_data_size prev_field) * ucast (f_array_size prev_field)
                 else if PB_ATYPE (f_type prev_field) = PB_ATYPE_POINTER
                 then of_nat (sizeof (CPtr CBool))
                 else ucast (f_data_size prev_field));
              iter = (if PB_HTYPE (f_type prev_field) = PB_HTYPE_REQUIRED
                      then iter\<lparr>it_required_field_index := it_required_field_index iter + 1\<rparr>
                      else iter);
              pData = it_pData iter + prev_size + ucast (f_data_offset pos)
          in (True, iter\<lparr>it_pData := pData, it_pSize := PS_mem (pData + scast (f_size_offset pos))\<rparr>))"

lemma iter_next_start [simp]: "it_start (snd (pb_field_iter_next it)) = it_start it"
  by (simp add: pb_field_iter_next_def pb_field_iter_begin_def Let_def)

lemma iter_next_dest [simp]: "it_dest_struct (snd (pb_field_iter_next it)) = it_dest_struct it"
  by (simp add: pb_field_iter_next_def pb_field_iter_begin_def Let_def)

lemma iter_next_pos:
  "it_pos (snd (pb_field_iter_next it)) =
     (if f_tag (it_field it) = 0 then it_pos it
      else if f_tag (field_at (it_start it) (Suc (it_pos it))) = 0 then 0
      else Suc (it_pos it))"
  by (simp add: pb_field_iter_next_def pb_field_iter_begin_def Let_def)

lemma iter_next_more:
  "fst (pb_field_iter_next it) \<longleftrightarrow>
     f_tag (it_field it) \<noteq> 0 \<and> f_tag (field_at (it_start it) (Suc (it_pos it))) \<noteq> 0"
  by (simp add: pb_field_iter_next_def pb_field_iter_begin_def Let_def)

text \<open>
  The search loops of \<open>pb_field_iter_find\<close> and \<open>find_extension_field\<close> differ only in
  their test. The loop leaves when the iterator is back at its start; each pass moves to
  the next position of a cycle of at most \<open>length fds\<close> positions, so the bound below is
  never what ends it (\<open>iter_find_at\<close>).
\<close>

fun find_loop :: "(pb_field_t \<Rightarrow> bool) \<Rightarrow> nat \<Rightarrow> nat \<Rightarrow> pb_field_iter_t \<Rightarrow> bool \<times> pb_field_iter_t" where
  "find_loop found start 0 iter = (False, iter)"
| "find_loop found start (Suc n) iter =
     (if found (it_field iter) then (True, iter)
      else let iter' = snd (pb_field_iter_next iter)
           in if it_pos iter' \<noteq> start then find_loop found start n iter' else (False, iter'))"

definition pb_field_iter_find :: "pb_field_iter_t \<Rightarrow> u32 \<Rightarrow> bool \<times> pb_field_iter_t" where
  "pb_field_iter_find iter tag =
     find_loop (\<lambda>pos. f_tag pos = tag \<and> PB_LTYPE (f_type pos) \<noteq> PB_LTYPE_EXTENSION)
       (it_pos iter) (Suc (length (it_start iter))) iter"

text \<open>
  The \<^verbatim>\<open>do { ... } while (pb_field_iter_next(&iter))\<close> loop that the encoder, the
  decoder's initialisation and \<open>pb_release\<close> share. The body returns \<open>False\<close> to leave the
  enclosing function.
\<close>

function iter_loop ::
  "(pb_field_iter_t \<Rightarrow> 's \<Rightarrow> bool \<times> 's) \<Rightarrow> pb_field_iter_t \<Rightarrow> 's \<Rightarrow> bool \<times> 's" where
  "iter_loop body iter s =
     (case body iter s of (ok, s') \<Rightarrow>
        if \<not> ok then (False, s')
        else if fst (pb_field_iter_next iter)
             then iter_loop body (snd (pb_field_iter_next iter)) s'
             else (True, s'))"
  by pat_completeness auto
termination
proof (relation "measure (\<lambda>(body, iter, s). length (it_start iter) - it_pos iter)", simp)
  fix body :: "pb_field_iter_t \<Rightarrow> 's \<Rightarrow> bool \<times> 's" and iter s x ok s'
  assume more: "fst (pb_field_iter_next iter)"
  then have "f_tag (field_at (it_start iter) (Suc (it_pos iter))) \<noteq> 0"
    by (simp add: iter_next_more)
  then have "Suc (it_pos iter) < length (it_start iter)"
    by (rule field_at_tag_bound)
  with more show "((body, snd (pb_field_iter_next iter), s'), (body, iter, s))
      \<in> measure (\<lambda>(body, iter, s). length (it_start iter) - it_pos iter)"
    by (simp add: iter_next_pos iter_next_more)
qed

declare iter_loop.simps [simp del]

lemma iter_loop_cong [fundef_cong]:
  assumes "iter = iter'" and "s = s'"
    and "\<And>it t. it_start it = it_start iter' \<Longrightarrow> body it t = body' it t"
  shows "iter_loop body iter s = iter_loop body' iter' s'"
proof -
  have "(\<forall>it t. it_start it = fds \<longrightarrow> body it t = body' it t) \<Longrightarrow> it_start it = fds \<Longrightarrow>
    iter_loop body it t = iter_loop body' it t" for it t fds
  proof (induction body it t rule: iter_loop.induct)
    case (1 body it t)
    then have eq: "body it t = body' it t" by simp
    show ?case
      unfolding iter_loop.simps [of body it t] iter_loop.simps [of body' it t] eq
      by (rule prod.case_cong [OF refl]) (use 1 eq in auto)
  qed
  then show ?thesis using assms by blast
qed

section \<open>The positions an iterator visits\<close>

definition nfields :: "pb_field_t list \<Rightarrow> nat" where
  "nfields fds = length (takeWhile (\<lambda>f. f_tag f \<noteq> 0) fds)"

lemma nfields_le: "nfields fds \<le> length fds"
  by (simp add: nfields_def length_takeWhile_le)

lemma tag_before_terminator: "i < nfields fds \<Longrightarrow> f_tag (field_at fds i) \<noteq> 0"
proof -
  assume i: "i < nfields fds"
  then have "takeWhile (\<lambda>f. f_tag f \<noteq> 0) fds ! i \<in> set (takeWhile (\<lambda>f. f_tag f \<noteq> 0) fds)"
    by (simp add: nfields_def)
  then have "f_tag (takeWhile (\<lambda>f. f_tag f \<noteq> 0) fds ! i) \<noteq> 0"
    by (blast dest: set_takeWhileD)
  moreover have "i < length fds" using i nfields_le [of fds] by linarith
  ultimately show ?thesis
    using i by (simp add: field_at_def nfields_def takeWhile_nth)
qed

lemma tag_at_terminator [simp]: "f_tag (field_at fds (nfields fds)) = 0"
  using nth_length_takeWhile [of "\<lambda>f. f_tag f \<noteq> 0" fds]
  by (auto simp: field_at_def nfields_def)

lemma nfields_0_iff: "nfields fds = 0 \<longleftrightarrow> f_tag (field_at fds 0) = 0"
  by (cases fds) (auto simp: nfields_def field_at_def)

fun iter_at :: "pb_field_t list \<Rightarrow> addr \<Rightarrow> nat \<Rightarrow> pb_field_iter_t" where
  "iter_at fds a 0 = snd (pb_field_iter_begin fds a)"
| "iter_at fds a (Suc i) = snd (pb_field_iter_next (iter_at fds a i))"

lemma iter_begin_fst: "fst (pb_field_iter_begin fds a) \<longleftrightarrow> nfields fds \<noteq> 0"
  by (simp add: pb_field_iter_begin_def Let_def nfields_0_iff)

lemma iter_begin_at: "pb_field_iter_begin fds a = (nfields fds \<noteq> 0, iter_at fds a 0)"
  by (simp add: prod_eq_iff iter_begin_fst)

lemma iter_at_start [simp]: "it_start (iter_at fds a i) = fds"
  by (induction i) (simp_all add: pb_field_iter_begin_def Let_def)

lemma iter_at_dest [simp]: "it_dest_struct (iter_at fds a i) = a"
  by (induction i) (simp_all add: pb_field_iter_begin_def Let_def)

lemma iter_at_pos: "i < nfields fds \<Longrightarrow> it_pos (iter_at fds a i) = i"
proof (induction i)
  case 0
  then show ?case by (simp add: pb_field_iter_begin_def Let_def)
next
  case (Suc i)
  then have pos: "it_pos (iter_at fds a i) = i" by simp
  have "f_tag (field_at fds i) \<noteq> 0" and "f_tag (field_at fds (Suc i)) \<noteq> 0"
    using Suc.prems by (simp_all add: tag_before_terminator)
  with pos show ?case by (simp add: iter_next_pos)
qed

lemma iter_at_0_pos [simp]: "it_pos (iter_at fds a 0) = 0"
  by (simp add: pb_field_iter_begin_def Let_def)

lemmas iter_at_Suc = iter_at.simps(2)

declare iter_at.simps [simp del]

lemma iter_next_at: "Suc i < nfields fds \<Longrightarrow> pb_field_iter_next (iter_at fds a i) = (True, iter_at fds a (Suc i))"
  using tag_before_terminator [of i fds] tag_before_terminator [of "Suc i" fds]
  by (simp add: prod_eq_iff iter_next_more iter_at_pos iter_at_Suc)

lemma iter_next_last:
  assumes "Suc i = nfields fds"
  shows "pb_field_iter_next (iter_at fds a i) = (False, iter_at fds a 0)"
proof -
  have i: "i < nfields fds" using assms by simp
  have t: "f_tag (field_at fds (Suc i)) = 0" using assms tag_at_terminator [of fds] by simp
  show ?thesis
    using tag_before_terminator [OF i] t
    by (simp add: pb_field_iter_next_def Let_def iter_at_pos [OF i] iter_at.simps(1))
qed

section \<open>Loops over the fields\<close>

fun run_iters ::
  "(pb_field_iter_t \<Rightarrow> 's \<Rightarrow> bool \<times> 's) \<Rightarrow> pb_field_iter_t list \<Rightarrow> 's \<Rightarrow> bool \<times> 's" where
  "run_iters body [] s = (True, s)"
| "run_iters body (it # its) s =
     (case body it s of (ok, s') \<Rightarrow> if \<not> ok then (False, s') else run_iters body its s')"

definition iters :: "pb_field_t list \<Rightarrow> addr \<Rightarrow> pb_field_iter_t list" where
  "iters fds a = map (iter_at fds a) [0..<nfields fds]"

lemma iter_loop_from:
  "i < nfields fds \<Longrightarrow>
   iter_loop body (iter_at fds a i) s = run_iters body (map (iter_at fds a) [i..<nfields fds]) s"
proof (induction "nfields fds - i" arbitrary: i s)
  case 0
  then show ?case by simp
next
  case (Suc k)
  have up: "[i..<nfields fds] = i # [Suc i..<nfields fds]"
    using Suc.prems by (simp add: upt_rec)
  show ?case
  proof (cases "Suc i < nfields fds")
    case True
    have "iter_loop body (iter_at fds a (Suc i)) t =
      run_iters body (map (iter_at fds a) [Suc i..<nfields fds]) t" for t
      using Suc.hyps True by simp
    then show ?thesis
      by (subst iter_loop.simps) (simp add: up iter_next_at [OF True] split: prod.split)
  next
    case False
    then have last: "Suc i = nfields fds" using Suc.prems by simp
    show ?thesis
      by (subst iter_loop.simps)
        (simp add: up iter_next_last [OF last] last split: prod.split)
  qed
qed

lemma iter_loop_begin:
  "nfields fds \<noteq> 0 \<Longrightarrow> iter_loop body (iter_at fds a 0) s = run_iters body (iters fds a) s"
  by (simp add: iters_def iter_loop_from)

section \<open>Searching for a tag\<close>

lemma find_loop_below:
  assumes "k < start" "start < nfields fds" "start - k \<le> n"
  shows "find_loop p start n (iter_at fds a k) =
    (case List.find (\<lambda>j. p (field_at fds j)) [k..<start] of
       Some j \<Rightarrow> (True, iter_at fds a j) | None \<Rightarrow> (False, iter_at fds a start))"
  using assms
proof (induction n arbitrary: k)
  case 0
  then show ?case by simp
next
  case (Suc n)
  have up: "[k..<start] = k # [Suc k..<start]"
    using Suc.prems by (simp add: upt_rec)
  have k: "k < nfields fds" and nx: "Suc k < nfields fds"
    using Suc.prems by auto
  show ?case
  proof (cases "p (field_at fds k)")
    case True
    then show ?thesis by (simp add: up iter_at_pos [OF k])
  next
    case np: False
    show ?thesis
    proof (cases "Suc k = start")
      case True
      then have "it_pos (iter_at fds a start) = start"
        using iter_at_pos [OF nx, of a] by simp
      with True np show ?thesis
        by (simp add: up iter_at_pos [OF k] iter_next_at [OF nx] Let_def)
    next
      case False
      have "find_loop p start n (iter_at fds a (Suc k)) =
        (case List.find (\<lambda>j. p (field_at fds j)) [Suc k..<start] of
           Some j \<Rightarrow> (True, iter_at fds a j) | None \<Rightarrow> (False, iter_at fds a start))"
        using Suc.prems False by (intro Suc.IH) auto
      then show ?thesis using np False
        by (simp add: up iter_at_pos [OF k] iter_next_at [OF nx] iter_at_pos [OF nx] Let_def
           )
    qed
  qed
qed

lemma find_loop_above:
  assumes "start \<le> k" "k < nfields fds" "nfields fds - k + start \<le> n"
  shows "find_loop p start n (iter_at fds a k) =
    (case List.find (\<lambda>j. p (field_at fds j)) ([k..<nfields fds] @ [0..<start]) of
       Some j \<Rightarrow> (True, iter_at fds a j) | None \<Rightarrow> (False, iter_at fds a start))"
  using assms
proof (induction n arbitrary: k)
  case 0
  then show ?case by simp
next
  case (Suc n)
  have up: "[k..<nfields fds] = k # [Suc k..<nfields fds]"
    using Suc.prems by (simp add: upt_rec)
  have k: "k < nfields fds" using Suc.prems by auto
  show ?case
  proof (cases "p (field_at fds k)")
    case True
    then show ?thesis by (simp add: up iter_at_pos [OF k])
  next
    case np: False
    show ?thesis
    proof (cases "Suc k < nfields fds")
      case nx: True
      have "find_loop p start n (iter_at fds a (Suc k)) =
        (case List.find (\<lambda>j. p (field_at fds j)) ([Suc k..<nfields fds] @ [0..<start]) of
           Some j \<Rightarrow> (True, iter_at fds a j) | None \<Rightarrow> (False, iter_at fds a start))"
        using Suc.prems nx by (intro Suc.IH) auto
      then show ?thesis using np nx Suc.prems
        by (simp add: up iter_at_pos [OF k] iter_next_at [OF nx] iter_at_pos [OF nx] Let_def
           )
    next
      case False
      then have last: "Suc k = nfields fds" using k by simp
      show ?thesis
      proof (cases "start = 0")
        case True
        then show ?thesis using np
          by (simp add: up last iter_at_pos [OF k] iter_next_last [OF last] Let_def)
      next
        case s0: False
        have "find_loop p start n (iter_at fds a 0) =
          (case List.find (\<lambda>j. p (field_at fds j)) [0..<start] of
             Some j \<Rightarrow> (True, iter_at fds a j) | None \<Rightarrow> (False, iter_at fds a start))"
          using Suc.prems s0 last by (intro find_loop_below) auto
        then show ?thesis using np s0
          by (simp add: up last iter_at_pos [OF k] iter_next_last [OF last] Let_def)
      qed
    qed
  qed
qed

text \<open>
  From any position the search looks at every field once, in cyclic order, and stops at the
  first match; without a match it returns \<open>False\<close> and the iterator is where it was.
\<close>

lemma find_loop_cyclic:
  assumes "i < nfields fds"
  shows "find_loop p i (Suc (length fds)) (iter_at fds a i) =
    (case List.find (\<lambda>j. p (field_at fds j)) ([i..<nfields fds] @ [0..<i]) of
       Some j \<Rightarrow> (True, iter_at fds a j) | None \<Rightarrow> (False, iter_at fds a i))"
  using assms nfields_le [of fds] by (intro find_loop_above) auto

lemma iter_find_at:
  assumes "i < nfields fds"
  shows "pb_field_iter_find (iter_at fds a i) tag =
    (case List.find (\<lambda>j. f_tag (field_at fds j) = tag \<and>
            PB_LTYPE (f_type (field_at fds j)) \<noteq> PB_LTYPE_EXTENSION) ([i..<nfields fds] @ [0..<i]) of
       Some j \<Rightarrow> (True, iter_at fds a j) | None \<Rightarrow> (False, iter_at fds a i))"
  unfolding pb_field_iter_find_def iter_at_pos [OF assms] iter_at_start
  by (rule find_loop_cyclic [OF assms])

end
