(* ===== verification/Varint.thy ===== *)
theory Varint
  imports Prelude
begin

text \<open>
  The variable-length format of integers that both nanopb and leveldb use, and the word
  facts about its bytes that their encoders and decoders share.
\<close>

section \<open>The varint format\<close>

text \<open>
  The base-128 format on natural numbers: seven bits per
  byte, least significant group first, the top bit set on every byte but the last.
\<close>

fun varint :: "nat \<Rightarrow> byte list" where
  "varint n = (if n < 128 then [of_nat n] else of_nat (n mod 128 + 128) # varint (n div 128))"

declare varint.simps [simp del]

lemma varint_small: "n < 128 \<Longrightarrow> varint n = [of_nat n]"
  by (subst varint.simps) simp

lemma varint_not_Nil [simp]: "varint n \<noteq> []"
  by (subst varint.simps) simp

lemma length_varint: "n < 2 ^ (7 * k) \<Longrightarrow> 0 < k \<Longrightarrow> length (varint n) \<le> k"
proof (induction k arbitrary: n)
  case 0
  then show ?case by simp
next
  case (Suc k)
  show ?case
  proof (cases "n < 128")
    case True
    then show ?thesis by (simp add: varint.simps)
  next
    case False
    have "n div 128 < 2 ^ (7 * k)"
      using Suc.prems by (simp add: less_mult_imp_div_less power_add mult.commute)
    moreover have "0 < k"
      using False Suc.prems by (cases k) auto
    ultimately have "length (varint (n div 128)) \<le> k"
      by (rule Suc.IH)
    then show ?thesis using False by (subst varint.simps) simp
  qed
qed

lemma length_varint_u64: "length (varint (unat (v :: u64))) \<le> 10"
  using unat_bound [of v] by (intro length_varint) auto

section \<open>Bytes of a varint\<close>

lemma byte_last: "k < 128 \<Longrightarrow> (of_nat k :: byte) AND 0x80 = 0 \<and> (of_nat k :: byte) AND 0x7F = of_nat k"
proof -
  assume k: "k < 128"
  have "\<forall>i \<in> set [0..<128]. (of_nat i :: byte) AND 0x80 = 0 \<and> (of_nat i :: byte) AND 0x7F = of_nat i"
    by code_simp
  with k show ?thesis by simp
qed

lemma byte_cont:
  "k < 128 \<Longrightarrow> (of_nat (k + 128) :: byte) AND 0x80 \<noteq> 0 \<and> (of_nat (k + 128) :: byte) AND 0x7F = of_nat k"
proof -
  assume k: "k < 128"
  have "\<forall>i \<in> set [0..<128]. (of_nat (i + 128) :: byte) AND 0x80 \<noteq> 0 \<and>
      (of_nat (i + 128) :: byte) AND 0x7F = of_nat i"
    by code_simp
  with k show ?thesis by simp
qed

lemma push_groups:
  "push_bit p (of_nat (n mod 128)) OR push_bit (p + 7) (of_nat (n div 128)) = (push_bit p (of_nat n) :: 'a::len word)"
proof (rule bit_word_eqI)
  fix k assume k: "k < LENGTH('a)"
  have groups: "n mod 128 = take_bit 7 n" "n div 128 = drop_bit 7 n"
    by (simp_all add: take_bit_eq_mod drop_bit_eq_div)
  show "bit (push_bit p (of_nat (n mod 128)) OR push_bit (p + 7) (of_nat (n div 128)) :: 'a word) k =
    bit (push_bit p (of_nat n) :: 'a word) k"
    unfolding groups
    using k by (cases "p + 7 \<le> k") (auto simp: bit_or_iff bit_push_bit_iff bit_of_nat_iff bit_take_bit_iff bit_drop_bit_eq)
qed

lemma ucast_of_nat_byte: "k < 256 \<Longrightarrow> (ucast (of_nat k :: byte) :: 'a::len word) = of_nat k"
  by (simp add: unsigned_of_nat take_bit_nat_eq_self)

end
