(* ===== verification/Pb_Ostream.thy ===== *)
theory Pb_Ostream
  imports Pb_Base Varint
begin

text \<open>
  The output side of \<^verbatim>\<open>nanopb/pb_encode.c\<close> below the level of messages: the stream
  \<open>pb_ostream_t\<close>, \<open>pb_write\<close>, and the encoders of integers, tags and strings. The
  contract of a stream is the locale \<open>os_device\<close>: what a write of some bytes does when they
  fit. It is met by sizing streams (no callback) and by memory-buffer streams, and the
  integer, tag and string encoders are shown to emit their wire format once, inside it.
\<close>

section \<open>Output streams\<close>

text \<open>
  The memory behind \<open>state\<close> is a byte buffer with the position of the write pointer in
  it. A user's callback reads and writes that state and returns false on an I/O error, the
  rules that \<^verbatim>\<open>pb_encode.h\<close> lays down for it. Output buffers are objects of their own: they
  do not overlap the message being encoded.
\<close>

type_synonym ostate = "byte list \<times> nat"

datatype os_cb =
    is_OS_NULL: OS_NULL
  | OS_buf_write
  | OS_user "ostate \<Rightarrow> byte list \<Rightarrow> bool \<times> ostate"

record pb_ostream_t =
  os_callback :: os_cb
  os_state :: ostate
  os_max_size :: size_t
  os_bytes_written :: size_t
  os_errmsg :: "string option"

definition os_set_error :: "pb_ostream_t \<Rightarrow> string \<Rightarrow> pb_ostream_t" where
  "os_set_error s msg = s\<lparr>os_errmsg := (case os_errmsg s of Some e \<Rightarrow> Some e | None \<Rightarrow> Some msg)\<rparr>"

definition os_return_error :: "pb_ostream_t \<Rightarrow> string \<Rightarrow> bool \<times> pb_ostream_t" where
  "os_return_error s msg = (False, os_set_error s msg)"

text \<open>\<^verbatim>\<open>for (i = 0; i < count; i++) dest[i] = buf[i];\<close>\<close>

fun copy_loop :: "byte list \<Rightarrow> nat \<Rightarrow> byte list \<Rightarrow> byte list" where
  "copy_loop dest i [] = dest"
| "copy_loop dest i (b # bs) = copy_loop (dest[i := b]) (Suc i) bs"

definition buf_write :: "pb_ostream_t \<Rightarrow> byte list \<Rightarrow> bool \<times> pb_ostream_t" where
  "buf_write s buf =
     (case os_state s of (mem_buf, dest) \<Rightarrow>
        (True, s\<lparr>os_state := (copy_loop mem_buf dest buf, dest + length buf)\<rparr>))"

definition pb_ostream_from_buffer :: "byte list \<Rightarrow> size_t \<Rightarrow> pb_ostream_t" where
  "pb_ostream_from_buffer buf bufsize =
     \<lparr>os_callback = OS_buf_write, os_state = (buf, 0), os_max_size = bufsize,
      os_bytes_written = 0, os_errmsg = None\<rparr>"

definition PB_OSTREAM_SIZING :: pb_ostream_t where
  "PB_OSTREAM_SIZING =
     \<lparr>os_callback = OS_NULL, os_state = ([], 0), os_max_size = 0, os_bytes_written = 0,
      os_errmsg = None\<rparr>"

text \<open>\<^verbatim>\<open>stream->callback(stream, buf, count)\<close>, for a callback that is not null.\<close>

definition os_call :: "pb_ostream_t \<Rightarrow> byte list \<Rightarrow> bool \<times> pb_ostream_t" where
  "os_call s buf =
     (case os_callback s of
        OS_NULL \<Rightarrow> (False, s)
      | OS_buf_write \<Rightarrow> buf_write s buf
      | OS_user f \<Rightarrow> (case f (os_state s) buf of (ok, st) \<Rightarrow> (ok, s\<lparr>os_state := st\<rparr>)))"

text \<open>The first \<open>count\<close> bytes of \<open>buf\<close> are written; a sizing stream is also given no buffer.\<close>

definition pb_write :: "pb_ostream_t \<Rightarrow> byte list \<Rightarrow> size_t \<Rightarrow> bool \<times> pb_ostream_t" where
  "pb_write s buf count =
     (if count > 0 \<and> \<not> is_OS_NULL (os_callback s) then
        if os_bytes_written s + count < os_bytes_written s \<or>
           os_bytes_written s + count > os_max_size s
        then os_return_error s ''stream full''
        else case os_call s (take (unat count) buf) of (ok, s') \<Rightarrow>
               if \<not> ok then os_return_error s' ''io error''
               else (True, s'\<lparr>os_bytes_written := os_bytes_written s' + count\<rparr>)
      else (True, s\<lparr>os_bytes_written := os_bytes_written s + count\<rparr>))"

section \<open>Integer, tag and string encoders\<close>

text \<open>The loop that fills \<open>buffer\<close> in \<open>pb_encode_varint\<close>.\<close>

function varint_loop :: "u64 \<Rightarrow> byte list" where
  "varint_loop value =
     (if value = 0 then []
      else (ucast (value AND 0x7F) OR 0x80) # varint_loop (drop_bit 7 value))"
  by pat_completeness auto
termination
proof (relation "measure unat", simp)
  fix v :: u64
  assume "v \<noteq> 0"
  then have "0 < unat v" by (simp add: unat_gt_0)
  then have "unat (drop_bit 7 v) < unat v"
    unfolding unat_drop_bit by simp
  then show "(drop_bit 7 v, v) \<in> measure unat" by simp
qed

declare varint_loop.simps [simp del]

definition pb_encode_varint :: "pb_ostream_t \<Rightarrow> u64 \<Rightarrow> bool \<times> pb_ostream_t" where
  "pb_encode_varint s value =
     (if value \<le> 0x7F then pb_write s [ucast value] 1
      else let buffer = varint_loop value; i = length buffer;
               buffer = buffer[i - 1 := buffer ! (i - 1) AND 0x7F]
           in pb_write s buffer (of_nat i))"

text \<open>\<open>pb_int64_t\<close> is a 64-bit word read as two's complement.\<close>

definition zigzag :: "u64 \<Rightarrow> u64" where
  "zigzag value = (if sint value < 0 then NOT (push_bit 1 value) else push_bit 1 value)"

definition pb_encode_svarint :: "pb_ostream_t \<Rightarrow> u64 \<Rightarrow> bool \<times> pb_ostream_t" where
  "pb_encode_svarint s value = pb_encode_varint s (zigzag value)"

definition pb_encode_fixed32 :: "mem \<Rightarrow> pb_ostream_t \<Rightarrow> addr \<Rightarrow> bool \<times> pb_ostream_t" where
  "pb_encode_fixed32 m s p =
     (let val = load_u32 m p
      in pb_write s
           [ucast (val AND 0xFF), ucast (drop_bit 8 val AND 0xFF),
            ucast (drop_bit 16 val AND 0xFF), ucast (drop_bit 24 val AND 0xFF)] 4)"

definition pb_encode_fixed64 :: "mem \<Rightarrow> pb_ostream_t \<Rightarrow> addr \<Rightarrow> bool \<times> pb_ostream_t" where
  "pb_encode_fixed64 m s p =
     (let val = load_u64 m p
      in pb_write s
           [ucast (val AND 0xFF), ucast (drop_bit 8 val AND 0xFF),
            ucast (drop_bit 16 val AND 0xFF), ucast (drop_bit 24 val AND 0xFF),
            ucast (drop_bit 32 val AND 0xFF), ucast (drop_bit 40 val AND 0xFF),
            ucast (drop_bit 48 val AND 0xFF), ucast (drop_bit 56 val AND 0xFF)] 8)"

definition pb_encode_tag :: "pb_ostream_t \<Rightarrow> pb_wire_type_t \<Rightarrow> u32 \<Rightarrow> bool \<times> pb_ostream_t" where
  "pb_encode_tag s wiretype field_number =
     pb_encode_varint s (push_bit 3 (ucast field_number) OR ucast wiretype)"

definition field_wiretype :: "pb_field_t \<Rightarrow> pb_wire_type_t option" where
  "field_wiretype field =
     (let lt = PB_LTYPE (f_type field) in
      if lt = PB_LTYPE_BOOL \<or> lt = PB_LTYPE_VARINT \<or> lt = PB_LTYPE_UVARINT \<or> lt = PB_LTYPE_SVARINT
      then Some PB_WT_VARINT
      else if lt = PB_LTYPE_FIXED32 then Some PB_WT_32BIT
      else if lt = PB_LTYPE_FIXED64 then Some PB_WT_64BIT
      else if lt = PB_LTYPE_BYTES \<or> lt = PB_LTYPE_STRING \<or> lt = PB_LTYPE_SUBMESSAGE \<or>
              lt = PB_LTYPE_FIXED_LENGTH_BYTES
      then Some PB_WT_STRING
      else None)"

definition pb_encode_tag_for_field :: "pb_ostream_t \<Rightarrow> pb_field_t \<Rightarrow> bool \<times> pb_ostream_t" where
  "pb_encode_tag_for_field s field =
     (case field_wiretype field of
        Some wiretype \<Rightarrow> pb_encode_tag s wiretype (f_tag field)
      | None \<Rightarrow> os_return_error s ''invalid field type'')"

definition pb_encode_string :: "pb_ostream_t \<Rightarrow> byte list \<Rightarrow> size_t \<Rightarrow> bool \<times> pb_ostream_t" where
  "pb_encode_string s buffer sz =
     c_then (pb_encode_varint s sz) (\<lambda>s. pb_write s buffer sz)"

text \<open>\<open>pb_encode_varint\<close> writes the varint format.\<close>

definition mask_last :: "byte list \<Rightarrow> byte list" where
  "mask_last bs = bs[length bs - 1 := bs ! (length bs - 1) AND 0x7F]"

lemma mask_last_Cons: "bs \<noteq> [] \<Longrightarrow> mask_last (b # bs) = b # mask_last bs"
  by (cases "length bs") (auto simp: mask_last_def)

lemma low_group: "unat (ucast ((v :: u64) AND 0x7F) :: byte) = unat v mod 128"
  by (simp add: and_mask_bits unat_ucast_down unat_take_bit mod_mod_cancel)

lemma cont_group: "(ucast ((v :: u64) AND 0x7F) OR 0x80 :: byte) = of_nat (unat v mod 128 + 128)"
proof -
  have "(ucast (v AND 0x7F) :: byte) OR 0x80 = ucast (v AND 0x7F) + 0x80"
  proof (rule disjunctive_add [symmetric])
    fix n
    have "bit (0x80 :: byte) n \<Longrightarrow> n = 7"
      using bit_imp_le_length [of "0x80 :: byte" n] by (auto simp: less_Suc_eq numeral_eq_Suc)
    moreover have "\<not> bit (ucast (v AND 0x7F) :: byte) 7"
      by (simp add: and_mask_bits bit_unsigned_iff bit_take_bit_iff)
    ultimately show "\<not> bit (ucast (v AND 0x7F) :: byte) n \<or> \<not> bit (0x80 :: byte) n"
      by blast
  qed
  also have "\<dots> = of_nat (unat (ucast (v AND 0x7F) :: byte)) + 0x80"
    by simp
  finally show ?thesis
    by (simp add: low_group)
qed

lemma varint_loop_mask:
  "v \<noteq> 0 \<Longrightarrow> varint_loop v \<noteq> [] \<and> mask_last (varint_loop v) = varint (unat v)"
proof (induction v rule: varint_loop.induct)
  case (1 v)
  have d: "unat (drop_bit 7 v) = unat v div 128"
    by (simp only: unat_drop_bit) simp
  show ?case
  proof (cases "drop_bit 7 v = 0")
    case True
    then have small: "unat v < 128" using d by simp
    have "unat ((ucast (v AND 0x7F) OR 0x80 :: byte) AND 0x7F) = unat v"
      unfolding cont_group unfolding and_mask_bits(1) unat_take_bit
      using small by (simp add: unat_of_nat_small del: of_nat_add)
    then have "(ucast (v AND 0x7F) OR 0x80 :: byte) AND 0x7F = of_nat (unat v)"
      by (metis of_nat_unat ucast_id)
    with 1 True small show ?thesis
      by (subst (1 2) varint_loop.simps)
        (simp add: varint_loop.simps [of 0] mask_last_def varint.simps [of "unat v"])
  next
    case False
    then have big: "\<not> unat v < 128" using d by (metis div_less unat_eq_zero)
    have IH: "varint_loop (drop_bit 7 v) \<noteq> []"
      "mask_last (varint_loop (drop_bit 7 v)) = varint (unat v div 128)"
      using 1 False d by auto
    show ?thesis
      using 1 big IH
      by (simp add: varint_loop.simps [of v] varint.simps [of "unat v"] mask_last_Cons cont_group)
  qed
qed

lemma pb_encode_varint_eq:
  "pb_encode_varint s v = pb_write s (varint (unat v)) (of_nat (length (varint (unat v))))"
proof (cases "v \<le> 0x7F")
  case True
  then have "unat v < 128" by (simp add: word_le_nat_alt)
  moreover have "(ucast v :: byte) = of_nat (unat v)"
    by simp
  ultimately show ?thesis
    using True by (simp add: pb_encode_varint_def varint.simps [of "unat v"])
next
  case False
  then have nz: "v \<noteq> 0" by auto
  have "length (varint_loop v) = length (mask_last (varint_loop v))"
    by (simp add: mask_last_def)
  with varint_loop_mask [OF nz] have "length (varint_loop v) = length (varint (unat v))"
    by simp
  with False varint_loop_mask [OF nz] show ?thesis
    by (simp add: pb_encode_varint_def Let_def mask_last_def)
qed

section \<open>The contract of an output device\<close>

text \<open>
  A device is a callback \<open>cb\<close> with \<open>push\<close>, its effect on the state, and \<open>accepts st n\<close>,
  the states in which it takes \<open>n\<close> more bytes. A stream is in good standing when no error
  was reported on it and it is a sizing stream or its device takes all the bytes up to
  \<open>max_size\<close>, a size that is that of an object (less than \<open>2 ^ 63\<close>).
\<close>

definition os_good :: "os_cb \<Rightarrow> (ostate \<Rightarrow> nat \<Rightarrow> bool) \<Rightarrow> pb_ostream_t \<Rightarrow> bool" where
  "os_good cb accepts s \<longleftrightarrow>
     os_errmsg s = None \<and>
     (is_OS_NULL (os_callback s) \<or>
      os_callback s = cb \<and> os_bytes_written s \<le> os_max_size s \<and> unat (os_max_size s) < 2 ^ 63 \<and>
      accepts (os_state s) (unat (os_max_size s) - unat (os_bytes_written s)))"

definition os_fits :: "pb_ostream_t \<Rightarrow> nat \<Rightarrow> bool" where
  "os_fits s n \<longleftrightarrow>
     is_OS_NULL (os_callback s) \<or> n \<le> unat (os_max_size s) - unat (os_bytes_written s)"

definition os_put :: "(ostate \<Rightarrow> byte list \<Rightarrow> ostate) \<Rightarrow> pb_ostream_t \<Rightarrow> byte list \<Rightarrow> pb_ostream_t" where
  "os_put push s bs =
     s\<lparr>os_state := (if is_OS_NULL (os_callback s) then os_state s else push (os_state s) bs),
       os_bytes_written := os_bytes_written s + of_nat (length bs)\<rparr>"

text \<open>
  What an operation on a stream does, by what it is to emit: \<open>None\<close>, it fails on every
  stream; \<open>Some bs\<close>, it succeeds on a stream in good standing exactly when \<open>bs\<close> fits,
  and then its effect is that of \<open>bs\<close> put on the stream.
\<close>

definition emits ::
  "os_cb \<Rightarrow> (ostate \<Rightarrow> nat \<Rightarrow> bool) \<Rightarrow> (ostate \<Rightarrow> byte list \<Rightarrow> ostate) \<Rightarrow>
   (pb_ostream_t \<Rightarrow> bool \<times> pb_ostream_t) \<Rightarrow> byte list option \<Rightarrow> bool" where
  "emits cb accepts push A r \<longleftrightarrow>
     (case r of
        None \<Rightarrow> \<forall>s. \<not> fst (A s)
      | Some bs \<Rightarrow> \<forall>s. os_good cb accepts s \<longrightarrow> length bs < 2 ^ 63 \<longrightarrow>
          (if os_fits s (length bs) then A s = (True, os_put push s bs) else \<not> fst (A s)))"

definition opt_append :: "byte list option \<Rightarrow> byte list option \<Rightarrow> byte list option" where
  "opt_append r1 r2 =
     (case r1 of None \<Rightarrow> None | Some a \<Rightarrow> (case r2 of None \<Rightarrow> None | Some b \<Rightarrow> Some (a @ b)))"

lemma opt_append_simps [simp]:
  "opt_append (Some a) (Some b) = Some (a @ b)" "opt_append None r = None" "opt_append r None = None"
  by (simp_all add: opt_append_def split: option.split)

lemma opt_append_Nil [simp]: "opt_append (Some []) r = r" "opt_append r (Some []) = r"
  by (simp_all add: opt_append_def split: option.split)

lemma not_null_simps [simp]: "os_callback (os_put push s bs) = os_callback s"
  by (simp add: os_put_def)

locale os_device =
  fixes cb :: os_cb
    and accepts :: "ostate \<Rightarrow> nat \<Rightarrow> bool"
    and push :: "ostate \<Rightarrow> byte list \<Rightarrow> ostate"
  assumes cb_not_null: "\<not> is_OS_NULL cb"
    and call_accepts: "os_callback s = cb \<Longrightarrow> accepts (os_state s) n \<Longrightarrow> length bs \<le> n \<Longrightarrow>
      os_call s bs = (True, s\<lparr>os_state := push (os_state s) bs\<rparr>)"
    and accepts_push: "accepts st n \<Longrightarrow> length bs \<le> n \<Longrightarrow> accepts (push st bs) (n - length bs)"
    and accepts_less: "accepts st n \<Longrightarrow> k \<le> n \<Longrightarrow> accepts st k"
    and push_push: "push (push st a) b = push st (a @ b)"
    and push_Nil: "push st [] = st"
begin

abbreviation good :: "pb_ostream_t \<Rightarrow> bool" where
  "good \<equiv> os_good cb accepts"

abbreviation put :: "pb_ostream_t \<Rightarrow> byte list \<Rightarrow> pb_ostream_t" where
  "put \<equiv> os_put push"

abbreviation emit :: "(pb_ostream_t \<Rightarrow> bool \<times> pb_ostream_t) \<Rightarrow> byte list option \<Rightarrow> bool" where
  "emit \<equiv> emits cb accepts push"

lemma put_Nil [simp]: "put s [] = s"
  by (simp add: os_put_def push_Nil)

lemma put_put [simp]: "put (put s a) b = put s (a @ b)"
  by (simp add: os_put_def push_push add.assoc)

lemma put_written:
  assumes "good s" "\<not> is_OS_NULL (os_callback s)" "os_fits s (length bs)"
  shows "unat (os_bytes_written (put s bs)) = unat (os_bytes_written s) + length bs"
  using assms
  by (auto simp: os_put_def os_good_def os_fits_def word_le_nat_alt intro!: unat_add_small)

lemma good_put:
  assumes "good s" "os_fits s (length bs)"
  shows "good (put s bs)"
proof (cases "is_OS_NULL (os_callback s)")
  case False
  have "accepts (push (os_state s) bs)
    (unat (os_max_size s) - unat (os_bytes_written s) - length bs)"
    using assms False by (intro accepts_push) (auto simp: os_good_def os_fits_def)
  with assms False put_written [OF assms(1) False assms(2)] show ?thesis
    by (auto simp: os_good_def os_fits_def os_put_def word_le_nat_alt)
qed (use assms in \<open>auto simp: os_good_def os_put_def\<close>)

lemma fits_put:
  assumes "good s" "os_fits s (length a)"
  shows "os_fits (put s a) n \<longleftrightarrow> os_fits s (length a + n)"
proof (cases "is_OS_NULL (os_callback s)")
  case False
  with assms put_written [OF assms(1) False assms(2)] show ?thesis
    by (auto simp: os_fits_def os_put_def)
qed (simp add: os_fits_def)

lemma fits_less: "os_fits s n \<Longrightarrow> k \<le> n \<Longrightarrow> os_fits s k"
  by (auto simp: os_fits_def)

lemma emit_write:
  "emit (\<lambda>s. pb_write s bs (of_nat (length bs))) (Some bs)"
  unfolding emits_def option.case
proof (intro allI impI)
  fix s assume s: "good s" and len: "length bs < 2 ^ 63"
  show "if os_fits s (length bs) then pb_write s bs (of_nat (length bs)) = (True, put s bs)
    else \<not> fst (pb_write s bs (of_nat (length bs)))"
  proof (cases "is_OS_NULL (os_callback s) \<or> bs = []")
    case True
    then show ?thesis
      by (auto simp: pb_write_def os_put_def os_fits_def push_Nil)
  next
    case False
    then have count: "unat (of_nat (length bs) :: size_t) = length bs" "(of_nat (length bs) :: size_t) > 0"
      using len by (auto simp: unat_of_nat_small word_less_nat_alt)
    have inv: "os_callback s = cb" "unat (os_bytes_written s) \<le> unat (os_max_size s)"
      "unat (os_max_size s) < 2 ^ 63"
      and acc: "accepts (os_state s) (unat (os_max_size s) - unat (os_bytes_written s))"
      using s False by (auto simp: os_good_def word_le_nat_alt)
    have sum: "unat (os_bytes_written s + of_nat (length bs)) = unat (os_bytes_written s) + length bs"
      using inv(2,3) len by (intro unat_add_small) simp
    show ?thesis
    proof (cases "os_fits s (length bs)")
      case True
      then have le: "length bs \<le> unat (os_max_size s) - unat (os_bytes_written s)"
        using False by (simp add: os_fits_def)
      have "os_call s bs = (True, s\<lparr>os_state := push (os_state s) bs\<rparr>)"
        by (rule call_accepts [OF inv(1) acc le])
      moreover have "\<not> unat (os_max_size s) < unat (os_bytes_written s) + length bs"
        using inv le by linarith
      ultimately show ?thesis
        using True False count sum
        by (simp add: pb_write_def os_put_def word_less_nat_alt)
    next
      case nf: False
      then have "unat (os_max_size s) < unat (os_bytes_written s) + length bs"
        using False by (auto simp: os_fits_def)
      with nf False count sum show ?thesis
        by (simp add: pb_write_def word_less_nat_alt os_return_error_def)
    qed
  qed
qed

lemma emit_null_write:
  assumes "is_OS_NULL (os_callback s)"
  shows "pb_write s [] (of_nat (length bs)) = (True, put s bs)"
  using assms by (simp add: pb_write_def os_put_def)

lemma emit_skip: "emit (\<lambda>s. (True, s)) (Some [])"
  by (simp add: emits_def os_fits_def)

lemma emit_error: "emit (\<lambda>s. os_return_error s msg) None"
  by (simp add: emits_def os_return_error_def)

text \<open>Sequencing: the outputs are concatenated.\<close>

lemma emit_then:
  assumes A: "emit A r1" and B: "emit B r2"
  shows "emit (\<lambda>s. c_then (A s) B) (opt_append r1 r2)"
proof (cases r1)
  case None
  with A show ?thesis by (simp add: emits_def fst_c_then)
next
  case r1: (Some a)
  show ?thesis
  proof (cases r2)
    case None
    with B show ?thesis by (simp add: emits_def fst_c_then)
  next
    case (Some b)
    have "if os_fits s (length (a @ b)) then c_then (A s) B = (True, put s (a @ b))
      else \<not> fst (c_then (A s) B)" if s: "good s" and len: "length (a @ b) < 2 ^ 63" for s
    proof (cases "os_fits s (length a)")
      case True
      then have As: "A s = (True, put s a)"
        using A s len r1 by (simp add: emits_def)
      have "if os_fits (put s a) (length b) then B (put s a) = (True, put (put s a) b)
        else \<not> fst (B (put s a))"
        using B Some len good_put [OF s True] by (simp add: emits_def)
      then show ?thesis
        using fits_put [OF s True, of "length b"] As by simp
    next
      case False
      then have "\<not> fst (A s)" using A s len r1 by (simp add: emits_def)
      moreover have "\<not> os_fits s (length (a @ b))"
        using False fits_less by fastforce
      ultimately show ?thesis by (simp add: fst_c_then)
    qed
    with r1 Some show ?thesis by (simp add: emits_def)
  qed
qed

lemma emit_cong: "(\<And>s. A s = B s) \<Longrightarrow> emit A r \<Longrightarrow> emit B r"
  using ext [of A B] by simp

lemma emit_varint: "emit (\<lambda>s. pb_encode_varint s v) (Some (varint (unat v)))"
  unfolding pb_encode_varint_eq by (rule emit_write)

lemma emit_string:
  assumes "length bs < 2 ^ 64"
  shows "emit (\<lambda>s. pb_encode_string s bs (of_nat (length bs))) (Some (varint (length bs) @ bs))"
proof -
  have "emit (\<lambda>s. pb_encode_varint s (of_nat (length bs))) (Some (varint (length bs)))"
    using emit_varint [of "of_nat (length bs)"] assms by (simp add: unat_of_nat_small)
  from emit_then [OF this emit_write] show ?thesis
    by (simp add: pb_encode_string_def)
qed

end

text \<open>The memory-buffer device.\<close>

definition buf_accepts :: "ostate \<Rightarrow> nat \<Rightarrow> bool" where
  "buf_accepts st n \<longleftrightarrow> snd st + n \<le> length (fst st)"

definition buf_push :: "ostate \<Rightarrow> byte list \<Rightarrow> ostate" where
  "buf_push st bs = (copy_loop (fst st) (snd st) bs, snd st + length bs)"

lemma length_copy_loop [simp]: "length (copy_loop d i bs) = length d"
  by (induction d i bs rule: copy_loop.induct) simp_all

lemma copy_loop_append: "copy_loop d i (a @ b) = copy_loop (copy_loop d i a) (i + length a) b"
  by (induction d i a rule: copy_loop.induct) simp_all

lemma copy_loop_eq:
  "i + length bs \<le> length d \<Longrightarrow> copy_loop d i bs = take i d @ bs @ drop (i + length bs) d"
proof (induction d i bs rule: copy_loop.induct)
  case (2 d i b bs)
  then have "copy_loop d i (b # bs) = take (Suc i) (d[i := b]) @ bs @ drop (Suc i + length bs) (d[i := b])"
    by simp
  also have "take (Suc i) (d[i := b]) = take i d @ [b]"
    using 2 by (simp add: take_Suc_conv_app_nth)
  finally show ?case by simp
qed simp

interpretation buf: os_device OS_buf_write buf_accepts buf_push
  by unfold_locales
    (auto simp: os_call_def buf_write_def buf_accepts_def buf_push_def copy_loop_append
      split: prod.split)

end
