(* ===== verification/Pb_Encode.thy ===== *)
theory Pb_Encode
  imports Pb_Common Pb_Ostream
begin

text \<open>
  \<^verbatim>\<open>nanopb/pb_encode.c\<close>: encoding of fields, arrays, extensions, submessages and whole
  messages. The message lives in the byte memory \<open>m\<close>, which the encoder only reads.
\<close>

section \<open>What the encoder is given\<close>

text \<open>
  The user's code that the encoder calls: the encode function behind a function pointer of
  a callback field, and the extension type behind the \<open>type\<close> pointer of a
  \<open>pb_extension_t\<close> (its encode function, \<open>None\<close> for a null pointer, and the field
  descriptor in \<open>arg\<close> that the default handler uses). \<open>ee_ext_chain\<close> bounds the length of
  the linked list of extensions that is followed and \<open>ee_ext_depth\<close> the depth to which
  extension fields hold messages that have extension fields again; past them the model
  reports an error where the program would go on (or, on a cyclic list, would not return).
  Neither matters for descriptors without extension fields.
\<close>

type_synonym pb_encoder_t = "mem \<Rightarrow> pb_ostream_t \<Rightarrow> pb_field_t \<Rightarrow> addr \<Rightarrow> bool \<times> pb_ostream_t"

record enc_extension_type =
  et_encode :: "(mem \<Rightarrow> pb_ostream_t \<Rightarrow> addr \<Rightarrow> bool \<times> pb_ostream_t) option"
  et_arg :: pb_field_t

record enc_env =
  ee_callback :: "addr \<Rightarrow> pb_encoder_t"
  ee_ext_type :: "addr \<Rightarrow> enc_extension_type"
  ee_ext_chain :: nat
  ee_ext_depth :: nat

text \<open>The encoder of a submessage: field array, struct address, stream.\<close>

type_synonym submsg_encoder = "pb_field_t list \<Rightarrow> addr \<Rightarrow> pb_ostream_t \<Rightarrow> bool \<times> pb_ostream_t"

text \<open>
  Calls through a null or out-of-range entry of the encoder table, and descriptors whose
  pointer is of the wrong kind, are undefined behaviour in C; the model fails there with a
  message that the library never uses.
\<close>

definition os_undefined :: "pb_ostream_t \<Rightarrow> bool \<times> pb_ostream_t" where
  "os_undefined s = os_return_error s ''undefined behaviour''"

section \<open>Submessages\<close>

text \<open>
  The second pass, after the size is written: the submessage goes to a substream that
  shares the callback and its state, limited to the size that the first pass computed.
\<close>

definition submessage_pass ::
  "submsg_encoder \<Rightarrow> pb_field_t list \<Rightarrow> addr \<Rightarrow> size_t \<Rightarrow> pb_ostream_t \<Rightarrow> bool \<times> pb_ostream_t" where
  "submessage_pass enc fds src_struct sz s =
     (if is_OS_NULL (os_callback s) then pb_write s [] sz
      else if os_bytes_written s + sz > os_max_size s
      then os_return_error s ''stream full''
      else
        case enc fds src_struct
               \<lparr>os_callback = os_callback s, os_state = os_state s, os_max_size = sz,
                os_bytes_written = 0, os_errmsg = None\<rparr> of (status, substream) \<Rightarrow>
        let s = s\<lparr>os_bytes_written := os_bytes_written s + os_bytes_written substream,
                  os_state := os_state substream,
                  os_errmsg := os_errmsg substream\<rparr>
        in if os_bytes_written substream \<noteq> sz
           then os_return_error s ''submsg size changed''
           else (status, s))"

definition pb_encode_submessage ::
  "submsg_encoder \<Rightarrow> pb_ostream_t \<Rightarrow> pb_field_t list \<Rightarrow> addr \<Rightarrow> bool \<times> pb_ostream_t" where
  "pb_encode_submessage enc s fds src_struct =
     (case enc fds src_struct PB_OSTREAM_SIZING of (ok, substream) \<Rightarrow>
        if \<not> ok then (False, s\<lparr>os_errmsg := os_errmsg substream\<rparr>)
        else
          let sz = os_bytes_written substream in
          c_then (pb_encode_varint s sz) (submessage_pass enc fds src_struct sz))"

section \<open>Field encoders\<close>

definition safe_read_bool :: "mem \<Rightarrow> addr \<Rightarrow> bool" where
  "safe_read_bool m pSize = list_ex (\<lambda>i. m (pSize + of_nat i) \<noteq> 0) [0..<sizeof CBool]"

definition pb_enc_bool :: pb_encoder_t where
  "pb_enc_bool m s field src = pb_encode_varint s (if safe_read_bool m src then 1 else 0)"

text \<open>The integer of \<open>data_size\<close> bytes at \<open>src\<close>, sign- or zero-extended to 64 bits.\<close>

definition load_int :: "mem \<Rightarrow> addr \<Rightarrow> pb_size_t \<Rightarrow> u64 option" where
  "load_int m src data_size =
     (if data_size = 1 then Some (scast (load_u8 m src))
      else if data_size = 2 then Some (scast (load_u16 m src))
      else if data_size = 4 then Some (scast (load_u32 m src))
      else if data_size = 8 then Some (load_u64 m src)
      else None)"

definition load_uint :: "mem \<Rightarrow> addr \<Rightarrow> pb_size_t \<Rightarrow> u64 option" where
  "load_uint m src data_size =
     (if data_size = 1 then Some (ucast (load_u8 m src))
      else if data_size = 2 then Some (ucast (load_u16 m src))
      else if data_size = 4 then Some (ucast (load_u32 m src))
      else if data_size = 8 then Some (load_u64 m src)
      else None)"

definition pb_enc_varint :: pb_encoder_t where
  "pb_enc_varint m s field src =
     (case load_int m src (f_data_size field) of
        Some v \<Rightarrow> pb_encode_varint s v
      | None \<Rightarrow> os_return_error s ''invalid data_size'')"

definition pb_enc_uvarint :: pb_encoder_t where
  "pb_enc_uvarint m s field src =
     (case load_uint m src (f_data_size field) of
        Some v \<Rightarrow> pb_encode_varint s v
      | None \<Rightarrow> os_return_error s ''invalid data_size'')"

definition pb_enc_svarint :: pb_encoder_t where
  "pb_enc_svarint m s field src =
     (case load_int m src (f_data_size field) of
        Some v \<Rightarrow> pb_encode_svarint s v
      | None \<Rightarrow> os_return_error s ''invalid data_size'')"

definition pb_enc_fixed64 :: pb_encoder_t where
  "pb_enc_fixed64 m s field src = pb_encode_fixed64 m s src"

definition pb_enc_fixed32 :: pb_encoder_t where
  "pb_enc_fixed32 m s field src = pb_encode_fixed32 m s src"

definition pb_enc_bytes :: pb_encoder_t where
  "pb_enc_bytes m s field src =
     (if src = NULL then pb_encode_string s [] 0
      else
        let bsize :: size_t = ucast (bytes_size m src);
            allocsize = PB_BYTES_ARRAY_T_ALLOCSIZE bsize
        in if allocsize < bsize \<or>
              PB_ATYPE (f_type field) = PB_ATYPE_STATIC \<and> allocsize > ucast (f_data_size field)
           then os_return_error s ''bytes size exceeded''
           else pb_encode_string s (load_bytes m (bytes_bytes src) (unat bsize)) bsize)"

text \<open>
  The \<open>strnlen\<close> loop of \<open>pb_enc_string\<close>: at most \<open>max_size\<close> bytes are looked at. For a
  pointer field \<open>max_size\<close> is \<open>SIZE_MAX\<close>, the end of the address space.
\<close>

function string_loop :: "mem \<Rightarrow> size_t \<Rightarrow> addr \<Rightarrow> size_t \<Rightarrow> size_t" where
  "string_loop m max_size p sz =
     (if sz < max_size \<and> m p \<noteq> 0 then string_loop m max_size (p + 1) (sz + 1) else sz)"
  by pat_completeness auto
termination
proof (relation "measure (\<lambda>(m, max_size, p, sz). unat max_size - unat sz)", simp)
  fix m :: mem and max_size p sz :: size_t
  assume asm: "sz < max_size \<and> m p \<noteq> 0"
  then have "unat sz < unat max_size"
    by (simp add: word_less_nat_alt)
  moreover have "unat (sz + 1) = Suc (unat sz)"
    using asm by (blast intro: unat_add_one)
  ultimately show "((m, max_size, p + 1, sz + 1), m, max_size, p, sz)
      \<in> measure (\<lambda>(m, max_size, p, sz). unat max_size - unat sz)"
    by simp
qed

declare string_loop.simps [simp del]

definition pb_enc_string :: pb_encoder_t where
  "pb_enc_string m s field src =
     (let max_size :: size_t =
            (if PB_ATYPE (f_type field) = PB_ATYPE_POINTER then - 1 else ucast (f_data_size field));
          sz = (if src = NULL then 0 else string_loop m max_size src 0)
      in pb_encode_string s (load_bytes m src (unat sz)) sz)"

definition pb_enc_submessage :: "submsg_encoder \<Rightarrow> pb_encoder_t" where
  "pb_enc_submessage enc m s field src =
     (case f_ptr field of
        PtrNull \<Rightarrow> os_return_error s ''invalid field descriptor''
      | PtrFields fds \<Rightarrow> pb_encode_submessage enc s fds src
      | PtrData _ \<Rightarrow> os_undefined s)"

definition pb_enc_fixed_length_bytes :: pb_encoder_t where
  "pb_enc_fixed_length_bytes m s field src =
     pb_encode_string s (load_bytes m src (unat (f_data_size field))) (ucast (f_data_size field))"

definition PB_ENCODERS :: "submsg_encoder \<Rightarrow> pb_encoder_t option list" where
  "PB_ENCODERS enc =
     [Some pb_enc_bool, Some pb_enc_varint, Some pb_enc_uvarint, Some pb_enc_svarint,
      Some pb_enc_fixed32, Some pb_enc_fixed64,
      Some pb_enc_bytes, Some pb_enc_string, Some (pb_enc_submessage enc),
      None,
      Some pb_enc_fixed_length_bytes]"

definition encoder_func :: "submsg_encoder \<Rightarrow> pb_field_t \<Rightarrow> pb_encoder_t" where
  "encoder_func enc field =
     (let i = unat (PB_LTYPE (f_type field)) in
      if i < length (PB_ENCODERS enc) then
        case PB_ENCODERS enc ! i of Some func \<Rightarrow> func | None \<Rightarrow> (\<lambda>m s f src. os_undefined s)
      else (\<lambda>m s f src. os_undefined s))"

lemma pb_enc_submessage_cong:
  assumes "\<And>fs a t. f_ptr field = PtrFields fs \<Longrightarrow> enc fs a t = enc' fs a t"
  shows "pb_enc_submessage enc m s field src = pb_enc_submessage enc' m s field src"
proof (cases "f_ptr field")
  case (PtrFields fs)
  have eq: "enc fs a t = enc' fs a t" for a t
    by (rule assms [OF PtrFields])
  show ?thesis
    by (simp only: pb_enc_submessage_def PtrFields pb_ptr.case)
      (unfold pb_encode_submessage_def submessage_pass_def eq, rule refl)
qed (simp_all add: pb_enc_submessage_def)

lemma encoder_func_cong:
  assumes "\<And>fs a t. f_ptr field = PtrFields fs \<Longrightarrow> enc fs a t = enc' fs a t"
  shows "encoder_func enc field m s field src = encoder_func enc' field m s field src"
proof -
  have "pb_enc_submessage enc m s field src = pb_enc_submessage enc' m s field src"
    by (rule pb_enc_submessage_cong) (rule assms)
  then show ?thesis
    by (simp add: encoder_func_def PB_ENCODERS_def Let_def nth_Cons split: nat.split)
qed

section \<open>Arrays\<close>

text \<open>\<^verbatim>\<open>for (i = 0; i < count; i++) { body; p = (const char*)p + field->data_size; }\<close>\<close>

fun array_loop ::
  "(addr \<Rightarrow> 's \<Rightarrow> bool \<times> 's) \<Rightarrow> size_t \<Rightarrow> nat \<Rightarrow> addr \<Rightarrow> 's \<Rightarrow> bool \<times> 's" where
  "array_loop body data_size 0 p s = (True, s)"
| "array_loop body data_size (Suc n) p s =
     c_then (body p s) (array_loop body data_size n (p + data_size))"

text \<open>The total size of a packed array; the flag is false when an element cannot be encoded.\<close>

definition packed_size ::
  "mem \<Rightarrow> pb_field_t \<Rightarrow> addr \<Rightarrow> size_t \<Rightarrow> pb_encoder_t \<Rightarrow> bool \<times> size_t" where
  "packed_size m field pData count func =
     (if PB_LTYPE (f_type field) = PB_LTYPE_FIXED32 then (True, 4 * count)
      else if PB_LTYPE (f_type field) = PB_LTYPE_FIXED64 then (True, 8 * count)
      else case array_loop (\<lambda>p sz. func m sz field p) (ucast (f_data_size field)) (unat count) pData
                  PB_OSTREAM_SIZING of
             (ok, sizestream) \<Rightarrow> (ok, os_bytes_written sizestream))"

definition encode_array ::
  "mem \<Rightarrow> pb_ostream_t \<Rightarrow> pb_field_t \<Rightarrow> addr \<Rightarrow> size_t \<Rightarrow> pb_encoder_t \<Rightarrow> bool \<times> pb_ostream_t" where
  "encode_array m s field pData count func =
     (let step :: size_t = ucast (f_data_size field);
          lt = PB_LTYPE (f_type field);
          pointer = (PB_ATYPE (f_type field) = PB_ATYPE_POINTER)
      in
      if count = 0 then (True, s)
      else if \<not> pointer \<and> count > ucast (f_array_size field)
      then os_return_error s ''array max size exceeded''
      else if lt \<le> PB_LTYPE_LAST_PACKABLE then
        c_then (pb_encode_tag s PB_WT_STRING (f_tag field)) (\<lambda>s.
          case packed_size m field pData count func of (ok, sz) \<Rightarrow>
              if \<not> ok then (False, s)
              else c_then (pb_encode_varint s sz) (\<lambda>s.
                if is_OS_NULL (os_callback s) then pb_write s [] sz
                else array_loop (\<lambda>p s. func m s field p) step (unat count) pData s))
      else
        array_loop (\<lambda>p s.
          c_then (pb_encode_tag_for_field s field) (\<lambda>s.
            func m s field
              (if pointer \<and> (lt = PB_LTYPE_STRING \<or> lt = PB_LTYPE_BYTES) then load_ptr m p else p)))
          step (unat count) pData s)"

lemma encode_array_cong:
  assumes "\<And>t p. func m t field p = func' m t field p"
  shows "encode_array m s field pData count func = encode_array m s field pData count func'"
  unfolding encode_array_def packed_size_def assms by (rule refl)

section \<open>The proto3 default check\<close>

text \<open>
  The check runs over the fields of a static submessage with the iterator. A submessage
  field without a descriptor is undefined behaviour (a null pointer is read); the value
  here is then \<open>False\<close>, and encoding the field reports \<open>invalid field descriptor\<close>.
\<close>

function pb_check_proto3_default_value :: "mem \<Rightarrow> pb_field_t \<Rightarrow> addr \<Rightarrow> bool" where
  "pb_check_proto3_default_value m field pData =
     (let type = f_type field;
          pSize = pData + scast (f_size_offset field);
          rest =
            (if PB_ATYPE type = PB_ATYPE_STATIC \<and> PB_LTYPE type = PB_LTYPE_BYTES then
               bytes_size m pData = 0
             else if PB_ATYPE type = PB_ATYPE_STATIC \<and> PB_LTYPE type = PB_LTYPE_STRING then
               m pData = 0
             else if PB_ATYPE type = PB_ATYPE_STATIC \<and> PB_LTYPE type = PB_LTYPE_FIXED_LENGTH_BYTES then
               f_data_size field = 0
             else if PB_ATYPE type = PB_ATYPE_STATIC \<and> PB_LTYPE type = PB_LTYPE_SUBMESSAGE then
               (case f_ptr field of
                  PtrFields fs \<Rightarrow>
                    (case pb_field_iter_begin fs pData of (ok, iter) \<Rightarrow>
                       \<not> ok \<or>
                       fst (iter_loop (\<lambda>iter s.
                              (pb_check_proto3_default_value m (field_at fs (it_pos iter)) (it_pData iter), s))
                            iter ()))
                | _ \<Rightarrow> False)
             else if PB_ATYPE type = PB_ATYPE_POINTER \<and> PB_LTYPE type > PB_LTYPE_LAST_PACKABLE then
               load_ptr m pData = NULL
             else list_all (\<lambda>b. b = 0) (load_bytes m pData (unat (f_data_size field))))
      in
      if PB_HTYPE type = PB_HTYPE_REQUIRED then False
      else if PB_HTYPE type = PB_HTYPE_REPEATED \<and> f_size_offset field \<noteq> 0 then
        load_u32 m pSize = 0
      else if PB_HTYPE type = PB_HTYPE_REPEATED \<and> PB_ATYPE type = PB_ATYPE_STATIC then False
      else if PB_HTYPE type = PB_HTYPE_ONEOF then load_u32 m pSize = 0
      else if PB_HTYPE type = PB_HTYPE_OPTIONAL \<and> f_size_offset field \<noteq> 0 then
        \<not> safe_read_bool m pSize
      else rest)"
  by pat_completeness auto
termination
  by (relation "measure (\<lambda>(m, field, p). size field)") (auto intro: size_submsg_field_at)

declare pb_check_proto3_default_value.simps [simp del]

section \<open>Fields\<close>

text \<open>
  \<open>pSize\<close> is the local variable \<open>implicit_has\<close> when \<open>size_offset\<close> is 0. Reading it as a
  \<open>pb_size_t\<close>, which a oneof field without a \<open>which_\<close> member would do, reads past it.
\<close>

definition encode_basic_field ::
  "submsg_encoder \<Rightarrow> mem \<Rightarrow> pb_ostream_t \<Rightarrow> pb_field_t \<Rightarrow> addr \<Rightarrow> bool \<times> pb_ostream_t" where
  "encode_basic_field enc m s field pData =
     (let func = encoder_func enc field;
          pSize = (if f_size_offset field \<noteq> 0
                   then Some (pData + scast (f_size_offset field)) else None);
          implicit_has =
            (if f_size_offset field = 0 \<and> PB_HTYPE (f_type field) = PB_HTYPE_OPTIONAL
             then \<not> pb_check_proto3_default_value m field pData else True);
          pointer = (PB_ATYPE (f_type field) = PB_ATYPE_POINTER);
          pData = (if pointer then load_ptr m pData else pData);
          implicit_has = (if pointer then pData \<noteq> NULL else implicit_has);
          emit = c_then (pb_encode_tag_for_field s field) (\<lambda>s. func m s field pData);
          htype = PB_HTYPE (f_type field)
      in
      if htype = PB_HTYPE_REQUIRED then
        if pData = NULL then os_return_error s ''missing required field'' else emit
      else if htype = PB_HTYPE_OPTIONAL then
        if (case pSize of Some q \<Rightarrow> safe_read_bool m q | None \<Rightarrow> implicit_has) then emit else (True, s)
      else if htype = PB_HTYPE_REPEATED then
        encode_array m s field pData
          (ucast (case pSize of Some q \<Rightarrow> load_u32 m q | None \<Rightarrow> f_array_size field)) func
      else if htype = PB_HTYPE_ONEOF then
        (case pSize of
           Some q \<Rightarrow> if load_u32 m q = f_tag field then emit else (True, s)
         | None \<Rightarrow> os_undefined s)
      else os_return_error s ''invalid field type'')"

definition encode_callback_field ::
  "enc_env \<Rightarrow> mem \<Rightarrow> pb_ostream_t \<Rightarrow> pb_field_t \<Rightarrow> addr \<Rightarrow> bool \<times> pb_ostream_t" where
  "encode_callback_field env m s field pData =
     (if callback_funcs m pData \<noteq> NULL then
        case ee_callback env (callback_funcs m pData) m s field (callback_arg pData) of (ok, s) \<Rightarrow>
          if \<not> ok then os_return_error s ''callback error'' else (True, s)
      else (True, s))"

definition encode_field ::
  "enc_env \<Rightarrow> submsg_encoder \<Rightarrow> mem \<Rightarrow> pb_ostream_t \<Rightarrow> pb_field_t \<Rightarrow> addr \<Rightarrow> bool \<times> pb_ostream_t" where
  "encode_field env enc m s field pData =
     (let atype = PB_ATYPE (f_type field) in
      if atype = PB_ATYPE_STATIC \<or> atype = PB_ATYPE_POINTER then encode_basic_field enc m s field pData
      else if atype = PB_ATYPE_CALLBACK then encode_callback_field env m s field pData
      else os_return_error s ''invalid field type'')"

lemma encode_basic_field_cong:
  assumes "\<And>fs a t. f_ptr field = PtrFields fs \<Longrightarrow> enc fs a t = enc' fs a t"
  shows "encode_basic_field enc m s field pData = encode_basic_field enc' m s field pData"
proof -
  have f: "encoder_func enc field m t field p = encoder_func enc' field m t field p" for t p
    by (rule encoder_func_cong) (rule assms)
  then have arr: "encode_array m s field p c (encoder_func enc field) =
    encode_array m s field p c (encoder_func enc' field)" for p c
    by (rule encode_array_cong)
  show ?thesis
    unfolding encode_basic_field_def Let_def arr f by (rule refl)
qed

lemma encode_field_cong [fundef_cong]:
  assumes "env = env'" "m = m'" "s = s'" "field = field'" "pData = pData'"
    and "\<And>fs a t. f_ptr field' = PtrFields fs \<Longrightarrow> enc fs a t = enc' fs a t"
  shows "encode_field env enc m s field pData = encode_field env' enc' m' s' field' pData'"
proof -
  have "encode_basic_field enc m' s' field' pData' = encode_basic_field enc' m' s' field' pData'"
    by (rule encode_basic_field_cong) (rule assms(6))
  then show ?thesis
    unfolding encode_field_def assms(1-5) by (simp add: Let_def)
qed

section \<open>Extensions\<close>

definition default_extension_encoder ::
  "enc_env \<Rightarrow> submsg_encoder \<Rightarrow> mem \<Rightarrow> pb_ostream_t \<Rightarrow> addr \<Rightarrow> bool \<times> pb_ostream_t" where
  "default_extension_encoder env enc m s extension =
     (let field = et_arg (ee_ext_type env (ext_type m extension)) in
      if PB_ATYPE (f_type field) = PB_ATYPE_POINTER
      then encode_field env enc m s field (ext_dest extension)
      else encode_field env enc m s field (load_ptr m (ext_dest extension)))"

fun extension_loop ::
  "enc_env \<Rightarrow> submsg_encoder \<Rightarrow> mem \<Rightarrow> nat \<Rightarrow> addr \<Rightarrow> pb_ostream_t \<Rightarrow> bool \<times> pb_ostream_t" where
  "extension_loop env enc m 0 extension s =
     (if extension = NULL then (True, s) else os_return_error s ''extension list too long'')"
| "extension_loop env enc m (Suc n) extension s =
     (if extension = NULL then (True, s)
      else c_then
        (case et_encode (ee_ext_type env (ext_type m extension)) of
           Some encode \<Rightarrow> encode m s extension
         | None \<Rightarrow> default_extension_encoder env enc m s extension)
        (extension_loop env enc m n (ext_next m extension)))"

definition encode_extension_field ::
  "enc_env \<Rightarrow> submsg_encoder \<Rightarrow> mem \<Rightarrow> pb_ostream_t \<Rightarrow> pb_field_t \<Rightarrow> addr \<Rightarrow> bool \<times> pb_ostream_t" where
  "encode_extension_field env enc m s field pData =
     extension_loop env enc m (ee_ext_chain env) (load_ptr m pData) s"

lemma encode_extension_field_cong [fundef_cong]:
  assumes "env = env'" "m = m'" "s = s'" "field = field'" "pData = pData'"
    and "\<And>fs a t. enc fs a t = enc' fs a t"
  shows "encode_extension_field env enc m s field pData =
    encode_extension_field env' enc' m' s' field' pData'"
proof -
  have "enc = enc'" by (intro ext) (rule assms(6))
  with assms show ?thesis by simp
qed

section \<open>Messages\<close>

function pb_encode ::
  "enc_env \<Rightarrow> mem \<Rightarrow> pb_ostream_t \<Rightarrow> pb_field_t list \<Rightarrow> addr \<Rightarrow> bool \<times> pb_ostream_t" where
  "pb_encode env m s fds src_struct =
     (case pb_field_iter_begin fds src_struct of (ok, iter) \<Rightarrow>
        if \<not> ok then (True, s)
        else iter_loop (\<lambda>iter s.
               if PB_LTYPE (f_type (field_at fds (it_pos iter))) = PB_LTYPE_EXTENSION
               then encode_extension_field env
                      (\<lambda>fs a t. if ee_ext_depth env = 0 then os_return_error t ''extensions too deep''
                                else pb_encode (env\<lparr>ee_ext_depth := ee_ext_depth env - 1\<rparr>) m t fs a)
                      m s (field_at fds (it_pos iter)) (it_pData iter)
               else encode_field env (\<lambda>fs a t. pb_encode env m t fs a)
                      m s (field_at fds (it_pos iter)) (it_pData iter))
             iter s)"
  by pat_completeness auto
termination
  by (relation "measures [\<lambda>(env, m, s, fds, a). ee_ext_depth env,
                          \<lambda>(env, m, s, fds, a). size_list size fds]")
    (auto intro: size_submsg_fields)

declare pb_encode.simps [simp del]

abbreviation (input) encode_msg :: "enc_env \<Rightarrow> mem \<Rightarrow> submsg_encoder" where
  "encode_msg env m \<equiv> (\<lambda>fds a s. pb_encode env m s fds a)"

definition pb_encode_delimited ::
  "enc_env \<Rightarrow> mem \<Rightarrow> pb_ostream_t \<Rightarrow> pb_field_t list \<Rightarrow> addr \<Rightarrow> bool \<times> pb_ostream_t" where
  "pb_encode_delimited env m s fds src_struct =
     pb_encode_submessage (encode_msg env m) s fds src_struct"

definition pb_encode_nullterminated ::
  "enc_env \<Rightarrow> mem \<Rightarrow> pb_ostream_t \<Rightarrow> pb_field_t list \<Rightarrow> addr \<Rightarrow> bool \<times> pb_ostream_t" where
  "pb_encode_nullterminated env m s fds src_struct =
     c_then (pb_encode env m s fds src_struct) (\<lambda>s. pb_write s [0] 1)"

definition pb_get_encoded_size ::
  "enc_env \<Rightarrow> mem \<Rightarrow> pb_field_t list \<Rightarrow> addr \<Rightarrow> size_t option" where
  "pb_get_encoded_size env m fds src_struct =
     (case pb_encode env m PB_OSTREAM_SIZING fds src_struct of (ok, s) \<Rightarrow>
        if \<not> ok then None else Some (os_bytes_written s))"

end
