(* ===== verification/Pb_Wire.thy ===== *)
theory Pb_Wire
  imports Pb_Ostream
begin

text \<open>
  The protocol-buffers wire format as a specification, independent of the code: the values
  a message consists of, their serialisation, and the reading of single integers. The
  encoder is shown to produce this format (\<^verbatim>\<open>Pb_Encode_Spec\<close>).
\<close>

section \<open>Values and records\<close>

text \<open>
  \<open>Packed tag vs\<close> is a repeated scalar field in the packed form, one length-delimited
  record that holds all the elements.
\<close>

datatype pb_value =
    V_varint u64
  | V_fixed32 u32
  | V_fixed64 u64
  | V_bytes "byte list"
  | V_message "pb_record list"
  and pb_record =
    Single pb_size_t pb_value
  | Packed pb_size_t "pb_value list"

definition delimited :: "byte list \<Rightarrow> byte list" where
  "delimited bs = varint (length bs) @ bs"

definition wire_tag :: "pb_size_t \<Rightarrow> nat \<Rightarrow> byte list" where
  "wire_tag tag wt = varint (8 * unat tag + wt)"

fun wire_type :: "pb_value \<Rightarrow> nat" where
  "wire_type (V_varint _) = 0"
| "wire_type (V_fixed64 _) = 1"
| "wire_type (V_bytes _) = 2"
| "wire_type (V_message _) = 2"
| "wire_type (V_fixed32 _) = 5"

fun wire_value :: "pb_value \<Rightarrow> byte list"
  and wire_record :: "pb_record \<Rightarrow> byte list"
  and wire_records :: "pb_record list \<Rightarrow> byte list"
  and wire_values :: "pb_value list \<Rightarrow> byte list" where
  "wire_value (V_varint v) = varint (unat v)"
| "wire_value (V_fixed32 w) = bytes_of_word 4 w"
| "wire_value (V_fixed64 w) = bytes_of_word 8 w"
| "wire_value (V_bytes bs) = delimited bs"
| "wire_value (V_message rs) = delimited (wire_records rs)"
| "wire_record (Single tag v) = wire_tag tag (wire_type v) @ wire_value v"
| "wire_record (Packed tag vs) = wire_tag tag 2 @ delimited (wire_values vs)"
| "wire_records [] = []"
| "wire_records (r # rs) = wire_record r @ wire_records rs"
| "wire_values [] = []"
| "wire_values (v # vs) = wire_value v @ wire_values vs"

lemma wire_records_append [simp]: "wire_records (a @ b) = wire_records a @ wire_records b"
  by (induction a) simp_all

lemma wire_values_append [simp]: "wire_values (a @ b) = wire_values a @ wire_values b"
  by (induction a) simp_all

section \<open>Tags and fixed-size integers\<close>

lemma tag_word:
  assumes "unat wt < 8"
  shows "unat (push_bit 3 (ucast (tag :: u32)) OR ucast (wt :: u32) :: u64) = 8 * unat tag + unat wt"
proof -
  have wt: "\<not> bit wt n" if "3 \<le> n" for n
  proof -
    have "unat (drop_bit 3 wt) = 0"
      using assms unfolding unat_drop_bit by simp
    then have "drop_bit 3 wt = 0"
      by (simp only: unat_eq_zero)
    then have "\<not> bit (drop_bit 3 wt) (n - 3)"
      by (simp only: bit_0_eq bot_apply bot_bool_def not_False_eq_True)
    with that show ?thesis by (simp add: bit_drop_bit_eq)
  qed
  have "push_bit 3 (ucast tag) OR ucast wt = push_bit 3 (ucast tag) + (ucast wt :: u64)"
    by (rule disjunctive_add [symmetric]) (use wt in \<open>auto simp: bit_push_bit_iff bit_unsigned_iff\<close>)
  also have "\<dots> = of_nat (8 * unat tag + unat wt)"
    by (simp add: push_bit_eq_mult)
  finally show ?thesis
    using unat_bound [of tag] assms by (simp add: unat_of_nat_small del: of_nat_add of_nat_mult)
qed


end
