(* ===== verification/Pb_Encode_Spec.thy ===== *)
theory Pb_Encode_Spec
  imports Pb_Encode Pb_Wire
begin

text \<open>
  What the encoder promises: \<open>abs_msg\<close> reads the message that a descriptor describes out
  of memory, as a list of records, and \<open>pb_encode\<close> puts the wire format of these records
  on the stream, or fails when there is no such message or it does not fit. The proof runs
  inside the locale \<open>os_device\<close>, for every device at once.
\<close>

section \<open>The message in memory\<close>

type_synonym msg_reader = "pb_field_t list \<Rightarrow> addr \<Rightarrow> pb_record list option"

text \<open>A string ends at its first null byte, or after \<open>max_size\<close> bytes.\<close>

definition cstring :: "mem \<Rightarrow> nat \<Rightarrow> addr \<Rightarrow> byte list" where
  "cstring m max_size p =
     (if p = NULL then [] else takeWhile (\<lambda>b. b \<noteq> 0) (load_bytes m p max_size))"

definition abs_bytes :: "mem \<Rightarrow> pb_field_t \<Rightarrow> addr \<Rightarrow> pb_value option" where
  "abs_bytes m field p =
     (if p = NULL then Some (V_bytes [])
      else if PB_ATYPE (f_type field) = PB_ATYPE_STATIC \<and>
              unat (bytes_size m p) + 4 > unat (f_data_size field) then None
      else Some (V_bytes (load_bytes m (p + 4) (unat (bytes_size m p)))))"

definition abs_value :: "msg_reader \<Rightarrow> mem \<Rightarrow> pb_field_t \<Rightarrow> addr \<Rightarrow> pb_value option" where
  "abs_value sub m field p =
     (let lt = PB_LTYPE (f_type field); ds = f_data_size field in
      if lt = PB_LTYPE_BOOL then Some (V_varint (of_bool (m p \<noteq> 0)))
      else if lt = PB_LTYPE_VARINT then map_option V_varint (load_int m p ds)
      else if lt = PB_LTYPE_UVARINT then map_option V_varint (load_uint m p ds)
      else if lt = PB_LTYPE_SVARINT then map_option (\<lambda>v. V_varint (zigzag v)) (load_int m p ds)
      else if lt = PB_LTYPE_FIXED32 then Some (V_fixed32 (load_u32 m p))
      else if lt = PB_LTYPE_FIXED64 then Some (V_fixed64 (load_u64 m p))
      else if lt = PB_LTYPE_BYTES then abs_bytes m field p
      else if lt = PB_LTYPE_STRING then
        Some (V_bytes (cstring m (if PB_ATYPE (f_type field) = PB_ATYPE_POINTER
                                  then 2 ^ 64 - 1 else unat ds) p))
      else if lt = PB_LTYPE_SUBMESSAGE then
        (case f_ptr field of PtrFields fs \<Rightarrow> map_option V_message (sub fs p) | _ \<Rightarrow> None)
      else if lt = PB_LTYPE_FIXED_LENGTH_BYTES then Some (V_bytes (load_bytes m p (unat ds)))
      else None)"

text \<open>The addresses of the elements of an array.\<close>

fun elements :: "addr \<Rightarrow> size_t \<Rightarrow> nat \<Rightarrow> addr list" where
  "elements p step 0 = []"
| "elements p step (Suc n) = p # elements (p + step) step n"

definition abs_array :: "msg_reader \<Rightarrow> mem \<Rightarrow> pb_field_t \<Rightarrow> addr \<Rightarrow> nat \<Rightarrow> pb_record list option" where
  "abs_array sub m field p count =
     (let lt = PB_LTYPE (f_type field);
          pointer = (PB_ATYPE (f_type field) = PB_ATYPE_POINTER);
          es = elements p (ucast (f_data_size field)) count
      in
      if count = 0 then Some []
      else if \<not> pointer \<and> count > unat (f_array_size field) then None
      else if lt \<le> PB_LTYPE_LAST_PACKABLE then
        map_option (\<lambda>vs. [Packed (f_tag field) vs]) (those (map (abs_value sub m field) es))
      else
        map_option (map (Single (f_tag field)))
          (those (map (\<lambda>q. abs_value sub m field
             (if pointer \<and> (lt = PB_LTYPE_STRING \<or> lt = PB_LTYPE_BYTES) then load_ptr m q else q)) es)))"

text \<open>
  Presence of an optional field: its has-flag; without one, a pointer that is not null or a
  value that is not the default.
\<close>

definition field_present :: "mem \<Rightarrow> pb_field_t \<Rightarrow> addr \<Rightarrow> bool" where
  "field_present m field pData \<longleftrightarrow>
     (if f_size_offset field \<noteq> 0 then m (pData + scast (f_size_offset field)) \<noteq> 0
      else if PB_ATYPE (f_type field) = PB_ATYPE_POINTER then load_ptr m pData \<noteq> NULL
      else \<not> pb_check_proto3_default_value m field pData)"

definition abs_field :: "msg_reader \<Rightarrow> mem \<Rightarrow> pb_field_t \<Rightarrow> addr \<Rightarrow> pb_record list option" where
  "abs_field sub m field pData =
     (let htype = PB_HTYPE (f_type field);
          pointer = (PB_ATYPE (f_type field) = PB_ATYPE_POINTER);
          p = (if pointer then load_ptr m pData else pData);
          pSize = pData + scast (f_size_offset field);
          single = map_option (\<lambda>v. [Single (f_tag field) v]) (abs_value sub m field p)
      in
      if PB_ATYPE (f_type field) \<noteq> PB_ATYPE_STATIC \<and> \<not> pointer then None
      else if htype = PB_HTYPE_REQUIRED then if p = NULL then None else single
      else if htype = PB_HTYPE_OPTIONAL then
        if field_present m field pData then single else Some []
      else if htype = PB_HTYPE_REPEATED then
        abs_array sub m field p
          (unat (if f_size_offset field \<noteq> 0 then load_u32 m pSize else f_array_size field))
      else if f_size_offset field = 0 then None
      else if load_u32 m pSize = f_tag field then single else Some [])"

lemma abs_value_cong:
  assumes "\<And>fs a. f_ptr field = PtrFields fs \<Longrightarrow> sub fs a = sub' fs a"
  shows "abs_value sub m field p = abs_value sub' m field p"
proof -
  have "(case f_ptr field of PtrFields fs \<Rightarrow> map_option V_message (sub fs p) | _ \<Rightarrow> None) =
    (case f_ptr field of PtrFields fs \<Rightarrow> map_option V_message (sub' fs p) | _ \<Rightarrow> None)"
    using assms by (simp split: pb_ptr.split)
  then show ?thesis unfolding abs_value_def by presburger
qed

lemma abs_field_cong [fundef_cong]:
  assumes "m = m'" "field = field'" "pData = pData'"
    and "\<And>fs a. f_ptr field' = PtrFields fs \<Longrightarrow> sub fs a = sub' fs a"
  shows "abs_field sub m field pData = abs_field sub' m' field' pData'"
proof -
  have eq: "abs_value sub m' field' = abs_value sub' m' field'"
    by (intro ext abs_value_cong) (rule assms(4))
  show ?thesis
    unfolding assms(1-3) abs_field_def abs_array_def Let_def eq by (rule refl)
qed

function abs_msg :: "mem \<Rightarrow> pb_field_t list \<Rightarrow> addr \<Rightarrow> pb_record list option" where
  "abs_msg m fds a =
     map_option concat (those (map
       (\<lambda>it. abs_field (\<lambda>fs p. abs_msg m fs p) m (field_at fds (it_pos it)) (it_pData it))
       (iters fds a)))"
  by pat_completeness auto
termination
  by (relation "measure (\<lambda>(m, fds, a). size_list size fds)") (auto intro: size_submsg_fields)

declare abs_msg.simps [simp del]

text \<open>Descriptors without callback and extension fields, at any depth.\<close>

fun plain_field :: "pb_field_t \<Rightarrow> bool" where
  "plain_field (pb_field_s tag type doff soff ds as ptr) \<longleftrightarrow>
     PB_ATYPE type \<noteq> PB_ATYPE_CALLBACK \<and> PB_LTYPE type \<noteq> PB_LTYPE_EXTENSION \<and>
     (case ptr of PtrFields fs \<Rightarrow> (\<forall>f \<in> set fs. plain_field f) | _ \<Rightarrow> True)"

abbreviation plain_fields :: "pb_field_t list \<Rightarrow> bool" where
  "plain_fields fds \<equiv> list_all plain_field fds"

lemma plain_sub: "plain_field f \<Longrightarrow> f_ptr f = PtrFields fs \<Longrightarrow> plain_fields fs"
  by (cases f) (auto simp: list_all_iff)

lemma plain_type:
  "plain_field f \<Longrightarrow> PB_ATYPE (f_type f) \<noteq> PB_ATYPE_CALLBACK \<and> PB_LTYPE (f_type f) \<noteq> PB_LTYPE_EXTENSION"
  by (cases f) auto

section \<open>Reading values\<close>

lemma safe_read_bool_eq: "safe_read_bool m p \<longleftrightarrow> m p \<noteq> 0"
  by (simp add: safe_read_bool_def)

lemma string_loop_length:
  "sz \<le> max_size \<Longrightarrow>
   unat (string_loop m max_size p sz) =
     unat sz + length (takeWhile (\<lambda>b. b \<noteq> 0) (load_bytes m p (unat max_size - unat sz)))"
proof (induction m max_size p sz rule: string_loop.induct)
  case (1 m max_size p sz)
  show ?case
  proof (cases "sz < max_size")
    case True
    have suc: "unat (sz + 1) = Suc (unat sz)"
      by (rule unat_add_one [OF True])
    have n: "unat max_size - unat sz = Suc (unat max_size - Suc (unat sz))"
      using True by (simp add: word_less_nat_alt)
    have "load_bytes m p (Suc n) = m p # load_bytes m (p + 1) n" for n
      by (rule nth_equalityI) (auto simp: nth_Cons add.assoc split: nat.split)
    moreover have "sz + 1 \<le> max_size"
      using True suc by (simp add: word_le_nat_alt word_less_nat_alt)
    ultimately show ?thesis
      using 1 True suc n by (subst string_loop.simps) simp
  next
    case False
    then have "sz = max_size" using 1 by auto
    then show ?thesis by (subst string_loop.simps) simp
  qed
qed

lemma load_bytes_takeWhile:
  "load_bytes m p (length (takeWhile P (load_bytes m p n))) = takeWhile P (load_bytes m p n)"
proof -
  have "length (takeWhile P (load_bytes m p n)) \<le> n"
    using length_takeWhile_le [of P "load_bytes m p n"] by simp
  then show ?thesis
    by (auto intro!: nth_equalityI simp: takeWhile_nth)
qed

lemma fixed32_bytes:
  "[ucast (v AND 0xFF), ucast (drop_bit 8 v AND 0xFF), ucast (drop_bit 16 v AND 0xFF),
    ucast (drop_bit 24 v AND 0xFF)] = bytes_of_word 4 (v :: u32)"
proof -
  have "(ucast (take_bit 8 w) :: byte) = ucast w" for w :: u32
    by (rule bit_word_eqI) (auto simp: bit_unsigned_iff bit_take_bit_iff)
  then show ?thesis
    by (simp add: bytes_of_word_def and_mask_bits upt_rec)
qed

lemma fixed64_bytes:
  "[ucast (v AND 0xFF), ucast (drop_bit 8 v AND 0xFF), ucast (drop_bit 16 v AND 0xFF),
    ucast (drop_bit 24 v AND 0xFF), ucast (drop_bit 32 v AND 0xFF), ucast (drop_bit 40 v AND 0xFF),
    ucast (drop_bit 48 v AND 0xFF), ucast (drop_bit 56 v AND 0xFF)] = bytes_of_word 8 (v :: u64)"
proof -
  have "(ucast (take_bit 8 w) :: byte) = ucast w" for w :: u64
    by (rule bit_word_eqI) (auto simp: bit_unsigned_iff bit_take_bit_iff)
  then show ?thesis
    by (simp add: bytes_of_word_def and_mask_bits upt_rec)
qed

text \<open>The entry of the encoder table for each field type.\<close>

lemma encoder_func_table:
  "PB_LTYPE (f_type field) = PB_LTYPE_BOOL \<Longrightarrow> encoder_func enc field = pb_enc_bool"
  "PB_LTYPE (f_type field) = PB_LTYPE_VARINT \<Longrightarrow> encoder_func enc field = pb_enc_varint"
  "PB_LTYPE (f_type field) = PB_LTYPE_UVARINT \<Longrightarrow> encoder_func enc field = pb_enc_uvarint"
  "PB_LTYPE (f_type field) = PB_LTYPE_SVARINT \<Longrightarrow> encoder_func enc field = pb_enc_svarint"
  "PB_LTYPE (f_type field) = PB_LTYPE_FIXED32 \<Longrightarrow> encoder_func enc field = pb_enc_fixed32"
  "PB_LTYPE (f_type field) = PB_LTYPE_FIXED64 \<Longrightarrow> encoder_func enc field = pb_enc_fixed64"
  "PB_LTYPE (f_type field) = PB_LTYPE_BYTES \<Longrightarrow> encoder_func enc field = pb_enc_bytes"
  "PB_LTYPE (f_type field) = PB_LTYPE_STRING \<Longrightarrow> encoder_func enc field = pb_enc_string"
  "PB_LTYPE (f_type field) = PB_LTYPE_SUBMESSAGE \<Longrightarrow> encoder_func enc field = pb_enc_submessage enc"
  "PB_LTYPE (f_type field) = PB_LTYPE_FIXED_LENGTH_BYTES \<Longrightarrow>
     encoder_func enc field = pb_enc_fixed_length_bytes"
  "11 \<le> unat (PB_LTYPE (f_type field)) \<Longrightarrow> encoder_func enc field = (\<lambda>m s f src. os_undefined s)"
  by (simp_all add: encoder_func_def PB_ENCODERS_def pb_const Let_def)

lemmas ltype_cases =
  PB_LTYPE_BOOL_def PB_LTYPE_VARINT_def PB_LTYPE_UVARINT_def PB_LTYPE_SVARINT_def
  PB_LTYPE_FIXED32_def PB_LTYPE_FIXED64_def PB_LTYPE_BYTES_def PB_LTYPE_STRING_def
  PB_LTYPE_SUBMESSAGE_def PB_LTYPE_FIXED_LENGTH_BYTES_def PB_LTYPE_EXTENSION_def

lemma htype_exhaust:
  "PB_HTYPE type = PB_HTYPE_REQUIRED \<or> PB_HTYPE type = PB_HTYPE_OPTIONAL \<or>
   PB_HTYPE type = PB_HTYPE_REPEATED \<or> PB_HTYPE type = PB_HTYPE_ONEOF"
proof (rule byte_cases [of _ "type"])
  show "\<forall>x \<in> set (map of_nat [0..<256]).
    PB_HTYPE x = PB_HTYPE_REQUIRED \<or> PB_HTYPE x = PB_HTYPE_OPTIONAL \<or>
    PB_HTYPE x = PB_HTYPE_REPEATED \<or> PB_HTYPE x = PB_HTYPE_ONEOF"
    by code_simp
qed

lemma htype_neq:
  "PB_HTYPE_OPTIONAL \<noteq> PB_HTYPE_REQUIRED" "PB_HTYPE_REPEATED \<noteq> PB_HTYPE_REQUIRED"
  "PB_HTYPE_REPEATED \<noteq> PB_HTYPE_OPTIONAL" "PB_HTYPE_ONEOF \<noteq> PB_HTYPE_REQUIRED"
  "PB_HTYPE_ONEOF \<noteq> PB_HTYPE_OPTIONAL" "PB_HTYPE_ONEOF \<noteq> PB_HTYPE_REPEATED"
  by (simp_all add: pb_const)

lemma ltype_exhaust:
  assumes "PB_LTYPE (f_type field) = PB_LTYPE_BOOL \<Longrightarrow> P"
    "PB_LTYPE (f_type field) = PB_LTYPE_VARINT \<Longrightarrow> P"
    "PB_LTYPE (f_type field) = PB_LTYPE_UVARINT \<Longrightarrow> P"
    "PB_LTYPE (f_type field) = PB_LTYPE_SVARINT \<Longrightarrow> P"
    "PB_LTYPE (f_type field) = PB_LTYPE_FIXED32 \<Longrightarrow> P"
    "PB_LTYPE (f_type field) = PB_LTYPE_FIXED64 \<Longrightarrow> P"
    "PB_LTYPE (f_type field) = PB_LTYPE_BYTES \<Longrightarrow> P"
    "PB_LTYPE (f_type field) = PB_LTYPE_STRING \<Longrightarrow> P"
    "PB_LTYPE (f_type field) = PB_LTYPE_SUBMESSAGE \<Longrightarrow> P"
    "PB_LTYPE (f_type field) = PB_LTYPE_EXTENSION \<Longrightarrow> P"
    "PB_LTYPE (f_type field) = PB_LTYPE_FIXED_LENGTH_BYTES \<Longrightarrow> P"
    "11 \<le> unat (PB_LTYPE (f_type field)) \<Longrightarrow> P"
  shows P
proof (cases "11 \<le> unat (PB_LTYPE (f_type field))")
  case False
  then have "unat (PB_LTYPE (f_type field)) \<in> set [0..<11]" by simp
  then have "PB_LTYPE (f_type field) \<in> of_nat ` set [0..<11]"
    by (metis imageI of_nat_unat ucast_id)
  then have "PB_LTYPE (f_type field) \<in> {0, 1, 2, 3, 4, 5, 6, 7, 8, 9, 10}"
    by (simp add: upt_rec)
  with assms show P by (auto simp: pb_const)
qed (use assms in blast)

lemma wire_type_of_field:
  assumes "abs_value sub m field p = Some v"
  shows "\<exists>wt. field_wiretype field = Some wt \<and> unat wt = wire_type v \<and> unat wt < 8"
  by (rule ltype_exhaust [of field])
    (use assms in \<open>auto simp: abs_value_def field_wiretype_def abs_bytes_def pb_const Let_def
       split: if_splits pb_ptr.splits\<close>)

lemma abs_value_table:
  "PB_LTYPE (f_type field) = PB_LTYPE_BOOL \<Longrightarrow>
     abs_value sub m field p = Some (V_varint (of_bool (m p \<noteq> 0)))"
  "PB_LTYPE (f_type field) = PB_LTYPE_VARINT \<Longrightarrow>
     abs_value sub m field p = map_option V_varint (load_int m p (f_data_size field))"
  "PB_LTYPE (f_type field) = PB_LTYPE_UVARINT \<Longrightarrow>
     abs_value sub m field p = map_option V_varint (load_uint m p (f_data_size field))"
  "PB_LTYPE (f_type field) = PB_LTYPE_SVARINT \<Longrightarrow>
     abs_value sub m field p = map_option (\<lambda>v. V_varint (zigzag v)) (load_int m p (f_data_size field))"
  "PB_LTYPE (f_type field) = PB_LTYPE_FIXED32 \<Longrightarrow> abs_value sub m field p = Some (V_fixed32 (load_u32 m p))"
  "PB_LTYPE (f_type field) = PB_LTYPE_FIXED64 \<Longrightarrow> abs_value sub m field p = Some (V_fixed64 (load_u64 m p))"
  "PB_LTYPE (f_type field) = PB_LTYPE_BYTES \<Longrightarrow> abs_value sub m field p = abs_bytes m field p"
  "PB_LTYPE (f_type field) = PB_LTYPE_STRING \<Longrightarrow>
     abs_value sub m field p = Some (V_bytes (cstring m (if PB_ATYPE (f_type field) = PB_ATYPE_POINTER
                                  then 2 ^ 64 - 1 else unat (f_data_size field)) p))"
  "PB_LTYPE (f_type field) = PB_LTYPE_SUBMESSAGE \<Longrightarrow>
     abs_value sub m field p =
       (case f_ptr field of PtrFields fs \<Rightarrow> map_option V_message (sub fs p) | _ \<Rightarrow> None)"
  "PB_LTYPE (f_type field) = PB_LTYPE_FIXED_LENGTH_BYTES \<Longrightarrow>
     abs_value sub m field p = Some (V_bytes (load_bytes m p (unat (f_data_size field))))"
  by (simp_all add: abs_value_def pb_const Let_def)

section \<open>Lists of values\<close>

lemma those_map_option:
  "those (map (\<lambda>p. map_option h (f p)) ps) = map_option (map h) (those (map f ps))"
  by (induction ps) (auto simp: option.map_comp comp_def split: option.split)

lemma concat_wire [simp]:
  "concat (map wire_value vs) = wire_values vs"
  "concat (map wire_record rs) = wire_records rs"
  "concat (map wire_records rss) = wire_records (concat rss)"
  by (induction vs, simp_all, induction rs, simp_all, induction rss, simp_all)

lemma concat_map_singles:
  "concat (map (\<lambda>v. wire_record (Single tag v)) vs) = wire_records (map (Single tag) vs)"
  by (induction vs) simp_all

lemma length_elements [simp]: "length (elements p step n) = n"
  by (induction n arbitrary: p) simp_all

lemma those_length: "those xs = Some ys \<Longrightarrow> length ys = length xs"
  by (induction xs arbitrary: ys) (auto split: option.splits)

lemma those_total: "those (map (\<lambda>p. Some (f p)) ps) = Some (map f ps)"
  by (induction ps) simp_all

lemma length_wire_fixed:
  "length (wire_values (map (\<lambda>p. V_fixed32 (f p)) ps)) = 4 * length ps"
  "length (wire_values (map (\<lambda>p. V_fixed64 (g p)) ps)) = 8 * length ps"
  by (induction ps) simp_all

text \<open>Without extension fields, the loop of \<open>pb_encode\<close> runs \<open>encode_field\<close> on every field.\<close>

lemma run_iters_cong:
  "(\<And>it s. it \<in> set its \<Longrightarrow> f it s = g it s) \<Longrightarrow> run_iters f its s = run_iters g its s"
  by (induction its arbitrary: s) (simp_all split: prod.split)

lemma iters_field: "it \<in> set (iters fds a) \<Longrightarrow> field_at fds (it_pos it) \<in> set fds"
  using nfields_le [of fds] by (auto simp: iters_def iter_at_pos intro!: field_at_in_set)

lemma pb_encode_plain:
  assumes "plain_fields fds"
  shows "pb_encode env m s fds a = run_iters (\<lambda>it s. encode_field env (encode_msg env m) m s
        (field_at fds (it_pos it)) (it_pData it)) (iters fds a) s"
proof (cases "nfields fds = 0")
  case True
  then show ?thesis by (simp add: pb_encode.simps [of env m s fds a] iter_begin_at iters_def)
next
  case False
  have "PB_LTYPE (f_type (field_at fds (it_pos it))) \<noteq> PB_LTYPE_EXTENSION" if "it \<in> set (iters fds a)" for it
    using plain_type assms iters_field [OF that] by (auto simp: list_all_iff)
  then show ?thesis
    using False by (simp add: pb_encode.simps [of env m s fds a] iter_begin_at iter_loop_begin
        cong: run_iters_cong)
qed

section \<open>The encoders emit the wire format\<close>

context os_device
begin

lemma emit_delimited:
  assumes "length bs = unat sz"
  shows "emit (\<lambda>s. pb_encode_string s bs sz) (Some (delimited bs))"
proof -
  have "length bs < 2 ^ 64"
    using assms unat_bound [of sz] by simp
  from emit_string [OF this] show ?thesis
    using assms by (simp add: delimited_def)
qed

lemma emit_tag:
  assumes "unat wt < 8"
  shows "emit (\<lambda>s. pb_encode_tag s wt tag) (Some (wire_tag tag (unat wt)))"
  using emit_varint [of "push_bit 3 (ucast tag) OR ucast wt"] tag_word [OF assms, of tag]
  by (simp add: pb_encode_tag_def wire_tag_def)

lemma emit_undefined: "emit os_undefined None"
  using emit_error [of "''undefined behaviour''"] by (simp add: emits_def os_undefined_def)

lemma emit_enc_bool: "emit (\<lambda>s. pb_enc_bool m s field p) (Some (wire_value (V_varint (of_bool (m p \<noteq> 0)))))"
  using emit_varint [of "of_bool (m p \<noteq> 0)"] by (simp add: pb_enc_bool_def safe_read_bool_eq of_bool_def)

lemma emit_enc_ints:
  "emit (\<lambda>s. pb_enc_varint m s field p)
     (map_option (\<lambda>v. wire_value (V_varint v)) (load_int m p (f_data_size field)))"
  "emit (\<lambda>s. pb_enc_uvarint m s field p)
     (map_option (\<lambda>v. wire_value (V_varint v)) (load_uint m p (f_data_size field)))"
  "emit (\<lambda>s. pb_enc_svarint m s field p)
     (map_option (\<lambda>v. wire_value (V_varint (zigzag v))) (load_int m p (f_data_size field)))"
  by (cases "load_int m p (f_data_size field)"; cases "load_uint m p (f_data_size field)";
      simp add: pb_enc_varint_def pb_enc_uvarint_def pb_enc_svarint_def pb_encode_svarint_def
        emit_varint emit_error)+

lemma emit_enc_fixed32: "emit (\<lambda>s. pb_enc_fixed32 m s field p) (Some (wire_value (V_fixed32 (load_u32 m p))))"
  using emit_write [of "bytes_of_word 4 (load_u32 m p)"]
  by (simp add: pb_enc_fixed32_def pb_encode_fixed32_def fixed32_bytes Let_def)

lemma emit_enc_fixed64: "emit (\<lambda>s. pb_enc_fixed64 m s field p) (Some (wire_value (V_fixed64 (load_u64 m p))))"
  using emit_write [of "bytes_of_word 8 (load_u64 m p)"]
  by (simp add: pb_enc_fixed64_def pb_encode_fixed64_def fixed64_bytes Let_def)

lemma emit_enc_bytes: "emit (\<lambda>s. pb_enc_bytes m s field p) (map_option wire_value (abs_bytes m field p))"
proof -
  let ?n = "ucast (bytes_size m p) :: size_t"
  have alloc: "unat (PB_BYTES_ARRAY_T_ALLOCSIZE ?n) = unat (bytes_size m p) + 4"
    using unat_add_small [of ?n 4] unat_bound [of "bytes_size m p"]
    by (simp add: PB_BYTES_ARRAY_T_ALLOCSIZE_def)
  show ?thesis
    using emit_delimited [of "load_bytes m (p + 4) (unat (bytes_size m p))" ?n]
      emit_delimited [of "[]" 0] emit_error [of "''bytes size exceeded''"]
    by (cases "p = NULL"; cases "PB_ATYPE (f_type field) = PB_ATYPE_STATIC";
        cases "unat (f_data_size field) < unat (bytes_size m p) + 4")
      (simp_all add: pb_enc_bytes_def abs_bytes_def Let_def word_less_nat_alt alloc bytes_bytes_def)
qed

lemma emit_enc_string:
  "emit (\<lambda>s. pb_enc_string m s field p)
     (Some (wire_value (V_bytes (cstring m
        (if PB_ATYPE (f_type field) = PB_ATYPE_POINTER then 2 ^ 64 - 1 else unat (f_data_size field)) p))))"
proof -
  define mx :: size_t where
    "mx = (if PB_ATYPE (f_type field) = PB_ATYPE_POINTER then - 1 else ucast (f_data_size field))"
  have mx: "unat mx = (if PB_ATYPE (f_type field) = PB_ATYPE_POINTER then 2 ^ 64 - 1 else unat (f_data_size field))"
    by (simp add: mx_def)
  have len: "unat (string_loop m mx p 0) = length (takeWhile (\<lambda>b. b \<noteq> 0) (load_bytes m p (unat mx)))"
    using string_loop_length [of 0 mx m p] by simp
  have "emit (\<lambda>s. pb_enc_string m s field p) (Some (delimited (cstring m (unat mx) p)))"
  proof (cases "p = NULL")
    case True
    then show ?thesis
      using emit_delimited [of "[]" 0] by (simp add: pb_enc_string_def cstring_def)
  next
    case False
    then show ?thesis
      using emit_delimited [of "cstring m (unat mx) p" "string_loop m mx p 0"]
      by (simp add: pb_enc_string_def cstring_def mx_def [symmetric] Let_def len load_bytes_takeWhile)
  qed
  then show ?thesis by (simp only: mx wire_value.simps)
qed

lemma emit_enc_fixed_length_bytes:
  "emit (\<lambda>s. pb_enc_fixed_length_bytes m s field p)
     (Some (wire_value (V_bytes (load_bytes m p (unat (f_data_size field))))))"
  using emit_delimited [of "load_bytes m p (unat (f_data_size field))" "ucast (f_data_size field)"]
  by (simp add: pb_enc_fixed_length_bytes_def)

text \<open>
  A submessage: the size that a sizing pass computed is written first, and the second pass
  produces as many bytes, so that \<open>submsg size changed\<close> never happens.
\<close>

lemma emit_submessage_pass:
  assumes enc: "emit (\<lambda>s. enc fds a s) (Some bs)" and len: "length bs < 2 ^ 63"
    and sz: "unat sz = length bs"
  shows "emit (submessage_pass enc fds a sz) (Some bs)"
  unfolding emits_def option.case
proof (intro allI impI)
  fix s assume s: "good s"
  have sz': "sz = of_nat (length bs)" using sz by (metis of_nat_unat ucast_id)
  show "if os_fits s (length bs) then submessage_pass enc fds a sz s = (True, put s bs)
    else \<not> fst (submessage_pass enc fds a sz s)"
  proof (cases "is_OS_NULL (os_callback s)")
    case null: True
    then show ?thesis using emit_null_write [OF null, of bs]
      by (simp add: submessage_pass_def sz' os_fits_def)
  next
    case nn: False
    let ?sub = "\<lparr>os_callback = os_callback s, os_state = os_state s, os_max_size = sz,
                  os_bytes_written = 0, os_errmsg = None\<rparr> :: pb_ostream_t"
    have inv: "os_callback s = cb" "unat (os_bytes_written s) \<le> unat (os_max_size s)"
      "unat (os_max_size s) < 2 ^ 63" "os_errmsg s = None"
      "accepts (os_state s) (unat (os_max_size s) - unat (os_bytes_written s))"
      using s nn by (auto simp: os_good_def word_le_nat_alt)
    have sum: "unat (os_bytes_written s + sz) = unat (os_bytes_written s) + length bs"
      using inv(2,3) len unfolding sz' by (intro unat_add_small) simp
    show ?thesis
    proof (cases "os_fits s (length bs)")
      case fit: True
      then have le: "length bs \<le> unat (os_max_size s) - unat (os_bytes_written s)"
        using nn by (simp add: os_fits_def)
      have "good ?sub" "os_fits ?sub (length bs)"
        using inv(1) len sz accepts_less [OF inv(5) le] by (simp_all add: os_good_def os_fits_def)
      then have "enc fds a ?sub = (True, put ?sub bs)"
        using enc len by (simp add: emits_def)
      moreover have "\<not> os_max_size s < os_bytes_written s + sz"
        using sum le inv(2) by (simp add: word_less_nat_alt)
      ultimately show ?thesis
        using nn fit inv(4) by (simp add: submessage_pass_def os_put_def Let_def sz')
    next
      case nf: False
      then have "os_max_size s < os_bytes_written s + sz"
        using sum nn by (simp add: word_less_nat_alt os_fits_def)
      with nn nf show ?thesis by (simp add: submessage_pass_def os_return_error_def)
    qed
  qed
qed

lemma emit_submessage:
  assumes enc: "emit (\<lambda>s. enc fds a s) r"
  shows "emit (\<lambda>s. pb_encode_submessage enc s fds a) (map_option delimited r)"
proof (cases r)
  case None
  then have "\<not> fst (enc fds a PB_OSTREAM_SIZING)"
    using enc by (simp add: emits_def)
  with None show ?thesis
    by (cases "enc fds a PB_OSTREAM_SIZING") (simp add: emits_def pb_encode_submessage_def)
next
  case (Some bs)
  show ?thesis
  proof (cases "length bs < 2 ^ 63")
    case False
    with Some show ?thesis by (simp add: emits_def delimited_def)
  next
    case True
    define sz :: size_t where "sz = of_nat (length bs)"
    have sz: "unat sz = length bs" using True by (simp add: sz_def unat_of_nat_small)
    have sizing: "enc fds a PB_OSTREAM_SIZING = (True, put PB_OSTREAM_SIZING bs)"
      using enc Some True by (simp add: emits_def os_good_def os_fits_def PB_OSTREAM_SIZING_def)
    have "os_bytes_written (put PB_OSTREAM_SIZING bs) = sz"
      by (simp add: os_put_def PB_OSTREAM_SIZING_def sz_def)
    with sizing have "pb_encode_submessage enc s fds a =
      c_then (pb_encode_varint s sz) (submessage_pass enc fds a sz)" for s
      by (simp add: pb_encode_submessage_def)
    moreover have "emit (\<lambda>s. c_then (pb_encode_varint s sz) (submessage_pass enc fds a sz))
      (Some (delimited bs))"
      using emit_then [OF emit_varint [of sz] emit_submessage_pass [of enc fds a bs sz]] enc Some True sz
      by (simp add: delimited_def)
    ultimately show ?thesis using Some by simp
  qed
qed

lemma emit_array_loop:
  assumes "\<And>p. emit (body p) (f p)"
  shows "emit (array_loop body step n p) (map_option concat (those (map f (elements p step n))))"
proof (induction n arbitrary: p)
  case 0
  show ?case using emit_skip by (simp add: emits_def)
next
  case (Suc n)
  have "map_option concat (those (map f (elements p step (Suc n)))) =
    opt_append (f p) (map_option concat (those (map f (elements (p + step) step n))))"
    by (auto simp: opt_append_def split: option.split)
  moreover have "emit (\<lambda>s. c_then (body p s) (array_loop body step n (p + step)))
    (opt_append (f p) (map_option concat (those (map f (elements (p + step) step n)))))"
    by (rule emit_then [OF assms Suc.IH])
  ultimately show ?case by (simp add: emits_def)
qed

lemma emit_func:
  assumes sub: "\<And>fs a. f_ptr field = PtrFields fs \<Longrightarrow>
    emit (\<lambda>s. enc fs a s) (map_option wire_records (sub fs a))"
    and plain: "PB_LTYPE (f_type field) \<noteq> PB_LTYPE_EXTENSION"
  shows "emit (\<lambda>s. encoder_func enc field m s field p) (map_option wire_value (abs_value sub m field p))"
proof -
  have submsg: "emit (\<lambda>s. pb_enc_submessage enc m s field p) (map_option wire_value
    (case f_ptr field of PtrFields fs \<Rightarrow> map_option V_message (sub fs p) | _ \<Rightarrow> None))"
  proof (cases "f_ptr field")
    case (PtrFields fs)
    then show ?thesis
      using emit_submessage [of enc fs p, OF sub [OF PtrFields, of p]]
      by (simp add: pb_enc_submessage_def option.map_comp comp_def)
  qed (simp_all add: pb_enc_submessage_def emit_error os_undefined_def)
  show ?thesis
  proof (rule ltype_exhaust [of field])
    assume "11 \<le> unat (PB_LTYPE (f_type field))"
    then show ?thesis
      by (auto simp: abs_value_def encoder_func_table pb_const Let_def emit_undefined)
  qed (use plain emit_enc_bool emit_enc_ints emit_enc_fixed32 emit_enc_fixed64 emit_enc_bytes
      emit_enc_string emit_enc_fixed_length_bytes submsg in
      \<open>simp_all add: abs_value_table encoder_func_table option.map_comp comp_def
         del: wire_value.simps\<close>)
qed

lemma emit_value:
  assumes sub: "\<And>fs a. f_ptr field = PtrFields fs \<Longrightarrow>
    emit (\<lambda>s. enc fs a s) (map_option wire_records (sub fs a))"
    and plain: "PB_LTYPE (f_type field) \<noteq> PB_LTYPE_EXTENSION"
  shows "emit (\<lambda>s. c_then (pb_encode_tag_for_field s field) (\<lambda>s. encoder_func enc field m s field p))
    (map_option (\<lambda>v. wire_record (Single (f_tag field) v)) (abs_value sub m field p))"
proof -
  have f: "emit (\<lambda>s. encoder_func enc field m s field p) (map_option wire_value (abs_value sub m field p))"
    by (rule emit_func [OF sub plain])
  show ?thesis
  proof (cases "abs_value sub m field p")
    case None
    with f show ?thesis by (simp add: emits_def fst_c_then)
  next
    case (Some v)
    have "emit (\<lambda>s. pb_encode_tag_for_field s field) (Some (wire_tag (f_tag field) (wire_type v)))"
    proof -
      obtain wt where "field_wiretype field = Some wt" "unat wt = wire_type v" "unat wt < 8"
        using wire_type_of_field [OF Some] by blast
      then show ?thesis
        using emit_tag [of wt "f_tag field"] by (simp add: pb_encode_tag_for_field_def)
    qed
    from emit_then [OF this f] Some show ?thesis by simp
  qed
qed

lemma emit_packed_data:
  assumes L: "emit L (Some bs)" and sz: "sz = of_nat (length bs)"
  shows "emit (\<lambda>s. c_then (pb_encode_varint s sz) (\<lambda>s. if is_OS_NULL (os_callback s) then pb_write s [] sz else L s))
    (Some (delimited bs))"
proof (cases "length bs < 2 ^ 63")
  case False
  then show ?thesis by (simp add: emits_def delimited_def)
next
  case True
  have "emit (\<lambda>s. if is_OS_NULL (os_callback s) then pb_write s [] sz else L s) (Some bs)"
    using L emit_null_write [of _ bs] sz by (auto simp: emits_def os_fits_def)
  from emit_then [OF emit_varint [of sz] this] True show ?thesis
    by (simp add: delimited_def sz unat_of_nat_small)
qed

lemma emit_array_size:
  assumes L: "\<And>p. emit (\<lambda>s. func m s field p) (map_option wire_value (f p))"
    and vs: "those (map f (elements p step n)) = Some vs" and len: "length (wire_values vs) < 2 ^ 63"
  shows "array_loop (\<lambda>p sz. func m sz field p) step n p PB_OSTREAM_SIZING =
    (True, put PB_OSTREAM_SIZING (wire_values vs))"
  using emit_array_loop [of "\<lambda>p s. func m s field p", OF L, of step n p] vs len
  by (simp add: those_map_option emits_def os_good_def os_fits_def PB_OSTREAM_SIZING_def)

lemma emit_packed:
  assumes L: "\<And>p. emit (\<lambda>s. func m s field p) (map_option wire_value (f p))"
    and f32: "PB_LTYPE (f_type field) = PB_LTYPE_FIXED32 \<Longrightarrow> f = (\<lambda>p. Some (V_fixed32 (g p)))"
    and f64: "PB_LTYPE (f_type field) = PB_LTYPE_FIXED64 \<Longrightarrow> f = (\<lambda>p. Some (V_fixed64 (h p)))"
  shows "emit (\<lambda>s. case packed_size m field p count func of (ok, sz) \<Rightarrow>
              if \<not> ok then (False, s)
              else c_then (pb_encode_varint s sz) (\<lambda>s.
                if is_OS_NULL (os_callback s) then pb_write s [] sz
                else array_loop (\<lambda>p s. func m s field p) (ucast (f_data_size field)) (unat count) p s))
     (map_option (\<lambda>vs. delimited (wire_values vs))
       (those (map f (elements p (ucast (f_data_size field)) (unat count)))))"
proof -
  let ?step = "ucast (f_data_size field)" and ?n = "unat count"
  have loop: "emit (array_loop (\<lambda>p s. func m s field p) ?step ?n p)
    (map_option wire_values (those (map f (elements p ?step ?n))))"
    using emit_array_loop [of "\<lambda>p s. func m s field p", OF L, of ?step ?n p]
    by (simp add: those_map_option option.map_comp comp_def)
  show ?thesis
  proof (cases "those (map f (elements p ?step ?n))")
    case None
    then have "PB_LTYPE (f_type field) \<noteq> PB_LTYPE_FIXED32" "PB_LTYPE (f_type field) \<noteq> PB_LTYPE_FIXED64"
      using f32 f64 by (auto simp: those_total)
    moreover have "\<not> fst (array_loop (\<lambda>p sz. func m sz field p) ?step ?n p PB_OSTREAM_SIZING)"
      using loop None by (simp add: emits_def)
    ultimately show ?thesis
      using None by (auto simp: emits_def packed_size_def split: prod.splits)
  next
    case (Some vs)
    show ?thesis
    proof (cases "length (wire_values vs) < 2 ^ 63")
      case False
      then show ?thesis using Some by (simp add: emits_def delimited_def)
    next
      case True
      have "packed_size m field p count func = (True, of_nat (length (wire_values vs)))"
        using Some f32 f64 emit_array_size [of func m field f, OF L Some True]
        by (auto simp: packed_size_def those_total length_wire_fixed os_put_def PB_OSTREAM_SIZING_def)
      then show ?thesis
        using emit_packed_data [OF loop [unfolded Some option.map] refl] Some by simp
    qed
  qed
qed

lemma emit_array:
  assumes sub: "\<And>fs a. f_ptr field = PtrFields fs \<Longrightarrow>
    emit (\<lambda>s. enc fs a s) (map_option wire_records (sub fs a))"
    and plain: "PB_LTYPE (f_type field) \<noteq> PB_LTYPE_EXTENSION"
  shows "emit (\<lambda>s. encode_array m s field p count (encoder_func enc field))
    (map_option wire_records (abs_array sub m field p (unat count)))"
proof -
  let ?pointer = "PB_ATYPE (f_type field) = PB_ATYPE_POINTER" and ?lt = "PB_LTYPE (f_type field)"
  let ?es = "elements p (ucast (f_data_size field)) (unat count)"
  let ?deref = "\<lambda>q. if ?pointer \<and> (?lt = PB_LTYPE_STRING \<or> ?lt = PB_LTYPE_BYTES) then load_ptr m q else q"
  have wt: "unat PB_WT_STRING < 8" "unat PB_WT_STRING = 2"
    by (simp_all add: pb_const)
  have cmp: "count > ucast (f_array_size field) \<longleftrightarrow> unat count > unat (f_array_size field)"
    by (simp add: word_less_nat_alt)
  have fn: "emit (\<lambda>s. encoder_func enc field m s field q) (map_option wire_value (abs_value sub m field q))" for q
    by (rule emit_func) (use sub plain in auto)
  have "emit (\<lambda>s. c_then (pb_encode_tag s PB_WT_STRING (f_tag field)) (\<lambda>s.
        case packed_size m field p count (encoder_func enc field) of (ok, sz) \<Rightarrow>
            if \<not> ok then (False, s)
            else c_then (pb_encode_varint s sz) (\<lambda>s.
              if is_OS_NULL (os_callback s) then pb_write s [] sz
              else array_loop (\<lambda>p s. encoder_func enc field m s field p) (ucast (f_data_size field))
                (unat count) p s)))
      (opt_append (Some (wire_tag (f_tag field) (unat PB_WT_STRING)))
        (map_option (\<lambda>vs. delimited (wire_values vs)) (those (map (abs_value sub m field) ?es))))"
    by (rule emit_then [OF emit_tag [OF wt(1)]
        emit_packed [of "encoder_func enc field" m field "abs_value sub m field", OF fn, of "load_u32 m" "load_u64 m"]])
      (auto simp: abs_value_table)
  moreover have "opt_append (Some (wire_tag (f_tag field) (unat PB_WT_STRING)))
        (map_option (\<lambda>vs. delimited (wire_values vs)) (those (map (abs_value sub m field) ?es))) =
      map_option wire_records (map_option (\<lambda>vs. [Packed (f_tag field) vs]) (those (map (abs_value sub m field) ?es)))"
    using wt by (cases "those (map (abs_value sub m field) ?es)") simp_all
  moreover have "emit (array_loop (\<lambda>q s. c_then (pb_encode_tag_for_field s field)
        (\<lambda>s. encoder_func enc field m s field (?deref q))) (ucast (f_data_size field)) (unat count) p)
    (map_option concat (those (map (\<lambda>q. map_option (\<lambda>v. wire_record (Single (f_tag field) v))
       (abs_value sub m field (?deref q))) ?es)))"
    by (intro emit_array_loop emit_value sub plain)
  moreover have "map_option concat (those (map (\<lambda>q. map_option (\<lambda>v. wire_record (Single (f_tag field) v))
       (abs_value sub m field (?deref q))) ?es)) =
     map_option wire_records (map_option (map (Single (f_tag field)))
       (those (map (\<lambda>q. abs_value sub m field (?deref q)) ?es)))"
    by (simp only: those_map_option option.map_comp comp_def concat_map_singles)
  ultimately show ?thesis
    by (cases "count = 0"; cases "count > ucast (f_array_size field)"; cases ?pointer;
        cases "?lt \<le> PB_LTYPE_LAST_PACKABLE")
      (simp_all only: encode_array_def abs_array_def Let_def cmp unat_eq_zero emit_skip emit_error
        if_True if_False simp_thms option.map wire_records.simps)
qed

lemma emit_field:
  assumes sub: "\<And>fs a. f_ptr field = PtrFields fs \<Longrightarrow>
    emit (\<lambda>s. enc fs a s) (map_option wire_records (sub fs a))"
    and plain: "plain_field field"
  shows "emit (\<lambda>s. encode_field env enc m s field pData)
    (map_option wire_records (abs_field sub m field pData))"
proof -
  have types: "PB_ATYPE (f_type field) \<noteq> PB_ATYPE_CALLBACK" "PB_LTYPE (f_type field) \<noteq> PB_LTYPE_EXTENSION"
    using plain_type [OF plain] by auto
  have val: "emit (\<lambda>s. c_then (pb_encode_tag_for_field s field) (\<lambda>s. encoder_func enc field m s field p))
    (map_option wire_records (map_option (\<lambda>v. [Single (f_tag field) v]) (abs_value sub m field p)))" for p
    using emit_value [of field enc sub m p] sub types(2) by (simp add: option.map_comp comp_def)
  have arr: "emit (\<lambda>s. encode_array m s field p (ucast count) (encoder_func enc field))
    (map_option wire_records (abs_array sub m field p (unat count)))" for p and count :: u32
    using emit_array [of field enc sub m p "ucast count"] sub types(2) by simp
  show ?thesis
  proof (cases "PB_ATYPE (f_type field) = PB_ATYPE_STATIC \<or> PB_ATYPE (f_type field) = PB_ATYPE_POINTER")
    case False
    then show ?thesis using types by (auto simp: encode_field_def abs_field_def Let_def emit_error)
  next
    case True
    have "PB_HTYPE (f_type field) = PB_HTYPE_REQUIRED \<or> PB_HTYPE (f_type field) = PB_HTYPE_OPTIONAL \<or>
      PB_HTYPE (f_type field) = PB_HTYPE_REPEATED \<or> PB_HTYPE (f_type field) = PB_HTYPE_ONEOF"
      by (rule htype_exhaust)
    then show ?thesis using True
      by (elim disjE; simp add: encode_field_def encode_basic_field_def abs_field_def field_present_def
          htype_neq safe_read_bool_eq os_undefined_def Let_def split del: if_split)
        (auto simp add: val arr emit_error emit_skip emit_undefined safe_read_bool_eq
          split del: if_split split: if_splits)
  qed
qed

lemma emit_run_iters:
  assumes "\<And>it. it \<in> set its \<Longrightarrow> emit (body it) (f it)"
  shows "emit (run_iters body its) (map_option concat (those (map f its)))"
  using assms
proof (induction its)
  case Nil
  show ?case using emit_skip by (simp add: emits_def)
next
  case (Cons it its)
  then have "emit (\<lambda>s. c_then (body it s) (run_iters body its))
    (opt_append (f it) (map_option concat (those (map f its))))"
    by (intro emit_then) auto
  moreover have "c_then (body it s) (run_iters body its) = run_iters body (it # its) s" for s
    by (simp add: c_then_def split: prod.split)
  moreover have "opt_append (f it) (map_option concat (those (map f its))) =
    map_option concat (those (map f (it # its)))"
    by (auto simp: opt_append_def split: option.split)
  ultimately show ?case by (simp add: emits_def)
qed

text \<open>The refinement: \<open>pb_encode\<close> emits the wire format of the message that memory holds.\<close>

lemma emit_message:
  "plain_fields fds \<Longrightarrow> emit (\<lambda>s. pb_encode env m s fds a) (map_option wire_records (abs_msg m fds a))"
proof (induction fds arbitrary: a rule: measure_induct_rule [of "size_list size"])
  case (less fds)
  have "emit (\<lambda>s. encode_field env (encode_msg env m) m s (field_at fds (it_pos it)) (it_pData it))
    (map_option wire_records (abs_field (abs_msg m) m (field_at fds (it_pos it)) (it_pData it)))"
    if "it \<in> set (iters fds a)" for it
  proof (rule emit_field)
    show plain: "plain_field (field_at fds (it_pos it))"
      using less.prems iters_field [OF that] by (simp add: list_all_iff)
    show "emit (\<lambda>s. pb_encode env m s fs p) (map_option wire_records (abs_msg m fs p))"
      if "f_ptr (field_at fds (it_pos it)) = PtrFields fs" for fs p
      using that plain by (intro less.IH size_submsg_fields plain_sub)
  qed
  then have "emit (run_iters (\<lambda>it s. encode_field env (encode_msg env m) m s
        (field_at fds (it_pos it)) (it_pData it)) (iters fds a))
    (map_option concat (those (map (\<lambda>it. map_option wire_records
        (abs_field (abs_msg m) m (field_at fds (it_pos it)) (it_pData it))) (iters fds a))))"
    by (rule emit_run_iters)
  moreover have "pb_encode env m s fds a = run_iters (\<lambda>it s. encode_field env (encode_msg env m) m s
        (field_at fds (it_pos it)) (it_pData it)) (iters fds a) s" for s
    by (rule pb_encode_plain [OF less.prems])
  ultimately show ?case
    by (simp add: abs_msg.simps [of m fds a] those_map_option option.map_comp comp_def)
qed

end

end
