(* ===== verification/Pb_Encode_Safe.thy ===== *)
theory Pb_Encode_Safe
  imports Pb_Encode_Spec
begin

text \<open>
  Memory safety of the encoder on memory buffers: whatever the message and whether or not
  encoding succeeds, no byte outside the buffer given to \<open>pb_ostream_from_buffer\<close> is
  written. The invariant ties the write pointer to \<open>bytes_written\<close>, also for the
  substreams that submessages are written through.
\<close>

section \<open>The buffer invariant\<close>

text \<open>
  \<open>c\<close> is the position of the write pointer when the (sub)stream was made, \<open>hi\<close> the end of
  the writable part of the buffer, \<open>B\<close> the buffer before encoding.
\<close>

definition os_inv :: "byte list \<Rightarrow> nat \<Rightarrow> nat \<Rightarrow> pb_ostream_t \<Rightarrow> bool" where
  "os_inv B hi c s \<longleftrightarrow>
     is_OS_NULL (os_callback s) \<or>
     os_callback s = OS_buf_write \<and> hi \<le> length B \<and>
     unat (os_bytes_written s) \<le> unat (os_max_size s) \<and> unat (os_max_size s) < 2 ^ 63 \<and>
     snd (os_state s) = c + unat (os_bytes_written s) \<and> c + unat (os_max_size s) \<le> hi \<and>
     length (fst (os_state s)) = length B \<and> drop hi (fst (os_state s)) = drop hi B"

definition keeps :: "byte list \<Rightarrow> nat \<Rightarrow> (pb_ostream_t \<Rightarrow> bool \<times> pb_ostream_t) \<Rightarrow> bool" where
  "keeps B hi A \<longleftrightarrow>
     (\<forall>c s. os_inv B hi c s \<longrightarrow>
        os_inv B hi c (snd (A s)) \<and> os_callback (snd (A s)) = os_callback s \<and>
        os_max_size (snd (A s)) = os_max_size s)"

named_theorems keep_intros \<open>operations that keep the buffer invariant\<close>

lemma keepsD:
  assumes "keeps B hi A" "os_inv B hi c s"
  shows "os_inv B hi c (snd (A s))" "os_callback (snd (A s)) = os_callback s"
    "os_max_size (snd (A s)) = os_max_size s"
  using assms by (auto simp: keeps_def)

lemma keepsI:
  assumes "\<And>c s. os_inv B hi c s \<Longrightarrow> os_inv B hi c (snd (A s)) \<and>
    os_callback (snd (A s)) = os_callback s \<and> os_max_size (snd (A s)) = os_max_size s"
  shows "keeps B hi A"
  using assms by (simp add: keeps_def)

lemma keeps_return [keep_intros]: "keeps B hi (\<lambda>s. (ok, s))"
  by (simp add: keeps_def)

lemma keeps_error [keep_intros]: "keeps B hi (\<lambda>s. os_return_error s msg)"
  by (simp add: keeps_def os_return_error_def os_set_error_def os_inv_def)

lemma keeps_undefined [keep_intros]: "keeps B hi os_undefined" "keeps B hi (\<lambda>s. os_undefined s)"
  by (simp_all add: keeps_def os_undefined_def os_return_error_def os_set_error_def os_inv_def)

lemma keeps_if [keep_intros]:
  "keeps B hi A \<Longrightarrow> keeps B hi A' \<Longrightarrow> keeps B hi (\<lambda>s. if P s then A s else A' s)"
  by (simp add: keeps_def)

lemma keeps_then [keep_intros]:
  assumes "keeps B hi A" "keeps B hi A'"
  shows "keeps B hi (\<lambda>s. c_then (A s) A')"
proof (rule keepsI)
  fix c s assume "os_inv B hi c s"
  note A = keepsD [OF assms(1) this] 
  note A' = keepsD [OF assms(2) A(1)]
  show "os_inv B hi c (snd (c_then (A s) A')) \<and> os_callback (snd (c_then (A s) A')) = os_callback s \<and>
    os_max_size (snd (c_then (A s) A')) = os_max_size s"
    using A A' by (cases "A s") (auto simp: c_then_def)
qed

lemma keeps_option [keep_intros]:
  "keeps B hi A \<Longrightarrow> (\<And>v. keeps B hi (f v)) \<Longrightarrow>
   keeps B hi (\<lambda>s. case r of None \<Rightarrow> A s | Some v \<Rightarrow> f v s)"
  by (cases r) simp_all

lemma drop_copy_loop:
  "i + length bs \<le> hi \<Longrightarrow> hi \<le> length d \<Longrightarrow> drop hi (copy_loop d i bs) = drop hi d"
  by (induction d i bs rule: copy_loop.induct) simp_all

lemma keeps_write [keep_intros]:
  assumes len: "length buf = unat count"
  shows "keeps B hi (\<lambda>s. pb_write s buf count)"
proof (rule keepsI)
  fix c s assume inv: "os_inv B hi c s"
  let ?s = "snd (pb_write s buf count)"
  show "os_inv B hi c ?s \<and> os_callback ?s = os_callback s \<and> os_max_size ?s = os_max_size s"
  proof (cases "is_OS_NULL (os_callback s) \<or> count = 0")
    case True
    then show ?thesis using inv by (auto simp: pb_write_def os_inv_def word_less_nat_alt)
  next
    case False
    then have nn: "\<not> is_OS_NULL (os_callback s)" "count > 0"
      by (auto simp: word_neq_0_conv)
    show ?thesis
    proof (cases "os_bytes_written s + count < os_bytes_written s \<or>
        os_bytes_written s + count > os_max_size s")
      case True
      with nn inv show ?thesis
        by (simp add: pb_write_def os_return_error_def os_set_error_def os_inv_def)
    next
      case fits: False
      have sum: "unat (os_bytes_written s + count) = unat (os_bytes_written s) + unat count"
        using fits by (simp add: unat_plus_simple not_less)
      have le: "unat (os_bytes_written s) + unat count \<le> unat (os_max_size s)"
        using fits sum by (simp add: word_less_nat_alt)
      obtain d p where st: "os_state s = (d, p)" by (cases "os_state s")
      have "drop hi (copy_loop d p buf) = drop hi d"
        using inv nn st le len by (intro drop_copy_loop) (auto simp: os_inv_def)
      with inv nn fits st sum le len show ?thesis
        by (auto simp: pb_write_def os_call_def buf_write_def os_inv_def)
    qed
  qed
qed

section \<open>The encoders keep it\<close>

lemma keeps_varint [keep_intros]: "keeps B hi (\<lambda>s. pb_encode_varint s v)"
  unfolding pb_encode_varint_eq using length_varint_u64 [of v]
  by (intro keeps_write) (simp add: unat_of_nat_small)

lemma keeps_string [keep_intros]: "length bs = unat sz \<Longrightarrow> keeps B hi (\<lambda>s. pb_encode_string s bs sz)"
  unfolding pb_encode_string_def by (intro keep_intros)

lemma keeps_tag [keep_intros]:
  "keeps B hi (\<lambda>s. pb_encode_tag s wt tag)" "keeps B hi (\<lambda>s. pb_encode_tag_for_field s field)"
  by (cases "field_wiretype field";
      simp add: pb_encode_tag_def pb_encode_tag_for_field_def keep_intros)+

lemma keeps_leaf_encoders [keep_intros]:
  "keeps B hi (\<lambda>s. pb_enc_bool m s field p)"
  "keeps B hi (\<lambda>s. pb_enc_varint m s field p)"
  "keeps B hi (\<lambda>s. pb_enc_uvarint m s field p)"
  "keeps B hi (\<lambda>s. pb_enc_svarint m s field p)"
  "keeps B hi (\<lambda>s. pb_enc_fixed32 m s field p)"
  "keeps B hi (\<lambda>s. pb_enc_fixed64 m s field p)"
  "keeps B hi (\<lambda>s. pb_enc_bytes m s field p)"
  "keeps B hi (\<lambda>s. pb_enc_string m s field p)"
  "keeps B hi (\<lambda>s. pb_enc_fixed_length_bytes m s field p)"
  by (simp_all add: pb_enc_bool_def pb_enc_varint_def pb_enc_uvarint_def pb_enc_svarint_def
      pb_encode_svarint_def pb_enc_fixed32_def pb_enc_fixed64_def pb_encode_fixed32_def
      pb_encode_fixed64_def pb_enc_bytes_def pb_enc_string_def pb_enc_fixed_length_bytes_def Let_def
      keep_intros)

text \<open>
  The substream of a submessage stays inside its parent because the size computed by the
  first pass was compared with the room left. The comparison
  \<^verbatim>\<open>stream->bytes_written + size > stream->max_size\<close> is exact only if the sum does not
  wrap around, hence the bound on the size.
\<close>

lemma keeps_submessage_pass:
  assumes enc: "keeps B hi (\<lambda>s. enc fds a s)" and small: "unat sz < 2 ^ 63"
  shows "keeps B hi (submessage_pass enc fds a sz)"
proof (rule keepsI)
  fix c s assume inv: "os_inv B hi c s"
  let ?s = "snd (submessage_pass enc fds a sz s)"
  show "os_inv B hi c ?s \<and> os_callback ?s = os_callback s \<and> os_max_size ?s = os_max_size s"
  proof (cases "is_OS_NULL (os_callback s) \<or> os_bytes_written s + sz > os_max_size s")
    case True
    then show ?thesis using inv
      by (auto simp: submessage_pass_def pb_write_def os_inv_def os_return_error_def os_set_error_def)
  next
    case False
    then have nn: "\<not> is_OS_NULL (os_callback s)" and fits: "\<not> os_max_size s < os_bytes_written s + sz"
      by auto
    let ?sub = "\<lparr>os_callback = os_callback s, os_state = os_state s, os_max_size = sz,
                  os_bytes_written = 0, os_errmsg = None\<rparr> :: pb_ostream_t"
    let ?c = "c + unat (os_bytes_written s)"
    have b: "unat (os_bytes_written s) \<le> unat (os_max_size s)" "unat (os_max_size s) < 2 ^ 63"
      "c + unat (os_max_size s) \<le> hi"
      using inv nn by (auto simp: os_inv_def)
    have "unat (os_bytes_written s + sz) = unat (os_bytes_written s) + unat sz"
      using unat_add_small [of "os_bytes_written s" "unat sz"] b small by simp
    then have room: "unat (os_bytes_written s) + unat sz \<le> unat (os_max_size s)"
      using fits by (simp add: word_less_nat_alt)
    have "os_inv B hi ?c ?sub"
      using inv nn room b small by (auto simp: os_inv_def)
    note sub = keepsD [OF enc this]
    obtain ok sub where e: "enc fds a ?sub = (ok, sub)" by (cases "enc fds a ?sub")
    have bw: "unat (os_bytes_written sub) \<le> unat sz" "snd (os_state sub) = ?c + unat (os_bytes_written sub)"
      using sub nn unfolding e by (auto simp: os_inv_def)
    have "unat (os_bytes_written s + os_bytes_written sub) = unat (os_bytes_written s) + unat (os_bytes_written sub)"
      using unat_add_small [of "os_bytes_written s" "unat (os_bytes_written sub)"] b bw room by simp
    then show ?thesis
      using sub inv nn fits room b bw unfolding submessage_pass_def e
      by (auto simp: os_inv_def os_return_error_def os_set_error_def Let_def)
  qed
qed

lemma keeps_submessage:
  assumes enc: "keeps B hi (\<lambda>s. enc fds a s)"
    and small: "\<And>s. enc fds a PB_OSTREAM_SIZING = (True, s) \<Longrightarrow> unat (os_bytes_written s) < 2 ^ 63"
  shows "keeps B hi (\<lambda>s. pb_encode_submessage enc s fds a)"
proof (cases "enc fds a PB_OSTREAM_SIZING")
  case (Pair ok sub)
  show ?thesis
  proof (cases ok)
    case True
    have "keeps B hi (submessage_pass enc fds a (os_bytes_written sub))"
      using small Pair True by (intro keeps_submessage_pass enc) simp
    then show ?thesis
      using Pair True by (simp add: pb_encode_submessage_def Let_def keep_intros)
  next
    case False
    then show ?thesis
      using Pair by (simp add: pb_encode_submessage_def keeps_def os_inv_def)
  qed
qed

lemma keeps_array_loop:
  "(\<And>q. q \<in> set (elements p step n) \<Longrightarrow> keeps B hi (body q)) \<Longrightarrow> keeps B hi (array_loop body step n p)"
proof (induction n arbitrary: p)
  case 0
  show ?case by (simp add: keeps_def)
next
  case (Suc n)
  then have "keeps B hi (\<lambda>s. c_then (body p s) (array_loop body step n (p + step)))"
    by (intro keeps_then) simp_all
  then show ?case by (simp add: keeps_def)
qed

lemma keeps_null_write:
  assumes "keeps B hi A"
  shows "keeps B hi (\<lambda>s. if is_OS_NULL (os_callback s) then pb_write s [] sz else A s)"
  using assms by (auto simp: keeps_def pb_write_def os_inv_def)

lemma keeps_array:
  assumes "\<And>q. PB_LTYPE (f_type field) = PB_LTYPE_SUBMESSAGE \<longrightarrow>
      q \<in> set (elements p (ucast (f_data_size field)) (unat count)) \<Longrightarrow> keeps B hi (\<lambda>s. func m s field q)"
  shows "keeps B hi (\<lambda>s. encode_array m s field p count func)"
proof -
  let ?step = "ucast (f_data_size field) :: size_t"
  have "keeps B hi (array_loop (\<lambda>q s. func m s field q) ?step (unat count) p)"
    using assms by (intro keeps_array_loop) simp
  moreover have "keeps B hi (array_loop (\<lambda>q s. c_then (pb_encode_tag_for_field s field) (\<lambda>s. func m s field
      (if P \<and> (PB_LTYPE (f_type field) = PB_LTYPE_STRING \<or> PB_LTYPE (f_type field) = PB_LTYPE_BYTES)
       then load_ptr m q else q))) ?step (unat count) p)" for P
    by (intro keeps_array_loop keeps_then keeps_tag assms) (auto simp: PB_LTYPE_SUBMESSAGE_def PB_LTYPE_STRING_def PB_LTYPE_BYTES_def)
  ultimately show ?thesis
    unfolding encode_array_def Let_def
    by (cases "packed_size m field p count func") (simp add: keep_intros keeps_null_write)
qed

text \<open>Where the encoder goes for the submessages of a field: nowhere if it is absent.\<close>

definition submessage_addrs :: "mem \<Rightarrow> pb_field_t \<Rightarrow> addr \<Rightarrow> addr list" where
  "submessage_addrs m field pData =
     (let p = (if PB_ATYPE (f_type field) = PB_ATYPE_POINTER then load_ptr m pData else pData) in
      if PB_HTYPE (f_type field) = PB_HTYPE_OPTIONAL \<and> \<not> field_present m field pData then []
      else if PB_HTYPE (f_type field) = PB_HTYPE_REPEATED
      then elements p (ucast (f_data_size field))
        (unat (if f_size_offset field \<noteq> 0 then load_u32 m (pData + scast (f_size_offset field))
               else f_array_size field))
      else [p])"

lemma keeps_func:
  assumes "\<And>fs. f_ptr field = PtrFields fs \<Longrightarrow> PB_LTYPE (f_type field) = PB_LTYPE_SUBMESSAGE \<Longrightarrow>
      keeps B hi (\<lambda>s. enc fs p s) \<and>
      (\<forall>s. enc fs p PB_OSTREAM_SIZING = (True, s) \<longrightarrow> unat (os_bytes_written s) < 2 ^ 63)"
    and "plain_field field"
  shows "keeps B hi (\<lambda>s. encoder_func enc field m s field p)"
proof -
  have sub: "keeps B hi (\<lambda>s. pb_enc_submessage enc m s field p)"
    if "PB_LTYPE (f_type field) = PB_LTYPE_SUBMESSAGE"
    using assms(1) [OF _ that] keeps_submessage [of B hi enc _ p]
    by (cases "f_ptr field") (simp_all add: pb_enc_submessage_def keep_intros)
  show ?thesis
    by (rule ltype_exhaust [of field])
      (use plain_type [OF assms(2)] in \<open>simp_all add: encoder_func_table keep_intros sub\<close>)
qed

lemma keeps_field:
  assumes sub: "\<And>fs a. f_ptr field = PtrFields fs \<Longrightarrow> a \<in> set (submessage_addrs m field pData) \<Longrightarrow>
      keeps B hi (\<lambda>s. enc fs a s) \<and>
      (\<forall>s. enc fs a PB_OSTREAM_SIZING = (True, s) \<longrightarrow> unat (os_bytes_written s) < 2 ^ 63)"
    and plain: "plain_field field"
  shows "keeps B hi (\<lambda>s. encode_field env enc m s field pData)"
proof -
  let ?p = "if PB_ATYPE (f_type field) = PB_ATYPE_POINTER then load_ptr m pData else pData"
  have func: "keeps B hi (\<lambda>s. encoder_func enc field m s field a)"
    if "PB_LTYPE (f_type field) = PB_LTYPE_SUBMESSAGE \<longrightarrow> a \<in> set (submessage_addrs m field pData)" for a
    using sub that by (intro keeps_func [OF _ plain]) blast
  have emit: "keeps B hi (\<lambda>s. c_then (pb_encode_tag_for_field s field) (\<lambda>s. encoder_func enc field m s field ?p))"
    if "?p \<in> set (submessage_addrs m field pData)"
    using that by (intro keeps_then keeps_tag func) simp
  have arr: "keeps B hi (\<lambda>s. encode_array m s field ?p
      (ucast (if f_size_offset field \<noteq> 0 then load_u32 m (pData + scast (f_size_offset field)) else f_array_size field))
      (encoder_func enc field))" if "PB_HTYPE (f_type field) = PB_HTYPE_REPEATED"
    using that by (intro keeps_array func) (simp add: submessage_addrs_def htype_neq htype_neq [symmetric] Let_def split del: if_split)
  have "PB_HTYPE (f_type field) = PB_HTYPE_REQUIRED \<or> PB_HTYPE (f_type field) = PB_HTYPE_OPTIONAL \<or>
      PB_HTYPE (f_type field) = PB_HTYPE_REPEATED \<or> PB_HTYPE (f_type field) = PB_HTYPE_ONEOF"
    by (rule htype_exhaust)
  then have "keeps B hi (\<lambda>s. encode_basic_field enc m s field pData)"
  proof (elim disjE)
    assume t: "PB_HTYPE (f_type field) = PB_HTYPE_REQUIRED"
    have "?p \<in> set (submessage_addrs m field pData)" by (simp add: submessage_addrs_def t htype_neq htype_neq [symmetric] Let_def)
    then show ?thesis using emit t by (simp add: encode_basic_field_def Let_def keep_intros split del: if_split)
  next
    assume t: "PB_HTYPE (f_type field) = PB_HTYPE_OPTIONAL"
    show ?thesis
    proof (cases "field_present m field pData")
      case True
      then have "?p \<in> set (submessage_addrs m field pData)" by (simp add: submessage_addrs_def t htype_neq htype_neq [symmetric] Let_def)
      then show ?thesis using emit t True
        by (auto simp: encode_basic_field_def Let_def htype_neq htype_neq [symmetric] keep_intros split del: if_split)
    next
      case False
      then show ?thesis using t
        by (auto simp: encode_basic_field_def field_present_def safe_read_bool_eq Let_def htype_neq htype_neq [symmetric] keep_intros)
    qed
  next
    assume t: "PB_HTYPE (f_type field) = PB_HTYPE_REPEATED"
    show ?thesis using arr [OF t] t
      by (auto simp: encode_basic_field_def Let_def htype_neq htype_neq [symmetric] split: if_splits)
  next
    assume t: "PB_HTYPE (f_type field) = PB_HTYPE_ONEOF"
    have "?p \<in> set (submessage_addrs m field pData)" by (simp add: submessage_addrs_def t htype_neq htype_neq [symmetric] Let_def)
    then show ?thesis using emit t
      by (auto simp: encode_basic_field_def Let_def htype_neq htype_neq [symmetric] keep_intros split del: if_split)
  qed
  then show ?thesis
    using plain_type [OF plain] by (simp add: encode_field_def Let_def keep_intros)
qed

section \<open>Messages\<close>

text \<open>The submessages of a message in memory, at any depth: their descriptors and addresses.\<close>

inductive submessage :: "mem \<Rightarrow> pb_field_t list \<Rightarrow> addr \<Rightarrow> pb_field_t list \<Rightarrow> addr \<Rightarrow> bool" for m where
  submessage_field: "it \<in> set (iters fds a) \<Longrightarrow> f_ptr (field_at fds (it_pos it)) = PtrFields fs \<Longrightarrow>
    p \<in> set (submessage_addrs m (field_at fds (it_pos it)) (it_pData it)) \<Longrightarrow> submessage m fds a fs p"
| submessage_inner: "submessage m fds a fs p \<Longrightarrow> submessage m fs p gs q \<Longrightarrow> submessage m fds a gs q"

text \<open>
  The wire formats of the submessages, as the specification gives them, have less than
  \<open>2 ^ 63\<close> bytes. Their sizing passes then return less than that.
\<close>

definition submessages_small :: "mem \<Rightarrow> pb_field_t list \<Rightarrow> addr \<Rightarrow> bool" where
  "submessages_small m fds a \<longleftrightarrow>
     (\<forall>fs p rs. submessage m fds a fs p \<longrightarrow> abs_msg m fs p = Some rs \<longrightarrow> length (wire_records rs) < 2 ^ 63)"

lemma small_inner: "submessages_small m fds a \<Longrightarrow> submessage m fds a fs p \<Longrightarrow> submessages_small m fs p"
  unfolding submessages_small_def by (blast intro: submessage_inner)

lemma keeps_run_iters:
  "(\<And>it. it \<in> set its \<Longrightarrow> keeps B hi (body it)) \<Longrightarrow> keeps B hi (run_iters body its)"
proof (induction its)
  case Nil
  show ?case by (simp add: keeps_def)
next
  case (Cons it its)
  then have "keeps B hi (\<lambda>s. c_then (body it s) (run_iters body its))"
    by (intro keeps_then) auto
  moreover have "c_then (body it s) (run_iters body its) = run_iters body (it # its) s" for s
    by (simp add: c_then_def split: prod.split)
  ultimately show ?case by (simp add: keeps_def)
qed

section \<open>Properties of the encoder\<close>

lemma from_buffer_good:
  "unat n \<le> length buf \<Longrightarrow> unat n < 2 ^ 63 \<Longrightarrow>
   os_good OS_buf_write buf_accepts (pb_ostream_from_buffer buf n)"
  by (simp add: os_good_def pb_ostream_from_buffer_def buf_accepts_def)

lemma from_buffer_put:
  assumes "length bs \<le> length buf"
  shows "os_put buf_push (pb_ostream_from_buffer buf n) bs =
    (pb_ostream_from_buffer buf n)\<lparr>os_state := (bs @ drop (length bs) buf, length bs),
       os_bytes_written := of_nat (length bs)\<rparr>"
  using assms by (simp add: os_put_def pb_ostream_from_buffer_def buf_push_def copy_loop_eq)

lemma sizing_good: "os_good cb accepts PB_OSTREAM_SIZING" "os_fits PB_OSTREAM_SIZING k"
  by (simp_all add: os_good_def os_fits_def PB_OSTREAM_SIZING_def)

lemma sizing_put: "os_bytes_written (os_put push PB_OSTREAM_SIZING bs) = of_nat (length bs)"
  by (simp add: os_put_def PB_OSTREAM_SIZING_def)

lemma encode_into_buffer:
  assumes "buf.emit A (Some bs)" "unat n \<le> length buf" "unat n < 2 ^ 63" "length bs < 2 ^ 63"
  shows "if length bs \<le> unat n
    then A (pb_ostream_from_buffer buf n) =
      (True, (pb_ostream_from_buffer buf n)
         \<lparr>os_state := (bs @ drop (length bs) buf, length bs), os_bytes_written := of_nat (length bs)\<rparr>)
    else \<not> fst (A (pb_ostream_from_buffer buf n))"
proof -
  have "os_fits (pb_ostream_from_buffer buf n) (length bs) \<longleftrightarrow> length bs \<le> unat n"
    by (simp add: os_fits_def pb_ostream_from_buffer_def)
  then show ?thesis
    using assms from_buffer_good [OF assms(2,3)] from_buffer_put [of bs buf n]
    by (auto simp: emits_def)
qed

lemma sizing_pass:
  assumes "buf.emit A (Some bs)" "length bs < 2 ^ 63"
  shows "fst (A PB_OSTREAM_SIZING)" "os_bytes_written (snd (A PB_OSTREAM_SIZING)) = of_nat (length bs)"
  using assms sizing_good(1) [of OS_buf_write buf_accepts] sizing_good(2) [of "length bs"]
    sizing_put [of buf_push bs]
  by (auto simp: emits_def)

text \<open>
  (C1) Encoding into a memory buffer: for a message \<open>rs\<close> in memory, \<open>pb_encode\<close> succeeds
  exactly when the wire format of \<open>rs\<close> fits into the buffer; the buffer then starts with
  exactly these bytes, the rest of it is unchanged, and \<open>bytes_written\<close> is their number.
\<close>

theorem pb_encode_buffer:
  assumes "plain_fields fds" and "abs_msg m fds a = Some rs"
    and "unat n \<le> length buf" "unat n < 2 ^ 63" "length (wire_records rs) < 2 ^ 63"
  shows "if length (wire_records rs) \<le> unat n
    then pb_encode env m (pb_ostream_from_buffer buf n) fds a =
      (True, (pb_ostream_from_buffer buf n)
         \<lparr>os_state := (wire_records rs @ drop (length (wire_records rs)) buf, length (wire_records rs)),
          os_bytes_written := of_nat (length (wire_records rs))\<rparr>)
    else \<not> fst (pb_encode env m (pb_ostream_from_buffer buf n) fds a)"
  using encode_into_buffer [OF _ assms(3-5), of "\<lambda>s. pb_encode env m s fds a"]
    buf.emit_message [OF assms(1), of env m a] assms(2) by simp

text \<open>
  (C2) A message that memory does not hold (an array count above the array's size, a byte
  string longer than its field, a missing required field, an integer of odd size, a
  submessage without descriptor, at any depth) is refused on every stream.
\<close>

theorem pb_encode_refuses:
  assumes "plain_fields fds" and "abs_msg m fds a = None"
  shows "\<not> fst (pb_encode env m s fds a)"
  using buf.emit_message [OF assms(1), of env m a] assms(2) by (simp add: emits_def)

text \<open>
  (C3) \<open>pb_get_encoded_size\<close> returns the length of the wire format, without writing, and
  fails when there is no message.
\<close>

theorem pb_get_encoded_size_correct:
  assumes "plain_fields fds"
    and "\<And>rs. abs_msg m fds a = Some rs \<Longrightarrow> length (wire_records rs) < 2 ^ 63"
  shows "pb_get_encoded_size env m fds a =
    map_option (\<lambda>rs. of_nat (length (wire_records rs))) (abs_msg m fds a)"
proof (cases "abs_msg m fds a")
  case None
  then have "\<not> fst (pb_encode env m PB_OSTREAM_SIZING fds a)"
    using buf.emit_message [OF assms(1), of env m a] by (simp add: emits_def)
  with None show ?thesis
    by (cases "pb_encode env m PB_OSTREAM_SIZING fds a") (simp add: pb_get_encoded_size_def)
next
  case (Some rs)
  then have "buf.emit (\<lambda>s. pb_encode env m s fds a) (Some (wire_records rs))"
    using buf.emit_message [OF assms(1), of env m a] by simp
  from sizing_pass [OF this assms(2) [OF Some]] Some show ?thesis
    by (cases "pb_encode env m PB_OSTREAM_SIZING fds a") (simp add: pb_get_encoded_size_def)
qed

text \<open>
  The two passes that callers make: a buffer of the size that
  \<open>pb_get_encoded_size\<close> returned is filled completely by \<open>pb_encode\<close>, with the wire
  format of the message.
\<close>

lemma encode_after_sizing:
  assumes "plain_fields fds" "abs_msg m fds a = Some rs" "length (wire_records rs) < 2 ^ 63"
    and "pb_get_encoded_size env m fds a = Some sz" "length buf = unat sz"
  shows "\<exists>s. pb_encode env m (pb_ostream_from_buffer buf sz) fds a = (True, s) \<and>
    fst (os_state s) = wire_records rs \<and> os_bytes_written s = sz"
proof -
  have e: "buf.emit (\<lambda>s. pb_encode env m s fds a) (Some (wire_records rs))"
    using buf.emit_message [OF assms(1), of env m a] assms(2) by simp
  have sz: "sz = of_nat (length (wire_records rs))"
    using sizing_pass [OF e assms(3)] assms(4)
    by (simp add: pb_get_encoded_size_def split: prod.splits if_splits)
  then have "unat sz = length (wire_records rs)"
    using assms(3) by (simp add: unat_of_nat_small)
  then show ?thesis
    using encode_into_buffer [OF e, of sz buf] assms(3,5) sz by simp
qed

lemma small_size:
  assumes "plain_fields fds" "\<And>rs. abs_msg m fds a = Some rs \<Longrightarrow> length (wire_records rs) < 2 ^ 63"
    and s: "pb_encode env m PB_OSTREAM_SIZING fds a = (True, s)"
  shows "unat (os_bytes_written s) < 2 ^ 63"
proof -
  have e: "buf.emit (\<lambda>s. pb_encode env m s fds a) (map_option wire_records (abs_msg m fds a))"
    by (rule buf.emit_message [OF assms(1)])
  obtain rs where rs: "abs_msg m fds a = Some rs"
    using e s by (cases "abs_msg m fds a") (auto simp: emits_def dest: spec [of _ PB_OSTREAM_SIZING])
  note small = assms(2) [OF rs]
  have "os_bytes_written s = of_nat (length (wire_records rs))"
    using sizing_pass(2) [OF _ small, of "\<lambda>s. pb_encode env m s fds a"] e rs s by simp
  then show ?thesis using small by (simp add: unat_of_nat_small)
qed

lemma keeps_message:
  "plain_fields fds \<Longrightarrow> submessages_small m fds a \<Longrightarrow> keeps B hi (\<lambda>s. pb_encode env m s fds a)"
proof (induction fds arbitrary: a rule: measure_induct_rule [of "size_list size"])
  case (less fds)
  have "keeps B hi (\<lambda>s. encode_field env (encode_msg env m) m s (field_at fds (it_pos it)) (it_pData it))"
    if it: "it \<in> set (iters fds a)" for it
  proof (rule keeps_field)
    show plain: "plain_field (field_at fds (it_pos it))"
      using less.prems iters_field [OF it] by (simp add: list_all_iff)
    fix fs p
    assume fs: "f_ptr (field_at fds (it_pos it)) = PtrFields fs"
      and p: "p \<in> set (submessage_addrs m (field_at fds (it_pos it)) (it_pData it))"
    note sub = submessage_field [OF it fs p] and pl = plain_sub [OF plain fs]
    have "keeps B hi (\<lambda>s. pb_encode env m s fs p)"
      using fs pl small_inner [OF less.prems(2) sub] by (intro less.IH size_submsg_fields)
    moreover have "unat (os_bytes_written s) < 2 ^ 63" if "pb_encode env m PB_OSTREAM_SIZING fs p = (True, s)" for s
      using small_size [OF pl _ that] less.prems(2) sub unfolding submessages_small_def by blast
    ultimately show "keeps B hi (\<lambda>s. pb_encode env m s fs p) \<and>
        (\<forall>s. pb_encode env m PB_OSTREAM_SIZING fs p = (True, s) \<longrightarrow> unat (os_bytes_written s) < 2 ^ 63)"
      by blast
  qed
  then have "keeps B hi (run_iters (\<lambda>it s. encode_field env (encode_msg env m) m s
        (field_at fds (it_pos it)) (it_pData it)) (iters fds a))"
    by (rule keeps_run_iters)
  then show ?case by (simp add: keeps_def pb_encode_plain [OF less.prems(1)])
qed

text \<open>
  (C4) Memory safety: whatever the memory holds otherwise, and also when encoding fails, the
  encoder writes inside the first \<open>n\<close> bytes of the buffer only, provided that no submessage
  of the message, at any depth, has a wire format of \<open>2 ^ 63\<close> bytes or more. (Without that the comparison
  \<^verbatim>\<open>stream->bytes_written + size > stream->max_size\<close> of \<open>pb_encode_submessage\<close> may wrap
  around and let a write run past the buffer.)
\<close>

theorem pb_encode_in_bounds:
  assumes "plain_fields fds" "submessages_small m fds a" "unat n \<le> length buf" "unat n < 2 ^ 63"
  shows "case snd (pb_encode env m (pb_ostream_from_buffer buf n) fds a) of s \<Rightarrow>
    length (fst (os_state s)) = length buf \<and> drop (unat n) (fst (os_state s)) = drop (unat n) buf \<and>
    snd (os_state s) = unat (os_bytes_written s) \<and> os_bytes_written s \<le> n"
proof -
  let ?s = "pb_ostream_from_buffer buf n"
  have inv: "os_inv buf (unat n) 0 ?s"
    using assms(3,4) by (simp add: os_inv_def pb_ostream_from_buffer_def)
  note k = keepsD [OF keeps_message [OF assms(1,2), of buf "unat n" env] inv]
  show ?thesis
    using k by (auto simp: os_inv_def pb_ostream_from_buffer_def word_le_nat_alt)
qed

text \<open>
  (C5) The delimited and the null-terminated form: the message is preceded by its length as
  a varint, respectively followed by a zero byte; they succeed exactly when all of it fits.
\<close>

theorem pb_encode_framed:
  assumes "plain_fields fds" and "abs_msg m fds a = Some rs"
    and "unat n \<le> length buf" "unat n < 2 ^ 63" "length (delimited (wire_records rs)) < 2 ^ 63"
    and "framed = delimited (wire_records rs) \<and> A = pb_encode_delimited env m \<or>
      framed = wire_records rs @ [0] \<and> A = pb_encode_nullterminated env m"
  shows "if length framed \<le> unat n
    then A (pb_ostream_from_buffer buf n) fds a =
      (True, (pb_ostream_from_buffer buf n)
         \<lparr>os_state := (framed @ drop (length framed) buf, length framed),
          os_bytes_written := of_nat (length framed)\<rparr>)
    else \<not> fst (A (pb_ostream_from_buffer buf n) fds a)"
proof -
  have e: "buf.emit (\<lambda>s. pb_encode env m s fds a) (Some (wire_records rs))"
    using buf.emit_message [OF assms(1), of env m a] assms(2) by simp
  have "buf.emit (\<lambda>s. pb_encode_delimited env m s fds a) (Some (delimited (wire_records rs)))"
    using buf.emit_submessage [of "encode_msg env m", OF e] by (simp add: pb_encode_delimited_def)
  moreover have "buf.emit (\<lambda>s. pb_encode_nullterminated env m s fds a) (Some (wire_records rs @ [0]))"
    using buf.emit_then [OF e buf.emit_write [of "[0]"]] by (simp add: pb_encode_nullterminated_def)
  ultimately have "buf.emit (\<lambda>s. A s fds a) (Some framed)"
    using assms(6) by auto
  moreover have "length (wire_records rs @ [0]) < 2 ^ 63"
    using assms(5) varint_not_Nil [of "length (wire_records rs)"]
    by (cases "varint (length (wire_records rs))") (simp_all add: delimited_def)
  ultimately show ?thesis
    using encode_into_buffer [OF _ assms(3,4), of "\<lambda>s. A s fds a" framed] assms(5,6) by auto
qed

end
