(* ===== verification/Pb_Descriptor.thy ===== *)
theory Pb_Descriptor
  imports Pb_Encode_Safe
begin

text \<open>
  Checks on descriptor tables that generated code relies on: that a table describes the
  struct it is meant for, and that its messages can always be encoded. They are executable,
  and the message theories evaluate them on the repository's tables.
\<close>

section \<open>A table describes its struct\<close>

fun psize_shift :: "addr \<Rightarrow> psize_ptr \<Rightarrow> psize_ptr" where
  "psize_shift a (PS_mem p) = PS_mem (a + p)"
| "psize_shift a PS_fixed_count = PS_fixed_count"

lemma iter_next_shift:
  "snd (pb_field_iter_next (it\<lparr>it_dest_struct := a + it_dest_struct it, it_pData := a + it_pData it,
      it_pSize := psize_shift a (it_pSize it)\<rparr>)) =
   (let it' = snd (pb_field_iter_next it)
    in it'\<lparr>it_dest_struct := a + it_dest_struct it', it_pData := a + it_pData it',
        it_pSize := psize_shift a (it_pSize it')\<rparr>)"
  by (simp add: pb_field_iter_next_def pb_field_iter_begin_def Let_def add.assoc)

lemma iter_at_shift:
  "iter_at fds a i =
   (let it = iter_at fds 0 i
    in it\<lparr>it_dest_struct := a, it_pData := a + it_pData it, it_pSize := psize_shift a (it_pSize it)\<rparr>)"
proof (induction i)
  case 0
  show ?case by (simp add: iter_at.simps pb_field_iter_begin_def Let_def add.assoc)
next
  case (Suc i)
  show ?case
    using iter_next_shift [where it = "iter_at fds 0 i" and a = a] Suc by (simp add: iter_at_Suc Let_def)
qed

text \<open>
  For the field \<open>i\<close> of the table, with member name \<open>nm\<close>: the data is at the member's
  offset, and the has-flag or count, where there is one, at the offset of that member.
\<close>

definition field_describes :: "ctype \<Rightarrow> string \<Rightarrow> pb_field_iter_t \<Rightarrow> bool" where
  "field_describes st nm it \<longleftrightarrow>
     (let field = it_field it in
      it_pData it = of_nat (offsetof st nm) \<and>
      (f_size_offset field \<noteq> 0 \<longrightarrow>
        it_pSize it = PS_mem (of_nat (offsetof st
          (if PB_HTYPE (f_type field) = PB_HTYPE_REPEATED then nm @ ''_count'' else ''has_'' @ nm)))) \<and>
      f_data_size field =
        of_nat (sizeof (if PB_ATYPE (f_type field) = PB_ATYPE_POINTER
                        then element_type (member_type st nm) else member_type st nm)))"

fun iter_walk :: "nat \<Rightarrow> pb_field_iter_t \<Rightarrow> pb_field_iter_t list" where
  "iter_walk 0 it = []"
| "iter_walk (Suc n) it = it # iter_walk n (snd (pb_field_iter_next it))"

lemma iter_walk_nth: "i < n \<Longrightarrow> iter_walk n (iter_at fds a k) ! i = iter_at fds a (k + i)"
proof (induction n arbitrary: i k)
  case (Suc n)
  then show ?case
    using Suc.IH [of _ "Suc k"] by (cases i) (simp_all add: iter_at_Suc)
qed simp

definition table_describes :: "ctype \<Rightarrow> string list \<Rightarrow> pb_field_t list \<Rightarrow> bool" where
  "table_describes st names fds \<longleftrightarrow>
     nfields fds = length names \<and>
     list_all2 (field_describes st) names (iter_walk (length names) (snd (pb_field_iter_begin fds 0)))"

lemma table_describes_nth:
  assumes "table_describes st names fds" "i < length names"
  shows "field_describes st (names ! i) (iter_at fds 0 i)"
  using assms iter_walk_nth [of i "length names" fds 0 0]
  by (auto simp: table_describes_def list_all2_conv_all_nth iter_begin_at)

lemma table_describes_at:
  assumes "table_describes st names fds" "i < length names"
  shows "it_pData (iter_at fds a i) = a + of_nat (offsetof st (names ! i))"
    and "f_size_offset (field_at fds i) \<noteq> 0 \<Longrightarrow>
      it_pSize (iter_at fds a i) = PS_mem (a + of_nat (offsetof st
        (if PB_HTYPE (f_type (field_at fds i)) = PB_HTYPE_REPEATED
         then names ! i @ ''_count'' else ''has_'' @ names ! i)))"
proof -
  have "i < nfields fds" using assms by (simp add: table_describes_def)
  then have pos: "it_pos (iter_at fds 0 i) = i" by (rule iter_at_pos)
  have "field_describes st (names ! i) (iter_at fds 0 i)"
    using assms by (rule table_describes_nth)
  with pos iter_at_shift [of fds a i]
  show "it_pData (iter_at fds a i) = a + of_nat (offsetof st (names ! i))"
    and "f_size_offset (field_at fds i) \<noteq> 0 \<Longrightarrow>
      it_pSize (iter_at fds a i) = PS_mem (a + of_nat (offsetof st
        (if PB_HTYPE (f_type (field_at fds i)) = PB_HTYPE_REPEATED
         then names ! i @ ''_count'' else ''has_'' @ names ! i)))"
    by (auto simp: field_describes_def Let_def)
qed

text \<open>
  What is checked of a table: it describes its struct, it has the tags that the generated
  header declares, in increasing order, and it ends with the terminator.
\<close>

definition table_ok :: "ctype \<times> string list \<times> u32 list \<times> pb_field_t list \<Rightarrow> bool" where
  "table_ok t \<longleftrightarrow>
     (case t of (st, names, tags, fds) \<Rightarrow>
        table_describes st names fds \<and> map f_tag fds = tags @ [0] \<and>
        length tags = length names \<and> sorted_wrt (<) tags)"

lemma abs_msg_fields:
  "abs_msg m fds a = map_option concat (those (map
     (\<lambda>i. abs_field (abs_msg m) m (field_at fds i) (it_pData (iter_at fds a i))) [0..<nfields fds]))"
proof -
  have "map (\<lambda>it. abs_field (abs_msg m) m (field_at fds (it_pos it)) (it_pData it)) (iters fds a) =
    map (\<lambda>i. abs_field (abs_msg m) m (field_at fds i) (it_pData (iter_at fds a i))) [0..<nfields fds]"
    by (auto simp: iters_def iter_at_pos)
  then show ?thesis by (subst abs_msg.simps) simp
qed

section \<open>Sizes of scalar fields\<close>

lemma length_wire_tag: "unat tag < 16 \<Longrightarrow> wt < 8 \<Longrightarrow> length (wire_tag tag wt) = 1"
  by (simp add: wire_tag_def varint_small)

text \<open>
  An optional 32-bit integer field with a small tag takes at most eleven bytes, and two if
  it is unsigned and below 128.
\<close>

definition optional_varint :: "pb_field_t \<Rightarrow> bool" where
  "optional_varint f \<longleftrightarrow>
     (f_type f = 0x11 \<or> f_type f = 0x12) \<and> f_size_offset f \<noteq> 0 \<and> f_data_size f = 4 \<and>
     unat (f_tag f) < 16"

lemma length_optional_varint:
  assumes "abs_field sub m f p = Some rs" "optional_varint f"
  shows "length (wire_records rs) \<le> 11"
    and "f_type f = 0x12 \<Longrightarrow> load_u32 m p < 128 \<Longrightarrow> length (wire_records rs) \<le> 2"
proof -
  have len: "length (wire_tag (f_tag f) 0) = 1"
    using assms(2) by (intro length_wire_tag) (simp_all add: optional_varint_def)
  have "rs = [] \<or> (\<exists>v. rs = [Single (f_tag f) (V_varint v)] \<and>
      (f_type f = 0x12 \<longrightarrow> v = ucast (load_u32 m p)))"
  proof -
    have ty: "PB_ATYPE (f_type f) = PB_ATYPE_STATIC" "PB_HTYPE (f_type f) = PB_HTYPE_OPTIONAL"
      "PB_ATYPE (f_type f) \<noteq> PB_ATYPE_POINTER"
      "PB_LTYPE (f_type f) = (if f_type f = 0x12 then PB_LTYPE_UVARINT else PB_LTYPE_VARINT)"
      using assms(2) by (auto simp: optional_varint_def pb_const PB_ATYPE_def PB_HTYPE_def PB_LTYPE_def)
    obtain v where "abs_value sub m f p = Some (V_varint v)" "f_type f = 0x12 \<longrightarrow> v = ucast (load_u32 m p)"
      using assms(2) ty(4) by (cases "f_type f = 0x12")
        (simp_all add: optional_varint_def abs_value_table load_int_def load_uint_def)
    then show ?thesis
      using assms(1) ty(1-3) by (auto simp: abs_field_def htype_neq Let_def split: if_splits)
  qed
  then show "length (wire_records rs) \<le> 11"
    and "f_type f = 0x12 \<Longrightarrow> load_u32 m p < 128 \<Longrightarrow> length (wire_records rs) \<le> 2"
    using length_varint_u64 length_varint_u64 [of "ucast (load_u32 m p)"] len
    by (auto simp: varint_small word_less_nat_alt)
qed

lemma two_varints_bound:
  assumes "nfields fds = 2" "optional_varint (field_at fds 0)" "optional_varint (field_at fds 1)"
    and "abs_msg m fds a = Some rs"
  shows "length (wire_records rs) \<le> 22"
    and "i < 2 \<Longrightarrow> f_type (field_at fds i) = 0x12 \<Longrightarrow> load_u32 m (it_pData (iter_at fds a i)) < 128 \<Longrightarrow>
      length (wire_records rs) \<le> 13"
proof -
  obtain rs0 rs1 where rs: "rs = rs0 @ rs1"
    and f0: "abs_field (abs_msg m) m (field_at fds 0) (it_pData (iter_at fds a 0)) = Some rs0"
    and f1: "abs_field (abs_msg m) m (field_at fds 1) (it_pData (iter_at fds a 1)) = Some rs1"
    using assms(1,4) abs_msg_fields [of m fds a] by (auto simp: numeral_2_eq_2 split: option.splits)
  note len = length_optional_varint [OF f0 assms(2)] length_optional_varint [OF f1 assms(3)]
  show "length (wire_records rs) \<le> 22"
    using len(1,3) by (simp add: rs)
  assume "i < 2" and small: "f_type (field_at fds i) = 0x12" "load_u32 m (it_pData (iter_at fds a i)) < 128"
  then have "i = 0 \<or> i = 1" by auto
  then show "length (wire_records rs) \<le> 13"
    using len small by (auto simp: rs)
qed

section \<open>Messages that can always be encoded\<close>

text \<open>
  Optional fields and pointer arrays of types whose encoder has no error branch for the
  declared size, and submessages of such fields.
\<close>

fun always_field :: "pb_field_t \<Rightarrow> bool" where
  "always_field (pb_field_s tag type doff soff ds as ptr) \<longleftrightarrow>
     (PB_HTYPE type = PB_HTYPE_OPTIONAL \<and> (PB_ATYPE type = PB_ATYPE_STATIC \<or> PB_ATYPE type = PB_ATYPE_POINTER) \<or>
      PB_HTYPE type = PB_HTYPE_REPEATED \<and> PB_ATYPE type = PB_ATYPE_POINTER) \<and>
     (PB_LTYPE type = PB_LTYPE_BOOL \<or>
      PB_LTYPE type \<in> {PB_LTYPE_VARINT, PB_LTYPE_UVARINT, PB_LTYPE_SVARINT} \<and> ds \<in> {1, 2, 4, 8} \<or>
      PB_LTYPE type \<in> {PB_LTYPE_FIXED32, PB_LTYPE_FIXED64, PB_LTYPE_STRING, PB_LTYPE_FIXED_LENGTH_BYTES} \<or>
      PB_LTYPE type = PB_LTYPE_BYTES \<and> PB_ATYPE type = PB_ATYPE_POINTER \<or>
      PB_LTYPE type = PB_LTYPE_SUBMESSAGE \<and>
        (case ptr of PtrFields fs \<Rightarrow> (\<forall>f \<in> set fs. f_tag f = 0 \<or> always_field f) | _ \<Rightarrow> False))"

definition always_encodable :: "pb_field_t list \<Rightarrow> bool" where
  "always_encodable fds \<longleftrightarrow> (\<forall>f \<in> set fds. f_tag f = 0 \<or> always_field f)"

lemma always_submsg:
  assumes "always_field f" "PB_LTYPE (f_type f) = PB_LTYPE_SUBMESSAGE"
  shows "\<exists>fs. f_ptr f = PtrFields fs \<and> always_encodable fs"
  using assms by (cases f) (auto simp: always_encodable_def pb_const split: pb_ptr.splits)

lemma always_value:
  assumes "always_field f"
    and "\<And>fs. f_ptr f = PtrFields fs \<Longrightarrow> always_encodable fs \<Longrightarrow> sub fs p \<noteq> None"
  shows "abs_value sub m f p \<noteq> None"
proof (cases "PB_LTYPE (f_type f) = PB_LTYPE_SUBMESSAGE")
  case True
  with always_submsg [OF assms(1) True] assms(2) show ?thesis
    by (auto simp: abs_value_table)
next
  case False
  have "PB_ATYPE (f_type f) \<noteq> PB_ATYPE_STATIC" if "PB_LTYPE (f_type f) = PB_LTYPE_BYTES"
    using assms(1) that by (cases f) (auto simp: pb_const)
  with False assms(1) show ?thesis
    by (cases f) (auto simp: abs_value_def abs_bytes_def load_int_def load_uint_def Let_def pb_const)
qed

lemma those_not_None: "(\<And>x. x \<in> set xs \<Longrightarrow> x \<noteq> None) \<Longrightarrow> those xs \<noteq> None"
  by (induction xs) (auto split: option.split)

lemma always_abs_field:
  assumes "always_field f"
    and "\<And>fs p. f_ptr f = PtrFields fs \<Longrightarrow> always_encodable fs \<Longrightarrow> sub fs p \<noteq> None"
  shows "abs_field sub m f pData \<noteq> None"
proof -
  have val: "abs_value sub m f p \<noteq> None" for p
    using assms by (intro always_value) auto
  then have those: "those (map (\<lambda>q. abs_value sub m f (g q)) es) \<noteq> None" for g es
    by (intro those_not_None) auto
  have ty: "PB_HTYPE (f_type f) = PB_HTYPE_OPTIONAL \<and>
      (PB_ATYPE (f_type f) = PB_ATYPE_STATIC \<or> PB_ATYPE (f_type f) = PB_ATYPE_POINTER) \<or>
    PB_HTYPE (f_type f) = PB_HTYPE_REPEATED \<and> PB_ATYPE (f_type f) = PB_ATYPE_POINTER"
    using assms(1) by (cases f) auto
  show ?thesis
  proof (cases "PB_HTYPE (f_type f) = PB_HTYPE_OPTIONAL")
    case True
    with ty val show ?thesis by (auto simp: abs_field_def htype_neq Let_def)
  next
    case False
    with ty those [of "\<lambda>q. q"] those show ?thesis
      by (auto simp: abs_field_def abs_array_def htype_neq Let_def)
  qed
qed

lemma always_abs_msg: "always_encodable fds \<Longrightarrow> abs_msg m fds a \<noteq> None"
proof (induction fds arbitrary: a rule: measure_induct_rule [of "size_list size"])
  case (less fds)
  have "abs_field (abs_msg m) m (field_at fds (it_pos it)) (it_pData it) \<noteq> None"
    if it: "it \<in> set (iters fds a)" for it
  proof (rule always_abs_field)
    have "f_tag (field_at fds (it_pos it)) \<noteq> 0"
      using it by (auto simp: iters_def iter_at_pos tag_before_terminator)
    then show "always_field (field_at fds (it_pos it))"
      using less.prems iters_field [OF it] by (auto simp: always_encodable_def)
    show "abs_msg m fs p \<noteq> None"
      if "f_ptr (field_at fds (it_pos it)) = PtrFields fs" "always_encodable fs" for fs p
      using that by (intro less.IH size_submsg_fields)
  qed
  then have "those (map (\<lambda>it. abs_field (abs_msg m) m (field_at fds (it_pos it)) (it_pData it)) (iters fds a)) \<noteq> None"
    by (intro those_not_None) auto
  then show ?case by (simp add: abs_msg.simps [of m fds a])
qed

end
