(* ===== verification/Cct_Messages.thy ===== *)
theory Cct_Messages
  imports Pb_Descriptor
begin

text \<open>
  \<^verbatim>\<open>GDTCCTLibrary/Protogen/nanopb/cct.nanopb.{h,c}\<close>: the messages that GoogleDataTransport
  exchanges with the Firelog backend. The batch of log requests is what the uploader encodes
  and sends; the log response is what it decodes. Enumerations, structs, tags, initialisers
  and field tables are those of the generated code, in an order in which every name is
  declared before it is used.
\<close>

section \<open>Enumerations\<close>

datatype gdt_cct_NetworkConnectionInfo_NetworkType =
    gdt_cct_NetworkConnectionInfo_NetworkType_NONE
  | gdt_cct_NetworkConnectionInfo_NetworkType_MOBILE
  | gdt_cct_NetworkConnectionInfo_NetworkType_WIFI
  | gdt_cct_NetworkConnectionInfo_NetworkType_MOBILE_MMS
  | gdt_cct_NetworkConnectionInfo_NetworkType_MOBILE_SUPL
  | gdt_cct_NetworkConnectionInfo_NetworkType_MOBILE_DUN
  | gdt_cct_NetworkConnectionInfo_NetworkType_MOBILE_HIPRI
  | gdt_cct_NetworkConnectionInfo_NetworkType_WIMAX
  | gdt_cct_NetworkConnectionInfo_NetworkType_BLUETOOTH
  | gdt_cct_NetworkConnectionInfo_NetworkType_DUMMY
  | gdt_cct_NetworkConnectionInfo_NetworkType_ETHERNET
  | gdt_cct_NetworkConnectionInfo_NetworkType_MOBILE_FOTA
  | gdt_cct_NetworkConnectionInfo_NetworkType_MOBILE_IMS
  | gdt_cct_NetworkConnectionInfo_NetworkType_MOBILE_CBS
  | gdt_cct_NetworkConnectionInfo_NetworkType_WIFI_P2P
  | gdt_cct_NetworkConnectionInfo_NetworkType_MOBILE_IA
  | gdt_cct_NetworkConnectionInfo_NetworkType_MOBILE_EMERGENCY
  | gdt_cct_NetworkConnectionInfo_NetworkType_PROXY
  | gdt_cct_NetworkConnectionInfo_NetworkType_VPN

fun gdt_cct_NetworkConnectionInfo_NetworkType_num :: "gdt_cct_NetworkConnectionInfo_NetworkType \<Rightarrow> int" where
  "gdt_cct_NetworkConnectionInfo_NetworkType_num gdt_cct_NetworkConnectionInfo_NetworkType_NONE = -1"
| "gdt_cct_NetworkConnectionInfo_NetworkType_num gdt_cct_NetworkConnectionInfo_NetworkType_MOBILE = 0"
| "gdt_cct_NetworkConnectionInfo_NetworkType_num gdt_cct_NetworkConnectionInfo_NetworkType_WIFI = 1"
| "gdt_cct_NetworkConnectionInfo_NetworkType_num gdt_cct_NetworkConnectionInfo_NetworkType_MOBILE_MMS = 2"
| "gdt_cct_NetworkConnectionInfo_NetworkType_num gdt_cct_NetworkConnectionInfo_NetworkType_MOBILE_SUPL = 3"
| "gdt_cct_NetworkConnectionInfo_NetworkType_num gdt_cct_NetworkConnectionInfo_NetworkType_MOBILE_DUN = 4"
| "gdt_cct_NetworkConnectionInfo_NetworkType_num gdt_cct_NetworkConnectionInfo_NetworkType_MOBILE_HIPRI = 5"
| "gdt_cct_NetworkConnectionInfo_NetworkType_num gdt_cct_NetworkConnectionInfo_NetworkType_WIMAX = 6"
| "gdt_cct_NetworkConnectionInfo_NetworkType_num gdt_cct_NetworkConnectionInfo_NetworkType_BLUETOOTH = 7"
| "gdt_cct_NetworkConnectionInfo_NetworkType_num gdt_cct_NetworkConnectionInfo_NetworkType_DUMMY = 8"
| "gdt_cct_NetworkConnectionInfo_NetworkType_num gdt_cct_NetworkConnectionInfo_NetworkType_ETHERNET = 9"
| "gdt_cct_NetworkConnectionInfo_NetworkType_num gdt_cct_NetworkConnectionInfo_NetworkType_MOBILE_FOTA = 10"
| "gdt_cct_NetworkConnectionInfo_NetworkType_num gdt_cct_NetworkConnectionInfo_NetworkType_MOBILE_IMS = 11"
| "gdt_cct_NetworkConnectionInfo_NetworkType_num gdt_cct_NetworkConnectionInfo_NetworkType_MOBILE_CBS = 12"
| "gdt_cct_NetworkConnectionInfo_NetworkType_num gdt_cct_NetworkConnectionInfo_NetworkType_WIFI_P2P = 13"
| "gdt_cct_NetworkConnectionInfo_NetworkType_num gdt_cct_NetworkConnectionInfo_NetworkType_MOBILE_IA = 14"
| "gdt_cct_NetworkConnectionInfo_NetworkType_num gdt_cct_NetworkConnectionInfo_NetworkType_MOBILE_EMERGENCY = 15"
| "gdt_cct_NetworkConnectionInfo_NetworkType_num gdt_cct_NetworkConnectionInfo_NetworkType_PROXY = 16"
| "gdt_cct_NetworkConnectionInfo_NetworkType_num gdt_cct_NetworkConnectionInfo_NetworkType_VPN = 17"

definition gdt_cct_NetworkConnectionInfo_NetworkType_MIN :: gdt_cct_NetworkConnectionInfo_NetworkType where
  "gdt_cct_NetworkConnectionInfo_NetworkType_MIN = gdt_cct_NetworkConnectionInfo_NetworkType_NONE"

definition gdt_cct_NetworkConnectionInfo_NetworkType_MAX :: gdt_cct_NetworkConnectionInfo_NetworkType where
  "gdt_cct_NetworkConnectionInfo_NetworkType_MAX = gdt_cct_NetworkConnectionInfo_NetworkType_VPN"

definition gdt_cct_NetworkConnectionInfo_NetworkType_ARRAYSIZE :: int where
  "gdt_cct_NetworkConnectionInfo_NetworkType_ARRAYSIZE = gdt_cct_NetworkConnectionInfo_NetworkType_num gdt_cct_NetworkConnectionInfo_NetworkType_VPN + 1"

datatype gdt_cct_NetworkConnectionInfo_MobileSubtype =
    gdt_cct_NetworkConnectionInfo_MobileSubtype_UNKNOWN_MOBILE_SUBTYPE
  | gdt_cct_NetworkConnectionInfo_MobileSubtype_GPRS
  | gdt_cct_NetworkConnectionInfo_MobileSubtype_EDGE
  | gdt_cct_NetworkConnectionInfo_MobileSubtype_UMTS
  | gdt_cct_NetworkConnectionInfo_MobileSubtype_CDMA
  | gdt_cct_NetworkConnectionInfo_MobileSubtype_EVDO_0
  | gdt_cct_NetworkConnectionInfo_MobileSubtype_EVDO_A
  | gdt_cct_NetworkConnectionInfo_MobileSubtype_RTT
  | gdt_cct_NetworkConnectionInfo_MobileSubtype_HSDPA
  | gdt_cct_NetworkConnectionInfo_MobileSubtype_HSUPA
  | gdt_cct_NetworkConnectionInfo_MobileSubtype_HSPA
  | gdt_cct_NetworkConnectionInfo_MobileSubtype_IDEN
  | gdt_cct_NetworkConnectionInfo_MobileSubtype_EVDO_B
  | gdt_cct_NetworkConnectionInfo_MobileSubtype_LTE
  | gdt_cct_NetworkConnectionInfo_MobileSubtype_EHRPD
  | gdt_cct_NetworkConnectionInfo_MobileSubtype_HSPAP
  | gdt_cct_NetworkConnectionInfo_MobileSubtype_GSM
  | gdt_cct_NetworkConnectionInfo_MobileSubtype_TD_SCDMA
  | gdt_cct_NetworkConnectionInfo_MobileSubtype_IWLAN
  | gdt_cct_NetworkConnectionInfo_MobileSubtype_LTE_CA
  | gdt_cct_NetworkConnectionInfo_MobileSubtype_COMBINED

fun gdt_cct_NetworkConnectionInfo_MobileSubtype_num :: "gdt_cct_NetworkConnectionInfo_MobileSubtype \<Rightarrow> int" where
  "gdt_cct_NetworkConnectionInfo_MobileSubtype_num gdt_cct_NetworkConnectionInfo_MobileSubtype_UNKNOWN_MOBILE_SUBTYPE = 0"
| "gdt_cct_NetworkConnectionInfo_MobileSubtype_num gdt_cct_NetworkConnectionInfo_MobileSubtype_GPRS = 1"
| "gdt_cct_NetworkConnectionInfo_MobileSubtype_num gdt_cct_NetworkConnectionInfo_MobileSubtype_EDGE = 2"
| "gdt_cct_NetworkConnectionInfo_MobileSubtype_num gdt_cct_NetworkConnectionInfo_MobileSubtype_UMTS = 3"
| "gdt_cct_NetworkConnectionInfo_MobileSubtype_num gdt_cct_NetworkConnectionInfo_MobileSubtype_CDMA = 4"
| "gdt_cct_NetworkConnectionInfo_MobileSubtype_num gdt_cct_NetworkConnectionInfo_MobileSubtype_EVDO_0 = 5"
| "gdt_cct_NetworkConnectionInfo_MobileSubtype_num gdt_cct_NetworkConnectionInfo_MobileSubtype_EVDO_A = 6"
| "gdt_cct_NetworkConnectionInfo_MobileSubtype_num gdt_cct_NetworkConnectionInfo_MobileSubtype_RTT = 7"
| "gdt_cct_NetworkConnectionInfo_MobileSubtype_num gdt_cct_NetworkConnectionInfo_MobileSubtype_HSDPA = 8"
| "gdt_cct_NetworkConnectionInfo_MobileSubtype_num gdt_cct_NetworkConnectionInfo_MobileSubtype_HSUPA = 9"
| "gdt_cct_NetworkConnectionInfo_MobileSubtype_num gdt_cct_NetworkConnectionInfo_MobileSubtype_HSPA = 10"
| "gdt_cct_NetworkConnectionInfo_MobileSubtype_num gdt_cct_NetworkConnectionInfo_MobileSubtype_IDEN = 11"
| "gdt_cct_NetworkConnectionInfo_MobileSubtype_num gdt_cct_NetworkConnectionInfo_MobileSubtype_EVDO_B = 12"
| "gdt_cct_NetworkConnectionInfo_MobileSubtype_num gdt_cct_NetworkConnectionInfo_MobileSubtype_LTE = 13"
| "gdt_cct_NetworkConnectionInfo_MobileSubtype_num gdt_cct_NetworkConnectionInfo_MobileSubtype_EHRPD = 14"
| "gdt_cct_NetworkConnectionInfo_MobileSubtype_num gdt_cct_NetworkConnectionInfo_MobileSubtype_HSPAP = 15"
| "gdt_cct_NetworkConnectionInfo_MobileSubtype_num gdt_cct_NetworkConnectionInfo_MobileSubtype_GSM = 16"
| "gdt_cct_NetworkConnectionInfo_MobileSubtype_num gdt_cct_NetworkConnectionInfo_MobileSubtype_TD_SCDMA = 17"
| "gdt_cct_NetworkConnectionInfo_MobileSubtype_num gdt_cct_NetworkConnectionInfo_MobileSubtype_IWLAN = 18"
| "gdt_cct_NetworkConnectionInfo_MobileSubtype_num gdt_cct_NetworkConnectionInfo_MobileSubtype_LTE_CA = 19"
| "gdt_cct_NetworkConnectionInfo_MobileSubtype_num gdt_cct_NetworkConnectionInfo_MobileSubtype_COMBINED = 100"

definition gdt_cct_NetworkConnectionInfo_MobileSubtype_MIN :: gdt_cct_NetworkConnectionInfo_MobileSubtype where
  "gdt_cct_NetworkConnectionInfo_MobileSubtype_MIN = gdt_cct_NetworkConnectionInfo_MobileSubtype_UNKNOWN_MOBILE_SUBTYPE"

definition gdt_cct_NetworkConnectionInfo_MobileSubtype_MAX :: gdt_cct_NetworkConnectionInfo_MobileSubtype where
  "gdt_cct_NetworkConnectionInfo_MobileSubtype_MAX = gdt_cct_NetworkConnectionInfo_MobileSubtype_COMBINED"

definition gdt_cct_NetworkConnectionInfo_MobileSubtype_ARRAYSIZE :: int where
  "gdt_cct_NetworkConnectionInfo_MobileSubtype_ARRAYSIZE = gdt_cct_NetworkConnectionInfo_MobileSubtype_num gdt_cct_NetworkConnectionInfo_MobileSubtype_COMBINED + 1"

datatype gdt_cct_ClientInfo_ClientType =
    gdt_cct_ClientInfo_ClientType_CLIENT_UNKNOWN
  | gdt_cct_ClientInfo_ClientType_IOS_FIREBASE

fun gdt_cct_ClientInfo_ClientType_num :: "gdt_cct_ClientInfo_ClientType \<Rightarrow> int" where
  "gdt_cct_ClientInfo_ClientType_num gdt_cct_ClientInfo_ClientType_CLIENT_UNKNOWN = 0"
| "gdt_cct_ClientInfo_ClientType_num gdt_cct_ClientInfo_ClientType_IOS_FIREBASE = 15"

definition gdt_cct_ClientInfo_ClientType_MIN :: gdt_cct_ClientInfo_ClientType where
  "gdt_cct_ClientInfo_ClientType_MIN = gdt_cct_ClientInfo_ClientType_CLIENT_UNKNOWN"

definition gdt_cct_ClientInfo_ClientType_MAX :: gdt_cct_ClientInfo_ClientType where
  "gdt_cct_ClientInfo_ClientType_MAX = gdt_cct_ClientInfo_ClientType_IOS_FIREBASE"

definition gdt_cct_ClientInfo_ClientType_ARRAYSIZE :: int where
  "gdt_cct_ClientInfo_ClientType_ARRAYSIZE = gdt_cct_ClientInfo_ClientType_num gdt_cct_ClientInfo_ClientType_IOS_FIREBASE + 1"

datatype gdt_cct_QosTierConfiguration_QosTier =
    gdt_cct_QosTierConfiguration_QosTier_DEFAULT
  | gdt_cct_QosTierConfiguration_QosTier_UNMETERED_ONLY
  | gdt_cct_QosTierConfiguration_QosTier_UNMETERED_OR_DAILY
  | gdt_cct_QosTierConfiguration_QosTier_FAST_IF_RADIO_AWAKE
  | gdt_cct_QosTierConfiguration_QosTier_NEVER

fun gdt_cct_QosTierConfiguration_QosTier_num :: "gdt_cct_QosTierConfiguration_QosTier \<Rightarrow> int" where
  "gdt_cct_QosTierConfiguration_QosTier_num gdt_cct_QosTierConfiguration_QosTier_DEFAULT = 0"
| "gdt_cct_QosTierConfiguration_QosTier_num gdt_cct_QosTierConfiguration_QosTier_UNMETERED_ONLY = 1"
| "gdt_cct_QosTierConfiguration_QosTier_num gdt_cct_QosTierConfiguration_QosTier_UNMETERED_OR_DAILY = 2"
| "gdt_cct_QosTierConfiguration_QosTier_num gdt_cct_QosTierConfiguration_QosTier_FAST_IF_RADIO_AWAKE = 3"
| "gdt_cct_QosTierConfiguration_QosTier_num gdt_cct_QosTierConfiguration_QosTier_NEVER = 4"

definition gdt_cct_QosTierConfiguration_QosTier_MIN :: gdt_cct_QosTierConfiguration_QosTier where
  "gdt_cct_QosTierConfiguration_QosTier_MIN = gdt_cct_QosTierConfiguration_QosTier_DEFAULT"

definition gdt_cct_QosTierConfiguration_QosTier_MAX :: gdt_cct_QosTierConfiguration_QosTier where
  "gdt_cct_QosTierConfiguration_QosTier_MAX = gdt_cct_QosTierConfiguration_QosTier_NEVER"

definition gdt_cct_QosTierConfiguration_QosTier_ARRAYSIZE :: int where
  "gdt_cct_QosTierConfiguration_QosTier_ARRAYSIZE = gdt_cct_QosTierConfiguration_QosTier_num gdt_cct_QosTierConfiguration_QosTier_NEVER + 1"

section \<open>Message structs\<close>

definition gdt_cct_IosClientInfo :: ctype where
  "gdt_cct_IosClientInfo = CStruct
     [(''os_major_version'', CPtr pb_bytes_array_t),
      (''os_full_version'', CPtr pb_bytes_array_t),
      (''application_build'', CPtr pb_bytes_array_t),
      (''country'', CPtr pb_bytes_array_t),
      (''model'', CPtr pb_bytes_array_t),
      (''language_code'', CPtr pb_bytes_array_t),
      (''application_bundle_id'', CPtr pb_bytes_array_t)]"

definition gdt_cct_ClientInfo :: ctype where
  "gdt_cct_ClientInfo = CStruct
     [(''has_client_type'', CBool),
      (''client_type'', CInt 4),
      (''has_ios_client_info'', CBool),
      (''ios_client_info'', gdt_cct_IosClientInfo)]"

definition gdt_cct_NetworkConnectionInfo :: ctype where
  "gdt_cct_NetworkConnectionInfo = CStruct
     [(''has_network_type'', CBool),
      (''network_type'', CInt 4),
      (''has_mobile_subtype'', CBool),
      (''mobile_subtype'', CInt 4)]"

definition gdt_cct_LogEvent :: ctype where
  "gdt_cct_LogEvent = CStruct
     [(''has_event_time_ms'', CBool),
      (''event_time_ms'', CInt 8),
      (''source_extension'', CPtr pb_bytes_array_t),
      (''has_event_code'', CBool),
      (''event_code'', CInt 4),
      (''has_timezone_offset_seconds'', CBool),
      (''timezone_offset_seconds'', CInt 8),
      (''has_event_uptime_ms'', CBool),
      (''event_uptime_ms'', CInt 8),
      (''has_network_connection_info'', CBool),
      (''network_connection_info'', gdt_cct_NetworkConnectionInfo)]"

definition gdt_cct_LogRequest :: ctype where
  "gdt_cct_LogRequest = CStruct
     [(''has_client_info'', CBool),
      (''client_info'', gdt_cct_ClientInfo),
      (''has_log_source'', CBool),
      (''log_source'', CInt 4),
      (''log_event_count'', CInt 4),
      (''log_event'', CPtr gdt_cct_LogEvent),
      (''has_request_time_ms'', CBool),
      (''request_time_ms'', CInt 8),
      (''has_request_uptime_ms'', CBool),
      (''request_uptime_ms'', CInt 8),
      (''has_qos_tier'', CBool),
      (''qos_tier'', CInt 4)]"

definition gdt_cct_BatchedLogRequest :: ctype where
  "gdt_cct_BatchedLogRequest = CStruct
     [(''log_request_count'', CInt 4),
      (''log_request'', CPtr gdt_cct_LogRequest)]"

definition gdt_cct_QosTierConfiguration :: ctype where
  "gdt_cct_QosTierConfiguration = CStruct
     [(''has_qos_tier'', CBool),
      (''qos_tier'', CInt 4),
      (''has_log_source'', CBool),
      (''log_source'', CInt 4)]"

definition gdt_cct_QosTiersOverride :: ctype where
  "gdt_cct_QosTiersOverride = CStruct
     [(''qos_tier_configuration_count'', CInt 4),
      (''qos_tier_configuration'', CPtr gdt_cct_QosTierConfiguration),
      (''has_qos_tier_fingerprint'', CBool),
      (''qos_tier_fingerprint'', CInt 8)]"

definition gdt_cct_LogResponse :: ctype where
  "gdt_cct_LogResponse = CStruct
     [(''has_next_request_wait_millis'', CBool),
      (''next_request_wait_millis'', CInt 8),
      (''has_qos_tier'', CBool),
      (''qos_tier'', gdt_cct_QosTiersOverride)]"

section \<open>Field tags\<close>

definition gdt_cct_BatchedLogRequest_log_request_tag :: u32 where
  "gdt_cct_BatchedLogRequest_log_request_tag = 1"

definition gdt_cct_IosClientInfo_os_major_version_tag :: u32 where
  "gdt_cct_IosClientInfo_os_major_version_tag = 3"

definition gdt_cct_IosClientInfo_os_full_version_tag :: u32 where
  "gdt_cct_IosClientInfo_os_full_version_tag = 4"

definition gdt_cct_IosClientInfo_application_build_tag :: u32 where
  "gdt_cct_IosClientInfo_application_build_tag = 5"

definition gdt_cct_IosClientInfo_country_tag :: u32 where
  "gdt_cct_IosClientInfo_country_tag = 6"

definition gdt_cct_IosClientInfo_model_tag :: u32 where
  "gdt_cct_IosClientInfo_model_tag = 7"

definition gdt_cct_IosClientInfo_language_code_tag :: u32 where
  "gdt_cct_IosClientInfo_language_code_tag = 8"

definition gdt_cct_IosClientInfo_application_bundle_id_tag :: u32 where
  "gdt_cct_IosClientInfo_application_bundle_id_tag = 11"

definition gdt_cct_ClientInfo_client_type_tag :: u32 where
  "gdt_cct_ClientInfo_client_type_tag = 1"

definition gdt_cct_ClientInfo_ios_client_info_tag :: u32 where
  "gdt_cct_ClientInfo_ios_client_info_tag = 4"

definition gdt_cct_NetworkConnectionInfo_network_type_tag :: u32 where
  "gdt_cct_NetworkConnectionInfo_network_type_tag = 1"

definition gdt_cct_NetworkConnectionInfo_mobile_subtype_tag :: u32 where
  "gdt_cct_NetworkConnectionInfo_mobile_subtype_tag = 2"

definition gdt_cct_QosTierConfiguration_qos_tier_tag :: u32 where
  "gdt_cct_QosTierConfiguration_qos_tier_tag = 2"

definition gdt_cct_QosTierConfiguration_log_source_tag :: u32 where
  "gdt_cct_QosTierConfiguration_log_source_tag = 3"

definition gdt_cct_QosTiersOverride_qos_tier_configuration_tag :: u32 where
  "gdt_cct_QosTiersOverride_qos_tier_configuration_tag = 1"

definition gdt_cct_QosTiersOverride_qos_tier_fingerprint_tag :: u32 where
  "gdt_cct_QosTiersOverride_qos_tier_fingerprint_tag = 2"

definition gdt_cct_LogEvent_event_time_ms_tag :: u32 where
  "gdt_cct_LogEvent_event_time_ms_tag = 1"

definition gdt_cct_LogEvent_event_code_tag :: u32 where
  "gdt_cct_LogEvent_event_code_tag = 11"

definition gdt_cct_LogEvent_event_uptime_ms_tag :: u32 where
  "gdt_cct_LogEvent_event_uptime_ms_tag = 17"

definition gdt_cct_LogEvent_source_extension_tag :: u32 where
  "gdt_cct_LogEvent_source_extension_tag = 6"

definition gdt_cct_LogEvent_timezone_offset_seconds_tag :: u32 where
  "gdt_cct_LogEvent_timezone_offset_seconds_tag = 15"

definition gdt_cct_LogEvent_network_connection_info_tag :: u32 where
  "gdt_cct_LogEvent_network_connection_info_tag = 23"

definition gdt_cct_LogRequest_request_time_ms_tag :: u32 where
  "gdt_cct_LogRequest_request_time_ms_tag = 4"

definition gdt_cct_LogRequest_request_uptime_ms_tag :: u32 where
  "gdt_cct_LogRequest_request_uptime_ms_tag = 8"

definition gdt_cct_LogRequest_client_info_tag :: u32 where
  "gdt_cct_LogRequest_client_info_tag = 1"

definition gdt_cct_LogRequest_log_source_tag :: u32 where
  "gdt_cct_LogRequest_log_source_tag = 2"

definition gdt_cct_LogRequest_log_event_tag :: u32 where
  "gdt_cct_LogRequest_log_event_tag = 3"

definition gdt_cct_LogRequest_qos_tier_tag :: u32 where
  "gdt_cct_LogRequest_qos_tier_tag = 9"

definition gdt_cct_LogResponse_next_request_wait_millis_tag :: u32 where
  "gdt_cct_LogResponse_next_request_wait_millis_tag = 1"

definition gdt_cct_LogResponse_qos_tier_tag :: u32 where
  "gdt_cct_LogResponse_qos_tier_tag = 3"


definition gdt_cct_NetworkConnectionInfo_size :: nat where "gdt_cct_NetworkConnectionInfo_size = 13"
definition gdt_cct_QosTierConfiguration_size :: nat where "gdt_cct_QosTierConfiguration_size = 13"

section \<open>Initialisers\<close>

definition gdt_cct_NetworkConnectionInfo_init_default :: cinit where
  "gdt_cct_NetworkConnectionInfo_init_default = I_struct
     [I_int 0, I_int (gdt_cct_NetworkConnectionInfo_NetworkType_num
      gdt_cct_NetworkConnectionInfo_NetworkType_NONE), I_int 0, I_int
      (gdt_cct_NetworkConnectionInfo_MobileSubtype_num
      gdt_cct_NetworkConnectionInfo_MobileSubtype_UNKNOWN_MOBILE_SUBTYPE)]"

definition gdt_cct_LogEvent_init_default :: cinit where
  "gdt_cct_LogEvent_init_default = I_struct
     [I_int 0, I_int 0, I_null, I_int 0, I_int 0, I_int 0, I_int 0, I_int 0, I_int 0, I_int 0,
      gdt_cct_NetworkConnectionInfo_init_default]"

definition gdt_cct_IosClientInfo_init_default :: cinit where
  "gdt_cct_IosClientInfo_init_default = I_struct
     [I_null, I_null, I_null, I_null, I_null, I_null, I_null]"

definition gdt_cct_ClientInfo_init_default :: cinit where
  "gdt_cct_ClientInfo_init_default = I_struct
     [I_int 0, I_int (gdt_cct_ClientInfo_ClientType_num gdt_cct_ClientInfo_ClientType_MIN),
      I_int 0, gdt_cct_IosClientInfo_init_default]"

definition gdt_cct_BatchedLogRequest_init_default :: cinit where
  "gdt_cct_BatchedLogRequest_init_default = I_struct
     [I_int 0, I_null]"

definition gdt_cct_LogRequest_init_default :: cinit where
  "gdt_cct_LogRequest_init_default = I_struct
     [I_int 0, gdt_cct_ClientInfo_init_default, I_int 0, I_int 0, I_int 0, I_null, I_int 0,
      I_int 0, I_int 0, I_int 0, I_int 0, I_int (gdt_cct_QosTierConfiguration_QosTier_num
      gdt_cct_QosTierConfiguration_QosTier_DEFAULT)]"

definition gdt_cct_QosTierConfiguration_init_default :: cinit where
  "gdt_cct_QosTierConfiguration_init_default = I_struct
     [I_int 0, I_int (gdt_cct_QosTierConfiguration_QosTier_num
      gdt_cct_QosTierConfiguration_QosTier_MIN), I_int 0, I_int 0]"

definition gdt_cct_QosTiersOverride_init_default :: cinit where
  "gdt_cct_QosTiersOverride_init_default = I_struct
     [I_int 0, I_null, I_int 0, I_int 0]"

definition gdt_cct_LogResponse_init_default :: cinit where
  "gdt_cct_LogResponse_init_default = I_struct
     [I_int 0, I_int 0, I_int 0, gdt_cct_QosTiersOverride_init_default]"

definition gdt_cct_NetworkConnectionInfo_init_zero :: cinit where
  "gdt_cct_NetworkConnectionInfo_init_zero = I_struct
     [I_int 0, I_int (gdt_cct_NetworkConnectionInfo_NetworkType_num
      gdt_cct_NetworkConnectionInfo_NetworkType_MIN), I_int 0, I_int
      (gdt_cct_NetworkConnectionInfo_MobileSubtype_num
      gdt_cct_NetworkConnectionInfo_MobileSubtype_MIN)]"

definition gdt_cct_LogEvent_init_zero :: cinit where
  "gdt_cct_LogEvent_init_zero = I_struct
     [I_int 0, I_int 0, I_null, I_int 0, I_int 0, I_int 0, I_int 0, I_int 0, I_int 0, I_int 0,
      gdt_cct_NetworkConnectionInfo_init_zero]"

definition gdt_cct_IosClientInfo_init_zero :: cinit where
  "gdt_cct_IosClientInfo_init_zero = I_struct
     [I_null, I_null, I_null, I_null, I_null, I_null, I_null]"

definition gdt_cct_ClientInfo_init_zero :: cinit where
  "gdt_cct_ClientInfo_init_zero = I_struct
     [I_int 0, I_int (gdt_cct_ClientInfo_ClientType_num gdt_cct_ClientInfo_ClientType_MIN),
      I_int 0, gdt_cct_IosClientInfo_init_zero]"

definition gdt_cct_BatchedLogRequest_init_zero :: cinit where
  "gdt_cct_BatchedLogRequest_init_zero = I_struct
     [I_int 0, I_null]"

definition gdt_cct_LogRequest_init_zero :: cinit where
  "gdt_cct_LogRequest_init_zero = I_struct
     [I_int 0, gdt_cct_ClientInfo_init_zero, I_int 0, I_int 0, I_int 0, I_null, I_int 0, I_int
      0, I_int 0, I_int 0, I_int 0, I_int (gdt_cct_QosTierConfiguration_QosTier_num
      gdt_cct_QosTierConfiguration_QosTier_MIN)]"

definition gdt_cct_QosTierConfiguration_init_zero :: cinit where
  "gdt_cct_QosTierConfiguration_init_zero = I_struct
     [I_int 0, I_int (gdt_cct_QosTierConfiguration_QosTier_num
      gdt_cct_QosTierConfiguration_QosTier_MIN), I_int 0, I_int 0]"

definition gdt_cct_QosTiersOverride_init_zero :: cinit where
  "gdt_cct_QosTiersOverride_init_zero = I_struct
     [I_int 0, I_null, I_int 0, I_int 0]"

definition gdt_cct_LogResponse_init_zero :: cinit where
  "gdt_cct_LogResponse_init_zero = I_struct
     [I_int 0, I_int 0, I_int 0, gdt_cct_QosTiersOverride_init_zero]"

section \<open>Default values and field tables\<close>

definition gdt_cct_NetworkConnectionInfo_network_type_default :: "byte list" where
  "gdt_cct_NetworkConnectionInfo_network_type_default = bytes_of_word 4 (of_int (gdt_cct_NetworkConnectionInfo_NetworkType_num gdt_cct_NetworkConnectionInfo_NetworkType_NONE) :: u32)"

definition gdt_cct_NetworkConnectionInfo_mobile_subtype_default :: "byte list" where
  "gdt_cct_NetworkConnectionInfo_mobile_subtype_default = bytes_of_word 4 (of_int (gdt_cct_NetworkConnectionInfo_MobileSubtype_num gdt_cct_NetworkConnectionInfo_MobileSubtype_UNKNOWN_MOBILE_SUBTYPE) :: u32)"

definition gdt_cct_LogRequest_qos_tier_default :: "byte list" where
  "gdt_cct_LogRequest_qos_tier_default = bytes_of_word 4 (of_int (gdt_cct_QosTierConfiguration_QosTier_num gdt_cct_QosTierConfiguration_QosTier_DEFAULT) :: u32)"

definition gdt_cct_QosTierConfiguration_log_source_default :: "byte list" where
  "gdt_cct_QosTierConfiguration_log_source_default = bytes_of_word 4 (0 :: u32)"

definition gdt_cct_NetworkConnectionInfo_fields :: "pb_field_t list" where
  "gdt_cct_NetworkConnectionInfo_fields =
     [PB_FIELD 1 T_ENUM R_OPTIONAL A_STATIC P_FIRST gdt_cct_NetworkConnectionInfo ''network_type'' ''network_type'' (PtrData gdt_cct_NetworkConnectionInfo_network_type_default),
      PB_FIELD 2 T_UENUM R_OPTIONAL A_STATIC P_OTHER gdt_cct_NetworkConnectionInfo ''mobile_subtype'' ''network_type'' (PtrData gdt_cct_NetworkConnectionInfo_mobile_subtype_default),
      PB_LAST_FIELD]"

definition gdt_cct_LogEvent_fields :: "pb_field_t list" where
  "gdt_cct_LogEvent_fields =
     [PB_FIELD 1 T_INT64 R_OPTIONAL A_STATIC P_FIRST gdt_cct_LogEvent ''event_time_ms'' ''event_time_ms'' PtrNull,
      PB_FIELD 6 T_BYTES R_OPTIONAL A_POINTER P_OTHER gdt_cct_LogEvent ''source_extension'' ''event_time_ms'' PtrNull,
      PB_FIELD 11 T_INT32 R_OPTIONAL A_STATIC P_OTHER gdt_cct_LogEvent ''event_code'' ''source_extension'' PtrNull,
      PB_FIELD 15 T_SINT64 R_OPTIONAL A_STATIC P_OTHER gdt_cct_LogEvent ''timezone_offset_seconds'' ''event_code'' PtrNull,
      PB_FIELD 17 T_INT64 R_OPTIONAL A_STATIC P_OTHER gdt_cct_LogEvent ''event_uptime_ms'' ''timezone_offset_seconds'' PtrNull,
      PB_FIELD 23 T_MESSAGE R_OPTIONAL A_STATIC P_OTHER gdt_cct_LogEvent ''network_connection_info'' ''event_uptime_ms'' (PtrFields gdt_cct_NetworkConnectionInfo_fields),
      PB_LAST_FIELD]"

definition gdt_cct_IosClientInfo_fields :: "pb_field_t list" where
  "gdt_cct_IosClientInfo_fields =
     [PB_FIELD 3 T_BYTES R_OPTIONAL A_POINTER P_FIRST gdt_cct_IosClientInfo ''os_major_version'' ''os_major_version'' PtrNull,
      PB_FIELD 4 T_BYTES R_OPTIONAL A_POINTER P_OTHER gdt_cct_IosClientInfo ''os_full_version'' ''os_major_version'' PtrNull,
      PB_FIELD 5 T_BYTES R_OPTIONAL A_POINTER P_OTHER gdt_cct_IosClientInfo ''application_build'' ''os_full_version'' PtrNull,
      PB_FIELD 6 T_BYTES R_OPTIONAL A_POINTER P_OTHER gdt_cct_IosClientInfo ''country'' ''application_build'' PtrNull,
      PB_FIELD 7 T_BYTES R_OPTIONAL A_POINTER P_OTHER gdt_cct_IosClientInfo ''model'' ''country'' PtrNull,
      PB_FIELD 8 T_BYTES R_OPTIONAL A_POINTER P_OTHER gdt_cct_IosClientInfo ''language_code'' ''model'' PtrNull,
      PB_FIELD 11 T_BYTES R_OPTIONAL A_POINTER P_OTHER gdt_cct_IosClientInfo ''application_bundle_id'' ''language_code'' PtrNull,
      PB_LAST_FIELD]"

definition gdt_cct_ClientInfo_fields :: "pb_field_t list" where
  "gdt_cct_ClientInfo_fields =
     [PB_FIELD 1 T_UENUM R_OPTIONAL A_STATIC P_FIRST gdt_cct_ClientInfo ''client_type'' ''client_type'' PtrNull,
      PB_FIELD 4 T_MESSAGE R_OPTIONAL A_STATIC P_OTHER gdt_cct_ClientInfo ''ios_client_info'' ''client_type'' (PtrFields gdt_cct_IosClientInfo_fields),
      PB_LAST_FIELD]"

definition gdt_cct_LogRequest_fields :: "pb_field_t list" where
  "gdt_cct_LogRequest_fields =
     [PB_FIELD 1 T_MESSAGE R_OPTIONAL A_STATIC P_FIRST gdt_cct_LogRequest ''client_info'' ''client_info'' (PtrFields gdt_cct_ClientInfo_fields),
      PB_FIELD 2 T_INT32 R_OPTIONAL A_STATIC P_OTHER gdt_cct_LogRequest ''log_source'' ''client_info'' PtrNull,
      PB_FIELD 3 T_MESSAGE R_REPEATED A_POINTER P_OTHER gdt_cct_LogRequest ''log_event'' ''log_source'' (PtrFields gdt_cct_LogEvent_fields),
      PB_FIELD 4 T_INT64 R_OPTIONAL A_STATIC P_OTHER gdt_cct_LogRequest ''request_time_ms'' ''log_event'' PtrNull,
      PB_FIELD 8 T_INT64 R_OPTIONAL A_STATIC P_OTHER gdt_cct_LogRequest ''request_uptime_ms'' ''request_time_ms'' PtrNull,
      PB_FIELD 9 T_UENUM R_OPTIONAL A_STATIC P_OTHER gdt_cct_LogRequest ''qos_tier'' ''request_uptime_ms'' (PtrData gdt_cct_LogRequest_qos_tier_default),
      PB_LAST_FIELD]"

definition gdt_cct_BatchedLogRequest_fields :: "pb_field_t list" where
  "gdt_cct_BatchedLogRequest_fields =
     [PB_FIELD 1 T_MESSAGE R_REPEATED A_POINTER P_FIRST gdt_cct_BatchedLogRequest ''log_request'' ''log_request'' (PtrFields gdt_cct_LogRequest_fields),
      PB_LAST_FIELD]"

definition gdt_cct_QosTierConfiguration_fields :: "pb_field_t list" where
  "gdt_cct_QosTierConfiguration_fields =
     [PB_FIELD 2 T_UENUM R_OPTIONAL A_STATIC P_FIRST gdt_cct_QosTierConfiguration ''qos_tier'' ''qos_tier'' PtrNull,
      PB_FIELD 3 T_INT32 R_OPTIONAL A_STATIC P_OTHER gdt_cct_QosTierConfiguration ''log_source'' ''qos_tier'' (PtrData gdt_cct_QosTierConfiguration_log_source_default),
      PB_LAST_FIELD]"

definition gdt_cct_QosTiersOverride_fields :: "pb_field_t list" where
  "gdt_cct_QosTiersOverride_fields =
     [PB_FIELD 1 T_MESSAGE R_REPEATED A_POINTER P_FIRST gdt_cct_QosTiersOverride ''qos_tier_configuration'' ''qos_tier_configuration'' (PtrFields gdt_cct_QosTierConfiguration_fields),
      PB_FIELD 2 T_INT64 R_OPTIONAL A_STATIC P_OTHER gdt_cct_QosTiersOverride ''qos_tier_fingerprint'' ''qos_tier_configuration'' PtrNull,
      PB_LAST_FIELD]"

definition gdt_cct_LogResponse_fields :: "pb_field_t list" where
  "gdt_cct_LogResponse_fields =
     [PB_FIELD 1 T_INT64 R_OPTIONAL A_STATIC P_FIRST gdt_cct_LogResponse ''next_request_wait_millis'' ''next_request_wait_millis'' PtrNull,
      PB_FIELD 3 T_MESSAGE R_OPTIONAL A_STATIC P_OTHER gdt_cct_LogResponse ''qos_tier'' ''next_request_wait_millis'' (PtrFields gdt_cct_QosTiersOverride_fields),
      PB_LAST_FIELD]"


text \<open>
  The entries that the macros produce, for evaluation: \<^verbatim>\<open>offsetof\<close> and \<^verbatim>\<open>sizeof\<close> are
  computed once.
\<close>

lemma gdt_cct_NetworkConnectionInfo_fields_code [code]:
  "gdt_cct_NetworkConnectionInfo_fields =
     [pb_field_s 1 0x11 4 4294967292 4 0 (PtrData gdt_cct_NetworkConnectionInfo_network_type_default),
      pb_field_s 2 0x12 4 4294967292 4 0 (PtrData gdt_cct_NetworkConnectionInfo_mobile_subtype_default),
      PB_LAST_FIELD]"
  by code_simp

lemma gdt_cct_LogEvent_fields_code [code]:
  "gdt_cct_LogEvent_fields =
     [pb_field_s 1 0x11 8 4294967288 8 0 PtrNull,
      pb_field_s 6 0x96 0 0 8 0 PtrNull,
      pb_field_s 11 0x11 4 4294967292 4 0 PtrNull,
      pb_field_s 15 0x13 8 4294967288 8 0 PtrNull,
      pb_field_s 17 0x11 8 4294967288 8 0 PtrNull,
      pb_field_s 23 0x18 4 4294967292 16 0 (PtrFields gdt_cct_NetworkConnectionInfo_fields),
      PB_LAST_FIELD]"
  by code_simp

lemma gdt_cct_IosClientInfo_fields_code [code]:
  "gdt_cct_IosClientInfo_fields =
     [pb_field_s 3 0x96 0 0 8 0 PtrNull,
      pb_field_s 4 0x96 0 0 8 0 PtrNull,
      pb_field_s 5 0x96 0 0 8 0 PtrNull,
      pb_field_s 6 0x96 0 0 8 0 PtrNull,
      pb_field_s 7 0x96 0 0 8 0 PtrNull,
      pb_field_s 8 0x96 0 0 8 0 PtrNull,
      pb_field_s 11 0x96 0 0 8 0 PtrNull,
      PB_LAST_FIELD]"
  by code_simp

lemma gdt_cct_ClientInfo_fields_code [code]:
  "gdt_cct_ClientInfo_fields =
     [pb_field_s 1 0x12 4 4294967292 4 0 PtrNull,
      pb_field_s 4 0x18 8 4294967288 56 0 (PtrFields gdt_cct_IosClientInfo_fields),
      PB_LAST_FIELD]"
  by code_simp

lemma gdt_cct_LogRequest_fields_code [code]:
  "gdt_cct_LogRequest_fields =
     [pb_field_s 1 0x18 8 4294967288 72 0 (PtrFields gdt_cct_ClientInfo_fields),
      pb_field_s 2 0x11 4 4294967292 4 0 PtrNull,
      pb_field_s 3 0xA8 8 4294967288 88 0 (PtrFields gdt_cct_LogEvent_fields),
      pb_field_s 4 0x11 8 4294967288 8 0 PtrNull,
      pb_field_s 8 0x11 8 4294967288 8 0 PtrNull,
      pb_field_s 9 0x12 4 4294967292 4 0 (PtrData gdt_cct_LogRequest_qos_tier_default),
      PB_LAST_FIELD]"
  by code_simp

lemma gdt_cct_BatchedLogRequest_fields_code [code]:
  "gdt_cct_BatchedLogRequest_fields =
     [pb_field_s 1 0xA8 8 4294967288 144 0 (PtrFields gdt_cct_LogRequest_fields),
      PB_LAST_FIELD]"
  by code_simp

lemma gdt_cct_QosTierConfiguration_fields_code [code]:
  "gdt_cct_QosTierConfiguration_fields =
     [pb_field_s 2 0x12 4 4294967292 4 0 PtrNull,
      pb_field_s 3 0x11 4 4294967292 4 0 (PtrData gdt_cct_QosTierConfiguration_log_source_default),
      PB_LAST_FIELD]"
  by code_simp

lemma gdt_cct_QosTiersOverride_fields_code [code]:
  "gdt_cct_QosTiersOverride_fields =
     [pb_field_s 1 0xA8 8 4294967288 16 0 (PtrFields gdt_cct_QosTierConfiguration_fields),
      pb_field_s 2 0x11 8 4294967288 8 0 PtrNull,
      PB_LAST_FIELD]"
  by code_simp

lemma gdt_cct_LogResponse_fields_code [code]:
  "gdt_cct_LogResponse_fields =
     [pb_field_s 1 0x11 8 4294967288 8 0 PtrNull,
      pb_field_s 3 0x18 8 4294967288 32 0 (PtrFields gdt_cct_QosTiersOverride_fields),
      PB_LAST_FIELD]"
  by code_simp

section \<open>The tables describe their structs\<close>

text \<open>Each struct with the names and tags of its fields, in the order of its table.\<close>

definition cct_tables :: "(ctype \<times> string list \<times> u32 list \<times> pb_field_t list) list" where
  "cct_tables =
    [(gdt_cct_LogEvent, [''event_time_ms'', ''source_extension'', ''event_code'', ''timezone_offset_seconds'', ''event_uptime_ms'', ''network_connection_info''], [gdt_cct_LogEvent_event_time_ms_tag, gdt_cct_LogEvent_source_extension_tag, gdt_cct_LogEvent_event_code_tag, gdt_cct_LogEvent_timezone_offset_seconds_tag, gdt_cct_LogEvent_event_uptime_ms_tag, gdt_cct_LogEvent_network_connection_info_tag],
      gdt_cct_LogEvent_fields),
     (gdt_cct_NetworkConnectionInfo, [''network_type'', ''mobile_subtype''], [gdt_cct_NetworkConnectionInfo_network_type_tag, gdt_cct_NetworkConnectionInfo_mobile_subtype_tag],
      gdt_cct_NetworkConnectionInfo_fields),
     (gdt_cct_IosClientInfo, [''os_major_version'', ''os_full_version'', ''application_build'', ''country'', ''model'', ''language_code'', ''application_bundle_id''], [gdt_cct_IosClientInfo_os_major_version_tag, gdt_cct_IosClientInfo_os_full_version_tag, gdt_cct_IosClientInfo_application_build_tag, gdt_cct_IosClientInfo_country_tag, gdt_cct_IosClientInfo_model_tag, gdt_cct_IosClientInfo_language_code_tag, gdt_cct_IosClientInfo_application_bundle_id_tag],
      gdt_cct_IosClientInfo_fields),
     (gdt_cct_ClientInfo, [''client_type'', ''ios_client_info''], [gdt_cct_ClientInfo_client_type_tag, gdt_cct_ClientInfo_ios_client_info_tag],
      gdt_cct_ClientInfo_fields),
     (gdt_cct_BatchedLogRequest, [''log_request''], [gdt_cct_BatchedLogRequest_log_request_tag],
      gdt_cct_BatchedLogRequest_fields),
     (gdt_cct_LogRequest, [''client_info'', ''log_source'', ''log_event'', ''request_time_ms'', ''request_uptime_ms'', ''qos_tier''], [gdt_cct_LogRequest_client_info_tag, gdt_cct_LogRequest_log_source_tag, gdt_cct_LogRequest_log_event_tag, gdt_cct_LogRequest_request_time_ms_tag, gdt_cct_LogRequest_request_uptime_ms_tag, gdt_cct_LogRequest_qos_tier_tag],
      gdt_cct_LogRequest_fields),
     (gdt_cct_QosTierConfiguration, [''qos_tier'', ''log_source''], [gdt_cct_QosTierConfiguration_qos_tier_tag, gdt_cct_QosTierConfiguration_log_source_tag],
      gdt_cct_QosTierConfiguration_fields),
     (gdt_cct_QosTiersOverride, [''qos_tier_configuration'', ''qos_tier_fingerprint''], [gdt_cct_QosTiersOverride_qos_tier_configuration_tag, gdt_cct_QosTiersOverride_qos_tier_fingerprint_tag],
      gdt_cct_QosTiersOverride_fields),
     (gdt_cct_LogResponse, [''next_request_wait_millis'', ''qos_tier''], [gdt_cct_LogResponse_next_request_wait_millis_tag, gdt_cct_LogResponse_qos_tier_tag],
      gdt_cct_LogResponse_fields)]"

lemma cct_tables_ok: "list_all table_ok cct_tables"
  by code_simp

lemma cct_plain:
  "plain_fields gdt_cct_BatchedLogRequest_fields" "plain_fields gdt_cct_QosTiersOverride_fields"
  by code_simp+

lemma cct_always_encodable: "always_encodable gdt_cct_BatchedLogRequest_fields"
  by code_simp

section \<open>Maximum encoded sizes\<close>

lemma cct_two_varints:
  "nfields gdt_cct_NetworkConnectionInfo_fields = 2" "nfields gdt_cct_QosTierConfiguration_fields = 2"
  "optional_varint (field_at gdt_cct_NetworkConnectionInfo_fields 0)"
  "optional_varint (field_at gdt_cct_NetworkConnectionInfo_fields 1)"
  "optional_varint (field_at gdt_cct_QosTierConfiguration_fields 0)"
  "optional_varint (field_at gdt_cct_QosTierConfiguration_fields 1)"
  "f_type (field_at gdt_cct_NetworkConnectionInfo_fields 1) = 0x12"
  "f_type (field_at gdt_cct_QosTierConfiguration_fields 0) = 0x12"
  by code_simp+

text \<open>
  (C6) The generated constant \<open>gdt_cct_NetworkConnectionInfo_size\<close> bounds the encoded size
  of the message for every network type, as long as the mobile subtype is one of its enum's
  values (which are all below 128); likewise \<open>gdt_cct_QosTierConfiguration_size\<close>.
\<close>

theorem cct_size_bounds:
  assumes "fds = gdt_cct_NetworkConnectionInfo_fields \<and>
      load_u32 m (a + of_nat (offsetof gdt_cct_NetworkConnectionInfo ''mobile_subtype'')) < 128 \<and>
      bound = gdt_cct_NetworkConnectionInfo_size \<or>
    fds = gdt_cct_QosTierConfiguration_fields \<and>
      load_u32 m (a + of_nat (offsetof gdt_cct_QosTierConfiguration ''qos_tier'')) < 128 \<and>
      bound = gdt_cct_QosTierConfiguration_size"
    and "abs_msg m fds a = Some rs"
  shows "length (wire_records rs) \<le> bound"
proof -
  have tables:
    "table_describes gdt_cct_NetworkConnectionInfo [''network_type'', ''mobile_subtype''] gdt_cct_NetworkConnectionInfo_fields"
    "table_describes gdt_cct_QosTierConfiguration [''qos_tier'', ''log_source''] gdt_cct_QosTierConfiguration_fields"
    using cct_tables_ok by (simp_all add: cct_tables_def table_ok_def)
  have "it_pData (iter_at gdt_cct_NetworkConnectionInfo_fields a 1) =
      a + of_nat (offsetof gdt_cct_NetworkConnectionInfo ''mobile_subtype'')"
    "it_pData (iter_at gdt_cct_QosTierConfiguration_fields a 0) =
      a + of_nat (offsetof gdt_cct_QosTierConfiguration ''qos_tier'')"
    using table_describes_at(1) [OF tables(1), of 1 a] table_describes_at(1) [OF tables(2), of 0 a]
    by simp_all
  with assms show ?thesis
    using two_varints_bound(2) [of fds m a rs 0] two_varints_bound(2) [of fds m a rs 1] cct_two_varints
    by (auto simp: gdt_cct_NetworkConnectionInfo_size_def gdt_cct_QosTierConfiguration_size_def)
qed

end
