(* ===== verification/Firebasecore_Messages.thy ===== *)
theory Firebasecore_Messages
  imports Pb_Descriptor
begin

text \<open>
  \<^verbatim>\<open>FIRCDLibrary/Protogen/nanopb/firebasecore.nanopb.{h,c}\<close>: the one message of
  FirebaseCoreDiagnostics, the configuration record that it hands to GoogleDataTransport
  as the payload of a log event.
\<close>

section \<open>Enumerations\<close>

datatype logs_proto_mobilesdk_ios_ICoreConfiguration_ConfigurationType =
    logs_proto_mobilesdk_ios_ICoreConfiguration_ConfigurationType_UNKNOWN_CONFIGURATION_TYPE
  | logs_proto_mobilesdk_ios_ICoreConfiguration_ConfigurationType_CORE
  | logs_proto_mobilesdk_ios_ICoreConfiguration_ConfigurationType_SDK

fun logs_proto_mobilesdk_ios_ICoreConfiguration_ConfigurationType_num :: "logs_proto_mobilesdk_ios_ICoreConfiguration_ConfigurationType \<Rightarrow> int" where
  "logs_proto_mobilesdk_ios_ICoreConfiguration_ConfigurationType_num logs_proto_mobilesdk_ios_ICoreConfiguration_ConfigurationType_UNKNOWN_CONFIGURATION_TYPE = 0"
| "logs_proto_mobilesdk_ios_ICoreConfiguration_ConfigurationType_num logs_proto_mobilesdk_ios_ICoreConfiguration_ConfigurationType_CORE = 1"
| "logs_proto_mobilesdk_ios_ICoreConfiguration_ConfigurationType_num logs_proto_mobilesdk_ios_ICoreConfiguration_ConfigurationType_SDK = 2"

definition logs_proto_mobilesdk_ios_ICoreConfiguration_ConfigurationType_MIN :: logs_proto_mobilesdk_ios_ICoreConfiguration_ConfigurationType where
  "logs_proto_mobilesdk_ios_ICoreConfiguration_ConfigurationType_MIN = logs_proto_mobilesdk_ios_ICoreConfiguration_ConfigurationType_UNKNOWN_CONFIGURATION_TYPE"

definition logs_proto_mobilesdk_ios_ICoreConfiguration_ConfigurationType_MAX :: logs_proto_mobilesdk_ios_ICoreConfiguration_ConfigurationType where
  "logs_proto_mobilesdk_ios_ICoreConfiguration_ConfigurationType_MAX = logs_proto_mobilesdk_ios_ICoreConfiguration_ConfigurationType_SDK"

definition logs_proto_mobilesdk_ios_ICoreConfiguration_ConfigurationType_ARRAYSIZE :: int where
  "logs_proto_mobilesdk_ios_ICoreConfiguration_ConfigurationType_ARRAYSIZE = logs_proto_mobilesdk_ios_ICoreConfiguration_ConfigurationType_num logs_proto_mobilesdk_ios_ICoreConfiguration_ConfigurationType_SDK + 1"

datatype logs_proto_mobilesdk_ios_ICoreConfiguration_BuildType =
    logs_proto_mobilesdk_ios_ICoreConfiguration_BuildType_UNKNOWN_BUILD_TYPE
  | logs_proto_mobilesdk_ios_ICoreConfiguration_BuildType_INTERNAL
  | logs_proto_mobilesdk_ios_ICoreConfiguration_BuildType_EAP
  | logs_proto_mobilesdk_ios_ICoreConfiguration_BuildType_PROD

fun logs_proto_mobilesdk_ios_ICoreConfiguration_BuildType_num :: "logs_proto_mobilesdk_ios_ICoreConfiguration_BuildType \<Rightarrow> int" where
  "logs_proto_mobilesdk_ios_ICoreConfiguration_BuildType_num logs_proto_mobilesdk_ios_ICoreConfiguration_BuildType_UNKNOWN_BUILD_TYPE = 0"
| "logs_proto_mobilesdk_ios_ICoreConfiguration_BuildType_num logs_proto_mobilesdk_ios_ICoreConfiguration_BuildType_INTERNAL = 1"
| "logs_proto_mobilesdk_ios_ICoreConfiguration_BuildType_num logs_proto_mobilesdk_ios_ICoreConfiguration_BuildType_EAP = 2"
| "logs_proto_mobilesdk_ios_ICoreConfiguration_BuildType_num logs_proto_mobilesdk_ios_ICoreConfiguration_BuildType_PROD = 3"

definition logs_proto_mobilesdk_ios_ICoreConfiguration_BuildType_MIN :: logs_proto_mobilesdk_ios_ICoreConfiguration_BuildType where
  "logs_proto_mobilesdk_ios_ICoreConfiguration_BuildType_MIN = logs_proto_mobilesdk_ios_ICoreConfiguration_BuildType_UNKNOWN_BUILD_TYPE"

definition logs_proto_mobilesdk_ios_ICoreConfiguration_BuildType_MAX :: logs_proto_mobilesdk_ios_ICoreConfiguration_BuildType where
  "logs_proto_mobilesdk_ios_ICoreConfiguration_BuildType_MAX = logs_proto_mobilesdk_ios_ICoreConfiguration_BuildType_PROD"

definition logs_proto_mobilesdk_ios_ICoreConfiguration_BuildType_ARRAYSIZE :: int where
  "logs_proto_mobilesdk_ios_ICoreConfiguration_BuildType_ARRAYSIZE = logs_proto_mobilesdk_ios_ICoreConfiguration_BuildType_num logs_proto_mobilesdk_ios_ICoreConfiguration_BuildType_PROD + 1"

datatype logs_proto_mobilesdk_ios_ICoreConfiguration_ServiceType =
    logs_proto_mobilesdk_ios_ICoreConfiguration_ServiceType_UNKNOWN_SDK_SERVICE
  | logs_proto_mobilesdk_ios_ICoreConfiguration_ServiceType_ICORE
  | logs_proto_mobilesdk_ios_ICoreConfiguration_ServiceType_ADMOB
  | logs_proto_mobilesdk_ios_ICoreConfiguration_ServiceType_APP_INVITE
  | logs_proto_mobilesdk_ios_ICoreConfiguration_ServiceType_SIGN_IN
  | logs_proto_mobilesdk_ios_ICoreConfiguration_ServiceType_GCM
  | logs_proto_mobilesdk_ios_ICoreConfiguration_ServiceType_MAPS
  | logs_proto_mobilesdk_ios_ICoreConfiguration_ServiceType_SCION
  | logs_proto_mobilesdk_ios_ICoreConfiguration_ServiceType_ANALYTICS
  | logs_proto_mobilesdk_ios_ICoreConfiguration_ServiceType_APP_INDEXING
  | logs_proto_mobilesdk_ios_ICoreConfiguration_ServiceType_CONFIG
  | logs_proto_mobilesdk_ios_ICoreConfiguration_ServiceType_DURABLE_DEEP_LINKS
  | logs_proto_mobilesdk_ios_ICoreConfiguration_ServiceType_CRASH
  | logs_proto_mobilesdk_ios_ICoreConfiguration_ServiceType_AUTH
  | logs_proto_mobilesdk_ios_ICoreConfiguration_ServiceType_DATABASE
  | logs_proto_mobilesdk_ios_ICoreConfiguration_ServiceType_STORAGE
  | logs_proto_mobilesdk_ios_ICoreConfiguration_ServiceType_MESSAGING
  | logs_proto_mobilesdk_ios_ICoreConfiguration_ServiceType_MEASUREMENT
  | logs_proto_mobilesdk_ios_ICoreConfiguration_ServiceType_REMOTE_CONFIG
  | logs_proto_mobilesdk_ios_ICoreConfiguration_ServiceType_DYNAMIC_LINKS
  | logs_proto_mobilesdk_ios_ICoreConfiguration_ServiceType_INVITES
  | logs_proto_mobilesdk_ios_ICoreConfiguration_ServiceType_AUTH_UI
  | logs_proto_mobilesdk_ios_ICoreConfiguration_ServiceType_FIRESTORE
  | logs_proto_mobilesdk_ios_ICoreConfiguration_ServiceType_PERFORMANCE
  | logs_proto_mobilesdk_ios_ICoreConfiguration_ServiceType_ML_VISION_ON_DEVICE_FACE
  | logs_proto_mobilesdk_ios_ICoreConfiguration_ServiceType_ML_VISION_ON_DEVICE_BARCODE
  | logs_proto_mobilesdk_ios_ICoreConfiguration_ServiceType_ML_VISION_ON_DEVICE_TEXT
  | logs_proto_mobilesdk_ios_ICoreConfiguration_ServiceType_ML_VISION_ON_DEVICE_LABEL
  | logs_proto_mobilesdk_ios_ICoreConfiguration_ServiceType_ML_MODEL_INTERPRETER
  | logs_proto_mobilesdk_ios_ICoreConfiguration_ServiceType_IN_APP_MESSAGING
  | logs_proto_mobilesdk_ios_ICoreConfiguration_ServiceType_FUNCTIONS
  | logs_proto_mobilesdk_ios_ICoreConfiguration_ServiceType_ML_NATURAL_LANGUAGE
  | logs_proto_mobilesdk_ios_ICoreConfiguration_ServiceType_ML_VISION_ON_DEVICE_AUTOML
  | logs_proto_mobilesdk_ios_ICoreConfiguration_ServiceType_ML_VISION_ON_DEVICE_OBJECT_DETECTION

fun logs_proto_mobilesdk_ios_ICoreConfiguration_ServiceType_num :: "logs_proto_mobilesdk_ios_ICoreConfiguration_ServiceType \<Rightarrow> int" where
  "logs_proto_mobilesdk_ios_ICoreConfiguration_ServiceType_num logs_proto_mobilesdk_ios_ICoreConfiguration_ServiceType_UNKNOWN_SDK_SERVICE = 0"
| "logs_proto_mobilesdk_ios_ICoreConfiguration_ServiceType_num logs_proto_mobilesdk_ios_ICoreConfiguration_ServiceType_ICORE = 1"
| "logs_proto_mobilesdk_ios_ICoreConfiguration_ServiceType_num logs_proto_mobilesdk_ios_ICoreConfiguration_ServiceType_ADMOB = 2"
| "logs_proto_mobilesdk_ios_ICoreConfiguration_ServiceType_num logs_proto_mobilesdk_ios_ICoreConfiguration_ServiceType_APP_INVITE = 3"
| "logs_proto_mobilesdk_ios_ICoreConfiguration_ServiceType_num logs_proto_mobilesdk_ios_ICoreConfiguration_ServiceType_SIGN_IN = 5"
| "logs_proto_mobilesdk_ios_ICoreConfiguration_ServiceType_num logs_proto_mobilesdk_ios_ICoreConfiguration_ServiceType_GCM = 6"
| "logs_proto_mobilesdk_ios_ICoreConfiguration_ServiceType_num logs_proto_mobilesdk_ios_ICoreConfiguration_ServiceType_MAPS = 7"
| "logs_proto_mobilesdk_ios_ICoreConfiguration_ServiceType_num logs_proto_mobilesdk_ios_ICoreConfiguration_ServiceType_SCION = 8"
| "logs_proto_mobilesdk_ios_ICoreConfiguration_ServiceType_num logs_proto_mobilesdk_ios_ICoreConfiguration_ServiceType_ANALYTICS = 9"
| "logs_proto_mobilesdk_ios_ICoreConfiguration_ServiceType_num logs_proto_mobilesdk_ios_ICoreConfiguration_ServiceType_APP_INDEXING = 10"
| "logs_proto_mobilesdk_ios_ICoreConfiguration_ServiceType_num logs_proto_mobilesdk_ios_ICoreConfiguration_ServiceType_CONFIG = 11"
| "logs_proto_mobilesdk_ios_ICoreConfiguration_ServiceType_num logs_proto_mobilesdk_ios_ICoreConfiguration_ServiceType_DURABLE_DEEP_LINKS = 12"
| "logs_proto_mobilesdk_ios_ICoreConfiguration_ServiceType_num logs_proto_mobilesdk_ios_ICoreConfiguration_ServiceType_CRASH = 13"
| "logs_proto_mobilesdk_ios_ICoreConfiguration_ServiceType_num logs_proto_mobilesdk_ios_ICoreConfiguration_ServiceType_AUTH = 14"
| "logs_proto_mobilesdk_ios_ICoreConfiguration_ServiceType_num logs_proto_mobilesdk_ios_ICoreConfiguration_ServiceType_DATABASE = 15"
| "logs_proto_mobilesdk_ios_ICoreConfiguration_ServiceType_num logs_proto_mobilesdk_ios_ICoreConfiguration_ServiceType_STORAGE = 16"
| "logs_proto_mobilesdk_ios_ICoreConfiguration_ServiceType_num logs_proto_mobilesdk_ios_ICoreConfiguration_ServiceType_MESSAGING = 17"
| "logs_proto_mobilesdk_ios_ICoreConfiguration_ServiceType_num logs_proto_mobilesdk_ios_ICoreConfiguration_ServiceType_MEASUREMENT = 18"
| "logs_proto_mobilesdk_ios_ICoreConfiguration_ServiceType_num logs_proto_mobilesdk_ios_ICoreConfiguration_ServiceType_REMOTE_CONFIG = 19"
| "logs_proto_mobilesdk_ios_ICoreConfiguration_ServiceType_num logs_proto_mobilesdk_ios_ICoreConfiguration_ServiceType_DYNAMIC_LINKS = 20"
| "logs_proto_mobilesdk_ios_ICoreConfiguration_ServiceType_num logs_proto_mobilesdk_ios_ICoreConfiguration_ServiceType_INVITES = 21"
| "logs_proto_mobilesdk_ios_ICoreConfiguration_ServiceType_num logs_proto_mobilesdk_ios_ICoreConfiguration_ServiceType_AUTH_UI = 22"
| "logs_proto_mobilesdk_ios_ICoreConfiguration_ServiceType_num logs_proto_mobilesdk_ios_ICoreConfiguration_ServiceType_FIRESTORE = 23"
| "logs_proto_mobilesdk_ios_ICoreConfiguration_ServiceType_num logs_proto_mobilesdk_ios_ICoreConfiguration_ServiceType_PERFORMANCE = 24"
| "logs_proto_mobilesdk_ios_ICoreConfiguration_ServiceType_num logs_proto_mobilesdk_ios_ICoreConfiguration_ServiceType_ML_VISION_ON_DEVICE_FACE = 26"
| "logs_proto_mobilesdk_ios_ICoreConfiguration_ServiceType_num logs_proto_mobilesdk_ios_ICoreConfiguration_ServiceType_ML_VISION_ON_DEVICE_BARCODE = 27"
| "logs_proto_mobilesdk_ios_ICoreConfiguration_ServiceType_num logs_proto_mobilesdk_ios_ICoreConfiguration_ServiceType_ML_VISION_ON_DEVICE_TEXT = 28"
| "logs_proto_mobilesdk_ios_ICoreConfiguration_ServiceType_num logs_proto_mobilesdk_ios_ICoreConfiguration_ServiceType_ML_VISION_ON_DEVICE_LABEL = 29"
| "logs_proto_mobilesdk_ios_ICoreConfiguration_ServiceType_num logs_proto_mobilesdk_ios_ICoreConfiguration_ServiceType_ML_MODEL_INTERPRETER = 30"
| "logs_proto_mobilesdk_ios_ICoreConfiguration_ServiceType_num logs_proto_mobilesdk_ios_ICoreConfiguration_ServiceType_IN_APP_MESSAGING = 31"
| "logs_proto_mobilesdk_ios_ICoreConfiguration_ServiceType_num logs_proto_mobilesdk_ios_ICoreConfiguration_ServiceType_FUNCTIONS = 32"
| "logs_proto_mobilesdk_ios_ICoreConfiguration_ServiceType_num logs_proto_mobilesdk_ios_ICoreConfiguration_ServiceType_ML_NATURAL_LANGUAGE = 33"
| "logs_proto_mobilesdk_ios_ICoreConfiguration_ServiceType_num logs_proto_mobilesdk_ios_ICoreConfiguration_ServiceType_ML_VISION_ON_DEVICE_AUTOML = 34"
| "logs_proto_mobilesdk_ios_ICoreConfiguration_ServiceType_num logs_proto_mobilesdk_ios_ICoreConfiguration_ServiceType_ML_VISION_ON_DEVICE_OBJECT_DETECTION = 35"

definition logs_proto_mobilesdk_ios_ICoreConfiguration_ServiceType_MIN :: logs_proto_mobilesdk_ios_ICoreConfiguration_ServiceType where
  "logs_proto_mobilesdk_ios_ICoreConfiguration_ServiceType_MIN = logs_proto_mobilesdk_ios_ICoreConfiguration_ServiceType_UNKNOWN_SDK_SERVICE"

definition logs_proto_mobilesdk_ios_ICoreConfiguration_ServiceType_MAX :: logs_proto_mobilesdk_ios_ICoreConfiguration_ServiceType where
  "logs_proto_mobilesdk_ios_ICoreConfiguration_ServiceType_MAX = logs_proto_mobilesdk_ios_ICoreConfiguration_ServiceType_ML_VISION_ON_DEVICE_OBJECT_DETECTION"

definition logs_proto_mobilesdk_ios_ICoreConfiguration_ServiceType_ARRAYSIZE :: int where
  "logs_proto_mobilesdk_ios_ICoreConfiguration_ServiceType_ARRAYSIZE = logs_proto_mobilesdk_ios_ICoreConfiguration_ServiceType_num logs_proto_mobilesdk_ios_ICoreConfiguration_ServiceType_ML_VISION_ON_DEVICE_OBJECT_DETECTION + 1"

datatype logs_proto_mobilesdk_ios_ICoreConfiguration_PodName =
    logs_proto_mobilesdk_ios_ICoreConfiguration_PodName_UNKNOWN_POD_NAME
  | logs_proto_mobilesdk_ios_ICoreConfiguration_PodName_GOOGLE
  | logs_proto_mobilesdk_ios_ICoreConfiguration_PodName_FIREBASE

fun logs_proto_mobilesdk_ios_ICoreConfiguration_PodName_num :: "logs_proto_mobilesdk_ios_ICoreConfiguration_PodName \<Rightarrow> int" where
  "logs_proto_mobilesdk_ios_ICoreConfiguration_PodName_num logs_proto_mobilesdk_ios_ICoreConfiguration_PodName_UNKNOWN_POD_NAME = 0"
| "logs_proto_mobilesdk_ios_ICoreConfiguration_PodName_num logs_proto_mobilesdk_ios_ICoreConfiguration_PodName_GOOGLE = 1"
| "logs_proto_mobilesdk_ios_ICoreConfiguration_PodName_num logs_proto_mobilesdk_ios_ICoreConfiguration_PodName_FIREBASE = 2"

definition logs_proto_mobilesdk_ios_ICoreConfiguration_PodName_MIN :: logs_proto_mobilesdk_ios_ICoreConfiguration_PodName where
  "logs_proto_mobilesdk_ios_ICoreConfiguration_PodName_MIN = logs_proto_mobilesdk_ios_ICoreConfiguration_PodName_UNKNOWN_POD_NAME"

definition logs_proto_mobilesdk_ios_ICoreConfiguration_PodName_MAX :: logs_proto_mobilesdk_ios_ICoreConfiguration_PodName where
  "logs_proto_mobilesdk_ios_ICoreConfiguration_PodName_MAX = logs_proto_mobilesdk_ios_ICoreConfiguration_PodName_FIREBASE"

definition logs_proto_mobilesdk_ios_ICoreConfiguration_PodName_ARRAYSIZE :: int where
  "logs_proto_mobilesdk_ios_ICoreConfiguration_PodName_ARRAYSIZE = logs_proto_mobilesdk_ios_ICoreConfiguration_PodName_num logs_proto_mobilesdk_ios_ICoreConfiguration_PodName_FIREBASE + 1"

datatype logs_proto_mobilesdk_ios_ICoreConfiguration_DeploymentType =
    logs_proto_mobilesdk_ios_ICoreConfiguration_DeploymentType_UNKNOWN
  | logs_proto_mobilesdk_ios_ICoreConfiguration_DeploymentType_COCOAPODS
  | logs_proto_mobilesdk_ios_ICoreConfiguration_DeploymentType_ZIP_FILE
  | logs_proto_mobilesdk_ios_ICoreConfiguration_DeploymentType_CARTHAGE
  | logs_proto_mobilesdk_ios_ICoreConfiguration_DeploymentType_SPM

fun logs_proto_mobilesdk_ios_ICoreConfiguration_DeploymentType_num :: "logs_proto_mobilesdk_ios_ICoreConfiguration_DeploymentType \<Rightarrow> int" where
  "logs_proto_mobilesdk_ios_ICoreConfiguration_DeploymentType_num logs_proto_mobilesdk_ios_ICoreConfiguration_DeploymentType_UNKNOWN = 0"
| "logs_proto_mobilesdk_ios_ICoreConfiguration_DeploymentType_num logs_proto_mobilesdk_ios_ICoreConfiguration_DeploymentType_COCOAPODS = 1"
| "logs_proto_mobilesdk_ios_ICoreConfiguration_DeploymentType_num logs_proto_mobilesdk_ios_ICoreConfiguration_DeploymentType_ZIP_FILE = 2"
| "logs_proto_mobilesdk_ios_ICoreConfiguration_DeploymentType_num logs_proto_mobilesdk_ios_ICoreConfiguration_DeploymentType_CARTHAGE = 3"
| "logs_proto_mobilesdk_ios_ICoreConfiguration_DeploymentType_num logs_proto_mobilesdk_ios_ICoreConfiguration_DeploymentType_SPM = 4"

definition logs_proto_mobilesdk_ios_ICoreConfiguration_DeploymentType_MIN :: logs_proto_mobilesdk_ios_ICoreConfiguration_DeploymentType where
  "logs_proto_mobilesdk_ios_ICoreConfiguration_DeploymentType_MIN = logs_proto_mobilesdk_ios_ICoreConfiguration_DeploymentType_UNKNOWN"

definition logs_proto_mobilesdk_ios_ICoreConfiguration_DeploymentType_MAX :: logs_proto_mobilesdk_ios_ICoreConfiguration_DeploymentType where
  "logs_proto_mobilesdk_ios_ICoreConfiguration_DeploymentType_MAX = logs_proto_mobilesdk_ios_ICoreConfiguration_DeploymentType_SPM"

definition logs_proto_mobilesdk_ios_ICoreConfiguration_DeploymentType_ARRAYSIZE :: int where
  "logs_proto_mobilesdk_ios_ICoreConfiguration_DeploymentType_ARRAYSIZE = logs_proto_mobilesdk_ios_ICoreConfiguration_DeploymentType_num logs_proto_mobilesdk_ios_ICoreConfiguration_DeploymentType_SPM + 1"

section \<open>Message structs\<close>

definition logs_proto_mobilesdk_ios_ICoreConfiguration :: ctype where
  "logs_proto_mobilesdk_ios_ICoreConfiguration = CStruct
     [(''has_configuration_type'', CBool),
      (''configuration_type'', CInt 4),
      (''sdk_service_installed_count'', CInt 4),
      (''sdk_service_installed'', CPtr (CInt 4)),
      (''device_model'', CPtr pb_bytes_array_t),
      (''app_id'', CPtr pb_bytes_array_t),
      (''bundle_id'', CPtr pb_bytes_array_t),
      (''has_pod_name'', CBool),
      (''pod_name'', CInt 4),
      (''icore_version'', CPtr pb_bytes_array_t),
      (''sdk_version'', CPtr pb_bytes_array_t),
      (''has_sdk_name'', CBool),
      (''sdk_name'', CInt 4),
      (''has_app_count'', CBool),
      (''app_count'', CInt 4),
      (''os_version'', CPtr pb_bytes_array_t),
      (''min_supported_ios_version'', CPtr pb_bytes_array_t),
      (''has_use_default_app'', CBool),
      (''use_default_app'', CBool),
      (''has_deployed_in_app_store'', CBool),
      (''deployed_in_app_store'', CBool),
      (''has_dynamic_framework_count'', CBool),
      (''dynamic_framework_count'', CInt 4),
      (''apple_framework_version'', CPtr pb_bytes_array_t),
      (''has_using_zip_file'', CBool),
      (''using_zip_file'', CBool),
      (''has_deployment_type'', CBool),
      (''deployment_type'', CInt 4),
      (''platform_info'', CPtr pb_bytes_array_t),
      (''has_swizzling_enabled'', CBool),
      (''swizzling_enabled'', CBool),
      (''has_using_gdt'', CBool),
      (''using_gdt'', CBool)]"

section \<open>Field tags\<close>

definition logs_proto_mobilesdk_ios_ICoreConfiguration_pod_name_tag :: u32 where
  "logs_proto_mobilesdk_ios_ICoreConfiguration_pod_name_tag = 16"

definition logs_proto_mobilesdk_ios_ICoreConfiguration_configuration_type_tag :: u32 where
  "logs_proto_mobilesdk_ios_ICoreConfiguration_configuration_type_tag = 1"

definition logs_proto_mobilesdk_ios_ICoreConfiguration_icore_version_tag :: u32 where
  "logs_proto_mobilesdk_ios_ICoreConfiguration_icore_version_tag = 18"

definition logs_proto_mobilesdk_ios_ICoreConfiguration_sdk_version_tag :: u32 where
  "logs_proto_mobilesdk_ios_ICoreConfiguration_sdk_version_tag = 19"

definition logs_proto_mobilesdk_ios_ICoreConfiguration_sdk_service_installed_tag :: u32 where
  "logs_proto_mobilesdk_ios_ICoreConfiguration_sdk_service_installed_tag = 7"

definition logs_proto_mobilesdk_ios_ICoreConfiguration_sdk_name_tag :: u32 where
  "logs_proto_mobilesdk_ios_ICoreConfiguration_sdk_name_tag = 20"

definition logs_proto_mobilesdk_ios_ICoreConfiguration_device_model_tag :: u32 where
  "logs_proto_mobilesdk_ios_ICoreConfiguration_device_model_tag = 9"

definition logs_proto_mobilesdk_ios_ICoreConfiguration_os_version_tag :: u32 where
  "logs_proto_mobilesdk_ios_ICoreConfiguration_os_version_tag = 22"

definition logs_proto_mobilesdk_ios_ICoreConfiguration_app_id_tag :: u32 where
  "logs_proto_mobilesdk_ios_ICoreConfiguration_app_id_tag = 10"

definition logs_proto_mobilesdk_ios_ICoreConfiguration_bundle_id_tag :: u32 where
  "logs_proto_mobilesdk_ios_ICoreConfiguration_bundle_id_tag = 12"

definition logs_proto_mobilesdk_ios_ICoreConfiguration_min_supported_ios_version_tag :: u32 where
  "logs_proto_mobilesdk_ios_ICoreConfiguration_min_supported_ios_version_tag = 24"

definition logs_proto_mobilesdk_ios_ICoreConfiguration_use_default_app_tag :: u32 where
  "logs_proto_mobilesdk_ios_ICoreConfiguration_use_default_app_tag = 25"

definition logs_proto_mobilesdk_ios_ICoreConfiguration_app_count_tag :: u32 where
  "logs_proto_mobilesdk_ios_ICoreConfiguration_app_count_tag = 21"

definition logs_proto_mobilesdk_ios_ICoreConfiguration_deployed_in_app_store_tag :: u32 where
  "logs_proto_mobilesdk_ios_ICoreConfiguration_deployed_in_app_store_tag = 26"

definition logs_proto_mobilesdk_ios_ICoreConfiguration_dynamic_framework_count_tag :: u32 where
  "logs_proto_mobilesdk_ios_ICoreConfiguration_dynamic_framework_count_tag = 27"

definition logs_proto_mobilesdk_ios_ICoreConfiguration_apple_framework_version_tag :: u32 where
  "logs_proto_mobilesdk_ios_ICoreConfiguration_apple_framework_version_tag = 28"

definition logs_proto_mobilesdk_ios_ICoreConfiguration_using_zip_file_tag :: u32 where
  "logs_proto_mobilesdk_ios_ICoreConfiguration_using_zip_file_tag = 29"

definition logs_proto_mobilesdk_ios_ICoreConfiguration_deployment_type_tag :: u32 where
  "logs_proto_mobilesdk_ios_ICoreConfiguration_deployment_type_tag = 30"

definition logs_proto_mobilesdk_ios_ICoreConfiguration_platform_info_tag :: u32 where
  "logs_proto_mobilesdk_ios_ICoreConfiguration_platform_info_tag = 31"

definition logs_proto_mobilesdk_ios_ICoreConfiguration_swizzling_enabled_tag :: u32 where
  "logs_proto_mobilesdk_ios_ICoreConfiguration_swizzling_enabled_tag = 33"

definition logs_proto_mobilesdk_ios_ICoreConfiguration_using_gdt_tag :: u32 where
  "logs_proto_mobilesdk_ios_ICoreConfiguration_using_gdt_tag = 36"



section \<open>Initialisers\<close>

definition logs_proto_mobilesdk_ios_ICoreConfiguration_init_default :: cinit where
  "logs_proto_mobilesdk_ios_ICoreConfiguration_init_default = I_struct
     [I_int 0, I_int (logs_proto_mobilesdk_ios_ICoreConfiguration_ConfigurationType_num
      logs_proto_mobilesdk_ios_ICoreConfiguration_ConfigurationType_MIN), I_int 0, I_null,
      I_null, I_null, I_null, I_int 0, I_int
      (logs_proto_mobilesdk_ios_ICoreConfiguration_PodName_num
      logs_proto_mobilesdk_ios_ICoreConfiguration_PodName_MIN), I_null, I_null, I_int 0, I_int
      (logs_proto_mobilesdk_ios_ICoreConfiguration_ServiceType_num
      logs_proto_mobilesdk_ios_ICoreConfiguration_ServiceType_MIN), I_int 0, I_int 0, I_null,
      I_null, I_int 0, I_int 0, I_int 0, I_int 0, I_int 0, I_int 0, I_null, I_int 0, I_int 0,
      I_int 0, I_int (logs_proto_mobilesdk_ios_ICoreConfiguration_DeploymentType_num
      logs_proto_mobilesdk_ios_ICoreConfiguration_DeploymentType_MIN), I_null, I_int 0, I_int 0,
      I_int 0, I_int 0]"

definition logs_proto_mobilesdk_ios_ICoreConfiguration_init_zero :: cinit where
  "logs_proto_mobilesdk_ios_ICoreConfiguration_init_zero = I_struct
     [I_int 0, I_int (logs_proto_mobilesdk_ios_ICoreConfiguration_ConfigurationType_num
      logs_proto_mobilesdk_ios_ICoreConfiguration_ConfigurationType_MIN), I_int 0, I_null,
      I_null, I_null, I_null, I_int 0, I_int
      (logs_proto_mobilesdk_ios_ICoreConfiguration_PodName_num
      logs_proto_mobilesdk_ios_ICoreConfiguration_PodName_MIN), I_null, I_null, I_int 0, I_int
      (logs_proto_mobilesdk_ios_ICoreConfiguration_ServiceType_num
      logs_proto_mobilesdk_ios_ICoreConfiguration_ServiceType_MIN), I_int 0, I_int 0, I_null,
      I_null, I_int 0, I_int 0, I_int 0, I_int 0, I_int 0, I_int 0, I_null, I_int 0, I_int 0,
      I_int 0, I_int (logs_proto_mobilesdk_ios_ICoreConfiguration_DeploymentType_num
      logs_proto_mobilesdk_ios_ICoreConfiguration_DeploymentType_MIN), I_null, I_int 0, I_int 0,
      I_int 0, I_int 0]"

section \<open>Default values and field tables\<close>

definition logs_proto_mobilesdk_ios_ICoreConfiguration_fields :: "pb_field_t list" where
  "logs_proto_mobilesdk_ios_ICoreConfiguration_fields =
     [PB_FIELD 1 T_UENUM R_OPTIONAL A_STATIC P_FIRST logs_proto_mobilesdk_ios_ICoreConfiguration ''configuration_type'' ''configuration_type'' PtrNull,
      PB_FIELD 7 T_UENUM R_REPEATED A_POINTER P_OTHER logs_proto_mobilesdk_ios_ICoreConfiguration ''sdk_service_installed'' ''configuration_type'' PtrNull,
      PB_FIELD 9 T_BYTES R_OPTIONAL A_POINTER P_OTHER logs_proto_mobilesdk_ios_ICoreConfiguration ''device_model'' ''sdk_service_installed'' PtrNull,
      PB_FIELD 10 T_BYTES R_OPTIONAL A_POINTER P_OTHER logs_proto_mobilesdk_ios_ICoreConfiguration ''app_id'' ''device_model'' PtrNull,
      PB_FIELD 12 T_BYTES R_OPTIONAL A_POINTER P_OTHER logs_proto_mobilesdk_ios_ICoreConfiguration ''bundle_id'' ''app_id'' PtrNull,
      PB_FIELD 16 T_UENUM R_OPTIONAL A_STATIC P_OTHER logs_proto_mobilesdk_ios_ICoreConfiguration ''pod_name'' ''bundle_id'' PtrNull,
      PB_FIELD 18 T_BYTES R_OPTIONAL A_POINTER P_OTHER logs_proto_mobilesdk_ios_ICoreConfiguration ''icore_version'' ''pod_name'' PtrNull,
      PB_FIELD 19 T_BYTES R_OPTIONAL A_POINTER P_OTHER logs_proto_mobilesdk_ios_ICoreConfiguration ''sdk_version'' ''icore_version'' PtrNull,
      PB_FIELD 20 T_UENUM R_OPTIONAL A_STATIC P_OTHER logs_proto_mobilesdk_ios_ICoreConfiguration ''sdk_name'' ''sdk_version'' PtrNull,
      PB_FIELD 21 T_INT32 R_OPTIONAL A_STATIC P_OTHER logs_proto_mobilesdk_ios_ICoreConfiguration ''app_count'' ''sdk_name'' PtrNull,
      PB_FIELD 22 T_BYTES R_OPTIONAL A_POINTER P_OTHER logs_proto_mobilesdk_ios_ICoreConfiguration ''os_version'' ''app_count'' PtrNull,
      PB_FIELD 24 T_BYTES R_OPTIONAL A_POINTER P_OTHER logs_proto_mobilesdk_ios_ICoreConfiguration ''min_supported_ios_version'' ''os_version'' PtrNull,
      PB_FIELD 25 T_BOOL R_OPTIONAL A_STATIC P_OTHER logs_proto_mobilesdk_ios_ICoreConfiguration ''use_default_app'' ''min_supported_ios_version'' PtrNull,
      PB_FIELD 26 T_BOOL R_OPTIONAL A_STATIC P_OTHER logs_proto_mobilesdk_ios_ICoreConfiguration ''deployed_in_app_store'' ''use_default_app'' PtrNull,
      PB_FIELD 27 T_INT32 R_OPTIONAL A_STATIC P_OTHER logs_proto_mobilesdk_ios_ICoreConfiguration ''dynamic_framework_count'' ''deployed_in_app_store'' PtrNull,
      PB_FIELD 28 T_BYTES R_OPTIONAL A_POINTER P_OTHER logs_proto_mobilesdk_ios_ICoreConfiguration ''apple_framework_version'' ''dynamic_framework_count'' PtrNull,
      PB_FIELD 29 T_BOOL R_OPTIONAL A_STATIC P_OTHER logs_proto_mobilesdk_ios_ICoreConfiguration ''using_zip_file'' ''apple_framework_version'' PtrNull,
      PB_FIELD 30 T_UENUM R_OPTIONAL A_STATIC P_OTHER logs_proto_mobilesdk_ios_ICoreConfiguration ''deployment_type'' ''using_zip_file'' PtrNull,
      PB_FIELD 31 T_BYTES R_OPTIONAL A_POINTER P_OTHER logs_proto_mobilesdk_ios_ICoreConfiguration ''platform_info'' ''deployment_type'' PtrNull,
      PB_FIELD 33 T_BOOL R_OPTIONAL A_STATIC P_OTHER logs_proto_mobilesdk_ios_ICoreConfiguration ''swizzling_enabled'' ''platform_info'' PtrNull,
      PB_FIELD 36 T_BOOL R_OPTIONAL A_STATIC P_OTHER logs_proto_mobilesdk_ios_ICoreConfiguration ''using_gdt'' ''swizzling_enabled'' PtrNull,
      PB_LAST_FIELD]"


text \<open>The entries that the macros produce, for evaluation.\<close>

lemma logs_proto_mobilesdk_ios_ICoreConfiguration_fields_code [code]:
  "logs_proto_mobilesdk_ios_ICoreConfiguration_fields =
     [pb_field_s 1 0x12 4 4294967292 4 0 PtrNull,
      pb_field_s 7 0xA2 8 4294967288 4 0 PtrNull,
      pb_field_s 9 0x96 0 0 8 0 PtrNull,
      pb_field_s 10 0x96 0 0 8 0 PtrNull,
      pb_field_s 12 0x96 0 0 8 0 PtrNull,
      pb_field_s 16 0x12 4 4294967292 4 0 PtrNull,
      pb_field_s 18 0x96 0 0 8 0 PtrNull,
      pb_field_s 19 0x96 0 0 8 0 PtrNull,
      pb_field_s 20 0x12 4 4294967292 4 0 PtrNull,
      pb_field_s 21 0x11 4 4294967292 4 0 PtrNull,
      pb_field_s 22 0x96 0 0 8 0 PtrNull,
      pb_field_s 24 0x96 0 0 8 0 PtrNull,
      pb_field_s 25 0x10 1 4294967295 1 0 PtrNull,
      pb_field_s 26 0x10 1 4294967295 1 0 PtrNull,
      pb_field_s 27 0x11 4 4294967292 4 0 PtrNull,
      pb_field_s 28 0x96 4 0 8 0 PtrNull,
      pb_field_s 29 0x10 1 4294967295 1 0 PtrNull,
      pb_field_s 30 0x12 2 4294967294 4 0 PtrNull,
      pb_field_s 31 0x96 0 0 8 0 PtrNull,
      pb_field_s 33 0x10 1 4294967295 1 0 PtrNull,
      pb_field_s 36 0x10 1 4294967295 1 0 PtrNull,
      PB_LAST_FIELD]"
  by code_simp

section \<open>The table describes its struct\<close>

definition firebasecore_tables :: "(ctype \<times> string list \<times> u32 list \<times> pb_field_t list) list" where
  "firebasecore_tables =
    [(logs_proto_mobilesdk_ios_ICoreConfiguration, [''configuration_type'', ''sdk_service_installed'', ''device_model'', ''app_id'', ''bundle_id'', ''pod_name'', ''icore_version'', ''sdk_version'', ''sdk_name'', ''app_count'', ''os_version'', ''min_supported_ios_version'', ''use_default_app'', ''deployed_in_app_store'', ''dynamic_framework_count'', ''apple_framework_version'', ''using_zip_file'', ''deployment_type'', ''platform_info'', ''swizzling_enabled'', ''using_gdt''], [logs_proto_mobilesdk_ios_ICoreConfiguration_configuration_type_tag, logs_proto_mobilesdk_ios_ICoreConfiguration_sdk_service_installed_tag, logs_proto_mobilesdk_ios_ICoreConfiguration_device_model_tag, logs_proto_mobilesdk_ios_ICoreConfiguration_app_id_tag, logs_proto_mobilesdk_ios_ICoreConfiguration_bundle_id_tag, logs_proto_mobilesdk_ios_ICoreConfiguration_pod_name_tag, logs_proto_mobilesdk_ios_ICoreConfiguration_icore_version_tag, logs_proto_mobilesdk_ios_ICoreConfiguration_sdk_version_tag, logs_proto_mobilesdk_ios_ICoreConfiguration_sdk_name_tag, logs_proto_mobilesdk_ios_ICoreConfiguration_app_count_tag, logs_proto_mobilesdk_ios_ICoreConfiguration_os_version_tag, logs_proto_mobilesdk_ios_ICoreConfiguration_min_supported_ios_version_tag, logs_proto_mobilesdk_ios_ICoreConfiguration_use_default_app_tag, logs_proto_mobilesdk_ios_ICoreConfiguration_deployed_in_app_store_tag, logs_proto_mobilesdk_ios_ICoreConfiguration_dynamic_framework_count_tag, logs_proto_mobilesdk_ios_ICoreConfiguration_apple_framework_version_tag, logs_proto_mobilesdk_ios_ICoreConfiguration_using_zip_file_tag, logs_proto_mobilesdk_ios_ICoreConfiguration_deployment_type_tag, logs_proto_mobilesdk_ios_ICoreConfiguration_platform_info_tag, logs_proto_mobilesdk_ios_ICoreConfiguration_swizzling_enabled_tag, logs_proto_mobilesdk_ios_ICoreConfiguration_using_gdt_tag],
      logs_proto_mobilesdk_ios_ICoreConfiguration_fields)]"

lemma firebasecore_tables_ok: "list_all table_ok firebasecore_tables"
  by code_simp

lemma firebasecore_plain: "plain_fields logs_proto_mobilesdk_ios_ICoreConfiguration_fields"
  by code_simp

lemma firebasecore_always_encodable:
  "always_encodable logs_proto_mobilesdk_ios_ICoreConfiguration_fields"
  by code_simp

end
