(* ===== verification/Pb_Istream.thy ===== *)
theory Pb_Istream
  imports Pb_Base
begin

text \<open>
  The input side of \<^verbatim>\<open>nanopb/pb_decode.c\<close> below the level of fields: the stream
  \<open>pb_istream_t\<close>, reading and skipping, varints, tags, and substreams limited to a
  length-delimited value.
\<close>

section \<open>Input streams\<close>

text \<open>
  The state of a memory-buffer stream is the list of the bytes from the read pointer on. A
  user's callback is given the state and a count and returns a success flag, the bytes it
  put into the buffer and its new state; as \<^verbatim>\<open>pb_decode.h\<close> asks, it leaves \<open>bytes_left\<close>
  alone. Its position in a file or socket is part of the state that it returns. Bytes that
  a callback does not deliver read as zero.
\<close>

datatype is_cb =
    is_IS_buf_read: IS_buf_read
  | IS_user "byte list \<Rightarrow> nat \<Rightarrow> bool \<times> byte list \<times> byte list"

record pb_istream_t =
  is_callback :: is_cb
  is_state :: "byte list"
  is_bytes_left :: size_t
  is_errmsg :: "string option"

definition is_set_error :: "pb_istream_t \<Rightarrow> string \<Rightarrow> pb_istream_t" where
  "is_set_error s msg = s\<lparr>is_errmsg := (case is_errmsg s of Some e \<Rightarrow> Some e | None \<Rightarrow> Some msg)\<rparr>"

definition fit :: "nat \<Rightarrow> byte list \<Rightarrow> byte list" where
  "fit n bs = take n bs @ replicate (n - length bs) 0"

lemma length_fit [simp]: "length (fit n bs) = n"
  by (simp add: fit_def)

lemma fit_le: "n \<le> length bs \<Longrightarrow> fit n bs = take n bs"
  by (simp add: fit_def)

definition buf_read :: "pb_istream_t \<Rightarrow> nat \<Rightarrow> bool \<times> byte list \<times> pb_istream_t" where
  "buf_read s count = (True, fit count (is_state s), s\<lparr>is_state := drop count (is_state s)\<rparr>)"

text \<open>\<^verbatim>\<open>stream->callback(stream, buf, count)\<close>.\<close>

definition is_call :: "pb_istream_t \<Rightarrow> nat \<Rightarrow> bool \<times> byte list \<times> pb_istream_t" where
  "is_call s count =
     (case is_callback s of
        IS_buf_read \<Rightarrow> buf_read s count
      | IS_user f \<Rightarrow>
          (case f (is_state s) count of (ok, bs, st) \<Rightarrow> (ok, fit count bs, s\<lparr>is_state := st\<rparr>)))"

lemma is_call_left [simp]: "is_call s n = (ok, bs, s') \<Longrightarrow> is_bytes_left s' = is_bytes_left s"
  by (auto simp: is_call_def buf_read_def split: is_cb.splits prod.splits)

lemma is_call_callback [simp]: "is_call s n = (ok, bs, s') \<Longrightarrow> is_callback s' = is_callback s"
  by (auto simp: is_call_def buf_read_def split: is_cb.splits prod.splits)

text \<open>
  \<open>pb_read\<close> with a buffer: the flag, the bytes that are in the buffer afterwards, and the
  stream.
\<close>

definition pb_read_buf :: "pb_istream_t \<Rightarrow> size_t \<Rightarrow> bool \<times> byte list \<times> pb_istream_t" where
  "pb_read_buf s count =
     (if count = 0 then (True, [], s)
      else if is_bytes_left s < count then (False, [], is_set_error s ''end-of-stream'')
      else case is_call s (unat count) of (ok, bs, s) \<Rightarrow>
        if \<not> ok then (False, bs, is_set_error s ''io error'')
        else (True, bs, s\<lparr>is_bytes_left := is_bytes_left s - count\<rparr>))"

text \<open>
  \<open>pb_read\<close> without a buffer, to skip bytes: directly from a memory buffer, else by
  reading chunks of 16 bytes into a local array.
\<close>

function skip_loop :: "pb_istream_t \<Rightarrow> size_t \<Rightarrow> bool \<times> pb_istream_t" where
  "skip_loop s count =
     (if count > 16 then
        case pb_read_buf s 16 of (ok, _, s) \<Rightarrow>
          if \<not> ok then (False, s) else skip_loop s (count - 16)
      else case pb_read_buf s count of (ok, _, s) \<Rightarrow> (ok, s))"
  by pat_completeness auto
termination
proof (relation "measure (\<lambda>(s, count). unat count)", simp)
  fix count :: size_t and s' :: pb_istream_t and s
  assume less: "16 < count"
  then have le: "16 \<le> count"
    by (rule less_imp_le)
  have "16 < unat count"
    using less by (simp add: word_less_nat_alt)
  then have "unat (count - 16) < unat count"
    unfolding unat_sub [OF le] by simp
  then show "((s', count - 16), s, count) \<in> measure (\<lambda>(s, count). unat count)"
    by simp
qed

declare skip_loop.simps [simp del]

definition pb_read_null :: "pb_istream_t \<Rightarrow> size_t \<Rightarrow> bool \<times> pb_istream_t" where
  "pb_read_null s count =
     (if count = 0 then (True, s)
      else if \<not> is_IS_buf_read (is_callback s) then skip_loop s count
      else case pb_read_buf s count of (ok, _, s) \<Rightarrow> (ok, s))"

definition pb_readbyte :: "pb_istream_t \<Rightarrow> byte option \<times> pb_istream_t" where
  "pb_readbyte s =
     (if is_bytes_left s = 0 then (None, is_set_error s ''end-of-stream'')
      else case is_call s 1 of (ok, bs, s) \<Rightarrow>
        if \<not> ok then (None, is_set_error s ''io error'')
        else (Some (hd bs), s\<lparr>is_bytes_left := is_bytes_left s - 1\<rparr>))"

definition pb_istream_from_buffer :: "byte list \<Rightarrow> size_t \<Rightarrow> pb_istream_t" where
  "pb_istream_from_buffer buf bufsize =
     \<lparr>is_callback = IS_buf_read, is_state = buf, is_bytes_left = bufsize, is_errmsg = None\<rparr>"

lemma is_set_error_simps [simp]:
  "is_bytes_left (is_set_error s msg) = is_bytes_left s" "is_state (is_set_error s msg) = is_state s"
  "is_callback (is_set_error s msg) = is_callback s"
  by (simp_all add: is_set_error_def)

text \<open>Every operation on a stream only ever lowers \<open>bytes_left\<close>.\<close>

lemma readbyte_left:
  assumes "pb_readbyte s = (Some b, s')"
  shows "unat (is_bytes_left s') < unat (is_bytes_left s)"
proof -
  have nz: "is_bytes_left s \<noteq> 0" and left: "is_bytes_left s' = is_bytes_left s - 1"
    using assms by (auto simp: pb_readbyte_def split: prod.splits if_splits)
  then have "1 \<le> is_bytes_left s" by (simp add: word_le_nat_alt Suc_le_eq unat_gt_0)
  then have "unat (is_bytes_left s') = unat (is_bytes_left s) - 1"
    by (simp add: left unat_sub)
  moreover have "0 < unat (is_bytes_left s)" using nz by (simp add: unat_gt_0)
  ultimately show ?thesis by simp
qed

section \<open>Varints\<close>

text \<open>
  The loop of \<open>pb_decode_varint32_eof\<close>. \<open>bitpos\<close> is an \<^verbatim>\<open>uint_fast8_t\<close>, eight bits wide on
  the target, and wraps around. The result is the value and the last byte, with the final
  \<open>bitpos\<close>.
\<close>

function varint32_loop ::
  "pb_istream_t \<Rightarrow> byte \<Rightarrow> u32 \<Rightarrow> (u32 \<times> byte \<times> byte) option \<times> pb_istream_t" where
  "varint32_loop s bitpos result =
     (case pb_readbyte s of
        (None, s) \<Rightarrow> (None, s)
      | (Some b, s) \<Rightarrow>
          let sign_extension :: byte = (if bitpos < 63 then 0xFF else 0x01) in
          if bitpos \<ge> 32 \<and> b AND 0x7F \<noteq> 0 \<and> (drop_bit 31 result = 0 \<or> b \<noteq> sign_extension)
          then (None, is_set_error s ''varint overflow'')
          else
            let result = (if bitpos \<ge> 32 then result
                          else result OR push_bit (unat bitpos) (ucast (b AND 0x7F)));
                bitpos = bitpos + 7
            in if b AND 0x80 \<noteq> 0 then varint32_loop s bitpos result
               else (Some (result, b, bitpos), s))"
  by pat_completeness auto
termination
  by (relation "measure (\<lambda>(s, bitpos, result). unat (is_bytes_left s))") (auto dest: readbyte_left [OF sym])

declare varint32_loop.simps [simp del]

text \<open>The second component of the result is the value that \<open>*eof\<close> is set to, if it is.\<close>

definition pb_decode_varint32_eof :: "pb_istream_t \<Rightarrow> u32 option \<times> bool \<times> pb_istream_t" where
  "pb_decode_varint32_eof s =
     (case pb_readbyte s of
        (None, s) \<Rightarrow> (None, is_bytes_left s = 0, s)
      | (Some b, s) \<Rightarrow>
          if b AND 0x80 = 0 then (Some (ucast b), False, s)
          else
            (case varint32_loop s 7 (ucast (b AND 0x7F)) of
               (None, s) \<Rightarrow> (None, False, s)
             | (Some (result, b, bitpos), s) \<Rightarrow>
                 if bitpos = 35 \<and> b AND 0x70 \<noteq> 0
                 then (None, False, is_set_error s ''varint overflow'')
                 else (Some result, False, s)))"

definition pb_decode_varint32 :: "pb_istream_t \<Rightarrow> u32 option \<times> pb_istream_t" where
  "pb_decode_varint32 s = (case pb_decode_varint32_eof s of (r, _, s) \<Rightarrow> (r, s))"

function varint64_loop :: "pb_istream_t \<Rightarrow> byte \<Rightarrow> u64 \<Rightarrow> u64 option \<times> pb_istream_t" where
  "varint64_loop s bitpos result =
     (if bitpos \<ge> 64 then (None, is_set_error s ''varint overflow'')
      else (case pb_readbyte s of
        (None, s) \<Rightarrow> (None, s)
      | (Some b, s) \<Rightarrow>
          let result = result OR push_bit (unat bitpos) (ucast (b AND 0x7F)); bitpos = bitpos + 7
          in if b AND 0x80 \<noteq> 0 then varint64_loop s bitpos result else (Some result, s)))"
  by pat_completeness auto
termination
  by (relation "measure (\<lambda>(s, bitpos, result). unat (is_bytes_left s))") (auto dest: readbyte_left [OF sym])

declare varint64_loop.simps [simp del]

definition pb_decode_varint :: "pb_istream_t \<Rightarrow> u64 option \<times> pb_istream_t" where
  "pb_decode_varint s = varint64_loop s 0 0"

section \<open>Skipping\<close>

lemma read_buf_left:
  assumes "pb_read_buf s count = (ok, bs, s')"
  shows "unat (is_bytes_left s') \<le> unat (is_bytes_left s)"
    and "ok \<Longrightarrow> count \<noteq> 0 \<Longrightarrow> unat (is_bytes_left s') < unat (is_bytes_left s)"
proof -
  have sub: "unat (is_bytes_left s - count) = unat (is_bytes_left s) - unat count"
    if "\<not> is_bytes_left s < count"
    using that by (intro unat_sub) simp
  show "unat (is_bytes_left s') \<le> unat (is_bytes_left s)"
    using assms sub by (auto simp: pb_read_buf_def split: if_splits prod.splits)
  show "unat (is_bytes_left s') < unat (is_bytes_left s)" if "ok" "count \<noteq> 0"
    using assms sub that unat_gt_0 [of count]
    by (auto simp: pb_read_buf_def word_less_nat_alt split: if_splits prod.splits)
qed

function pb_skip_varint :: "pb_istream_t \<Rightarrow> bool \<times> pb_istream_t" where
  "pb_skip_varint s =
     (case pb_read_buf s 1 of (ok, bs, s) \<Rightarrow>
        if \<not> ok then (False, s)
        else if hd bs AND 0x80 \<noteq> 0 then pb_skip_varint s else (True, s))"
  by pat_completeness auto
termination
  by (relation "measure (\<lambda>s. unat (is_bytes_left s))") (auto dest: read_buf_left(2) [OF sym])

declare pb_skip_varint.simps [simp del]

definition pb_skip_string :: "pb_istream_t \<Rightarrow> bool \<times> pb_istream_t" where
  "pb_skip_string s =
     (case pb_decode_varint32 s of
        (None, s) \<Rightarrow> (False, s)
      | (Some len, s) \<Rightarrow> pb_read_null s (ucast len))"

text \<open>A tag: field number and wire type; the flag is \<open>*eof\<close>.\<close>

definition pb_decode_tag :: "pb_istream_t \<Rightarrow> (u32 \<times> pb_wire_type_t) option \<times> bool \<times> pb_istream_t" where
  "pb_decode_tag s =
     (case pb_decode_varint32_eof s of
        (None, eof, s) \<Rightarrow> (None, eof, s)
      | (Some temp, _, s) \<Rightarrow>
          if temp = 0 then (None, True, s)
          else (Some (drop_bit 3 temp, temp AND 7), False, s))"

definition pb_skip_field :: "pb_istream_t \<Rightarrow> pb_wire_type_t \<Rightarrow> bool \<times> pb_istream_t" where
  "pb_skip_field s wire_type =
     (if wire_type = PB_WT_VARINT then pb_skip_varint s
      else if wire_type = PB_WT_64BIT then pb_read_null s 8
      else if wire_type = PB_WT_STRING then pb_skip_string s
      else if wire_type = PB_WT_32BIT then pb_read_null s 4
      else (False, is_set_error s ''invalid wire_type''))"

section \<open>Raw values and substreams\<close>

text \<open>
  \<open>read_raw_value\<close> gives the bytes that it put into \<open>buf\<close>; \<open>*size\<close> is their number. For a
  varint at most \<open>max_size\<close> bytes are read.
\<close>

fun raw_varint_loop :: "nat \<Rightarrow> byte list \<Rightarrow> pb_istream_t \<Rightarrow> byte list option \<times> pb_istream_t" where
  "raw_varint_loop 0 buf s = (None, s)"
| "raw_varint_loop (Suc room) buf s =
     (case pb_read_buf s 1 of (ok, bs, s) \<Rightarrow>
        if \<not> ok then (None, s)
        else if hd bs AND 0x80 \<noteq> 0 then raw_varint_loop room (buf @ bs) s
        else (Some (buf @ bs), s))"

definition read_raw_value ::
  "pb_istream_t \<Rightarrow> pb_wire_type_t \<Rightarrow> nat \<Rightarrow> byte list option \<times> pb_istream_t" where
  "read_raw_value s wire_type max_size =
     (if wire_type = PB_WT_VARINT then raw_varint_loop max_size [] s
      else if wire_type = PB_WT_64BIT then
        (case pb_read_buf s 8 of (ok, bs, s) \<Rightarrow> (if ok then Some bs else None, s))
      else if wire_type = PB_WT_32BIT then
        (case pb_read_buf s 4 of (ok, bs, s) \<Rightarrow> (if ok then Some bs else None, s))
      else (None, is_set_error s ''invalid wire_type''))"

text \<open>The result is the substream, if any, and the parent stream.\<close>

definition pb_make_string_substream :: "pb_istream_t \<Rightarrow> pb_istream_t option \<times> pb_istream_t" where
  "pb_make_string_substream s =
     (case pb_decode_varint32 s of
        (None, s) \<Rightarrow> (None, s)
      | (Some sz, s) \<Rightarrow>
          if is_bytes_left s < ucast sz then (None, is_set_error s ''parent stream too short'')
          else (Some (s\<lparr>is_bytes_left := ucast sz\<rparr>),
                s\<lparr>is_bytes_left := is_bytes_left s - ucast sz\<rparr>))"

definition pb_close_string_substream :: "pb_istream_t \<Rightarrow> pb_istream_t \<Rightarrow> bool \<times> pb_istream_t" where
  "pb_close_string_substream s substream =
     (case (if is_bytes_left substream \<noteq> 0
            then pb_read_null substream (is_bytes_left substream) else (True, substream)) of
        (ok, substream) \<Rightarrow>
          if \<not> ok then (False, s)
          else (True, s\<lparr>is_state := is_state substream, is_errmsg := is_errmsg substream\<rparr>))"

section \<open>Values\<close>

definition unzigzag :: "u64 \<Rightarrow> u64" where
  "unzigzag value = (if value AND 1 \<noteq> 0 then NOT (drop_bit 1 value) else drop_bit 1 value)"

definition pb_decode_svarint :: "pb_istream_t \<Rightarrow> u64 option \<times> pb_istream_t" where
  "pb_decode_svarint s =
     (case pb_decode_varint s of (None, s) \<Rightarrow> (None, s) | (Some v, s) \<Rightarrow> (Some (unzigzag v), s))"

definition pb_decode_fixed32 :: "pb_istream_t \<Rightarrow> u32 option \<times> pb_istream_t" where
  "pb_decode_fixed32 s =
     (case pb_read_buf s 4 of (ok, b, s) \<Rightarrow>
        (if \<not> ok then None
         else Some (push_bit 0 (ucast (b ! 0)) OR push_bit 8 (ucast (b ! 1)) OR
                    push_bit 16 (ucast (b ! 2)) OR push_bit 24 (ucast (b ! 3))), s))"

definition pb_decode_fixed64 :: "pb_istream_t \<Rightarrow> u64 option \<times> pb_istream_t" where
  "pb_decode_fixed64 s =
     (case pb_read_buf s 8 of (ok, b, s) \<Rightarrow>
        (if \<not> ok then None
         else Some (push_bit 0 (ucast (b ! 0)) OR push_bit 8 (ucast (b ! 1)) OR
                    push_bit 16 (ucast (b ! 2)) OR push_bit 24 (ucast (b ! 3)) OR
                    push_bit 32 (ucast (b ! 4)) OR push_bit 40 (ucast (b ! 5)) OR
                    push_bit 48 (ucast (b ! 6)) OR push_bit 56 (ucast (b ! 7))), s))"

end
