(* ===== verification/Pb_Decode.thy ===== *)
theory Pb_Decode
  imports Pb_Common Pb_Istream
begin

text \<open>
  \<^verbatim>\<open>nanopb/pb_decode.c\<close>: decoding of fields, arrays, extensions, submessages and whole
  messages into memory, with the dynamic allocation of pointer fields
  (\<^verbatim>\<open>PB_ENABLE_MALLOC\<close>), the initialisation of messages and their release.
\<close>

section \<open>Heap\<close>

text \<open>
  The byte memory, the blocks that \<open>pb_realloc\<close> has handed out and that are not yet freed,
  the local variable \<open>fixed_count_size\<close> of the running activation of \<open>pb_decode_noinit\<close>
  (its address may be in an iterator), a flag that is raised when a pointer that is not
  the start of a live block is freed or reallocated, and one that is raised when the
  bounds on extension lists below end a walk that the program would go on with.
\<close>

record heap =
  hp_mem :: mem
  hp_blocks :: "(addr \<times> nat) list"
  hp_fixed_count_size :: pb_size_t
  hp_bad_free :: bool
  hp_ext_bound :: bool

type_synonym dstate = "pb_istream_t \<times> heap"

text \<open>
  The decoder's environment: where the allocator places a block (null when it fails), the
  user's decode callbacks by function pointer, the extension types by address, and the
  bounds on extension lists and their nesting, as for the encoder.
\<close>

type_synonym pb_decoder_t = "dstate \<Rightarrow> pb_field_t \<Rightarrow> addr \<Rightarrow> bool \<times> dstate"

record dec_extension_type =
  dt_decode :: "(dstate \<Rightarrow> addr \<Rightarrow> u32 \<Rightarrow> pb_wire_type_t \<Rightarrow> bool \<times> dstate) option"
  dt_arg :: pb_field_t

record dec_env =
  de_place :: "heap \<Rightarrow> addr \<Rightarrow> size_t \<Rightarrow> addr"
  de_callback :: "addr \<Rightarrow> pb_decoder_t"
  de_ext_type :: "addr \<Rightarrow> dec_extension_type"
  de_ext_chain :: nat
  de_ext_depth :: nat

text \<open>The decoder of a submessage; the flag asks for \<open>pb_decode\<close> instead of \<open>pb_decode_noinit\<close>.\<close>

type_synonym submsg_decoder = "bool \<Rightarrow> pb_field_t list \<Rightarrow> addr \<Rightarrow> dstate \<Rightarrow> bool \<times> dstate"

definition h_store :: "addr \<Rightarrow> byte list \<Rightarrow> heap \<Rightarrow> heap" where
  "h_store a bs h = h\<lparr>hp_mem := store_bytes (hp_mem h) a bs\<rparr>"

definition h_load_ptr :: "heap \<Rightarrow> addr \<Rightarrow> addr" where
  "h_load_ptr h a = load_ptr (hp_mem h) a"

definition h_store_ptr :: "addr \<Rightarrow> addr \<Rightarrow> heap \<Rightarrow> heap" where
  "h_store_ptr a p h = h\<lparr>hp_mem := store_ptr (hp_mem h) a p\<rparr>"

text \<open>\<^verbatim>\<open>*(pb_size_t*)pSize\<close> and \<^verbatim>\<open>*(bool*)pSize\<close>.\<close>

definition get_size :: "heap \<Rightarrow> psize_ptr \<Rightarrow> pb_size_t" where
  "get_size h ps = (case ps of PS_mem a \<Rightarrow> load_u32 (hp_mem h) a | PS_fixed_count \<Rightarrow> hp_fixed_count_size h)"

definition set_size :: "psize_ptr \<Rightarrow> pb_size_t \<Rightarrow> heap \<Rightarrow> heap" where
  "set_size ps n h =
     (case ps of
        PS_mem a \<Rightarrow> h\<lparr>hp_mem := store_u32 (hp_mem h) a n\<rparr>
      | PS_fixed_count \<Rightarrow> h\<lparr>hp_fixed_count_size := n\<rparr>)"

definition set_bool :: "psize_ptr \<Rightarrow> bool \<Rightarrow> heap \<Rightarrow> heap" where
  "set_bool ps b h =
     (case ps of PS_mem a \<Rightarrow> h_store a [if b then 1 else 0] h | PS_fixed_count \<Rightarrow> h)"

definition pb_free :: "addr \<Rightarrow> heap \<Rightarrow> heap" where
  "pb_free ptr h =
     (if ptr = NULL then h
      else case map_of (hp_blocks h) ptr of
        None \<Rightarrow> h\<lparr>hp_bad_free := True\<rparr>
      | Some n \<Rightarrow> h\<lparr>hp_blocks := filter (\<lambda>(a, _). a \<noteq> ptr) (hp_blocks h)\<rparr>)"

text \<open>
  \<^verbatim>\<open>realloc\<close>: the contents move to the new block up to the smaller of the two sizes, the old
  block is gone; on failure (the result is null) nothing changes.
\<close>

definition pb_realloc :: "dec_env \<Rightarrow> addr \<Rightarrow> size_t \<Rightarrow> heap \<Rightarrow> addr \<times> heap" where
  "pb_realloc env ptr sz h =
     (let a = de_place env h ptr sz in
      if a = NULL then (NULL, h)
      else if ptr = NULL then (a, h\<lparr>hp_blocks := (a, unat sz) # hp_blocks h\<rparr>)
      else case map_of (hp_blocks h) ptr of
        None \<Rightarrow> (NULL, h\<lparr>hp_bad_free := True\<rparr>)
      | Some n \<Rightarrow>
          (a, h\<lparr>hp_blocks := (a, unat sz) # filter (\<lambda>(b, _). b \<noteq> ptr) (hp_blocks h),
                hp_mem := store_bytes (hp_mem h) a (load_bytes (hp_mem h) ptr (min n (unat sz)))\<rparr>))"

definition d_error :: "dstate \<Rightarrow> string \<Rightarrow> bool \<times> dstate" where
  "d_error st msg = (case st of (s, h) \<Rightarrow> (False, is_set_error s msg, h))"

definition allocate_field :: "dec_env \<Rightarrow> dstate \<Rightarrow> addr \<Rightarrow> size_t \<Rightarrow> size_t \<Rightarrow> bool \<times> dstate" where
  "allocate_field env st pData data_size array_size =
     (case st of (s, h) \<Rightarrow>
        let check_limit :: size_t = push_bit 32 1; size_max :: size_t = - 1 in
        if data_size = 0 \<or> array_size = 0 then d_error (s, h) ''invalid size''
        else if (data_size \<ge> check_limit \<or> array_size \<ge> check_limit) \<and> size_max div array_size < data_size
        then d_error (s, h) ''size too large''
        else case pb_realloc env (h_load_ptr h pData) (array_size * data_size) h of (ptr, h) \<Rightarrow>
          if ptr = NULL then d_error (s, h) ''realloc failed''
          else (True, s, h_store_ptr pData ptr h))"

section \<open>Loops over input\<close>

text \<open>
  A loop that runs while there is input. A pass that does not consume input would repeat
  for ever in the program; here the loop then ends with failure. The decoders of packed
  elements and the message loop always consume input; a user's callback might not.
\<close>

datatype 's loop_step = Next 's | Stop bool 's

function stream_loop ::
  "('s \<Rightarrow> pb_istream_t) \<Rightarrow> ('s \<Rightarrow> 's loop_step) \<Rightarrow> 's \<Rightarrow> bool \<times> 's" where
  "stream_loop strm body s =
     (case body s of
        Stop ok s' \<Rightarrow> (ok, s')
      | Next s' \<Rightarrow>
          if unat (is_bytes_left (strm s')) < unat (is_bytes_left (strm s))
          then stream_loop strm body s' else (False, s'))"
  by pat_completeness auto
termination
  by (relation "measure (\<lambda>(strm, body, s). unat (is_bytes_left (strm s)))") auto

declare stream_loop.simps [simp del]

lemma stream_loop_cong [fundef_cong]:
  assumes "strm = strm'" "s = s'" "\<And>t. body t = body' t"
  shows "stream_loop strm body s = stream_loop strm' body' s'"
proof -
  have "body = body'" by (intro ext assms(3))
  with assms show ?thesis by simp
qed

section \<open>Decoders of values\<close>

definition pb_dec_bool :: pb_decoder_t where
  "pb_dec_bool st field dest =
     (case st of (s, h) \<Rightarrow>
        (case pb_decode_varint32 s of
          (None, s) \<Rightarrow> (False, s, h)
        | (Some v, s) \<Rightarrow> (True, s, h_store dest [if v \<noteq> 0 then 1 else 0] h)))"

definition pb_decode_bool :: "dstate \<Rightarrow> addr \<Rightarrow> bool \<times> dstate" where
  "pb_decode_bool st dest = pb_dec_bool st PB_LAST_FIELD dest"

text \<open>
  The assignment of a 64-bit value to an integer of \<open>data_size\<close> bytes: what is stored, and
  the value as it reads back, sign-extended (\<open>clamped\<close>).
\<close>

definition clamp_int :: "pb_size_t \<Rightarrow> u64 \<Rightarrow> (byte list \<times> u64) option" where
  "clamp_int data_size v =
     (if data_size = 8 then Some (bytes_of_word 8 v, v)
      else if data_size = 4 then Some (bytes_of_word 4 (ucast v :: u32), scast (ucast v :: u32))
      else if data_size = 2 then Some (bytes_of_word 2 (ucast v :: u16), scast (ucast v :: u16))
      else if data_size = 1 then Some (bytes_of_word 1 (ucast v :: byte), scast (ucast v :: byte))
      else None)"

definition clamp_uint :: "pb_size_t \<Rightarrow> u64 \<Rightarrow> (byte list \<times> u64) option" where
  "clamp_uint data_size v =
     (if data_size = 8 then Some (bytes_of_word 8 v, v)
      else if data_size = 4 then Some (bytes_of_word 4 (ucast v :: u32), ucast (ucast v :: u32))
      else if data_size = 2 then Some (bytes_of_word 2 (ucast v :: u16), ucast (ucast v :: u16))
      else if data_size = 1 then Some (bytes_of_word 1 (ucast v :: byte), ucast (ucast v :: byte))
      else None)"

text \<open>The value is stored also when it is found to be too large afterwards.\<close>

definition store_clamped :: "dstate \<Rightarrow> addr \<Rightarrow> u64 \<Rightarrow> (byte list \<times> u64) option \<Rightarrow> bool \<times> dstate" where
  "store_clamped st dest v r =
     (case st of (s, h) \<Rightarrow>
        (case r of
          None \<Rightarrow> d_error (s, h) ''invalid data_size''
        | Some (bs, clamped) \<Rightarrow>
            if clamped \<noteq> v then d_error (s, h_store dest bs h) ''integer too large''
            else (True, s, h_store dest bs h)))"

definition pb_dec_varint :: pb_decoder_t where
  "pb_dec_varint st field dest =
     (case st of (s, h) \<Rightarrow>
        (case pb_decode_varint s of
          (None, s) \<Rightarrow> (False, s, h)
        | (Some v, s) \<Rightarrow>
            let svalue :: u64 = (if f_data_size field = 8 then v else scast (ucast v :: u32))
            in store_clamped (s, h) dest svalue (clamp_int (f_data_size field) svalue)))"

definition pb_dec_uvarint :: pb_decoder_t where
  "pb_dec_uvarint st field dest =
     (case st of (s, h) \<Rightarrow>
        (case pb_decode_varint s of
          (None, s) \<Rightarrow> (False, s, h)
        | (Some v, s) \<Rightarrow> store_clamped (s, h) dest v (clamp_uint (f_data_size field) v)))"

definition pb_dec_svarint :: pb_decoder_t where
  "pb_dec_svarint st field dest =
     (case st of (s, h) \<Rightarrow>
        (case pb_decode_svarint s of
          (None, s) \<Rightarrow> (False, s, h)
        | (Some v, s) \<Rightarrow> store_clamped (s, h) dest v (clamp_int (f_data_size field) v)))"

definition pb_dec_fixed32 :: pb_decoder_t where
  "pb_dec_fixed32 st field dest =
     (case st of (s, h) \<Rightarrow>
        (case pb_decode_fixed32 s of
          (None, s) \<Rightarrow> (False, s, h)
        | (Some v, s) \<Rightarrow> (True, s, h_store dest (bytes_of_word 4 v) h)))"

definition pb_dec_fixed64 :: pb_decoder_t where
  "pb_dec_fixed64 st field dest =
     (case st of (s, h) \<Rightarrow>
        (case pb_decode_fixed64 s of
          (None, s) \<Rightarrow> (False, s, h)
        | (Some v, s) \<Rightarrow> (True, s, h_store dest (bytes_of_word 8 v) h)))"

text \<open>\<^verbatim>\<open>pb_read(stream, dest, count)\<close>: what is read goes to memory.\<close>

definition read_to :: "dstate \<Rightarrow> addr \<Rightarrow> size_t \<Rightarrow> bool \<times> dstate" where
  "read_to st dest count =
     (case st of (s, h) \<Rightarrow> case pb_read_buf s count of (ok, bs, s) \<Rightarrow> (ok, s, h_store dest bs h))"

definition pb_dec_bytes :: "dec_env \<Rightarrow> pb_decoder_t" where
  "pb_dec_bytes env st field dest =
     (case st of (s, h) \<Rightarrow>
        (case pb_decode_varint32 s of
          (None, s) \<Rightarrow> (False, s, h)
        | (Some sz, s) \<Rightarrow>
            let alloc_size = PB_BYTES_ARRAY_T_ALLOCSIZE (ucast sz);
                fill = (\<lambda>bdest (s, h).
                  read_to (s, h_store bdest (bytes_of_word 4 sz) h) (bytes_bytes bdest) (ucast sz))
            in
            if sz > PB_SIZE_MAX then d_error (s, h) ''bytes overflow''
            else if ucast sz > alloc_size then d_error (s, h) ''size too large''
            else if PB_ATYPE (f_type field) = PB_ATYPE_POINTER then
              c_then (allocate_field env (s, h) dest alloc_size 1)
                (\<lambda>(s, h). fill (h_load_ptr h dest) (s, h))
            else if alloc_size > ucast (f_data_size field) then d_error (s, h) ''bytes overflow''
            else fill dest (s, h)))"

text \<open>\<open>alloc_size = size + 1\<close> is computed in 32 bits before it is widened.\<close>

definition pb_dec_string :: "dec_env \<Rightarrow> pb_decoder_t" where
  "pb_dec_string env st field dest =
     (case st of (s, h) \<Rightarrow>
        (case pb_decode_varint32 s of
          (None, s) \<Rightarrow> (False, s, h)
        | (Some sz, s) \<Rightarrow>
            let alloc_size :: size_t = ucast (sz + 1);
                fill = (\<lambda>dest (s, h).
                  case read_to (s, h) dest (ucast sz) of (status, s, h) \<Rightarrow>
                    (status, s, h_store (dest + ucast sz) [0] h))
            in
            if alloc_size < ucast sz then d_error (s, h) ''size too large''
            else if PB_ATYPE (f_type field) = PB_ATYPE_POINTER then
              c_then (allocate_field env (s, h) dest alloc_size 1)
                (\<lambda>(s, h). fill (h_load_ptr h dest) (s, h))
            else if alloc_size > ucast (f_data_size field) then d_error (s, h) ''string overflow''
            else fill dest (s, h)))"

definition pb_dec_submessage :: "submsg_decoder \<Rightarrow> pb_decoder_t" where
  "pb_dec_submessage dec st field dest =
     (case st of (s, h) \<Rightarrow>
        (case pb_make_string_substream s of
          (None, s) \<Rightarrow> (False, s, h)
        | (Some substream, s) \<Rightarrow>
            (case f_ptr field of
               PtrNull \<Rightarrow> d_error (s, h) ''invalid field descriptor''
             | PtrData _ \<Rightarrow> d_error (s, h) ''undefined behaviour''
             | PtrFields fds \<Rightarrow>
                 (case dec (PB_HTYPE (f_type field) = PB_HTYPE_REPEATED) fds dest (substream, h) of
                    (status, substream, h) \<Rightarrow>
                      (case pb_close_string_substream s substream of (ok, s) \<Rightarrow>
                         if \<not> ok then (False, s, h) else (status, s, h))))))"

definition pb_dec_fixed_length_bytes :: pb_decoder_t where
  "pb_dec_fixed_length_bytes st field dest =
     (case st of (s, h) \<Rightarrow>
        (case pb_decode_varint32 s of
          (None, s) \<Rightarrow> (False, s, h)
        | (Some sz, s) \<Rightarrow>
            if sz > PB_SIZE_MAX then d_error (s, h) ''bytes overflow''
            else if sz = 0 then (True, s, h_store dest (replicate (unat (f_data_size field)) 0) h)
            else if sz \<noteq> f_data_size field then d_error (s, h) ''incorrect fixed length bytes size''
            else read_to (s, h) dest (ucast (f_data_size field))))"

definition PB_DECODERS :: "dec_env \<Rightarrow> submsg_decoder \<Rightarrow> pb_decoder_t option list" where
  "PB_DECODERS env dec =
     [Some pb_dec_bool, Some pb_dec_varint, Some pb_dec_uvarint, Some pb_dec_svarint,
      Some pb_dec_fixed32, Some pb_dec_fixed64,
      Some (pb_dec_bytes env), Some (pb_dec_string env), Some (pb_dec_submessage dec),
      None,
      Some pb_dec_fixed_length_bytes]"

definition decoder_func :: "dec_env \<Rightarrow> submsg_decoder \<Rightarrow> pb_field_t \<Rightarrow> pb_decoder_t" where
  "decoder_func env dec field =
     (let i = unat (PB_LTYPE (f_type field)) in
      if i < length (PB_DECODERS env dec) then
        case PB_DECODERS env dec ! i of
          Some func \<Rightarrow> func
        | None \<Rightarrow> (\<lambda>st f dest. d_error st ''undefined behaviour'')
      else (\<lambda>st f dest. d_error st ''undefined behaviour''))"

section \<open>Walks without a result\<close>

text \<open>
  The loops of the \<^verbatim>\<open>void\<close> functions: over the fields of a message, over the items of an
  array, and along a list of extensions (whose \<open>next\<close> pointer is read after the body).
\<close>

definition for_each_field ::
  "(pb_field_iter_t \<Rightarrow> heap \<Rightarrow> heap) \<Rightarrow> pb_field_t list \<Rightarrow> addr \<Rightarrow> heap \<Rightarrow> heap" where
  "for_each_field body fds dest_struct h =
     (case pb_field_iter_begin fds dest_struct of (ok, iter) \<Rightarrow>
        if \<not> ok then h else snd (iter_loop (\<lambda>it h. (True, body it h)) iter h))"

lemma for_each_field_cong [fundef_cong]:
  assumes "fds = fds'" "a = a'" "h = h'"
    and "\<And>it t. it_start it = fds' \<Longrightarrow> body it t = body' it t"
  shows "for_each_field body fds a h = for_each_field body' fds' a' h'"
proof -
  have "iter_loop (\<lambda>it h. (True, body it h)) (iter_at fds' a' 0) h' =
    iter_loop (\<lambda>it h. (True, body' it h)) (iter_at fds' a' 0) h'"
    by (rule iter_loop_cong) (simp_all add: assms(4))
  then show ?thesis
    by (simp add: for_each_field_def iter_begin_at assms(1-3))
qed

fun for_each_item :: "(addr \<Rightarrow> heap \<Rightarrow> heap) \<Rightarrow> addr \<Rightarrow> nat \<Rightarrow> addr \<Rightarrow> heap \<Rightarrow> heap" where
  "for_each_item body step 0 p h = h"
| "for_each_item body step (Suc n) p h = for_each_item body step n (p + step) (body p h)"

lemma for_each_item_cong [fundef_cong]:
  assumes "step = step'" "n = n'" "p = p'" "h = h'" "\<And>q t. body q t = body' q t"
  shows "for_each_item body step n p h = for_each_item body' step' n' p' h'"
proof -
  have "body = body'" by (intro ext assms(5))
  with assms show ?thesis by simp
qed

fun for_each_extension :: "(addr \<Rightarrow> heap \<Rightarrow> heap) \<Rightarrow> nat \<Rightarrow> addr \<Rightarrow> heap \<Rightarrow> heap" where
  "for_each_extension body 0 ext h = (if ext = NULL then h else h\<lparr>hp_ext_bound := True\<rparr>)"
| "for_each_extension body (Suc n) ext h =
     (if ext = NULL then h
      else let h = body ext h in for_each_extension body n (ext_next (hp_mem h) ext) h)"

lemma for_each_extension_cong [fundef_cong]:
  assumes "n = n'" "p = p'" "h = h'" "\<And>q t. body q t = body' q t"
  shows "for_each_extension body n p h = for_each_extension body' n' p' h'"
proof -
  have "body = body'" by (intro ext assms(4))
  with assms show ?thesis by simp
qed

section \<open>Default values\<close>

text \<open>
  The iterator that \<open>iter_from_extension\<close> fakes for an extension: its array is the single
  descriptor in \<open>type->arg\<close>.
\<close>

definition iter_from_extension :: "dec_env \<Rightarrow> heap \<Rightarrow> addr \<Rightarrow> pb_field_iter_t" where
  "iter_from_extension env h extension =
     (let field = dt_arg (de_ext_type env (ext_type (hp_mem h) extension));
          dest = h_load_ptr h (ext_dest extension);
          iter = (snd (pb_field_iter_begin [field] dest))
                   \<lparr>it_pData := dest, it_pSize := PS_mem (ext_found extension)\<rparr>
      in if PB_ATYPE (f_type field) = PB_ATYPE_POINTER
         then iter\<lparr>it_pData := ext_dest extension\<rparr> else iter)"

text \<open>\<^verbatim>\<open>iter->pSize != iter->pData\<close>.\<close>

definition psize_is_data :: "pb_field_iter_t \<Rightarrow> bool" where
  "psize_is_data it \<longleftrightarrow> it_pSize it = PS_mem (it_pData it)"

text \<open>\<open>memset(p, 0, n)\<close> and \<open>memcpy(p, default, n)\<close>, where \<open>default\<close> is the descriptor's \<open>ptr\<close>.\<close>

definition h_zero :: "addr \<Rightarrow> pb_size_t \<Rightarrow> heap \<Rightarrow> heap" where
  "h_zero p n h = h_store p (replicate (unat n) 0) h"

function pb_field_set_to_default :: "dec_env \<Rightarrow> pb_field_iter_t \<Rightarrow> heap \<Rightarrow> heap" where
  "pb_field_set_to_default env iter h =
     (let type = f_type (it_field iter); htype = PB_HTYPE type in
      if PB_LTYPE type = PB_LTYPE_EXTENSION then
        for_each_extension (\<lambda>ext h.
          let h = h_store (ext_found ext) [0] h in
          if de_ext_depth env = 0 then h\<lparr>hp_ext_bound := True\<rparr>
          else pb_field_set_to_default (env\<lparr>de_ext_depth := de_ext_depth env - 1\<rparr>)
                 (iter_from_extension env h ext) h)
          (de_ext_chain env) (h_load_ptr h (it_pData iter)) h
      else if PB_ATYPE type = PB_ATYPE_STATIC then
        if htype = PB_HTYPE_REPEATED \<or> htype = PB_HTYPE_ONEOF then set_size (it_pSize iter) 0 h
        else
          let h = (if htype = PB_HTYPE_OPTIONAL \<and> \<not> psize_is_data iter
                   then set_bool (it_pSize iter) False h else h)
          in if PB_LTYPE type = PB_LTYPE_SUBMESSAGE then
               (case f_ptr (it_field iter) of
                  PtrFields fs \<Rightarrow>
                    for_each_field (\<lambda>it h. pb_field_set_to_default env it h) fs (it_pData iter) h
                | _ \<Rightarrow> h)
             else
               (case f_ptr (it_field iter) of
                  PtrData bs \<Rightarrow> h_store (it_pData iter) (take (unat (f_data_size (it_field iter))) bs) h
                | _ \<Rightarrow> h_zero (it_pData iter) (f_data_size (it_field iter)) h)
      else if PB_ATYPE type = PB_ATYPE_POINTER then
        let h = h_store_ptr (it_pData iter) NULL h in
        if htype = PB_HTYPE_REPEATED \<or> htype = PB_HTYPE_ONEOF then set_size (it_pSize iter) 0 h else h
      else h)"
  by pat_completeness auto
termination
  by (relation "measures [\<lambda>(env, it, h). de_ext_depth env, \<lambda>(env, it, h). size (it_field it)]")
    (auto intro: size_submsg_field_at)

declare pb_field_set_to_default.simps [simp del]

definition pb_message_set_to_defaults :: "dec_env \<Rightarrow> pb_field_t list \<Rightarrow> addr \<Rightarrow> heap \<Rightarrow> heap" where
  "pb_message_set_to_defaults env fds dest_struct h =
     for_each_field (pb_field_set_to_default env) fds dest_struct h"

text \<open>The call with the \<open>ptr\<close> of a submessage field, which must be a field array.\<close>

definition submsg_set_to_defaults :: "dec_env \<Rightarrow> pb_field_t \<Rightarrow> addr \<Rightarrow> heap \<Rightarrow> heap" where
  "submsg_set_to_defaults env field p h =
     (case f_ptr field of PtrFields fs \<Rightarrow> pb_message_set_to_defaults env fs p h | _ \<Rightarrow> h)"

definition initialize_pointer_field :: "dec_env \<Rightarrow> addr \<Rightarrow> pb_field_iter_t \<Rightarrow> heap \<Rightarrow> heap" where
  "initialize_pointer_field env pItem iter h =
     (let field = it_field iter; ltype = PB_LTYPE (f_type field) in
      if ltype = PB_LTYPE_STRING \<or> ltype = PB_LTYPE_BYTES then h_store_ptr pItem NULL h
      else if ltype = PB_LTYPE_SUBMESSAGE
      then submsg_set_to_defaults env field pItem (h_zero pItem (f_data_size field) h)
      else h)"

section \<open>Release\<close>

text \<open>
  \<open>pb_release_single_field\<close>: the number of items in a submessage field, the release of the
  strings of a repeated field, and the field itself.
\<close>

definition release_count :: "pb_field_iter_t \<Rightarrow> heap \<Rightarrow> pb_size_t" where
  "release_count iter h =
     (let field = it_field iter; type = f_type field; static = (PB_ATYPE type = PB_ATYPE_STATIC) in
      if PB_HTYPE type = PB_HTYPE_REPEATED then
        let count = (if static \<and> psize_is_data iter then f_array_size field else get_size h (it_pSize iter))
        in if static \<and> count > f_array_size field then f_array_size field else count
      else 1)"

definition release_pointer :: "pb_field_iter_t \<Rightarrow> heap \<Rightarrow> heap" where
  "release_pointer iter h =
     (let type = f_type (it_field iter);
          repeated = (PB_HTYPE type = PB_HTYPE_REPEATED);
          h = (if repeated \<and> (PB_LTYPE type = PB_LTYPE_STRING \<or> PB_LTYPE type = PB_LTYPE_BYTES)
               then for_each_item (\<lambda>pItem h. h_store_ptr pItem NULL (pb_free (h_load_ptr h pItem) h))
                      8 (unat (get_size h (it_pSize iter))) (h_load_ptr h (it_pData iter)) h
               else h);
          h = (if repeated then set_size (it_pSize iter) 0 h else h)
      in h_store_ptr (it_pData iter) NULL (pb_free (h_load_ptr h (it_pData iter)) h))"

function pb_release_single_field :: "dec_env \<Rightarrow> pb_field_iter_t \<Rightarrow> heap \<Rightarrow> heap" where
  "pb_release_single_field env iter h =
     (let type = f_type (it_field iter) in
      if PB_HTYPE type = PB_HTYPE_ONEOF \<and> get_size h (it_pSize iter) \<noteq> f_tag (it_field iter) then h
      else
        let h =
          (if PB_LTYPE type = PB_LTYPE_EXTENSION then
             for_each_extension (\<lambda>ext h.
               if de_ext_depth env = 0 then h\<lparr>hp_ext_bound := True\<rparr>
               else pb_release_single_field (env\<lparr>de_ext_depth := de_ext_depth env - 1\<rparr>)
                      (iter_from_extension env h ext) h)
               (de_ext_chain env) (h_load_ptr h (it_pData iter)) h
           else if PB_LTYPE type = PB_LTYPE_SUBMESSAGE \<and> PB_ATYPE type \<noteq> PB_ATYPE_CALLBACK then
             let pItem = (if PB_ATYPE type = PB_ATYPE_POINTER
                          then h_load_ptr h (it_pData iter) else it_pData iter)
             in if pItem \<noteq> NULL then
                  (case f_ptr (it_field iter) of
                     PtrFields fs \<Rightarrow>
                       for_each_item (\<lambda>pItem h.
                         if pItem = NULL then h
                         else for_each_field (\<lambda>it h. pb_release_single_field env it h) fs pItem h)
                         (ucast (f_data_size (it_field iter))) (unat (release_count iter h)) pItem h
                   | _ \<Rightarrow> h)
                else h
           else h)
        in if PB_ATYPE type = PB_ATYPE_POINTER then release_pointer iter h else h)"
  by pat_completeness auto
termination
  by (relation "measures [\<lambda>(env, it, h). de_ext_depth env, \<lambda>(env, it, h). size (it_field it)]")
    (auto intro: size_submsg_field_at)

declare pb_release_single_field.simps [simp del]

definition pb_release :: "dec_env \<Rightarrow> pb_field_t list \<Rightarrow> addr \<Rightarrow> heap \<Rightarrow> heap" where
  "pb_release env fds dest_struct h =
     (if dest_struct = NULL then h
      else for_each_field (pb_release_single_field env) fds dest_struct h)"

definition pb_release_union_field ::
  "dec_env \<Rightarrow> dstate \<Rightarrow> pb_field_iter_t \<Rightarrow> bool \<times> dstate \<times> pb_field_iter_t" where
  "pb_release_union_field env st iter =
     (case st of (s, h) \<Rightarrow>
        let old_tag = get_size h (it_pSize iter); new_tag = f_tag (it_field iter) in
        if old_tag = 0 \<or> old_tag = new_tag then (True, (s, h), iter)
        else (case pb_field_iter_find iter old_tag of (ok, iter) \<Rightarrow>
          if \<not> ok then (False, (is_set_error s ''invalid union tag'', h), iter)
          else
            let h = pb_release_single_field env iter h in
            (case pb_field_iter_find iter new_tag of (ok, iter) \<Rightarrow>
               if \<not> ok then (False, (is_set_error s ''iterator error'', h), iter)
               else (True, (s, h), iter))))"

section \<open>Decoding a field\<close>

text \<open>\<^verbatim>\<open>(char*)base + iter->pos->data_size * (*size)\<close>: the product is one of 32-bit integers.\<close>

definition item_at :: "addr \<Rightarrow> pb_field_t \<Rightarrow> pb_size_t \<Rightarrow> addr" where
  "item_at base field n = base + ucast (f_data_size field * n)"

definition is_packed :: "pb_wire_type_t \<Rightarrow> pb_field_t \<Rightarrow> bool" where
  "is_packed wire_type field \<longleftrightarrow>
     wire_type = PB_WT_STRING \<and> PB_LTYPE (f_type field) \<le> PB_LTYPE_LAST_PACKABLE"

definition static_packed_loop ::
  "pb_decoder_t \<Rightarrow> pb_field_iter_t \<Rightarrow> dstate \<Rightarrow> bool \<times> dstate" where
  "static_packed_loop func iter st =
     stream_loop fst (\<lambda>(substream, h).
       let n = get_size h (it_pSize iter) in
       if is_bytes_left substream > 0 \<and> n < f_array_size (it_field iter) then
         case func (substream, h) (it_field iter) (item_at (it_pData iter) (it_field iter) n) of
           (ok, substream, h) \<Rightarrow>
             if \<not> ok then Stop False (substream, h)
             else Next (substream, set_size (it_pSize iter) (get_size h (it_pSize iter) + 1) h)
       else Stop True (substream, h)) st"

definition decode_static_field ::
  "dec_env \<Rightarrow> submsg_decoder \<Rightarrow> dstate \<Rightarrow> pb_wire_type_t \<Rightarrow> pb_field_iter_t \<Rightarrow> bool \<times> dstate" where
  "decode_static_field env dec st wire_type iter =
     (case st of (s, h) \<Rightarrow>
        let field = it_field iter; type = f_type field; func = decoder_func env dec field;
            htype = PB_HTYPE type; pData = it_pData iter; pSize = it_pSize iter
        in
        if htype = PB_HTYPE_REQUIRED then func (s, h) field pData
        else if htype = PB_HTYPE_OPTIONAL then
          func (s, if psize_is_data iter then h else set_bool pSize True h) field pData
        else if htype = PB_HTYPE_REPEATED then
          if is_packed wire_type field then
            (case pb_make_string_substream s of
               (None, s) \<Rightarrow> (False, s, h)
             | (Some substream, s) \<Rightarrow>
                 (case static_packed_loop func iter (substream, h) of (status, substream, h) \<Rightarrow>
                    if is_bytes_left substream \<noteq> 0 then d_error (s, h) ''array overflow''
                    else (case pb_close_string_substream s substream of (ok, s) \<Rightarrow>
                      if \<not> ok then (False, s, h) else (status, s, h))))
          else
            let n = get_size h pSize; h = set_size pSize (n + 1) h in
            if n \<ge> f_array_size field then d_error (s, h) ''array overflow''
            else func (s, h) field (item_at pData field n)
        else if htype = PB_HTYPE_ONEOF then
          let h = (if PB_LTYPE type = PB_LTYPE_SUBMESSAGE \<and> get_size h pSize \<noteq> f_tag field
                   then submsg_set_to_defaults env field pData (h_zero pData (f_data_size field) h)
                   else h)
          in func (s, set_size pSize (f_tag field) h) field pData
        else d_error (s, h) ''invalid field type'')"

text \<open>
  The loop over a packed array in dynamic memory. The parent stream is part of the state
  because the error \<open>too many array entries\<close> is reported there.
\<close>

definition more_storage :: "size_t \<Rightarrow> pb_size_t \<Rightarrow> size_t \<Rightarrow> size_t" where
  "more_storage bytes_left data_size allocated_size =
     (let remain = (bytes_left - 1) div ucast data_size + 1 in
      if remain < ucast PB_SIZE_MAX - allocated_size then allocated_size + remain
      else allocated_size + 1)"

definition pointer_packed_loop ::
  "dec_env \<Rightarrow> pb_decoder_t \<Rightarrow> pb_field_iter_t \<Rightarrow> (pb_istream_t \<times> size_t) \<times> dstate \<Rightarrow>
   bool \<times> (pb_istream_t \<times> size_t) \<times> dstate" where
  "pointer_packed_loop env func iter st =
     stream_loop (\<lambda>(_, substream, _). substream) (\<lambda>((s, allocated_size), (substream, h)).
       let field = it_field iter; n = get_size h (it_pSize iter) in
       if is_bytes_left substream = 0 then Stop True ((s, allocated_size), (substream, h))
       else if n = PB_SIZE_MAX then
         Stop False ((s\<lparr>is_errmsg := Some ''too many array entries''\<rparr>, allocated_size), (substream, h))
       else
         let grow = ucast n + 1 > allocated_size;
             allocated_size = (if grow then more_storage (is_bytes_left substream) (f_data_size field) allocated_size
                               else allocated_size)
         in
         case (if grow then allocate_field env (substream, h) (it_pData iter) (ucast (f_data_size field)) allocated_size
               else (True, substream, h)) of
           (ok, substream, h) \<Rightarrow>
             if \<not> ok then Stop False ((s, allocated_size), (substream, h))
             else
               let pItem = item_at (h_load_ptr h (it_pData iter)) field (get_size h (it_pSize iter));
                   h = initialize_pointer_field env pItem iter h
               in case func (substream, h) field pItem of
                    (ok, substream, h) \<Rightarrow>
                      if \<not> ok then Stop False ((s, allocated_size), (substream, h))
                      else Next ((s, allocated_size),
                             (substream, set_size (it_pSize iter) (get_size h (it_pSize iter) + 1) h))) st"

definition decode_pointer_field ::
  "dec_env \<Rightarrow> submsg_decoder \<Rightarrow> dstate \<Rightarrow> pb_wire_type_t \<Rightarrow> pb_field_iter_t \<Rightarrow> bool \<times> dstate" where
  "decode_pointer_field env dec st wire_type iter =
     (case st of (s, h) \<Rightarrow>
        let field = it_field iter; type = f_type field; func = decoder_func env dec field;
            htype = PB_HTYPE type; ltype = PB_LTYPE type; pData = it_pData iter; pSize = it_pSize iter
        in
        if htype = PB_HTYPE_REQUIRED \<or> htype = PB_HTYPE_OPTIONAL \<or> htype = PB_HTYPE_ONEOF then
          let h = (if ltype = PB_LTYPE_SUBMESSAGE \<and> h_load_ptr h pData \<noteq> NULL
                   then pb_release_single_field env iter h else h);
              h = (if htype = PB_HTYPE_ONEOF then set_size pSize (f_tag field) h else h)
          in if ltype = PB_LTYPE_STRING \<or> ltype = PB_LTYPE_BYTES then func (s, h) field pData
             else c_then (allocate_field env (s, h) pData (ucast (f_data_size field)) 1) (\<lambda>(s, h).
                    let h = initialize_pointer_field env (h_load_ptr h pData) iter h
                    in func (s, h) field (h_load_ptr h pData))
        else if htype = PB_HTYPE_REPEATED then
          if is_packed wire_type field then
            (case pb_make_string_substream s of
               (None, s) \<Rightarrow> (False, s, h)
             | (Some substream, s) \<Rightarrow>
                 (case pointer_packed_loop env func iter ((s, ucast (get_size h pSize)), (substream, h)) of
                    (status, (s, _), (substream, h)) \<Rightarrow>
                      (case pb_close_string_substream s substream of (ok, s) \<Rightarrow>
                         if \<not> ok then (False, s, h) else (status, s, h))))
          else
            let n = get_size h pSize in
            if n = PB_SIZE_MAX then d_error (s, h) ''too many array entries''
            else c_then (allocate_field env (s, h) pData (ucast (f_data_size field)) (ucast (n + 1))) (\<lambda>(s, h).
                   let pItem = item_at (h_load_ptr h pData) field (get_size h pSize);
                       h = set_size pSize (get_size h pSize + 1) h;
                       h = initialize_pointer_field env pItem iter h
                   in func (s, h) field pItem)
        else d_error (s, h) ''invalid field type'')"

text \<open>
  The callback is called until the value is used up; a callback that succeeds without
  reading is asked again for ever by the program, and fails here (\<open>stream_loop\<close>). For a
  scalar its bytes are copied and the callback reads the copy.
\<close>

definition decode_callback_field ::
  "dec_env \<Rightarrow> dstate \<Rightarrow> pb_wire_type_t \<Rightarrow> pb_field_iter_t \<Rightarrow> bool \<times> dstate" where
  "decode_callback_field env st wire_type iter =
     (case st of (s, h) \<Rightarrow>
        let field = it_field iter; pCallback = it_pData iter;
            arg = callback_arg pCallback
        in
        if pCallback = NULL \<or> callback_funcs (hp_mem h) pCallback = NULL then
          (case pb_skip_field s wire_type of (ok, s) \<Rightarrow> (ok, s, h))
        else if wire_type = PB_WT_STRING then
          (case pb_make_string_substream s of
             (None, s) \<Rightarrow> (False, s, h)
           | (Some substream, s) \<Rightarrow>
               (case stream_loop fst (\<lambda>(substream, h).
                       case de_callback env (callback_funcs (hp_mem h) pCallback) (substream, h) field arg of
                         (ok, st) \<Rightarrow>
                           if \<not> ok then Stop False st
                           else if is_bytes_left (fst st) \<noteq> 0 then Next st
                           else Stop True st) (substream, h) of
                  (ok, substream, h) \<Rightarrow>
                    if \<not> ok then d_error (s, h) ''callback failed''
                    else (case pb_close_string_substream s substream of (ok, s) \<Rightarrow> (ok, s, h))))
        else
          (case read_raw_value s wire_type 10 of
             (None, s) \<Rightarrow> (False, s, h)
           | (Some buffer, s) \<Rightarrow>
               (case de_callback env (callback_funcs (hp_mem h) pCallback)
                       (pb_istream_from_buffer buffer (of_nat (length buffer)), h) field arg of
                  (ok, _, h) \<Rightarrow> (ok, s, h))))"

definition decode_field ::
  "dec_env \<Rightarrow> submsg_decoder \<Rightarrow> dstate \<Rightarrow> pb_wire_type_t \<Rightarrow> pb_field_iter_t \<Rightarrow>
   bool \<times> dstate \<times> pb_field_iter_t" where
  "decode_field env dec st wire_type iter =
     (case (if PB_HTYPE (f_type (it_field iter)) = PB_HTYPE_ONEOF
            then pb_release_union_field env st iter else (True, st, iter)) of
        (ok, st, iter) \<Rightarrow>
          if \<not> ok then (False, st, iter)
          else
            let atype = PB_ATYPE (f_type (it_field iter)) in
            (case (if atype = PB_ATYPE_STATIC then decode_static_field env dec st wire_type iter
                   else if atype = PB_ATYPE_POINTER then decode_pointer_field env dec st wire_type iter
                   else if atype = PB_ATYPE_CALLBACK then decode_callback_field env st wire_type iter
                   else d_error st ''invalid field type'') of
               (ok, st) \<Rightarrow> (ok, st, iter)))"

text \<open>Submessages are decoded only with the descriptors of the array that the iterator walks.\<close>

lemma decoder_func_cong:
  assumes "\<And>b fs a t. f_ptr field = PtrFields fs \<Longrightarrow> dec b fs a t = dec' b fs a t"
  shows "decoder_func env dec field st field dest = decoder_func env dec' field st field dest"
proof -
  have "pb_dec_submessage dec st field dest = pb_dec_submessage dec' st field dest"
  proof (cases "f_ptr field")
    case (PtrFields fs)
    have eq: "dec b fs a t = dec' b fs a t" for b a t
      by (rule assms [OF PtrFields])
    show ?thesis
      unfolding pb_dec_submessage_def PtrFields pb_ptr.case eq by (rule refl)
  next
    case PtrNull
    show ?thesis unfolding pb_dec_submessage_def PtrNull pb_ptr.case by (rule refl)
  next
    case (PtrData bs)
    show ?thesis unfolding pb_dec_submessage_def PtrData pb_ptr.case by (rule refl)
  qed
  then show ?thesis
    by (simp add: decoder_func_def PB_DECODERS_def Let_def nth_Cons split: nat.split)
qed

lemma find_loop_start [simp]: "it_start (snd (find_loop p i n iter)) = it_start iter"
  by (induction p i n iter rule: find_loop.induct) (simp_all add: Let_def)

lemma iter_find_start:
  assumes "pb_field_iter_find iter tag = (ok, iter')"
  shows "it_start iter' = it_start iter"
proof -
  have "it_start (snd (pb_field_iter_find iter tag)) = it_start iter"
    unfolding pb_field_iter_find_def by (rule find_loop_start)
  then show ?thesis by (simp add: assms)
qed

lemma release_union_start:
  "pb_release_union_field env st iter = (ok, st', iter') \<Longrightarrow> it_start iter' = it_start iter"
  by (simp add: pb_release_union_field_def Let_def split: prod.splits if_splits)
    (metis iter_find_start)+

lemma decode_field_start:
  "decode_field env dec st wire_type iter = (ok, st', iter') \<Longrightarrow> it_start iter' = it_start iter"
  by (auto simp: decode_field_def Let_def dest: release_union_start split: prod.splits if_splits)

lemma decode_static_pointer_cong:
  assumes "\<And>b fs a t. f_ptr (it_field iter) = PtrFields fs \<Longrightarrow> dec b fs a t = dec' b fs a t"
  shows "decode_static_field env dec st wire_type iter = decode_static_field env dec' st wire_type iter"
    and "decode_pointer_field env dec st wire_type iter = decode_pointer_field env dec' st wire_type iter"
proof -
  have f: "decoder_func env dec (it_field iter) t (it_field iter) p =
    decoder_func env dec' (it_field iter) t (it_field iter) p" for t p
    by (rule decoder_func_cong) (rule assms)
  show "decode_static_field env dec st wire_type iter = decode_static_field env dec' st wire_type iter"
    unfolding decode_static_field_def static_packed_loop_def Let_def f by (rule refl)
  show "decode_pointer_field env dec st wire_type iter = decode_pointer_field env dec' st wire_type iter"
    unfolding decode_pointer_field_def pointer_packed_loop_def Let_def f by (rule refl)
qed

lemma decode_field_cong:
  assumes "\<And>i b fs a t. f_ptr (field_at (it_start iter) i) = PtrFields fs \<Longrightarrow> dec b fs a t = dec' b fs a t"
  shows "decode_field env dec st wire_type iter = decode_field env dec' st wire_type iter"
proof -
  have eq: "decode_static_field env dec t wire_type it = decode_static_field env dec' t wire_type it"
    "decode_pointer_field env dec t wire_type it = decode_pointer_field env dec' t wire_type it"
    if "it_start it = it_start iter" for it t
    by (rule decode_static_pointer_cong; rule assms; simp add: that)+
  show ?thesis
    unfolding decode_field_def Let_def
    by (auto simp: eq release_union_start split: prod.split)
qed

section \<open>Extensions\<close>

definition default_extension_decoder ::
  "dec_env \<Rightarrow> submsg_decoder \<Rightarrow> dstate \<Rightarrow> addr \<Rightarrow> u32 \<Rightarrow> pb_wire_type_t \<Rightarrow> bool \<times> dstate" where
  "default_extension_decoder env dec st extension tag wire_type =
     (case st of (s, h) \<Rightarrow>
        let field = dt_arg (de_ext_type env (ext_type (hp_mem h) extension)) in
        if f_tag field \<noteq> tag then (True, s, h)
        else
          (case decode_field env dec (s, h_store (ext_found extension) [1] h) wire_type
                  (iter_from_extension env h extension) of
             (ok, st, _) \<Rightarrow> (ok, st)))"

text \<open>The list is followed until an extension consumes input.\<close>

fun extension_decode_loop ::
  "dec_env \<Rightarrow> submsg_decoder \<Rightarrow> u32 \<Rightarrow> pb_wire_type_t \<Rightarrow> size_t \<Rightarrow> nat \<Rightarrow> addr \<Rightarrow> dstate \<Rightarrow>
   bool \<times> dstate" where
  "extension_decode_loop env dec tag wire_type pos 0 extension st =
     (if extension \<noteq> NULL \<and> pos = is_bytes_left (fst st)
      then (False, fst st, (snd st)\<lparr>hp_ext_bound := True\<rparr>) else (True, st))"
| "extension_decode_loop env dec tag wire_type pos (Suc n) extension st =
     (if extension \<noteq> NULL \<and> pos = is_bytes_left (fst st) then
        c_then
          (case dt_decode (de_ext_type env (ext_type (hp_mem (snd st)) extension)) of
             Some decode \<Rightarrow> decode st extension tag wire_type
           | None \<Rightarrow> default_extension_decoder env dec st extension tag wire_type)
          (\<lambda>st. extension_decode_loop env dec tag wire_type pos n
                  (ext_next (hp_mem (snd st)) extension) st)
      else (True, st))"

definition decode_extension ::
  "dec_env \<Rightarrow> submsg_decoder \<Rightarrow> dstate \<Rightarrow> u32 \<Rightarrow> pb_wire_type_t \<Rightarrow> pb_field_iter_t \<Rightarrow> bool \<times> dstate" where
  "decode_extension env dec st tag wire_type iter =
     extension_decode_loop env dec tag wire_type (is_bytes_left (fst st)) (de_ext_chain env)
       (h_load_ptr (snd st) (it_pData iter)) st"

definition find_extension_field :: "pb_field_iter_t \<Rightarrow> bool \<times> pb_field_iter_t" where
  "find_extension_field iter =
     find_loop (\<lambda>pos. PB_LTYPE (f_type pos) = PB_LTYPE_EXTENSION)
       (it_pos iter) (Suc (length (it_start iter))) iter"

section \<open>Messages\<close>

text \<open>
  The local variables of \<open>pb_decode_noinit\<close>. \<open>fixed_count_field\<close> is a position in the
  field array; \<open>fixed_count_size\<close> is in the heap record, because the iterator may point
  at it.
\<close>

record noinit_t =
  ni_st :: dstate
  ni_iter :: pb_field_iter_t
  ni_fields_seen :: "u32 list"
  ni_extension_range_start :: u32
  ni_fixed_count_field :: "nat option"

text \<open>A tag that no field has: an extension, or data to skip.\<close>

definition decode_unknown ::
  "dec_env \<Rightarrow> submsg_decoder \<Rightarrow> u32 \<Rightarrow> pb_wire_type_t \<Rightarrow> noinit_t \<Rightarrow> noinit_t loop_step" where
  "decode_unknown env ext_dec tag wire_type v =
     (let skip = (\<lambda>v. case ni_st v of (s, h) \<Rightarrow>
             (case pb_skip_field s wire_type of (ok, s) \<Rightarrow>
                let v = v\<lparr>ni_st := (s, h)\<rparr> in if \<not> ok then Stop False v else Next v))
      in
      if tag \<ge> ni_extension_range_start v then
        case find_extension_field (ni_iter v) of (found, iter) \<Rightarrow>
          let start = (if \<not> found then - 1 else f_tag (it_field iter));
              v = v\<lparr>ni_iter := iter, ni_extension_range_start := start\<rparr>
          in
          if tag \<ge> start then
            case decode_extension env ext_dec (ni_st v) tag wire_type iter of (ok, st) \<Rightarrow>
              let pos = is_bytes_left (fst (ni_st v)); v = v\<lparr>ni_st := st\<rparr> in
              if \<not> ok then Stop False v
              else if pos \<noteq> is_bytes_left (fst st) then Next v
              else skip v
          else skip v
      else skip v)"

text \<open>
  A repeated field without a count member: its size is kept in \<open>fixed_count_size\<close>. False
  when the previous such field is incomplete.
\<close>

definition fixed_count_ok :: "pb_field_t list \<Rightarrow> nat option \<Rightarrow> heap \<Rightarrow> bool" where
  "fixed_count_ok fds fixed_count_field h =
     (case fixed_count_field of
        None \<Rightarrow> True
      | Some i \<Rightarrow> hp_fixed_count_size h = f_array_size (field_at fds i))"

definition use_fixed_count :: "noinit_t \<Rightarrow> bool \<times> noinit_t" where
  "use_fixed_count v =
     (let iter = ni_iter v; field = it_field iter; h = snd (ni_st v) in
      if PB_HTYPE (f_type field) = PB_HTYPE_REPEATED \<and> psize_is_data iter then
        if ni_fixed_count_field v \<noteq> Some (it_pos iter) then
          if \<not> fixed_count_ok (it_start iter) (ni_fixed_count_field v) h
          then (False, v\<lparr>ni_st := (is_set_error (fst (ni_st v)) ''wrong size for fixed count field'', h)\<rparr>)
          else (True, v\<lparr>ni_fixed_count_field := Some (it_pos iter),
                        ni_st := (fst (ni_st v), h\<lparr>hp_fixed_count_size := 0\<rparr>),
                        ni_iter := iter\<lparr>it_pSize := PS_fixed_count\<rparr>\<rparr>)
        else (True, v\<lparr>ni_iter := iter\<lparr>it_pSize := PS_fixed_count\<rparr>\<rparr>)
      else (True, v))"

definition mark_required :: "noinit_t \<Rightarrow> noinit_t" where
  "mark_required v =
     (let iter = ni_iter v; k = it_required_field_index iter; i = unat (drop_bit 5 k) in
      if PB_HTYPE (f_type (it_field iter)) = PB_HTYPE_REQUIRED \<and> k < of_nat PB_MAX_REQUIRED_FIELDS
      then v\<lparr>ni_fields_seen := (ni_fields_seen v)
               [i := ni_fields_seen v ! i OR push_bit (unat (k AND 31)) 1]\<rparr>
      else v)"

text \<open>One pass of the loop; \<open>Stop True\<close> leaves the loop, \<open>Stop False\<close> the function.\<close>

definition noinit_step ::
  "dec_env \<Rightarrow> submsg_decoder \<Rightarrow> submsg_decoder \<Rightarrow> noinit_t \<Rightarrow> noinit_t loop_step" where
  "noinit_step env dec ext_dec v =
     (case ni_st v of (s, h) \<Rightarrow>
        if is_bytes_left s = 0 then Stop True v
        else
          (case pb_decode_tag s of
             (None, eof, s) \<Rightarrow> Stop eof (v\<lparr>ni_st := (s, h)\<rparr>)
           | (Some (tag, wire_type), _, s) \<Rightarrow>
               (case pb_field_iter_find (ni_iter v) tag of (found, iter) \<Rightarrow>
                  let v = v\<lparr>ni_st := (s, h), ni_iter := iter\<rparr> in
                  if \<not> found then decode_unknown env ext_dec tag wire_type v
                  else
                    (case use_fixed_count v of (ok, v) \<Rightarrow>
                       if \<not> ok then Stop False v
                       else
                         let v = mark_required v in
                         (case decode_field env dec (ni_st v) wire_type (ni_iter v) of
                            (ok, st, iter) \<Rightarrow>
                              let v = v\<lparr>ni_st := st, ni_iter := iter\<rparr> in
                              if \<not> ok then Stop False v else Next v)))))"

text \<open>
  The check at the end: the number of required fields is found by running the iterator to
  the end of the array.
\<close>

definition required_field_count :: "pb_field_iter_t \<Rightarrow> u32" where
  "required_field_count iter =
     (let last = snd (iter_loop (\<lambda>it _. (True, it)) iter iter);
          final = snd (pb_field_iter_next last);
          n = it_required_field_index last;
          n = (if PB_HTYPE (f_type (it_field last)) = PB_HTYPE_REQUIRED \<and> f_tag (it_field final) \<noteq> 0
               then n + 1 else n)
      in if n > of_nat PB_MAX_REQUIRED_FIELDS then of_nat PB_MAX_REQUIRED_FIELDS else n)"

definition required_fields_seen :: "u32 \<Rightarrow> u32 list \<Rightarrow> bool" where
  "required_fields_seen n fields_seen \<longleftrightarrow>
     list_all (\<lambda>i. fields_seen ! i = - 1) [0..<unat (drop_bit 5 n)] \<and>
     (n AND 31 \<noteq> 0 \<longrightarrow>
        fields_seen ! unat (drop_bit 5 n) = drop_bit (unat (32 - (n AND 31))) (- 1))"

definition noinit_end :: "noinit_t \<Rightarrow> bool \<times> dstate" where
  "noinit_end v =
     (case ni_st v of (s, h) \<Rightarrow>
        if \<not> fixed_count_ok (it_start (ni_iter v)) (ni_fixed_count_field v) h
        then d_error (s, h) ''wrong size for fixed count field''
        else if \<not> required_fields_seen (required_field_count (ni_iter v)) (ni_fields_seen v)
        then d_error (s, h) ''missing required field''
        else (True, s, h))"

text \<open>\<open>fixed_count_size\<close> of the calling activation is put back at the end.\<close>

definition noinit_run ::
  "dec_env \<Rightarrow> submsg_decoder \<Rightarrow> submsg_decoder \<Rightarrow> pb_field_t list \<Rightarrow> addr \<Rightarrow> dstate \<Rightarrow> bool \<times> dstate" where
  "noinit_run env dec ext_dec fds dest_struct st =
     (case st of (s, h) \<Rightarrow>
        case stream_loop (\<lambda>v. fst (ni_st v)) (noinit_step env dec ext_dec)
               \<lparr>ni_st = (s, h\<lparr>hp_fixed_count_size := 0\<rparr>),
                ni_iter = snd (pb_field_iter_begin fds dest_struct),
                ni_fields_seen = [0, 0], ni_extension_range_start = 0,
                ni_fixed_count_field = None\<rparr> of (ok, v) \<Rightarrow>
          case (if \<not> ok then (False, ni_st v) else noinit_end v) of (ok, s, h') \<Rightarrow>
            (ok, s, h'\<lparr>hp_fixed_count_size := hp_fixed_count_size h\<rparr>))"

text \<open>\<open>pb_decode\<close> around a run of \<open>pb_decode_noinit\<close>: defaults first, release on failure.\<close>

definition decode_with_init ::
  "dec_env \<Rightarrow> (dstate \<Rightarrow> bool \<times> dstate) \<Rightarrow> pb_field_t list \<Rightarrow> addr \<Rightarrow> dstate \<Rightarrow> bool \<times> dstate" where
  "decode_with_init env run fds dest_struct st =
     (case st of (s, h) \<Rightarrow>
        case run (s, pb_message_set_to_defaults env fds dest_struct h) of (status, s, h) \<Rightarrow>
          if \<not> status then (False, s, pb_release env fds dest_struct h) else (True, s, h))"

lemma stream_loop_inv_cong:
  assumes "I s" and "\<And>t. I t \<Longrightarrow> body t = body' t"
    and "\<And>t t'. I t \<Longrightarrow> body' t = Next t' \<Longrightarrow> I t'"
  shows "stream_loop strm body s = stream_loop strm body' s"
proof -
  have "\<forall>t. I t \<longrightarrow> body t = body' t \<Longrightarrow> \<forall>t t'. I t \<longrightarrow> body' t = Next t' \<longrightarrow> I t' \<Longrightarrow> I s \<Longrightarrow>
    stream_loop strm body s = stream_loop strm body' s" for s
  proof (induction strm body' s rule: stream_loop.induct)
    case (1 strm body' s)
    then have eq: "body s = body' s" by blast
    show ?case
      unfolding stream_loop.simps [of strm body s] stream_loop.simps [of strm body' s] eq
      using 1 by (auto split: loop_step.split)
  qed
  then show ?thesis using assms by blast
qed

text \<open>The iterator of a message stays on the message's field array.\<close>

lemma find_extension_start:
  assumes "find_extension_field iter = (ok, iter')"
  shows "it_start iter' = it_start iter"
proof -
  have "it_start (snd (find_extension_field iter)) = it_start iter"
    unfolding find_extension_field_def by (rule find_loop_start)
  then show ?thesis by (simp add: assms)
qed

lemma use_fixed_count_start:
  "use_fixed_count v = (ok, v') \<Longrightarrow> it_start (ni_iter v') = it_start (ni_iter v)"
  by (auto simp: use_fixed_count_def Let_def split: if_splits)

lemma mark_required_start [simp]: "ni_iter (mark_required v) = ni_iter v"
  by (simp add: mark_required_def Let_def)

lemma decode_unknown_start:
  "decode_unknown env ext_dec tag wire_type v = Next v' \<Longrightarrow> it_start (ni_iter v') = it_start (ni_iter v)"
  by (auto simp: decode_unknown_def Let_def dest: find_extension_start split: if_splits prod.splits)

lemma noinit_step_start:
  assumes "noinit_step env dec ext_dec v = Next v'"
  shows "it_start (ni_iter v') = it_start (ni_iter v)"
proof -
  obtain s h where st: "ni_st v = (s, h)" by fastforce
  obtain tag wt s1 e where tag: "pb_decode_tag s = (Some (tag, wt), e, s1)"
    using assms st by (cases "pb_decode_tag s") (auto simp: noinit_step_def split: if_splits option.splits)
  obtain found iter where find: "pb_field_iter_find (ni_iter v) tag = (found, iter)" by fastforce
  have start: "it_start iter = it_start (ni_iter v)" by (rule iter_find_start [OF find])
  show ?thesis
    using assms start
    by (simp add: noinit_step_def st tag find Let_def split: if_splits prod.splits)
      (auto dest!: decode_unknown_start use_fixed_count_start decode_field_start)
qed

lemma noinit_run_cong [fundef_cong]:
  assumes "env = env'" "fds = fds'" "a = a'" "st = st'"
    and dec: "\<And>i b fs p t. f_ptr (field_at fds' i) = PtrFields fs \<Longrightarrow> dec b fs p t = dec' b fs p t"
    and extd: "\<And>b fs p t. ext_dec b fs p t = ext_dec' b fs p t"
  shows "noinit_run env dec ext_dec fds a st = noinit_run env' dec' ext_dec' fds' a' st'"
proof -
  have ext_eq: "ext_dec = ext_dec'" by (intro ext) (rule extd)
  have field: "decode_field env' dec t wt it = decode_field env' dec' t wt it"
    if "it_start it = fds'" for t wt it
    using that by (intro decode_field_cong) (simp add: dec)
  have step: "noinit_step env' dec ext_dec' v = noinit_step env' dec' ext_dec' v"
    if start: "it_start (ni_iter v) = fds'" for v
    unfolding noinit_step_def Let_def
    using start
    by (auto simp: field dest!: iter_find_start use_fixed_count_start split: prod.split option.split)
  have "stream_loop (\<lambda>v. fst (ni_st v)) (noinit_step env' dec ext_dec') v =
    stream_loop (\<lambda>v. fst (ni_st v)) (noinit_step env' dec' ext_dec') v"
    if "it_start (ni_iter v) = fds'" for v
    by (rule stream_loop_inv_cong [where I = "\<lambda>v. it_start (ni_iter v) = fds'"])
      (use that in \<open>simp_all add: step noinit_step_start\<close>)
  then show ?thesis
    by (simp add: noinit_run_def assms(1-4) ext_eq pb_field_iter_begin_def Let_def)
qed

lemma decode_with_init_cong [fundef_cong]:
  assumes "env = env'" "fds = fds'" "a = a'" "st = st'" "\<And>t. run t = run' t"
  shows "decode_with_init env run fds a st = decode_with_init env' run' fds' a' st'"
proof -
  have "run = run'" by (intro ext assms(5))
  with assms show ?thesis by simp
qed

function pb_decode_noinit :: "dec_env \<Rightarrow> pb_field_t list \<Rightarrow> addr \<Rightarrow> dstate \<Rightarrow> bool \<times> dstate" where
  "pb_decode_noinit env fds dest_struct st =
     noinit_run env
       (\<lambda>init fs a t. if init then decode_with_init env (\<lambda>t. pb_decode_noinit env fs a t) fs a t
                      else pb_decode_noinit env fs a t)
       (\<lambda>init fs a t.
          if de_ext_depth env = 0 then (False, fst t, (snd t)\<lparr>hp_ext_bound := True\<rparr>)
          else
            let env = env\<lparr>de_ext_depth := de_ext_depth env - 1\<rparr> in
            if init then decode_with_init env (\<lambda>t. pb_decode_noinit env fs a t) fs a t
            else pb_decode_noinit env fs a t)
       fds dest_struct st"
  by pat_completeness auto
termination
  by (relation "measures [\<lambda>(env, fds, a, st). de_ext_depth env,
                          \<lambda>(env, fds, a, st). size_list size fds]")
    (auto intro: size_submsg_fields)

declare pb_decode_noinit.simps [simp del]

definition pb_decode :: "dec_env \<Rightarrow> pb_field_t list \<Rightarrow> addr \<Rightarrow> dstate \<Rightarrow> bool \<times> dstate" where
  "pb_decode env fds dest_struct st =
     decode_with_init env (pb_decode_noinit env fds dest_struct) fds dest_struct st"

text \<open>A message that is preceded by its length.\<close>

definition decode_delimited ::
  "(dstate \<Rightarrow> bool \<times> dstate) \<Rightarrow> dstate \<Rightarrow> bool \<times> dstate" where
  "decode_delimited decode st =
     (case st of (s, h) \<Rightarrow>
        (case pb_make_string_substream s of
           (None, s) \<Rightarrow> (False, s, h)
         | (Some substream, s) \<Rightarrow>
             (case decode (substream, h) of (status, substream, h) \<Rightarrow>
                (case pb_close_string_substream s substream of (ok, s) \<Rightarrow>
                   if \<not> ok then (False, s, h) else (status, s, h)))))"

definition pb_decode_delimited_noinit ::
  "dec_env \<Rightarrow> pb_field_t list \<Rightarrow> addr \<Rightarrow> dstate \<Rightarrow> bool \<times> dstate" where
  "pb_decode_delimited_noinit env fds dest_struct = decode_delimited (pb_decode_noinit env fds dest_struct)"

definition pb_decode_delimited ::
  "dec_env \<Rightarrow> pb_field_t list \<Rightarrow> addr \<Rightarrow> dstate \<Rightarrow> bool \<times> dstate" where
  "pb_decode_delimited env fds dest_struct = decode_delimited (pb_decode env fds dest_struct)"

definition pb_decode_nullterminated ::
  "dec_env \<Rightarrow> pb_field_t list \<Rightarrow> addr \<Rightarrow> dstate \<Rightarrow> bool \<times> dstate" where
  "pb_decode_nullterminated env fds dest_struct st = pb_decode env fds dest_struct st"

end
