(* ===== verification/Pb_Istream_Spec.thy ===== *)
theory Pb_Istream_Spec
  imports Pb_Istream Pb_Wire
begin

text \<open>
  What reading promises on memory buffers: reading a value in the wire format gives back
  the value and leaves the stream right behind it, and skipping a value skips exactly its
  bytes. Nothing is read beyond \<open>bytes_left\<close>.
\<close>

section \<open>Buffer streams\<close>

abbreviation ibuf :: "byte list \<Rightarrow> size_t \<Rightarrow> string option \<Rightarrow> pb_istream_t" where
  "ibuf bs n e \<equiv> \<lparr>is_callback = IS_buf_read, is_state = bs, is_bytes_left = n, is_errmsg = e\<rparr>"

lemma readbyte_ibuf:
  "n \<noteq> 0 \<Longrightarrow> pb_readbyte (ibuf (b # bs) n e) = (Some b, ibuf bs (n - 1) e)"
  by (simp add: pb_readbyte_def is_call_def buf_read_def fit_def)

lemma read_buf_ibuf:
  assumes "count \<le> n" "unat count \<le> length bs"
  shows "pb_read_buf (ibuf bs n e) count =
    (True, take (unat count) bs, ibuf (drop (unat count) bs) (n - count) e)"
  using assms by (auto simp: pb_read_buf_def is_call_def buf_read_def fit_def not_less)

lemma read_null_ibuf:
  assumes "count \<le> n" "unat count \<le> length bs"
  shows "pb_read_null (ibuf bs n e) count = (True, ibuf (drop (unat count) bs) (n - count) e)"
  using assms by (auto simp: pb_read_null_def read_buf_ibuf)

section \<open>64-bit varints\<close>

lemma bitpos_step: "(of_nat (7 * i) :: byte) + 7 = of_nat (7 * Suc i)"
  by simp

lemma varint64_loop_varint:
  assumes "n < 2 ^ (64 - 7 * i)" "7 * i < 64" "length (varint n) \<le> unat left"
  shows "varint64_loop (ibuf (varint n @ rest) left e) (of_nat (7 * i)) r =
    (Some (r OR push_bit (7 * i) (of_nat n)), ibuf rest (left - of_nat (length (varint n))) e)"
  using assms
proof (induction n arbitrary: i left r rule: varint.induct)
  case (1 n)
  have bp: "unat (of_nat (7 * i) :: byte) = 7 * i" and lt: "\<not> (of_nat (7 * i) :: byte) \<ge> 64"
    using "1.prems"(2) by (simp_all add: unat_of_nat_small word_le_nat_alt del: of_nat_mult)
  have nz: "left \<noteq> 0" using "1.prems"(3) varint_not_Nil [of n] by (cases "varint n") auto
  show ?case
  proof (cases "n < 128")
    case True
    then show ?thesis
      using nz bp lt byte_last [of n]
      by (subst varint64_loop.simps)
        (simp add: varint_small readbyte_ibuf ucast_of_nat_byte del: of_nat_mult)
  next
    case False
    let ?b = "of_nat (n mod 128 + 128) :: byte"
    have v: "varint n = ?b # varint (n div 128)"
      using False by (subst varint.simps) simp
    have "7 < 64 - 7 * i"
    proof (rule ccontr)
      assume "\<not> 7 < 64 - 7 * i"
      then have "(2 :: nat) ^ (64 - 7 * i) \<le> 2 ^ 7"
        by (intro power_increasing) simp_all
      with "1.prems"(1) False show False by simp
    qed
    then have i: "7 * Suc i < 64" "64 - 7 * i = 7 + (64 - 7 * Suc i)" by simp_all
    have "n div 128 < 2 ^ (64 - 7 * Suc i)"
      using "1.prems"(1) unfolding i(2) power_add by (simp add: less_mult_imp_div_less mult.commute)
    moreover have "unat (left - 1) = unat left - 1"
      using nz by (simp add: unat_minus_one)
    ultimately have IH: "varint64_loop (ibuf (varint (n div 128) @ rest) (left - 1) e) (of_nat (7 * Suc i)) r' =
      (Some (r' OR push_bit (7 * Suc i) (of_nat (n div 128))),
       ibuf rest (left - 1 - of_nat (length (varint (n div 128)))) e)" for r'
      using "1.prems"(3) i(1) v by (intro "1.IH" [OF False]) auto
    have "push_bit (7 * i) (of_nat (n mod 128)) OR push_bit (7 * Suc i) (of_nat (n div 128)) =
      (push_bit (7 * i) (of_nat n) :: u64)"
      using push_groups [of "7 * i" n] by (simp add: add.commute)
    then show ?thesis
      using nz bp lt byte_cont [of "n mod 128"] IH v bitpos_step [of i]
      by (subst varint64_loop.simps)
        (simp add: readbyte_ibuf ucast_of_nat_byte or.assoc diff_diff_eq del: of_nat_mult of_nat_add mult_Suc_right)
  qed
qed

lemma decode_varint_varint:
  assumes "length (varint (unat v)) \<le> unat left"
  shows "pb_decode_varint (ibuf (varint (unat v) @ rest) left e) =
    (Some v, ibuf rest (left - of_nat (length (varint (unat v)))) e)"
  using varint64_loop_varint [of "unat v" 0 left rest e 0] assms unat_bound [of v]
  by (simp add: pb_decode_varint_def)

section \<open>32-bit varints\<close>

lemma byte_low_bits: "k < 16 \<Longrightarrow> (of_nat k :: byte) AND 0x70 = 0"
proof -
  assume k: "k < 16"
  have "\<forall>i \<in> set [0..<16]. (of_nat i :: byte) AND 0x70 = 0"
    by code_simp
  with k show ?thesis by simp
qed

lemma varint32_loop_varint:
  assumes "n < 2 ^ (32 - 7 * i)" "7 * i < 32" "length (varint n) \<le> unat left"
  shows "\<exists>b bp. varint32_loop (ibuf (varint n @ rest) left e) (of_nat (7 * i)) r =
      (Some (r OR push_bit (7 * i) (of_nat n), b, bp), ibuf rest (left - of_nat (length (varint n))) e) \<and>
    \<not> (bp = 35 \<and> b AND 0x70 \<noteq> 0)"
  using assms
proof (induction n arbitrary: i left r rule: varint.induct)
  case (1 n)
  have bp: "unat (of_nat (7 * i) :: byte) = 7 * i" and lt: "\<not> (of_nat (7 * i) :: byte) \<ge> 32"
    using "1.prems"(2) by (simp_all add: unat_of_nat_small word_le_nat_alt del: of_nat_mult)
  have nz: "left \<noteq> 0" using "1.prems"(3) varint_not_Nil [of n] by (cases "varint n") auto
  show ?case
  proof (cases "n < 128")
    case True
    have "(of_nat n :: byte) AND 0x70 = 0" if "(of_nat (7 * i) :: byte) + 7 = 35"
    proof -
      have "unat (of_nat (7 * Suc i) :: byte) = unat (35 :: byte)"
        using that unfolding bitpos_step by simp
      then have "i = 4"
        using "1.prems"(2) by (simp add: unat_of_nat_small del: of_nat_mult of_nat_add)
      with "1.prems"(1) show ?thesis by (intro byte_low_bits) simp
    qed
    then show ?thesis
      using nz bp lt byte_last [of n] True
      by (subst varint32_loop.simps)
        (simp add: varint_small readbyte_ibuf ucast_of_nat_byte del: of_nat_mult)
  next
    case False
    let ?b = "of_nat (n mod 128 + 128) :: byte"
    have v: "varint n = ?b # varint (n div 128)"
      using False by (subst varint.simps) simp
    have "7 < 32 - 7 * i"
    proof (rule ccontr)
      assume "\<not> 7 < 32 - 7 * i"
      then have "(2 :: nat) ^ (32 - 7 * i) \<le> 2 ^ 7"
        by (intro power_increasing) simp_all
      with "1.prems"(1) False show False by simp
    qed
    then have i: "7 * Suc i < 32" "32 - 7 * i = 7 + (32 - 7 * Suc i)" by simp_all
    have "n div 128 < 2 ^ (32 - 7 * Suc i)"
      using "1.prems"(1) unfolding i(2) power_add by (simp add: less_mult_imp_div_less mult.commute)
    moreover have "unat (left - 1) = unat left - 1"
      using nz by (simp add: unat_minus_one)
    ultimately have "\<exists>b bp. varint32_loop (ibuf (varint (n div 128) @ rest) (left - 1) e) (of_nat (7 * Suc i)) r' =
      (Some (r' OR push_bit (7 * Suc i) (of_nat (n div 128)), b, bp),
       ibuf rest (left - 1 - of_nat (length (varint (n div 128)))) e) \<and> \<not> (bp = 35 \<and> b AND 0x70 \<noteq> 0)" for r'
      using "1.prems"(3) i(1) v by (intro "1.IH" [OF False]) auto
    then obtain b bp' where IH: "varint32_loop (ibuf (varint (n div 128) @ rest) (left - 1) e) (of_nat (7 * Suc i))
        (r OR push_bit (7 * i) (of_nat (n mod 128))) =
      (Some ((r OR push_bit (7 * i) (of_nat (n mod 128))) OR push_bit (7 * Suc i) (of_nat (n div 128)), b, bp'),
       ibuf rest (left - 1 - of_nat (length (varint (n div 128)))) e)" "\<not> (bp' = 35 \<and> b AND 0x70 \<noteq> 0)"
      by blast
    have "push_bit (7 * i) (of_nat (n mod 128)) OR push_bit (7 * Suc i) (of_nat (n div 128)) =
      (push_bit (7 * i) (of_nat n) :: u32)"
      using push_groups [of "7 * i" n] by (simp add: add.commute)
    then have "varint32_loop (ibuf (varint n @ rest) left e) (of_nat (7 * i)) r =
      (Some (r OR push_bit (7 * i) (of_nat n), b, bp'), ibuf rest (left - of_nat (length (varint n))) e)"
      using nz bp lt byte_cont [of "n mod 128"] IH(1) v bitpos_step [of i]
      by (subst varint32_loop.simps)
        (simp add: readbyte_ibuf ucast_of_nat_byte or.assoc diff_diff_eq del: of_nat_mult of_nat_add mult_Suc_right)
    with IH(2) show ?thesis by blast
  qed
qed

lemma decode_varint32_eof_varint:
  assumes "length (varint (unat (v :: u32))) \<le> unat left"
  shows "pb_decode_varint32_eof (ibuf (varint (unat v) @ rest) left e) =
    (Some v, False, ibuf rest (left - of_nat (length (varint (unat v)))) e)"
proof -
  let ?n = "unat v"
  have nz: "left \<noteq> 0" using assms varint_not_Nil [of ?n] by (cases "varint ?n") auto
  show ?thesis
  proof (cases "?n < 128")
    case True
    have "(ucast (of_nat ?n :: byte) :: u32) = v"
      using ucast_of_nat_byte [of ?n, where 'a = 32] True by simp
    then show ?thesis
      using nz byte_last [OF True] True
      by (simp add: pb_decode_varint32_eof_def varint_small readbyte_ibuf)
  next
    case False
    have vv: "varint ?n = of_nat (?n mod 128 + 128) # varint (?n div 128)"
      using False by (subst varint.simps) simp
    have "?n div 128 < 2 ^ (32 - 7 * 1)"
      using unat_bound [of v] by (simp add: less_mult_imp_div_less)
    moreover have "unat (left - 1) = unat left - 1"
      using nz by (simp add: unat_minus_one)
    ultimately obtain b bp where loop:
      "varint32_loop (ibuf (varint (?n div 128) @ rest) (left - 1) e) (of_nat (7 * 1)) (of_nat (?n mod 128)) =
        (Some (of_nat (?n mod 128) OR push_bit (7 * 1) (of_nat (?n div 128)), b, bp),
         ibuf rest (left - 1 - of_nat (length (varint (?n div 128)))) e)"
      "\<not> (bp = 35 \<and> b AND 0x70 \<noteq> 0)"
      using varint32_loop_varint [of "?n div 128" 1 "left - 1" rest e "of_nat (?n mod 128)"] assms vv
      by fastforce
    have "of_nat (?n mod 128) OR push_bit 7 (of_nat (?n div 128)) = v"
      using push_groups [of 0 ?n, where 'a = 32] by simp
    then show ?thesis
      using nz loop byte_cont [of "?n mod 128"] vv
      by (simp add: pb_decode_varint32_eof_def readbyte_ibuf ucast_of_nat_byte diff_diff_eq
          del: of_nat_add)
  qed
qed

lemma decode_varint32_varint:
  assumes "length (varint (unat (v :: u32))) \<le> unat left"
  shows "pb_decode_varint32 (ibuf (varint (unat v) @ rest) left e) =
    (Some v, ibuf rest (left - of_nat (length (varint (unat v)))) e)"
  by (simp add: pb_decode_varint32_def decode_varint32_eof_varint [OF assms])

section \<open>Zigzag and fixed-size integers\<close>

lemma and_one_bit: "(w :: 'a::len word) AND 1 \<noteq> 0 \<longleftrightarrow> bit w 0"
  by (simp add: and_one_eq bit_0 odd_iff_mod_2_eq_one)

lemma unzigzag_zigzag: "unzigzag (zigzag v) = v"
proof -
  define w where "w = push_bit 1 v"
  have w: "bit w j \<longleftrightarrow> 1 \<le> j \<and> j < 64 \<and> bit v (j - 1)" for j
    unfolding w_def by (auto simp only: bit_push_bit_iff possible_bit_word len_num1 len_bit0 len_num0)
  have sign: "bit v 63 \<longleftrightarrow> sint v < 0"
    using bit_last_iff [of v] by simp
  have zz: "zigzag v = (if sint v < 0 then NOT w else w)"
    by (simp only: zigzag_def w_def)
  show ?thesis
  proof (rule bit_word_eqI)
    fix k assume k: "k < LENGTH(64)"
    show "bit (unzigzag (zigzag v)) k = bit v k"
      unfolding unzigzag_def zz and_one_bit
      using k sign by (cases "k = 63") (auto simp: w bit_not_iff bit_drop_bit_eq)
  qed
qed

lemma four_bytes: "length bs = 4 \<Longrightarrow> bs = [bs ! 0, bs ! 1, bs ! 2, bs ! 3]"
  by (rule nth_equalityI) (auto simp: nth_Cons numeral_eq_Suc less_Suc_eq split: nat.split)

lemma eight_bytes:
  "length bs = 8 \<Longrightarrow> bs = [bs ! 0, bs ! 1, bs ! 2, bs ! 3, bs ! 4, bs ! 5, bs ! 6, bs ! 7]"
  by (rule nth_equalityI) (auto simp: nth_Cons numeral_eq_Suc less_Suc_eq split: nat.split)

lemma fixed32_word:
  "length b = 4 \<Longrightarrow> push_bit 0 (ucast (b ! 0)) OR push_bit 8 (ucast (b ! 1)) OR
     push_bit 16 (ucast (b ! 2)) OR push_bit 24 (ucast (b ! 3)) = (word_of_bytes b :: u32)"
  by (subst (5) four_bytes) (simp_all add: push_bit_or push_bit_push_bit)

lemma fixed64_word:
  "length b = 8 \<Longrightarrow> push_bit 0 (ucast (b ! 0)) OR push_bit 8 (ucast (b ! 1)) OR
     push_bit 16 (ucast (b ! 2)) OR push_bit 24 (ucast (b ! 3)) OR
     push_bit 32 (ucast (b ! 4)) OR push_bit 40 (ucast (b ! 5)) OR
     push_bit 48 (ucast (b ! 6)) OR push_bit 56 (ucast (b ! 7)) = (word_of_bytes b :: u64)"
  by (subst (9) eight_bytes) (simp_all add: push_bit_or push_bit_push_bit)

lemma decode_fixed_bytes:
  "4 \<le> unat left \<Longrightarrow> pb_decode_fixed32 (ibuf (bytes_of_word 4 (w :: u32) @ rest) left e) =
    (Some w, ibuf rest (left - 4) e)"
  "8 \<le> unat left \<Longrightarrow> pb_decode_fixed64 (ibuf (bytes_of_word 8 (v :: u64) @ rest) left e) =
    (Some v, ibuf rest (left - 8) e)"
  using fixed32_word [of "bytes_of_word 4 w"] fixed64_word [of "bytes_of_word 8 v"]
  by (simp_all add: pb_decode_fixed32_def pb_decode_fixed64_def read_buf_ibuf word_le_nat_alt
      del: nth_bytes_of_word)

section \<open>Tags\<close>

lemma decode_tag_wire:
  assumes "8 * unat tag + wt < 2 ^ 32" "wt < 8" "8 * unat tag + wt \<noteq> 0"
    and "length (wire_tag tag wt) \<le> unat left"
  shows "pb_decode_tag (ibuf (wire_tag tag wt @ rest) left e) =
    (Some (tag, of_nat wt), False, ibuf rest (left - of_nat (length (wire_tag tag wt))) e)"
proof -
  let ?v = "of_nat (8 * unat tag + wt) :: u32"
  have v: "unat ?v = 8 * unat tag + wt"
    using assms(1) by (intro unat_of_nat_small) simp
  have tag: "drop_bit 3 ?v = tag"
  proof -
    have "unat (drop_bit 3 ?v) = unat tag"
      unfolding unat_drop_bit v using assms(2) by simp
    then show ?thesis by (metis of_nat_unat ucast_id)
  qed
  have wt: "?v AND 7 = of_nat wt"
  proof -
    have "?v AND 7 = take_bit 3 ?v"
      by (simp add: take_bit_eq_mask mask_eq_exp_minus_1 del: take_bit_eq_mask_iff)
    moreover have "unat (take_bit 3 ?v) = wt"
      unfolding unat_take_bit v using assms(2) by simp
    ultimately show ?thesis by (metis of_nat_unat ucast_id)
  qed
  have "?v \<noteq> 0" using v assms(3) by (metis unat_0)
  with decode_varint32_eof_varint [of ?v left rest e] assms(4) tag wt show ?thesis
    by (simp add: pb_decode_tag_def wire_tag_def v del: of_nat_add of_nat_mult)
qed

section \<open>Substreams and skipping\<close>

lemma make_substream_delimited:
  assumes "length body < 2 ^ 32" "length (delimited body) \<le> unat left"
  shows "pb_make_string_substream (ibuf (delimited body @ rest) left e) =
    (Some (ibuf (body @ rest) (of_nat (length body)) e),
     ibuf (body @ rest) (left - of_nat (length (delimited body))) e)"
proof -
  let ?n = "of_nat (length body) :: u32"
  have n: "unat ?n = length body" using assms(1) by (intro unat_of_nat_small) simp
  have un: "(ucast ?n :: size_t) = of_nat (length body)"
    using n by (metis unat_ucast_up(1) of_nat_unat ucast_id)
  have len: "length (varint (length body)) + length body \<le> unat left"
    using assms(2) by (simp add: delimited_def)
  have "pb_decode_varint32 (ibuf (varint (unat ?n) @ body @ rest) left e) =
    (Some ?n, ibuf (body @ rest) (left - of_nat (length (varint (unat ?n)))) e)"
    using len n by (intro decode_varint32_varint) simp
  moreover have "unat (left - of_nat (length (varint (length body)))) = unat left - length (varint (length body))"
    using len unat_bound [of left] by (simp add: unat_sub word_le_nat_alt unat_of_nat_small)
  then have "\<not> left - of_nat (length (varint (length body))) < of_nat (length body)"
    using len assms(1) by (simp add: word_less_nat_alt unat_of_nat_small)
  ultimately show ?thesis
    by (simp add: pb_make_string_substream_def delimited_def n un diff_diff_eq)
qed

lemma close_substream:
  assumes "unat n \<le> length bs"
  shows "pb_close_string_substream s (ibuf bs n e) = (True, s\<lparr>is_state := drop (unat n) bs, is_errmsg := e\<rparr>)"
  using assms by (simp add: pb_close_string_substream_def read_null_ibuf)

end
