(* ===== verification/Pb_Decode_Spec.thy ===== *)
theory Pb_Decode_Spec
  imports Pb_Decode Pb_Istream_Spec Pb_Descriptor
begin

text \<open>
  What the decoder promises on wire-format input in a buffer: skipping skips exactly one
  value; a scalar value is stored as the bytes of the field's C type; a message of optional
  scalar fields is decoded record by record, in whatever order and with whatever unknown
  fields in between.
\<close>

section \<open>Skipping\<close>

lemma skip_varint_varint:
  "length (varint n) \<le> unat left \<Longrightarrow>
   pb_skip_varint (ibuf (varint n @ rest) left e) = (True, ibuf rest (left - of_nat (length (varint n))) e)"
proof (induction n arbitrary: left rule: varint.induct)
  case (1 n)
  have nz: "left \<noteq> 0" using "1.prems" varint_not_Nil [of n] by (cases "varint n") auto
  then have one: "1 \<le> left" by (simp add: word_le_nat_alt Suc_le_eq unat_gt_0)
  show ?case
  proof (cases "n < 128")
    case True
    then show ?thesis
      using one byte_last [of n]
      by (subst pb_skip_varint.simps) (simp add: varint_small read_buf_ibuf)
  next
    case False
    have v: "varint n = of_nat (n mod 128 + 128) # varint (n div 128)"
      using False by (subst varint.simps) simp
    have "unat (left - 1) = unat left - 1" using nz by (simp add: unat_minus_one)
    then have "pb_skip_varint (ibuf (varint (n div 128) @ rest) (left - 1) e) =
      (True, ibuf rest (left - 1 - of_nat (length (varint (n div 128)))) e)"
      using "1.prems" v by (intro "1.IH" [OF False]) simp
    then show ?thesis
      using one byte_cont [of "n mod 128"] v
      by (subst pb_skip_varint.simps) (simp add: read_buf_ibuf diff_diff_eq del: of_nat_add)
  qed
qed

text \<open>Values whose length prefix is a 32-bit integer.\<close>

definition short_value :: "pb_value \<Rightarrow> bool" where
  "short_value v \<longleftrightarrow>
     (case v of V_bytes bs \<Rightarrow> length bs < 2 ^ 32 | V_message rs \<Rightarrow> length (wire_records rs) < 2 ^ 32 | _ \<Rightarrow> True)"

lemma skip_string_delimited:
  assumes "length body < 2 ^ 32" "length (delimited body) \<le> unat left"
  shows "pb_skip_string (ibuf (delimited body @ rest) left e) =
    (True, ibuf rest (left - of_nat (length (delimited body))) e)"
proof -
  let ?n = "of_nat (length body) :: u32"
  have n: "unat ?n = length body" using assms(1) by (intro unat_of_nat_small) simp
  have un: "(ucast ?n :: size_t) = of_nat (length body)"
    using n by (metis unat_ucast_up(1) of_nat_unat ucast_id)
  have len: "length (varint (length body)) + length body \<le> unat left"
    using assms(2) by (simp add: delimited_def)
  have "pb_decode_varint32 (ibuf (varint (unat ?n) @ body @ rest) left e) =
    (Some ?n, ibuf (body @ rest) (left - of_nat (length (varint (unat ?n)))) e)"
    using len n by (intro decode_varint32_varint) simp
  moreover have "unat (left - of_nat (length (varint (length body)))) = unat left - length (varint (length body))"
    using len unat_bound [of left] by (simp add: unat_sub word_le_nat_alt unat_of_nat_small)
  then have "of_nat (length body) \<le> left - of_nat (length (varint (length body)))"
    using len assms(1) by (simp add: word_le_nat_alt unat_of_nat_small)
  moreover have "unat (of_nat (length body) :: size_t) = length body"
    using assms(1) by (intro unat_of_nat_small) simp
  ultimately show ?thesis
    by (simp add: pb_skip_string_def delimited_def n un read_null_ibuf diff_diff_eq)
qed

lemma skip_wire_value:
  assumes "short_value v" "length (wire_value v) \<le> unat left"
  shows "pb_skip_field (ibuf (wire_value v @ rest) left e) (of_nat (wire_type v)) =
    (True, ibuf rest (left - of_nat (length (wire_value v))) e)"
proof -
  have "4 \<le> unat left \<Longrightarrow> 4 \<le> left" "8 \<le> unat left \<Longrightarrow> 8 \<le> left"
    by (simp_all add: word_le_nat_alt)
  then show ?thesis
    using assms
    by (cases v) (auto simp: pb_skip_field_def pb_const short_value_def skip_varint_varint
        read_null_ibuf skip_string_delimited)
qed

section \<open>Scalar values\<close>

lemma decoder_func_table:
  "PB_LTYPE (f_type field) = PB_LTYPE_BOOL \<Longrightarrow> decoder_func env dec field = pb_dec_bool"
  "PB_LTYPE (f_type field) = PB_LTYPE_VARINT \<Longrightarrow> decoder_func env dec field = pb_dec_varint"
  "PB_LTYPE (f_type field) = PB_LTYPE_UVARINT \<Longrightarrow> decoder_func env dec field = pb_dec_uvarint"
  "PB_LTYPE (f_type field) = PB_LTYPE_SVARINT \<Longrightarrow> decoder_func env dec field = pb_dec_svarint"
  "PB_LTYPE (f_type field) = PB_LTYPE_FIXED32 \<Longrightarrow> decoder_func env dec field = pb_dec_fixed32"
  "PB_LTYPE (f_type field) = PB_LTYPE_FIXED64 \<Longrightarrow> decoder_func env dec field = pb_dec_fixed64"
  "PB_LTYPE (f_type field) = PB_LTYPE_BYTES \<Longrightarrow> decoder_func env dec field = pb_dec_bytes env"
  "PB_LTYPE (f_type field) = PB_LTYPE_STRING \<Longrightarrow> decoder_func env dec field = pb_dec_string env"
  "PB_LTYPE (f_type field) = PB_LTYPE_SUBMESSAGE \<Longrightarrow> decoder_func env dec field = pb_dec_submessage dec"
  "PB_LTYPE (f_type field) = PB_LTYPE_EXTENSION \<Longrightarrow>
     decoder_func env dec field = (\<lambda>st f dest. d_error st ''undefined behaviour'')"
  "PB_LTYPE (f_type field) = PB_LTYPE_FIXED_LENGTH_BYTES \<Longrightarrow>
     decoder_func env dec field = pb_dec_fixed_length_bytes"
  "11 \<le> unat (PB_LTYPE (f_type field)) \<Longrightarrow>
     decoder_func env dec field = (\<lambda>st f dest. d_error st ''undefined behaviour'')"
  by (simp_all add: decoder_func_def PB_DECODERS_def pb_const Let_def)

text \<open>The bytes that a scalar value becomes in a field of the given type, if it fits.\<close>

definition fitting :: "u64 \<Rightarrow> (byte list \<times> u64) option \<Rightarrow> byte list option" where
  "fitting v r = (case r of Some (bs, clamped) \<Rightarrow> if clamped = v then Some bs else None | None \<Rightarrow> None)"

definition scalar_bytes :: "pb_field_t \<Rightarrow> pb_value \<Rightarrow> byte list option" where
  "scalar_bytes f v =
     (let lt = PB_LTYPE (f_type f); ds = f_data_size f in
      case v of
        V_varint w \<Rightarrow>
          if lt = PB_LTYPE_BOOL then
            if unat w < 2 ^ 32 then Some [if w \<noteq> 0 then 1 else 0] else None
          else if lt = PB_LTYPE_VARINT then
            let sv = (if ds = 8 then w else scast (ucast w :: u32)) in fitting sv (clamp_int ds sv)
          else if lt = PB_LTYPE_UVARINT then fitting w (clamp_uint ds w)
          else if lt = PB_LTYPE_SVARINT then fitting (unzigzag w) (clamp_int ds (unzigzag w))
          else None
      | V_fixed32 w \<Rightarrow> if lt = PB_LTYPE_FIXED32 then Some (bytes_of_word 4 w) else None
      | V_fixed64 w \<Rightarrow> if lt = PB_LTYPE_FIXED64 then Some (bytes_of_word 8 w) else None
      | _ \<Rightarrow> None)"

lemma store_clamped_fitting:
  "fitting v r = Some bs \<Longrightarrow> store_clamped (s, h) dest v r = (True, s, h_store dest bs h)"
  by (auto simp: fitting_def store_clamped_def split: option.splits if_splits)

lemma decode_varint32_small:
  assumes "unat (w :: u64) < 2 ^ 32" "length (varint (unat w)) \<le> unat left"
  shows "pb_decode_varint32 (ibuf (varint (unat w) @ rest) left e) =
    (Some (ucast w), ibuf rest (left - of_nat (length (varint (unat w)))) e)"
proof -
  have "unat (ucast w :: u32) = unat w" using assms(1) by (simp add: unat_ucast_down)
  then show ?thesis using decode_varint32_varint [of "ucast w" left rest e] assms(2) by simp
qed

lemma decode_scalar:
  assumes "scalar_bytes f v = Some bs" "length (wire_value v) \<le> unat left"
  shows "decoder_func env dec f (ibuf (wire_value v @ rest) left e, h) f dest =
    (True, ibuf rest (left - of_nat (length (wire_value v))) e, h_store dest bs h)"
proof (cases v)
  case (V_varint w)
  have nz: "(ucast w :: u32) = 0 \<longleftrightarrow> w = 0" if "unat w < 2 ^ 32"
  proof -
    have "unat (ucast w :: u32) = unat w" using that by (simp add: unat_ucast_down)
    then show ?thesis by (simp only: unat_eq_zero [symmetric])
  qed
  show ?thesis
    using assms decode_varint_varint [of w left rest e] decode_varint32_small [of w left rest e] nz
    by (auto simp: V_varint scalar_bytes_def decoder_func_table pb_dec_bool_def pb_dec_varint_def
        pb_dec_uvarint_def pb_dec_svarint_def pb_decode_svarint_def store_clamped_fitting Let_def
        split: if_splits)
next
  case (V_fixed32 w)
  then show ?thesis
    using assms by (auto simp: scalar_bytes_def decoder_func_table pb_dec_fixed32_def decode_fixed_bytes
        Let_def split: if_splits)
next
  case (V_fixed64 w)
  then show ?thesis
    using assms by (auto simp: scalar_bytes_def decoder_func_table pb_dec_fixed64_def decode_fixed_bytes
        Let_def split: if_splits)
qed (use assms in \<open>simp_all add: scalar_bytes_def Let_def\<close>)

lemma last_bit: "n < k \<Longrightarrow> k - 1 \<le> n \<Longrightarrow> n = k - (1 :: nat)"
  by simp

lemma cast_down_up:
  "ucast (scast (b :: byte) :: u64) = b" "ucast (scast (x :: u16) :: u64) = x" "ucast (scast (w :: u32) :: u64) = w"
  "ucast (ucast b :: u64) = b" "ucast (ucast x :: u64) = x" "ucast (ucast w :: u64) = w"
  by (rule bit_word_eqI; auto simp: bit_signed_iff bit_unsigned_iff min_def dest: last_bit [of _ 8, simplified]
      last_bit [of _ 16, simplified] last_bit [of _ 32, simplified])+

lemma cast_through_int32:
  "scast (ucast (scast (b :: byte) :: u64) :: u32) = (scast b :: u64)"
  "scast (ucast (scast (x :: u16) :: u64) :: u32) = (scast x :: u64)"
  by (rule bit_word_eqI; auto simp: bit_signed_iff bit_unsigned_iff min_def)+

lemma one_byte [simp]: "load_bytes m p (Suc 0) = [m p]" "bytes_of_word (Suc 0) (b :: byte) = [b]"
  by (simp_all add: load_bytes_def bytes_of_word_def)

definition scalar_size :: "pb_field_t \<Rightarrow> nat" where
  "scalar_size f =
     (let lt = PB_LTYPE (f_type f) in
      if lt = PB_LTYPE_BOOL then 1 else if lt = PB_LTYPE_FIXED32 then 4
      else if lt = PB_LTYPE_FIXED64 then 8 else unat (f_data_size f))"

text \<open>
  A value that was read from a scalar field fits into a field of the same type, and reads
  as the same value wherever its bytes are found.
\<close>

lemma int_of_memory:
  assumes "load_int m p ds = Some w"
  shows "\<exists>bs. fitting w (clamp_int ds w) = Some bs \<and> length bs = unat ds \<and>
      (\<forall>m' p'. load_bytes m' p' (length bs) = bs \<longrightarrow> load_int m' p' ds = Some w)"
    and "ds \<noteq> 8 \<Longrightarrow> scast (ucast w :: u32) = w"
proof -
  show "\<exists>bs. fitting w (clamp_int ds w) = Some bs \<and> length bs = unat ds \<and>
      (\<forall>m' p'. load_bytes m' p' (length bs) = bs \<longrightarrow> load_int m' p' ds = Some w)"
    using assms by (auto simp: load_int_def clamp_int_def load_u8_def fitting_def cast_down_up load_u16_def load_u32_def load_u64_def
        split: if_splits)
  show "scast (ucast w :: u32) = w" if "ds \<noteq> 8"
    using assms that by (auto simp: load_int_def cast_down_up cast_through_int32 split: if_splits)
qed

lemma uint_of_memory:
  assumes "load_uint m p ds = Some w"
  shows "\<exists>bs. fitting w (clamp_uint ds w) = Some bs \<and> length bs = unat ds \<and>
      (\<forall>m' p'. load_bytes m' p' (length bs) = bs \<longrightarrow> load_uint m' p' ds = Some w)"
proof -
  show ?thesis
    using assms by (auto simp: load_uint_def clamp_uint_def load_u8_def fitting_def cast_down_up load_u16_def load_u32_def load_u64_def
        split: if_splits)
qed

lemma scalar_of_memory:
  assumes "abs_value sub m f p = Some v" "PB_LTYPE (f_type f) \<le> PB_LTYPE_LAST_PACKABLE"
  shows "\<exists>bs. scalar_bytes f v = Some bs \<and> length bs = scalar_size f \<and>
    (\<forall>m' p'. load_bytes m' p' (length bs) = bs \<longrightarrow> abs_value sub m' f p' = Some v)"
proof -
  note defs = scalar_bytes_def scalar_size_def abs_value_table pb_const Let_def
  have le: "unat (PB_LTYPE (f_type f)) \<le> 5" using assms(2) by (simp add: word_le_nat_alt pb_const)
  show ?thesis
  proof (rule ltype_exhaust [of f])
    assume "PB_LTYPE (f_type f) = PB_LTYPE_BOOL"
    then show ?thesis using assms(1) by (auto simp: defs)
  next
    assume lt: "PB_LTYPE (f_type f) = PB_LTYPE_VARINT"
    with assms(1) obtain w where w: "load_int m p (f_data_size f) = Some w" "v = V_varint w"
      by (auto simp: abs_value_table)
    then have "(if f_data_size f = 8 then w else scast (ucast w :: u32)) = w"
      using int_of_memory(2) [OF w(1)] by simp
    with int_of_memory(1) [OF w(1)] w(2) lt show ?thesis by (auto simp: defs)
  next
    assume lt: "PB_LTYPE (f_type f) = PB_LTYPE_UVARINT"
    with assms(1) obtain w where w: "load_uint m p (f_data_size f) = Some w" "v = V_varint w"
      by (auto simp: abs_value_table)
    with uint_of_memory [OF w(1)] lt show ?thesis by (auto simp: defs)
  next
    assume lt: "PB_LTYPE (f_type f) = PB_LTYPE_SVARINT"
    with assms(1) obtain w where w: "load_int m p (f_data_size f) = Some w" "v = V_varint (zigzag w)"
      by (auto simp: abs_value_table)
    with int_of_memory(1) [OF w(1)] lt show ?thesis by (auto simp: defs unzigzag_zigzag)
  qed (use assms(1) le in \<open>auto simp: defs load_u32_def load_u64_def\<close>)
qed

section \<open>Messages of optional scalar fields\<close>

text \<open>
  A field array of static optional scalars with has-flags, in which every tag occurs once.
\<close>

definition flat_field :: "pb_field_t \<Rightarrow> bool" where
  "flat_field f \<longleftrightarrow>
     PB_ATYPE (f_type f) = PB_ATYPE_STATIC \<and> PB_HTYPE (f_type f) = PB_HTYPE_OPTIONAL \<and>
     PB_LTYPE (f_type f) \<le> PB_LTYPE_LAST_PACKABLE \<and> f_size_offset f \<noteq> 0 \<and>
     f_tag f < 0x20000000"

definition flat_fields :: "pb_field_t list \<Rightarrow> bool" where
  "flat_fields fds \<longleftrightarrow>
     nfields fds \<noteq> 0 \<and> list_all flat_field (take (nfields fds) fds) \<and>
     distinct (map f_tag (take (nfields fds) fds))"

definition flag_addr :: "pb_field_t list \<Rightarrow> addr \<Rightarrow> nat \<Rightarrow> addr" where
  "flag_addr fds a i = it_pData (iter_at fds a i) + scast (f_size_offset (field_at fds i))"

lemma flat_field_at: "flat_fields fds \<Longrightarrow> i < nfields fds \<Longrightarrow> flat_field (field_at fds i)"
  using nfields_le [of fds] by (auto simp: flat_fields_def list_all_length field_at_def)

lemma flat_tags_inj:
  assumes "flat_fields fds" "i < nfields fds" "j < nfields fds" "f_tag (field_at fds i) = f_tag (field_at fds j)"
  shows "i = j"
  using assms nfields_le [of fds] by (auto simp: flat_fields_def distinct_conv_nth field_at_def)

lemma flat_types:
  assumes "flat_field f"
  shows "PB_HTYPE (f_type f) \<noteq> PB_HTYPE_REQUIRED" "PB_HTYPE (f_type f) \<noteq> PB_HTYPE_REPEATED"
    "PB_HTYPE (f_type f) \<noteq> PB_HTYPE_ONEOF" "PB_LTYPE (f_type f) \<noteq> PB_LTYPE_EXTENSION"
    "PB_LTYPE (f_type f) \<noteq> PB_LTYPE_SUBMESSAGE" "PB_LTYPE (f_type f) \<noteq> PB_LTYPE_STRING"
    "PB_LTYPE (f_type f) \<noteq> PB_LTYPE_BYTES"
  using assms by (auto simp: flat_field_def pb_const)

lemma flat_iter_at:
  assumes "flat_fields fds" "i < nfields fds"
  shows "it_pSize (iter_at fds a i) = PS_mem (flag_addr fds a i) \<and> it_required_field_index (iter_at fds a i) = 0"
  using assms(2)
proof (induction i)
  case 0
  show ?case
    by (simp add: iter_at.simps pb_field_iter_begin_def flag_addr_def Let_def)
next
  case (Suc i)
  have i: "i < nfields fds" using Suc.prems by simp
  have tags: "f_tag (field_at fds i) \<noteq> 0" "f_tag (field_at fds (Suc i)) \<noteq> 0"
    using i Suc.prems by (simp_all add: tag_before_terminator)
  note ty = flat_types [OF flat_field_at [OF assms(1) i]]
  show ?case
    using tags ty Suc.IH [OF i] iter_at_pos [OF i, of a]
    by (simp add: iter_at_Suc pb_field_iter_next_def flag_addr_def Let_def)
qed

lemma scast_eq_0: "(scast (x :: u32) :: u64) = 0 \<longleftrightarrow> x = 0"
  by (metis cast_down_up(3) signed_0 unsigned_0)

lemma flat_psize: "flat_fields fds \<Longrightarrow> i < nfields fds \<Longrightarrow> \<not> psize_is_data (iter_at fds a i)"
  using flat_field_at [of fds i]
  by (simp add: psize_is_data_def flat_iter_at flag_addr_def flat_field_def scast_eq_0)

text \<open>The field with a tag, and what a record does to the heap.\<close>

definition field_index :: "pb_field_t list \<Rightarrow> u32 \<Rightarrow> nat option" where
  "field_index fds tag = List.find (\<lambda>i. f_tag (field_at fds i) = tag) [0..<nfields fds]"

definition store_field :: "pb_field_t list \<Rightarrow> addr \<Rightarrow> nat \<Rightarrow> byte list \<Rightarrow> heap \<Rightarrow> heap" where
  "store_field fds a i bs h = h_store (it_pData (iter_at fds a i)) bs (h_store (flag_addr fds a i) [1] h)"

definition store_record :: "pb_field_t list \<Rightarrow> addr \<Rightarrow> pb_record \<Rightarrow> heap \<Rightarrow> heap" where
  "store_record fds a r h =
     (case r of
        Single tag v \<Rightarrow>
          (case field_index fds tag of
             None \<Rightarrow> h
           | Some i \<Rightarrow> (case scalar_bytes (field_at fds i) v of Some bs \<Rightarrow> store_field fds a i bs h | None \<Rightarrow> h))
      | Packed tag vs \<Rightarrow> h)"

text \<open>A record that the decoder can take: of an unknown field, or one that fits its field.\<close>

definition flat_record :: "pb_field_t list \<Rightarrow> pb_record \<Rightarrow> bool" where
  "flat_record fds r \<longleftrightarrow>
     (case r of
        Single tag v \<Rightarrow>
          tag \<noteq> 0 \<and> unat tag < 2 ^ 29 \<and> short_value v \<and>
          (case field_index fds tag of None \<Rightarrow> True | Some i \<Rightarrow> scalar_bytes (field_at fds i) v \<noteq> None)
      | Packed tag vs \<Rightarrow> False)"

lemma field_index_Some:
  assumes "flat_fields fds"
  shows "field_index fds tag = Some i \<longleftrightarrow> i < nfields fds \<and> f_tag (field_at fds i) = tag"
  using flat_tags_inj [OF assms]
  by (auto simp: field_index_def find_Some_iff) (metis less_trans nth_upt add_0 less_irrefl)+

lemma field_index_None:
  "field_index fds tag = None \<longleftrightarrow> (\<forall>i < nfields fds. f_tag (field_at fds i) \<noteq> tag)"
  by (auto simp: field_index_def find_None_iff)

lemma find_SomeD: "List.find P xs = Some x \<Longrightarrow> x \<in> set xs \<and> P x"
  by (auto simp: find_Some_iff)

lemma flat_find:
  assumes "flat_fields fds" "i < nfields fds"
  shows "pb_field_iter_find (iter_at fds a i) tag =
    (case field_index fds tag of Some j \<Rightarrow> (True, iter_at fds a j) | None \<Rightarrow> (False, iter_at fds a i))"
proof -
  let ?p = "\<lambda>j. f_tag (field_at fds j) = tag \<and> PB_LTYPE (f_type (field_at fds j)) \<noteq> PB_LTYPE_EXTENSION"
  have idx: "j \<in> set ([i..<nfields fds] @ [0..<i]) \<longleftrightarrow> j < nfields fds" for j
    using assms(2) by auto
  have "List.find ?p ([i..<nfields fds] @ [0..<i]) = field_index fds tag"
  proof (cases "field_index fds tag")
    case None
    then have "List.find ?p ([i..<nfields fds] @ [0..<i]) = None"
      using idx by (auto simp: field_index_None find_None_iff simp del: set_append)
    with None show ?thesis by simp
  next
    case (Some j)
    then have j: "j < nfields fds" "f_tag (field_at fds j) = tag"
      by (simp_all add: field_index_Some [OF assms(1)])
    then have pj: "?p j" using flat_types(4) [OF flat_field_at [OF assms(1)]] by simp
    show ?thesis
    proof (cases "List.find ?p ([i..<nfields fds] @ [0..<i])")
      case None
      then show ?thesis using pj j idx by (auto simp: find_None_iff simp del: set_append)
    next
      case (Some k)
      then have "?p k" "k < nfields fds"
        using find_SomeD [OF Some] idx by auto
      then have "k = j" using flat_tags_inj [OF assms(1), of k j] j by simp
      with Some \<open>field_index fds tag = Some j\<close> show ?thesis by simp
    qed
  qed
  then show ?thesis by (simp add: iter_find_at [OF assms(2)])
qed

lemma flat_no_extension:
  assumes "flat_fields fds" "i < nfields fds"
  shows "find_extension_field (iter_at fds a i) = (False, iter_at fds a i)"
proof -
  have "List.find (\<lambda>j. PB_LTYPE (f_type (field_at fds j)) = PB_LTYPE_EXTENSION) ([i..<nfields fds] @ [0..<i]) = None"
    using flat_types(4) [OF flat_field_at [OF assms(1)]] assms(2) by (auto simp: find_None_iff)
  then show ?thesis
    unfolding find_extension_field_def iter_at_pos [OF assms(2)] iter_at_start
    using find_loop_cyclic [OF assms(2), of "\<lambda>pos. PB_LTYPE (f_type pos) = PB_LTYPE_EXTENSION" a] by simp
qed

text \<open>One pass of the message loop over one record.\<close>

lemma length_wire_record_Single:
  "length (wire_record (Single tag v)) = length (wire_tag tag (wire_type v)) + length (wire_value v)"
  by simp

lemma wire_type_less: "wire_type v < 8"
  by (cases v) simp_all

lemma tag_bits:
  assumes "tag \<noteq> 0" "unat (tag :: u32) < 2 ^ 29" "wt < 8"
  shows "8 * unat tag + wt < 2 ^ 32" "8 * unat tag + wt \<noteq> 0"
  using assms unat_gt_0 [of tag] by auto

lemma unat_diff_len:
  "n \<le> unat (left :: u64) \<Longrightarrow> unat (left - of_nat n) = unat left - n"
  using unat_bound [of left] by (subst unat_sub) (auto simp: word_le_nat_alt unat_of_nat_small)

lemma decode_flat_field:
  assumes "flat_fields fds" "i < nfields fds" "scalar_bytes (field_at fds i) v = Some bs"
    and "length (wire_value v) \<le> unat left"
  shows "decode_field env dec (ibuf (wire_value v @ rest) left e, h) wt (iter_at fds a i) =
    (True, (ibuf rest (left - of_nat (length (wire_value v))) e, store_field fds a i bs h), iter_at fds a i)"
proof -
  have f: "flat_field (field_at fds i)" using assms(1,2) by (rule flat_field_at)
  then have "PB_ATYPE (f_type (field_at fds i)) = PB_ATYPE_STATIC"
    "PB_HTYPE (f_type (field_at fds i)) = PB_HTYPE_OPTIONAL" by (simp_all add: flat_field_def)
  then show ?thesis
    using flat_iter_at [OF assms(1,2)] flat_psize [OF assms(1,2)] decode_scalar [OF assms(3,4)]
    by (simp add: decode_field_def decode_static_field_def iter_at_pos [OF assms(2)] htype_neq htype_neq [symmetric]
        set_bool_def store_field_def Let_def)
qed

lemma noinit_step_record:
  assumes "flat_fields fds" "i < nfields fds" "flat_record fds r" "length (wire_record r) \<le> unat left"
    and "ni_st v = (ibuf (wire_record r @ rest) left e, h)" "ni_iter v = iter_at fds a i"
  shows "\<exists>j es. j < nfields fds \<and> noinit_step env dec ext_dec v =
    Next (v\<lparr>ni_st := (ibuf rest (left - of_nat (length (wire_record r))) e, store_record fds a r h),
           ni_iter := iter_at fds a j, ni_extension_range_start := es\<rparr>)"
proof -
  obtain tag val where r: "r = Single tag val" "tag \<noteq> 0" "unat tag < 2 ^ 29" "short_value val"
    using assms(3) by (cases r) (auto simp: flat_record_def)
  let ?t = "wire_tag tag (wire_type val)" and ?v = "wire_value val"
  let ?left = "left - of_nat (length ?t)"
  have len: "length ?t + length ?v \<le> unat left" using assms(4) by (simp add: r)
  have nz: "left \<noteq> 0" using len varint_not_Nil [of "8 * unat tag + wire_type val"]
    by (cases "varint (8 * unat tag + wire_type val)") (auto simp: wire_tag_def)
  have lv: "length ?v \<le> unat ?left" using len unat_diff_len [of "length ?t" left] by simp
  have left: "left - of_nat (length (wire_record r)) = ?left - of_nat (length ?v)"
    by (simp add: r diff_diff_eq)
  have tag: "pb_decode_tag (ibuf (wire_record r @ rest) left e) =
    (Some (tag, of_nat (wire_type val)), False, ibuf (?v @ rest) ?left e)"
    using decode_tag_wire [of tag "wire_type val" left "?v @ rest" e] tag_bits [OF r(2,3) wire_type_less] len
    by (simp add: r wire_type_less)
  show ?thesis
  proof (cases "field_index fds tag")
    case None
    let ?es = "if tag \<ge> ni_extension_range_start v then - 1 else ni_extension_range_start v"
    have skip: "pb_skip_field (ibuf (?v @ rest) ?left e) (of_nat (wire_type val)) =
      (True, ibuf rest (?left - of_nat (length ?v)) e)"
      by (rule skip_wire_value [OF r(4) lv])
    have big: "\<not> (- 1 :: u32) \<le> tag" using r(3) by (simp add: word_le_nat_alt unsigned_minus_1_eq_mask mask_eq_exp_minus_1)
    have "noinit_step env dec ext_dec v =
      decode_unknown env ext_dec tag (of_nat (wire_type val))
        (v\<lparr>ni_st := (ibuf (?v @ rest) ?left e, h), ni_iter := iter_at fds a i\<rparr>)"
      using nz None by (simp add: noinit_step_def assms(6) assms(5) tag flat_find [OF assms(1,2)])
    also have "\<dots> = Next (v\<lparr>ni_st := (ibuf rest (?left - of_nat (length ?v)) e, h), ni_iter := iter_at fds a i,
        ni_extension_range_start := ?es\<rparr>)"
      using skip big assms(6)
      by (simp add: decode_unknown_def flat_no_extension [OF assms(1,2)] Let_def)
    finally have "noinit_step env dec ext_dec v =
      Next (v\<lparr>ni_st := (ibuf rest (left - of_nat (length (wire_record r))) e, store_record fds a r h),
           ni_iter := iter_at fds a i, ni_extension_range_start := ?es\<rparr>)"
      unfolding left using None by (simp only: store_record_def r(1) pb_record.case option.case)
    with assms(2) show ?thesis by blast
  next
    case (Some j)
    then have j: "j < nfields fds" by (simp add: field_index_Some [OF assms(1)])
    obtain bs where bs: "scalar_bytes (field_at fds j) val = Some bs"
      using assms(3) Some by (auto simp: flat_record_def r(1))
    let ?v' = "v\<lparr>ni_st := (ibuf (?v @ rest) ?left e, h), ni_iter := iter_at fds a j\<rparr>"
    have ty: "PB_HTYPE (f_type (field_at fds j)) \<noteq> PB_HTYPE_REPEATED"
      "PB_HTYPE (f_type (field_at fds j)) \<noteq> PB_HTYPE_REQUIRED"
      using flat_types [OF flat_field_at [OF assms(1) j]] by simp_all
    have "use_fixed_count ?v' = (True, ?v')" "mark_required ?v' = ?v'"
      using ty by (simp_all add: use_fixed_count_def mark_required_def iter_at_pos [OF j] Let_def)
    then have "noinit_step env dec ext_dec v = Next (?v'
        \<lparr>ni_st := (ibuf rest (?left - of_nat (length ?v)) e, store_field fds a j bs h), ni_iter := iter_at fds a j\<rparr>)"
      using nz Some decode_flat_field [OF assms(1) j bs lv, of env dec rest e h "of_nat (wire_type val)" a]
      by (simp add: noinit_step_def assms(5,6) tag flat_find [OF assms(1,2)] Let_def)
    then have "noinit_step env dec ext_dec v =
      Next (v\<lparr>ni_st := (ibuf rest (left - of_nat (length (wire_record r))) e, store_record fds a r h),
           ni_iter := iter_at fds a j, ni_extension_range_start := ni_extension_range_start v\<rparr>)"
      unfolding left using Some bs by (simp add: store_record_def r(1))
    with j show ?thesis by blast
  qed
qed

lemma noinit_loop_records:
  assumes "flat_fields fds" "list_all (flat_record fds) rs" "i < nfields fds" "unat left = length (wire_records rs)"
    and "ni_st v = (ibuf (wire_records rs @ rest) left e, h)" "ni_iter v = iter_at fds a i"
  shows "\<exists>v'. stream_loop (\<lambda>v. fst (ni_st v)) (noinit_step env dec ext_dec) v = (True, v') \<and>
    ni_st v' = (ibuf rest 0 e, fold (store_record fds a) rs h) \<and>
    (\<exists>j < nfields fds. ni_iter v' = iter_at fds a j) \<and>
    ni_fields_seen v' = ni_fields_seen v \<and> ni_fixed_count_field v' = ni_fixed_count_field v"
  using assms(2-6)
proof (induction rs arbitrary: i left v h)
  case Nil
  then have "left = 0" by (simp add: unat_eq_zero)
  then have "noinit_step env dec ext_dec v = Stop True v"
    using Nil by (simp add: noinit_step_def)
  then show ?case
    using Nil \<open>left = 0\<close> by (subst stream_loop.simps) auto
next
  case (Cons r rs)
  have len: "length (wire_record r) \<le> unat left" using Cons.prems(3) by simp
  obtain j es where j: "j < nfields fds" and step: "noinit_step env dec ext_dec v =
    Next (v\<lparr>ni_st := (ibuf (wire_records rs @ rest) (left - of_nat (length (wire_record r))) e, store_record fds a r h),
           ni_iter := iter_at fds a j, ni_extension_range_start := es\<rparr>)"
    using noinit_step_record [OF assms(1) Cons.prems(2) _ len, of v "wire_records rs @ rest" e h a env dec ext_dec]
      Cons.prems by auto
  let ?v = "v\<lparr>ni_st := (ibuf (wire_records rs @ rest) (left - of_nat (length (wire_record r))) e, store_record fds a r h),
           ni_iter := iter_at fds a j, ni_extension_range_start := es\<rparr>"
  have left: "unat (left - of_nat (length (wire_record r))) = length (wire_records rs)"
    using unat_diff_len [OF len] Cons.prems(3) by simp
  have pos: "0 < length (wire_record r)"
    by (cases r) (auto simp: wire_tag_def)
  obtain v' where v': "stream_loop (\<lambda>v. fst (ni_st v)) (noinit_step env dec ext_dec) ?v = (True, v')"
    "ni_st v' = (ibuf rest 0 e, fold (store_record fds a) rs (store_record fds a r h))"
    "\<exists>j < nfields fds. ni_iter v' = iter_at fds a j"
    "ni_fields_seen v' = ni_fields_seen v" "ni_fixed_count_field v' = ni_fixed_count_field v"
    using Cons.IH [OF _ j left, of ?v] Cons.prems(1) by auto
  have "stream_loop (\<lambda>v. fst (ni_st v)) (noinit_step env dec ext_dec) v = (True, v')"
    using step v'(1) left pos Cons.prems(3,4) by (subst stream_loop.simps) simp
  with v' show ?case by auto
qed

lemma run_iters_last: "run_iters (\<lambda>it _. (True, it)) its s = (True, last (s # its))"
  by (induction its arbitrary: s) simp_all

lemma flat_required_count:
  assumes "flat_fields fds" "j < nfields fds"
  shows "required_field_count (iter_at fds a j) = 0"
proof -
  let ?l = "iter_at fds a (nfields fds - 1)"
  have n: "nfields fds - 1 < nfields fds" using assms(2) by simp
  have "iter_loop (\<lambda>it _. (True, it)) (iter_at fds a j) (iter_at fds a j) = (True, ?l)"
    unfolding iter_loop_from [OF assms(2)] run_iters_last using assms(2) by (simp add: last_map)
  moreover have "PB_HTYPE (f_type (field_at fds (nfields fds - 1))) \<noteq> PB_HTYPE_REQUIRED"
    using flat_types(1) [OF flat_field_at [OF assms(1) n]] .
  ultimately show ?thesis
    using flat_iter_at [OF assms(1) n, of a] iter_at_pos [OF n, of a]
    by (simp add: required_field_count_def Let_def)
qed

lemma h_store_fixed: "h_store p bs (h\<lparr>hp_fixed_count_size := k\<rparr>) = (h_store p bs h)\<lparr>hp_fixed_count_size := k\<rparr>"
  "hp_fixed_count_size (h_store p bs h) = hp_fixed_count_size h"
  by (simp_all add: h_store_def)

lemma store_record_fixed:
  "store_record fds a r (h\<lparr>hp_fixed_count_size := k\<rparr>) = (store_record fds a r h)\<lparr>hp_fixed_count_size := k\<rparr>"
  "hp_fixed_count_size (store_record fds a r h) = hp_fixed_count_size h"
  by (auto simp: store_record_def store_field_def h_store_fixed split: pb_record.split option.split)

lemma store_records_fixed:
  "fold (store_record fds a) rs (h\<lparr>hp_fixed_count_size := k\<rparr>) =
     (fold (store_record fds a) rs h)\<lparr>hp_fixed_count_size := k\<rparr>"
  "hp_fixed_count_size (fold (store_record fds a) rs h) = hp_fixed_count_size h"
  by (induction rs arbitrary: h) (simp_all add: store_record_fixed)

text \<open>
  Decoding a sequence of records, in any order, with repetitions and with fields that the
  table does not know: each record is stored, the later ones over the earlier ones.
\<close>

lemma decode_flat_records:
  assumes "flat_fields fds" "list_all (flat_record fds) rs" "unat left = length (wire_records rs)"
  shows "pb_decode_noinit env fds a (ibuf (wire_records rs @ rest) left e, h) =
    (True, ibuf rest 0 e, fold (store_record fds a) rs h)"
proof -
  have n: "0 < nfields fds" using assms(1) by (simp add: flat_fields_def)
  let ?v = "\<lparr>ni_st = (ibuf (wire_records rs @ rest) left e, h\<lparr>hp_fixed_count_size := 0\<rparr>),
    ni_iter = iter_at fds a 0, ni_fields_seen = [0, 0], ni_extension_range_start = 0,
    ni_fixed_count_field = None\<rparr>"
  have "noinit_run env dec ext_dec fds a (ibuf (wire_records rs @ rest) left e, h) =
    (True, ibuf rest 0 e, fold (store_record fds a) rs h)" for dec ext_dec
  proof -
    obtain v' where v': "stream_loop (\<lambda>v. fst (ni_st v)) (noinit_step env dec ext_dec) ?v = (True, v')"
      "ni_st v' = (ibuf rest 0 e, fold (store_record fds a) rs (h\<lparr>hp_fixed_count_size := 0\<rparr>))"
      "\<exists>j < nfields fds. ni_iter v' = iter_at fds a j"
      "ni_fields_seen v' = [0, 0]" "ni_fixed_count_field v' = None"
      using noinit_loop_records [OF assms(1,2) n assms(3), of ?v] by fastforce
    then have "noinit_end v' = (True, ni_st v')"
      using flat_required_count [OF assms(1)]
      by (auto simp: noinit_end_def fixed_count_ok_def required_fields_seen_def)
    then show ?thesis
      using v'(1,2) store_records_fixed(2) [of fds a rs h]
      by (simp add: noinit_run_def iter_begin_at store_records_fixed)
  qed
  then show ?thesis by (subst pb_decode_noinit.simps)
qed

section \<open>Properties of decoding\<close>

text \<open>
  (C26) Skipping an unknown field: \<open>pb_skip_field\<close> with the wire type of a value consumes
  exactly the bytes of that value, for every kind of value, and leaves what follows.
\<close>

theorem pb_skip_field_exact:
  assumes "short_value v" "length (wire_value v) \<le> unat n"
  shows "pb_skip_field (pb_istream_from_buffer (wire_value v @ rest) n) (of_nat (wire_type v)) =
    (True, pb_istream_from_buffer rest (n - of_nat (length (wire_value v))))"
  unfolding pb_istream_from_buffer_def by (rule skip_wire_value [OF assms])

text \<open>
  (C24) Decoding a message of optional scalar fields: any sequence of records, each of an
  unknown field or of a value that fits its field, is accepted; memory is changed exactly
  as if the records were stored one after the other (a has-flag and the value's bytes), so
  that the last record of a field wins, and all input is consumed.
\<close>

theorem pb_decode_noinit_records:
  assumes "flat_fields fds" "list_all (flat_record fds) rs" "length (wire_records rs) < 2 ^ 64"
  shows "pb_decode_noinit env fds a
      (pb_istream_from_buffer (wire_records rs @ rest) (of_nat (length (wire_records rs))), h) =
    (True, pb_istream_from_buffer rest 0, fold (store_record fds a) rs h)"
  unfolding pb_istream_from_buffer_def
  using assms(3) by (intro decode_flat_records [OF assms(1,2)] unat_of_nat_small) simp

end
