(* ===== verification/Pb_Roundtrip.thy ===== *)
theory Pb_Roundtrip
  imports Pb_Decode_Spec
begin

text \<open>
  Decoding what was encoded: for messages of optional scalar fields, the destination struct
  holds the same message as the source struct. The layout of the fields, on which this
  rests, is an executable check of the field table.
\<close>

section \<open>Sequences of writes\<close>

definition apply_writes :: "(addr \<times> byte list) list \<Rightarrow> mem \<Rightarrow> mem" where
  "apply_writes ws m = fold (\<lambda>(p, bs) m. store_bytes m p bs) ws m"

lemma apply_writes_simps [simp]:
  "apply_writes [] m = m" "apply_writes (ws @ ws') m = apply_writes ws' (apply_writes ws m)"
  "apply_writes ((p, bs) # ws) m = apply_writes ws (store_bytes m p bs)"
  by (simp_all add: apply_writes_def)

text \<open>The writes that leave a region alone.\<close>

definition spares :: "(addr \<times> byte list) list \<Rightarrow> addr \<Rightarrow> nat \<Rightarrow> bool" where
  "spares ws p n \<longleftrightarrow> (\<forall>w \<in> set ws. region (fst w) (length (snd w)) \<inter> region p n = {})"

lemma spares_append [simp]:
  "spares (ws @ ws') p n \<longleftrightarrow> spares ws p n \<and> spares ws' p n"
  "spares ((q, cs) # ws) p n \<longleftrightarrow> region q (length cs) \<inter> region p n = {} \<and> spares ws p n"
  by (auto simp: spares_def)

lemma load_apply_writes_disjoint:
  assumes "spares ws p n" "n \<le> 2 ^ 64"
  shows "load_bytes (apply_writes ws m) p n = load_bytes m p n"
  using assms(1)
proof (induction ws arbitrary: m)
  case (Cons w ws)
  obtain q cs where w: "w = (q, cs)" by fastforce
  have "load_bytes (store_bytes m q cs) p n = load_bytes m p n"
    using Cons.prems w assms(2) by (intro load_store_bytes_disjoint) auto
  with Cons w show ?case by simp
qed simp

lemma load_last_write:
  assumes "spares ws' p (length bs)" "length bs \<le> 2 ^ 64"
  shows "load_bytes (apply_writes (ws @ (p, bs) # ws') m) p (length bs) = bs"
  using load_apply_writes_disjoint [OF assms] by (simp add: load_store_bytes_same [OF assms(2)])

lemma region_offset:
  assumes "unat x + l \<le> 2 ^ 64" "z \<in> region (a + x) l"
  shows "unat x \<le> unat (z - a)" "unat (z - a) < unat x + l"
proof -
  have l: "unat (z - a - x) < l" using assms(2) by (simp add: region_def diff_diff_eq)
  have "unat (x + (z - a - x)) = unat x + unat (z - a - x)"
    using l assms(1) by (intro unat_add_lem [THEN iffD1]) simp
  then show "unat x \<le> unat (z - a)" "unat (z - a) < unat x + l" using l by simp_all
qed

lemma regions_disjoint:
  assumes "unat x + l \<le> unat y \<or> unat y + k \<le> unat x" "unat x + l \<le> 2 ^ 64" "unat y + k \<le> 2 ^ 64"
  shows "region (a + x) l \<inter> region (a + y) k = {}"
  using region_offset [OF assms(2)] region_offset [OF assms(3)] assms(1) by fastforce

lemma region_mono: "n \<le> k \<Longrightarrow> region p n \<subseteq> region p k"
  by (auto simp: region_def)

section \<open>Layout of a message\<close>

text \<open>
  The parts of the struct that belong to field \<open>i\<close>, as offset and length: its has-flag and
  its data. They must not overlap, and a value must fit into its field.
\<close>

definition field_slots :: "pb_field_t list \<Rightarrow> nat \<Rightarrow> (nat \<times> nat) list" where
  "field_slots fds i =
     [(unat (flag_addr fds 0 i), 1), (unat (it_pData (iter_at fds 0 i)), unat (f_data_size (field_at fds i)))]"

definition apart :: "nat \<times> nat \<Rightarrow> nat \<times> nat \<Rightarrow> bool" where
  "apart s s' \<longleftrightarrow> fst s + snd s \<le> fst s' \<or> fst s' + snd s' \<le> fst s"

definition flat_layout :: "pb_field_t list \<Rightarrow> bool" where
  "flat_layout fds \<longleftrightarrow>
     flat_fields fds \<and>
     list_all (\<lambda>i. scalar_size (field_at fds i) \<le> unat (f_data_size (field_at fds i))) [0..<nfields fds] \<and>
     list_all (\<lambda>s. fst s + snd s \<le> 2 ^ 12) (concat (map (field_slots fds) [0..<nfields fds])) \<and>
     sorted_wrt apart (concat (map (field_slots fds) [0..<nfields fds]))"

lemma flag_addr_shift: "flag_addr fds a i = a + flag_addr fds 0 i"
  by (simp add: flag_addr_def iter_at_shift [of fds a] Let_def add.assoc)

lemma pData_shift: "it_pData (iter_at fds a i) = a + it_pData (iter_at fds 0 i)"
  by (simp add: iter_at_shift [of fds a] Let_def)

text \<open>A write into the parts of field \<open>i\<close>.\<close>

definition field_write :: "pb_field_t list \<Rightarrow> addr \<Rightarrow> nat \<Rightarrow> addr \<times> byte list \<Rightarrow> bool" where
  "field_write fds a i w \<longleftrightarrow>
     fst w = flag_addr fds a i \<and> length (snd w) \<le> 1 \<or>
     fst w = it_pData (iter_at fds a i) \<and> length (snd w) \<le> unat (f_data_size (field_at fds i))"

lemma sorted_wrt_concat_distinct:
  assumes "sorted_wrt P (concat xss)" "i < j" "j < length xss" "x \<in> set (xss ! i)" "y \<in> set (xss ! j)"
  shows "P x y"
  using assms
proof (induction xss arbitrary: i j)
  case (Cons xs xss)
  then show ?case
    by (cases i; cases j) (auto simp: sorted_wrt_append dest: nth_mem)
qed simp

lemma sorted_wrt_concat_part: "sorted_wrt P (concat xss) \<Longrightarrow> xs \<in> set xss \<Longrightarrow> sorted_wrt P xs"
  by (induction xss) (auto simp: sorted_wrt_append)

lemma slots_disjoint:
  assumes "flat_layout fds" "i < nfields fds" "j < nfields fds" "i \<noteq> j"
    and "s \<in> set (field_slots fds i)" "s' \<in> set (field_slots fds j)"
  shows "apart s s'"
proof -
  have "sorted_wrt apart (concat (map (field_slots fds) [0..<nfields fds]))"
    using assms(1) by (simp add: flat_layout_def)
  from sorted_wrt_concat_distinct [OF this, of i j s s'] sorted_wrt_concat_distinct [OF this, of j i s' s]
  show ?thesis using assms(2-) by (cases "i < j") (auto simp: apart_def)
qed

lemma slot_bound:
  assumes "flat_layout fds" "i < nfields fds" "s \<in> set (field_slots fds i)"
  shows "fst s + snd s \<le> 2 ^ 64"
proof -
  have "fst s + snd s \<le> 2 ^ 12"
    using assms by (fastforce simp: flat_layout_def list_all_iff)
  then show ?thesis by simp
qed

lemma own_slots_disjoint:
  assumes "flat_layout fds" "i < nfields fds"
  shows "region (flag_addr fds a i) 1 \<inter> region (it_pData (iter_at fds a i)) (unat (f_data_size (field_at fds i))) = {}"
proof -
  have "sorted_wrt apart (field_slots fds i)"
    by (rule sorted_wrt_concat_part [of _ "map (field_slots fds) [0..<nfields fds]"])
      (use assms in \<open>auto simp: flat_layout_def\<close>)
  then show ?thesis
    unfolding flag_addr_shift [of fds a] pData_shift [of fds a]
    using slot_bound [OF assms] unat_bound [of "flag_addr fds 0 i"]
    by (intro regions_disjoint) (auto simp: field_slots_def apart_def)
qed

lemma field_write_region:
  assumes "field_write fds a i w"
  shows "\<exists>s \<in> set (field_slots fds i). region (fst w) (length (snd w)) \<subseteq> region (a + of_nat (fst s)) (snd s)"
  using assms unfolding field_write_def
proof
  assume "fst w = flag_addr fds a i \<and> length (snd w) \<le> 1"
  then show ?thesis
    using region_mono [of "length (snd w)" 1] by (auto simp: field_slots_def flag_addr_shift [of fds a])
next
  assume "fst w = it_pData (iter_at fds a i) \<and> length (snd w) \<le> unat (f_data_size (field_at fds i))"
  then show ?thesis
    using region_mono [of "length (snd w)"] by (auto simp: field_slots_def pData_shift [of fds a])
qed

lemma field_write_disjoint:
  assumes "flat_layout fds" "field_write fds a i w" "i < nfields fds" "j < nfields fds" "i \<noteq> j"
    and "s \<in> set (field_slots fds j)"
  shows "region (fst w) (length (snd w)) \<inter> region (a + of_nat (fst s)) (snd s) = {}"
proof -
  obtain s' where s': "s' \<in> set (field_slots fds i)"
    "region (fst w) (length (snd w)) \<subseteq> region (a + of_nat (fst s')) (snd s')"
    using field_write_region [OF assms(2)] by blast
  have "unat (of_nat (fst s) :: addr) = fst s" "unat (of_nat (fst s') :: addr) = fst s'"
    using assms(6) s'(1) by (auto simp: field_slots_def)
  then have "region (a + of_nat (fst s')) (snd s') \<inter> region (a + of_nat (fst s)) (snd s) = {}"
    using slots_disjoint [OF assms(1,3-5) s'(1) assms(6)] slot_bound [OF assms(1,3) s'(1)]
      slot_bound [OF assms(1,4,6)] by (intro regions_disjoint) (auto simp: apart_def)
  with s'(2) show ?thesis by blast
qed

section \<open>Round trip of a message\<close>

definition record_writes :: "pb_field_t list \<Rightarrow> addr \<Rightarrow> pb_record \<Rightarrow> (addr \<times> byte list) list" where
  "record_writes fds a r =
     (case r of
        Single tag v \<Rightarrow>
          (case field_index fds tag of
             None \<Rightarrow> []
           | Some i \<Rightarrow>
               (case scalar_bytes (field_at fds i) v of
                  Some bs \<Rightarrow> [(flag_addr fds a i, [1]), (it_pData (iter_at fds a i), bs)] | None \<Rightarrow> []))
      | Packed tag vs \<Rightarrow> [])"

definition default_writes :: "pb_field_t list \<Rightarrow> addr \<Rightarrow> nat \<Rightarrow> (addr \<times> byte list) list" where
  "default_writes fds a i =
     [(flag_addr fds a i, [0]),
      (it_pData (iter_at fds a i),
       (case f_ptr (field_at fds i) of
          PtrData bs \<Rightarrow> take (unat (f_data_size (field_at fds i))) bs
        | _ \<Rightarrow> replicate (unat (f_data_size (field_at fds i))) 0))]"

lemma store_record_writes:
  "hp_mem (fold (store_record fds a) rs h) = apply_writes (concat (map (record_writes fds a) rs)) (hp_mem h)"
proof (induction rs arbitrary: h)
  case (Cons r rs)
  have "hp_mem (store_record fds a r h) = apply_writes (record_writes fds a r) (hp_mem h)"
    by (auto simp: store_record_def record_writes_def store_field_def h_store_def
        split: pb_record.split option.split)
  with Cons show ?case by simp
qed simp

lemma set_default_writes:
  assumes "flat_fields fds" "i < nfields fds"
  shows "hp_mem (pb_field_set_to_default env (iter_at fds a i) h) = apply_writes (default_writes fds a i) (hp_mem h)"
  using flat_types [OF flat_field_at [OF assms]] flat_field_at [OF assms] flat_iter_at [OF assms] flat_psize [OF assms]
  by (subst pb_field_set_to_default.simps)
    (auto simp: iter_at_pos [OF assms(2)] flat_field_def default_writes_def set_bool_def h_store_def h_zero_def Let_def
      split: pb_ptr.split)

lemma run_iters_True: "run_iters (\<lambda>it h. (True, body it h)) its s = (True, fold body its s)"
  by (induction its arbitrary: s) simp_all

lemma set_defaults_writes:
  assumes "flat_fields fds"
  shows "hp_mem (pb_message_set_to_defaults env fds a h) =
    apply_writes (concat (map (default_writes fds a) [0..<nfields fds])) (hp_mem h)"
proof -
  have n: "nfields fds \<noteq> 0" using assms by (simp add: flat_fields_def)
  have fold: "hp_mem (fold (\<lambda>i. pb_field_set_to_default env (iter_at fds a i)) is h) =
    apply_writes (concat (map (default_writes fds a) is)) (hp_mem h)" if "set is \<subseteq> {..<nfields fds}" for "is" h
    using that by (induction "is" arbitrary: h) (simp_all add: set_default_writes [OF assms])
  show ?thesis
    using n fold [of "[0..<nfields fds]" h]
    by (simp add: pb_message_set_to_defaults_def for_each_field_def iter_begin_at iter_loop_begin
        run_iters_True iters_def fold_map comp_def atLeast0LessThan)
qed

text \<open>The records of a message in memory: for each field nothing or one record.\<close>

lemma flat_abs_field:
  assumes "flat_layout fds" "i < nfields fds"
    and "abs_field sub m (field_at fds i) (it_pData (iter_at fds a i)) = Some R"
  shows "(m (flag_addr fds a i) = 0 \<and> R = []) \<or>
    (m (flag_addr fds a i) \<noteq> 0 \<and> (\<exists>v. abs_value sub m (field_at fds i) (it_pData (iter_at fds a i)) = Some v \<and>
      R = [Single (f_tag (field_at fds i)) v]))"
proof -
  have f: "flat_field (field_at fds i)"
    using assms(1,2) by (intro flat_field_at) (simp_all add: flat_layout_def)
  then have "PB_ATYPE (f_type (field_at fds i)) \<noteq> PB_ATYPE_POINTER" by (simp add: flat_field_def pb_const)
  with f assms(3) show ?thesis
    by (auto simp: abs_field_def flat_field_def field_present_def flag_addr_def htype_neq Let_def split: if_splits)
qed

lemma abs_field_of_flag:
  assumes "flat_field f" "m (p + scast (f_size_offset f)) \<noteq> 0 \<longleftrightarrow> present"
  shows "abs_field sub m f p =
    (if present then map_option (\<lambda>v. [Single (f_tag f) v]) (abs_value sub m f p) else Some [])"
proof -
  have "PB_ATYPE (f_type f) \<noteq> PB_ATYPE_POINTER" using assms(1) by (simp add: flat_field_def pb_const)
  with assms show ?thesis
    by (simp add: abs_field_def flat_field_def field_present_def htype_neq Let_def)
qed

lemma default_field_writes: "w \<in> set (default_writes fds a i) \<Longrightarrow> field_write fds a i w"
  by (auto simp: default_writes_def field_write_def split: pb_ptr.splits)

lemma those_map_Some: "those (map g xs) = Some ys \<Longrightarrow> ys = map (\<lambda>x. the (g x)) xs \<and> (\<forall>x \<in> set xs. g x \<noteq> None)"
  by (induction xs arbitrary: ys) (auto split: option.splits)

lemma those_map_SomeI: "(\<And>x. x \<in> set xs \<Longrightarrow> g x = Some (k x)) \<Longrightarrow> those (map g xs) = Some (map k xs)"
  by (induction xs) auto

lemma concat_map_concat: "concat (map f (concat (map g xs))) = concat (map (\<lambda>x. concat (map f (g x))) xs)"
  by (induction xs) auto

lemma upt_split: "j < n \<Longrightarrow> [0..<n] = [0..<j] @ j # [Suc j..<n]"
  using upt_add_eq_append [of 0 j "n - j"] by (simp add: upt_conv_Cons)

text \<open>What the record of field \<open>i\<close> writes.\<close>

lemma single_writes:
  assumes "flat_layout fds" "i < nfields fds" "abs_value sub m (field_at fds i) p = Some v"
  obtains bs where
    "record_writes fds b (Single (f_tag (field_at fds i)) v) =
      [(flag_addr fds b i, [1]), (it_pData (iter_at fds b i), bs)]"
    "length bs \<le> unat (f_data_size (field_at fds i))"
    "\<And>m'. load_bytes m' (it_pData (iter_at fds b i)) (length bs) = bs \<Longrightarrow>
      abs_value sub m' (field_at fds i) (it_pData (iter_at fds b i)) = Some v"
    "flat_record fds (Single (f_tag (field_at fds i)) v)"
proof -
  have flat: "flat_fields fds" using assms(1) by (simp add: flat_layout_def)
  note f = flat_field_at [OF flat assms(2)]
  obtain bs where bs: "scalar_bytes (field_at fds i) v = Some bs" "length bs = scalar_size (field_at fds i)"
    "\<And>m' p'. load_bytes m' p' (length bs) = bs \<Longrightarrow> abs_value sub m' (field_at fds i) p' = Some v"
    using scalar_of_memory [OF assms(3)] f by (auto simp: flat_field_def)
  have idx: "field_index fds (f_tag (field_at fds i)) = Some i"
    using assms(2) by (simp add: field_index_Some [OF flat])
  have "scalar_size (field_at fds i) \<le> unat (f_data_size (field_at fds i))"
    using assms(1,2) by (auto simp: flat_layout_def list_all_iff)
  moreover have "short_value v"
    using bs(1) by (cases v) (auto simp: scalar_bytes_def short_value_def Let_def)
  moreover have "f_tag (field_at fds i) \<noteq> 0" by (rule tag_before_terminator [OF assms(2)])
  ultimately show thesis
    using that [of bs] bs idx f
    by (simp add: record_writes_def flat_record_def flat_field_def word_less_nat_alt)
qed

definition field_records :: "mem \<Rightarrow> pb_field_t list \<Rightarrow> addr \<Rightarrow> nat \<Rightarrow> pb_record list" where
  "field_records m fds a i = the (abs_field (abs_msg m) m (field_at fds i) (it_pData (iter_at fds a i)))"

lemma abs_msg_records:
  assumes "abs_msg m fds a = Some rs"
  shows "rs = concat (map (field_records m fds a) [0..<nfields fds])"
    and "i < nfields fds \<Longrightarrow>
      abs_field (abs_msg m) m (field_at fds i) (it_pData (iter_at fds a i)) = Some (field_records m fds a i)"
  using assms abs_msg_fields [of m fds a]
  by (auto simp: field_records_def [abs_def] dest!: those_map_Some)

lemma field_records_writes:
  assumes "flat_layout fds" "abs_msg m fds a = Some rs" "i < nfields fds"
  shows "\<And>w. w \<in> set (concat (map (record_writes fds b) (field_records m fds a i))) \<Longrightarrow> field_write fds b i w"
    and "list_all (flat_record fds) (field_records m fds a i)"
proof -
  note F = flat_abs_field [OF assms(1,3) abs_msg_records(2) [OF assms(2,3)]]
  have "(\<forall>w \<in> set (concat (map (record_writes fds b) (field_records m fds a i))). field_write fds b i w) \<and>
    list_all (flat_record fds) (field_records m fds a i)"
  proof (cases "field_records m fds a i = []")
    case False
    then obtain v where v: "abs_value (abs_msg m) m (field_at fds i) (it_pData (iter_at fds a i)) = Some v"
      "field_records m fds a i = [Single (f_tag (field_at fds i)) v]"
      using F by auto
    obtain bs where "record_writes fds b (Single (f_tag (field_at fds i)) v) =
        [(flag_addr fds b i, [1]), (it_pData (iter_at fds b i), bs)]"
      "length bs \<le> unat (f_data_size (field_at fds i))" "flat_record fds (Single (f_tag (field_at fds i)) v)"
      by (rule single_writes [OF assms(1,3) v(1)])
    then show ?thesis by (auto simp: v(2) field_write_def)
  qed simp
  then show "\<And>w. w \<in> set (concat (map (record_writes fds b) (field_records m fds a i))) \<Longrightarrow> field_write fds b i w"
    and "list_all (flat_record fds) (field_records m fds a i)" by blast+
qed

lemma writes_disjoint:
  assumes "flat_layout fds" "j < nfields fds" "len \<le> unat (f_data_size (field_at fds j))"
    and "\<forall>i \<in> set is. \<forall>w \<in> set (ws i). field_write fds b i w"
    and "set is \<subseteq> {..<nfields fds} - {j}"
  shows "spares (concat (map ws is)) (flag_addr fds b j) 1"
    and "spares (concat (map ws is)) (it_pData (iter_at fds b j)) len"
proof -
  have dis: "region (fst w) (length (snd w)) \<inter> region (b + of_nat (fst s)) (snd s) = {}"
    if w: "w \<in> set (concat (map ws is))" and s: "s \<in> set (field_slots fds j)" for w s
  proof -
    obtain i where "i \<in> set is" "w \<in> set (ws i)" using w unfolding set_concat set_map by blast
    then have "field_write fds b i w" "i < nfields fds" "i \<noteq> j" using assms(4,5) by auto
    from field_write_disjoint [OF assms(1) this(1,2) assms(2) this(3) s] show ?thesis .
  qed
  show "spares (concat (map ws is)) (flag_addr fds b j) 1"
    unfolding spares_def using dis [of _ "(unat (flag_addr fds 0 j), 1)"]
    by (simp add: field_slots_def flag_addr_shift [of fds b])
  show "spares (concat (map ws is)) (it_pData (iter_at fds b j)) len"
    unfolding spares_def
    using dis [of _ "(unat (it_pData (iter_at fds 0 j)), unat (f_data_size (field_at fds j)))"]
      region_mono [OF assms(3), of "it_pData (iter_at fds b j)"]
    by (fastforce simp: field_slots_def pData_shift [of fds b])
qed

lemma load_one: "load_bytes m p 1 = [x] \<Longrightarrow> m p = x"
  by simp

text \<open>
  After the default values and the records have been written, the field \<open>j\<close> of the
  destination holds what the field \<open>j\<close> of the source held.
\<close>

lemma flat_field_roundtrip:
  assumes "flat_layout fds" "abs_msg m fds a = Some rs" "j < nfields fds"
    and m': "m' = apply_writes (concat (map (record_writes fds b) rs))
      (apply_writes (concat (map (default_writes fds b) [0..<nfields fds])) m0)"
  shows "abs_field (abs_msg m) m' (field_at fds j) (it_pData (iter_at fds b j)) = Some (field_records m fds a j)"
proof -
  let ?W = "\<lambda>i. concat (map (record_writes fds b) (field_records m fds a i))" and ?D = "default_writes fds b"
  let ?before = "concat (map ?D [0..<j])" and ?after = "concat (map ?D [Suc j..<nfields fds])"
  let ?pre = "concat (map ?W [0..<j])" and ?post = "concat (map ?W [Suc j..<nfields fds])"
  have up: "[0..<nfields fds] = [0..<j] @ j # [Suc j..<nfields fds]" using assms(3) by (rule upt_split)
  have mem: "m' = apply_writes (?before @ ?D j @ ?after @ ?pre @ ?W j @ ?post) m0"
    unfolding m' abs_msg_records(1) [OF assms(2)] concat_map_concat by (subst (1 2) up) simp
  have f: "flat_field (field_at fds j)"
    using assms(1,3) by (intro flat_field_at) (simp_all add: flat_layout_def)
  have W: "\<forall>i \<in> set is. \<forall>w \<in> set (?W i). field_write fds b i w"
    if "set is \<subseteq> {..<nfields fds} - {j}" for "is"
    using that field_records_writes(1) [OF assms(1,2)] by (meson DiffD1 lessThan_iff subsetD)
  have D: "\<forall>i \<in> set is. \<forall>w \<in> set (?D i). field_write fds b i w" for "is"
    using default_field_writes by blast
  have sets: "set [0..<j] \<subseteq> {..<nfields fds} - {j}" "set [Suc j..<nfields fds] \<subseteq> {..<nfields fds} - {j}"
    using assms(3) by auto
  have flag_or: "m' (flag_addr fds b j) = x"
    if "m' = apply_writes (ws @ (flag_addr fds b j, [x]) # ws') m0"
      "spares ws' (flag_addr fds b j) 1" for ws ws' x
    using load_last_write [of ws' "flag_addr fds b j" "[x]" ws m0] that by simp
  note own = own_slots_disjoint [OF assms(1,3), of b]
  consider (absent) "field_records m fds a j = []"
    | (present) v where "abs_value (abs_msg m) m (field_at fds j) (it_pData (iter_at fds a j)) = Some v"
      "field_records m fds a j = [Single (f_tag (field_at fds j)) v]"
    using flat_abs_field [OF assms(1,3) abs_msg_records(2) [OF assms(2,3)]] by blast
  then show ?thesis
  proof cases
    case absent
    obtain d where d: "?D j = [(flag_addr fds b j, [0]), (it_pData (iter_at fds b j), d)]"
      "length d \<le> unat (f_data_size (field_at fds j))"
      by (auto simp: default_writes_def split: pb_ptr.splits)
    have "m' (flag_addr fds b j) = 0"
    proof (rule flag_or)
      show "m' = apply_writes (?before @ (flag_addr fds b j, [0]) #
          ((it_pData (iter_at fds b j), d) # ?after @ ?pre @ ?post)) m0"
        unfolding mem d(1) absent by simp
      show "spares ((it_pData (iter_at fds b j), d) # ?after @ ?pre @ ?post) (flag_addr fds b j) 1"
        using own region_mono [OF d(2), of "it_pData (iter_at fds b j)"]
          writes_disjoint(1) [OF assms(1,3) le0 D sets(2)]
          writes_disjoint(1) [OF assms(1,3) le0 W [OF sets(1)] sets(1)]
          writes_disjoint(1) [OF assms(1,3) le0 W [OF sets(2)] sets(2)] by auto
    qed
    then show ?thesis
      using f absent by (subst abs_field_of_flag [where present = False]) (simp_all add: flag_addr_def)
  next
    case present
    obtain bs where bs: "?W j = [(flag_addr fds b j, [1]), (it_pData (iter_at fds b j), bs)]"
      "length bs \<le> unat (f_data_size (field_at fds j))"
      "\<And>m'. load_bytes m' (it_pData (iter_at fds b j)) (length bs) = bs \<Longrightarrow>
        abs_value (abs_msg m) m' (field_at fds j) (it_pData (iter_at fds b j)) = Some v"
      using single_writes [OF assms(1,3) present(1), of b] unfolding present(2) by auto
    note post = writes_disjoint [OF assms(1,3) bs(2) W [OF sets(2)] sets(2)]
    have "m' (flag_addr fds b j) = 1"
    proof (rule flag_or)
      show "m' = apply_writes ((?before @ ?D j @ ?after @ ?pre) @ (flag_addr fds b j, [1]) #
          (it_pData (iter_at fds b j), bs) # ?post) m0"
        unfolding mem bs(1) by simp
      show "spares ((it_pData (iter_at fds b j), bs) # ?post) (flag_addr fds b j) 1"
        using own region_mono [OF bs(2), of "it_pData (iter_at fds b j)"] post(1) by auto
    qed
    moreover have "length bs \<le> 2 ^ 64"
      using bs(2) unat_bound [of "f_data_size (field_at fds j)"] by simp
    then have "load_bytes (apply_writes ((?before @ ?D j @ ?after @ ?pre @ [(flag_addr fds b j, [1])]) @
        (it_pData (iter_at fds b j), bs) # ?post) m0) (it_pData (iter_at fds b j)) (length bs) = bs"
      using post(2) by (intro load_last_write)
    then have "abs_value (abs_msg m) m' (field_at fds j) (it_pData (iter_at fds b j)) = Some v"
      by (intro bs(3)) (simp add: mem bs(1))
    ultimately show ?thesis
      using f present(2) by (subst abs_field_of_flag [where present = True]) (simp_all add: flag_addr_def)
  qed
qed

lemma decode_flat_message:
  assumes "flat_layout fds" "abs_msg m fds a = Some rs" "unat left = length (wire_records rs)"
  shows "\<exists>h'. pb_decode env fds b (ibuf (wire_records rs @ rest) left e, h) = (True, ibuf rest 0 e, h') \<and>
    abs_msg (hp_mem h') fds b = Some rs"
proof -
  have flat: "flat_fields fds" using assms(1) by (simp add: flat_layout_def)
  let ?h = "pb_message_set_to_defaults env fds b h"
  have recs: "list_all (flat_record fds) rs"
    using field_records_writes(2) [OF assms(1,2)]
    by (auto simp: abs_msg_records(1) [OF assms(2)] list_all_iff)
  have dec: "pb_decode env fds b (ibuf (wire_records rs @ rest) left e, h) =
    (True, ibuf rest 0 e, fold (store_record fds b) rs ?h)"
    using decode_flat_records [OF flat recs assms(3)] by (simp add: pb_decode_def decode_with_init_def)
  let ?m = "hp_mem (fold (store_record fds b) rs ?h)"
  have mem: "?m = apply_writes (concat (map (record_writes fds b) rs))
      (apply_writes (concat (map (default_writes fds b) [0..<nfields fds])) (hp_mem h))"
    by (simp add: store_record_writes set_defaults_writes [OF flat])
  have field: "abs_field (abs_msg ?m) ?m (field_at fds j) (it_pData (iter_at fds b j)) = Some (field_records m fds a j)"
    if "j < nfields fds" for j
  proof -
    have "PB_LTYPE (f_type (field_at fds j)) \<noteq> PB_LTYPE_SUBMESSAGE"
      using flat_types(5) [OF flat_field_at [OF flat that]] .
    then have "abs_field (abs_msg ?m) ?m (field_at fds j) p = abs_field (abs_msg m) ?m (field_at fds j) p" for p
      using flat_field_at [OF flat that]
      by (simp add: abs_field_def abs_value_def flat_field_def htype_neq Let_def pb_const)
    then show ?thesis
      using flat_field_roundtrip [OF assms(1,2) that mem] by simp
  qed
  have "those (map (\<lambda>j. abs_field (abs_msg ?m) ?m (field_at fds j) (it_pData (iter_at fds b j))) [0..<nfields fds]) =
      Some (map (field_records m fds a) [0..<nfields fds])"
    by (rule those_map_SomeI) (simp add: field)
  then have "abs_msg ?m fds b = Some (concat (map (field_records m fds a) [0..<nfields fds]))"
    by (subst abs_msg_fields) simp
  then show ?thesis
    using dec abs_msg_records(1) [OF assms(2)] by auto
qed

section \<open>Properties of the round trip\<close>

lemma encode_flat_length:
  assumes "flat_layout fds" "abs_msg m fds a = Some rs" "nfields fds < 2 ^ 32"
  shows "length (wire_records rs) < 2 ^ 63"
proof -
  have len: "length (wire_record r) \<le> 15" if r: "flat_record fds r" "r \<in> set (field_records m fds a i)"
    "i < nfields fds" for r i
  proof -
    obtain v where v: "abs_value (abs_msg m) m (field_at fds i) (it_pData (iter_at fds a i)) = Some v"
      "r = Single (f_tag (field_at fds i)) v"
      using flat_abs_field [OF assms(1) r(3) abs_msg_records(2) [OF assms(2) r(3)]] r(2) by auto
    have f: "flat_field (field_at fds i)"
      using assms(1) r(3) by (intro flat_field_at) (simp_all add: flat_layout_def)
    obtain bs where "scalar_bytes (field_at fds i) v = Some bs"
      using scalar_of_memory [OF v(1)] f by (auto simp: flat_field_def)
    then have "length (wire_value v) \<le> 10"
      using length_varint_u64 by (cases v) (auto simp: scalar_bytes_def Let_def)
    moreover have "8 * unat (f_tag (field_at fds i)) + wire_type v < 2 ^ 35"
      using unat_bound [of "f_tag (field_at fds i)"] wire_type_less [of v] by simp
    then have "length (wire_tag (f_tag (field_at fds i)) (wire_type v)) \<le> 5"
      unfolding wire_tag_def by (intro length_varint) auto
    ultimately show ?thesis by (simp add: v(2))
  qed
  have one: "length (wire_records (field_records m fds a i)) \<le> 15" if i: "i < nfields fds" for i
    using flat_abs_field [OF assms(1) i abs_msg_records(2) [OF assms(2) i]]
      len [OF _ _ i] field_records_writes(2) [OF assms(1,2) i] by (auto simp: list_all_iff)
  have "length (wire_records (concat (map (field_records m fds a) is))) \<le> 15 * length is"
    if "set is \<subseteq> {..<nfields fds}" for "is"
    using that by (induction "is") (use one in fastforce)+
  from this [of "[0..<nfields fds]"] show ?thesis
    using assms(3) abs_msg_records(1) [OF assms(2)] by (auto simp: lessThan_atLeast0)
qed

text \<open>
  (C25) Integers: what \<open>pb_encode_varint\<close> or \<open>pb_encode_svarint\<close> has written into a buffer
  is read back by \<open>pb_decode_varint\<close> and \<open>pb_decode_svarint\<close>, for all 64-bit values.
\<close>

theorem varint_roundtrip:
  assumes "unat n \<le> length buf" "unat n < 2 ^ 63"
    and "enc = pb_encode_varint \<and> dec = pb_decode_varint \<or> enc = pb_encode_svarint \<and> dec = pb_decode_svarint"
    and "enc (pb_ostream_from_buffer buf n) v = (True, s)"
  shows "\<exists>s'. dec (pb_istream_from_buffer (fst (os_state s)) (os_bytes_written s)) = (Some v, s') \<and>
    is_bytes_left s' = 0"
proof -
  have *: "\<exists>s'. pb_decode_varint (pb_istream_from_buffer (fst (os_state s)) (os_bytes_written s)) = (Some w, s') \<and>
    is_bytes_left s' = 0" if w: "pb_encode_varint (pb_ostream_from_buffer buf n) w = (True, s)" for w
  proof -
    have len: "length (varint (unat w)) < 2 ^ 63" using length_varint_u64 [of w] by simp
    have u: "unat (of_nat (length (varint (unat w))) :: size_t) = length (varint (unat w))"
      using len by (intro unat_of_nat_small) simp
    have "fst (os_state s) = varint (unat w) @ drop (length (varint (unat w))) buf"
      "os_bytes_written s = of_nat (length (varint (unat w)))"
      using encode_into_buffer [OF buf.emit_varint assms(1,2) len] w by (auto split: if_splits)
    then show ?thesis
      using decode_varint_varint [of w "of_nat (length (varint (unat w)))"] u
      by (simp add: pb_istream_from_buffer_def)
  qed
  show ?thesis
    using assms(3) assms(4) * [of v] * [of "zigzag v"]
    by (auto simp: pb_encode_svarint_def pb_decode_svarint_def unzigzag_zigzag)
qed

text \<open>
  (C23) Messages: if \<open>pb_encode\<close> has encoded the struct at \<open>a\<close> into a buffer, then
  \<open>pb_decode\<close> of the bytes it has written succeeds into any memory \<open>h\<close> at any address
  \<open>b\<close>, uses all of them, and leaves a struct that holds the same message.
\<close>

theorem encode_decode_roundtrip:
  assumes "flat_layout fds" "plain_fields fds" "nfields fds < 2 ^ 32"
    and "unat n \<le> length buf" "unat n < 2 ^ 63"
    and "pb_encode env m (pb_ostream_from_buffer buf n) fds a = (True, s)"
  shows "\<exists>s' h'. pb_decode denv fds b
      (pb_istream_from_buffer (fst (os_state s)) (os_bytes_written s), h) = (True, s', h') \<and>
    is_bytes_left s' = 0 \<and> abs_msg (hp_mem h') fds b = abs_msg m fds a"
proof -
  obtain rs where rs: "abs_msg m fds a = Some rs"
    using buf.emit_message [OF assms(2), of env m a] assms(6)
    by (cases "abs_msg m fds a") (auto simp: emits_def dest: spec [of _ "pb_ostream_from_buffer buf n"])
  have len: "length (wire_records rs) < 2 ^ 63" by (rule encode_flat_length [OF assms(1) rs assms(3)])
  have e: "buf.emit (\<lambda>s. pb_encode env m s fds a) (Some (wire_records rs))"
    using buf.emit_message [OF assms(2), of env m a] rs by simp
  have "fst (os_state s) = wire_records rs @ drop (length (wire_records rs)) buf"
    "os_bytes_written s = of_nat (length (wire_records rs))"
    using encode_into_buffer [OF e assms(4,5) len] assms(6) by (auto split: if_splits)
  moreover have "unat (of_nat (length (wire_records rs)) :: size_t) = length (wire_records rs)"
    using len by (intro unat_of_nat_small) simp
  ultimately show ?thesis
    using decode_flat_message [OF assms(1) rs, of "of_nat (length (wire_records rs))" denv b
        "drop (length (wire_records rs)) buf" None h] rs
    by (auto simp: pb_istream_from_buffer_def)
qed

end
