(* ===== verification/FBase64.thy ===== *)
theory FBase64
  imports Prelude
begin

text \<open>
  \<^verbatim>\<open>FirebaseDatabase/.../SocketRocket/fbase64.c\<close>: the Base64 encoder and decoder of the
  WebSocket handshake. \<open>f_b64_ntop\<close> prints bytes as characters, \<open>f_b64_pton\<close> reads them
  back, skipping white space.
\<close>

section \<open>The code\<close>

definition Base64 :: "byte list" where
  "Base64 = map of_char ''ABCDEFGHIJKLMNOPQRSTUVWXYZabcdefghijklmnopqrstuvwxyz0123456789+/''"

definition Pad64 :: byte where
  "Pad64 = of_char (CHR ''='')"

text \<open>
  The source is the list of the bytes at \<open>src\<close>, the target the list of those at \<open>target\<close>.
  The result is the C \<^verbatim>\<open>int\<close> that is returned and the target. A read past the end of the
  list gives 0.
\<close>

definition byte_at :: "byte list \<Rightarrow> nat \<Rightarrow> byte" where
  "byte_at bs i = (if i < length bs then bs ! i else 0)"

definition b64_output :: "byte \<Rightarrow> byte \<Rightarrow> byte \<Rightarrow> byte list" where
  "b64_output i0 i1 i2 =
     [drop_bit 2 i0, push_bit 4 (i0 AND 0x03) + drop_bit 4 i1,
      push_bit 2 (i1 AND 0x0f) + drop_bit 6 i2, i2 AND 0x3f]"

text \<open>\<^verbatim>\<open>target[datalength++] = c\<close> for a list of characters.\<close>

fun put_chars :: "byte list \<Rightarrow> size_t \<Rightarrow> byte list \<Rightarrow> byte list \<times> size_t" where
  "put_chars target datalength [] = (target, datalength)"
| "put_chars target datalength (c # cs) =
     put_chars (target[unat datalength := c]) (datalength + 1) cs"

function b64_ntop_loop ::
  "byte list \<Rightarrow> size_t \<Rightarrow> byte list \<Rightarrow> size_t \<Rightarrow> size_t \<Rightarrow>
   (byte list \<times> size_t) option \<times> byte list \<times> size_t" where
  "b64_ntop_loop src srclength target datalength targsize =
     (if 2 < srclength then
        let output = b64_output (byte_at src 0) (byte_at src 1) (byte_at src 2) in
        if datalength + 4 > targsize then (None, target, datalength)
        else
          case put_chars target datalength (map (\<lambda>d. Base64 ! unat d) output) of
            (target, datalength) \<Rightarrow>
              b64_ntop_loop (drop 3 src) (srclength - 3) target datalength targsize
      else (Some (src, srclength), target, datalength))"
  by pat_completeness auto
termination
proof (relation "measure (\<lambda>(src, n, _). unat n)", simp)
  fix src target target' :: "byte list" and n k k' t :: size_t
  assume "2 < n"
  then have "2 < unat n" and le: "3 \<le> n" by (simp_all add: word_less_nat_alt word_le_nat_alt)
  then have "unat (n - 3) < unat n" unfolding unat_sub [OF le] by simp
  then show "((drop 3 src, n - 3, target', k', t), src, n, target, k, t) \<in> measure (\<lambda>(src, n, _). unat n)"
    by simp
qed

declare b64_ntop_loop.simps [simp del]

definition b64_ntop_end :: "byte list \<Rightarrow> size_t \<Rightarrow> size_t \<Rightarrow> int \<times> byte list" where
  "b64_ntop_end target datalength targsize =
     (if datalength \<ge> targsize then (- 1, target)
      else (sint (ucast datalength :: u32), target[unat datalength := 0]))"

text \<open>The part after the loop: the last one or two bytes with padding, and the terminator.\<close>

definition b64_ntop_tail ::
  "size_t \<Rightarrow> (byte list \<times> size_t) option \<times> byte list \<times> size_t \<Rightarrow> int \<times> byte list" where
  "b64_ntop_tail targsize r =
     (case r of
        (None, target, datalength) \<Rightarrow> (- 1, target)
      | (Some (src, srclength), target, datalength) \<Rightarrow>
          if srclength \<noteq> 0 then
            let input = (\<lambda>i. if i < unat srclength then byte_at src i else 0);
                output = b64_output (input 0) (input 1) (input 2)
            in
            if datalength + 4 > targsize then (- 1, target)
            else
              case put_chars target datalength
                     [Base64 ! unat (output ! 0), Base64 ! unat (output ! 1),
                      if srclength = 1 then Pad64 else Base64 ! unat (output ! 2), Pad64] of
                (target, datalength) \<Rightarrow> b64_ntop_end target datalength targsize
          else b64_ntop_end target datalength targsize)"

definition f_b64_ntop :: "byte list \<Rightarrow> size_t \<Rightarrow> byte list \<Rightarrow> size_t \<Rightarrow> int \<times> byte list" where
  "f_b64_ntop src srclength target targsize =
     b64_ntop_tail targsize (b64_ntop_loop src srclength target 0 targsize)"

text \<open>
  \<open>isspace\<close> of the C locale. \<open>strchr\<close> gives the index in the alphabet, if any; the
  character is not the terminator here.
\<close>

definition isspace :: "byte \<Rightarrow> bool" where
  "isspace ch \<longleftrightarrow> ch = 32 \<or> 9 \<le> ch \<and> ch \<le> 13"

fun strchr :: "byte list \<Rightarrow> byte \<Rightarrow> nat option" where
  "strchr [] ch = None"
| "strchr (c # cs) ch = (if c = ch then Some 0 else map_option Suc (strchr cs ch))"

text \<open>
  The decoder's state: the position in a group of four characters, the index into the
  target, and the target, which may be a null pointer. Only then are the bounds not
  checked. The index is an \<^verbatim>\<open>unsigned int\<close>.
\<close>

record pton_t =
  pt_state :: nat
  pt_tarindex :: u32
  pt_target :: "byte list option"

definition upd_target :: "(byte list \<Rightarrow> byte list) \<Rightarrow> pton_t \<Rightarrow> pton_t" where
  "upd_target f p = p\<lparr>pt_target := map_option f (pt_target p)\<rparr>"

text \<open>The switch on a character of the alphabet; the flag is false for \<^verbatim>\<open>return (-1)\<close>.\<close>

definition pton_char :: "size_t \<Rightarrow> nat \<Rightarrow> pton_t \<Rightarrow> bool \<times> pton_t" where
  "pton_char targsize pos p =
     (let d :: byte = of_nat pos; i = unat (pt_tarindex p);
          full = (\<lambda>k :: u32. pt_target p \<noteq> None \<and> ucast (pt_tarindex p + k) \<ge> targsize)
      in
      if pt_state p = 0 then
        if full 0 then (False, p)
        else (True, (upd_target (\<lambda>t. t[i := push_bit 2 d]) p)\<lparr>pt_state := 1\<rparr>)
      else if pt_state p = 1 then
        if full 1 then (False, p)
        else (True, (upd_target (\<lambda>t. t[i := t ! i OR drop_bit 4 d, Suc i := push_bit 4 (d AND 0x0f)]) p)
                      \<lparr>pt_tarindex := pt_tarindex p + 1, pt_state := 2\<rparr>)
      else if pt_state p = 2 then
        if full 1 then (False, p)
        else (True, (upd_target (\<lambda>t. t[i := t ! i OR drop_bit 2 d, Suc i := push_bit 6 (d AND 0x03)]) p)
                      \<lparr>pt_tarindex := pt_tarindex p + 1, pt_state := 3\<rparr>)
      else
        if full 0 then (False, p)
        else (True, (upd_target (\<lambda>t. t[i := t ! i OR d]) p)
                      \<lparr>pt_tarindex := pt_tarindex p + 1, pt_state := 0\<rparr>))"

text \<open>
  The main loop. The result says how it ended: with \<open>return (-1)\<close>, at the terminator, or at
  a pad character with the characters behind it.
\<close>

datatype pton_stop = P_error | P_end | P_pad "byte list"

fun pton_loop :: "size_t \<Rightarrow> byte list \<Rightarrow> pton_t \<Rightarrow> pton_stop \<times> pton_t" where
  "pton_loop targsize [] p = (P_end, p)"
| "pton_loop targsize (ch # src) p =
     (if ch = 0 then (P_end, p)
      else if isspace ch then pton_loop targsize src p
      else if ch = Pad64 then (P_pad src, p)
      else
        (case strchr Base64 ch of
           None \<Rightarrow> (P_error, p)
         | Some pos \<Rightarrow>
             (case pton_char targsize pos p of (ok, p) \<Rightarrow>
                if \<not> ok then (P_error, p) else pton_loop targsize src p)))"

text \<open>
  \<^verbatim>\<open>for (; ch != '\0'; ch = *src++) if (!isspace(ch)) break;\<close>: what is left, from \<open>ch\<close> on,
  empty at the terminator.
\<close>

fun skip_spaces :: "byte list \<Rightarrow> byte list" where
  "skip_spaces [] = []"
| "skip_spaces (ch # src) = (if ch = 0 then [] else if isspace ch then skip_spaces src else ch # src)"

definition pton_pad_ok :: "nat \<Rightarrow> byte list \<Rightarrow> bool" where
  "pton_pad_ok state src =
     (if state = 2 then
        (case skip_spaces src of
           ch # src \<Rightarrow> ch = Pad64 \<and> skip_spaces src = []
         | [] \<Rightarrow> False)
      else if state = 3 then skip_spaces src = []
      else False)"

text \<open>The part after the loop.\<close>

definition pton_tail :: "pton_stop \<times> pton_t \<Rightarrow> int \<times> byte list option" where
  "pton_tail r =
     (case r of
        (P_error, p) \<Rightarrow> (- 1, pt_target p)
      | (P_pad src, p) \<Rightarrow>
          if \<not> pton_pad_ok (pt_state p) src then (- 1, pt_target p)
          else if (case pt_target p of None \<Rightarrow> False | Some t \<Rightarrow> byte_at t (unat (pt_tarindex p)) \<noteq> 0)
          then (- 1, pt_target p)
          else (sint (pt_tarindex p), pt_target p)
      | (P_end, p) \<Rightarrow>
          if pt_state p \<noteq> 0 then (- 1, pt_target p) else (sint (pt_tarindex p), pt_target p))"

definition f_b64_pton :: "byte list \<Rightarrow> byte list option \<Rightarrow> size_t \<Rightarrow> int \<times> byte list option" where
  "f_b64_pton src target targsize =
     pton_tail (pton_loop targsize src \<lparr>pt_state = 0, pt_tarindex = 0, pt_target = target\<rparr>)"

end
