(* ===== verification/FBase64_Spec.thy ===== *)
theory FBase64_Spec
  imports FBase64
begin

text \<open>
  Base64 as RFC 1521 describes it, and that the two functions implement it: the encoder
  writes it, the decoder accepts exactly the texts that are the encoding of some bytes, up
  to white space, and gives back these bytes.
\<close>

section \<open>The encoding\<close>

text \<open>
  The encoding of RFC 1521 and RFC 4648, from the bits of the bytes and independent of the
  code: the bits of all bytes, the most significant ones first, are cut into groups of six,
  the last one filled up with zeros; every group is a character of the alphabet; the text
  is padded with equality signs to a multiple of four characters.
\<close>

definition byte_bits_of :: "byte list \<Rightarrow> bool list" where
  "byte_bits_of bs = concat (map (\<lambda>b. map (bit b) [7, 6, 5, 4, 3, 2, 1, 0]) bs)"

fun sextets :: "bool list \<Rightarrow> nat list" where
  "sextets (b5 # b4 # b3 # b2 # b1 # b0 # bs) = horner_sum of_bool 2 [b0, b1, b2, b3, b4, b5] # sextets bs"
| "sextets [] = []"
| "sextets bs = [horner_sum of_bool 2 (rev (bs @ replicate (6 - length bs) False))]"

definition base64_char :: "nat \<Rightarrow> byte" where
  "base64_char n =
     (if n < 26 then of_nat (65 + n) else if n < 52 then of_nat (97 + (n - 26))
      else if n < 62 then of_nat (48 + (n - 52)) else if n = 62 then 43 else 47)"

definition b64 :: "byte list \<Rightarrow> byte list" where
  "b64 bs =
     (let text = map base64_char (sextets (byte_bits_of bs)) in text @ replicate ((4 - length text mod 4) mod 4) 61)"

text \<open>
  The form in which the code makes it: four digits for three bytes and padding at the end.
  It is the same text (\<open>b64_groups\<close> below).
\<close>

definition digit_char :: "byte \<Rightarrow> byte" where
  "digit_char d = Base64 ! unat d"

fun code_b64 :: "byte list \<Rightarrow> byte list" where
  "code_b64 [] = []"
| "code_b64 [a] = map digit_char (take 2 (b64_output a 0 0)) @ [Pad64, Pad64]"
| "code_b64 [a, b] = map digit_char (take 3 (b64_output a b 0)) @ [Pad64]"
| "code_b64 (a # b # c # bs) = map digit_char (b64_output a b c) @ code_b64 bs"

lemma length_b64_output [simp]: "length (b64_output a b c) = 4"
  by (simp add: b64_output_def)

lemma length_code_b64: "length (code_b64 bs) = 4 * ((length bs + 2) div 3)"
  by (induction bs rule: code_b64.induct) (simp_all, presburger)

lemma sint_of_nat_small: "n < 2 ^ 31 \<Longrightarrow> sint (of_nat n :: u32) = int n"
  by (simp add: signed_of_nat signed_take_bit_int_eq_self)

section \<open>Printing\<close>

lemma put_chars_append:
  assumes "length pre + length cs < 2 ^ 64" "length cs \<le> length t"
  shows "put_chars (pre @ t) (of_nat (length pre)) cs =
    (pre @ cs @ drop (length cs) t, of_nat (length pre + length cs))"
  using assms
proof (induction cs arbitrary: pre t)
  case Nil
  then show ?case by simp
next
  case (Cons c cs)
  then obtain x t' where t: "t = x # t'" by (cases t) auto
  have "(pre @ t)[unat (of_nat (length pre) :: size_t) := c] = (pre @ [c]) @ t'"
    using Cons.prems by (simp add: t unat_of_nat_small)
  moreover have "put_chars ((pre @ [c]) @ t') (of_nat (length (pre @ [c]))) cs =
    ((pre @ [c]) @ cs @ drop (length cs) t', of_nat (length (pre @ [c]) + length cs))"
    using Cons.prems t by (intro Cons.IH) auto
  ultimately show ?case by (simp add: t add.commute)
qed

text \<open>What a call leaves behind that did not succeed: the target has not been written outside.\<close>

definition ntop_failed :: "size_t \<Rightarrow> byte list \<Rightarrow> int \<times> byte list \<Rightarrow> bool" where
  "ntop_failed targsize target r \<longleftrightarrow>
     fst r = - 1 \<and> length (snd r) = length target \<and>
     drop (unat targsize) (snd r) = drop (unat targsize) target"

lemma ntop_end:
  assumes "unat targsize \<le> length (pre @ t)" "length pre < 2 ^ 31"
  shows "if length pre < unat targsize
    then b64_ntop_end (pre @ t) (of_nat (length pre)) targsize = (int (length pre), pre @ 0 # drop 1 t)
    else ntop_failed targsize (pre @ t) (b64_ntop_end (pre @ t) (of_nat (length pre)) targsize)"
proof -
  have u: "unat (of_nat (length pre) :: size_t) = length pre"
    using assms(2) by (simp add: unat_of_nat_small)
  have s: "sint (ucast (of_nat (length pre) :: size_t) :: u32) = int (length pre)"
    using sint_of_nat_small [OF assms(2)] assms(2) by (simp add: unsigned_of_nat take_bit_nat_eq_self)
  show ?thesis
    using assms u s by (cases t) (auto simp: b64_ntop_end_def ntop_failed_def word_le_nat_alt)
qed

lemma ntop_tail_last:
  assumes "bs \<noteq> []" "length bs < 3" "unat targsize \<le> length (pre @ t)" "length pre + 4 < 2 ^ 31"
  shows "if length pre + length (code_b64 bs) < unat targsize
    then b64_ntop_tail targsize (Some (bs, of_nat (length bs)), pre @ t, of_nat (length pre)) =
      (int (length pre + length (code_b64 bs)), pre @ code_b64 bs @ 0 # drop (Suc (length (code_b64 bs))) t)
    else ntop_failed targsize (pre @ t)
      (b64_ntop_tail targsize (Some (bs, of_nat (length bs)), pre @ t, of_nat (length pre)))"
proof -
  let ?k = "of_nat (length pre) :: size_t"
  have len: "length (code_b64 bs) = 4"
    using assms(1,2) by (cases bs rule: code_b64.cases) (simp_all add: b64_output_def)
  have k: "unat (?k + 4) = length pre + 4"
    using assms(4) unat_of_nat_small [of "length pre + 4", where 'a = 64] by simp
  have chars: "b64_ntop_tail targsize (Some (bs, of_nat (length bs)), pre @ t, ?k) =
    (if ?k + 4 > targsize then (- 1, pre @ t)
     else case put_chars (pre @ t) ?k (code_b64 bs) of (target, dl) \<Rightarrow> b64_ntop_end target dl targsize)"
    using assms(1,2)
    by (cases bs rule: code_b64.cases)
      (simp_all add: b64_ntop_tail_def b64_output_def byte_at_def digit_char_def Let_def)
  show ?thesis
  proof (cases "?k + 4 > targsize")
    case True
    then have "unat targsize < length pre + 4" by (simp add: word_less_nat_alt k)
    with True show ?thesis by (simp add: chars len ntop_failed_def)
  next
    case False
    then have room: "length pre + 4 \<le> unat targsize" by (simp add: word_less_nat_alt k)
    have put: "put_chars (pre @ t) ?k (code_b64 bs) = ((pre @ code_b64 bs) @ drop 4 t, of_nat (length (pre @ code_b64 bs)))"
      using put_chars_append [of pre "code_b64 bs" t] assms(3,4) room len by simp
    have tgt: "unat targsize \<le> length ((pre @ code_b64 bs) @ drop 4 t)"
      "length (pre @ code_b64 bs) < 2 ^ 31"
      using assms(3,4) len by auto
    have "drop (unat targsize) (pre @ code_b64 bs @ drop 4 t) = drop (unat targsize) (pre @ t)"
      using room len by (simp add: drop_append)
    then show ?thesis
      using ntop_end [OF tgt] False room len assms(3)
      by (auto simp: chars put ntop_failed_def simp del: drop_append)
  qed
qed

text \<open>The whole of the encoder, from any point of the loop on.\<close>

lemma ntop_from:
  assumes "unat targsize \<le> length (pre @ t)" "length pre + length (code_b64 bs) < 2 ^ 31"
  shows "if length pre + length (code_b64 bs) < unat targsize
    then b64_ntop_tail targsize (b64_ntop_loop bs (of_nat (length bs)) (pre @ t) (of_nat (length pre)) targsize) =
      (int (length pre + length (code_b64 bs)), pre @ code_b64 bs @ 0 # drop (Suc (length (code_b64 bs))) t)
    else ntop_failed targsize (pre @ t)
      (b64_ntop_tail targsize (b64_ntop_loop bs (of_nat (length bs)) (pre @ t) (of_nat (length pre)) targsize))"
  using assms
proof (induction bs arbitrary: pre t rule: code_b64.induct)
  case 1
  then show ?case
    using ntop_end [of targsize pre t] by (subst (1 2) b64_ntop_loop.simps) (simp add: b64_ntop_tail_def)
next
  case (2 a)
  have loop: "b64_ntop_loop [a] (of_nat (length [a])) T k targsize = (Some ([a], of_nat (length [a])), T, k)" for T k
    by (subst b64_ntop_loop.simps) simp
  show ?case
    unfolding loop by (rule ntop_tail_last) (use "2.prems" in \<open>simp_all add: length_code_b64\<close>)
next
  case (3 a b)
  have loop: "b64_ntop_loop [a, b] (of_nat (length [a, b])) T k targsize = (Some ([a, b], of_nat (length [a, b])), T, k)" for T k
    by (subst b64_ntop_loop.simps) simp
  show ?case
    unfolding loop by (rule ntop_tail_last) (use "3.prems" in \<open>simp_all add: length_code_b64\<close>)
next
  case (4 a b c bs)
  let ?k = "of_nat (length pre) :: size_t" and ?cs = "map digit_char (b64_output a b c)"
  have small: "length pre + 4 + length (code_b64 bs) < 2 ^ 31" "length bs < 2 ^ 31"
    using "4.prems"(2) by (simp_all add: length_code_b64)
  have len: "(of_nat (length (a # b # c # bs)) :: size_t) = of_nat (length bs + 3)" by simp
  have "unat (of_nat (length bs + 3) :: size_t) = length bs + 3"
    using small by (intro unat_of_nat_small) simp
  then have n: "2 < (of_nat (length (a # b # c # bs)) :: size_t)"
    "(of_nat (length (a # b # c # bs)) :: size_t) - 3 = of_nat (length bs)"
    unfolding len word_less_nat_alt by simp_all
  have k: "unat (?k + 4) = length pre + 4"
    using small unat_of_nat_small [of "length pre + 4", where 'a = 64] by simp
  have step: "b64_ntop_loop (a # b # c # bs) (of_nat (length (a # b # c # bs))) (pre @ t) ?k targsize =
    (if ?k + 4 > targsize then (None, pre @ t, ?k)
     else case put_chars (pre @ t) ?k ?cs of (target, dl) \<Rightarrow>
       b64_ntop_loop bs (of_nat (length bs)) target dl targsize)"
    using n by (subst b64_ntop_loop.simps) (simp add: byte_at_def digit_char_def [abs_def])
  show ?case
  proof (cases "?k + 4 > targsize")
    case True
    then have "unat targsize < length pre + 4" by (simp add: word_less_nat_alt k)
    with True show ?thesis unfolding step by (simp add: b64_ntop_tail_def ntop_failed_def)
  next
    case False
    then have room: "length pre + 4 \<le> unat targsize" by (simp add: word_less_nat_alt k)
    have put: "put_chars (pre @ t) ?k ?cs = ((pre @ ?cs) @ drop 4 t, of_nat (length (pre @ ?cs)))"
      using put_chars_append [of pre ?cs t] "4.prems"(1) small room by simp
    have tgt: "unat targsize \<le> length ((pre @ ?cs) @ drop 4 t)"
      "length (pre @ ?cs) + length (code_b64 bs) < 2 ^ 31"
      using "4.prems"(1) small by auto
    have "drop (unat targsize) (pre @ ?cs @ drop 4 t) = drop (unat targsize) (pre @ t)"
      using room by (simp add: drop_append)
    moreover have "length (pre @ ?cs @ drop 4 t) = length (pre @ t)"
      using "4.prems"(1) room by simp
    ultimately show ?thesis
      unfolding step put using "4.IH" [OF tgt] False
      by (auto simp: ntop_failed_def add.assoc simp del: drop_append)
  qed
qed

section \<open>The alphabet\<close>

lemma strchr_Some: "strchr cs ch = Some i \<longleftrightarrow> i < length cs \<and> cs ! i = ch \<and> (\<forall>j < i. cs ! j \<noteq> ch)"
proof (induction cs arbitrary: i)
  case Nil
  then show ?case by simp
next
  case (Cons c cs)
  show ?case
    using Cons.IH by (cases i) (auto simp: less_Suc_eq_0_disj nth_Cons split: nat.splits)
qed

lemma Base64_code [code]:
  "Base64 =
     [65, 66, 67, 68, 69, 70, 71, 72, 73, 74, 75, 76, 77, 78, 79, 80, 81, 82, 83, 84, 85, 86, 87, 88, 89, 90,
      97, 98, 99, 100, 101, 102, 103, 104, 105, 106, 107, 108, 109, 110, 111, 112, 113, 114, 115, 116, 117,
      118, 119, 120, 121, 122, 48, 49, 50, 51, 52, 53, 54, 55, 56, 57, 43, 47]"
  by code_simp

lemma length_Base64 [simp]: "length Base64 = 64"
  by (simp add: Base64_code)

lemma Base64_chars:
  "distinct Base64" "list_all (\<lambda>c. c \<noteq> Pad64 \<and> c \<noteq> 0 \<and> \<not> isspace c) Base64"
  by code_simp+

lemma digit_char_facts:
  assumes "d < 64"
  shows "strchr Base64 (digit_char d) = Some (unat d)" "digit_char d \<noteq> Pad64"
    "digit_char d \<noteq> 0" "\<not> isspace (digit_char d)"
proof -
  have d: "unat d < 64" using assms by (simp add: word_less_nat_alt)
  then show "strchr Base64 (digit_char d) = Some (unat d)"
    using Base64_chars(1) by (auto simp: strchr_Some digit_char_def nth_eq_iff_index_eq)
  have "digit_char d \<in> set Base64" using d by (simp add: digit_char_def)
  then show "digit_char d \<noteq> Pad64" "digit_char d \<noteq> 0" "\<not> isspace (digit_char d)"
    using Base64_chars(2) by (auto simp: list_all_iff)
qed

lemma strchr_Base64:
  "strchr Base64 ch = Some i \<Longrightarrow> (of_nat i :: byte) < 64 \<and> ch = digit_char (of_nat i) \<and> unat (of_nat i :: byte) = i"
  by (auto simp: strchr_Some digit_char_def word_less_nat_alt unat_of_nat_small)

section \<open>Groups of four digits\<close>

lemma mask_bits: "(a :: byte) AND 0x03 = take_bit 2 a" "a AND 0x0f = take_bit 4 a" "a AND 0x3f = take_bit 6 a"
  by (simp_all add: take_bit_eq_mask mask_eq_exp_minus_1 del: take_bit_eq_mask_iff)

lemma byte_eq8:
  "(x :: byte) = y \<longleftrightarrow> bit x 0 = bit y 0 \<and> bit x 1 = bit y 1 \<and> bit x 2 = bit y 2 \<and> bit x 3 = bit y 3 \<and>
     bit x 4 = bit y 4 \<and> bit x 5 = bit y 5 \<and> bit x 6 = bit y 6 \<and> bit x 7 = bit y 7"
proof
  assume eq: "bit x 0 = bit y 0 \<and> bit x 1 = bit y 1 \<and> bit x 2 = bit y 2 \<and> bit x 3 = bit y 3 \<and>
     bit x 4 = bit y 4 \<and> bit x 5 = bit y 5 \<and> bit x 6 = bit y 6 \<and> bit x 7 = bit y 7"
  show "x = y"
  proof (rule bit_word_eqI)
    fix k assume "k < LENGTH(8)"
    then have "k = 0 \<or> k = 1 \<or> k = 2 \<or> k = 3 \<or> k = 4 \<or> k = 5 \<or> k = 6 \<or> k = 7" by auto
    then show "bit x k = bit y k" using eq by blast
  qed
qed simp

lemma less_64: "(d :: byte) < 64 \<longleftrightarrow> \<not> bit d 6 \<and> \<not> bit d 7"
proof -
  have "d < 64 \<longleftrightarrow> unat (drop_bit 6 d) = 0"
    unfolding unat_drop_bit by (simp add: word_less_nat_alt div_eq_0_iff)
  also have "\<dots> \<longleftrightarrow> drop_bit 6 d = 0" by (rule unat_eq_zero)
  also have "\<dots> \<longleftrightarrow> \<not> bit d 6 \<and> \<not> bit d 7"
    unfolding byte_eq8 by (simp add: bit_drop_bit_eq) (auto dest: bit_imp_le_length)
  finally show ?thesis .
qed

lemma output_or:
  "b64_output a b c = [drop_bit 2 a, push_bit 4 (take_bit 2 a) OR drop_bit 4 b,
     push_bit 2 (take_bit 4 b) OR drop_bit 6 c, take_bit 6 c]"
proof -
  have "push_bit 4 (take_bit 2 a) + drop_bit 4 b = push_bit 4 (take_bit 2 a) OR drop_bit 4 b"
    by (rule disjunctive_add) (auto simp: bit_push_bit_iff bit_drop_bit_eq dest: bit_imp_le_length)
  moreover have "push_bit 2 (take_bit 4 b) + drop_bit 6 c = push_bit 2 (take_bit 4 b) OR drop_bit 6 c"
    by (rule disjunctive_add) (auto simp: bit_push_bit_iff bit_drop_bit_eq dest: bit_imp_le_length)
  ultimately show ?thesis by (simp add: b64_output_def mask_bits)
qed

definition undigits :: "byte \<Rightarrow> byte \<Rightarrow> byte \<Rightarrow> byte \<Rightarrow> byte list" where
  "undigits d0 d1 d2 d3 =
     [push_bit 2 d0 OR drop_bit 4 d1, push_bit 4 (d1 AND 0x0f) OR drop_bit 2 d2, push_bit 6 (d2 AND 0x03) OR d3]"

lemma byte_high: "8 \<le> k \<Longrightarrow> \<not> bit (b :: byte) k"
  using bit_imp_le_length [of b k] by auto

lemmas byte_bits = bit_or_iff bit_push_bit_iff bit_drop_bit_eq bit_take_bit_iff byte_high

lemma undigits_output:
  "undigits (drop_bit 2 a) (push_bit 4 (take_bit 2 a) OR drop_bit 4 b)
     (push_bit 2 (take_bit 4 b) OR drop_bit 6 c) (take_bit 6 c) = [a, b, c]"
  unfolding undigits_def mask_bits list.inject
proof (intro conjI)
  show "push_bit 2 (drop_bit 2 a) OR drop_bit 4 (push_bit 4 (take_bit 2 a) OR drop_bit 4 b) = a"
    unfolding byte_eq8 by (simp add: byte_bits)
  show "push_bit 4 (take_bit 4 (push_bit 4 (take_bit 2 a) OR drop_bit 4 b)) OR
      drop_bit 2 (push_bit 2 (take_bit 4 b) OR drop_bit 6 c) = b"
    unfolding byte_eq8 by (simp add: byte_bits)
  show "push_bit 6 (take_bit 2 (push_bit 2 (take_bit 4 b) OR drop_bit 6 c)) OR take_bit 6 c = c"
    unfolding byte_eq8 by (simp add: byte_bits)
qed simp

lemma output_less_64:
  "drop_bit 2 a < (64 :: byte)" "push_bit 4 (take_bit 2 a) OR drop_bit 4 b < (64 :: byte)"
  "push_bit 2 (take_bit 4 b) OR drop_bit 6 c < (64 :: byte)" "take_bit 6 c < (64 :: byte)"
  unfolding less_64 by (simp_all add: byte_bits)

lemma output_of_digits:
  assumes "d0 < 64" "d1 < 64" "d2 < 64" "d3 < 64" and "undigits d0 d1 d2 d3 = [a, b, c]"
  shows "b64_output a b c = [d0, d1, d2, d3]"
proof -
  have a: "a = push_bit 2 d0 OR drop_bit 4 d1" and b: "b = push_bit 4 (take_bit 4 d1) OR drop_bit 2 d2"
    and c: "c = push_bit 6 (take_bit 2 d2) OR d3"
    using assms(5) by (simp_all add: undigits_def mask_bits)
  have "drop_bit 2 a = d0" "push_bit 4 (take_bit 2 a) OR drop_bit 4 b = d1"
    "push_bit 2 (take_bit 4 b) OR drop_bit 6 c = d2" "take_bit 6 c = d3"
    using assms(1-4) unfolding less_64 a b c byte_eq8 by (simp_all add: byte_bits)
  then show ?thesis by (simp add: output_or)
qed

section \<open>The inverse\<close>

definition digit :: "byte \<Rightarrow> byte option" where
  "digit c = map_option of_nat (strchr Base64 c)"

lemma digit_Some: "digit c = Some d \<longleftrightarrow> d < 64 \<and> c = digit_char d"
  using digit_char_facts(1) [of d] strchr_Base64 [of c]
  by (auto simp: digit_def)

lemma digit_Pad64: "digit Pad64 = None"
  by code_simp

text \<open>Reading four characters at a time; the bits that padding leaves over must be zero.\<close>

fun unb64 :: "byte list \<Rightarrow> byte list option" where
  "unb64 [] = Some []"
| "unb64 (c0 # c1 # c2 # c3 # cs) =
     (case (digit c0, digit c1, digit c2, digit c3) of
        (Some d0, Some d1, Some d2, Some d3) \<Rightarrow> map_option ((@) (undigits d0 d1 d2 d3)) (unb64 cs)
      | (Some d0, Some d1, Some d2, None) \<Rightarrow>
          if c3 = Pad64 \<and> cs = [] \<and> undigits d0 d1 d2 0 ! 2 = 0
          then Some (take 2 (undigits d0 d1 d2 0)) else None
      | (Some d0, Some d1, None, _) \<Rightarrow>
          if c2 = Pad64 \<and> c3 = Pad64 \<and> cs = [] \<and> undigits d0 d1 0 0 ! 1 = 0
          then Some (take 1 (undigits d0 d1 0 0)) else None
      | _ \<Rightarrow> None)"
| "unb64 [_] = None"
| "unb64 [_, _] = None"
| "unb64 [_, _, _] = None"

lemma undigits_list: "undigits d0 d1 d2 d3 = [undigits d0 d1 d2 d3 ! 0, undigits d0 d1 d2 d3 ! 1, undigits d0 d1 d2 d3 ! 2]"
  by (simp add: undigits_def)

lemma length_undigits [simp]: "length (undigits d0 d1 d2 d3) = 3"
  by (simp add: undigits_def)

lemma digit_output:
  "digit (digit_char d) = Some d" if "d < 64"
  using that by (simp add: digit_Some)

lemma unb64_code: "unb64 (code_b64 bs) = Some bs"
proof (induction bs rule: code_b64.induct)
  case 1
  then show ?case by simp
next
  case (2 a)
  show ?case
    using undigits_output [of a 0 0] output_less_64(2) [of a 0]
    by (simp add: output_or digit_output output_less_64 digit_Pad64)
next
  case (3 a b)
  show ?case
    using undigits_output [of a b 0] output_less_64(3) [of b 0]
    by (simp add: output_or digit_output output_less_64 digit_Pad64)
next
  case (4 a b c bs)
  then show ?case
    by (simp add: output_or digit_output output_less_64 undigits_output)
qed

lemma code_unb64: "unb64 cs = Some bs \<Longrightarrow> code_b64 bs = cs"
proof (induction cs arbitrary: bs rule: unb64.induct)
  case (2 c0 c1 c2 c3 cs)
  obtain d0 d1 where d: "digit c0 = Some d0" "digit c1 = Some d1"
    using "2.prems" by (auto split: option.splits)
  then have lt: "d0 < 64" "d1 < 64" "c0 = digit_char d0" "c1 = digit_char d1" by (simp_all add: digit_Some)
  consider (full) d2 d3 where "digit c2 = Some d2" "digit c3 = Some d3"
    | (two) d2 where "digit c2 = Some d2" "digit c3 = None" | (one) "digit c2 = None"
    by fastforce
  then show ?case
  proof cases
    case full
    then obtain bs' where bs': "unb64 cs = Some bs'" "bs = undigits d0 d1 d2 d3 @ bs'"
      using "2.prems" d by auto
    have lt2: "d2 < 64" "d3 < 64" "c2 = digit_char d2" "c3 = digit_char d3"
      using full by (simp_all add: digit_Some)
    have "code_b64 bs' = cs" using "2.IH" d full bs' by simp
    moreover have "code_b64 bs = map digit_char [d0, d1, d2, d3] @ code_b64 bs'"
      using output_of_digits [OF lt(1,2) lt2(1,2) undigits_list] bs'(2)
      by (subst (asm) undigits_list) simp
    ultimately show ?thesis using lt lt2 by simp
  next
    case two
    have lt2: "d2 < 64" "c2 = digit_char d2"
      using two by (simp_all add: digit_Some)
    have bs: "c3 = Pad64" "cs = []" "undigits d0 d1 d2 0 ! 2 = 0" "bs = take 2 (undigits d0 d1 d2 0)"
      using "2.prems" d two by (simp_all split: if_splits)
    have "bs = [undigits d0 d1 d2 0 ! 0, undigits d0 d1 d2 0 ! 1]"
      using bs(4) by (subst (asm) undigits_list) simp
    then show ?thesis
      using output_of_digits [OF lt(1,2) lt2(1) _ undigits_list, of 0] bs lt lt2 by simp
  next
    case one
    have bs: "c2 = Pad64" "c3 = Pad64" "cs = []" "undigits d0 d1 0 0 ! 1 = 0" "bs = take 1 (undigits d0 d1 0 0)"
      using "2.prems" d one by (simp_all split: if_splits)
    have "bs = [undigits d0 d1 0 0 ! 0]" "undigits d0 d1 0 0 ! 2 = 0"
      using bs(5) by (simp_all add: undigits_def)
    then show ?thesis
      using output_of_digits [OF lt(1,2) _ _ undigits_list, of 0 0] bs lt by simp
  qed
qed simp_all

section \<open>Parsing\<close>

text \<open>The characters that count: up to the terminator, without white space.\<close>

definition clean :: "byte list \<Rightarrow> byte list" where
  "clean src = filter (\<lambda>c. \<not> isspace c) (takeWhile (\<lambda>c. c \<noteq> 0) src)"

lemma clean_simps [simp]:
  "clean [] = []"
  "clean (c # cs) = (if c = 0 then [] else if isspace c then clean cs else c # clean cs)"
  by (simp_all add: clean_def)

lemma Pad64_facts: "Pad64 \<noteq> 0" "\<not> isspace Pad64"
  by code_simp+

lemma clean_chars: "c \<in> set (clean src) \<Longrightarrow> c \<noteq> 0 \<and> \<not> isspace c"
  by (auto simp: clean_def dest: set_takeWhileD)

lemma clean_id: "(\<And>c. c \<in> set cs \<Longrightarrow> c \<noteq> 0 \<and> \<not> isspace c) \<Longrightarrow> clean cs = cs"
  by (induction cs) auto

lemma clean_clean [simp]: "clean (clean src) = clean src"
  by (rule clean_id) (rule clean_chars)

lemma skip_spaces_clean:
  "skip_spaces src = (case clean src of [] \<Rightarrow> [] | c # _ \<Rightarrow> c # tl (skip_spaces src))"
  "clean (tl (skip_spaces src)) = tl (clean src)"
  by (induction src) (auto split: list.split)

lemma pton_pad_ok_clean:
  "pton_pad_ok st src \<longleftrightarrow> st = 2 \<and> clean src = [Pad64] \<or> st = 3 \<and> clean src = []"
proof -
  have nil: "skip_spaces s = [] \<longleftrightarrow> clean s = []" for s
    by (induction s) auto
  show ?thesis
    using skip_spaces_clean [of src] nil [of src] nil [of "tl (skip_spaces src)"]
    by (auto simp: pton_pad_ok_def split: list.splits)
qed

lemma pton_clean: "pton_tail (pton_loop n src p) = pton_tail (pton_loop n (clean src) p)"
  by (induction src arbitrary: p)
    (auto simp: pton_tail_def pton_pad_ok_clean split: option.split prod.split)

declare pton_loop.simps(2) [simp del]

definition pst :: "nat \<Rightarrow> nat \<Rightarrow> byte list \<Rightarrow> pton_t" where
  "pst s k t = \<lparr>pt_state = s, pt_tarindex = of_nat k, pt_target = Some t\<rparr>"

lemma pst_simps [simp]: "pt_state (pst s k t) = s" "pt_target (pst s k t) = Some t"
  by (simp_all add: pst_def)

lemma unat_index:
  "k + 1 < 2 ^ 32 \<Longrightarrow> unat (of_nat k :: u32) = k \<and> unat (of_nat k + 1 :: u32) = Suc k"
proof -
  assume k: "k + 1 < 2 ^ 32"
  have "unat (of_nat (k + 1) :: u32) = k + 1" using k by (intro unat_of_nat_small) simp
  moreover have "unat (of_nat k :: u32) = k" using k by (intro unat_of_nat_small) simp
  ultimately show ?thesis by (simp only: of_nat_add of_nat_1 Suc_eq_plus1)
qed

text \<open>One character of the alphabet in each state.\<close>

lemma pton_char_steps:
  assumes "k + 1 < 2 ^ 32"
  shows
    "pton_char n (unat d) (pst 0 k t) =
      (if unat n \<le> k then (False, pst 0 k t) else (True, pst 1 k (t[k := push_bit 2 d])))"
    "pton_char n (unat d) (pst (Suc 0) k t) =
      (if unat n \<le> k + 1 then (False, pst 1 k t)
       else (True, pst 2 (k + 1) (t[k := t ! k OR drop_bit 4 d, k + 1 := push_bit 4 (d AND 0x0f)])))"
    "pton_char n (unat d) (pst 2 k t) =
      (if unat n \<le> k + 1 then (False, pst 2 k t)
       else (True, pst 3 (k + 1) (t[k := t ! k OR drop_bit 2 d, k + 1 := push_bit 6 (d AND 0x03)])))"
    "pton_char n (unat d) (pst 3 k t) =
      (if unat n \<le> k then (False, pst 3 k t) else (True, pst 0 (k + 1) (t[k := t ! k OR d])))"
  using unat_index [OF assms]
  by (simp_all add: pst_def pton_char_def upd_target_def Let_def word_le_nat_alt add.commute)

lemma pton_loop_steps:
  assumes "c \<noteq> 0" "\<not> isspace c"
  shows
    "digit c = Some d \<Longrightarrow> pton_loop n (c # cs) p =
      (case pton_char n (unat d) p of (ok, p) \<Rightarrow> if \<not> ok then (P_error, p) else pton_loop n cs p)"
    "digit c = None \<Longrightarrow> pton_loop n (c # cs) p = (if c = Pad64 then P_pad cs else P_error, p)"
  using assms digit_char_facts [of d] digit_Pad64 by (auto simp: pton_loop.simps(2) digit_Some) (auto simp: digit_def)

definition need :: "byte list \<Rightarrow> nat" where
  "need bs = length bs + (if length bs mod 3 = 0 then 0 else 1)"

text \<open>What a successful call has done, from index \<open>k\<close> on.\<close>

definition pton_good :: "size_t \<Rightarrow> nat \<Rightarrow> byte list \<Rightarrow> byte list \<Rightarrow> int \<times> byte list option \<Rightarrow> bool" where
  "pton_good n k t bs r \<longleftrightarrow>
     (\<exists>t'. r = (int (k + length bs), Some t') \<and> length t' = length t \<and>
       take (k + length bs) t' = take k t @ bs \<and> drop (unat n) t' = drop (unat n) t)"

definition pton_meets :: "size_t \<Rightarrow> nat \<Rightarrow> byte list \<Rightarrow> byte list option \<Rightarrow> int \<times> byte list option \<Rightarrow> bool" where
  "pton_meets n k t b r \<longleftrightarrow>
     (case b of
        None \<Rightarrow> fst r = - 1
      | Some bs \<Rightarrow> if k + need bs \<le> unat n then pton_good n k t bs r else fst r = - 1)"

lemma pton_tail_simps [simp]:
  "pton_tail (P_error, p) = (- 1, pt_target p)"
  "pton_tail (P_end, p) = (if pt_state p \<noteq> 0 then - 1 else sint (pt_tarindex p), pt_target p)"
  by (simp_all add: pton_tail_def)

lemma pton_tail_pad:
  "k + 1 < 2 ^ 31 \<Longrightarrow> k < length t \<Longrightarrow> pton_tail (P_pad cs, pst s k t) =
     (if (s = 2 \<and> clean cs = [Pad64] \<or> s = 3 \<and> clean cs = []) \<and> t ! k = 0 then int k else - 1, Some t)"
  using unat_index [of k] sint_of_nat_small [of k]
  by (auto simp: pst_def pton_tail_def pton_pad_ok_clean byte_at_def)

lemma pton_tail_pad_early: "s < 2 \<Longrightarrow> fst (pton_tail (P_pad cs, pst s k t)) = - 1"
  by (simp add: pst_def pton_tail_def pton_pad_ok_clean)

lemma take_update:
  "k < length t \<Longrightarrow> take (Suc k) (t[k := a]) = take k t @ [a]"
  "Suc k < length t \<Longrightarrow> take (Suc (Suc k)) (t[k := a, Suc k := b]) = take k t @ [a, b]"
  by (simp_all add: take_Suc_conv_app_nth)

lemma take_update3:
  "k + 3 \<le> length t \<Longrightarrow> take (k + 3) (t[k := a, k + 1 := b, k + 2 := c]) = take k t @ [a, b, c]"
  by (rule nth_equalityI) (auto simp: nth_list_update nth_append nth_Cons split: nat.split)

lemma pton_meets_group:
  assumes "length u = 3" "k + 3 \<le> unat n" "unat n \<le> length t"
    and "pton_meets n (k + 3) (t[k := u ! 0, k + 1 := u ! 1, k + 2 := u ! 2]) b r"
  shows "pton_meets n k t (map_option ((@) u) b) r"
proof (cases b)
  case None
  then show ?thesis using assms(4) by (simp add: pton_meets_def)
next
  case (Some bs)
  let ?t = "t[k := u ! 0, k + 1 := u ! 1, k + 2 := u ! 2]"
  have len: "k + need (u @ bs) = k + 3 + need bs" by (simp add: need_def assms(1))
  have u: "u = [u ! 0, u ! 1, u ! 2]"
    using assms(1) by (intro nth_equalityI) (auto simp: nth_Cons less_Suc_eq numeral_2_eq_2 split: nat.split)
  have "take (k + 3) ?t = take k t @ u"
    using take_update3 [of k t "u ! 0" "u ! 1" "u ! 2"] assms(2,3) u by simp
  moreover have "drop (unat n) ?t = drop (unat n) t"
    using assms(2) by simp
  ultimately have "pton_good n k t (u @ bs) r" if "pton_good n (k + 3) ?t bs r"
    using that assms(1) by (auto simp: pton_good_def add.assoc)
  with Some assms(4) show ?thesis
    by (auto simp: pton_meets_def len split: if_splits)
qed

lemma pton_from:
  assumes "\<forall>c \<in> set cs. c \<noteq> 0 \<and> \<not> isspace c" "k + length cs < 2 ^ 31" "unat n \<le> length t" "k \<le> unat n"
  shows "pton_meets n k t (unb64 cs) (pton_tail (pton_loop n cs (pst 0 k t)))"
  using assms
proof (induction cs arbitrary: k t rule: unb64.induct)
  case 1
  then show ?case
    by (simp add: pst_def pton_meets_def need_def pton_good_def sint_of_nat_small)
next
  case (2 c0 c1 c2 c3 cs)
  note steps = pton_loop_steps pton_char_steps
  have ok: "c0 \<noteq> 0" "\<not> isspace c0" "c1 \<noteq> 0" "\<not> isspace c1" "c2 \<noteq> 0" "\<not> isspace c2" "c3 \<noteq> 0" "\<not> isspace c3"
    and rest: "clean (c3 # cs) = c3 # cs" "clean cs = cs" and k: "k + 4 + length cs < 2 ^ 31"
    using "2.prems"(1,2) clean_id [of cs] clean_id [of "c3 # cs"] by auto
  consider "digit c0 = None" | d0 where "digit c0 = Some d0" "digit c1 = None"
    | (one) d0 d1 where "digit c0 = Some d0" "digit c1 = Some d1" "digit c2 = None"
    | (two) d0 d1 d2 where "digit c0 = Some d0" "digit c1 = Some d1" "digit c2 = Some d2" "digit c3 = None"
    | (full) d0 d1 d2 d3 where
        "digit c0 = Some d0" "digit c1 = Some d1" "digit c2 = Some d2" "digit c3 = Some d3"
    by fastforce
  then show ?case
  proof cases
    case one
    have "undigits d0 d1 0 0 = [push_bit 2 d0 OR drop_bit 4 d1, push_bit 4 (d1 AND 15), 0]"
      by (simp add: undigits_def)
    with one show ?thesis
      using ok rest k "2.prems"(3)
      by (auto simp: steps pton_meets_def pton_good_def need_def pton_tail_pad take_update)
  next
    case two
    have "undigits d0 d1 d2 0 = [push_bit 2 d0 OR drop_bit 4 d1, push_bit 4 (d1 AND 15) OR drop_bit 2 d2, push_bit 6 (d2 AND 3)]"
      by (simp add: undigits_def)
    with two show ?thesis
      using ok rest k "2.prems"(3)
      by (auto simp: steps pton_meets_def pton_good_def need_def pton_tail_pad take_update)
  next
    case full
    let ?t = "t[k := undigits d0 d1 d2 d3 ! 0, k + 1 := undigits d0 d1 d2 d3 ! 1, k + 2 := undigits d0 d1 d2 d3 ! 2]"
    have k3: "k + 3 = Suc (Suc (Suc k))" by simp
    show ?thesis
    proof (cases "k + 3 \<le> unat n")
      case True
      have loop: "pton_loop n (c0 # c1 # c2 # c3 # cs) (pst 0 k t) = pton_loop n cs (pst 0 (k + 3) ?t)"
        using ok full k True "2.prems"(3) by (simp add: steps undigits_def k3)
      have "pton_meets n (k + 3) ?t (unb64 cs) (pton_tail (pton_loop n cs (pst 0 (k + 3) ?t)))"
        by (rule "2.IH" [simplified full, OF refl refl refl refl refl refl refl])
          (use "2.prems" k True in auto)
      then have "pton_meets n k t (map_option ((@) (undigits d0 d1 d2 d3)) (unb64 cs))
          (pton_tail (pton_loop n cs (pst 0 (k + 3) ?t)))"
        using True "2.prems"(3) by (intro pton_meets_group) (simp_all add: undigits_def)
      then show ?thesis
        unfolding loop using full by simp
    next
      case False
      then show ?thesis
        using ok full k by (auto simp: steps pton_meets_def need_def split: option.splits)
    qed
  qed (use ok k in \<open>auto simp: steps pton_meets_def pton_tail_pad_early\<close>)
next
  case (3 c0)
  then show ?case
    by (cases "digit c0") (auto simp: pton_loop_steps pton_char_steps pton_meets_def pton_tail_pad_early)
next
  case (4 c0 c1)
  then show ?case
    by (cases "digit c0"; cases "digit c1")
      (auto simp: pton_loop_steps pton_char_steps pton_meets_def pton_tail_pad_early)
next
  case (5 c0 c1 c2)
  then show ?case
    by (cases "digit c0"; cases "digit c1"; cases "digit c2")
      (auto simp: pton_loop_steps pton_char_steps pton_meets_def pton_tail_pad_early pton_tail_pad)
qed

lemma pton_correct:
  assumes "length (clean src) < 2 ^ 31" "unat n \<le> length t"
  shows "pton_meets n 0 t (unb64 (clean src)) (f_b64_pton src (Some t) n)"
  using pton_from [of "clean src" 0 n t] assms clean_chars [of _ src]
  by (simp add: f_b64_pton_def pton_clean [of n src] pst_def)

section \<open>The two descriptions of the encoding\<close>

lemma alphabet: "d < 64 \<Longrightarrow> digit_char d = base64_char (unat d)"
proof -
  assume "d < 64"
  then have "unat d \<in> set [0..<64]" by (simp add: word_less_nat_alt)
  moreover have "list_all (\<lambda>n. Base64 ! n = base64_char n) [0..<64]" by code_simp
  ultimately show ?thesis by (simp add: digit_char_def list_all_iff)
qed

lemma sextet_value:
  assumes "d < (64 :: byte)"
  shows "horner_sum of_bool 2 [bit d 0, bit d 1, bit d 2, bit d 3, bit d 4, bit d 5] = unat d"
proof -
  have "unat d < 2 ^ 6" using assms by (simp add: word_less_nat_alt)
  have "[0..<6] = [0, 1, 2, 3, 4, 5]" by code_simp
  then have "[bit d 0, bit d 1, bit d 2, bit d 3, bit d 4, bit d 5] = map (bit (unat d)) [0..<6]"
    by (simp only: list.map) (simp add: bit_unsigned_iff)
  also have "horner_sum of_bool 2 (map (bit (unat d)) [0..<6]) = take_bit 6 (unat d)"
    by (rule horner_sum_bit_eq_take_bit)
  also have "\<dots> = unat d" using \<open>unat d < 2 ^ 6\<close> by (rule take_bit_nat_eq_self)
  finally show ?thesis .
qed

lemma sextet_char:
  assumes "d < 64" "bit d 5 = b5" "bit d 4 = b4" "bit d 3 = b3" "bit d 2 = b2" "bit d 1 = b1" "bit d 0 = b0"
  shows "base64_char (horner_sum of_bool 2 [b0, b1, b2, b3, b4, b5]) = digit_char d"
  using sextet_value [OF assms(1)] alphabet [OF assms(1)] by (simp only: assms(2-))

lemma pads: "replicate 4 x = [x, x, x, x]" "replicate 2 x = [x, x]"
  by (simp_all add: numeral_eq_Suc)

lemma three_bytes:
  "map base64_char (sextets (byte_bits_of (a # b # c # bs))) =
     map digit_char (b64_output a b c) @ map base64_char (sextets (byte_bits_of bs))"
  unfolding output_or byte_bits_of_def
  by (simp del: horner_sum_simps, intro conjI sextet_char output_less_64) (simp_all add: byte_bits)

lemma b64_groups: "b64 bs = code_b64 bs"
proof (induction bs rule: code_b64.induct)
  case 1
  show ?case by (simp add: b64_def byte_bits_of_def)
next
  case (2 a)
  have "map base64_char (sextets (byte_bits_of [a])) = map digit_char (take 2 (b64_output a 0 0))"
    unfolding output_or byte_bits_of_def using output_less_64(2) [of a 0]
    by (simp add: pads del: horner_sum_simps, intro conjI sextet_char output_less_64) (simp_all add: byte_bits)
  then show ?case by (simp add: b64_def Pad64_def pads)
next
  case (3 a b)
  have "map base64_char (sextets (byte_bits_of [a, b])) = map digit_char (take 3 (b64_output a b 0))"
    unfolding output_or byte_bits_of_def using output_less_64(2) [of a b] output_less_64(3) [of b 0]
    by (simp add: pads del: horner_sum_simps, intro conjI sextet_char output_less_64) (simp_all add: byte_bits)
  then show ?case by (simp add: b64_def Pad64_def pads)
next
  case (4 a b c bs)
  then show ?case by (simp add: b64_def three_bytes)
qed

section \<open>The two functions\<close>

lemma ntop_whole:
  assumes "length (b64 src) < 2 ^ 31" "unat targsize \<le> length target"
  shows "length (b64 src) < unat targsize \<Longrightarrow>
      f_b64_ntop src (of_nat (length src)) target targsize =
      (int (length (b64 src)), b64 src @ 0 # drop (Suc (length (b64 src))) target)"
    and "\<not> length (b64 src) < unat targsize \<Longrightarrow>
      ntop_failed targsize target (f_b64_ntop src (of_nat (length src)) target targsize)"
  using ntop_from [of targsize "[]" target src] assms by (simp_all add: f_b64_ntop_def b64_groups)

lemma unb64_b64: "unb64 (b64 bs) = Some bs" and b64_unb64: "unb64 cs = Some bs \<Longrightarrow> b64 bs = cs"
  using unb64_code code_unb64 by (simp_all add: b64_groups)

lemma b64_eq_iff: "unb64 cs = Some bs \<Longrightarrow> cs = b64 bs' \<longleftrightarrow> bs' = bs"
  by (metis unb64_b64 b64_unb64 option.inject)

text \<open>
  (C27) \<open>f_b64_ntop\<close> succeeds exactly if the Base64 text of the source and a terminator fit
  into the target; then it has written them at its start and returns the length of the
  text. Otherwise it returns -1. Nothing beyond \<open>targsize\<close> is written.
\<close>

theorem f_b64_ntop_correct:
  assumes "length (b64 src) < 2 ^ 31" "unat targsize \<le> length target"
  shows "if length (b64 src) < unat targsize
    then f_b64_ntop src (of_nat (length src)) target targsize =
      (int (length (b64 src)), b64 src @ 0 # drop (Suc (length (b64 src))) target)
    else (case f_b64_ntop src (of_nat (length src)) target targsize of (r, target') \<Rightarrow>
      r = - 1 \<and> length target' = length target \<and> drop (unat targsize) target' = drop (unat targsize) target)"
  using ntop_whole [OF assms] by (auto simp: ntop_failed_def)

text \<open>
  (C28) \<open>f_b64_pton\<close> with a target that is large enough accepts exactly the texts that are,
  up to white space, the Base64 encoding of some bytes, and then stores these bytes and
  returns their number. (One byte more than that is needed when the text is padded.)
\<close>

theorem f_b64_pton_correct:
  assumes "length (clean src) < 2 ^ 31" "unat targsize \<le> length target"
  shows "(\<exists>bs. clean src = b64 bs \<and> length bs + (if length bs mod 3 = 0 then 0 else 1) \<le> unat targsize \<and>
      (\<exists>target'. f_b64_pton src (Some target) targsize = (int (length bs), Some target') \<and>
        length target' = length target \<and> take (length bs) target' = bs \<and>
        drop (unat targsize) target' = drop (unat targsize) target)) \<or>
    fst (f_b64_pton src (Some target) targsize) = - 1 \<and>
      (\<nexists>bs. clean src = b64 bs \<and> length bs + (if length bs mod 3 = 0 then 0 else 1) \<le> unat targsize)"
proof (cases "unb64 (clean src)")
  case None
  then have "clean src \<noteq> b64 bs" for bs
    using unb64_b64 [of bs] by auto
  with pton_correct [OF assms] None show ?thesis
    by (simp add: pton_meets_def)
next
  case (Some bs)
  have eq: "clean src = b64 bs' \<longleftrightarrow> bs' = bs" for bs'
    by (rule b64_eq_iff [OF Some])
  show ?thesis
    using pton_correct [OF assms] unfolding Some eq
    by (cases "need bs \<le> unat targsize") (simp_all add: pton_meets_def pton_good_def need_def)
qed

lemma b64_clean: "c \<in> set (b64 bs) \<Longrightarrow> c \<noteq> 0 \<and> \<not> isspace c"
  using digit_char_facts Pad64_facts output_less_64
    output_less_64(2) [of _ 0, simplified] output_less_64(3) [of _ 0, simplified]
  unfolding b64_groups by (induction bs rule: code_b64.induct) (auto simp: output_or)

text \<open>
  (C29) Decoding what the encoder has written gives back the source, whatever follows the
  terminator in the buffer.
\<close>

theorem f_b64_roundtrip:
  assumes "f_b64_ntop src (of_nat (length src)) buf bufsize = (n, str)" "n \<noteq> - 1"
    and "length (b64 src) < 2 ^ 31" "unat bufsize \<le> length buf"
    and "length src < unat targsize" "unat targsize \<le> length target"
  shows "\<exists>target'. f_b64_pton str (Some target) targsize = (int (length src), Some target') \<and>
    take (length src) target' = src"
proof -
  have "str = b64 src @ 0 # drop (Suc (length (b64 src))) buf"
    using ntop_whole [OF assms(3,4)] assms(1,2) by (auto simp: ntop_failed_def)
  then have "clean str = b64 src"
    using b64_clean [of _ src] clean_id [of "b64 src"] by (simp add: clean_def takeWhile_tail)
  then have "pton_meets targsize 0 target (Some src) (f_b64_pton str (Some target) targsize)"
    using pton_correct [of str targsize target] assms(3,6) by (simp add: unb64_b64)
  then show ?thesis
    using assms(5) by (auto simp: pton_meets_def pton_good_def need_def split: if_splits)
qed

section \<open>Instances\<close>

theorem f_b64_ntop_correct_witness:
  "f_b64_ntop [0x66, 0x6f, 0x6f, 0x62] 4 [1, 1, 1, 1, 1, 1, 1, 1, 1, 1] 9 =
    (8, [0x5a, 0x6d, 0x39, 0x76, 0x59, 0x67, 0x3d, 0x3d, 0, 1])"
proof -
  have b: "b64 [0x66, 0x6f, 0x6f, 0x62] = [0x5a, 0x6d, 0x39, 0x76, 0x59, 0x67, 0x3d, 0x3d]"
    by code_simp
  show ?thesis
    using f_b64_ntop_correct [of "[0x66, 0x6f, 0x6f, 0x62]" 9 "[1, 1, 1, 1, 1, 1, 1, 1, 1, 1]"]
    by (simp add: b)
qed

theorem f_b64_pton_correct_witness:
  "\<exists>target'. f_b64_pton [0x5a, 0x67, 0x20, 0x3d, 0x3d, 0] (Some [7, 7, 7]) 2 = (1, Some target') \<and>
    take 1 target' = [0x66] \<and> drop 2 target' = [7]"
proof -
  have c: "clean [0x5a, 0x67, 0x20, 0x3d, 0x3d, 0] = b64 [0x66]" "length (b64 [0x66]) = 4"
    by code_simp+
  have eq: "b64 [0x66] = b64 bs \<longleftrightarrow> bs = [0x66]" for bs
    using b64_eq_iff [of "b64 [0x66]"] unb64_b64 by blast
  show ?thesis
    using f_b64_pton_correct [of "[0x5a, 0x67, 0x20, 0x3d, 0x3d, 0]" 2 "[7, 7, 7]"]
    by (auto simp add: c eq simp del: clean_simps)
qed

theorem f_b64_roundtrip_witness:
  "\<exists>target'. f_b64_pton [0x5a, 0x6d, 0x39, 0x76, 0, 1] (Some [7, 7, 7, 7]) 4 = (3, Some target') \<and>
    take 3 target' = [0x66, 0x6f, 0x6f]"
proof -
  have b: "b64 [0x66, 0x6f, 0x6f] = [0x5a, 0x6d, 0x39, 0x76]" 
    and n: "f_b64_ntop [0x66, 0x6f, 0x6f] (of_nat (length [0x66, 0x6f, 0x6f :: byte])) [1, 1, 1, 1, 1, 1] 6 = (4, [0x5a, 0x6d, 0x39, 0x76, 0, 1])"
    by code_simp+
  show ?thesis
    using f_b64_roundtrip [OF n, of 4 "[7, 7, 7, 7]"] by (simp add: b numeral_3_eq_3)
qed

end
