(* ===== verification/Ldb_Coding.thy ===== *)
theory Ldb_Coding
  imports Varint
begin

text \<open>
  \<^verbatim>\<open>leveldb-library/util/coding.cc\<close>, \<^verbatim>\<open>util/coding.h\<close> and the operations of
  \<^verbatim>\<open>leveldb/slice.h\<close>: fixed-width and variable-length integers and length-prefixed
  strings. A \<open>Slice\<close> and a \<^verbatim>\<open>std::string\<close> are the list of their bytes; a pair of pointers
  \<open>p\<close>, \<open>limit\<close> is the list of the bytes between them, and a routine that returns a pointer
  past what it has read returns the list of the bytes from there on (\<open>None\<close> for \<^verbatim>\<open>nullptr\<close>).
\<close>

section \<open>Slices\<close>

type_synonym slice = "byte list"

text \<open>Only the sign of the result of \<open>memcmp\<close> is specified, and only the sign is used.\<close>

fun memcmp :: "byte list \<Rightarrow> byte list \<Rightarrow> int" where
  "memcmp (a # as) (b # bs) = (if a < b then - 1 else if b < a then 1 else memcmp as bs)"
| "memcmp _ _ = 0"

definition Slice_compare :: "slice \<Rightarrow> slice \<Rightarrow> int" where
  "Slice_compare x b =
     (let min_len = (if length x < length b then length x else length b);
          r = memcmp (take min_len x) (take min_len b)
      in if r = 0 then (if length x < length b then - 1 else if length x > length b then 1 else r) else r)"

definition starts_with :: "slice \<Rightarrow> slice \<Rightarrow> bool" where
  "starts_with s x \<longleftrightarrow> length s \<ge> length x \<and> memcmp (take (length x) s) x = 0"

definition remove_prefix :: "nat \<Rightarrow> slice \<Rightarrow> slice" where
  "remove_prefix n s = drop n s"

section \<open>Fixed-width integers\<close>

definition kLittleEndian :: bool where
  "kLittleEndian = True"

definition EncodeFixed32 :: "u32 \<Rightarrow> byte list" where
  "EncodeFixed32 value =
     (if kLittleEndian then bytes_of_word 4 value
      else [ucast (value AND 0xff), ucast (drop_bit 8 value AND 0xff),
            ucast (drop_bit 16 value AND 0xff), ucast (drop_bit 24 value AND 0xff)])"

definition EncodeFixed64 :: "u64 \<Rightarrow> byte list" where
  "EncodeFixed64 value =
     (if kLittleEndian then bytes_of_word 8 value
      else [ucast (value AND 0xff), ucast (drop_bit 8 value AND 0xff),
            ucast (drop_bit 16 value AND 0xff), ucast (drop_bit 24 value AND 0xff),
            ucast (drop_bit 32 value AND 0xff), ucast (drop_bit 40 value AND 0xff),
            ucast (drop_bit 48 value AND 0xff), ucast (drop_bit 56 value AND 0xff)])"

definition DecodeFixed32 :: "byte list \<Rightarrow> u32" where
  "DecodeFixed32 ptr =
     (if kLittleEndian then word_of_bytes (take 4 ptr)
      else ucast (ptr ! 0) OR push_bit 8 (ucast (ptr ! 1)) OR push_bit 16 (ucast (ptr ! 2)) OR
           push_bit 24 (ucast (ptr ! 3)))"

definition DecodeFixed64 :: "byte list \<Rightarrow> u64" where
  "DecodeFixed64 ptr =
     (if kLittleEndian then word_of_bytes (take 8 ptr)
      else let lo = ucast (DecodeFixed32 ptr); hi = ucast (DecodeFixed32 (drop 4 ptr))
           in push_bit 32 hi OR lo)"

definition PutFixed32 :: "byte list \<Rightarrow> u32 \<Rightarrow> byte list" where
  "PutFixed32 dst value = dst @ EncodeFixed32 value"

definition PutFixed64 :: "byte list \<Rightarrow> u64 \<Rightarrow> byte list" where
  "PutFixed64 dst value = dst @ EncodeFixed64 value"

section \<open>Variable-length integers\<close>

definition EncodeVarint32 :: "u32 \<Rightarrow> byte list" where
  "EncodeVarint32 v =
     (let B = 128 in
      if v < push_bit 7 1 then [ucast v]
      else if v < push_bit 14 1 then [ucast (v OR B), ucast (drop_bit 7 v)]
      else if v < push_bit 21 1 then
        [ucast (v OR B), ucast (drop_bit 7 v OR B), ucast (drop_bit 14 v)]
      else if v < push_bit 28 1 then
        [ucast (v OR B), ucast (drop_bit 7 v OR B), ucast (drop_bit 14 v OR B), ucast (drop_bit 21 v)]
      else
        [ucast (v OR B), ucast (drop_bit 7 v OR B), ucast (drop_bit 14 v OR B),
         ucast (drop_bit 21 v OR B), ucast (drop_bit 28 v)])"

definition PutVarint32 :: "byte list \<Rightarrow> u32 \<Rightarrow> byte list" where
  "PutVarint32 dst v = dst @ EncodeVarint32 v"

lemma drop_7_less: "(v :: u64) \<ge> 128 \<Longrightarrow> unat (drop_bit 7 v) < unat v"
  unfolding unat_drop_bit by (simp add: word_le_nat_alt)

function EncodeVarint64 :: "u64 \<Rightarrow> byte list" where
  "EncodeVarint64 v =
     (if v \<ge> 128 then ucast (v OR 128) # EncodeVarint64 (drop_bit 7 v) else [ucast v])"
  by pat_completeness auto
termination by (relation "measure unat") (simp_all add: drop_7_less)

declare EncodeVarint64.simps [simp del]

definition PutVarint64 :: "byte list \<Rightarrow> u64 \<Rightarrow> byte list" where
  "PutVarint64 dst v = dst @ EncodeVarint64 v"

function VarintLength :: "u64 \<Rightarrow> nat" where
  "VarintLength v = (if v \<ge> 128 then VarintLength (drop_bit 7 v) + 1 else 1)"
  by pat_completeness auto
termination by (relation "measure unat") (simp_all add: drop_7_less)

declare VarintLength.simps [simp del]

text \<open>
  The loops of \<open>GetVarint32PtrFallback\<close> and \<open>GetVarint64Ptr\<close>, which differ in the type of
  \<open>result\<close> and in the last \<open>shift\<close>, from one value of \<open>shift\<close> on.
\<close>

fun varint_from :: "nat \<Rightarrow> nat \<Rightarrow> 'a::len word \<Rightarrow> byte list \<Rightarrow> ('a word \<times> byte list) option" where
  "varint_from limit shift result [] = None"
| "varint_from limit shift result (c # p) =
     (if shift \<le> limit then
        let byte = ucast c in
        if byte AND 128 \<noteq> 0 then varint_from limit (shift + 7) (result OR push_bit shift (byte AND 127)) p
        else Some (result OR push_bit shift byte, p)
      else None)"

definition GetVarint32PtrFallback :: "byte list \<Rightarrow> (u32 \<times> byte list) option" where
  "GetVarint32PtrFallback p = varint_from 28 0 0 p"

definition GetVarint32Ptr :: "byte list \<Rightarrow> (u32 \<times> byte list) option" where
  "GetVarint32Ptr p =
     (if p \<noteq> [] \<and> (ucast (hd p) :: u32) AND 128 = 0 then Some (ucast (hd p), tl p)
      else GetVarint32PtrFallback p)"

definition GetVarint64Ptr :: "byte list \<Rightarrow> (u64 \<times> byte list) option" where
  "GetVarint64Ptr p = varint_from 63 0 0 p"

text \<open>The routines on slices return the value, if any, and what \<open>*input\<close> is then.\<close>

definition GetVarint32 :: "slice \<Rightarrow> u32 option \<times> slice" where
  "GetVarint32 input =
     (case GetVarint32Ptr input of None \<Rightarrow> (None, input) | Some (value, q) \<Rightarrow> (Some value, q))"

definition GetVarint64 :: "slice \<Rightarrow> u64 option \<times> slice" where
  "GetVarint64 input =
     (case GetVarint64Ptr input of None \<Rightarrow> (None, input) | Some (value, q) \<Rightarrow> (Some value, q))"

section \<open>Length-prefixed strings\<close>

text \<open>The length is converted to \<^verbatim>\<open>uint32_t\<close>.\<close>

definition PutLengthPrefixedSlice :: "byte list \<Rightarrow> slice \<Rightarrow> byte list" where
  "PutLengthPrefixedSlice dst value = PutVarint32 dst (of_nat (length value)) @ value"

definition GetLengthPrefixedSlicePtr :: "byte list \<Rightarrow> (slice \<times> byte list) option" where
  "GetLengthPrefixedSlicePtr p =
     (case GetVarint32Ptr p of
        None \<Rightarrow> None
      | Some (len, p) \<Rightarrow>
          if unat len > length p then None else Some (take (unat len) p, drop (unat len) p))"

definition GetLengthPrefixedSlice :: "slice \<Rightarrow> slice option \<times> slice" where
  "GetLengthPrefixedSlice input =
     (case GetVarint32 input of
        (Some len, input) \<Rightarrow>
          if length input \<ge> unat len
          then (Some (take (unat len) input), remove_prefix (unat len) input)
          else (None, input)
      | (None, input) \<Rightarrow> (None, input))"

section \<open>The formats\<close>

lemma length_EncodeFixed [simp]: "length (EncodeFixed32 v) = 4" "length (EncodeFixed64 w) = 8"
  by (simp_all add: EncodeFixed32_def EncodeFixed64_def)

lemma DecodeFixed_Encode [simp]:
  "DecodeFixed32 (EncodeFixed32 v @ rest) = v" "DecodeFixed64 (EncodeFixed64 w @ rest) = w"
  by (simp_all add: DecodeFixed32_def EncodeFixed32_def DecodeFixed64_def EncodeFixed64_def kLittleEndian_def)

lemma concat_fixed_nth:
  "j < length ws \<Longrightarrow> \<exists>rest. drop (4 * j) (concat (map EncodeFixed32 ws) @ tl') = EncodeFixed32 (ws ! j) @ rest"
proof (induction ws arbitrary: j)
  case (Cons w ws)
  then show ?case by (cases j) auto
qed simp

lemma EncodeFixed_Decode:
  "length bs = 4 \<Longrightarrow> EncodeFixed32 (DecodeFixed32 bs) = bs"
  "length bs = 8 \<Longrightarrow> EncodeFixed64 (DecodeFixed64 bs) = bs"
  using bytes_of_word_of_bytes [of bs, where 'a = 32] bytes_of_word_of_bytes [of bs, where 'a = 64]
  by (simp_all add: DecodeFixed32_def EncodeFixed32_def DecodeFixed64_def EncodeFixed64_def kLittleEndian_def)

lemma bit_128: "bit (128 :: byte) n \<longleftrightarrow> n = 7"
  using bit_imp_le_length [of "128 :: byte" n] by (auto simp: less_Suc_eq numeral_eq_Suc)

lemma or_top: "(b :: byte) OR 128 = of_nat (unat b mod 128 + 128)"
proof -
  have "b OR 128 = take_bit 7 b OR 128"
  proof (rule bit_word_eqI)
    fix n assume "n < LENGTH(8)"
    then have "n = 7 \<or> n < 7" by auto
    then show "bit (b OR 128) n = bit (take_bit 7 b OR 128) n"
      using bit_128 [of n] by (auto simp: bit_or_iff bit_take_bit_iff)
  qed
  also have "\<dots> = take_bit 7 b + 128"
    by (rule disjunctive_add [symmetric]) (use bit_128 in \<open>auto simp: bit_take_bit_iff\<close>)
  also have "\<dots> = of_nat (unat (take_bit 7 b)) + 128"
    by simp
  finally show ?thesis by (simp add: unat_take_bit)
qed

lemma cont_byte: "(ucast ((v :: 'a::len word) OR 128) :: byte) = of_nat (unat v mod 128 + 128)" if "8 \<le> LENGTH('a)"
proof -
  have "unat (ucast v :: byte) mod 128 = unat v mod 128"
    by (simp add: unat_ucast_down mod_mod_cancel)
  then show ?thesis
    using or_top [of "ucast v"] that by (simp add: unsigned_or_eq take_bit_word_eq_self del: of_nat_add)
qed

lemma last_byte: "(ucast (v :: 'a::len word) :: byte) = of_nat (unat v)"
  by simp

lemma EncodeVarint64_varint: "EncodeVarint64 v = varint (unat v)"
proof (induction v rule: EncodeVarint64.induct)
  case (1 v)
  have d: "unat (drop_bit 7 v) = unat v div 128"
    by (simp only: unat_drop_bit) simp
  show ?case
    using 1 cont_byte [of v]
    by (simp add: EncodeVarint64.simps [of v] varint.simps [of "unat v"] d word_le_nat_alt)
qed

lemma EncodeVarint32_varint: "EncodeVarint32 v = varint (unat v)"
proof -
  have d: "unat (drop_bit n v) = unat v div 2 ^ n" for n
    by (rule unat_drop_bit)
  have s: "v < push_bit 7 1 \<longleftrightarrow> unat v < 128" "v < push_bit 14 1 \<longleftrightarrow> unat v < 16384"
    "v < push_bit 21 1 \<longleftrightarrow> unat v < 2097152" "v < push_bit 28 1 \<longleftrightarrow> unat v < 268435456"
    by (simp_all add: word_less_nat_alt)
  have c: "(ucast (drop_bit n v OR 128) :: byte) = of_nat (unat v div 2 ^ n mod 128 + 128)" for n
    using cont_byte [of "drop_bit n v"] by (simp add: d)
  have l: "(ucast (drop_bit n v) :: byte) = of_nat (unat v div 2 ^ n)" for n
    by (metis last_byte d)
  show ?thesis
    unfolding EncodeVarint32_def Let_def s
    using unat_bound [of v] cont_byte [of v]
    by (simp add: c l varint.simps [of "unat v"] varint.simps [of "unat v div 128"]
        varint.simps [of "unat v div 16384"] varint.simps [of "unat v div 2097152"]
        varint.simps [of "unat v div 268435456"] div_mult2_eq [symmetric] div_less_iff_less_mult
        del: of_nat_add)
qed

section \<open>Reading the formats\<close>

lemma ucast_and_top:
  assumes "8 \<le> LENGTH('a::len)"
  shows "(ucast (b :: byte) :: 'a word) AND 128 = ucast (b AND 0x80)"
    and "(ucast (b :: byte) :: 'a word) AND 127 = ucast (b AND 0x7F)"
    and "(ucast (b :: byte) :: 'a word) = 0 \<longleftrightarrow> b = 0"
proof -
  show "(ucast b :: 'a word) AND 128 = ucast (b AND 0x80)" "(ucast b :: 'a word) AND 127 = ucast (b AND 0x7F)"
    using assms by (simp_all add: unsigned_and_eq take_bit_word_eq_self)
  have "unat b < 2 ^ LENGTH('a)"
    using unat_bound [of b] power_increasing [OF assms, of "2 :: nat"] by simp
  then have "unat (ucast b :: 'a word) = unat b"
    by (simp add: unat_ucast_down)
  then show "(ucast b :: 'a word) = 0 \<longleftrightarrow> b = 0"
    by (metis unat_eq_zero)
qed

lemma varint_from_varint:
  assumes "7 * (i + length (varint n) - 1) \<le> limit" "8 \<le> LENGTH('a::len)"
  shows "varint_from limit (7 * i) r (varint n @ rest) = Some (r OR push_bit (7 * i) (of_nat n :: 'a word), rest)"
  using assms(1)
proof (induction n arbitrary: i r rule: varint.induct)
  case (1 n)
  show ?case
  proof (cases "n < 128")
    case True
    then show ?thesis
      using "1.prems" byte_last [of n] ucast_and_top [OF assms(2), of "of_nat n"]
      by (simp add: varint_small ucast_of_nat_byte Let_def)
  next
    case False
    let ?b = "of_nat (n mod 128 + 128) :: byte"
    have v: "varint n = ?b # varint (n div 128)"
      using False by (subst varint.simps) simp
    have "varint_from limit (7 * Suc i) r' (varint (n div 128) @ rest) =
      Some (r' OR push_bit (7 * Suc i) (of_nat (n div 128)), rest)" for r' :: "'a word"
      using "1.prems" v by (intro "1.IH" [OF False]) simp
    moreover have "push_bit (7 * i) (of_nat (n mod 128)) OR push_bit (7 * Suc i) (of_nat (n div 128)) =
      (push_bit (7 * i) (of_nat n) :: 'a word)"
      using push_groups [of "7 * i" n] by (simp add: add.commute)
    moreover have "7 * i \<le> limit"
      using "1.prems" v varint_not_Nil [of "n div 128"] by (cases "varint (n div 128)") auto
    ultimately show ?thesis
      using byte_cont [of "n mod 128"] ucast_and_top [OF assms(2), of ?b]
        ucast_and_top(3) [OF assms(2), of "?b AND 0x80"]
      by (simp add: v ucast_of_nat_byte or.assoc add.commute Let_def del: of_nat_add)
  qed
qed

lemma GetVarint32_varint:
  "GetVarint32Ptr (EncodeVarint32 v @ rest) = Some (v, rest)"
proof -
  have "length (varint (unat v)) \<le> 5"
    using unat_bound [of v] by (intro length_varint) auto
  then have *: "GetVarint32PtrFallback (EncodeVarint32 v @ rest) = Some (v, rest)"
    using varint_from_varint [of 0 "unat v" 28 "0 :: u32" rest]
    by (simp add: GetVarint32PtrFallback_def EncodeVarint32_varint)
  then show ?thesis
    by (cases "EncodeVarint32 v @ rest") (auto simp: GetVarint32Ptr_def GetVarint32PtrFallback_def Let_def)
qed

lemma GetVarint64_varint: "GetVarint64Ptr (EncodeVarint64 v @ rest) = Some (v, rest)"
  using varint_from_varint [of 0 "unat v" 63 "0 :: u64" rest] length_varint_u64 [of v]
  by (simp add: GetVarint64Ptr_def EncodeVarint64_varint)

lemma varint_from_cut:
  "k < length (varint n) \<Longrightarrow> varint_from limit s r (take k (varint n)) = (None :: ('a::len word \<times> byte list) option)"
  if "8 \<le> LENGTH('a)"
proof (induction n arbitrary: k s r rule: varint.induct)
  case (1 n)
  show ?case
  proof (cases k)
    case (Suc j)
    then have big: "\<not> n < 128"
      using "1.prems" by (auto simp: varint.simps [of n])
    have v: "varint n = of_nat (n mod 128 + 128) # varint (n div 128)"
      using big by (subst varint.simps) simp
    have "varint_from limit s' r' (take j (varint (n div 128))) = None" for s' and r' :: "'a word"
      using "1.prems" Suc v by (intro "1.IH" [OF big]) simp
    moreover have "(ucast (of_nat (n mod 128 + 128) :: byte) :: 'a word) AND 128 \<noteq> 0"
      using byte_cont [of "n mod 128"] ucast_and_top(1,3) [OF that] by simp
    ultimately show ?thesis
      by (simp add: v Suc Let_def del: of_nat_add)
  qed simp
qed

lemma varint_from_shorter: "varint_from limit s r p = Some (v, q) \<Longrightarrow> length q < length p"
  by (induction limit s r p rule: varint_from.induct) (auto simp: Let_def split: if_splits)

lemma GetVarint32Ptr_shorter: "GetVarint32Ptr p = Some (v, q) \<Longrightarrow> length q < length p"
  by (auto simp: GetVarint32Ptr_def GetVarint32PtrFallback_def split: if_splits dest: varint_from_shorter)

lemma GetLengthPrefixedSlice_shorter: "GetLengthPrefixedSlice p = (r, q) \<Longrightarrow> length q \<le> length p"
  by (auto simp: GetLengthPrefixedSlice_def GetVarint32_def remove_prefix_def split: option.splits if_splits
      dest!: GetVarint32Ptr_shorter)

lemma VarintLength_varint: "VarintLength v = length (varint (unat v))"
proof (induction v rule: VarintLength.induct)
  case (1 v)
  have "unat (drop_bit 7 v) = unat v div 128"
    by (simp only: unat_drop_bit) simp
  then show ?case
    using 1 by (simp add: VarintLength.simps [of v] varint.simps [of "unat v"] word_le_nat_alt)
qed

lemma Put_append:
  "PutFixed32 dst v = dst @ PutFixed32 [] v" "PutFixed64 dst w = dst @ PutFixed64 [] w"
  "PutVarint32 dst v = dst @ PutVarint32 [] v" "PutVarint64 dst w = dst @ PutVarint64 [] w"
  "PutLengthPrefixedSlice dst s = dst @ PutLengthPrefixedSlice [] s"
  by (simp_all add: PutFixed32_def PutFixed64_def PutVarint32_def PutVarint64_def PutLengthPrefixedSlice_def)

section \<open>Codecs\<close>

text \<open>
  What the users of this file rely on: writing appends to the destination, and reading
  gives back what was written and stops right behind it, for the values \<open>ok\<close> admits.
\<close>

locale codec =
  fixes put :: "byte list \<Rightarrow> 'a \<Rightarrow> byte list"
    and get :: "slice \<Rightarrow> 'a option \<times> slice"
    and ok :: "'a \<Rightarrow> bool"
  assumes put_append: "put dst v = dst @ put [] v"
    and get_put: "ok v \<Longrightarrow> get (put [] v @ rest) = (Some v, rest)"
begin

lemma get_put_nil: "ok v \<Longrightarrow> get (put [] v) = (Some v, [])"
  using get_put [of v "[]"] by simp

lemma put_unique: "ok v \<Longrightarrow> ok w \<Longrightarrow> put [] v @ r = put [] w @ s \<Longrightarrow> v = w \<and> r = s"
  by (metis get_put option.inject prod.inject)

lemma put_many: "foldl put dst vs = dst @ concat (map (put []) vs)"
proof (induction vs arbitrary: dst)
  case (Cons v vs)
  have "foldl put dst (v # vs) = put dst v @ concat (map (put []) vs)"
    by (simp add: Cons.IH)
  also have "put dst v = dst @ put [] v" by (rule put_append)
  finally show ?case by simp
qed simp

end

interpretation v32: codec PutVarint32 GetVarint32 "\<lambda>_. True"
  by unfold_locales (simp_all add: PutVarint32_def GetVarint32_def GetVarint32_varint)

interpretation v64: codec PutVarint64 GetVarint64 "\<lambda>_. True"
  by unfold_locales (simp_all add: PutVarint64_def GetVarint64_def GetVarint64_varint)

interpretation lps: codec PutLengthPrefixedSlice GetLengthPrefixedSlice "\<lambda>s. length s < 2 ^ 32"
proof
  show "PutLengthPrefixedSlice dst v = dst @ PutLengthPrefixedSlice [] v" for dst v
    by (rule Put_append)
  show "length v < 2 ^ 32 \<Longrightarrow>
      GetLengthPrefixedSlice (PutLengthPrefixedSlice [] v @ rest) = (Some v, rest)" for v rest
    using v32.get_put [of "of_nat (length v)" "v @ rest"]
    by (simp add: PutLengthPrefixedSlice_def GetLengthPrefixedSlice_def remove_prefix_def
        unat_of_nat_small)
qed

text \<open>The pointer-based variant reads the same.\<close>

lemma GetLengthPrefixedSlicePtr_eq:
  "GetLengthPrefixedSlicePtr p =
     (case GetLengthPrefixedSlice p of (Some s, rest) \<Rightarrow> Some (s, rest) | (None, _) \<Rightarrow> None)"
  by (auto simp: GetLengthPrefixedSlicePtr_def GetLengthPrefixedSlice_def GetVarint32_def
      remove_prefix_def split: option.splits)

section \<open>Properties of the coding routines\<close>

text \<open>
  (C40) Every value is read back: the fixed-width and variable-length integers of both
  widths, and strings of less than 4 GB (their length is stored as a \<^verbatim>\<open>uint32_t\<close>),
  whatever precedes and follows them.
\<close>

theorem coding_roundtrip:
  assumes "length s < 2 ^ 32"
  shows "DecodeFixed32 (drop (length dst) (PutFixed32 dst v @ rest)) = v \<and>
    DecodeFixed64 (drop (length dst) (PutFixed64 dst w @ rest)) = w \<and>
    GetVarint32 (drop (length dst) (PutVarint32 dst v @ rest)) = (Some v, rest) \<and>
    GetVarint64 (drop (length dst) (PutVarint64 dst w @ rest)) = (Some w, rest) \<and>
    GetLengthPrefixedSlice (drop (length dst) (PutLengthPrefixedSlice dst s @ rest)) = (Some s, rest)"
  using v32.get_put [of v rest] v64.get_put [of w rest] lps.get_put [OF assms, of rest]
    Put_append [of dst]
  by (simp add: PutFixed32_def PutFixed64_def)

text \<open>
  \<open>VarintLength\<close> is the number of bytes that \<open>EncodeVarint64\<close> writes, at most 10, and
  a varint of which the end is missing is refused.
\<close>

lemma varint_length_and_cut:
  "VarintLength v = length (EncodeVarint64 v) \<and> VarintLength v \<le> 10 \<and>
   (k < VarintLength v \<longrightarrow> fst (GetVarint64 (take k (EncodeVarint64 v))) = None)"
proof -
  have "k < length (varint (unat v)) \<Longrightarrow> varint_from 63 0 (0 :: u64) (take k (varint (unat v))) = None"
    by (rule varint_from_cut) simp_all
  then show ?thesis
    using length_varint_u64 [of v]
    by (simp add: VarintLength_varint EncodeVarint64_varint GetVarint64_def GetVarint64Ptr_def)
qed

section \<open>Instances\<close>

theorem coding_roundtrip_witness:
  "GetLengthPrefixedSlice (drop (length [1, 2 :: byte]) (PutLengthPrefixedSlice [1, 2] [7, 8, 9] @ [0])) = (Some [7, 8, 9], [0])"
  using coding_roundtrip [of "[7, 8, 9]" "[1, 2]" 0 "[0]" 0] by simp

lemma varint_length_and_cut_witness:
  "VarintLength 300 = 2 \<and> fst (GetVarint64 (take 1 (EncodeVarint64 300))) = None"
proof -
  have "VarintLength 300 = 2" by (simp add: VarintLength.simps)
  then show ?thesis using varint_length_and_cut [of 300 1] by simp
qed

end
