(* ===== verification/Ldb_Comparator.thy ===== *)
theory Ldb_Comparator
  imports Ldb_Coding
begin

text \<open>
  \<^verbatim>\<open>leveldb/comparator.h\<close> and \<^verbatim>\<open>util/comparator.cc\<close>: the interface of comparators, its
  contract as a locale, and the bytewise comparator with its separators and successors.
\<close>

section \<open>Comparators\<close>

record comparator_t =
  Compare :: "slice \<Rightarrow> slice \<Rightarrow> int"
  FindShortestSeparator :: "slice \<Rightarrow> slice \<Rightarrow> slice"
  FindShortSuccessor :: "slice \<Rightarrow> slice"

text \<open>
  What \<^verbatim>\<open>comparator.h\<close> asks of an implementation, for the keys that are \<open>valid\<close>: a total
  order by the sign of \<open>Compare\<close>, separators in \<^verbatim>\<open>[start, limit)\<close> and successors that are
  not smaller.
\<close>

locale comparator =
  fixes c :: comparator_t and valid :: "slice \<Rightarrow> bool"
  assumes refl: "valid a \<Longrightarrow> Compare c a a = 0"
    and sym: "valid a \<Longrightarrow> valid b \<Longrightarrow> Compare c a b < 0 \<longleftrightarrow> Compare c b a > 0"
    and trans: "valid a \<Longrightarrow> valid b \<Longrightarrow> valid d \<Longrightarrow> Compare c a b \<le> 0 \<Longrightarrow> Compare c b d \<le> 0 \<Longrightarrow>
      Compare c a d \<le> 0"
    and separator: "valid s \<Longrightarrow> valid l \<Longrightarrow> Compare c s l < 0 \<Longrightarrow>
      Compare c s (FindShortestSeparator c s l) \<le> 0 \<and> Compare c (FindShortestSeparator c s l) l < 0"
    and successor: "valid k \<Longrightarrow> Compare c k (FindShortSuccessor c k) \<le> 0"
    and valid_separator: "valid s \<Longrightarrow> valid l \<Longrightarrow> valid (FindShortestSeparator c s l)"
    and valid_successor: "valid k \<Longrightarrow> valid (FindShortSuccessor c k)"
begin

lemma sym_le: "valid a \<Longrightarrow> valid b \<Longrightarrow> Compare c a b \<le> 0 \<longleftrightarrow> Compare c b a \<ge> 0"
  using sym [of b a] by linarith

lemma sym_eq: "valid a \<Longrightarrow> valid b \<Longrightarrow> Compare c a b = 0 \<longleftrightarrow> Compare c b a = 0"
  using sym [of a b] sym [of b a] by linarith

lemma less_trans:
  assumes v: "valid a" "valid b" "valid d" and less: "Compare c a b \<le> 0" "Compare c b d < 0"
  shows "Compare c a d < 0"
proof (rule ccontr)
  assume "\<not> Compare c a d < 0"
  then have "Compare c d a \<le> 0" using sym_le v by auto
  then have "Compare c d b \<le> 0" using trans v less(1) by blast
  then show False using sym [OF v(2,3)] less(2) by auto
qed

lemma less_trans2:
  assumes v: "valid a" "valid b" "valid d" and less: "Compare c a b < 0" "Compare c b d \<le> 0"
  shows "Compare c a d < 0"
proof (rule ccontr)
  assume "\<not> Compare c a d < 0"
  then have "Compare c d a \<le> 0" using sym_le v by auto
  then have "Compare c b a \<le> 0" using trans v less(2) by blast
  then show False using sym [OF v(1,2)] less(1) by auto
qed

end

text \<open>
  The documented contract says nothing about separators of equal keys. Comparators that
  are used below an \<open>InternalKeyComparator\<close> are asked for them and must leave them alone.
\<close>

locale separating_comparator = comparator +
  assumes separator_same: "valid s \<Longrightarrow> valid l \<Longrightarrow> Compare c s l = 0 \<Longrightarrow> FindShortestSeparator c s l = s"

section \<open>The bytewise comparator\<close>

fun diff_index :: "slice \<Rightarrow> slice \<Rightarrow> nat" where
  "diff_index (a # as) (b # bs) = (if a = b then Suc (diff_index as bs) else 0)"
| "diff_index _ _ = 0"

definition Bytewise_FindShortestSeparator :: "slice \<Rightarrow> slice \<Rightarrow> slice" where
  "Bytewise_FindShortestSeparator start limit =
     (let min_length = min (length start) (length limit); i = diff_index start limit
      in if i \<ge> min_length then start
         else let diff_byte = start ! i
              in if diff_byte < 0xff \<and> uint diff_byte + 1 < uint (limit ! i)
                 then take (i + 1) (start[i := diff_byte + 1])
                 else start)"

fun Bytewise_FindShortSuccessor :: "slice \<Rightarrow> slice" where
  "Bytewise_FindShortSuccessor [] = []"
| "Bytewise_FindShortSuccessor (byte # key) =
     (if byte \<noteq> 0xff then [byte + 1] else byte # Bytewise_FindShortSuccessor key)"

definition BytewiseComparator :: comparator_t where
  "BytewiseComparator =
     \<lparr>Compare = Slice_compare, FindShortestSeparator = Bytewise_FindShortestSeparator,
      FindShortSuccessor = Bytewise_FindShortSuccessor\<rparr>"

lemma Slice_compare_simps [simp]:
  "Slice_compare [] [] = 0" "Slice_compare [] (b # bs) = - 1" "Slice_compare (a # as) [] = 1"
  "Slice_compare (a # as) (b # bs) = (if a < b then - 1 else if b < a then 1 else Slice_compare as bs)"
  by (simp_all add: Slice_compare_def Let_def)

lemma Slice_compare_sym: "Slice_compare y x = - Slice_compare x y"
  by (induction x y rule: list_induct2') auto

lemma Slice_compare_eq [simp]: "Slice_compare x y = 0 \<longleftrightarrow> x = y"
  by (induction x y rule: list_induct2') auto

lemma Slice_compare_refl [simp]: "Slice_compare x x = 0"
  by simp

lemma Slice_compare_trans: "Slice_compare x y \<le> 0 \<Longrightarrow> Slice_compare y z \<le> 0 \<Longrightarrow> Slice_compare x z \<le> 0"
proof (induction x y arbitrary: z rule: list_induct2')
  case (4 a as b bs)
  then show ?case by (cases z) (auto split: if_splits)
next
  case (3 b bs)
  then show ?case by (cases z) auto
qed auto

lemma separator_simps:
  "Bytewise_FindShortestSeparator [] l = []" "Bytewise_FindShortestSeparator s [] = s"
  "Bytewise_FindShortestSeparator (a # as) (b # bs) =
     (if a = b then a # Bytewise_FindShortestSeparator as bs
      else if a < 0xff \<and> uint a + 1 < uint b then [a + 1] else a # as)"
  by (auto simp: Bytewise_FindShortestSeparator_def Let_def)

lemma byte_succ: "a < 0xff \<and> uint a + 1 < uint b \<Longrightarrow> a < a + 1 \<and> a + 1 < (b :: byte)"
proof -
  assume a: "a < 0xff \<and> uint a + 1 < uint b"
  then have "unat (a + 1) = Suc (unat a)"
    using unat_add_one [of a "0xff"] by simp
  moreover have "int (unat a) + 1 < int (unat b)"
    using a unfolding uint_nat by blast
  ultimately show ?thesis
    unfolding word_less_nat_alt by linarith
qed

lemma bytewise_separator:
  "Slice_compare s l < 0 \<Longrightarrow>
    Slice_compare s (Bytewise_FindShortestSeparator s l) \<le> 0 \<and>
    Slice_compare (Bytewise_FindShortestSeparator s l) l < 0"
proof (induction s l rule: list_induct2')
  case (4 a as b bs)
  then show ?case using byte_succ [of a b] by (auto simp: separator_simps split: if_splits)
qed (auto simp: separator_simps)

lemma bytewise_separator_same: "Bytewise_FindShortestSeparator s s = s"
  by (induction s) (auto simp: separator_simps)

lemma bytewise_successor: "Slice_compare k (Bytewise_FindShortSuccessor k) \<le> 0"
proof (induction k)
  case (Cons a k)
  have "a \<noteq> 0xff \<Longrightarrow> a < a + 1"
    using word_le_less_eq [of a "0xff"] unat_bound [of a] unat_add_one [of a "0xff"]
    by (simp add: word_less_nat_alt word_le_nat_alt)
  with Cons show ?case by simp
qed simp

interpretation bytewise: separating_comparator BytewiseComparator "\<lambda>_. True"
proof
  show "Compare BytewiseComparator a b < 0 \<longleftrightarrow> Compare BytewiseComparator b a > 0" for a b
    using Slice_compare_sym [of a b] by (simp add: BytewiseComparator_def)
qed (use Slice_compare_trans bytewise_separator bytewise_successor bytewise_separator_same
      in \<open>auto simp: BytewiseComparator_def\<close>)

text \<open>Separators and successors are never longer than the key.\<close>

lemma bytewise_shorter:
  "length (Bytewise_FindShortestSeparator s l) \<le> length s" "length (Bytewise_FindShortSuccessor s) \<le> length s"
  by (auto simp: Bytewise_FindShortestSeparator_def Let_def) (induction s, auto)

end
