(* ===== verification/Ldb_Dbformat.thy ===== *)
theory Ldb_Dbformat
  imports Ldb_Comparator
begin

text \<open>
  \<^verbatim>\<open>db/dbformat.h\<close> and \<^verbatim>\<open>db/dbformat.cc\<close>: internal keys (a user key, a sequence number
  and a value type), their order, their separators, and the keys of look-ups.
\<close>

section \<open>Internal keys\<close>

datatype ValueType = kTypeDeletion | kTypeValue

definition ValueType_value :: "ValueType \<Rightarrow> u64" where
  "ValueType_value t = (case t of kTypeDeletion \<Rightarrow> 0x0 | kTypeValue \<Rightarrow> 0x1)"

definition ValueType_of :: "byte \<Rightarrow> ValueType" where
  "ValueType_of c = (if c = 0 then kTypeDeletion else kTypeValue)"

definition kValueTypeForSeek :: ValueType where
  "kValueTypeForSeek = kTypeValue"

definition kMaxSequenceNumber :: u64 where
  "kMaxSequenceNumber = push_bit 56 0x1 - 1"

record ParsedInternalKey =
  pik_user_key :: slice
  pik_sequence :: u64
  pik_type :: ValueType

definition PackSequenceAndType :: "u64 \<Rightarrow> ValueType \<Rightarrow> u64" where
  "PackSequenceAndType seq t = push_bit 8 seq OR ValueType_value t"

definition InternalKeyEncodingLength :: "ParsedInternalKey \<Rightarrow> nat" where
  "InternalKeyEncodingLength key = length (pik_user_key key) + 8"

definition AppendInternalKey :: "byte list \<Rightarrow> ParsedInternalKey \<Rightarrow> byte list" where
  "AppendInternalKey result key =
     PutFixed64 (result @ pik_user_key key) (PackSequenceAndType (pik_sequence key) (pik_type key))"

definition ParseInternalKey :: "slice \<Rightarrow> ParsedInternalKey option" where
  "ParseInternalKey internal_key =
     (let n = length internal_key in
      if n < 8 then None
      else let num = DecodeFixed64 (drop (n - 8) internal_key); c = ucast (num AND 0xff) :: byte
           in if c \<le> 1
              then Some \<lparr>pik_user_key = take (n - 8) internal_key, pik_sequence = drop_bit 8 num,
                         pik_type = ValueType_of c\<rparr>
              else None)"

definition ExtractUserKey :: "slice \<Rightarrow> slice" where
  "ExtractUserKey internal_key = take (length internal_key - 8) internal_key"

text \<open>The class \<open>InternalKey\<close>: its only member is the string \<open>rep_\<close>.\<close>

definition InternalKey :: "slice \<Rightarrow> u64 \<Rightarrow> ValueType \<Rightarrow> slice" where
  "InternalKey user_key s t =
     AppendInternalKey [] \<lparr>pik_user_key = user_key, pik_sequence = s, pik_type = t\<rparr>"

definition InternalKey_SetFrom :: "ParsedInternalKey \<Rightarrow> slice" where
  "InternalKey_SetFrom p = AppendInternalKey [] p"

section \<open>The internal key comparator\<close>

text \<open>The last eight bytes of a key, as \<^verbatim>\<open>DecodeFixed64(key.data() + key.size() - 8)\<close>.\<close>

definition key_num :: "slice \<Rightarrow> u64" where
  "key_num key = DecodeFixed64 (drop (length key - 8) key)"

definition Internal_Compare :: "comparator_t \<Rightarrow> slice \<Rightarrow> slice \<Rightarrow> int" where
  "Internal_Compare user_comparator akey bkey =
     (let r = Compare user_comparator (ExtractUserKey akey) (ExtractUserKey bkey) in
      if r = 0 then
        let anum = key_num akey; bnum = key_num bkey
        in if anum > bnum then - 1 else if anum < bnum then 1 else r
      else r)"

definition Internal_FindShortestSeparator :: "comparator_t \<Rightarrow> slice \<Rightarrow> slice \<Rightarrow> slice" where
  "Internal_FindShortestSeparator user_comparator start limit =
     (let user_start = ExtractUserKey start; user_limit = ExtractUserKey limit;
          tmp = FindShortestSeparator user_comparator user_start user_limit
      in if length tmp < length user_start \<and> Compare user_comparator user_start tmp < 0
         then PutFixed64 tmp (PackSequenceAndType kMaxSequenceNumber kValueTypeForSeek)
         else start)"

definition Internal_FindShortSuccessor :: "comparator_t \<Rightarrow> slice \<Rightarrow> slice" where
  "Internal_FindShortSuccessor user_comparator key =
     (let user_key = ExtractUserKey key; tmp = FindShortSuccessor user_comparator user_key
      in if length tmp < length user_key \<and> Compare user_comparator user_key tmp < 0
         then PutFixed64 tmp (PackSequenceAndType kMaxSequenceNumber kValueTypeForSeek)
         else key)"

definition InternalKeyComparator :: "comparator_t \<Rightarrow> comparator_t" where
  "InternalKeyComparator user_comparator =
     \<lparr>Compare = Internal_Compare user_comparator,
      FindShortestSeparator = Internal_FindShortestSeparator user_comparator,
      FindShortSuccessor = Internal_FindShortSuccessor user_comparator\<rparr>"

section \<open>Filter policies\<close>

text \<open>\<^verbatim>\<open>leveldb/filter_policy.h\<close>: the filter that \<open>CreateFilter\<close> appends, and the test.\<close>

record filter_policy =
  fp_Name :: "byte list"
  CreateFilter :: "slice list \<Rightarrow> byte list"
  KeyMayMatch :: "slice \<Rightarrow> slice \<Rightarrow> bool"

definition InternalFilterPolicy :: "filter_policy \<Rightarrow> filter_policy" where
  "InternalFilterPolicy user_policy =
     \<lparr>fp_Name = fp_Name user_policy,
      CreateFilter = (\<lambda>keys. CreateFilter user_policy (map ExtractUserKey keys)),
      KeyMayMatch = (\<lambda>key f. KeyMayMatch user_policy (ExtractUserKey key) f)\<rparr>"

section \<open>Look-up keys\<close>

text \<open>
  The character array that the constructor fills, with the positions of \<open>kstart_\<close> and
  \<open>end_\<close> in it, and the size \<open>needed\<close> of the array that it is put into when the local
  buffer of 200 bytes does not suffice.
\<close>

record LookupKey =
  lk_array :: "byte list"
  lk_kstart :: nat
  lk_end :: nat
  lk_capacity :: nat

definition make_LookupKey :: "slice \<Rightarrow> u64 \<Rightarrow> LookupKey" where
  "make_LookupKey user_key s =
     (let usize = length user_key; needed = usize + 13;
          a = EncodeVarint32 (of_nat (usize + 8)); kstart = length a;
          a = a @ user_key; a = a @ EncodeFixed64 (PackSequenceAndType s kValueTypeForSeek)
      in \<lparr>lk_array = a, lk_kstart = kstart, lk_end = kstart + usize + 8,
          lk_capacity = (if needed \<le> 200 then 200 else needed)\<rparr>)"

definition memtable_key :: "LookupKey \<Rightarrow> slice" where
  "memtable_key k = take (lk_end k) (lk_array k)"

definition lookup_internal_key :: "LookupKey \<Rightarrow> slice" where
  "lookup_internal_key k = take (lk_end k - lk_kstart k) (drop (lk_kstart k) (lk_array k))"

definition lookup_user_key :: "LookupKey \<Rightarrow> slice" where
  "lookup_user_key k = take (lk_end k - lk_kstart k - 8) (drop (lk_kstart k) (lk_array k))"

section \<open>Packing\<close>

lemma kMaxSequenceNumber_value: "kMaxSequenceNumber = 0xffffffffffffff"
  by (simp add: kMaxSequenceNumber_def)

lemma ValueType_of_value: "ValueType_of (ucast (ValueType_value t)) = t" "ValueType_value t \<le> 1"
  by (cases t; simp add: ValueType_of_def ValueType_value_def)+

lemma bit_ValueType: "bit (ValueType_value t) k \<longleftrightarrow> k = 0 \<and> t = kTypeValue"
  by (cases t) (auto simp: ValueType_value_def bit_1_iff)

lemma pack_fields:
  assumes "seq \<le> kMaxSequenceNumber"
  shows "drop_bit 8 (PackSequenceAndType seq t) = seq"
    and "PackSequenceAndType seq t AND 0xff = ValueType_value t"
proof -
  have "take_bit 56 seq = seq"
    using assms unat_take_bit [of 56 seq]
    by (intro unsigned_word_eqI [where ?'a = nat]) (simp add: kMaxSequenceNumber_value word_le_nat_alt)
  then have top: "\<not> bit seq k" if "56 \<le> k" for k
    using that by (metis bit_take_bit_iff not_less)
  show "drop_bit 8 (PackSequenceAndType seq t) = seq"
    by (rule bit_word_eqI)
      (auto simp: PackSequenceAndType_def bit_drop_bit_eq bit_or_iff bit_push_bit_iff bit_ValueType,
       meson top not_le)
  show "PackSequenceAndType seq t AND 0xff = ValueType_value t"
    unfolding and_mask_bits
    by (rule bit_word_eqI)
      (auto simp: PackSequenceAndType_def bit_take_bit_iff bit_or_iff bit_push_bit_iff bit_ValueType)
qed

lemma pack_mono:
  assumes "s \<le> kMaxSequenceNumber" "s' \<le> kMaxSequenceNumber"
  shows "PackSequenceAndType s t < PackSequenceAndType s' t' \<longleftrightarrow>
    s < s' \<or> s = s' \<and> t = kTypeDeletion \<and> t' = kTypeValue"
proof -
  have unat: "unat (PackSequenceAndType s t) = 256 * unat s + unat (ValueType_value t)"
    if "s \<le> kMaxSequenceNumber" for s t
  proof -
    have "unat (drop_bit 8 (PackSequenceAndType s t)) = unat s"
      "unat (take_bit 8 (PackSequenceAndType s t)) = unat (ValueType_value t)"
      using pack_fields [OF that, of t] by (simp_all only: and_mask_bits)
    then show ?thesis
      using div_mult_mod_eq [of "unat (PackSequenceAndType s t)" 256]
      by (simp add: unat_drop_bit unat_take_bit)
  qed
  show ?thesis
    using assms word_unat_eq_iff [of s s']
    by (cases t; cases t') (auto simp: word_less_nat_alt unat ValueType_value_def)
qed

lemma ExtractUserKey_append [simp]:
  "ExtractUserKey (u @ EncodeFixed64 n) = u" "ExtractUserKey (PutFixed64 u n) = u"
  by (simp_all add: ExtractUserKey_def PutFixed64_def)

lemma key_num_append [simp]: "key_num (u @ EncodeFixed64 n) = n" "key_num (PutFixed64 u n) = n"
  using DecodeFixed_Encode(2) [of n "[]"] by (simp_all add: key_num_def PutFixed64_def)

section \<open>The contract of the internal comparator\<close>

text \<open>An internal key has room for its eight bytes of sequence number and type, a valid tag.\<close>

definition internal_valid :: "(slice \<Rightarrow> bool) \<Rightarrow> slice \<Rightarrow> bool" where
  "internal_valid valid k \<longleftrightarrow> length k \<ge> 8 \<and> valid (ExtractUserKey k)"

lemma Internal_Compare_cases:
  "Internal_Compare c a b < 0 \<longleftrightarrow>
     Compare c (ExtractUserKey a) (ExtractUserKey b) < 0 \<or>
     Compare c (ExtractUserKey a) (ExtractUserKey b) = 0 \<and> key_num a > key_num b"
  "Internal_Compare c a b > 0 \<longleftrightarrow>
     Compare c (ExtractUserKey a) (ExtractUserKey b) > 0 \<or>
     Compare c (ExtractUserKey a) (ExtractUserKey b) = 0 \<and> key_num a < key_num b"
  by (auto simp: Internal_Compare_def Let_def)

lemma Internal_Compare_le:
  "Internal_Compare c a b \<le> 0 \<longleftrightarrow>
     Compare c (ExtractUserKey a) (ExtractUserKey b) < 0 \<or>
     Compare c (ExtractUserKey a) (ExtractUserKey b) = 0 \<and> key_num a \<ge> key_num b"
  using Internal_Compare_cases(2) [of c a b] by (auto simp: not_less linorder_neq_iff)

lemma comparator_sel [simp]:
  "Compare (InternalKeyComparator c) = Internal_Compare c"
  "FindShortestSeparator (InternalKeyComparator c) = Internal_FindShortestSeparator c"
  "FindShortSuccessor (InternalKeyComparator c) = Internal_FindShortSuccessor c"
  by (simp_all add: InternalKeyComparator_def)

context separating_comparator
begin

lemma internal_trans:
  assumes v: "internal_valid valid x" "internal_valid valid y" "internal_valid valid z"
    and le: "Internal_Compare c x y \<le> 0" "Internal_Compare c y z \<le> 0"
  shows "Internal_Compare c x z \<le> 0"
proof -
  let ?x = "ExtractUserKey x" and ?y = "ExtractUserKey y" and ?z = "ExtractUserKey z"
  have v: "valid ?x" "valid ?y" "valid ?z"
    using v by (simp_all add: internal_valid_def)
  have l: "Compare c ?x ?y \<le> 0" "Compare c ?y ?z \<le> 0"
    using le by (auto simp: Internal_Compare_le)
  then have xz: "Compare c ?x ?z \<le> 0" using trans v by blast
  show ?thesis
  proof (cases "Compare c ?x ?z = 0")
    case True
    then have "Compare c ?x ?y = 0" "Compare c ?y ?z = 0"
      using less_trans2 [OF v] less_trans [OF v] l by force+
    with True le show ?thesis by (auto simp: Internal_Compare_le)
  qed (use xz in \<open>simp add: Internal_Compare_le\<close>)
qed

lemma internal_separator:
  assumes v: "internal_valid valid s" "internal_valid valid l" and less: "Internal_Compare c s l < 0"
  shows "Internal_Compare c s (Internal_FindShortestSeparator c s l) \<le> 0 \<and>
    Internal_Compare c (Internal_FindShortestSeparator c s l) l < 0"
proof -
  let ?s = "ExtractUserKey s" and ?l = "ExtractUserKey l"
  let ?t = "FindShortestSeparator c ?s ?l"
  have v: "valid ?s" "valid ?l" using v by (simp_all add: internal_valid_def)
  show ?thesis
  proof (cases "length ?t < length ?s \<and> Compare c ?s ?t < 0")
    case True
    then have "Compare c ?s ?l \<noteq> 0" using separator_same [OF v] by auto
    then have "Compare c ?s ?l < 0" using less by (auto simp: Internal_Compare_cases)
    then have "Compare c ?t ?l < 0" using separator [OF v] by blast
    with True show ?thesis
      by (simp add: Internal_FindShortestSeparator_def Let_def Internal_Compare_le Internal_Compare_cases(1))
  next
    case False
    then have "Internal_FindShortestSeparator c s l = s"
      by (auto simp: Internal_FindShortestSeparator_def Let_def)
    with less v show ?thesis by (simp add: Internal_Compare_le refl)
  qed
qed

end

text \<open>The internal comparator over a user's comparator that leaves equal keys alone.\<close>

locale user_comparator = separating_comparator

sublocale user_comparator \<subseteq> internal: separating_comparator "InternalKeyComparator c" "internal_valid valid"
proof
  fix a b d assume v: "internal_valid valid a" "internal_valid valid b" "internal_valid valid d"
  then have u: "valid (ExtractUserKey a)" "valid (ExtractUserKey b)"
    by (simp_all add: internal_valid_def)
  show "Compare (InternalKeyComparator c) a a = 0"
    using refl [OF u(1)] by (simp add: Internal_Compare_def)
  show "Compare (InternalKeyComparator c) a b < 0 \<longleftrightarrow> Compare (InternalKeyComparator c) b a > 0"
    using sym [OF u] sym_eq [OF u] by (auto simp: Internal_Compare_cases)
  show "Compare (InternalKeyComparator c) a b \<le> 0 \<Longrightarrow> Compare (InternalKeyComparator c) b d \<le> 0 \<Longrightarrow>
      Compare (InternalKeyComparator c) a d \<le> 0"
    using internal_trans [OF v] by simp
  show "Compare (InternalKeyComparator c) a b < 0 \<Longrightarrow>
      Compare (InternalKeyComparator c) a (FindShortestSeparator (InternalKeyComparator c) a b) \<le> 0 \<and>
      Compare (InternalKeyComparator c) (FindShortestSeparator (InternalKeyComparator c) a b) b < 0"
    using internal_separator [OF v(1,2)] by simp
  show "Compare (InternalKeyComparator c) a b = 0 \<Longrightarrow>
      FindShortestSeparator (InternalKeyComparator c) a b = a"
    using separator_same [OF u]
    by (auto simp: Internal_Compare_def Internal_FindShortestSeparator_def Let_def split: if_splits)
  show "Compare (InternalKeyComparator c) a (FindShortSuccessor (InternalKeyComparator c) a) \<le> 0"
    using refl [OF u(1)]
    by (auto simp: Internal_FindShortSuccessor_def Let_def Internal_Compare_le)
  show "internal_valid valid (FindShortestSeparator (InternalKeyComparator c) a b)"
    using v valid_separator [OF u]
    by (auto simp: Internal_FindShortestSeparator_def Let_def internal_valid_def PutFixed64_def)
  show "internal_valid valid (FindShortSuccessor (InternalKeyComparator c) a)"
    using v valid_successor [OF u(1)]
    by (auto simp: Internal_FindShortSuccessor_def Let_def internal_valid_def PutFixed64_def)
qed

interpretation ukey: user_comparator BytewiseComparator "\<lambda>_. True"
  by unfold_locales

section \<open>The contract of a filter policy\<close>

text \<open>
  A filter has no false negatives: every key that it was made from matches, for the lists
  of keys that \<open>ok\<close> admits. The wrapper for internal keys inherits the contract.
\<close>

locale filter_contract =
  fixes p :: filter_policy and ok :: "slice list \<Rightarrow> bool"
  assumes may_match: "ok ks \<Longrightarrow> k \<in> set ks \<Longrightarrow> KeyMayMatch p k (CreateFilter p ks)"
begin

lemma internal_may_match:
  "ok (map ExtractUserKey ks) \<Longrightarrow> k \<in> set ks \<Longrightarrow>
     KeyMayMatch (InternalFilterPolicy p) k (CreateFilter (InternalFilterPolicy p) ks)"
  using may_match [of "map ExtractUserKey ks" "ExtractUserKey k"]
  by (simp add: InternalFilterPolicy_def)

end

section \<open>Properties of keys\<close>

lemma Append_fields:
  "AppendInternalKey [] key =
     pik_user_key key @ EncodeFixed64 (PackSequenceAndType (pik_sequence key) (pik_type key))"
  by (simp add: AppendInternalKey_def PutFixed64_def)

lemma InternalKey_parts [simp]:
  "ExtractUserKey (InternalKey u s t) = u" "key_num (InternalKey u s t) = PackSequenceAndType s t"
  "length (InternalKey u s t) = length u + 8"
  by (simp_all add: InternalKey_def Append_fields)

lemma pack_unpack:
  assumes "ucast (num AND 0xff) \<le> (1 :: byte)"
  shows "PackSequenceAndType (drop_bit 8 num) (ValueType_of (ucast (num AND 0xff))) = num"
proof -
  let ?c = "ucast (num AND 0xff) :: byte"
  have "?c = 0 \<or> ?c = 1"
    using assms by (simp add: word_le_nat_alt le_Suc_eq word_unat_eq_iff)
  then have "ValueType_value (ValueType_of ?c) = ucast ?c"
    by (auto simp: ValueType_of_def ValueType_value_def)
  also have "\<dots> = num AND 0xff"
    unfolding and_mask_bits by (rule bit_word_eqI) (auto simp: bit_unsigned_iff bit_take_bit_iff)
  finally show ?thesis
    unfolding PackSequenceAndType_def and_mask_bits
    by (simp only:) (rule bit_word_eqI, auto simp: bit_or_iff bit_push_bit_iff bit_drop_bit_eq bit_take_bit_iff)
qed

text \<open>
  (C39) Internal keys and their encodings correspond: parsing what was appended gives the
  key (with a sequence number of at most 56 bits), and what parses was appended.
\<close>

theorem internal_key_roundtrip:
  "(pik_sequence key \<le> kMaxSequenceNumber \<longrightarrow> ParseInternalKey (AppendInternalKey [] key) = Some key) \<and>
   (ParseInternalKey k = Some key \<longrightarrow> AppendInternalKey [] key = k)"
proof (intro conjI impI)
  assume "pik_sequence key \<le> kMaxSequenceNumber"
  note f = pack_fields [OF this, of "pik_type key"]
  have "ucast (ValueType_value (pik_type key)) \<le> (1 :: byte)"
    by (cases "pik_type key") (simp_all add: ValueType_value_def)
  then show "ParseInternalKey (AppendInternalKey [] key) = Some key"
    using DecodeFixed_Encode(2) [of _ "[]"]
    by (simp add: Append_fields ParseInternalKey_def Let_def f ValueType_of_value)
next
  assume k: "ParseInternalKey k = Some key"
  let ?num = "DecodeFixed64 (drop (length k - 8) k)"
  have n: "\<not> length k < 8" and c: "ucast (?num AND 0xff) \<le> (1 :: byte)"
    using k by (auto simp: ParseInternalKey_def Let_def split: if_splits)
  then have "key = \<lparr>pik_user_key = take (length k - 8) k, pik_sequence = drop_bit 8 ?num,
      pik_type = ValueType_of (ucast (?num AND 0xff))\<rparr>"
    using k by (simp add: ParseInternalKey_def Let_def)
  then show "AppendInternalKey [] key = k"
    using n c EncodeFixed_Decode(2) [of "drop (length k - 8) k"]
    by (simp add: Append_fields pack_unpack)
qed

lemma InternalKey_less:
  assumes "s \<le> kMaxSequenceNumber" "s' \<le> kMaxSequenceNumber"
  shows "Internal_Compare c (InternalKey u s t) (InternalKey u' s' t') < 0 \<longleftrightarrow>
    Compare c u u' < 0 \<or>
    Compare c u u' = 0 \<and> (s' < s \<or> s = s' \<and> t = kTypeValue \<and> t' = kTypeDeletion)"
  using pack_mono [OF assms(2,1)] by (auto simp: Internal_Compare_cases)

text \<open>
  (C37) The order of internal keys: by user key, and for one user key the newer entry first
  (and a value before a deletion of the same sequence number).
\<close>

theorem internal_key_order:
  assumes "s \<le> kMaxSequenceNumber" "s' \<le> kMaxSequenceNumber"
  shows "Compare (InternalKeyComparator c) (InternalKey u s t) (InternalKey u' s' t') < 0 \<longleftrightarrow>
    Compare c u u' < 0 \<or>
    Compare c u u' = 0 \<and> (s' < s \<or> s = s' \<and> t = kTypeValue \<and> t' = kTypeDeletion)"
  using InternalKey_less [OF assms] by simp

text \<open>
  (C38) The keys that \<open>InternalKeyComparator\<close> puts into index blocks separate: between
  \<open>start\<close> and \<open>limit\<close> (the latter excluded), respectively not below \<open>key\<close>, in an order
  that is total on keys of at least eight bytes.
\<close>

theorem internal_separators:
  assumes "8 \<le> length start" "8 \<le> length limit" "8 \<le> length key"
    and "c = InternalKeyComparator BytewiseComparator"
  shows "(Compare c start limit < 0 \<longrightarrow>
      Compare c start (FindShortestSeparator c start limit) \<le> 0 \<and>
      Compare c (FindShortestSeparator c start limit) limit < 0) \<and>
    Compare c key (FindShortSuccessor c key) \<le> 0 \<and>
    (Compare c start limit < 0 \<longleftrightarrow> Compare c limit start > 0) \<and>
    (Compare c start limit \<le> 0 \<longrightarrow> Compare c limit key \<le> 0 \<longrightarrow> Compare c start key \<le> 0)"
proof -
  have v: "internal_valid (\<lambda>_. True) start" "internal_valid (\<lambda>_. True) limit" "internal_valid (\<lambda>_. True) key"
    using assms by (simp_all add: internal_valid_def)
  show ?thesis
    unfolding assms(4)
    using ukey.internal.separator [OF v(1,2)] ukey.internal.successor [OF v(3)]
      ukey.internal.sym [OF v(1,2)] ukey.internal.trans [OF v] by blast
qed

lemma LookupKey_parts:
  "memtable_key (make_LookupKey u s) = PutLengthPrefixedSlice [] (InternalKey u s kValueTypeForSeek)"
  "lookup_user_key (make_LookupKey u s) = u"
  "lookup_internal_key (make_LookupKey u s) = InternalKey u s kValueTypeForSeek"
  by (simp_all add: memtable_key_def lookup_user_key_def lookup_internal_key_def make_LookupKey_def Let_def
      PutLengthPrefixedSlice_def PutVarint32_def InternalKey_def Append_fields)

text \<open>
  A look-up key fits into the array that its constructor chooses; it consists of the
  user key's internal key with the seek type, prefixed with its length, and the accessors
  return the parts.
\<close>

lemma LookupKey_correct:
  assumes "length u + 8 < 2 ^ 32"
  shows "length (lk_array (make_LookupKey u s)) \<le> lk_capacity (make_LookupKey u s) \<and>
    lookup_user_key (make_LookupKey u s) = u \<and>
    lookup_internal_key (make_LookupKey u s) = InternalKey u s kValueTypeForSeek \<and>
    GetLengthPrefixedSlice (memtable_key (make_LookupKey u s) @ rest) =
      (Some (InternalKey u s kValueTypeForSeek), rest)"
proof -
  have "length (varint (length u + 8)) \<le> 5"
    using assms by (intro length_varint) auto
  then have "length (EncodeVarint32 (of_nat (length u + 8))) \<le> 5"
    using assms by (simp add: EncodeVarint32_varint unat_of_nat_small del: of_nat_add)
  then show ?thesis
    using assms lps.get_put [of "InternalKey u s kValueTypeForSeek" rest]
    by (simp add: LookupKey_parts) (simp add: make_LookupKey_def Let_def)
qed

section \<open>Instances\<close>

theorem internal_key_roundtrip_witness:
  "ParseInternalKey (AppendInternalKey [] \<lparr>pik_user_key = [1, 2], pik_sequence = 5, pik_type = kTypeValue\<rparr>) =
   Some \<lparr>pik_user_key = [1, 2], pik_sequence = 5, pik_type = kTypeValue\<rparr>"
  using internal_key_roundtrip [of "\<lparr>pik_user_key = [1, 2], pik_sequence = 5, pik_type = kTypeValue\<rparr>"]
  by (simp add: kMaxSequenceNumber_value)

theorem internal_key_order_witness:
  "Compare (InternalKeyComparator BytewiseComparator) (InternalKey [1] 9 kTypeValue) (InternalKey [1] 4 kTypeValue) < 0"
  using internal_key_order [of 9 4 BytewiseComparator "[1]" kTypeValue "[1]" kTypeValue]
  by (simp add: kMaxSequenceNumber_value BytewiseComparator_def)

theorem internal_separators_witness:
  "Compare (InternalKeyComparator BytewiseComparator)
    (FindShortestSeparator (InternalKeyComparator BytewiseComparator) (InternalKey [1, 2, 3] 7 kTypeValue)
       (InternalKey [9] 7 kTypeValue)) (InternalKey [9] 7 kTypeValue) < 0"
proof -
  have "Compare (InternalKeyComparator BytewiseComparator) (InternalKey [1, 2, 3] 7 kTypeValue)
      (InternalKey [9] 7 kTypeValue) < 0"
    by (simp add: Internal_Compare_cases BytewiseComparator_def)
  then show ?thesis
    using internal_separators [of "InternalKey [1, 2, 3] 7 kTypeValue" "InternalKey [9] 7 kTypeValue"
        "InternalKey [9] 7 kTypeValue", OF _ _ _ refl]
    by simp
qed

lemma LookupKey_correct_witness:
  "lookup_user_key (make_LookupKey [1, 2, 3] 77) = [1, 2, 3]"
  using LookupKey_correct [of "[1, 2, 3]" 77 "[]"] by simp

end
