(* ===== verification/Ldb_Logging.thy ===== *)
theory Ldb_Logging
  imports Ldb_Coding
begin

text \<open>
  \<^verbatim>\<open>util/logging.cc\<close> and \<^verbatim>\<open>util/status.cc\<close>: decimal numbers with their overflow check,
  escaping of strings, and the status values that the other files return.
\<close>

section \<open>Characters\<close>

text \<open>The bytes of a string literal.\<close>

definition lit :: "string \<Rightarrow> byte list" where
  "lit s = map of_char s"

text \<open>The decimal digits that \<^verbatim>\<open>%llu\<close> prints, and the lower-case hexadecimal ones of \<^verbatim>\<open>%x\<close>.\<close>

fun decimal :: "nat \<Rightarrow> byte list" where
  "decimal n = (if n < 10 then [48 + of_nat n] else decimal (n div 10) @ [48 + of_nat (n mod 10)])"

declare decimal.simps [simp del]

definition hex_digit :: "byte \<Rightarrow> byte" where
  "hex_digit d = (if d < 10 then 48 + d else 87 + d)"

section \<open>Logging\<close>

definition AppendNumberTo :: "byte list \<Rightarrow> u64 \<Rightarrow> byte list" where
  "AppendNumberTo str num = str @ decimal (unat num)"

definition NumberToString :: "u64 \<Rightarrow> byte list" where
  "NumberToString num = AppendNumberTo [] num"

text \<open>\<^verbatim>\<open>char\<close> is signed: bytes from 128 on are below the space.\<close>

definition AppendEscapedStringTo :: "byte list \<Rightarrow> slice \<Rightarrow> byte list" where
  "AppendEscapedStringTo str value =
     str @ concat (map (\<lambda>c. if sint c \<ge> 32 \<and> sint c \<le> 126 then [c]
       else lit [CHR 0x5c, CHR ''x''] @ [hex_digit (drop_bit 4 c), hex_digit (c AND 0xf)]) value)"

definition EscapeString :: "slice \<Rightarrow> byte list" where
  "EscapeString value = AppendEscapedStringTo [] value"

definition kMaxUint64 :: u64 where
  "kMaxUint64 = - 1"

definition kLastDigitOfMaxUint64 :: byte where
  "kLastDigitOfMaxUint64 = 48 + ucast (kMaxUint64 mod 10)"

text \<open>The loop: \<open>None\<close> on overflow, otherwise the value and the remaining input.\<close>

fun consume_loop :: "u64 \<Rightarrow> slice \<Rightarrow> (u64 \<times> slice) option" where
  "consume_loop value [] = Some (value, [])"
| "consume_loop value (ch # cs) =
     (if ch < 48 \<or> ch > 57 then Some (value, ch # cs)
      else if value > kMaxUint64 div 10 \<or> value = kMaxUint64 div 10 \<and> ch > kLastDigitOfMaxUint64
      then None
      else consume_loop (value * 10 + (ucast ch - 48)) cs)"

definition ConsumeDecimalNumber :: "slice \<Rightarrow> u64 option \<times> slice" where
  "ConsumeDecimalNumber in' =
     (case consume_loop 0 in' of
        None \<Rightarrow> (None, in')
      | Some (value, current) \<Rightarrow>
          let digits_consumed = length in' - length current
          in (if digits_consumed \<noteq> 0 then Some value else None, remove_prefix digits_consumed in'))"

section \<open>Status\<close>

text \<open>
  \<open>state_\<close> is null or an array with the length of the message, the code and the message.
\<close>

type_synonym Status = "byte list option"

datatype Code = kOk | kNotFound | kCorruption | kNotSupported | kInvalidArgument | kIOError

definition Code_value :: "Code \<Rightarrow> byte" where
  "Code_value c =
     (case c of kOk \<Rightarrow> 0 | kNotFound \<Rightarrow> 1 | kCorruption \<Rightarrow> 2 | kNotSupported \<Rightarrow> 3
      | kInvalidArgument \<Rightarrow> 4 | kIOError \<Rightarrow> 5)"

definition CopyState :: "byte list \<Rightarrow> byte list" where
  "CopyState state = (let size' = DecodeFixed32 state in take (unat (size' + 5)) state)"

definition make_Status :: "Code \<Rightarrow> slice \<Rightarrow> slice \<Rightarrow> Status" where
  "make_Status code msg msg2 =
     (let len1 = of_nat (length msg) :: u32; len2 = of_nat (length msg2) :: u32;
          size' = len1 + (if len2 \<noteq> 0 then 2 + len2 else 0)
      in Some (EncodeFixed32 size' @ [Code_value code] @ take (unat len1) msg @
           (if len2 \<noteq> 0 then lit '': '' @ take (unat len2) msg2 else [])))"

definition OK :: Status where
  "OK = None"

definition NotFound :: "slice \<Rightarrow> Status" where
  "NotFound msg = make_Status kNotFound msg []"

definition Corruption :: "slice \<Rightarrow> Status" where
  "Corruption msg = make_Status kCorruption msg []"

definition Corruption2 :: "slice \<Rightarrow> slice \<Rightarrow> Status" where
  "Corruption2 msg msg2 = make_Status kCorruption msg msg2"

definition NotFound2 :: "slice \<Rightarrow> slice \<Rightarrow> Status" where
  "NotFound2 msg msg2 = make_Status kNotFound msg msg2"

definition NotSupported :: "slice \<Rightarrow> Status" where
  "NotSupported msg = make_Status kNotSupported msg []"

definition InvalidArgument :: "slice \<Rightarrow> Status" where
  "InvalidArgument msg = make_Status kInvalidArgument msg []"

definition IOError :: "slice \<Rightarrow> slice \<Rightarrow> Status" where
  "IOError msg msg2 = make_Status kIOError msg msg2"

definition Status_ok :: "Status \<Rightarrow> bool" where
  "Status_ok s \<longleftrightarrow> s = None"

definition Status_code :: "Status \<Rightarrow> byte" where
  "Status_code s = (case s of None \<Rightarrow> Code_value kOk | Some st \<Rightarrow> st ! 4)"

definition IsNotFound :: "Status \<Rightarrow> bool" where
  "IsNotFound s \<longleftrightarrow> Status_code s = Code_value kNotFound"

definition IsCorruption :: "Status \<Rightarrow> bool" where
  "IsCorruption s \<longleftrightarrow> Status_code s = Code_value kCorruption"

definition IsIOError :: "Status \<Rightarrow> bool" where
  "IsIOError s \<longleftrightarrow> Status_code s = Code_value kIOError"

definition IsNotSupportedError :: "Status \<Rightarrow> bool" where
  "IsNotSupportedError s \<longleftrightarrow> Status_code s = Code_value kNotSupported"

definition IsInvalidArgument :: "Status \<Rightarrow> bool" where
  "IsInvalidArgument s \<longleftrightarrow> Status_code s = Code_value kInvalidArgument"

definition Status_copy :: "Status \<Rightarrow> Status" where
  "Status_copy rhs = map_option CopyState rhs"

definition signed_decimal :: "byte \<Rightarrow> byte list" where
  "signed_decimal c = (if sint c < 0 then 45 # decimal (nat (- sint c)) else decimal (nat (sint c)))"

definition ToString :: "Status \<Rightarrow> byte list" where
  "ToString s =
     (case s of
        None \<Rightarrow> lit ''OK''
      | Some st \<Rightarrow>
          let code = st ! 4;
              type =
                (if code = Code_value kOk then lit ''OK''
                 else if code = Code_value kNotFound then lit ''NotFound: ''
                 else if code = Code_value kCorruption then lit ''Corruption: ''
                 else if code = Code_value kNotSupported then lit ''Not implemented: ''
                 else if code = Code_value kInvalidArgument then lit ''Invalid argument: ''
                 else if code = Code_value kIOError then lit ''IO error: ''
                 else lit ''Unknown code('' @ signed_decimal code @ lit ''): '')
          in type @ take (unat (DecodeFixed32 st)) (drop 5 st))"

lemma make_Status_simps [simp]:
  "Status_ok (make_Status c m m2) \<longleftrightarrow> False" "Status_code (make_Status c m m2) = Code_value c"
  by (simp_all add: Status_ok_def make_Status_def Status_code_def Let_def nth_append)

lemma Status_kinds [simp]:
  "Status_ok OK" "\<not> Status_ok (NotFound m)" "\<not> Status_ok (Corruption m)" "\<not> Status_ok (Corruption2 m m2)"
  "\<not> Status_ok (InvalidArgument m)" "IsNotFound (NotFound m)" "IsCorruption (Corruption m)"
  "\<not> IsCorruption OK" "\<not> IsNotFound OK" "\<not> Status_ok (NotFound2 m m2)" "\<not> Status_ok (NotSupported m)"
  "\<not> Status_ok (IOError m m2)"
  by (simp_all add: OK_def NotFound2_def NotSupported_def IOError_def NotFound_def Corruption_def Corruption2_def InvalidArgument_def
      IsNotFound_def IsCorruption_def Status_ok_def [of None] Status_code_def [of None] Code_value_def)

lemma CopyState_id: "length body + 4 = unat (size' + 5) \<Longrightarrow> CopyState (EncodeFixed32 size' @ body) = EncodeFixed32 size' @ body"
  by (simp add: CopyState_def)

lemma Status_copy_make:
  assumes "length m + length m2 + 7 < 2 ^ 32"
  shows "Status_copy (make_Status c m m2) = make_Status c m m2"
proof -
  have u: "unat (of_nat n :: u32) = n" if "n < 2 ^ 32" for n
    using that by (intro unat_of_nat_small) simp
  have z: "(of_nat (length m2) :: u32) = 0 \<longleftrightarrow> m2 = []"
    using u [of "length m2"] assms unat_eq_zero [of "of_nat (length m2) :: u32"] by simp
  let ?n = "length m + (if m2 = [] then 0 else 2 + length m2)"
  let ?body = "[Code_value c] @ m @ (if m2 = [] then [] else lit '': '' @ m2)"
  have "make_Status c m m2 = Some (EncodeFixed32 (of_nat ?n) @ ?body)"
    using assms u [of "length m"] u [of "length m2"] z by (simp add: make_Status_def Let_def)
  moreover have "unat (of_nat ?n + 5 :: u32) = length ?body + 4"
    using assms u [of "?n + 5"] by (simp add: lit_def algebra_simps)
  ultimately show ?thesis
    using CopyState_id [of ?body "of_nat ?n"] by (simp only: Status_copy_def option.map)
qed

section \<open>Decimal numbers\<close>

fun digits_value :: "nat \<Rightarrow> byte list \<Rightarrow> nat" where
  "digits_value v [] = v"
| "digits_value v (d # ds) = digits_value (v * 10 + (unat d - 48)) ds"

definition is_digit :: "byte \<Rightarrow> bool" where
  "is_digit c \<longleftrightarrow> 48 \<le> c \<and> c \<le> 57"

lemma digits_value_mono: "v \<le> digits_value v ds"
  by (induction v ds rule: digits_value.induct) auto

lemma digits_value_append: "digits_value v (ds @ es) = digits_value (digits_value v ds) es"
  by (induction ds arbitrary: v) auto

lemma digit_byte: "d < 10 \<Longrightarrow> unat (48 + of_nat d :: byte) = 48 + d"
  using unat_of_nat_small [of "48 + d", where 'a = 8] by simp

lemma decimal_digits: "ds = decimal n \<Longrightarrow> list_all is_digit ds \<and> ds \<noteq> [] \<and> digits_value 0 ds = n"
proof (induction n arbitrary: ds rule: decimal.induct)
  case (1 n)
  have dig: "is_digit (48 + of_nat d)" if "d < 10" for d
    using digit_byte [OF that] that by (simp add: is_digit_def word_le_nat_alt)
  show ?case
  proof (cases "n < 10")
    case True
    then show ?thesis
      using "1.prems" dig digit_byte by (simp add: decimal.simps [of n])
  next
    case False
    have "n mod 10 < 10" by simp
    then show ?thesis
      using "1.IH" [OF False refl] "1.prems" False dig digit_byte
      by (simp add: decimal.simps [of n] digits_value_append)
  qed
qed

lemma max_step:
  assumes "is_digit ch"
  shows "value > kMaxUint64 div 10 \<or> value = kMaxUint64 div 10 \<and> ch > kLastDigitOfMaxUint64 \<longleftrightarrow>
      2 ^ 64 \<le> unat value * 10 + (unat ch - 48)"
    and "unat value * 10 + (unat ch - 48) < 2 ^ 64 \<Longrightarrow>
      unat (value * 10 + (ucast ch - 48)) = unat value * 10 + (unat ch - 48)"
proof -
  have ch: "48 \<le> unat ch" "unat ch \<le> 57"
    using assms by (simp_all add: is_digit_def word_le_nat_alt)
  have k: "kMaxUint64 div 10 = 0x1999999999999999" "kLastDigitOfMaxUint64 = 53"
    by (simp_all add: kLastDigitOfMaxUint64_def kMaxUint64_def)
  show "value > kMaxUint64 div 10 \<or> value = kMaxUint64 div 10 \<and> ch > kLastDigitOfMaxUint64 \<longleftrightarrow>
      2 ^ 64 \<le> unat value * 10 + (unat ch - 48)"
    unfolding k using ch by (auto simp: word_less_nat_alt word_unat_eq_iff)
  assume small: "unat value * 10 + (unat ch - 48) < 2 ^ 64"
  have "value * 10 + (ucast ch - 48) = (of_nat (unat value * 10 + (unat ch - 48)) :: u64)"
    using ch by (simp add: of_nat_diff)
  also have "unat \<dots> = unat value * 10 + (unat ch - 48)"
    using small by (intro unat_of_nat_small) simp
  finally show "unat (value * 10 + (ucast ch - 48)) = unat value * 10 + (unat ch - 48)" .
qed

lemma consume_loop_value:
  "consume_loop value cs =
     (let n = digits_value (unat value) (takeWhile is_digit cs)
      in if n < 2 ^ 64 then Some (of_nat n, dropWhile is_digit cs) else None)"
proof (induction cs arbitrary: "value")
  case Nil
  then show ?case using unat_bound [of "value"] by simp
next
  case (Cons ch cs)
  have stop: "(ch < 48 \<or> ch > 57) \<longleftrightarrow> \<not> is_digit ch"
    by (auto simp: is_digit_def)
  show ?case
  proof (cases "is_digit ch")
    case False
    then show ?thesis using unat_bound [of "value"] by (simp add: stop)
  next
    case True
    let ?v = "unat value * 10 + (unat ch - 48)"
    show ?thesis
    proof (cases "?v < 2 ^ 64")
      case small: True
      then show ?thesis
        using True Cons.IH [of "value * 10 + (ucast ch - 48)"] max_step [OF True, of "value"]
        by (auto simp: stop Let_def)
    next
      case False
      then have "\<not> digits_value ?v (takeWhile is_digit cs) < 2 ^ 64"
        using digits_value_mono [of ?v "takeWhile is_digit cs"] by linarith
      with False True show ?thesis
        using max_step(1) [OF True, of "value"] by (simp add: stop)
    qed
  qed
qed

lemma ConsumeDecimalNumber_value:
  "ConsumeDecimalNumber s =
     (let ds = takeWhile is_digit s; n = digits_value 0 ds
      in if ds = [] \<or> 2 ^ 64 \<le> n then (None, s) else (Some (of_nat n), dropWhile is_digit s))"
proof -
  have "length s - length (dropWhile is_digit s) = length (takeWhile is_digit s)"
    by (metis add_diff_cancel_right' length_append takeWhile_dropWhile_id)
  moreover have "drop (length (takeWhile is_digit s)) s = dropWhile is_digit s"
    by (simp add: dropWhile_eq_drop)
  moreover have "takeWhile is_digit s = [] \<Longrightarrow> dropWhile is_digit s = s"
    by (metis takeWhile_dropWhile_id append_Nil)
  ultimately show ?thesis
    by (auto simp: ConsumeDecimalNumber_def consume_loop_value Let_def remove_prefix_def)
qed

text \<open>Digits that something else follows.\<close>

lemma ConsumeDecimalNumber_digits:
  assumes "list_all is_digit ds" "ds \<noteq> []" "digits_value 0 ds < 2 ^ 64" "rest = [] \<or> \<not> is_digit (hd rest)"
  shows "ConsumeDecimalNumber (ds @ rest) = (Some (of_nat (digits_value 0 ds)), rest)"
proof -
  have "takeWhile is_digit (ds @ rest) = ds \<and> dropWhile is_digit (ds @ rest) = rest"
    using assms(1,4) by (cases rest) (auto simp: list_all_iff)
  then show ?thesis using assms(2,3) by (simp add: ConsumeDecimalNumber_value)
qed

text \<open>
  \<open>ConsumeDecimalNumber\<close> takes the leading decimal digits; it fails exactly if there
  are none or their value does not fit into 64 bits. It reads back every number that
  \<open>NumberToString\<close> prints.
\<close>

lemma ConsumeDecimalNumber_correct:
  "ConsumeDecimalNumber s =
     (let ds = takeWhile is_digit s; n = digits_value 0 ds
      in if ds = [] \<or> 2 ^ 64 \<le> n then (None, s) else (Some (of_nat n), dropWhile is_digit s)) \<and>
   ((rest = [] \<or> \<not> is_digit (hd rest)) \<longrightarrow>
     ConsumeDecimalNumber (NumberToString v @ rest) = (Some v, rest))"
proof -
  have d: "list_all is_digit (NumberToString v)" "NumberToString v \<noteq> []" "digits_value 0 (NumberToString v) = unat v"
    using decimal_digits [OF refl, of "unat v"] by (simp_all add: NumberToString_def AppendNumberTo_def)
  show ?thesis
    using ConsumeDecimalNumber_value [of s] ConsumeDecimalNumber_digits [OF d(1,2), of rest] d(3) unat_bound [of v] by simp
qed

lemma ConsumeDecimalNumber_correct_witness:
  "ConsumeDecimalNumber (NumberToString 42 @ [46]) = (Some 42, [46])"
  using ConsumeDecimalNumber_correct [of "[]" "[46]" 42] by (simp add: is_digit_def)

end
