(* ===== verification/Ldb_WriteBatch.thy ===== *)
theory Ldb_WriteBatch
  imports Ldb_Dbformat Ldb_Logging
begin

text \<open>
  \<^verbatim>\<open>db/write_batch.cc\<close> and \<^verbatim>\<open>db/write_batch_internal.h\<close>: the batch of updates that is
  written to the log and applied to the memtable as one. Its only state is the string
  \<open>rep_\<close>: a sequence number, a count and the records.
\<close>

section \<open>The batch\<close>

type_synonym WriteBatch = "byte list"

definition kHeader :: nat where
  "kHeader = 12"

definition WriteBatch_Clear :: WriteBatch where
  "WriteBatch_Clear = replicate kHeader 0"

definition ApproximateSize :: "WriteBatch \<Rightarrow> nat" where
  "ApproximateSize b = length b"

text \<open>Overwriting a part of the string.\<close>

definition overwrite :: "nat \<Rightarrow> byte list \<Rightarrow> byte list \<Rightarrow> byte list" where
  "overwrite p bs rep = take p rep @ bs @ drop (p + length bs) rep"

definition Count :: "WriteBatch \<Rightarrow> u32" where
  "Count b = DecodeFixed32 (drop 8 b)"

definition SetCount :: "WriteBatch \<Rightarrow> u32 \<Rightarrow> WriteBatch" where
  "SetCount b n = overwrite 8 (EncodeFixed32 n) b"

definition Sequence :: "WriteBatch \<Rightarrow> u64" where
  "Sequence b = DecodeFixed64 b"

definition SetSequence :: "WriteBatch \<Rightarrow> u64 \<Rightarrow> WriteBatch" where
  "SetSequence b seq = overwrite 0 (EncodeFixed64 seq) b"

definition ValueType_char :: "ValueType \<Rightarrow> byte" where
  "ValueType_char t = ucast (ValueType_value t)"

definition WriteBatch_Put :: "WriteBatch \<Rightarrow> slice \<Rightarrow> slice \<Rightarrow> WriteBatch" where
  "WriteBatch_Put b key value =
     (let b = SetCount b (Count b + 1); b = b @ [ValueType_char kTypeValue];
          b = PutLengthPrefixedSlice b key
      in PutLengthPrefixedSlice b value)"

definition WriteBatch_Delete :: "WriteBatch \<Rightarrow> slice \<Rightarrow> WriteBatch" where
  "WriteBatch_Delete b key =
     (let b = SetCount b (Count b + 1); b = b @ [ValueType_char kTypeDeletion]
      in PutLengthPrefixedSlice b key)"

definition SetContents :: "slice \<Rightarrow> WriteBatch" where
  "SetContents contents = contents"

definition WriteBatch_Append :: "WriteBatch \<Rightarrow> WriteBatch \<Rightarrow> WriteBatch" where
  "WriteBatch_Append dst src = SetCount dst (Count dst + Count src) @ drop kHeader src"

section \<open>Iteration\<close>

text \<open>A handler with state \<open>'s\<close>, and the loop of \<open>Iterate\<close> with the number of records found.\<close>

record 's handler =
  hd_Put :: "slice \<Rightarrow> slice \<Rightarrow> 's \<Rightarrow> 's"
  hd_Delete :: "slice \<Rightarrow> 's \<Rightarrow> 's"

function iterate_loop :: "'s handler \<Rightarrow> slice \<Rightarrow> u32 \<Rightarrow> 's \<Rightarrow> Status \<times> u32 \<times> 's" where
  "iterate_loop handler input found s =
     (if input = [] then (OK, found, s)
      else let found = found + 1; tag = hd input; input = tl input in
        if tag = ValueType_char kTypeValue then
          (case GetLengthPrefixedSlice input of
             (Some key, input1) \<Rightarrow>
               (case GetLengthPrefixedSlice input1 of
                  (Some value, input2) \<Rightarrow> iterate_loop handler input2 found (hd_Put handler key value s)
                | (None, _) \<Rightarrow> (Corruption (lit ''bad WriteBatch Put''), found, s))
           | (None, _) \<Rightarrow> (Corruption (lit ''bad WriteBatch Put''), found, s))
        else if tag = ValueType_char kTypeDeletion then
          (case GetLengthPrefixedSlice input of
             (Some key, input1) \<Rightarrow> iterate_loop handler input1 found (hd_Delete handler key s)
           | (None, _) \<Rightarrow> (Corruption (lit ''bad WriteBatch Delete''), found, s))
        else (Corruption (lit ''unknown WriteBatch tag''), found, s))"
  by pat_completeness auto
termination
  by (relation "measure (\<lambda>(h, input, f, s). length input)")
    (auto dest!: GetLengthPrefixedSlice_shorter [OF sym] simp: neq_Nil_conv)

declare iterate_loop.simps [simp del]

definition Iterate :: "'s handler \<Rightarrow> WriteBatch \<Rightarrow> 's \<Rightarrow> Status \<times> 's" where
  "Iterate handler b s =
     (if length b < kHeader then (Corruption (lit ''malformed WriteBatch (too small)''), s)
      else case iterate_loop handler (remove_prefix kHeader b) 0 s of (st, found, s) \<Rightarrow>
        if \<not> Status_ok st then (st, s)
        else if found \<noteq> Count b then (Corruption (lit ''WriteBatch has wrong count''), s)
        else (OK, s))"

section \<open>Batches as lists of updates\<close>

datatype wb_op = Op_Put slice slice | Op_Delete slice

fun op_apply :: "'s handler \<Rightarrow> wb_op \<Rightarrow> 's \<Rightarrow> 's" where
  "op_apply h (Op_Put k v) s = hd_Put h k v s"
| "op_apply h (Op_Delete k) s = hd_Delete h k s"

fun op_bytes :: "wb_op \<Rightarrow> byte list" where
  "op_bytes (Op_Put k v) = ValueType_char kTypeValue # PutLengthPrefixedSlice [] k @ PutLengthPrefixedSlice [] v"
| "op_bytes (Op_Delete k) = ValueType_char kTypeDeletion # PutLengthPrefixedSlice [] k"

fun op_ok :: "wb_op \<Rightarrow> bool" where
  "op_ok (Op_Put k v) \<longleftrightarrow> length k < 2 ^ 32 \<and> length v < 2 ^ 32"
| "op_ok (Op_Delete k) \<longleftrightarrow> length k < 2 ^ 32"

definition batch_of :: "u64 \<Rightarrow> wb_op list \<Rightarrow> WriteBatch" where
  "batch_of seq ops = EncodeFixed64 seq @ EncodeFixed32 (of_nat (length ops)) @ concat (map op_bytes ops)"

lemma ValueType_chars: "ValueType_char kTypeValue = 1" "ValueType_char kTypeDeletion = 0"
  by (simp_all add: ValueType_char_def ValueType_value_def)

lemma batch_header [simp]:
  "Count (batch_of seq ops) = of_nat (length ops)" "Sequence (batch_of seq ops) = seq"
  "drop kHeader (batch_of seq ops) = concat (map op_bytes ops)" "\<not> length (batch_of seq ops) < kHeader"
  by (simp_all add: Count_def Sequence_def batch_of_def kHeader_def)

lemma SetCount_batch:
  "SetCount (batch_of seq ops) n = EncodeFixed64 seq @ EncodeFixed32 n @ concat (map op_bytes ops)"
  by (simp add: SetCount_def overwrite_def batch_of_def)

lemma batch_updates:
  "WriteBatch_Clear = batch_of 0 []"
  "SetSequence (batch_of seq ops) seq' = batch_of seq' ops"
  "WriteBatch_Put (batch_of seq ops) k v = batch_of seq (ops @ [Op_Put k v])"
  "WriteBatch_Delete (batch_of seq ops) k = batch_of seq (ops @ [Op_Delete k])"
  "WriteBatch_Append (batch_of seq ops) (batch_of seq' ops') = batch_of seq (ops @ ops')"
proof -
  have *: "PutLengthPrefixedSlice b k = b @ PutLengthPrefixedSlice [] k" for b k
    by (rule lps.put_append)
  show "WriteBatch_Clear = batch_of 0 []"
    by (simp add: WriteBatch_Clear_def batch_of_def kHeader_def EncodeFixed64_def EncodeFixed32_def
        kLittleEndian_def bytes_of_word_def eval_nat_numeral)
  show "SetSequence (batch_of seq ops) seq' = batch_of seq' ops"
    by (simp add: SetSequence_def overwrite_def batch_of_def)
  show "WriteBatch_Put (batch_of seq ops) k v = batch_of seq (ops @ [Op_Put k v])"
    by (simp add: WriteBatch_Put_def Let_def SetCount_batch * [of "_ @ _"])
      (simp add: batch_of_def add.commute)
  show "WriteBatch_Delete (batch_of seq ops) k = batch_of seq (ops @ [Op_Delete k])"
    by (simp add: WriteBatch_Delete_def Let_def SetCount_batch * [of "_ @ _"])
      (simp add: batch_of_def add.commute)
  show "WriteBatch_Append (batch_of seq ops) (batch_of seq' ops') = batch_of seq (ops @ ops')"
    by (simp add: WriteBatch_Append_def SetCount_batch) (simp add: batch_of_def)
qed

lemma iterate_loop_ops:
  "list_all op_ok ops \<Longrightarrow>
     iterate_loop h (concat (map op_bytes ops)) n s = (OK, n + of_nat (length ops), fold (op_apply h) ops s)"
proof (induction ops arbitrary: n s)
  case Nil
  then show ?case by (simp add: iterate_loop.simps)
next
  case (Cons op ops)
  then show ?case
    by (cases op) (simp_all add: iterate_loop.simps [of h "_ # _"] ValueType_chars lps.get_put add.assoc)
qed

lemma Iterate_batch:
  assumes "list_all op_ok ops"
  shows "Iterate h (batch_of seq ops) s = (OK, fold (op_apply h) ops s)"
  using iterate_loop_ops [OF assms, of h 0 s] by (simp add: Iterate_def remove_prefix_def)

text \<open>The batches that the public operations make, with the updates they were asked for.\<close>

inductive batch_reaches :: "WriteBatch \<Rightarrow> u64 \<Rightarrow> wb_op list \<Rightarrow> bool" where
  clear: "batch_reaches WriteBatch_Clear 0 []"
| put: "batch_reaches b seq ops \<Longrightarrow> length k < 2 ^ 32 \<Longrightarrow> length v < 2 ^ 32 \<Longrightarrow>
    batch_reaches (WriteBatch_Put b k v) seq (ops @ [Op_Put k v])"
| delete: "batch_reaches b seq ops \<Longrightarrow> length k < 2 ^ 32 \<Longrightarrow>
    batch_reaches (WriteBatch_Delete b k) seq (ops @ [Op_Delete k])"
| append: "batch_reaches b seq ops \<Longrightarrow> batch_reaches b' seq' ops' \<Longrightarrow>
    batch_reaches (WriteBatch_Append b b') seq (ops @ ops')"
| sequence: "batch_reaches b seq ops \<Longrightarrow> batch_reaches (SetSequence b seq') seq' ops"
| contents: "batch_reaches b seq ops \<Longrightarrow> batch_reaches (SetContents b) seq ops"

lemma batch_reaches_of: "batch_reaches b seq ops \<Longrightarrow> b = batch_of seq ops \<and> list_all op_ok ops"
  by (induction rule: batch_reaches.induct) (auto simp: batch_updates SetContents_def)

section \<open>The records in an arbitrary string\<close>

text \<open>
  The format of the records, independent of the parser: a varint of up to five bytes, seven
  bits each and the least significant ones first, of which 32 bits count; a string behind
  its length; a tag with one or two strings. The bytes of a varint need not be the shortest
  ones for its value.
\<close>

fun varint_value :: "byte list \<Rightarrow> nat" where
  "varint_value [] = 0"
| "varint_value (b # bs) = unat b mod 128 + 128 * varint_value bs"

definition varint_bytes :: "byte list \<Rightarrow> nat \<Rightarrow> bool" where
  "varint_bytes bs n \<longleftrightarrow>
     bs \<noteq> [] \<and> length bs \<le> 5 \<and> list_all (\<lambda>b. 128 \<le> b) (butlast bs) \<and> last bs < 128 \<and>
     n = varint_value bs mod 2 ^ 32"

definition string_bytes :: "byte list \<Rightarrow> slice \<Rightarrow> bool" where
  "string_bytes bs k \<longleftrightarrow> (\<exists>vs. bs = vs @ k \<and> varint_bytes vs (length k))"

fun record_bytes :: "byte list \<Rightarrow> wb_op \<Rightarrow> bool" where
  "record_bytes bs (Op_Put k v) \<longleftrightarrow> (\<exists>ks vs. bs = 0x01 # ks @ vs \<and> string_bytes ks k \<and> string_bytes vs v)"
| "record_bytes bs (Op_Delete k) \<longleftrightarrow> (\<exists>ks. bs = 0x00 # ks \<and> string_bytes ks k)"

text \<open>The contents behind the header are the records of \<open>ops\<close> and a rest that does not start with one.\<close>

definition contents_of :: "slice \<Rightarrow> wb_op list \<Rightarrow> slice \<Rightarrow> bool" where
  "contents_of bs ops rest \<longleftrightarrow>
     (\<exists>recs. bs = concat recs @ rest \<and> list_all2 record_bytes recs ops) \<and>
     (\<nexists>r op rest'. rest = r @ rest' \<and> record_bytes r op)"

text \<open>What \<open>Iterate\<close> then reports.\<close>

definition contents_status :: "u32 \<Rightarrow> wb_op list \<Rightarrow> slice \<Rightarrow> Status" where
  "contents_status count ops rest =
     (if rest \<noteq> [] then
        Corruption (lit (if hd rest = 0x01 then ''bad WriteBatch Put''
          else if hd rest = 0x00 then ''bad WriteBatch Delete'' else ''unknown WriteBatch tag''))
      else if of_nat (length ops) \<noteq> count then Corruption (lit ''WriteBatch has wrong count'')
      else OK)"

lemma varint_byte:
  fixes b :: byte
  shows "(ucast b :: u32) AND 128 = 0 \<longleftrightarrow> b < 128" "(ucast b :: u32) AND 127 = of_nat (unat b mod 128)"
    "b < 128 \<Longrightarrow> unat b mod 128 = unat b"
proof -
  have "b AND 0x80 = 0 \<longleftrightarrow> b < 128" "b AND 0x7F = of_nat (unat b mod 128)"
  proof -
    have small: "b AND 0x80 = 0 \<and> b AND 0x7F = b" if "unat b < 128"
      using byte_last [OF that] by simp
    have big: "b AND 0x80 \<noteq> 0 \<and> b AND 0x7F = of_nat (unat b mod 128)" if "\<not> unat b < 128"
    proof -
      have "unat b < 256" using unat_bound [of b] by simp
      then have "unat b mod 128 = unat b - 128" using that by (simp add: le_mod_geq)
      then have "unat b = unat b mod 128 + 128" using that by linarith
      then have "(of_nat (unat b) :: byte) = of_nat (unat b mod 128 + 128)" by (rule arg_cong)
      then have "b = of_nat (unat b mod 128 + 128)" by (simp only: of_nat_unat ucast_id)
      then show ?thesis using byte_cont [of "unat b mod 128"] by (metis mod_less_divisor zero_less_numeral)
    qed
    show "b AND 0x80 = 0 \<longleftrightarrow> b < 128" using small big by (auto simp: word_less_nat_alt)
    show "b AND 0x7F = of_nat (unat b mod 128)" using small big by (cases "unat b < 128") auto
  qed
  then show "(ucast b :: u32) AND 128 = 0 \<longleftrightarrow> b < 128" "(ucast b :: u32) AND 127 = of_nat (unat b mod 128)"
    using ucast_and_top [where 'a = 32, of b] ucast_and_top(3) [where 'a = 32, of "b AND 0x80"] by (simp_all add: ucast_of_nat_byte)
  show "b < 128 \<Longrightarrow> unat b mod 128 = unat b" by (simp add: word_less_nat_alt)
qed

lemma varint_from_bytes:
  "varint_from 28 sh (r :: u32) p = Some (v, q) \<longleftrightarrow>
     (\<exists>bs. p = bs @ q \<and> bs \<noteq> [] \<and> sh + 7 * (length bs - 1) \<le> 28 \<and> list_all (\<lambda>b. 128 \<le> b) (butlast bs) \<and>
        last bs < 128 \<and> v = r OR push_bit sh (of_nat (varint_value bs)))"
proof (induction p arbitrary: sh r)
  case Nil
  show ?case by simp
next
  case (Cons b p)
  let ?P = "\<lambda>sh r p bs. p = bs @ q \<and> bs \<noteq> [] \<and> sh + 7 * (length bs - 1) \<le> 28 \<and> list_all (\<lambda>b. 128 \<le> b) (butlast bs) \<and>
      last bs < 128 \<and> v = r OR push_bit sh (of_nat (varint_value bs))"
  show ?case
  proof (cases "b < 128")
    case True
    have "(\<exists>bs. ?P sh r (b # p) bs) \<longleftrightarrow> ?P sh r (b # p) [b]"
    proof
      assume "\<exists>bs. ?P sh r (b # p) bs"
      then obtain bs where bs: "?P sh r (b # p) bs" by blast
      then obtain bs' where "bs = b # bs'" by (cases bs) auto
      moreover have "bs' = []" using bs calculation True by (cases bs') auto
      ultimately show "?P sh r (b # p) [b]" using bs by simp
    qed blast
    moreover have "varint_from 28 sh r (b # p) = Some (v, q) \<longleftrightarrow> ?P sh r (b # p) [b]"
    proof -
      have val: "(of_nat (varint_value [b]) :: u32) = ucast b" using varint_byte(3) [OF True] by simp
      have "varint_from 28 sh r (b # p) = Some (v, q) \<longleftrightarrow> sh \<le> 28 \<and> r OR push_bit sh (ucast b) = v \<and> p = q"
        using True varint_byte(1) [of b] by (simp add: Let_def)
      then show ?thesis unfolding val using True by auto
    qed
    ultimately show ?thesis by blast
  next
    case False
    have group: "r OR push_bit sh (of_nat (varint_value (b # bs))) =
        (r OR push_bit sh ((ucast b :: u32) AND 127)) OR push_bit (sh + 7) (of_nat (varint_value bs))" for bs
    proof -
      have "(unat b mod 128 + 128 * varint_value bs) mod 128 = unat b mod 128"
        "(unat b mod 128 + 128 * varint_value bs) div 128 = varint_value bs" by simp_all
      then show ?thesis
        using push_groups [of sh "varint_value (b # bs)", where 'a = 32] unfolding varint_byte(2) varint_value.simps
        by (simp only: or.assoc)
    qed
    have "(\<exists>bs. ?P sh r (b # p) bs) \<longleftrightarrow> sh \<le> 28 \<and> (\<exists>bs. ?P (sh + 7) (r OR push_bit sh ((ucast b :: u32) AND 127)) p bs)"
    proof
      assume "\<exists>bs. ?P sh r (b # p) bs"
      then obtain bs where bs: "?P sh r (b # p) bs" by blast
      then obtain bs' where b: "bs = b # bs'" by (cases bs) auto
      have ne: "bs' \<noteq> []" using bs b False by auto
      then have "?P (sh + 7) (r OR push_bit sh ((ucast b :: u32) AND 127)) p bs'"
        using bs group [of bs'] unfolding b by (cases bs') auto
      then show "sh \<le> 28 \<and> (\<exists>bs. ?P (sh + 7) (r OR push_bit sh ((ucast b :: u32) AND 127)) p bs)" by auto
    next
      assume "sh \<le> 28 \<and> (\<exists>bs. ?P (sh + 7) (r OR push_bit sh ((ucast b :: u32) AND 127)) p bs)"
      then obtain bs' where bs: "?P (sh + 7) (r OR push_bit sh ((ucast b :: u32) AND 127)) p bs'" by blast
      then have "?P sh r (b # p) (b # bs')"
        using group [of bs'] False by (cases bs') (auto simp: not_less)
      then show "\<exists>bs. ?P sh r (b # p) bs" by blast
    qed
    then show ?thesis using False varint_byte(1) [of b] Cons.IH [of "sh + 7"] by (simp add: Let_def)
  qed
qed

lemma GetVarint32_bytes: "GetVarint32Ptr p = Some (n, q) \<longleftrightarrow> (\<exists>bs. p = bs @ q \<and> varint_bytes bs (unat n))"
proof -
  have "GetVarint32Ptr p = varint_from 28 0 0 p"
    by (cases p) (auto simp: GetVarint32Ptr_def GetVarint32PtrFallback_def Let_def)
  then have "GetVarint32Ptr p = Some (n, q) \<longleftrightarrow>
      (\<exists>bs. p = bs @ q \<and> bs \<noteq> [] \<and> 0 + 7 * (length bs - 1) \<le> 28 \<and> list_all (\<lambda>b. 128 \<le> b) (butlast bs) \<and>
        last bs < 128 \<and> n = 0 OR push_bit 0 (of_nat (varint_value bs)))"
    by (simp only: varint_from_bytes)
  moreover have "(bs \<noteq> [] \<and> 0 + 7 * (length bs - 1) \<le> 28 \<and> list_all (\<lambda>b. 128 \<le> b) (butlast bs) \<and>
      last bs < 128 \<and> n = 0 OR push_bit 0 (of_nat (varint_value bs))) \<longleftrightarrow> varint_bytes bs (unat n)" for bs
  proof -
    have "n = of_nat k \<longleftrightarrow> unat n = k mod 2 ^ 32" for k
      by (auto simp: unat_of_nat word_unat_eq_iff)
    moreover have "0 + 7 * (length bs - 1) \<le> 28 \<longleftrightarrow> length bs \<le> 5" by auto
    ultimately show ?thesis unfolding varint_bytes_def by simp
  qed
  ultimately show ?thesis by simp
qed

lemma GetLengthPrefixedSlice_bytes:
  "GetLengthPrefixedSlice p = (Some k, q) \<longleftrightarrow> (\<exists>bs. p = bs @ q \<and> string_bytes bs k)"
proof
  assume g: "GetLengthPrefixedSlice p = (Some k, q)"
  then obtain n q' where n: "GetVarint32Ptr p = Some (n, q')" "unat n \<le> length q'" "k = take (unat n) q'" "q = drop (unat n) q'"
    by (auto simp: GetLengthPrefixedSlice_def GetVarint32_def remove_prefix_def split: option.splits if_splits)
  then obtain vs where "p = vs @ q'" "varint_bytes vs (unat n)" using GetVarint32_bytes by blast
  then show "\<exists>bs. p = bs @ q \<and> string_bytes bs k"
    using n by (intro exI [of _ "vs @ k"]) (auto simp: string_bytes_def)
next
  assume "\<exists>bs. p = bs @ q \<and> string_bytes bs k"
  then obtain vs where vs: "p = vs @ k @ q" "varint_bytes vs (length k)" by (auto simp: string_bytes_def)
  have "length k < 2 ^ 32" using vs(2) by (auto simp: varint_bytes_def)
  then have u: "unat (of_nat (length k) :: u32) = length k" by (simp add: unat_of_nat_small)
  then have "GetVarint32Ptr p = Some (of_nat (length k), k @ q)"
    using vs by (subst GetVarint32_bytes) auto
  then show "GetLengthPrefixedSlice p = (Some k, q)"
    using u by (simp add: GetLengthPrefixedSlice_def GetVarint32_def remove_prefix_def)
qed

lemma iterate_record:
  assumes "record_bytes r op"
  shows "iterate_loop h (r @ t) n s = iterate_loop h t (n + 1) (op_apply h op s)"
proof (cases op)
  case (Op_Put k v)
  then obtain ks vs where r: "r = 0x01 # ks @ vs" "string_bytes ks k" "string_bytes vs v"
    using assms by auto
  then have "GetLengthPrefixedSlice (ks @ vs @ t) = (Some k, vs @ t)" "GetLengthPrefixedSlice (vs @ t) = (Some v, t)"
    using GetLengthPrefixedSlice_bytes by blast+
  then show ?thesis using Op_Put r(1) by (subst iterate_loop.simps) (simp add: ValueType_chars Let_def)
next
  case (Op_Delete k)
  then obtain ks where r: "r = 0x00 # ks" "string_bytes ks k" using assms by auto
  then have "GetLengthPrefixedSlice (ks @ t) = (Some k, t)"
    using GetLengthPrefixedSlice_bytes by blast
  then show ?thesis using Op_Delete r(1) by (subst iterate_loop.simps) (simp add: ValueType_chars Let_def)
qed

lemma iterate_records:
  "list_all2 record_bytes recs ops \<Longrightarrow>
     iterate_loop h (concat recs @ t) n s = iterate_loop h t (n + of_nat (length ops)) (fold (op_apply h) ops s)"
  by (induction recs ops arbitrary: n s rule: list_all2_induct) (simp_all add: iterate_record add.assoc)

lemma iterate_stuck:
  assumes "\<nexists>r op rest'. rest = r @ rest' \<and> record_bytes r op" "rest \<noteq> []"
  shows "\<exists>n'. iterate_loop h rest n s = (contents_status count ops rest, n', s) \<and> \<not> Status_ok (contents_status count ops rest)"
proof -
  obtain tag p where rest: "rest = tag # p" using assms(2) by (cases rest) auto
  have put: "GetLengthPrefixedSlice q \<noteq> (Some v, t)" if tg: "tag = 0x01" and gp: "GetLengthPrefixedSlice p = (Some k, q)" for k q v t
  proof
    assume "GetLengthPrefixedSlice q = (Some v, t)"
    then obtain ks vs where "p = ks @ q" "string_bytes ks k" "q = vs @ t" "string_bytes vs v"
      using gp GetLengthPrefixedSlice_bytes by metis
    then have "rest = (0x01 # ks @ vs) @ t \<and> record_bytes (0x01 # ks @ vs) (Op_Put k v)"
      using rest tg by auto
    then show False using assms(1) by blast
  qed
  have del: "GetLengthPrefixedSlice p \<noteq> (Some k, t)" if tg: "tag = 0x00" for k t
  proof
    assume "GetLengthPrefixedSlice p = (Some k, t)"
    then obtain ks where "p = ks @ t" "string_bytes ks k" using GetLengthPrefixedSlice_bytes by metis
    then have "rest = (0x00 # ks) @ t \<and> record_bytes (0x00 # ks) (Op_Delete k)" using rest tg by auto
    then show False using assms(1) by blast
  qed
  consider "tag = 0x01" "fst (GetLengthPrefixedSlice p) = None"
    | q k where "tag = 0x01" "GetLengthPrefixedSlice p = (Some k, q)" "fst (GetLengthPrefixedSlice q) = None"
    | "tag = 0x00" "fst (GetLengthPrefixedSlice p) = None" | "tag \<noteq> 0x01" "tag \<noteq> 0x00"
    using put del by (metis option.exhaust prod.collapse)
  then show ?thesis
    unfolding rest
    by cases (subst iterate_loop.simps;
      auto simp: ValueType_chars Let_def contents_status_def Status_kinds split: prod.splits option.splits)+
qed

lemma contents_exist: "\<exists>ops rest. contents_of bs ops rest"
proof (induction "length bs" arbitrary: bs rule: less_induct)
  case less
  show ?case
  proof (cases "\<exists>r op rest'. bs = r @ rest' \<and> record_bytes r op")
    case False
    then have "contents_of bs [] bs" by (auto simp: contents_of_def)
    then show ?thesis by blast
  next
    case True
    then obtain r op bs' where r: "bs = r @ bs'" "record_bytes r op" by blast
    then have "r \<noteq> []" by (cases op) auto
    then obtain ops rest where "contents_of bs' ops rest" using less [of bs'] r(1) by auto
    then obtain recs where "bs' = concat recs @ rest" "list_all2 record_bytes recs ops"
        "\<nexists>r op rest'. rest = r @ rest' \<and> record_bytes r op"
      unfolding contents_of_def by blast
    then have "contents_of bs (op # ops) rest"
      using r unfolding contents_of_def by (intro conjI exI [of _ "r # recs"]) auto
    then show ?thesis by blast
  qed
qed

section \<open>Properties of batches\<close>

text \<open>
  (C35) A batch made by the public operations, in any order and nesting, replays exactly
  the updates it was asked for, in that order, to any handler, and reports success; its
  count is their number and its sequence number the last one set.
\<close>

theorem WriteBatch_replays:
  assumes "batch_reaches b seq ops" "length ops < 2 ^ 31"
  shows "Iterate h b s = (OK, fold (op_apply h) ops s) \<and> Sequence b = seq \<and> unat (Count b) = length ops"
  using batch_reaches_of [OF assms(1)] Iterate_batch [of ops h seq s] assms(2)
  by (simp add: unat_of_nat_small)

text \<open>
  (C36) On an arbitrary string: what follows the header is, in one way only as far as
  \<open>Iterate\<close> is concerned, a list of records and a rest that does not start with a record.
  \<open>Iterate\<close> applies exactly the updates of these records, in their order. It reports
  success exactly if there is no rest and the count in the header is the number of records
  (modulo \<open>2 ^ 32\<close>), and otherwise the corruption that the first byte of the rest, a truncated
  put or delete or an unknown tag, or the wrong count stands for. A string shorter than the
  header is reported as corrupt, without any update.
\<close>

theorem Iterate_sound:
  "(length b < kHeader \<longrightarrow> Iterate h b s = (Corruption (lit ''malformed WriteBatch (too small)''), s)) \<and>
   (\<exists>ops rest. contents_of (drop kHeader b) ops rest) \<and>
   (kHeader \<le> length b \<and> contents_of (drop kHeader b) ops rest \<longrightarrow>
     Iterate h b s = (contents_status (Count b) ops rest, fold (op_apply h) ops s))"
proof (intro conjI impI)
  show "Iterate h b s = (Corruption (lit ''malformed WriteBatch (too small)''), s)" if "length b < kHeader"
    using that by (simp add: Iterate_def)
  show "\<exists>ops rest. contents_of (drop kHeader b) ops rest" by (rule contents_exist)
next
  assume b: "kHeader \<le> length b \<and> contents_of (drop kHeader b) ops rest"
  then obtain recs where recs: "drop kHeader b = concat recs @ rest" "list_all2 record_bytes recs ops"
      "\<nexists>r op rest'. rest = r @ rest' \<and> record_bytes r op"
    by (auto simp: contents_of_def)
  have loop: "iterate_loop h (drop kHeader b) 0 s = iterate_loop h rest (of_nat (length ops)) (fold (op_apply h) ops s)"
    unfolding recs(1) using iterate_records [OF recs(2), of h rest 0 s] by simp
  show "Iterate h b s = (contents_status (Count b) ops rest, fold (op_apply h) ops s)"
  proof (cases "rest = []")
    case True
    then show ?thesis
      using b loop by (auto simp: Iterate_def remove_prefix_def iterate_loop.simps contents_status_def Status_kinds)
  next
    case False
    then show ?thesis
      using b loop iterate_stuck [OF recs(3) False, of h "of_nat (length ops)" "fold (op_apply h) ops s" "Count b" ops]
      by (auto simp: Iterate_def remove_prefix_def)
  qed
qed

section \<open>Instances\<close>

definition log_handler :: "wb_op list handler" where
  "log_handler = \<lparr>hd_Put = (\<lambda>k v ops. ops @ [Op_Put k v]), hd_Delete = (\<lambda>k ops. ops @ [Op_Delete k])\<rparr>"

theorem WriteBatch_replays_witness:
  "Iterate log_handler (SetSequence (WriteBatch_Delete (WriteBatch_Put WriteBatch_Clear [1] [2, 3]) [1]) 7) [] =
     (OK, [Op_Put [1] [2, 3], Op_Delete [1]])"
proof -
  have "batch_reaches (SetSequence (WriteBatch_Delete (WriteBatch_Put WriteBatch_Clear [1] [2, 3]) [1]) 7) 7
      (([] @ [Op_Put [1] [2, 3]]) @ [Op_Delete [1]])"
    by (rule batch_reaches.sequence, rule batch_reaches.delete, rule batch_reaches.put,
        rule batch_reaches.clear) simp_all
  from WriteBatch_replays [OF this, of log_handler "[]"] show ?thesis
    by (simp add: log_handler_def)
qed

text \<open>A put, and then a tag that is not one: the put is applied before the tag is reported.\<close>

theorem Iterate_sound_witness:
  "Iterate log_handler ([0, 0, 0, 0, 0, 0, 0, 0, 1, 0, 0, 0] @ [1, 1, 7, 2, 8, 9, 5, 0]) [] =
     (Corruption (lit ''unknown WriteBatch tag''), [Op_Put [7] [8, 9]])"
proof -
  let ?b = "[0, 0, 0, 0, 0, 0, 0, 0, 1, 0, 0, 0] @ [1, 1, 7, 2, 8, 9, 5, 0] :: WriteBatch"
  have "string_bytes [1, 7] [7]" "string_bytes [2, 8, 9] [8, 9]"
    unfolding string_bytes_def by (rule exI [of _ "[1]"] exI [of _ "[2]"], simp add: varint_bytes_def)+
  then have "record_bytes (0x01 # [1, 7] @ [2, 8, 9]) (Op_Put [7] [8, 9])" unfolding record_bytes.simps by blast
  moreover have "\<not> ([5, 0] = r @ rest' \<and> record_bytes r op)" for r op rest'
    by (cases op) auto
  ultimately have "contents_of (drop kHeader ?b) [Op_Put [7] [8, 9]] [5, 0]"
    unfolding contents_of_def by (intro conjI exI [of _ "[0x01 # [1, 7] @ [2, 8, 9]]"]) (auto simp: kHeader_def)
  with Iterate_sound [of ?b log_handler "[]" "[Op_Put [7] [8, 9]]" "[5, 0]"]
  show ?thesis by (simp add: kHeader_def contents_status_def log_handler_def)
qed

end
