(* ===== verification/Ldb_SkipList.thy ===== *)
theory Ldb_SkipList
  imports Prelude
begin

text \<open>
  \<^verbatim>\<open>db/skiplist.h\<close> and \<^verbatim>\<open>util/random.h\<close>: the ordered set below the memtable. Nodes live in
  an arena and are never freed: a node is an index into the list of all nodes, the head is
  node 0 and \<^verbatim>\<open>nullptr\<close> is \<open>None\<close>. \<open>Insert\<close> is the sequence of its atomic stores, so that
  what a concurrent reader can see between them can be stated.
\<close>

section \<open>Random numbers\<close>

definition make_Random :: "u32 \<Rightarrow> u32" where
  "make_Random s =
     (let seed = s AND 0x7fffffff in if seed = 0 \<or> seed = 2147483647 then 1 else seed)"

definition Random_Next :: "u32 \<Rightarrow> u32" where
  "Random_Next seed =
     (let M = 2147483647; A = 16807 :: u64; product = ucast seed * A;
          seed = ucast (drop_bit 31 product + (product AND ucast M))
      in if seed > M then seed - M else seed)"

section \<open>The list\<close>

record 'k node =
  nd_key :: 'k
  nd_next :: "nat option list"

record 'k skiplist =
  sl_nodes :: "'k node list"
  sl_max_height :: nat
  sl_rnd :: u32

definition kMaxHeight :: nat where
  "kMaxHeight = 12"

definition sl_head :: nat where
  "sl_head = 0"

definition Node_key :: "'k skiplist \<Rightarrow> nat \<Rightarrow> 'k" where
  "Node_key sl x = nd_key (sl_nodes sl ! x)"

definition Node_Next :: "'k skiplist \<Rightarrow> nat \<Rightarrow> nat \<Rightarrow> nat option" where
  "Node_Next sl x n = nd_next (sl_nodes sl ! x) ! n"

definition SetNext :: "nat \<Rightarrow> nat \<Rightarrow> nat option \<Rightarrow> 'k skiplist \<Rightarrow> 'k skiplist" where
  "SetNext x n p sl =
     sl\<lparr>sl_nodes := (sl_nodes sl)[x := (sl_nodes sl ! x)\<lparr>nd_next := (nd_next (sl_nodes sl ! x))[n := p]\<rparr>]\<rparr>"

text \<open>A new node; its links are not initialised (here: null).\<close>

definition NewNode :: "'k \<Rightarrow> nat \<Rightarrow> 'k skiplist \<Rightarrow> 'k skiplist" where
  "NewNode key height sl =
     sl\<lparr>sl_nodes := sl_nodes sl @ [\<lparr>nd_key = key, nd_next = replicate height None\<rparr>]\<rparr>"

text \<open>\<open>any\<close> is the key of the head, which is never looked at.\<close>

definition make_SkipList :: "'k \<Rightarrow> 'k skiplist" where
  "make_SkipList any =
     (let sl = NewNode any kMaxHeight \<lparr>sl_nodes = [], sl_max_height = 1, sl_rnd = make_Random 0xdeadbeef\<rparr>
      in fold (\<lambda>i. SetNext sl_head i None) [0..<kMaxHeight] sl)"

function random_height :: "nat \<Rightarrow> u32 \<Rightarrow> nat \<times> u32" where
  "random_height height rnd =
     (if height < kMaxHeight then
        let rnd = Random_Next rnd
        in if rnd mod 4 = 0 then random_height (height + 1) rnd else (height, rnd)
      else (height, rnd))"
  by pat_completeness auto
termination by (relation "measure (\<lambda>(height, rnd). kMaxHeight - height)") auto

declare random_height.simps [simp del]

definition RandomHeight :: "'k skiplist \<Rightarrow> nat \<times> 'k skiplist" where
  "RandomHeight sl = (case random_height 1 (sl_rnd sl) of (height, rnd) \<Rightarrow> (height, sl\<lparr>sl_rnd := rnd\<rparr>))"

definition KeyIsAfterNode :: "('k \<Rightarrow> 'k \<Rightarrow> int) \<Rightarrow> 'k skiplist \<Rightarrow> 'k \<Rightarrow> nat option \<Rightarrow> bool" where
  "KeyIsAfterNode cmp sl key n = (case n of None \<Rightarrow> False | Some x \<Rightarrow> cmp (Node_key sl x) key < 0)"

section \<open>Searching\<close>

text \<open>
  The loops may run forever on arbitrary links; they return \<open>None\<close> then. The entries of
  \<open>prev\<close> are not initialised before they are filled.
\<close>

partial_function (option) find_greater_loop ::
  "('k \<Rightarrow> 'k \<Rightarrow> int) \<Rightarrow> 'k skiplist \<Rightarrow> 'k \<Rightarrow> nat \<Rightarrow> nat \<Rightarrow> nat option list \<Rightarrow>
   (nat option \<times> nat option list) option" where
  "find_greater_loop cmp sl key x level prev =
     (let next' = Node_Next sl x level in
      if KeyIsAfterNode cmp sl key next' then find_greater_loop cmp sl key (the next') level prev
      else let prev = prev[level := Some x]
           in if level = 0 then Some (next', prev)
              else find_greater_loop cmp sl key x (level - 1) prev)"

definition FindGreaterOrEqual ::
  "('k \<Rightarrow> 'k \<Rightarrow> int) \<Rightarrow> 'k skiplist \<Rightarrow> 'k \<Rightarrow> (nat option \<times> nat option list) option" where
  "FindGreaterOrEqual cmp sl key =
     find_greater_loop cmp sl key sl_head (sl_max_height sl - 1) (replicate kMaxHeight None)"

partial_function (option) find_less_loop ::
  "('k \<Rightarrow> 'k \<Rightarrow> int) \<Rightarrow> 'k skiplist \<Rightarrow> 'k \<Rightarrow> nat \<Rightarrow> nat \<Rightarrow> nat option" where
  "find_less_loop cmp sl key x level =
     (let next' = Node_Next sl x level in
      if next' = None \<or> cmp (Node_key sl (the next')) key \<ge> 0
      then (if level = 0 then Some x else find_less_loop cmp sl key x (level - 1))
      else find_less_loop cmp sl key (the next') level)"

definition FindLessThan :: "('k \<Rightarrow> 'k \<Rightarrow> int) \<Rightarrow> 'k skiplist \<Rightarrow> 'k \<Rightarrow> nat option" where
  "FindLessThan cmp sl key = find_less_loop cmp sl key sl_head (sl_max_height sl - 1)"

partial_function (option) find_last_loop :: "'k skiplist \<Rightarrow> nat \<Rightarrow> nat \<Rightarrow> nat option" where
  "find_last_loop sl x level =
     (let next' = Node_Next sl x level in
      if next' = None then (if level = 0 then Some x else find_last_loop sl x (level - 1))
      else find_last_loop sl (the next') level)"

definition FindLast :: "'k skiplist \<Rightarrow> nat option" where
  "FindLast sl = find_last_loop sl sl_head (sl_max_height sl - 1)"

definition Contains :: "('k \<Rightarrow> 'k \<Rightarrow> int) \<Rightarrow> 'k skiplist \<Rightarrow> 'k \<Rightarrow> bool option" where
  "Contains cmp sl key =
     (case FindGreaterOrEqual cmp sl key of
        None \<Rightarrow> None
      | Some (x, _) \<Rightarrow>
          Some (case x of None \<Rightarrow> False | Some n \<Rightarrow> cmp key (Node_key sl n) = 0))"

section \<open>Insertion\<close>

text \<open>The two stores for one level, and all the stores for a new node \<open>x\<close> of a given height.\<close>

definition link_stores :: "nat option list \<Rightarrow> nat \<Rightarrow> nat \<Rightarrow> ('k skiplist \<Rightarrow> 'k skiplist) list" where
  "link_stores prev x i =
     [\<lambda>sl. SetNext x i (Node_Next sl (the (prev ! i)) i) sl, SetNext (the (prev ! i)) i (Some x)]"

definition Insert_stores ::
  "'k \<Rightarrow> nat \<Rightarrow> nat option list \<Rightarrow> 'k skiplist \<Rightarrow> ('k skiplist \<Rightarrow> 'k skiplist) list" where
  "Insert_stores key height prev sl =
     (let grow = height > sl_max_height sl;
          prev = (if grow then fold (\<lambda>i prev. prev[i := Some sl_head]) [sl_max_height sl..<height] prev else prev);
          x = length (sl_nodes sl)
      in (if grow then [\<lambda>sl. sl\<lparr>sl_max_height := height\<rparr>] else []) @ [NewNode key height] @
         concat (map (link_stores prev x) [0..<height]))"

definition Insert :: "('k \<Rightarrow> 'k \<Rightarrow> int) \<Rightarrow> 'k \<Rightarrow> 'k skiplist \<Rightarrow> 'k skiplist option" where
  "Insert cmp key sl =
     (case FindGreaterOrEqual cmp sl key of
        None \<Rightarrow> None
      | Some (_, prev) \<Rightarrow>
          (case RandomHeight sl of (height, sl) \<Rightarrow>
             Some (fold (\<lambda>store. store) (Insert_stores key height prev sl) sl)))"

section \<open>Iterators\<close>

text \<open>The state of an iterator is its node. Operations other than \<open>Seek\<close> require it to be valid.\<close>

definition Iterator_Valid :: "nat option \<Rightarrow> bool" where
  "Iterator_Valid node \<longleftrightarrow> node \<noteq> None"

definition Iterator_key :: "'k skiplist \<Rightarrow> nat option \<Rightarrow> 'k" where
  "Iterator_key sl node = Node_key sl (the node)"

definition Iterator_Next :: "'k skiplist \<Rightarrow> nat option \<Rightarrow> nat option" where
  "Iterator_Next sl node = Node_Next sl (the node) 0"

definition Iterator_Prev :: "('k \<Rightarrow> 'k \<Rightarrow> int) \<Rightarrow> 'k skiplist \<Rightarrow> nat option \<Rightarrow> nat option option" where
  "Iterator_Prev cmp sl node =
     map_option (\<lambda>n. if n = sl_head then None else Some n) (FindLessThan cmp sl (Node_key sl (the node)))"

definition Iterator_Seek :: "('k \<Rightarrow> 'k \<Rightarrow> int) \<Rightarrow> 'k skiplist \<Rightarrow> 'k \<Rightarrow> nat option option" where
  "Iterator_Seek cmp sl target = map_option fst (FindGreaterOrEqual cmp sl target)"

definition Iterator_SeekToFirst :: "'k skiplist \<Rightarrow> nat option" where
  "Iterator_SeekToFirst sl = Node_Next sl sl_head 0"

definition Iterator_SeekToLast :: "'k skiplist \<Rightarrow> nat option option" where
  "Iterator_SeekToLast sl = map_option (\<lambda>n. if n = sl_head then None else Some n) (FindLast sl)"

section \<open>Readers among the stores of a writer\<close>

text \<open>
  One round of the loop of \<open>FindGreaterOrEqual\<close>: it loads one link. A reader is not yet
  started, at a node and a level, or done with the node that it returns.
\<close>

datatype reader = R_start | R_at nat nat | R_done "nat option"

definition read_round :: "('k \<Rightarrow> 'k \<Rightarrow> int) \<Rightarrow> 'k skiplist \<Rightarrow> 'k \<Rightarrow> nat \<Rightarrow> nat \<Rightarrow> reader" where
  "read_round cmp sl key x level =
     (let next' = Node_Next sl x level in
      if KeyIsAfterNode cmp sl key next' then R_at (the next') level
      else if level = 0 then R_done next' else R_at x (level - 1))"

text \<open>
  The list, the stores that the running insertion still has to do, and the reader. There
  is at most one insertion at a time; it may begin only if no equal key is in the list, as
  the assertion in \<open>Insert\<close> checks.
\<close>

inductive sl_step ::
  "('k \<Rightarrow> 'k \<Rightarrow> int) \<Rightarrow> ('k \<Rightarrow> bool) \<Rightarrow> 'k \<Rightarrow>
   'k skiplist \<times> ('k skiplist \<Rightarrow> 'k skiplist) list \<times> reader \<Rightarrow>
   'k skiplist \<times> ('k skiplist \<Rightarrow> 'k skiplist) list \<times> reader \<Rightarrow> bool"
  for cmp ok target where
  insert: "ok key \<Longrightarrow> FindGreaterOrEqual cmp sl key = Some (x, prev) \<Longrightarrow>
    x = None \<or> cmp key (Node_key sl (the x)) \<noteq> 0 \<Longrightarrow> RandomHeight sl = (height, sl') \<Longrightarrow>
    sl_step cmp ok target (sl, [], r) (sl', Insert_stores key height prev sl', r)"
| store: "sl_step cmp ok target (sl, f # fs, r) (f sl, fs, r)"
| start: "sl_step cmp ok target (sl, fs, R_start) (sl, fs, R_at sl_head (sl_max_height sl - 1))"
| load: "sl_step cmp ok target (sl, fs, R_at x level) (sl, fs, read_round cmp sl target x level)"

inductive_cases sl_stepE: "sl_step cmp ok target s s'"

end
