(* ===== verification/Ldb_SkipList_Spec.thy ===== *)
theory Ldb_SkipList_Spec
  imports Ldb_SkipList
begin

text \<open>
  Correctness of the skip list: its shape invariant, that searches end and find the first
  key that is not smaller, that every single store of an insertion keeps the invariant, and
  that a reader whose loads are interleaved with insertions still finds the right node.
\<close>

section \<open>The order of keys\<close>

text \<open>What the list needs of its comparator, on the keys that are \<open>ok\<close>.\<close>

locale key_order =
  fixes cmp :: "'k \<Rightarrow> 'k \<Rightarrow> int" and ok :: "'k \<Rightarrow> bool"
  assumes cmp_sym: "ok a \<Longrightarrow> ok b \<Longrightarrow> cmp a b < 0 \<longleftrightarrow> cmp b a > 0"
    and cmp_less_trans: "ok a \<Longrightarrow> ok b \<Longrightarrow> ok d \<Longrightarrow> cmp a b < 0 \<Longrightarrow> cmp b d \<le> 0 \<Longrightarrow> cmp a d < 0"
    and cmp_trans_less: "ok a \<Longrightarrow> ok b \<Longrightarrow> ok d \<Longrightarrow> cmp a b \<le> 0 \<Longrightarrow> cmp b d < 0 \<Longrightarrow> cmp a d < 0"

section \<open>The shape of the list\<close>

fun path :: "'k skiplist \<Rightarrow> nat \<Rightarrow> nat \<Rightarrow> nat list \<Rightarrow> bool" where
  "path sl i x [] \<longleftrightarrow> Node_Next sl x i = None"
| "path sl i x (y # ys) \<longleftrightarrow> Node_Next sl x i = Some y \<and> path sl i y ys"

text \<open>
  \<open>L i\<close> are the nodes linked at level \<open>i\<close>: in strictly ascending order, each also linked
  below, all of them allocated with enough links, and none above \<open>max_height_\<close>.
\<close>

definition shape :: "('k \<Rightarrow> 'k \<Rightarrow> int) \<Rightarrow> ('k \<Rightarrow> bool) \<Rightarrow> 'k skiplist \<Rightarrow> (nat \<Rightarrow> nat list) \<Rightarrow> bool" where
  "shape cmp ok sl L \<longleftrightarrow>
     1 \<le> sl_max_height sl \<and> sl_max_height sl \<le> kMaxHeight \<and>
     sl_nodes sl \<noteq> [] \<and> length (nd_next (sl_nodes sl ! sl_head)) = kMaxHeight \<and>
     (\<forall>i < kMaxHeight. path sl i sl_head (L i) \<and>
        sorted_wrt (\<lambda>x y. cmp (Node_key sl x) (Node_key sl y) < 0) (L i) \<and>
        (\<forall>x \<in> set (L i). x \<noteq> sl_head \<and> x < length (sl_nodes sl) \<and> i < length (nd_next (sl_nodes sl ! x)) \<and>
           ok (Node_key sl x))) \<and>
     (\<forall>i j. i \<le> j \<longrightarrow> j < kMaxHeight \<longrightarrow> set (L j) \<subseteq> set (L i)) \<and>
     (\<forall>i. sl_max_height sl \<le> i \<longrightarrow> i < kMaxHeight \<longrightarrow> L i = [])"

lemma path_append: "path sl i x (ys @ zs) \<longleftrightarrow>
    (\<forall>k < length ys. Node_Next sl ((x # ys) ! k) i = Some (ys ! k)) \<and> path sl i (last (x # ys)) zs"
proof (induction ys arbitrary: x)
  case (Cons y ys)
  have "(\<forall>k < Suc (length ys). P k) \<longleftrightarrow> P 0 \<and> (\<forall>k < length ys. P (Suc k))" for P
    by (auto simp: less_Suc_eq_0_disj)
  with Cons show ?case by auto
qed simp

lemma path_suffix: "path sl i x (ys @ zs) \<Longrightarrow> path sl i (last (x # ys)) zs"
  by (simp add: path_append)

lemma path_from:
  assumes "path sl i h ys" "x \<in> set ys"
  obtains pre post where "ys = pre @ x # post" "path sl i x post"
proof -
  obtain pre post where "ys = pre @ x # post" using assms(2) by (meson split_list)
  moreover from this have "path sl i x post"
    using path_suffix [of sl i h "pre @ [x]" post] assms(1) by simp
  ultimately show ?thesis by (rule that)
qed

definition first :: "nat list \<Rightarrow> nat option" where
  "first xs = (case xs of [] \<Rightarrow> None | x # _ \<Rightarrow> Some x)"

lemma first_simps [simp]: "first [] = None" "first (x # xs) = Some x"
  by (simp_all add: first_def)

lemma path_Next: "path sl i x ys \<Longrightarrow> Node_Next sl x i = first ys"
  by (cases ys) simp_all

section \<open>Searches\<close>

text \<open>Walking along one level.\<close>

lemma greater_along:
  "path sl level x ys \<Longrightarrow>
    find_greater_loop cmp sl key x level prev =
      (let x' = last (x # takeWhile (\<lambda>n. cmp (Node_key sl n) key < 0) ys);
           prev' = prev[level := Some x']
       in if level = 0 then Some (first (dropWhile (\<lambda>n. cmp (Node_key sl n) key < 0) ys), prev')
          else find_greater_loop cmp sl key x' (level - 1) prev')"
proof (induction ys arbitrary: x)
  case Nil
  then show ?case
    by (subst find_greater_loop.simps) (simp add: KeyIsAfterNode_def Let_def)
next
  case (Cons y ys)
  show ?case
  proof (cases "cmp (Node_key sl y) key < 0")
    case True
    then have "find_greater_loop cmp sl key x level prev = find_greater_loop cmp sl key y level prev"
      using Cons.prems by (subst find_greater_loop.simps) (simp add: KeyIsAfterNode_def Let_def)
    with Cons True show ?thesis by (simp add: Let_def)
  next
    case False
    then show ?thesis
      using Cons.prems by (subst find_greater_loop.simps) (simp add: KeyIsAfterNode_def Let_def)
  qed
qed

lemma less_along:
  "path sl level x ys \<Longrightarrow>
    find_less_loop cmp sl key x level =
      (let x' = last (x # takeWhile (\<lambda>n. cmp (Node_key sl n) key < 0) ys)
       in if level = 0 then Some x' else find_less_loop cmp sl key x' (level - 1))"
proof (induction ys arbitrary: x)
  case Nil
  then show ?case by (subst find_less_loop.simps) (simp add: Let_def)
next
  case (Cons y ys)
  show ?case
  proof (cases "cmp (Node_key sl y) key < 0")
    case True
    then have "find_less_loop cmp sl key x level = find_less_loop cmp sl key y level"
      using Cons.prems by (subst find_less_loop.simps) (simp add: Let_def)
    with Cons True show ?thesis by (simp add: Let_def)
  next
    case False
    then show ?thesis
      using Cons.prems by (subst find_less_loop.simps) (simp add: Let_def)
  qed
qed

lemma last_along:
  "path sl level x ys \<Longrightarrow>
    find_last_loop sl x level =
      (if level = 0 then Some (last (x # ys)) else find_last_loop sl (last (x # ys)) (level - 1))"
proof (induction ys arbitrary: x)
  case Nil
  then show ?case by (subst find_last_loop.simps) (simp add: Let_def)
next
  case (Cons y ys)
  then have "find_last_loop sl x level = find_last_loop sl y level"
    by (subst find_last_loop.simps) (simp add: Let_def)
  with Cons show ?case by simp
qed

text \<open>The last node at level \<open>i\<close> that is before the key.\<close>

definition before :: "('k \<Rightarrow> 'k \<Rightarrow> int) \<Rightarrow> 'k skiplist \<Rightarrow> 'k \<Rightarrow> nat \<Rightarrow> bool" where
  "before cmp sl key n \<longleftrightarrow> cmp (Node_key sl n) key < 0"

definition last_before :: "('k \<Rightarrow> 'k \<Rightarrow> int) \<Rightarrow> 'k skiplist \<Rightarrow> 'k \<Rightarrow> nat list \<Rightarrow> nat" where
  "last_before cmp sl key ys = last (sl_head # takeWhile (before cmp sl key) ys)"

lemma last_before_in: "last_before cmp sl key ys = sl_head \<or>
    last_before cmp sl key ys \<in> set ys \<and> before cmp sl key (last_before cmp sl key ys)"
proof (cases "takeWhile (before cmp sl key) ys")
  case (Cons a as)
  then have "last_before cmp sl key ys \<in> set (takeWhile (before cmp sl key) ys)"
    by (simp add: last_before_def)
  then show ?thesis by (metis set_takeWhileD)
qed (simp add: last_before_def)

lemma shapeD:
  assumes "shape cmp ok sl L" "i < kMaxHeight"
  shows "path sl i sl_head (L i)" "sorted_wrt (\<lambda>x y. cmp (Node_key sl x) (Node_key sl y) < 0) (L i)"
    and "x \<in> set (L i) \<Longrightarrow>
      x \<noteq> sl_head \<and> x < length (sl_nodes sl) \<and> i < length (nd_next (sl_nodes sl ! x)) \<and> ok (Node_key sl x)"
    and "j \<le> i \<Longrightarrow> set (L i) \<subseteq> set (L j)" "sl_max_height sl \<le> i \<Longrightarrow> L i = []"
  using assms by (auto simp: shape_def)

lemma shape_height:
  "shape cmp ok sl L \<Longrightarrow> 1 \<le> sl_max_height sl \<and> sl_max_height sl \<le> kMaxHeight"
  by (simp add: shape_def)

context key_order
begin

text \<open>Starting from a node that is before the key is starting from the head.\<close>

lemma walk_from:
  assumes sh: "shape cmp ok sl L" and i: "i < kMaxHeight" and key: "ok key"
    and x: "x = sl_head \<or> x \<in> set (L i) \<and> before cmp sl key x"
  obtains ys where "path sl i x ys" "last (x # takeWhile (before cmp sl key) ys) = last_before cmp sl key (L i)"
    "dropWhile (before cmp sl key) ys = dropWhile (before cmp sl key) (L i)" "set ys \<subseteq> set (L i)"
  using x
proof
  assume "x = sl_head"
  then show ?thesis using shapeD(1) [OF sh i] by (intro that [of "L i"]) (simp_all add: last_before_def)
next
  assume x: "x \<in> set (L i) \<and> before cmp sl key x"
  obtain pre post where L: "L i = pre @ x # post" and p: "path sl i x post"
    using path_from [OF shapeD(1) [OF sh i], of x] x by blast
  have pre: "before cmp sl key y" if "y \<in> set pre" for y
  proof -
    have "cmp (Node_key sl y) (Node_key sl x) < 0"
      using shapeD(2) [OF sh i] that by (simp add: L sorted_wrt_append)
    moreover have "ok (Node_key sl y)" "ok (Node_key sl x)"
      using shapeD(3) [OF sh i] that by (simp_all add: L)
    ultimately show ?thesis
      using cmp_less_trans [of "Node_key sl y" "Node_key sl x" key] key x by (simp add: before_def)
  qed
  then have "takeWhile (before cmp sl key) (L i) = pre @ x # takeWhile (before cmp sl key) post"
    "dropWhile (before cmp sl key) (L i) = dropWhile (before cmp sl key) post"
    using x by (auto simp: L)
  then show ?thesis
    using p by (intro that) (auto simp: last_before_def L)
qed

lemma find_greater_from:
  assumes sh: "shape cmp ok sl L" and key: "ok key" and "level < kMaxHeight"
    and "x = sl_head \<or> x \<in> set (L level) \<and> before cmp sl key x"
  shows "\<exists>prev'. find_greater_loop cmp sl key x level prev =
      Some (first (dropWhile (before cmp sl key) (L 0)), prev') \<and>
    length prev' = length prev \<and>
    (\<forall>i \<le> level. i < length prev \<longrightarrow> prev' ! i = Some (last_before cmp sl key (L i))) \<and>
    (\<forall>i > level. prev' ! i = prev ! i)"
  using assms(3,4)
proof (induction level arbitrary: x prev)
  case 0
  obtain ys where "path sl 0 x ys" "last (x # takeWhile (before cmp sl key) ys) = last_before cmp sl key (L 0)"
    "dropWhile (before cmp sl key) ys = dropWhile (before cmp sl key) (L 0)"
    using walk_from [OF sh 0(1) key 0(2)] by blast
  then show ?case
    using greater_along [of sl 0 x ys cmp key prev] by (simp add: Let_def before_def [abs_def])
next
  case (Suc level)
  obtain ys where ys: "path sl (Suc level) x ys"
    "last (x # takeWhile (before cmp sl key) ys) = last_before cmp sl key (L (Suc level))"
    using walk_from [OF sh Suc.prems(1) key Suc.prems(2)] by blast
  let ?x = "last_before cmp sl key (L (Suc level))"
  have "?x = sl_head \<or> ?x \<in> set (L level) \<and> before cmp sl key ?x"
    using last_before_in [of cmp sl key "L (Suc level)"] shapeD(4) [OF sh Suc.prems(1), of level] by auto
  from Suc.IH [OF _ this, of "prev[Suc level := Some ?x]"] Suc.prems(1) obtain prev' where
    "find_greater_loop cmp sl key ?x level (prev[Suc level := Some ?x]) =
      Some (first (dropWhile (before cmp sl key) (L 0)), prev')"
    "length prev' = length prev" "\<forall>i \<le> level. i < length prev \<longrightarrow> prev' ! i = Some (last_before cmp sl key (L i))"
    "\<forall>i > level. prev' ! i = prev[Suc level := Some ?x] ! i"
    by auto
  then show ?case
    using greater_along [OF ys(1), of cmp key prev] ys(2)
    by (auto simp: Let_def before_def [abs_def] le_Suc_eq)
qed

lemma find_less_from:
  assumes sh: "shape cmp ok sl L" and key: "ok key" and "level < kMaxHeight"
    and "x = sl_head \<or> x \<in> set (L level) \<and> before cmp sl key x"
  shows "find_less_loop cmp sl key x level = Some (last_before cmp sl key (L 0))"
  using assms(3,4)
proof (induction level arbitrary: x)
  case 0
  obtain ys where "path sl 0 x ys" "last (x # takeWhile (before cmp sl key) ys) = last_before cmp sl key (L 0)"
    using walk_from [OF sh 0(1) key 0(2)] by blast
  then show ?case
    using less_along [of sl 0 x ys cmp key] by (simp add: Let_def before_def [abs_def])
next
  case (Suc level)
  obtain ys where ys: "path sl (Suc level) x ys"
    "last (x # takeWhile (before cmp sl key) ys) = last_before cmp sl key (L (Suc level))"
    using walk_from [OF sh Suc.prems(1) key Suc.prems(2)] by blast
  have "last_before cmp sl key (L (Suc level)) = sl_head \<or>
      last_before cmp sl key (L (Suc level)) \<in> set (L level) \<and>
      before cmp sl key (last_before cmp sl key (L (Suc level)))"
    using last_before_in [of cmp sl key "L (Suc level)"] shapeD(4) [OF sh Suc.prems(1), of level] by auto
  from Suc.IH [OF _ this] Suc.prems(1) show ?case
    using less_along [OF ys(1), of cmp key] ys(2) by (simp add: Let_def before_def [abs_def])
qed

lemma FindGreaterOrEqual_shape:
  assumes "shape cmp ok sl L" "ok key"
  obtains prev where
    "FindGreaterOrEqual cmp sl key = Some (first (dropWhile (before cmp sl key) (L 0)), prev)"
    "length prev = kMaxHeight"
    "\<And>i. i < sl_max_height sl \<Longrightarrow> prev ! i = Some (last_before cmp sl key (L i))"
    "\<And>i. sl_max_height sl \<le> i \<Longrightarrow> i < kMaxHeight \<Longrightarrow> prev ! i = None"
proof -
  have l: "sl_max_height sl - 1 < kMaxHeight" "1 \<le> sl_max_height sl"
    using shape_height [OF assms(1)] by (auto simp: kMaxHeight_def)
  from find_greater_from [OF assms l(1), of sl_head "replicate kMaxHeight None"]
  obtain prev where p: "FindGreaterOrEqual cmp sl key = Some (first (dropWhile (before cmp sl key) (L 0)), prev)"
    "length prev = kMaxHeight"
    "\<forall>i \<le> sl_max_height sl - 1. i < kMaxHeight \<longrightarrow> prev ! i = Some (last_before cmp sl key (L i))"
    "\<forall>i > sl_max_height sl - 1. prev ! i = replicate kMaxHeight None ! i"
    by (auto simp: FindGreaterOrEqual_def)
  show ?thesis
    by (rule that [OF p(1,2)]) (use p(3,4) l shape_height [OF assms(1)] in auto)
qed

end

section \<open>Stores\<close>

lemma SetNext_other:
  "y \<noteq> x \<or> j \<noteq> i \<Longrightarrow> Node_Next (SetNext x i p sl) y j = Node_Next sl y j"
  by (cases "x < length (sl_nodes sl)") (auto simp: Node_Next_def SetNext_def nth_list_update list_update_beyond)

lemma SetNext_same:
  "x < length (sl_nodes sl) \<Longrightarrow> i < length (nd_next (sl_nodes sl ! x)) \<Longrightarrow> Node_Next (SetNext x i p sl) x i = p"
  by (simp add: Node_Next_def SetNext_def)

lemma SetNext_fields [simp]:
  "Node_key (SetNext x i p sl) y = Node_key sl y" "length (sl_nodes (SetNext x i p sl)) = length (sl_nodes sl)"
  "length (nd_next (sl_nodes (SetNext x i p sl) ! y)) = length (nd_next (sl_nodes sl ! y))"
  "sl_max_height (SetNext x i p sl) = sl_max_height sl" "sl_nodes (SetNext x i p sl) = [] \<longleftrightarrow> sl_nodes sl = []"
  by (cases "x < length (sl_nodes sl)"; auto simp: Node_key_def SetNext_def nth_list_update list_update_beyond)+

lemma path_cong: "(\<And>y. y \<in> set (x # ys) \<Longrightarrow> Node_Next sl' y i = Node_Next sl y i) \<Longrightarrow> path sl' i x ys = path sl i x ys"
  by (induction ys arbitrary: x) auto

lemma shape_cong:
  assumes "shape cmp ok sl L"
    and "sl_max_height sl' = sl_max_height sl" "length (sl_nodes sl) \<le> length (sl_nodes sl')"
    and "\<And>y. y < length (sl_nodes sl) \<Longrightarrow> Node_key sl' y = Node_key sl y \<and>
      length (nd_next (sl_nodes sl' ! y)) = length (nd_next (sl_nodes sl ! y))"
    and "\<And>i y. i < kMaxHeight \<Longrightarrow> y = sl_head \<or> y \<in> set (L i) \<Longrightarrow> Node_Next sl' y i = Node_Next sl y i"
  shows "shape cmp ok sl' L"
proof -
  have head: "sl_head < length (sl_nodes sl)" "sl_nodes sl' \<noteq> []"
    using assms(1,3) by (auto simp: shape_def sl_head_def)
  have "path sl' i sl_head (L i) \<and> sorted_wrt (\<lambda>x y. cmp (Node_key sl' x) (Node_key sl' y) < 0) (L i) \<and>
      (\<forall>x \<in> set (L i). x \<noteq> sl_head \<and> x < length (sl_nodes sl') \<and> i < length (nd_next (sl_nodes sl' ! x)) \<and>
         ok (Node_key sl' x))" if i: "i < kMaxHeight" for i
  proof (intro conjI)
    show "path sl' i sl_head (L i)"
      using shapeD(1) [OF assms(1) i] assms(5) [OF i] path_cong [of sl_head "L i" sl' i sl] by auto
    have in_nodes: "x \<in> set (L i) \<Longrightarrow> x < length (sl_nodes sl)" for x
      using shapeD(3) [OF assms(1) i] by blast
    show "sorted_wrt (\<lambda>x y. cmp (Node_key sl' x) (Node_key sl' y) < 0) (L i)"
      using shapeD(2) [OF assms(1) i] by (rule sorted_wrt_mono_rel [rotated]) (use in_nodes assms(4) in auto)
    show "\<forall>x \<in> set (L i). x \<noteq> sl_head \<and> x < length (sl_nodes sl') \<and> i < length (nd_next (sl_nodes sl' ! x)) \<and>
         ok (Node_key sl' x)"
      using shapeD(3) [OF assms(1) i] assms(3,4) by (auto intro: order.strict_trans2)
  qed
  then show ?thesis
    using assms(1,2) assms(4) [OF head(1)] head(2) unfolding shape_def by auto
qed

lemma shape_SetNext_unlinked:
  assumes "shape cmp ok sl L" "x \<noteq> sl_head" "i < kMaxHeight \<Longrightarrow> x \<notin> set (L i)"
  shows "shape cmp ok (SetNext x i p sl) L"
  by (rule shape_cong [OF assms(1)]) (use assms(2,3) in \<open>auto intro!: SetNext_other\<close>)

lemma NewNode_fields [simp]:
  "y < length (sl_nodes sl) \<Longrightarrow> sl_nodes (NewNode key height sl) ! y = sl_nodes sl ! y"
  "sl_nodes (NewNode key height sl) ! length (sl_nodes sl) = \<lparr>nd_key = key, nd_next = replicate height None\<rparr>"
  "length (sl_nodes (NewNode key height sl)) = Suc (length (sl_nodes sl))"
  "sl_max_height (NewNode key height sl) = sl_max_height sl"
  by (simp_all add: NewNode_def nth_append)

lemma shape_NewNode:
  assumes "shape cmp ok sl L"
  shows "shape cmp ok (NewNode key height sl) L"
proof (rule shape_cong [OF assms])
  fix i y assume "i < kMaxHeight" "y = sl_head \<or> y \<in> set (L i)"
  then have "y < length (sl_nodes sl)"
    using assms shapeD(3) [OF assms] by (auto simp: shape_def sl_head_def)
  then show "Node_Next (NewNode key height sl) y i = Node_Next sl y i"
    by (simp add: Node_Next_def)
qed (auto simp: Node_key_def)

lemma shape_grow:
  "shape cmp ok sl L \<Longrightarrow> sl_max_height sl \<le> h \<Longrightarrow> h \<le> kMaxHeight \<Longrightarrow> shape cmp ok (sl\<lparr>sl_max_height := h\<rparr>) L"
proof -
  have p: "path (sl\<lparr>sl_max_height := h\<rparr>) i x ys = path sl i x ys" for i x ys
    by (rule path_cong) (simp add: Node_Next_def)
  have k: "Node_key (sl\<lparr>sl_max_height := h\<rparr>) x = Node_key sl x" for x
    by (simp add: Node_key_def)
  show "shape cmp ok sl L \<Longrightarrow> sl_max_height sl \<le> h \<Longrightarrow> h \<le> kMaxHeight \<Longrightarrow> ?thesis"
    by (auto simp: shape_def p k)
qed

definition insert_at :: "('k \<Rightarrow> 'k \<Rightarrow> int) \<Rightarrow> 'k skiplist \<Rightarrow> nat \<Rightarrow> nat list \<Rightarrow> nat list" where
  "insert_at cmp sl x ys =
     takeWhile (before cmp sl (Node_key sl x)) ys @ x # dropWhile (before cmp sl (Node_key sl x)) ys"

lemma set_insert_at [simp]: "set (insert_at cmp sl x ys) = insert x (set ys)"
  by (metis insert_at_def set_append list.set(2) takeWhile_dropWhile_id Un_insert_right)

lemma path_insert:
  assumes p: "path sl i h (ys @ zs)" and x: "x \<notin> set (h # ys @ zs)"
    and d: "distinct (h # ys @ zs)"
    and r: "last (h # ys) < length (sl_nodes sl)" "i < length (nd_next (sl_nodes sl ! last (h # ys)))"
    and n: "Node_Next sl x i = Node_Next sl (last (h # ys)) i"
  shows "path (SetNext (last (h # ys)) i (Some x) sl) i h (ys @ x # zs)"
proof -
  let ?l = "last (h # ys)" and ?sl = "SetNext (last (h # ys)) i (Some x) sl"
  have l: "?l \<in> set (h # ys)" by (rule last_in_set) simp
  have "path sl i ?l zs" using path_suffix [OF p] .
  then have zs: "path sl i x zs"
    using n by (cases zs) auto
  have "path ?sl i x zs \<longleftrightarrow> path sl i x zs"
    using l x d by (intro path_cong SetNext_other) auto
  then have tail: "path ?sl i ?l (x # zs)"
    using zs SetNext_same [OF r] by simp
  have "Node_Next ?sl ((h # ys) ! k) i = Some (ys ! k)" if k: "k < length ys" for k
  proof -
    have "distinct (h # ys)" using d by simp
    then have "(h # ys) ! k \<noteq> (h # ys) ! length ys"
      using k by (subst nth_eq_iff_index_eq) simp_all
    moreover have "?l = (h # ys) ! length ys"
      using last_conv_nth [of "h # ys"] by simp
    ultimately have "(h # ys) ! k \<noteq> ?l" by simp
    then show ?thesis using p k by (simp add: path_append SetNext_other)
  qed
  with tail show ?thesis by (simp only: path_append) blast
qed

context key_order
begin

lemma insert_at_sorted:
  assumes s: "sorted_wrt (\<lambda>x y. cmp (Node_key sl x) (Node_key sl y) < 0) ys"
    and okk: "\<And>y. y \<in> set ys \<Longrightarrow> ok (Node_key sl y)" "ok (Node_key sl x)"
    and fresh: "\<And>y. y \<in> set ys \<Longrightarrow> cmp (Node_key sl y) (Node_key sl x) \<noteq> 0"
  shows "sorted_wrt (\<lambda>x y. cmp (Node_key sl x) (Node_key sl y) < 0) (insert_at cmp sl x ys)"
proof -
  let ?B = "before cmp sl (Node_key sl x)"
  let ?R = "\<lambda>x y. cmp (Node_key sl x) (Node_key sl y) < 0"
  have split: "sorted_wrt ?R (takeWhile ?B ys @ dropWhile ?B ys)"
    using s by simp
  have after: "?R x y" if "y \<in> set ys" "\<not> ?B y" for y
    using cmp_sym [OF okk(2) okk(1) [OF that(1)]] fresh [OF that(1)] that(2) by (auto simp: before_def)
  have "?R x y" if y: "y \<in> set (dropWhile ?B ys)" for y
  proof -
    obtain z zs where z: "dropWhile ?B ys = z # zs" using y by (cases "dropWhile ?B ys") auto
    have zy: "z \<in> set ys" "y \<in> set ys" "\<not> ?B z"
      using z y set_dropWhileD [of _ ?B ys] hd_dropWhile [of ?B ys] by auto
    show ?thesis
    proof (cases "y = z")
      case False
      then have "?R z y" using split y z unfolding sorted_wrt_append by simp
      with after [OF zy(1,3)] show ?thesis
        using cmp_less_trans [OF okk(2) okk(1) [OF zy(1)] okk(1) [OF zy(2)]] by simp
    qed (use after zy in simp)
  qed
  moreover have "?R y x" if "y \<in> set (takeWhile ?B ys)" for y
    using that by (auto dest: set_takeWhileD simp: before_def)
  ultimately show ?thesis
    using split unfolding insert_at_def sorted_wrt_append by auto
qed

lemma sorted_distinct:
  assumes "sorted_wrt (\<lambda>x y. cmp (Node_key sl x) (Node_key sl y) < 0) ys" "\<And>y. y \<in> set ys \<Longrightarrow> ok (Node_key sl y)"
  shows "distinct ys"
  using assms
proof (induction ys)
  case (Cons y ys)
  have "\<not> cmp (Node_key sl y) (Node_key sl y) < 0"
    using cmp_sym [of "Node_key sl y" "Node_key sl y"] Cons.prems(2) [of y] by auto
  with Cons show ?case by auto
qed simp

text \<open>Publishing an allocated node at one level, behind the last node before its key.\<close>

lemma shape_link:
  assumes sh: "shape cmp ok sl L" and i: "i < sl_max_height sl"
    and x: "x < length (sl_nodes sl)" "x \<noteq> sl_head" "i < length (nd_next (sl_nodes sl ! x))" "ok (Node_key sl x)"
    and below: "\<And>j. j < i \<Longrightarrow> x \<in> set (L j)" and new: "x \<notin> set (L i)"
    and fresh: "\<And>y. y \<in> set (L i) \<Longrightarrow> cmp (Node_key sl y) (Node_key sl x) \<noteq> 0"
    and next': "Node_Next sl x i = Node_Next sl (last_before cmp sl (Node_key sl x) (L i)) i"
  shows "shape cmp ok (SetNext (last_before cmp sl (Node_key sl x) (L i)) i (Some x) sl)
    (L(i := insert_at cmp sl x (L i)))"
proof -
  let ?B = "before cmp sl (Node_key sl x)" and ?p = "last_before cmp sl (Node_key sl x) (L i)"
  let ?sl = "SetNext ?p i (Some x) sl" and ?L = "L(i := insert_at cmp sl x (L i))"
  have i12: "i < kMaxHeight" using i shape_height [OF sh] by simp
  have okL: "\<And>y. y \<in> set (L i) \<Longrightarrow> ok (Node_key sl y)"
    using shapeD(3) [OF sh i12] by blast
  have dist: "distinct (sl_head # L i)"
    using sorted_distinct [OF shapeD(2) [OF sh i12] okL] shapeD(3) [OF sh i12] by auto
  have p: "?p = sl_head \<or> ?p \<in> set (L i)" using last_before_in [of cmp sl "Node_key sl x" "L i"] by blast
  have pr: "?p < length (sl_nodes sl)" "i < length (nd_next (sl_nodes sl ! ?p))"
    using p shapeD(3) [OF sh i12, of ?p] sh i12 by (auto simp: shape_def sl_head_def)
  have path_i: "path ?sl i sl_head (insert_at cmp sl x (L i))"
    unfolding insert_at_def last_before_def
    by (rule path_insert) (use shapeD(1) [OF sh i12] dist new x(2) pr next' in \<open>simp_all add: last_before_def\<close>)
  have level: "path ?sl j sl_head (?L j) \<and> sorted_wrt (\<lambda>x y. cmp (Node_key ?sl x) (Node_key ?sl y) < 0) (?L j) \<and>
      (\<forall>y \<in> set (?L j). y \<noteq> sl_head \<and> y < length (sl_nodes ?sl) \<and> j < length (nd_next (sl_nodes ?sl ! y)) \<and>
         ok (Node_key ?sl y))" if j: "j < kMaxHeight" for j
  proof (cases "j = i")
    case True
    then show ?thesis
      using path_i insert_at_sorted [OF shapeD(2) [OF sh i12] okL x(4) fresh] x shapeD(3) [OF sh i12] by auto
  next
    case False
    then have "path ?sl j sl_head (L j)"
      using shapeD(1) [OF sh j] path_cong [of sl_head "L j" ?sl j sl] by (auto intro!: SetNext_other)
    then show ?thesis
      using False shapeD(2,3) [OF sh j] by auto
  qed
  have "set (?L k) \<subseteq> set (?L j)" if "j \<le> k" "k < kMaxHeight" for j k
    using shapeD(4) [OF sh that(2,1)] below [of j] that by auto
  moreover have "?L j = []" if "sl_max_height sl \<le> j" "j < kMaxHeight" for j
    using shapeD(5) [OF sh that(2,1)] i that by auto
  moreover have "sl_nodes ?sl \<noteq> []" "length (nd_next (sl_nodes ?sl ! sl_head)) = kMaxHeight"
    using sh by (simp_all add: shape_def)
  ultimately show ?thesis
    using level shape_height [OF sh] unfolding shape_def by auto
qed

end

section \<open>Insertion, store by store\<close>

text \<open>A step of the writer keeps the linked nodes linked and their keys as they are.\<close>

definition grows :: "'k skiplist \<Rightarrow> (nat \<Rightarrow> nat list) \<Rightarrow> 'k skiplist \<Rightarrow> (nat \<Rightarrow> nat list) \<Rightarrow> bool" where
  "grows sl L sl' L' \<longleftrightarrow>
     (\<forall>i < kMaxHeight. set (L i) \<subseteq> set (L' i) \<and> (\<forall>y \<in> set (L i). Node_key sl' y = Node_key sl y))"

text \<open>
  The stores keep the shape one by one; the nodes at level 0 are \<open>A\<close> before some point and
  \<open>F\<close> from then on.
\<close>

fun stores_ok ::
  "('k \<Rightarrow> 'k \<Rightarrow> int) \<Rightarrow> ('k \<Rightarrow> bool) \<Rightarrow> nat list \<Rightarrow> nat list \<Rightarrow> ('k skiplist \<Rightarrow> 'k skiplist) list \<Rightarrow>
   'k skiplist \<Rightarrow> (nat \<Rightarrow> nat list) \<Rightarrow> bool" where
  "stores_ok cmp ok A F [] sl L \<longleftrightarrow> shape cmp ok sl L \<and> L 0 = F"
| "stores_ok cmp ok A F (f # fs) sl L \<longleftrightarrow>
     shape cmp ok sl L \<and> L 0 \<in> {A, F} \<and> (\<exists>L'. grows sl L (f sl) L' \<and> stores_ok cmp ok A F fs (f sl) L')"

lemma stores_ok_shape: "stores_ok cmp ok A F fs sl L \<Longrightarrow> shape cmp ok sl L \<and> L 0 \<in> {A, F}"
  by (cases fs) auto

lemma grows_trans: "grows sl L sl' L' \<Longrightarrow> grows sl' L' sl'' L'' \<Longrightarrow> grows sl L sl'' L''"
  unfolding grows_def by (metis subset_iff)

lemma grows_refl: "grows sl L sl L"
  by (simp add: grows_def)

lemma stores_ok_end:
  "stores_ok cmp ok A F fs sl L \<Longrightarrow>
    \<exists>L'. shape cmp ok (fold (\<lambda>f. f) fs sl) L' \<and> L' 0 = F \<and> grows sl L (fold (\<lambda>f. f) fs sl) L'"
proof (induction fs arbitrary: sl L)
  case (Cons f fs)
  then obtain L' where L': "grows sl L (f sl) L'" "stores_ok cmp ok A F fs (f sl) L'" by auto
  from Cons.IH [OF L'(2)] L'(1) show ?case by (auto intro: grows_trans)
qed (auto intro: grows_refl)

lemma before_cong: "Node_key sl' y = Node_key sl y \<Longrightarrow> before cmp sl' key y = before cmp sl key y"
  by (simp add: before_def)

lemma SetNext_before [simp]:
  "before cmp (SetNext x i p sl) = before cmp sl"
  "last_before cmp (SetNext x i p sl) = last_before cmp sl" "insert_at cmp (SetNext x i p sl) = insert_at cmp sl"
proof -
  show *: "before cmp (SetNext x i p sl) = before cmp sl"
    by (simp add: fun_eq_iff before_def)
  show "last_before cmp (SetNext x i p sl) = last_before cmp sl"
    "insert_at cmp (SetNext x i p sl) = insert_at cmp sl"
    by (simp_all only: fun_eq_iff last_before_def insert_at_def SetNext_fields *) simp_all
qed

context key_order
begin

lemma link_levels:
  assumes "shape cmp ok sl L" "k \<le> height" "height \<le> sl_max_height sl"
    and "x < length (sl_nodes sl)" "x \<noteq> sl_head" "length (nd_next (sl_nodes sl ! x)) = height"
    and "ok (Node_key sl x)" "length prev = kMaxHeight"
    and "\<And>j. j < k \<Longrightarrow> x \<in> set (L j)" "\<And>j. k \<le> j \<Longrightarrow> j < kMaxHeight \<Longrightarrow> x \<notin> set (L j)"
    and "\<And>j. k \<le> j \<Longrightarrow> j < height \<Longrightarrow> prev ! j = Some (last_before cmp sl (Node_key sl x) (L j))"
    and "\<And>y. y \<in> set (L 0) \<Longrightarrow> y \<noteq> x \<Longrightarrow> cmp (Node_key sl y) (Node_key sl x) \<noteq> 0"
    and "if k = 0 then A = L 0 \<and> F = insert_at cmp sl x (L 0) \<and> 0 < height else F = L 0"
  shows "stores_ok cmp ok A F (concat (map (link_stores prev x) [k..<height])) sl L"
  using assms
proof (induction "height - k" arbitrary: k sl L)
  case 0
  then show ?case by (auto split: if_splits)
next
  case (Suc n)
  let ?key = "Node_key sl x"
  let ?p = "last_before cmp sl ?key (L k)"
  let ?sl1 = "SetNext x k (Node_Next sl ?p k) sl"
  let ?sl2 = "SetNext ?p k (Some x) ?sl1"
  let ?L2 = "L(k := insert_at cmp sl x (L k))"
  have k: "k < height" "k < kMaxHeight" "k < sl_max_height sl"
    using Suc.hyps(2) Suc.prems(3) shape_height [OF Suc.prems(1)] by auto
  have pn: "prev ! k = Some ?p" using Suc.prems(11) [of k] k by simp
  have sh1: "shape cmp ok ?sl1 L"
    using Suc.prems(5,10) by (intro shape_SetNext_unlinked [OF Suc.prems(1)]) auto
  have "?p \<noteq> x"
    using last_before_in [of cmp sl ?key "L k"] Suc.prems(5) Suc.prems(10) [of k] k by auto
  then have nx: "Node_Next ?sl1 x k = Node_Next ?sl1 ?p k"
    using SetNext_same [of x sl k] SetNext_other [of ?p x k k "Node_Next sl ?p k" sl] Suc.prems(4,6) k
    by simp
  have "y \<in> set (L k) \<Longrightarrow> cmp (Node_key sl y) ?key \<noteq> 0" for y
    using Suc.prems(10) [of k] Suc.prems(12) [of y] shapeD(4) [OF Suc.prems(1) k(2), of 0] k by auto
  then have sh2: "shape cmp ok ?sl2 ?L2"
    using shape_link [OF sh1, of k x] Suc.prems(4-7) Suc.prems(9) Suc.prems(10) [of k] k nx by simp
  have "stores_ok cmp ok A F (concat (map (link_stores prev x) [Suc k..<height])) ?sl2 ?L2"
  proof (rule Suc.hyps(1))
    show "n = height - Suc k" "Suc k \<le> height" using Suc.hyps(2) k by auto
    show "shape cmp ok ?sl2 ?L2" by (rule sh2)
    show "height \<le> sl_max_height ?sl2" "x < length (sl_nodes ?sl2)" "x \<noteq> sl_head"
      "length (nd_next (sl_nodes ?sl2 ! x)) = height" "ok (Node_key ?sl2 x)" "length prev = kMaxHeight"
      using Suc.prems by simp_all
    show "x \<in> set (?L2 j)" if "j < Suc k" for j
      using that Suc.prems(9) [of j] by auto
    show "x \<notin> set (?L2 j)" if "Suc k \<le> j" "j < kMaxHeight" for j
      using that Suc.prems(10) [of j] by auto
    show "prev ! j = Some (last_before cmp ?sl2 (Node_key ?sl2 x) (?L2 j))" if "Suc k \<le> j" "j < height" for j
      using that Suc.prems(11) [of j] by simp
    show "cmp (Node_key ?sl2 y) (Node_key ?sl2 x) \<noteq> 0" if "y \<in> set (?L2 0)" "y \<noteq> x" for y
      using that Suc.prems(12) [of y] by (auto split: if_splits)
    show "if Suc k = 0 then A = ?L2 0 \<and> F = insert_at cmp ?sl2 x (?L2 0) \<and> 0 < height else F = ?L2 0"
      using Suc.prems(13) by (auto split: if_splits)
  qed
  moreover have "grows sl L ?sl1 L" "grows ?sl1 L ?sl2 ?L2"
    by (auto simp: grows_def)
  moreover have "L 0 \<in> {A, F}" using Suc.prems(13) by (auto split: if_splits)
  moreover have eq: "concat (map (link_stores prev x) [k..<height]) =
      [\<lambda>sl. SetNext x k (Node_Next sl ?p k) sl, SetNext ?p k (Some x)] @
      concat (map (link_stores prev x) [Suc k..<height])"
    using k pn by (simp add: upt_conv_Cons link_stores_def)
  ultimately show ?case
    unfolding eq append.simps stores_ok.simps using Suc.prems(1) sh1 by blast
qed

end

text \<open>The list of keys that a list holds, in order, and the one with a key inserted.\<close>

definition represents :: "('k \<Rightarrow> 'k \<Rightarrow> int) \<Rightarrow> ('k \<Rightarrow> bool) \<Rightarrow> 'k skiplist \<Rightarrow> 'k list \<Rightarrow> bool" where
  "represents cmp ok sl ks \<longleftrightarrow> (\<exists>L. shape cmp ok sl L \<and> map (Node_key sl) (L 0) = ks)"

lemma represents_sorted:
  "represents cmp ok sl ks \<Longrightarrow> sorted_wrt (\<lambda>a b. cmp a b < 0) ks"
  using shapeD(2) [of cmp ok sl _ 0] by (auto simp: represents_def sorted_wrt_map kMaxHeight_def)

definition insert_key :: "('k \<Rightarrow> 'k \<Rightarrow> int) \<Rightarrow> 'k \<Rightarrow> 'k list \<Rightarrow> 'k list" where
  "insert_key cmp key ks = takeWhile (\<lambda>k. cmp k key < 0) ks @ key # dropWhile (\<lambda>k. cmp k key < 0) ks"

lemma before_map:
  "takeWhile (\<lambda>k. cmp k key < 0) (map (Node_key sl) ys) = map (Node_key sl) (takeWhile (before cmp sl key) ys)"
  "dropWhile (\<lambda>k. cmp k key < 0) (map (Node_key sl) ys) = map (Node_key sl) (dropWhile (before cmp sl key) ys)"
  by (simp_all add: takeWhile_map dropWhile_map comp_def before_def [abs_def])

lemma last_before_cong:
  "(\<And>y. y \<in> set ys \<Longrightarrow> Node_key sl' y = Node_key sl y) \<Longrightarrow> last_before cmp sl' key ys = last_before cmp sl key ys"
  unfolding last_before_def by (metis (no_types, lifting) before_cong takeWhile_cong)

lemma insert_at_cong:
  assumes "\<And>y. y \<in> set ys \<Longrightarrow> Node_key sl' y = Node_key sl y" "Node_key sl' x = key"
  shows "insert_at cmp sl' x ys = takeWhile (before cmp sl key) ys @ x # dropWhile (before cmp sl key) ys"
proof -
  have "takeWhile (before cmp sl' key) ys = takeWhile (before cmp sl key) ys"
    "dropWhile (before cmp sl' key) ys = dropWhile (before cmp sl key) ys"
    using assms(1) by (auto intro!: takeWhile_cong dropWhile_cong before_cong)
  then show ?thesis by (simp add: insert_at_def assms(2))
qed

lemma nth_fill: "h \<le> length prev \<Longrightarrow> j < length prev \<Longrightarrow>
    fold (\<lambda>i prev. prev[i := v]) [m..<h] prev ! j = (if m \<le> j \<and> j < h then v else prev ! j) \<and>
    length (fold (\<lambda>i prev. prev[i := v]) [m..<h] prev) = length prev"
  by (induction h) (auto simp: nth_list_update)

lemma random_height_bounds: "random_height h rnd = (h', rnd') \<Longrightarrow> h \<le> kMaxHeight \<Longrightarrow> h \<le> h' \<and> h' \<le> kMaxHeight"
  by (induction h rnd rule: random_height.induct)
    (auto simp: random_height.simps [of h rnd for h rnd] Let_def split: if_splits)

lemma rnd_fields [simp]:
  "Node_key (sl\<lparr>sl_rnd := r\<rparr>) = Node_key sl" "before cmp (sl\<lparr>sl_rnd := r\<rparr>) = before cmp sl"
  "last_before cmp (sl\<lparr>sl_rnd := r\<rparr>) = last_before cmp sl"
proof -
  show k: "Node_key (sl\<lparr>sl_rnd := r\<rparr>) = Node_key sl" by (simp add: fun_eq_iff Node_key_def)
  show b: "before cmp (sl\<lparr>sl_rnd := r\<rparr>) = before cmp sl" by (simp add: fun_eq_iff before_def k)
  show "last_before cmp (sl\<lparr>sl_rnd := r\<rparr>) = last_before cmp sl"
    by (simp only: fun_eq_iff last_before_def b) simp
qed

lemma shape_rnd: "shape cmp ok (sl\<lparr>sl_rnd := r\<rparr>) L = shape cmp ok sl L"
proof -
  have "path (sl\<lparr>sl_rnd := r\<rparr>) i x ys = path sl i x ys" for i x ys
    by (rule path_cong) (simp add: Node_Next_def)
  then show ?thesis by (simp add: shape_def Node_key_def)
qed

context key_order
begin

lemma Insert_stores_ok:
  assumes sh: "shape cmp ok sl L" and key: "ok key"
    and fresh: "\<And>y. y \<in> set (L 0) \<Longrightarrow> cmp (Node_key sl y) key \<noteq> 0"
    and h: "1 \<le> height" "height \<le> kMaxHeight"
    and prev: "length prev = kMaxHeight"
      "\<And>i. i < sl_max_height sl \<Longrightarrow> prev ! i = Some (last_before cmp sl key (L i))"
  shows "stores_ok cmp ok (L 0)
    (takeWhile (before cmp sl key) (L 0) @ length (sl_nodes sl) # dropWhile (before cmp sl key) (L 0))
    (Insert_stores key height prev sl) sl L"
proof -
  define m where "m = max height (sl_max_height sl)"
  define prev' where "prev' = (if height > sl_max_height sl
    then fold (\<lambda>i prev. prev[i := Some sl_head]) [sl_max_height sl..<height] prev else prev)"
  let ?x = "length (sl_nodes sl)"
  let ?sl1 = "sl\<lparr>sl_max_height := m\<rparr>" and ?sl2 = "NewNode key height (sl\<lparr>sl_max_height := m\<rparr>)"
  have m: "sl_max_height sl \<le> m" "m \<le> kMaxHeight" "height \<le> m"
    using h shape_height [OF sh] by (auto simp: m_def)
  have nodes: "y < ?x" if "i < kMaxHeight" "y \<in> set (L i)" for i y
    using shapeD(3) [OF sh that(1)] that(2) by blast
  have keys: "Node_key ?sl2 y = Node_key sl y" if "y < ?x" for y
    using NewNode_fields(1) [of y ?sl1] that by (simp add: Node_key_def)
  have kx: "Node_key ?sl2 ?x = key"
    using NewNode_fields(2) [of key height ?sl1] by (simp add: Node_key_def)
  have sh1: "shape cmp ok ?sl1 L" by (rule shape_grow [OF sh m(1,2)])
  have sh2: "shape cmp ok ?sl2 L" by (rule shape_NewNode [OF sh1])
  have lb: "last_before cmp ?sl2 key (L j) = last_before cmp sl key (L j)" if "j < kMaxHeight" for j
    using nodes [OF that] keys by (intro last_before_cong) auto
  have pr: "prev' ! j = Some (last_before cmp sl key (L j))" if j: "j < height" for j
  proof (cases "j < sl_max_height sl")
    case True
    then show ?thesis
      using prev(2) [of j] nth_fill [of height prev j "Some sl_head" "sl_max_height sl"] h j prev(1)
      by (simp add: prev'_def)
  next
    case False
    then have "L j = []" using shapeD(5) [OF sh, of j] j h by simp
    then show ?thesis
      using False nth_fill [of height prev j "Some sl_head" "sl_max_height sl"] h j prev(1)
      by (simp add: prev'_def last_before_def)
  qed
  have links: "stores_ok cmp ok (L 0)
      (takeWhile (before cmp sl key) (L 0) @ ?x # dropWhile (before cmp sl key) (L 0))
      (concat (map (link_stores prev' ?x) [0..<height])) ?sl2 L"
  proof (rule link_levels [OF sh2])
    show "0 \<le> height" "height \<le> sl_max_height ?sl2" "?x < length (sl_nodes ?sl2)" "?x \<noteq> sl_head"
      using m sh by (auto simp: shape_def sl_head_def)
    show "length (nd_next (sl_nodes ?sl2 ! ?x)) = height"
      using NewNode_fields(2) [of key height ?sl1] by simp
    show "ok (Node_key ?sl2 ?x)" using kx key by simp
    show "length prev' = kMaxHeight"
      using prev(1) nth_fill [of height prev 0 "Some sl_head" "sl_max_height sl"] h
      by (auto simp: prev'_def kMaxHeight_def)
    show "?x \<notin> set (L j)" if "0 \<le> j" "j < kMaxHeight" for j
      using nodes [OF that(2)] by blast
    show "prev' ! j = Some (last_before cmp ?sl2 (Node_key ?sl2 ?x) (L j))" if "0 \<le> j" "j < height" for j
      using pr [OF that(2)] lb [of j] that h kx by simp
    show "cmp (Node_key ?sl2 y) (Node_key ?sl2 ?x) \<noteq> 0" if "y \<in> set (L 0)" "y \<noteq> ?x" for y
      using fresh [OF that(1)] keys [OF nodes [OF _ that(1)]] kx by (simp add: kMaxHeight_def)
    show "if (0 :: nat) = 0 then L 0 = L 0 \<and>
        takeWhile (before cmp sl key) (L 0) @ ?x # dropWhile (before cmp sl key) (L 0) =
        insert_at cmp ?sl2 ?x (L 0) \<and> 0 < height
      else takeWhile (before cmp sl key) (L 0) @ ?x # dropWhile (before cmp sl key) (L 0) = L 0"
      using h insert_at_cong [of "L 0" ?sl2 sl ?x key cmp] keys nodes [of 0] kx by (auto simp: kMaxHeight_def)
  qed simp
  have g: "grows sl L ?sl1 L" "grows ?sl1 L ?sl2 L"
    using keys nodes by (auto simp: grows_def Node_key_def)
  show ?thesis
  proof (cases "height > sl_max_height sl")
    case True
    then have "Insert_stores key height prev sl = [\<lambda>sl. sl\<lparr>sl_max_height := m\<rparr>, NewNode key height] @
        concat (map (link_stores prev' ?x) [0..<height])"
      by (simp add: Insert_stores_def Let_def prev'_def m_def)
    then show ?thesis
      using sh sh1 g links by (simp only: append.simps stores_ok.simps) blast
  next
    case False
    then have e: "Insert_stores key height prev sl = [NewNode key height] @
        concat (map (link_stores prev' ?x) [0..<height])" "?sl1 = sl"
      by (simp_all add: Insert_stores_def Let_def prev'_def m_def)
    then show ?thesis
      using sh g(2) links unfolding e by (simp only: append.simps stores_ok.simps) blast
  qed
qed

end

lemma fold_same: "(\<And>i. i \<in> set xs \<Longrightarrow> f i s = s) \<Longrightarrow> fold f xs s = s"
  by (induction xs) auto

lemma make_SkipList_eq:
  "make_SkipList any = \<lparr>sl_nodes = [\<lparr>nd_key = any, nd_next = replicate kMaxHeight None\<rparr>], sl_max_height = 1,
     sl_rnd = make_Random 0xdeadbeef\<rparr>"
proof -
  let ?n = "\<lparr>nd_key = any, nd_next = replicate kMaxHeight None\<rparr>"
  have id: "(replicate kMaxHeight None)[i := None] = (replicate kMaxHeight None :: nat option list)" if "i < kMaxHeight" for i
    using that by (metis list_update_id nth_replicate)
  have s: "SetNext sl_head i None \<lparr>sl_nodes = [?n], sl_max_height = 1, sl_rnd = r\<rparr> =
      \<lparr>sl_nodes = [?n], sl_max_height = 1, sl_rnd = r\<rparr>" if "i < kMaxHeight" for i r
    using id [OF that] by (simp add: SetNext_def sl_head_def)
  have "fold (\<lambda>i. SetNext sl_head i None) [0..<kMaxHeight] \<lparr>sl_nodes = [?n], sl_max_height = 1, sl_rnd = r\<rparr> =
      \<lparr>sl_nodes = [?n], sl_max_height = 1, sl_rnd = r\<rparr>" for r
    by (rule fold_same) (simp add: s del: One_nat_def)
  then show ?thesis
    by (simp add: make_SkipList_def NewNode_def del: One_nat_def)
qed

lemma shape_empty: "shape cmp ok (make_SkipList any) (\<lambda>_. [])"
  by (auto simp: make_SkipList_eq shape_def sl_head_def Node_Next_def kMaxHeight_def)

lemma link_key: "Node_key (fold (\<lambda>f. f) (concat (map (link_stores prev x) is')) sl) y = Node_key sl y"
  by (induction is' arbitrary: sl) (simp_all add: link_stores_def)

lemma Insert_stores_key:
  "Node_key (fold (\<lambda>f. f) (Insert_stores key h prev sl) sl) (length (sl_nodes sl)) = key"
  by (simp add: Insert_stores_def Let_def link_key) (simp add: Node_key_def NewNode_def)

context key_order
begin

lemma Insert_stores_from:
  assumes sh: "shape cmp ok sl L" "ok key" "\<And>y. y \<in> set (L 0) \<Longrightarrow> cmp (Node_key sl y) key \<noteq> 0"
    and f: "FindGreaterOrEqual cmp sl key = Some (x, prev)" and hr: "random_height 1 (sl_rnd sl) = (h, r)"
  shows "stores_ok cmp ok (L 0)
    (takeWhile (before cmp sl key) (L 0) @ length (sl_nodes sl) # dropWhile (before cmp sl key) (L 0))
    (Insert_stores key h prev (sl\<lparr>sl_rnd := r\<rparr>)) (sl\<lparr>sl_rnd := r\<rparr>) L"
proof -
  obtain prev' where p: "FindGreaterOrEqual cmp sl key = Some (first (dropWhile (before cmp sl key) (L 0)), prev')"
    "length prev' = kMaxHeight" "\<And>i. i < sl_max_height sl \<Longrightarrow> prev' ! i = Some (last_before cmp sl key (L i))"
    by (rule FindGreaterOrEqual_shape [OF sh(1,2)]) blast
  have "1 \<le> h" "h \<le> kMaxHeight"
    using random_height_bounds [OF hr] by (simp_all add: kMaxHeight_def)
  moreover have "prev' = prev" using p(1) f by simp
  ultimately show ?thesis
    using Insert_stores_ok [of "sl\<lparr>sl_rnd := r\<rparr>" L key h prev] sh p(2,3) by (simp add: shape_rnd)
qed

lemma Insert_represents:
  assumes "represents cmp ok sl ks" "ok key" "\<And>k. k \<in> set ks \<Longrightarrow> cmp k key \<noteq> 0"
  shows "\<exists>sl'. Insert cmp key sl = Some sl' \<and> represents cmp ok sl' (insert_key cmp key ks)"
proof -
  obtain L where sh: "shape cmp ok sl L" and ks: "map (Node_key sl) (L 0) = ks"
    using assms(1) by (auto simp: represents_def)
  obtain x prev where f: "FindGreaterOrEqual cmp sl key = Some (x, prev)"
    using FindGreaterOrEqual_shape [OF sh assms(2)] by metis
  obtain h r where hr: "random_height 1 (sl_rnd sl) = (h, r)" by force
  let ?sl = "sl\<lparr>sl_rnd := r\<rparr>" and ?x = "length (sl_nodes sl)"
  have "stores_ok cmp ok (L 0) (takeWhile (before cmp sl key) (L 0) @ ?x # dropWhile (before cmp sl key) (L 0))
      (Insert_stores key h prev ?sl) ?sl L"
    using assms(3) ks by (intro Insert_stores_from [OF sh assms(2) _ f hr]) auto
  from stores_ok_end [OF this] obtain L' where L':
    "shape cmp ok (fold (\<lambda>f. f) (Insert_stores key h prev ?sl) ?sl) L'"
    "L' 0 = takeWhile (before cmp sl key) (L 0) @ ?x # dropWhile (before cmp sl key) (L 0)"
    "grows ?sl L (fold (\<lambda>f. f) (Insert_stores key h prev ?sl) ?sl) L'"
    by blast
  define sl' where "sl' = fold (\<lambda>f. f) (Insert_stores key h prev ?sl) ?sl"
  have kx: "Node_key sl' ?x = key"
    using Insert_stores_key [of key h prev ?sl] by (simp add: sl'_def)
  have "map (Node_key sl') (L' 0) = insert_key cmp key ks"
  proof -
    have "Node_key sl' y = Node_key sl y" if "y \<in> set (L 0)" for y
      using L'(3) [unfolded grows_def, rule_format, of 0] that by (auto simp: sl'_def kMaxHeight_def)
    then have "map (Node_key sl') (takeWhile (before cmp sl key) (L 0)) = map (Node_key sl) (takeWhile (before cmp sl key) (L 0))"
      "map (Node_key sl') (dropWhile (before cmp sl key) (L 0)) = map (Node_key sl) (dropWhile (before cmp sl key) (L 0))"
      by (auto dest: set_takeWhileD set_dropWhileD)
    then show ?thesis
      by (simp add: L'(2) kx insert_key_def before_map flip: ks)
  qed
  then have "represents cmp ok sl' (insert_key cmp key ks)"
    using L'(1) by (auto simp: represents_def sl'_def)
  then show ?thesis
    by (simp add: Insert_def f(1) RandomHeight_def hr sl'_def del: One_nat_def)
qed

end

section \<open>Iterators and interleaved readers\<close>

text \<open>The position of an iterator: the first \<open>n\<close> keys are before it.\<close>

definition at_position :: "('k \<Rightarrow> 'k \<Rightarrow> int) \<Rightarrow> ('k \<Rightarrow> bool) \<Rightarrow> 'k skiplist \<Rightarrow> 'k list \<Rightarrow> nat option \<Rightarrow> nat \<Rightarrow> bool" where
  "at_position cmp ok sl ks node n \<longleftrightarrow>
     (\<exists>L. shape cmp ok sl L \<and> map (Node_key sl) (L 0) = ks \<and> n \<le> length ks \<and>
        node = (if n < length ks then Some (L 0 ! n) else None))"

lemma first_drop: "first (drop n ys) = (if n < length ys then Some (ys ! n) else None)"
  by (auto simp: first_def Cons_nth_drop_Suc [symmetric])

lemma first_dropWhile: "first (dropWhile P ys) = first (drop (length (takeWhile P ys)) ys)"
  by (simp add: dropWhile_eq_drop)

lemma at_position_key:
  "at_position cmp ok sl ks node n \<Longrightarrow> Iterator_Valid node \<longleftrightarrow> n < length ks"
  "at_position cmp ok sl ks node n \<Longrightarrow> n < length ks \<Longrightarrow> Iterator_key sl node = ks ! n"
  by (auto simp: at_position_def Iterator_Valid_def Iterator_key_def split: if_splits)

lemma Next_at_position:
  assumes "at_position cmp ok sl ks node n" "n < length ks"
  shows "at_position cmp ok sl ks (Iterator_Next sl node) (Suc n)"
proof -
  obtain L where L: "shape cmp ok sl L" "map (Node_key sl) (L 0) = ks" "node = Some (L 0 ! n)"
    using assms by (auto simp: at_position_def)
  then have n: "n < length (L 0)" using assms(2) by auto
  have "path sl 0 (L 0 ! n) (drop (Suc n) (L 0))"
    using path_suffix [of sl 0 sl_head "take n (L 0) @ [L 0 ! n]" "drop (Suc n) (L 0)"]
      shapeD(1) [OF L(1), of 0] id_take_nth_drop [OF n] by (simp add: kMaxHeight_def)
  then have "Iterator_Next sl node = first (drop (Suc n) (L 0))"
    by (simp add: Iterator_Next_def L(3) path_Next)
  then show ?thesis using L assms(2) by (auto simp: at_position_def first_drop)
qed

lemma SeekToFirst_at_position:
  assumes "represents cmp ok sl ks"
  shows "at_position cmp ok sl ks (Iterator_SeekToFirst sl) 0"
proof -
  obtain L where L: "shape cmp ok sl L" "map (Node_key sl) (L 0) = ks"
    using assms by (auto simp: represents_def)
  have "Iterator_SeekToFirst sl = first (drop 0 (L 0))"
    using path_Next [OF shapeD(1) [OF L(1), of 0]] by (simp add: Iterator_SeekToFirst_def kMaxHeight_def)
  then show ?thesis
    using L unfolding at_position_def first_drop by auto
qed

context key_order
begin

lemma Seek_at_position:
  assumes "represents cmp ok sl ks" "ok target"
  shows "\<exists>node. Iterator_Seek cmp sl target = Some node \<and>
    at_position cmp ok sl ks node (length (takeWhile (\<lambda>k. cmp k target < 0) ks))"
proof -
  obtain L where L: "shape cmp ok sl L" "map (Node_key sl) (L 0) = ks"
    using assms(1) by (auto simp: represents_def)
  have len: "length (takeWhile (\<lambda>k. cmp k target < 0) ks) = length (takeWhile (before cmp sl target) (L 0))"
    using before_map(1) [of cmp target sl "L 0"] by (simp add: L(2))
  have "length (takeWhile (before cmp sl target) (L 0)) \<le> length ks"
    using L(2) length_takeWhile_le [of _ "L 0"] by auto
  moreover obtain prev where
    "FindGreaterOrEqual cmp sl target = Some (first (dropWhile (before cmp sl target) (L 0)), prev)"
    by (rule FindGreaterOrEqual_shape [OF L(1) assms(2)]) blast
  ultimately show ?thesis
    using L len by (auto simp: Iterator_Seek_def at_position_def first_dropWhile first_drop)
qed

lemma takeWhile_nth:
  assumes "shape cmp ok sl L" "n < length (L 0)"
  shows "takeWhile (before cmp sl (Node_key sl (L 0 ! n))) (L 0) = take n (L 0)"
proof (rule takeWhile_eq_take_P_nth)
  have s: "sorted_wrt (\<lambda>x y. cmp (Node_key sl x) (Node_key sl y) < 0) (L 0)" and
    o: "\<And>y. y \<in> set (L 0) \<Longrightarrow> ok (Node_key sl y)"
    using shapeD(2,3) [OF assms(1), of 0] by (auto simp: kMaxHeight_def)
  fix i assume i: "i < n" "i < length (L 0)"
  then show "before cmp sl (Node_key sl (L 0 ! n)) (L 0 ! i)"
    using s assms(2) by (auto simp: sorted_wrt_iff_nth_less before_def)
next
  assume "n < length (L 0)"
  have "ok (Node_key sl (L 0 ! n))"
    using shapeD(3) [OF assms(1), of 0 "L 0 ! n"] assms(2) by (simp add: kMaxHeight_def)
  then show "\<not> before cmp sl (Node_key sl (L 0 ! n)) (L 0 ! n)"
    using cmp_sym [of "Node_key sl (L 0 ! n)" "Node_key sl (L 0 ! n)"] by (auto simp: before_def)
qed

lemma Prev_at_position:
  assumes "at_position cmp ok sl ks node n" "n < length ks"
  shows "\<exists>node'. Iterator_Prev cmp sl node = Some node' \<and>
    (if n = 0 then node' = None else at_position cmp ok sl ks node' (n - 1))"
proof -
  obtain L where L: "shape cmp ok sl L" "map (Node_key sl) (L 0) = ks" "node = Some (L 0 ! n)"
    using assms by (auto simp: at_position_def)
  then have n: "n < length (L 0)" using assms(2) by auto
  have ok: "ok (Node_key sl (L 0 ! n))"
    using shapeD(3) [OF L(1), of 0 "L 0 ! n"] n by (simp add: kMaxHeight_def)
  have l: "sl_max_height sl - 1 < kMaxHeight"
    using shape_height [OF L(1)] by (auto simp: kMaxHeight_def)
  have f: "FindLessThan cmp sl (Node_key sl (L 0 ! n)) = Some (last (sl_head # take n (L 0)))"
    using find_less_from [OF L(1) ok l, of sl_head] takeWhile_nth [OF L(1) n]
    by (simp add: FindLessThan_def last_before_def)
  show ?thesis
  proof (cases n)
    case 0
    then show ?thesis using f L(3) by (simp add: Iterator_Prev_def)
  next
    case (Suc k)
    then have "last (sl_head # take n (L 0)) = L 0 ! k" "L 0 ! k \<noteq> sl_head"
      using n shapeD(3) [OF L(1), of 0 "L 0 ! k"] by (auto simp: take_Suc_conv_app_nth kMaxHeight_def)
    then show ?thesis
      using f L Suc assms(2) by (auto simp: Iterator_Prev_def at_position_def)
  qed
qed

lemma find_last_from:
  assumes sh: "shape cmp ok sl L" and "level < kMaxHeight" "x = sl_head \<or> x \<in> set (L level)"
  shows "find_last_loop sl x level = Some (last (sl_head # L 0))"
  using assms(2,3)
proof (induction level arbitrary: x)
  case (Suc level)
  obtain ys where "path sl (Suc level) x ys" "last (x # ys) = last (sl_head # L (Suc level))"
    using Suc.prems shapeD(1) [OF sh Suc.prems(1)] path_from [OF shapeD(1) [OF sh Suc.prems(1)], of x]
    by (metis last_ConsR last_appendR list.distinct(1) Nil_is_append_conv)
  moreover have "last (sl_head # L (Suc level)) = sl_head \<or> last (sl_head # L (Suc level)) \<in> set (L level)"
    using shapeD(4) [OF sh Suc.prems(1), of level] by (cases "L (Suc level)") (auto dest: last_in_set)
  ultimately show ?case
    using last_along [of sl "Suc level" x ys] Suc.IH [of "last (x # ys)"] Suc.prems(1) by simp
next
  case 0
  obtain ys where "path sl 0 x ys" "last (x # ys) = last (sl_head # L 0)"
    using 0 shapeD(1) [OF sh 0(1)] path_from [OF shapeD(1) [OF sh 0(1)], of x]
    by (metis last_ConsR last_appendR list.distinct(1) Nil_is_append_conv)
  then show ?case using last_along [of sl 0 x ys] by simp
qed

lemma SeekToLast_at_position:
  assumes "represents cmp ok sl ks"
  shows "\<exists>node. Iterator_SeekToLast sl = Some node \<and>
    (if ks = [] then node = None else at_position cmp ok sl ks node (length ks - 1))"
proof -
  obtain L where L: "shape cmp ok sl L" "map (Node_key sl) (L 0) = ks"
    using assms by (auto simp: represents_def)
  have "sl_max_height sl - 1 < kMaxHeight"
    using shape_height [OF L(1)] by (auto simp: kMaxHeight_def)
  then have f: "FindLast sl = Some (last (sl_head # L 0))"
    using find_last_from [OF L(1)] by (simp add: FindLast_def)
  have "L 0 \<noteq> [] \<Longrightarrow> last (L 0) \<noteq> sl_head"
    using shapeD(3) [OF L(1), of 0 "last (L 0)"] by (simp add: kMaxHeight_def)
  then show ?thesis
    using f L by (auto simp: Iterator_SeekToLast_def at_position_def last_conv_nth)
qed

lemma Contains_represents:
  assumes "represents cmp ok sl ks" "ok key" "\<And>k. k \<in> set ks \<Longrightarrow> ok k"
  shows "Contains cmp sl key = Some (\<exists>k \<in> set ks. cmp key k = 0)"
proof -
  have sym: "cmp k key < 0 \<longleftrightarrow> cmp key k > 0" "cmp k key > 0 \<longleftrightarrow> cmp key k < 0" if "k \<in> set ks" for k
    using cmp_sym assms(2,3) that by auto
  obtain L where L: "shape cmp ok sl L" "map (Node_key sl) (L 0) = ks"
    using assms(1) by (auto simp: represents_def)
  obtain prev where f: "FindGreaterOrEqual cmp sl key = Some (first (dropWhile (before cmp sl key) (L 0)), prev)"
    by (rule FindGreaterOrEqual_shape [OF L(1) assms(2)]) blast
  let ?T = "takeWhile (before cmp sl key) (L 0)" and ?D = "dropWhile (before cmp sl key) (L 0)"
  have ks: "set ks = Node_key sl ` (set ?T \<union> set ?D)"
    using L(2) by (metis set_append set_map takeWhile_dropWhile_id)
  have T: "cmp key (Node_key sl y) \<noteq> 0" if "y \<in> set ?T" for y
    using that sym(1) [of "Node_key sl y"] ks by (auto dest!: set_takeWhileD simp: before_def)
  show ?thesis
  proof (cases ?D)
    case Nil
    show ?thesis using f T ks unfolding Nil by (auto simp: Contains_def)
  next
    case (Cons z zs)
    have z: "\<not> before cmp sl key z" using Cons hd_dropWhile [of "before cmp sl key" "L 0"] by auto
    have zle: "cmp key (Node_key sl z) \<le> 0"
      using z sym [of "Node_key sl z"] ks Cons by (auto simp: before_def)
    have "sorted_wrt (\<lambda>x y. cmp (Node_key sl x) (Node_key sl y) < 0) (?T @ ?D)"
      using shapeD(2) [OF L(1), of 0] by (simp add: kMaxHeight_def)
    then have "cmp (Node_key sl z) (Node_key sl y) < 0" if "y \<in> set zs" for y
      using that unfolding sorted_wrt_append Cons by auto
    then have "cmp key (Node_key sl y) < 0" if "y \<in> set zs" for y
      using cmp_trans_less [of key "Node_key sl z" "Node_key sl y"] zle assms(2,3) ks Cons that by auto
    then have "(\<exists>k \<in> set ks. cmp key k = 0) \<longleftrightarrow> cmp key (Node_key sl z) = 0"
      using T ks Cons by fastforce
    then show ?thesis using f Cons by (simp add: Contains_def)
  qed
qed

end

text \<open>What holds whenever the writer and the reader are between two of their steps.\<close>

definition reader_ok :: "('k \<Rightarrow> 'k \<Rightarrow> int) \<Rightarrow> 'k \<Rightarrow> 'k skiplist \<Rightarrow> (nat \<Rightarrow> nat list) \<Rightarrow> reader \<Rightarrow> bool" where
  "reader_ok cmp target sl L r =
     (case r of R_at x level \<Rightarrow>
        level < kMaxHeight \<and> (x = sl_head \<or> x \<in> set (L level) \<and> before cmp sl target x)
      | _ \<Rightarrow> True)"

definition between_steps ::
  "('k \<Rightarrow> 'k \<Rightarrow> int) \<Rightarrow> ('k \<Rightarrow> bool) \<Rightarrow> 'k \<Rightarrow> 'k skiplist \<times> ('k skiplist \<Rightarrow> 'k skiplist) list \<times> reader \<Rightarrow> bool" where
  "between_steps cmp ok target s =
     (case s of (sl, fs, r) \<Rightarrow> \<exists>L A F. stores_ok cmp ok A F fs sl L \<and> reader_ok cmp target sl L r)"

lemma reader_ok_grows:
  "reader_ok cmp target sl L r \<Longrightarrow> grows sl L sl' L' \<Longrightarrow> reader_ok cmp target sl' L' r"
  by (auto simp: reader_ok_def grows_def before_def split: reader.splits)

context key_order
begin

lemma round_ok:
  assumes sh: "shape cmp ok sl L" and key: "ok target" and r: "reader_ok cmp target sl L (R_at x level)"
  shows "reader_ok cmp target sl L (read_round cmp sl target x level)"
    and "read_round cmp sl target x level = R_done y \<Longrightarrow> y = first (dropWhile (before cmp sl target) (L 0))"
proof -
  have level: "level < kMaxHeight" and x: "x = sl_head \<or> x \<in> set (L level) \<and> before cmp sl target x"
    using r by (simp_all add: reader_ok_def)
  obtain ys where ys: "path sl level x ys"
    "dropWhile (before cmp sl target) ys = dropWhile (before cmp sl target) (L level)"
    "set ys \<subseteq> set (L level)"
    using walk_from [OF sh level key x] by blast
  note n = path_Next [OF ys(1)]
  have below: "x = sl_head \<or> x \<in> set (L (level - 1)) \<and> before cmp sl target x"
    using x shapeD(4) [OF sh level, of "level - 1"] by auto
  show "reader_ok cmp target sl L (read_round cmp sl target x level)"
    using n ys(3) level below
    by (cases ys) (auto simp: read_round_def KeyIsAfterNode_def reader_ok_def before_def Let_def)
  assume "read_round cmp sl target x level = R_done y"
  then have "level = 0 \<and> y = first (dropWhile (before cmp sl target) ys)"
    using n by (cases ys) (auto simp: read_round_def KeyIsAfterNode_def before_def Let_def split: if_splits)
  with ys(2) show "y = first (dropWhile (before cmp sl target) (L 0))" by simp
qed

lemma fresh_key:
  assumes sh: "shape cmp ok sl L" and key: "ok key"
    and f: "FindGreaterOrEqual cmp sl key = Some (x, prev)" and x: "x = None \<or> cmp key (Node_key sl (the x)) \<noteq> 0"
    and y: "y \<in> set (L 0)"
  shows "cmp (Node_key sl y) key \<noteq> 0"
proof -
  have ok: "ok (Node_key sl z)" if "z \<in> set (L 0)" for z
    using shapeD(3) [OF sh, of 0] that by (simp add: kMaxHeight_def)
  have "Contains cmp sl key = Some False"
    using f x by (auto simp: Contains_def split: option.splits)
  moreover have "Contains cmp sl key = Some (\<exists>k \<in> set (map (Node_key sl) (L 0)). cmp key k = 0)"
    using Contains_represents [of sl "map (Node_key sl) (L 0)" key] sh key ok
    by (force simp: represents_def)
  ultimately have "cmp key (Node_key sl y) \<noteq> 0" using y by auto
  then show ?thesis using cmp_sym [OF ok [OF y] key] cmp_sym [OF key ok [OF y]] by linarith
qed

lemma between_steps_step:
  assumes "sl_step cmp ok target s s'" "between_steps cmp ok target s" "ok target"
  shows "between_steps cmp ok target s'"
  using assms(1,2)
proof cases
  case (insert key sl x prev height sl' r)
  then obtain L where L: "shape cmp ok sl L" "reader_ok cmp target sl L r"
    using assms(2) by (auto simp: between_steps_def)
  obtain rnd where sl': "sl' = sl\<lparr>sl_rnd := rnd\<rparr>" "random_height 1 (sl_rnd sl) = (height, rnd)"
    using insert(6) by (auto simp: RandomHeight_def split: prod.splits)
  have "stores_ok cmp ok (L 0)
      (takeWhile (before cmp sl key) (L 0) @ length (sl_nodes sl) # dropWhile (before cmp sl key) (L 0))
      (Insert_stores key height prev sl') sl' L"
    using fresh_key [OF L(1) insert(3,4,5)] unfolding sl'(1)
    by (intro Insert_stores_from [OF L(1) insert(3) _ insert(4) sl'(2)]) auto
  moreover have "reader_ok cmp target sl' L r"
    using L(2) by (simp add: reader_ok_def sl'(1) split: reader.splits)
  ultimately show ?thesis using insert(2) by (auto simp: between_steps_def)
next
  case (store sl f fs r)
  then show ?thesis
    using assms(2) by (auto simp: between_steps_def intro: reader_ok_grows)
next
  case (start sl fs)
  then obtain L A F where L: "stores_ok cmp ok A F fs sl L" using assms(2) by (auto simp: between_steps_def)
  have "sl_max_height sl - 1 < kMaxHeight"
    using shape_height [of cmp ok sl L] stores_ok_shape [OF L] by (auto simp: kMaxHeight_def)
  then show ?thesis using start L by (auto simp: between_steps_def reader_ok_def)
next
  case (load sl fs x level)
  then show ?thesis
    using assms(2,3) round_ok(1) stores_ok_shape by (fastforce simp: between_steps_def)
qed

end

section \<open>Properties of the skip list\<close>

text \<open>
  (C17) \<open>Insert\<close> ends and puts a new key at its place in the order: the list represents the
  keys as before with the new one inserted, whatever heights the random numbers give.
\<close>

theorem skiplist_insert:
  assumes "key_order cmp ok" "ok key" "represents cmp ok sl ks" "\<forall>k \<in> set ks. cmp k key \<noteq> 0"
  shows "represents cmp ok (make_SkipList any) [] \<and>
    (\<exists>sl'. Insert cmp key sl = Some sl' \<and> represents cmp ok sl' (insert_key cmp key ks))"
  using key_order.Insert_represents [OF assms(1,3,2)] assms(4) shape_empty [of cmp ok any]
  by (auto simp: represents_def [of cmp ok "make_SkipList any"])

text \<open>
  (C19) Iterators enumerate the keys in order: \<open>Seek\<close> ends at the first key that is not
  smaller than the target, the other operations move by one position or to an end.
\<close>

theorem skiplist_iterator:
  assumes "key_order cmp ok" "represents cmp ok sl ks" "ok target" "at_position cmp ok sl ks node n" "n < length ks"
  shows "Iterator_key sl node = ks ! n \<and> at_position cmp ok sl ks (Iterator_Next sl node) (Suc n) \<and>
    (\<exists>node'. Iterator_Prev cmp sl node = Some node' \<and>
      (if n = 0 then \<not> Iterator_Valid node' else at_position cmp ok sl ks node' (n - 1))) \<and>
    at_position cmp ok sl ks (Iterator_SeekToFirst sl) 0 \<and>
    (\<exists>node'. Iterator_SeekToLast sl = Some node' \<and> at_position cmp ok sl ks node' (length ks - 1)) \<and>
    (\<exists>node'. Iterator_Seek cmp sl target = Some node' \<and>
      at_position cmp ok sl ks node' (length (takeWhile (\<lambda>k. cmp k target < 0) ks)))"
  using at_position_key(2) [OF assms(4,5)] Next_at_position [OF assms(4,5)]
    key_order.Prev_at_position [OF assms(1,4,5)] SeekToFirst_at_position [OF assms(2)]
    key_order.SeekToLast_at_position [OF assms(1,2)] key_order.Seek_at_position [OF assms(1-3)] assms(5)
  by (auto simp: Iterator_Valid_def split: if_splits)

text \<open>
  (C18) Readers need no lock: however the loads of a search are interleaved with the stores
  of insertions, the node that the search returns is the first one not before its target
  among those linked at level 0 when it made its last load.
\<close>

theorem skiplist_concurrent_search:
  assumes "key_order cmp ok" "ok target" "represents cmp ok sl ks"
    and "(sl_step cmp ok target)\<^sup>*\<^sup>* (sl, [], R_start) (sl', fs, R_at x level)"
    and "read_round cmp sl' target x level = R_done node"
  shows "\<exists>ks'. represents cmp ok sl' ks' \<and>
    at_position cmp ok sl' ks' node (length (takeWhile (\<lambda>k. cmp k target < 0) ks'))"
proof -
  obtain L where "shape cmp ok sl L" using assms(3) by (auto simp: represents_def)
  then have "stores_ok cmp ok (L 0) (L 0) [] sl L \<and> reader_ok cmp target sl L R_start"
    by (simp add: reader_ok_def)
  then have "between_steps cmp ok target (sl, [], R_start)"
    unfolding between_steps_def by blast
  with assms(4) have "between_steps cmp ok target (sl', fs, R_at x level)"
    by (induction rule: rtranclp_induct) (auto intro: key_order.between_steps_step [OF assms(1)] assms(2))
  then obtain L' where L': "shape cmp ok sl' L'" "reader_ok cmp target sl' L' (R_at x level)"
    using stores_ok_shape by (fastforce simp: between_steps_def)
  let ?ks = "map (Node_key sl') (L' 0)"
  have "length (takeWhile (\<lambda>k. cmp k target < 0) ?ks) = length (takeWhile (before cmp sl' target) (L' 0))"
    by (simp add: before_map)
  moreover have "node = first (dropWhile (before cmp sl' target) (L' 0))"
    by (rule key_order.round_ok(2) [OF assms(1) L'(1) assms(2) L'(2) assms(5)])
  ultimately have "at_position cmp ok sl' ?ks node (length (takeWhile (\<lambda>k. cmp k target < 0) ?ks))"
    using L'(1) length_takeWhile_le [of "before cmp sl' target" "L' 0"]
    by (auto simp: at_position_def first_dropWhile first_drop)
  then show ?thesis using L'(1) by (auto simp: represents_def)
qed

section \<open>The random numbers\<close>

lemma Random_sum:
  assumes "seed < (2147483647 :: u32)"
  shows "unat (drop_bit 31 (ucast seed * 16807 :: u64) + (ucast seed * 16807 AND 2147483647)) =
    unat seed * 16807 div 2 ^ 31 + unat seed * 16807 mod 2 ^ 31"
proof -
  have s: "unat seed < 2147483647" using assms by (simp add: word_less_nat_alt)
  let ?p = "ucast seed * 16807 :: u64"
  have p: "unat ?p = unat seed * 16807"
  proof -
    have "?p = of_nat (unat seed * 16807)" by simp
    also have "unat \<dots> = unat seed * 16807" using s by (intro unat_of_nat_small) simp
    finally show ?thesis .
  qed
  have m: "?p AND 2147483647 = take_bit 31 ?p"
    by (simp add: take_bit_eq_mask mask_eq_exp_minus_1 del: take_bit_eq_mask_iff)
  have d: "unat (drop_bit 31 ?p) = unat seed * 16807 div 2 ^ 31" "unat (take_bit 31 ?p) = unat seed * 16807 mod 2 ^ 31"
    unfolding unat_drop_bit unat_take_bit p by (rule refl)+
  have "unat (drop_bit 31 ?p + take_bit 31 ?p) = unat (drop_bit 31 ?p) + unat (take_bit 31 ?p)"
    using s unfolding unat_word_ariths d by (intro mod_less) (simp add: less_mult_imp_div_less)
  then show ?thesis unfolding m d .
qed

lemma mod_once: "x < 2 * m \<Longrightarrow> x mod m \<noteq> 0 \<Longrightarrow> x mod m = (if x > m then x - m else x)" for m :: nat
  by (cases "x < m"; cases "x = m") (auto simp: le_mod_geq)

text \<open>
  The generator computes \<open>seed * 16807 mod (2 ^ 31 - 1)\<close> without a division, and never
  leaves the range of good seeds.
\<close>

theorem Random_Next_correct:
  assumes "0 < seed" "seed < 2147483647"
  shows "unat (Random_Next seed) = unat seed * 16807 mod 2147483647 \<and> 0 < Random_Next seed \<and> Random_Next seed < 2147483647"
proof -
  let ?P = "unat seed * 16807" and ?M = "2147483647 :: nat"
  have s: "0 < unat seed" "unat seed < ?M" using assms by (simp_all add: word_less_nat_alt unat_gt_0)
  let ?w = "drop_bit 31 (ucast seed * 16807 :: u64) + (ucast seed * 16807 AND 2147483647)"
  let ?sum = "?P div 2 ^ 31 + ?P mod 2 ^ 31"
  have w: "unat ?w = ?sum" using Random_sum [OF assms(2)] .
  have small: "?sum < 2 * ?M" "?sum < 2 ^ 32"
    using s by (simp_all add: less_mult_imp_div_less)
  have "?P = ?P div 2 ^ 31 * 2 ^ 31 + ?P mod 2 ^ 31" by simp
  then have "?P mod ?M = ?sum mod ?M"
  proof -
    have "?P = ?sum + ?M * (?P div 2 ^ 31)"
      using div_mult_mod_eq [of ?P "2 ^ 31"] by simp
    then show ?thesis by (metis mod_mult_self2)
  qed
  moreover have nz: "?P mod ?M \<noteq> 0"
  proof
    assume "?P mod ?M = 0"
    then have "?M dvd unat seed * 16807" by auto
    moreover have "coprime ?M 16807" by (simp add: coprime_iff_gcd_eq_1 gcd_non_0_nat)
    ultimately have "?M dvd unat seed" by (metis coprime_dvd_mult_left_iff)
    with s show False using dvd_imp_le by fastforce
  qed
  moreover have "unat (Random_Next seed) = (if ?sum > ?M then ?sum - ?M else ?sum)"
  proof -
    have c: "unat (ucast ?w :: u32) = ?sum"
      using w small(2) by (simp add: unat_ucast_down)
    then show ?thesis
      using unat_sub [of 2147483647 "ucast ?w :: u32"]
      by (auto simp: Random_Next_def Let_def word_less_nat_alt word_le_nat_alt)
  qed
  moreover have "?sum mod ?M = (if ?sum > ?M then ?sum - ?M else ?sum)" if "?sum mod ?M \<noteq> 0"
    by (rule mod_once [OF small(1) that])
  ultimately have "unat (Random_Next seed) = ?P mod ?M" by metis
  then show ?thesis using nz by (auto simp: word_less_nat_alt)
qed

section \<open>Instances\<close>

text \<open>Integers in their usual order.\<close>

definition int_cmp :: "int \<Rightarrow> int \<Rightarrow> int" where
  "int_cmp a b = a - b"

lemma int_order: "key_order int_cmp (\<lambda>_. True)"
  by unfold_locales (auto simp: int_cmp_def)

lemma empty_represents: "represents cmp ok (make_SkipList any) []"
  using shape_empty [of cmp ok any] by (auto simp: represents_def)

theorem skiplist_insert_witness:
  "\<exists>sl. Insert int_cmp 5 (make_SkipList 0) = Some sl \<and> represents int_cmp (\<lambda>_. True) sl [5]"
  using skiplist_insert [OF int_order, where key = 5 and sl = "make_SkipList 0" and ks = "[]" and any = 0] empty_represents [of int_cmp "\<lambda>_. True" 0]
  by (simp add: insert_key_def)

theorem skiplist_iterator_witness:
  "\<exists>sl. represents int_cmp (\<lambda>_. True) sl [5] \<and> Iterator_key sl (Iterator_SeekToFirst sl) = 5"
proof -
  obtain sl where sl: "represents int_cmp (\<lambda>_. True) sl [5]"
    using key_order.Insert_represents [OF int_order empty_represents, where key = 5] by (auto simp: insert_key_def)
  from skiplist_iterator [OF int_order sl _ SeekToFirst_at_position [OF sl], of 0] have
    "Iterator_key sl (Iterator_SeekToFirst sl) = 5" by simp
  with sl show ?thesis by blast
qed

theorem skiplist_concurrent_search_witness:
  "\<exists>ks. represents int_cmp (\<lambda>_. True) (make_SkipList 0) ks \<and>
    at_position int_cmp (\<lambda>_. True) (make_SkipList 0) ks None (length (takeWhile (\<lambda>k. int_cmp k 7 < 0) ks))"
proof -
  have "sl_step int_cmp (\<lambda>_. True) 7 (make_SkipList 0, [], R_start) (make_SkipList 0, [], R_at sl_head 0)"
    using sl_step.start [of int_cmp "\<lambda>_. True" 7 "make_SkipList 0" "[]"] by (simp add: make_SkipList_eq)
  moreover have "read_round int_cmp (make_SkipList 0) 7 sl_head 0 = R_done None"
    by (simp add: read_round_def make_SkipList_eq Node_Next_def KeyIsAfterNode_def sl_head_def kMaxHeight_def)
  ultimately show ?thesis
    using skiplist_concurrent_search [OF int_order TrueI empty_represents r_into_rtranclp] by blast
qed

theorem Random_Next_correct_witness: "unat (Random_Next 1) = 16807"
  using Random_Next_correct [of 1] by simp

end
