(* ===== verification/Ldb_Memtable.thy ===== *)
theory Ldb_Memtable
  imports Ldb_WriteBatch Ldb_SkipList_Spec
begin

text \<open>
  \<^verbatim>\<open>db/memtable.cc\<close>: the memtable, a skip list of encoded entries ordered by their internal
  keys, its look-up, its iterator, and the insertion of a \<open>WriteBatch\<close>. A pointer into an
  entry is the list of the bytes from there to the end of the entry.
\<close>

section \<open>Entries\<close>

text \<open>
  The file-local \<open>GetLengthPrefixedSlice\<close>: it reads at most five bytes of length and trusts
  the pointer otherwise. On a corrupt length, which the code excludes, it gives the empty
  list here.
\<close>

definition entry_slice :: "byte list \<Rightarrow> slice \<times> byte list" where
  "entry_slice data =
     (case GetVarint32Ptr (take 5 data) of
        Some (len, p) \<Rightarrow>
          let p = drop (length (take 5 data) - length p) data
          in (take (unat len) p, drop (unat len) p)
      | None \<Rightarrow> ([], []))"

definition KeyComparator :: "comparator_t \<Rightarrow> byte list \<Rightarrow> byte list \<Rightarrow> int" where
  "KeyComparator c aptr bptr =
     (let a = fst (entry_slice aptr); b = fst (entry_slice bptr) in Compare c a b)"

definition EncodeKey :: "slice \<Rightarrow> byte list" where
  "EncodeKey target = PutVarint32 [] (of_nat (length target)) @ target"

section \<open>The table\<close>

text \<open>The user's comparator, over which \<open>comparator_\<close> is an \<open>InternalKeyComparator\<close>, and the list.\<close>

record memtable =
  mt_user_comparator :: comparator_t
  mt_table :: "byte list skiplist"

definition mt_compare :: "memtable \<Rightarrow> byte list \<Rightarrow> byte list \<Rightarrow> int" where
  "mt_compare m = KeyComparator (InternalKeyComparator (mt_user_comparator m))"

definition make_MemTable :: "comparator_t \<Rightarrow> memtable" where
  "make_MemTable c = \<lparr>mt_user_comparator = c, mt_table = make_SkipList []\<rparr>"

text \<open>\<open>encoded_len\<close> is the size of the buffer that the entry is written into.\<close>

definition encoded_len :: "slice \<Rightarrow> slice \<Rightarrow> nat" where
  "encoded_len key value =
     (let internal_key_size = length key + 8; val_size = length value
      in VarintLength (of_nat internal_key_size) + internal_key_size + VarintLength (of_nat val_size) + val_size)"

definition mt_entry :: "u64 \<Rightarrow> ValueType \<Rightarrow> slice \<Rightarrow> slice \<Rightarrow> byte list" where
  "mt_entry s type key value =
     (let buf = EncodeVarint32 (of_nat (length key + 8)); buf = buf @ key;
          buf = buf @ EncodeFixed64 (push_bit 8 s OR ValueType_value type);
          buf = buf @ EncodeVarint32 (of_nat (length value))
      in buf @ value)"

definition MemTable_Add :: "u64 \<Rightarrow> ValueType \<Rightarrow> slice \<Rightarrow> slice \<Rightarrow> memtable \<Rightarrow> memtable option" where
  "MemTable_Add s type key value m =
     map_option (\<lambda>t. m\<lparr>mt_table := t\<rparr>) (Insert (mt_compare m) (mt_entry s type key value) (mt_table m))"

text \<open>
  \<open>Get\<close>: the search may not end (outer \<open>None\<close>); then false (\<open>None\<close>), or true with the value,
  or true with the status \<open>NotFound\<close>. A tag that is neither leaves the switch and returns false.
\<close>

datatype lookup = Found slice | Deleted Status

definition MemTable_Get :: "LookupKey \<Rightarrow> memtable \<Rightarrow> lookup option option" where
  "MemTable_Get key m =
     (case Iterator_Seek (mt_compare m) (mt_table m) (memtable_key key) of
        None \<Rightarrow> None
      | Some node \<Rightarrow> Some
          (if \<not> Iterator_Valid node then None
           else let entry = Iterator_key (mt_table m) node; (ikey, rest) = entry_slice entry in
             if Compare (mt_user_comparator m) (take (length ikey - 8) ikey) (lookup_user_key key) = 0
             then let tag = DecodeFixed64 (drop (length ikey - 8) ikey); t = tag AND 0xff
                  in if t = ValueType_value kTypeValue then Some (Found (fst (entry_slice rest)))
                     else if t = ValueType_value kTypeDeletion then Some (Deleted (NotFound []))
                     else None
             else None))"

section \<open>Iterators\<close>

definition MemTableIterator_Seek :: "memtable \<Rightarrow> slice \<Rightarrow> nat option option" where
  "MemTableIterator_Seek m k = Iterator_Seek (mt_compare m) (mt_table m) (EncodeKey k)"

definition MemTableIterator_key :: "memtable \<Rightarrow> nat option \<Rightarrow> slice" where
  "MemTableIterator_key m node = fst (entry_slice (Iterator_key (mt_table m) node))"

definition MemTableIterator_value :: "memtable \<Rightarrow> nat option \<Rightarrow> slice" where
  "MemTableIterator_value m node = fst (entry_slice (snd (entry_slice (Iterator_key (mt_table m) node))))"

section \<open>Applying a batch\<close>

text \<open>\<open>MemTableInserter\<close>: the next sequence number and the table, unless an insertion did not end.\<close>

definition MemTableInserter :: "(u64 \<times> memtable) option handler" where
  "MemTableInserter =
     \<lparr>hd_Put = (\<lambda>key value st. case st of None \<Rightarrow> None
        | Some (sequence, mem) \<Rightarrow> map_option (\<lambda>m. (sequence + 1, m)) (MemTable_Add sequence kTypeValue key value mem)),
      hd_Delete = (\<lambda>key st. case st of None \<Rightarrow> None
        | Some (sequence, mem) \<Rightarrow> map_option (\<lambda>m. (sequence + 1, m)) (MemTable_Add sequence kTypeDeletion key [] mem))\<rparr>"

definition InsertInto :: "WriteBatch \<Rightarrow> memtable \<Rightarrow> Status \<times> memtable option" where
  "InsertInto b m =
     (case Iterate MemTableInserter b (Some (Sequence b, m)) of (s, st) \<Rightarrow> (s, map_option snd st))"

section \<open>The order of entries\<close>

context user_comparator
begin

lemma entry_order:
  "key_order (KeyComparator (InternalKeyComparator c)) (\<lambda>e. internal_valid valid (fst (entry_slice e)))"
proof
  fix a b d
  assume ab: "internal_valid valid (fst (entry_slice a))" "internal_valid valid (fst (entry_slice b))"
  show "KeyComparator (InternalKeyComparator c) a b < 0 \<longleftrightarrow> KeyComparator (InternalKeyComparator c) b a > 0"
    using internal.sym [OF ab] by (simp add: KeyComparator_def)
  assume d: "internal_valid valid (fst (entry_slice d))"
  show "KeyComparator (InternalKeyComparator c) a b < 0 \<Longrightarrow> KeyComparator (InternalKeyComparator c) b d \<le> 0 \<Longrightarrow>
      KeyComparator (InternalKeyComparator c) a d < 0"
    using internal.less_trans2 [OF ab d] by (simp add: KeyComparator_def)
  show "KeyComparator (InternalKeyComparator c) a b \<le> 0 \<Longrightarrow> KeyComparator (InternalKeyComparator c) b d < 0 \<Longrightarrow>
      KeyComparator (InternalKeyComparator c) a d < 0"
    using internal.less_trans [OF ab d] by (simp add: KeyComparator_def)
qed

end

definition entry_ok :: "byte list \<Rightarrow> bool" where
  "entry_ok e \<longleftrightarrow> internal_valid (\<lambda>_. True) (fst (entry_slice e))"

interpretation mt: key_order "KeyComparator (InternalKeyComparator BytewiseComparator)" entry_ok
  using ukey.entry_order by (simp add: entry_ok_def [abs_def])

section \<open>Encoding of entries\<close>

lemma entry_slice_put: "length x < 2 ^ 32 \<Longrightarrow> entry_slice (PutLengthPrefixedSlice [] x @ rest) = (x, rest)"
proof -
  assume x: "length x < 2 ^ 32"
  let ?e = "EncodeVarint32 (of_nat (length x))"
  have "length (varint (length x)) \<le> 5"
    using x by (intro length_varint) auto
  then have l: "length ?e \<le> 5"
    using x by (simp add: EncodeVarint32_varint unat_of_nat_small)
  then have "take 5 (?e @ x @ rest) = ?e @ take (5 - length ?e) (x @ rest)"
    by simp
  then have "GetVarint32Ptr (take 5 (?e @ x @ rest)) = Some (of_nat (length x), take (5 - length ?e) (x @ rest))"
    using GetVarint32_varint by metis
  then show ?thesis
    using x l by (simp add: entry_slice_def PutLengthPrefixedSlice_def PutVarint32_def unat_of_nat_small Let_def)
qed

lemma mt_entry_slices:
  "mt_entry s t u v = PutLengthPrefixedSlice [] (InternalKey u s t) @ PutLengthPrefixedSlice [] v"
  by (simp add: mt_entry_def PutLengthPrefixedSlice_def PutVarint32_def InternalKey_def Append_fields
      PackSequenceAndType_def Let_def)

text \<open>The abstract entries of a table.\<close>

record mt_item =
  it_key :: slice
  it_seq :: u64
  it_type :: ValueType
  it_value :: slice

definition item_ok :: "mt_item \<Rightarrow> bool" where
  "item_ok e \<longleftrightarrow> it_seq e \<le> kMaxSequenceNumber \<and> length (it_key e) + 8 < 2 ^ 32 \<and> length (it_value e) < 2 ^ 32"

definition item_bytes :: "mt_item \<Rightarrow> byte list" where
  "item_bytes e = mt_entry (it_seq e) (it_type e) (it_key e) (it_value e)"

lemma item_slices:
  assumes "item_ok e"
  shows "entry_slice (item_bytes e) = (InternalKey (it_key e) (it_seq e) (it_type e), PutLengthPrefixedSlice [] (it_value e))"
    and "fst (entry_slice (PutLengthPrefixedSlice [] (it_value e))) = it_value e" "entry_ok (item_bytes e)"
proof -
  show 1: "entry_slice (item_bytes e) = (InternalKey (it_key e) (it_seq e) (it_type e), PutLengthPrefixedSlice [] (it_value e))"
    using entry_slice_put [of "InternalKey (it_key e) (it_seq e) (it_type e)"] assms
    by (simp add: item_bytes_def mt_entry_slices item_ok_def)
  show "fst (entry_slice (PutLengthPrefixedSlice [] (it_value e))) = it_value e"
    using entry_slice_put [of "it_value e" "[]"] assms by (simp add: item_ok_def)
  show "entry_ok (item_bytes e)"
    by (simp add: entry_ok_def 1 internal_valid_def)
qed

text \<open>The buffer of an entry is filled exactly.\<close>

lemma encoded_len_entry:
  assumes "length u + 8 < 2 ^ 32" "length v < 2 ^ 32"
  shows "length (mt_entry s t u v) = encoded_len u v"
proof -
  have "unat (of_nat n :: u64) = n \<and> unat (of_nat n :: u32) = n" if "n < 2 ^ 32" for n
    using that by (simp add: unat_of_nat_small)
  from this [OF assms(1)] this [OF assms(2)] show ?thesis
    by (simp add: mt_entry_def encoded_len_def VarintLength_varint EncodeVarint32_varint Let_def del: of_nat_add)
qed

abbreviation bytewise_mt :: "byte list \<Rightarrow> byte list \<Rightarrow> int" where
  "bytewise_mt \<equiv> KeyComparator (InternalKeyComparator BytewiseComparator)"

lemma item_less:
  assumes "item_ok e" "item_ok f"
  shows "bytewise_mt (item_bytes e) (item_bytes f) < 0 \<longleftrightarrow>
    Slice_compare (it_key e) (it_key f) < 0 \<or>
    it_key e = it_key f \<and> (it_seq f < it_seq e \<or>
      it_seq e = it_seq f \<and> it_type e = kTypeValue \<and> it_type f = kTypeDeletion)"
  using InternalKey_less [of "it_seq e" "it_seq f" BytewiseComparator "it_key e" "it_type e" "it_key f" "it_type f"] assms
  by (simp add: KeyComparator_def item_slices item_ok_def BytewiseComparator_def)

section \<open>The contents of a table\<close>

definition mt_holds :: "memtable \<Rightarrow> mt_item list \<Rightarrow> bool" where
  "mt_holds m E \<longleftrightarrow>
     mt_user_comparator m = BytewiseComparator \<and> list_all item_ok E \<and>
     inj_on (\<lambda>e. (it_key e, it_seq e)) (set E) \<and>
     represents bytewise_mt entry_ok (mt_table m) (map item_bytes E)"

definition item_lookup :: "mt_item \<Rightarrow> lookup" where
  "item_lookup e = (case it_type e of kTypeValue \<Rightarrow> Found (it_value e) | kTypeDeletion \<Rightarrow> Deleted (NotFound []))"

definition visible :: "slice \<Rightarrow> u64 \<Rightarrow> mt_item \<Rightarrow> bool" where
  "visible u s e \<longleftrightarrow> it_key e = u \<and> it_seq e \<le> s"

definition seek_before :: "slice \<Rightarrow> u64 \<Rightarrow> mt_item \<Rightarrow> bool" where
  "seek_before u s e \<longleftrightarrow> Slice_compare (it_key e) u < 0 \<or> it_key e = u \<and> s < it_seq e"

lemma seek_before_cmp:
  assumes "item_ok e" "s \<le> kMaxSequenceNumber" "length u + 8 < 2 ^ 32"
  shows "bytewise_mt (item_bytes e) (memtable_key (make_LookupKey u s)) < 0 \<longleftrightarrow> seek_before u s e"
  using InternalKey_less [of "it_seq e" s BytewiseComparator "it_key e" "it_type e" u kValueTypeForSeek] assms
    entry_slice_put [of "InternalKey u s kValueTypeForSeek" "[]"]
  by (simp add: KeyComparator_def item_slices item_ok_def BytewiseComparator_def LookupKey_parts
      seek_before_def kValueTypeForSeek_def)

lemma holds_sorted:
  "mt_holds m E \<Longrightarrow> sorted_wrt (\<lambda>e f. bytewise_mt (item_bytes e) (item_bytes f) < 0) E"
  using represents_sorted by (fastforce simp: mt_holds_def sorted_wrt_map)

text \<open>The first item that is not skipped decides.\<close>

lemma first_visible:
  assumes s: "sorted_wrt (\<lambda>e f. bytewise_mt (item_bytes e) (item_bytes f) < 0) E" and ok: "list_all item_ok E"
  shows "List.find (visible u s) E =
    (case dropWhile (seek_before u s) E of [] \<Rightarrow> None | e # _ \<Rightarrow> if it_key e = u then Some e else None)"
  using assms
proof (induction E)
  case (Cons e E)
  have less: "Slice_compare (it_key e) (it_key f) < 0 \<or> it_key e = it_key f" if "f \<in> set E" for f
    using Cons.prems that item_less [of e f] by (auto simp: list_all_iff)
  show ?case
  proof (cases "seek_before u s e")
    case True
    then have "\<not> visible u s e" by (auto simp: seek_before_def visible_def)
    with True Cons show ?thesis by simp
  next
    case False
    have "\<not> visible u s f" if "it_key e \<noteq> u" "f \<in> set E" for f
      using less [OF that(2)] that(1) False by (auto simp: seek_before_def visible_def)
    then have "it_key e \<noteq> u \<Longrightarrow> List.find (visible u s) E = None"
      by (auto simp: find_None_iff)
    moreover have "visible u s e \<longleftrightarrow> it_key e = u"
      using False by (auto simp: seek_before_def visible_def)
    ultimately show ?thesis using False by simp
  qed
qed simp

lemma bytewise_Compare: "Compare BytewiseComparator = Slice_compare"
  by (simp add: BytewiseComparator_def)

lemma tag_type: "s \<le> kMaxSequenceNumber \<Longrightarrow> PackSequenceAndType s t AND 0xff = ValueType_value t"
  by (rule pack_fields)

lemma Get_holds:
  assumes m: "mt_holds m E" and s: "s \<le> kMaxSequenceNumber" and u: "length u + 8 < 2 ^ 32"
  shows "MemTable_Get (make_LookupKey u s) m = Some (map_option item_lookup (List.find (visible u s) E))"
proof -
  let ?k = "memtable_key (make_LookupKey u s)"
  have mt: "mt_compare m = bytewise_mt" "mt_user_comparator m = BytewiseComparator"
    "represents bytewise_mt entry_ok (mt_table m) (map item_bytes E)" and ok: "list_all item_ok E"
    using m by (simp_all add: mt_holds_def mt_compare_def)
  have "entry_ok ?k"
    using entry_slice_put [of "InternalKey u s kValueTypeForSeek" "[]"] u
    by (simp add: entry_ok_def LookupKey_parts internal_valid_def)
  from mt.Seek_at_position [OF mt(3) this] obtain node where
    seek: "Iterator_Seek bytewise_mt (mt_table m) ?k = Some node" and
    pos: "at_position bytewise_mt entry_ok (mt_table m) (map item_bytes E) node
      (length (takeWhile (\<lambda>e. bytewise_mt (item_bytes e) ?k < 0) E))"
    by (auto simp: takeWhile_map comp_def)
  have tw: "takeWhile (\<lambda>e. bytewise_mt (item_bytes e) ?k < 0) E = takeWhile (seek_before u s) E"
    using ok seek_before_cmp [OF _ s u] by (auto simp: list_all_iff intro!: takeWhile_cong)
  let ?n = "length (takeWhile (seek_before u s) E)"
  have dw: "dropWhile (seek_before u s) E = drop ?n E" by (rule dropWhile_eq_drop)
  note pos = pos [unfolded tw]
  have find: "List.find (visible u s) E = (case drop ?n E of [] \<Rightarrow> None | e # _ \<Rightarrow> if it_key e = u then Some e else None)"
    using first_visible [OF holds_sorted [OF m] ok] by (simp add: dw)
  show ?thesis
  proof (cases "?n < length E")
    case False
    then have "\<not> Iterator_Valid node" "drop ?n E = []"
      using at_position_key(1) [OF pos] by simp_all
    then show ?thesis using find by (simp add: MemTable_Get_def mt seek)
  next
    case True
    let ?e = "E ! ?n"
    have v: "Iterator_Valid node" "Iterator_key (mt_table m) node = item_bytes ?e"
      using at_position_key [OF pos] True by simp_all
    have e: "item_ok ?e" using ok True by (simp add: list_all_length)
    have d: "drop ?n E = ?e # drop (Suc ?n) E" using True by (rule Cons_nth_drop_Suc [symmetric])
    have ikey: "take (length k - 8) k = it_key ?e" "DecodeFixed64 (drop (length k - 8) k) = PackSequenceAndType (it_seq ?e) (it_type ?e)"
      if "k = InternalKey (it_key ?e) (it_seq ?e) (it_type ?e)" for k
      using that InternalKey_parts(1,2) [of "it_key ?e" "it_seq ?e" "it_type ?e"]
      unfolding ExtractUserKey_def key_num_def by simp_all
    show ?thesis
      using find d v e item_slices [OF e] ikey [OF refl] tag_type [of "it_seq ?e" "it_type ?e"]
      by (cases "it_type ?e")
        (auto simp: MemTable_Get_def mt seek LookupKey_parts(2) bytewise_Compare item_lookup_def
          item_ok_def ValueType_value_def Let_def)
  qed
qed

text \<open>What \<open>Get\<close> finds is the newest visible item.\<close>

lemma find_newest:
  assumes m: "mt_holds m E" and e: "e \<in> set E" "visible u s e"
    and newest: "\<And>f. f \<in> set E \<Longrightarrow> visible u s f \<Longrightarrow> it_seq f \<le> it_seq e"
  shows "List.find (visible u s) E = Some e"
proof -
  obtain d where d: "List.find (visible u s) E = Some d"
    using e find_None_iff [of "visible u s" E] by (cases "List.find (visible u s) E") auto
  then obtain i where i: "i < length E" "visible u s (E ! i)" "d = E ! i" "\<And>j. j < i \<Longrightarrow> \<not> visible u s (E ! j)"
    by (auto simp: find_Some_iff)
  obtain j where j: "j < length E" "e = E ! j" using e(1) by (auto simp: in_set_conv_nth)
  have "i \<le> j" using i(4) j e(2) by (meson not_le)
  show ?thesis
  proof (cases "i = j")
    case False
    with \<open>i \<le> j\<close> have "bytewise_mt (item_bytes d) (item_bytes e) < 0"
      using holds_sorted [OF m] i j by (simp add: sorted_wrt_iff_nth_less)
    moreover have ok: "item_ok d" "item_ok e" using m i(1,3) j by (auto simp: mt_holds_def list_all_length)
    moreover have "it_key d = it_key e" using i(2,3) e(2) by (simp add: visible_def)
    ultimately have "it_seq e \<le> it_seq d" by (auto simp: item_less less_imp_le)
    then have "it_seq d = it_seq e" using newest [of d] i(1-3) by (simp add: order_antisym)
    then have "d = e"
      using m \<open>it_key d = it_key e\<close> i(1,3) e(1) by (auto simp: mt_holds_def inj_on_def)
    with d show ?thesis by simp
  qed (use d i j in simp)
qed

lemma find_is_newest:
  assumes m: "mt_holds m E" and d: "List.find (visible u s) E = Some d"
  shows "d \<in> set E" "visible u s d" "f \<in> set E \<Longrightarrow> visible u s f \<Longrightarrow> it_seq f \<le> it_seq d"
proof -
  obtain i where i: "i < length E" "visible u s (E ! i)" "d = E ! i" "\<And>j. j < i \<Longrightarrow> \<not> visible u s (E ! j)"
    using d by (auto simp: find_Some_iff)
  then show "d \<in> set E" "visible u s d" by simp_all
  assume f: "f \<in> set E" "visible u s f"
  obtain j where j: "j < length E" "f = E ! j" using f(1) by (auto simp: in_set_conv_nth)
  have "i \<le> j" using i(4) j f(2) by (meson not_le)
  show "it_seq f \<le> it_seq d"
  proof (cases "i = j")
    case False
    with \<open>i \<le> j\<close> have "bytewise_mt (item_bytes d) (item_bytes f) < 0"
      using holds_sorted [OF m] i j by (simp add: sorted_wrt_iff_nth_less)
    moreover have "item_ok d" "item_ok f" using m i(1,3) j by (auto simp: mt_holds_def list_all_length)
    moreover have "it_key d = it_key f" using i(2,3) f(2) by (simp add: visible_def)
    ultimately show ?thesis by (auto simp: item_less less_imp_le)
  qed (use i j in simp)
qed

section \<open>Adding entries\<close>

lemma item_neq:
  assumes "item_ok e" "item_ok f" "(it_key f, it_seq f) \<noteq> (it_key e, it_seq e)"
  shows "bytewise_mt (item_bytes f) (item_bytes e) \<noteq> 0"
proof
  assume "bytewise_mt (item_bytes f) (item_bytes e) = 0"
  then have "\<not> bytewise_mt (item_bytes f) (item_bytes e) < 0" "\<not> bytewise_mt (item_bytes e) (item_bytes f) < 0"
    using mt.cmp_sym [OF item_slices(3) [OF assms(1)] item_slices(3) [OF assms(2)]] by auto
  then have "\<not> Slice_compare (it_key f) (it_key e) < 0" "\<not> Slice_compare (it_key e) (it_key f) < 0"
    "it_key e = it_key f \<longrightarrow> \<not> it_seq f < it_seq e \<and> \<not> it_seq e < it_seq f"
    using item_less [OF assms(1,2)] item_less [OF assms(2,1)] by auto
  moreover from this have "Slice_compare (it_key f) (it_key e) = 0"
    using Slice_compare_sym [of "it_key e" "it_key f"] by linarith
  then have "it_key e = it_key f" by simp
  ultimately show False using assms(3) by auto
qed

lemma Add_holds:
  assumes m: "mt_holds m E" and e: "item_ok e"
    and fresh: "\<And>f. f \<in> set E \<Longrightarrow> (it_key f, it_seq f) \<noteq> (it_key e, it_seq e)"
  shows "\<exists>m' E'. MemTable_Add (it_seq e) (it_type e) (it_key e) (it_value e) m = Some m' \<and>
    mt_holds m' E' \<and> set E' = insert e (set E)"
proof -
  have mt: "mt_compare m = bytewise_mt" "represents bytewise_mt entry_ok (mt_table m) (map item_bytes E)"
    and ok: "list_all item_ok E" and inj: "inj_on (\<lambda>e. (it_key e, it_seq e)) (set E)"
    using m by (simp_all add: mt_holds_def mt_compare_def)
  have "bytewise_mt k (item_bytes e) \<noteq> 0" if "k \<in> set (map item_bytes E)" for k
    using that ok item_neq [OF e] fresh by (auto simp: list_all_iff)
  from mt.Insert_represents [OF mt(2) item_slices(3) [OF e] this] obtain sl' where sl':
    "Insert bytewise_mt (item_bytes e) (mt_table m) = Some sl'"
    "represents bytewise_mt entry_ok sl' (insert_key bytewise_mt (item_bytes e) (map item_bytes E))"
    by blast
  let ?P = "\<lambda>f. bytewise_mt (item_bytes f) (item_bytes e) < 0"
  let ?E = "takeWhile ?P E @ e # dropWhile ?P E"
  have set: "set ?E = insert e (set E)"
    by (metis set_append list.set(2) takeWhile_dropWhile_id Un_insert_right)
  have "insert_key bytewise_mt (item_bytes e) (map item_bytes E) = map item_bytes ?E"
    by (simp add: insert_key_def takeWhile_map dropWhile_map comp_def)
  moreover have "inj_on (\<lambda>e. (it_key e, it_seq e)) (set ?E)"
  proof -
    have "\<forall>f \<in> set E. it_key f = it_key e \<longrightarrow> it_seq f \<noteq> it_seq e" using fresh by blast
    with inj show ?thesis unfolding set by (auto simp: inj_on_def)
  qed
  moreover have "list_all item_ok ?E" using ok e unfolding list_all_iff set by simp
  ultimately have "mt_holds (m\<lparr>mt_table := sl'\<rparr>) ?E"
    using m sl'(2) by (simp add: mt_holds_def)
  then show ?thesis
    using sl'(1) set by (auto simp: MemTable_Add_def mt(1) item_bytes_def)
qed

fun op_items :: "u64 \<Rightarrow> wb_op list \<Rightarrow> mt_item list" where
  "op_items q [] = []"
| "op_items q (Op_Put k v # ops) = \<lparr>it_key = k, it_seq = q, it_type = kTypeValue, it_value = v\<rparr> # op_items (q + 1) ops"
| "op_items q (Op_Delete k # ops) = \<lparr>it_key = k, it_seq = q, it_type = kTypeDeletion, it_value = []\<rparr> # op_items (q + 1) ops"

fun op_small :: "wb_op \<Rightarrow> bool" where
  "op_small (Op_Put k v) \<longleftrightarrow> length k + 8 < 2 ^ 32 \<and> length v < 2 ^ 32"
| "op_small (Op_Delete k) \<longleftrightarrow> length k + 8 < 2 ^ 32"

lemma inserter_step:
  "op_apply MemTableInserter (Op_Put k v) (Some (q, m)) = map_option (\<lambda>m. (q + 1, m)) (MemTable_Add q kTypeValue k v m)"
  "op_apply MemTableInserter (Op_Delete k) (Some (q, m)) = map_option (\<lambda>m. (q + 1, m)) (MemTable_Add q kTypeDeletion k [] m)"
  by (simp_all add: MemTableInserter_def)

lemma inserter_fold:
  assumes "mt_holds m E" "\<And>e. e \<in> set E \<Longrightarrow> it_seq e < q" "list_all op_small ops" "unat q + length ops < 2 ^ 56"
  shows "\<exists>m' E'. fold (op_apply MemTableInserter) ops (Some (q, m)) = Some (q + of_nat (length ops), m') \<and>
    mt_holds m' E' \<and> set E' = set E \<union> set (op_items q ops)"
  using assms
proof (induction ops arbitrary: q m E)
  case Nil
  then show ?case by auto
next
  case (Cons op ops)
  define e where "e = hd (op_items q (op # ops))"
  have e: "it_seq e = q" "op_items q (op # ops) = e # op_items (q + 1) ops"
    "op_apply MemTableInserter op (Some (q, m)) =
      map_option (\<lambda>m. (q + 1, m)) (MemTable_Add (it_seq e) (it_type e) (it_key e) (it_value e) m)"
    by (cases op; simp add: e_def inserter_step del: op_apply.simps)+
  have "q \<le> kMaxSequenceNumber"
    using Cons.prems(4) by (simp add: kMaxSequenceNumber_value word_le_nat_alt)
  then have ok: "item_ok e" using Cons.prems(3) by (cases op) (auto simp: e_def item_ok_def)
  have "(it_key f, it_seq f) \<noteq> (it_key e, it_seq e)" if "f \<in> set E" for f
    using Cons.prems(2) [OF that] e(1) by auto
  from Add_holds [OF Cons.prems(1) ok this] obtain m1 E1 where m1:
    "MemTable_Add (it_seq e) (it_type e) (it_key e) (it_value e) m = Some m1" "mt_holds m1 E1" "set E1 = insert e (set E)"
    by blast
  have q1: "unat (q + 1) = Suc (unat q)" using unat_add_small [of q 1] Cons.prems(4) by simp
  have "it_seq f < q + 1" if "f \<in> set E1" for f
    using that m1(3) e(1) Cons.prems(2) [of f] q1 by (auto simp: word_less_nat_alt)
  moreover have "list_all op_small ops" "unat (q + 1) + length ops < 2 ^ 56"
    using Cons.prems(3,4) q1 by simp_all
  ultimately obtain m' E' where r:
    "fold (op_apply MemTableInserter) ops (Some (q + 1, m1)) = Some (q + 1 + of_nat (length ops), m')"
    "mt_holds m' E'" "set E' = set E1 \<union> set (op_items (q + 1) ops)"
    using Cons.IH [OF m1(2)] by blast
  have "fold (op_apply MemTableInserter) (op # ops) (Some (q, m)) = Some (q + of_nat (length (op # ops)), m')"
    using r(1) by (simp add: e(3) m1(1) add.assoc)
  moreover have "set E' = set E \<union> set (op_items q (op # ops))"
    unfolding r(3) m1(3) e(2) by auto
  ultimately show ?case using r(2) by blast
qed

lemma find_same:
  assumes "mt_holds m E" "mt_holds m' E'" "\<And>f. visible u s f \<Longrightarrow> f \<in> set E \<longleftrightarrow> f \<in> set E'"
  shows "List.find (visible u s) E' = List.find (visible u s) E"
proof (cases "List.find (visible u s) E")
  case None
  then have "List.find (visible u s) E' = None" using assms(3) by (auto simp: find_None_iff)
  with None show ?thesis by simp
next
  case (Some d)
  note d = find_is_newest [OF assms(1) Some]
  have "List.find (visible u s) E' = Some d"
    by (rule find_newest [OF assms(2)]) (use d assms(3) in auto)
  with Some show ?thesis by simp
qed

fun op_key :: "wb_op \<Rightarrow> slice" where
  "op_key (Op_Put k v) = k"
| "op_key (Op_Delete k) = k"

fun op_result :: "wb_op \<Rightarrow> lookup" where
  "op_result (Op_Put k v) = Found v"
| "op_result (Op_Delete k) = Deleted (NotFound [])"

text \<open>The last update of a key in a batch.\<close>

definition last_update :: "slice \<Rightarrow> wb_op list \<Rightarrow> lookup option" where
  "last_update u ops = map_option op_result (List.find (\<lambda>op. op_key op = u) (rev ops))"

lemma length_op_items [simp]: "length (op_items q ops) = length ops"
  by (induction q ops rule: op_items.induct) auto

lemma op_items_nth:
  "i < length ops \<Longrightarrow> it_key (op_items q ops ! i) = op_key (ops ! i) \<and>
    it_seq (op_items q ops ! i) = q + of_nat i \<and> item_lookup (op_items q ops ! i) = op_result (ops ! i)"
proof (induction q ops arbitrary: i rule: op_items.induct)
  case (2 q k v ops)
  then show ?case by (cases i) (auto simp: item_lookup_def)
next
  case (3 q k ops)
  then show ?case by (cases i) (auto simp: item_lookup_def)
qed simp

lemma op_items_seq:
  assumes "f \<in> set (op_items q ops)" "unat q + length ops < 2 ^ 56"
  obtains i where "i < length ops" "f = op_items q ops ! i" "it_key f = op_key (ops ! i)"
    "unat (it_seq f) = unat q + i" "item_lookup f = op_result (ops ! i)"
proof -
  obtain i where i: "i < length ops" "f = op_items q ops ! i"
    using assms(1) by (auto simp: in_set_conv_nth)
  moreover have "unat (q + of_nat i) = unat q + i"
    using assms(2) i(1) by (intro unat_add_small) simp
  ultimately show ?thesis using op_items_nth [OF i(1), of q] by (intro that) simp_all
qed

lemma find_rev_Some:
  assumes "List.find P (rev xs) = Some x"
  obtains i where "i < length xs" "x = xs ! i" "P x" "\<And>j. i < j \<Longrightarrow> j < length xs \<Longrightarrow> \<not> P (xs ! j)"
proof -
  obtain k where k: "k < length xs" "P (rev xs ! k)" "x = rev xs ! k" "\<And>j. j < k \<Longrightarrow> \<not> P (rev xs ! j)"
    using assms by (auto simp: find_Some_iff)
  have "\<not> P (xs ! j)" if "length xs - Suc k < j" "j < length xs" for j
    using k(4) [of "length xs - Suc j"] that by (simp add: rev_nth)
  with k show ?thesis by (intro that [of "length xs - Suc k"]) (auto simp: rev_nth)
qed

lemma find_after_batch:
  assumes m: "mt_holds m E" "mt_holds m' E'" "set E' = set E \<union> set (op_items seq ops)"
    and old: "\<And>e. e \<in> set E \<Longrightarrow> it_seq e < seq" and small: "unat seq + length ops < 2 ^ 56"
    and s: "unat seq + length ops \<le> unat s + 1"
  shows "map_option item_lookup (List.find (visible u s) E') =
    (case last_update u ops of Some r \<Rightarrow> Some r | None \<Rightarrow> map_option item_lookup (List.find (visible u s) E))"
proof (cases "List.find (\<lambda>op. op_key op = u) (rev ops)")
  case None
  then have "op_key op \<noteq> u" if "op \<in> set ops" for op
    using that by (auto simp: find_None_iff)
  then have "\<not> visible u s f" if "f \<in> set (op_items seq ops)" for f
    using op_items_seq [OF that small] by (metis nth_mem visible_def)
  then have "List.find (visible u s) E' = List.find (visible u s) E"
    using m(3) by (intro find_same [OF m(1,2)]) auto
  with None show ?thesis by (simp add: last_update_def)
next
  case (Some op)
  obtain i where i: "i < length ops" "op = ops ! i" "op_key op = u" "\<And>j. i < j \<Longrightarrow> j < length ops \<Longrightarrow> op_key (ops ! j) \<noteq> u"
    by (rule find_rev_Some [OF Some]) blast
  define e where "e = op_items seq ops ! i"
  have e: "it_key e = u" "item_lookup e = op_result op" "e \<in> set (op_items seq ops)"
    using op_items_nth [OF i(1), of seq] i by (simp_all add: e_def)
  have se: "unat (it_seq e) = unat seq + i"
    using op_items_nth [OF i(1), of seq] unat_add_small [of seq i] small i(1) by (simp add: e_def)
  have "List.find (visible u s) E' = Some e"
  proof (rule find_newest [OF m(2)])
    show "e \<in> set E'" using e(3) m(3) by simp
    show "visible u s e" using e(1) se i(1) s by (simp add: visible_def word_le_nat_alt)
    fix f assume f: "f \<in> set E'" "visible u s f"
    show "it_seq f \<le> it_seq e"
    proof (cases "f \<in> set E")
      case True
      then show ?thesis using old [OF True] se by (simp add: word_le_nat_alt word_less_nat_alt)
    next
      case False
      then have "f \<in> set (op_items seq ops)" using f(1) m(3) by blast
      then obtain j where "j < length ops" "it_key f = op_key (ops ! j)" "unat (it_seq f) = unat seq + j"
        by (rule op_items_seq [OF _ small]) blast
      with i(4) [of j] f(2) se show ?thesis by (cases "i < j") (auto simp: visible_def word_le_nat_alt)
    qed
  qed
  then show ?thesis using Some e(2) by (simp add: last_update_def)
qed

section \<open>Properties of the memtable\<close>

text \<open>
  (C16) \<open>Get\<close> ends and returns the newest entry of the key that the snapshot can see: its
  value, or not-found for a deletion; and nothing if there is no such entry. An entry fills
  its buffer exactly.
\<close>

theorem MemTable_Get_newest:
  assumes "mt_holds m E" "s \<le> kMaxSequenceNumber" "length u + 8 < 2 ^ 32"
  shows "(\<forall>e \<in> set E. it_key e = u \<and> it_seq e \<le> s \<longrightarrow>
      (\<forall>f \<in> set E. it_key f = u \<and> it_seq f \<le> s \<longrightarrow> it_seq f \<le> it_seq e) \<longrightarrow>
      MemTable_Get (make_LookupKey u s) m = Some (Some (item_lookup e))) \<and>
    ((\<forall>e \<in> set E. it_key e = u \<longrightarrow> s < it_seq e) \<longrightarrow> MemTable_Get (make_LookupKey u s) m = Some None) \<and>
    (\<forall>e \<in> set E. length (item_bytes e) = encoded_len (it_key e) (it_value e))"
proof (intro conjI ballI impI)
  fix e assume "e \<in> set E" "it_key e = u \<and> it_seq e \<le> s"
    "\<forall>f \<in> set E. it_key f = u \<and> it_seq f \<le> s \<longrightarrow> it_seq f \<le> it_seq e"
  then have "List.find (visible u s) E = Some e"
    by (intro find_newest [OF assms(1)]) (auto simp: visible_def)
  then show "MemTable_Get (make_LookupKey u s) m = Some (Some (item_lookup e))"
    using Get_holds [OF assms] by simp
next
  assume "\<forall>e \<in> set E. it_key e = u \<longrightarrow> s < it_seq e"
  then have "List.find (visible u s) E = None" by (auto simp: find_None_iff visible_def)
  then show "MemTable_Get (make_LookupKey u s) m = Some None" using Get_holds [OF assms] by simp
next
  fix e assume "e \<in> set E"
  then have "item_ok e" using assms(1) by (simp add: mt_holds_def list_all_iff)
  then show "length (item_bytes e) = encoded_len (it_key e) (it_value e)"
    by (simp add: item_bytes_def item_ok_def encoded_len_entry)
qed

text \<open>
  (C15) Writing and reading: after a batch was inserted into the memtable, a look-up at a
  snapshot that includes the batch returns the last update that the batch makes to the key,
  and what it returned before if the batch does not touch the key; older snapshots see no
  change.
\<close>

theorem batch_insert_get:
  assumes "batch_reaches b seq ops" "mt_holds m E" "\<forall>e \<in> set E. it_seq e < seq" "list_all op_small ops"
    and "length ops < 2 ^ 31" "unat seq + length ops < 2 ^ 56"
  shows "\<exists>m'. InsertInto b m = (OK, Some m') \<and>
    (\<forall>u s. length u + 8 < 2 ^ 32 \<and> s \<le> kMaxSequenceNumber \<longrightarrow>
      (unat seq + length ops \<le> unat s + 1 \<longrightarrow>
        MemTable_Get (make_LookupKey u s) m' =
          (case last_update u ops of Some r \<Rightarrow> Some (Some r) | None \<Rightarrow> MemTable_Get (make_LookupKey u s) m)) \<and>
      (s < seq \<longrightarrow> MemTable_Get (make_LookupKey u s) m' = MemTable_Get (make_LookupKey u s) m))"
proof -
  have b: "Iterate MemTableInserter b st = (OK, fold (op_apply MemTableInserter) ops st)" "Sequence b = seq" for st
    using batch_reaches_of [OF assms(1)] Iterate_batch by auto
  obtain m' E' where m': "fold (op_apply MemTableInserter) ops (Some (seq, m)) = Some (seq + of_nat (length ops), m')"
    "mt_holds m' E'" "set E' = set E \<union> set (op_items seq ops)"
    using inserter_fold [OF assms(2) _ assms(4,6)] assms(3) by blast
  have "InsertInto b m = (OK, Some m')" by (simp add: InsertInto_def b m'(1))
  moreover have "MemTable_Get (make_LookupKey u s) m' =
      (case last_update u ops of Some r \<Rightarrow> Some (Some r) | None \<Rightarrow> MemTable_Get (make_LookupKey u s) m)"
    if "length u + 8 < 2 ^ 32" "s \<le> kMaxSequenceNumber" "unat seq + length ops \<le> unat s + 1" for u s
    using find_after_batch [OF assms(2) m'(2,3) _ assms(6) that(3), of u] assms(3)
      Get_holds [OF m'(2) that(2,1)] Get_holds [OF assms(2) that(2,1)]
    by (simp split: option.splits)
  moreover have "MemTable_Get (make_LookupKey u s) m' = MemTable_Get (make_LookupKey u s) m"
    if "length u + 8 < 2 ^ 32" "s \<le> kMaxSequenceNumber" "s < seq" for u s
  proof -
    have "\<not> visible u s f" if f: "f \<in> set (op_items seq ops)" for f
    proof -
      obtain i where "unat (it_seq f) = unat seq + i" by (rule op_items_seq [OF f assms(6)]) blast
      then show ?thesis using \<open>s < seq\<close> by (simp add: visible_def word_le_nat_alt word_less_nat_alt)
    qed
    then have "List.find (visible u s) E' = List.find (visible u s) E"
      using m'(3) by (intro find_same [OF assms(2) m'(2)]) auto
    then show ?thesis using Get_holds [OF m'(2) that(2,1)] Get_holds [OF assms(2) that(2,1)] by simp
  qed
  ultimately show ?thesis by blast
qed

section \<open>Instances\<close>

lemma empty_holds: "mt_holds (make_MemTable BytewiseComparator) []"
  using empty_represents by (simp add: mt_holds_def make_MemTable_def)

theorem MemTable_Get_newest_witness:
  "MemTable_Get (make_LookupKey [1] 7) (make_MemTable BytewiseComparator) = Some None"
  using MemTable_Get_newest [OF empty_holds, of 7 "[1]"] by (simp add: kMaxSequenceNumber_value)

theorem batch_insert_get_witness:
  "\<exists>m. InsertInto (SetSequence (WriteBatch_Delete (WriteBatch_Put WriteBatch_Clear [1] [2, 3]) [4]) 7)
      (make_MemTable BytewiseComparator) = (OK, Some m) \<and>
    MemTable_Get (make_LookupKey [1] 8) m = Some (Some (Found [2, 3])) \<and>
    MemTable_Get (make_LookupKey [4] 8) m = Some (Some (Deleted (NotFound []))) \<and>
    MemTable_Get (make_LookupKey [5] 8) m = Some None"
proof -
  have b: "batch_reaches (SetSequence (WriteBatch_Delete (WriteBatch_Put WriteBatch_Clear [1] [2, 3]) [4]) 7) 7
      (([] @ [Op_Put [1] [2, 3]]) @ [Op_Delete [4]])"
    by (rule batch_reaches.sequence, rule batch_reaches.delete, rule batch_reaches.put,
        rule batch_reaches.clear) simp_all
  have n: "MemTable_Get (make_LookupKey [5] 8) (make_MemTable BytewiseComparator) = Some None"
    using Get_holds [OF empty_holds, of 8 "[5]"] by (simp add: kMaxSequenceNumber_value)
  from batch_insert_get [OF b empty_holds] obtain m where m:
    "InsertInto (SetSequence (WriteBatch_Delete (WriteBatch_Put WriteBatch_Clear [1] [2, 3]) [4]) 7)
      (make_MemTable BytewiseComparator) = (OK, Some m)"
    and g: "\<forall>u s. length u + 8 < 2 ^ 32 \<and> s \<le> kMaxSequenceNumber \<longrightarrow>
      (unat (7 :: u64) + 2 \<le> unat s + 1 \<longrightarrow>
        MemTable_Get (make_LookupKey u s) m =
          (case last_update u [Op_Put [1] [2, 3], Op_Delete [4]] of Some r \<Rightarrow> Some (Some r)
           | None \<Rightarrow> MemTable_Get (make_LookupKey u s) (make_MemTable BytewiseComparator)))"
    by auto
  show ?thesis
    using m g [rule_format, of "[1]" 8] g [rule_format, of "[4]" 8] g [rule_format, of "[5]" 8] n
    by (simp add: last_update_def kMaxSequenceNumber_value)
qed

end
