(* ===== verification/Ldb_Env.thy ===== *)
theory Ldb_Env
  imports Ldb_Logging "HOL-Library.Monad_Syntax"
begin

text \<open>
  The file interfaces of \<^verbatim>\<open>leveldb/env.h\<close> that the log uses, their contracts as locales, and
  the implementations of \<^verbatim>\<open>util/env_posix.cc\<close>. The operating system is a parameter, the record
  \<open>posix\<close> of its calls; what the code relies on is the locale \<open>posix_disk\<close>. A call that
  retries after interruptions may fail to return; \<open>None\<close> stands for that.
\<close>

section \<open>The interfaces\<close>

text \<open>
  \<open>Read\<close> is given the previous value of \<open>*result\<close>, since an implementation may leave it.
\<close>

record 'f sequential_file =
  sf_Read :: "nat \<Rightarrow> slice \<Rightarrow> 'f \<Rightarrow> (Status \<times> slice \<times> 'f) option"
  sf_Skip :: "u64 \<Rightarrow> 'f \<Rightarrow> (Status \<times> 'f) option"

record 'f writable_file =
  wf_Append :: "slice \<Rightarrow> 'f \<Rightarrow> (Status \<times> 'f) option"
  wf_Close :: "'f \<Rightarrow> (Status \<times> 'f) option"
  wf_Flush :: "'f \<Rightarrow> (Status \<times> 'f) option"
  wf_Sync :: "'f \<Rightarrow> (Status \<times> 'f) option"

section \<open>POSIX files\<close>

text \<open>
  The system calls, on a state that holds everything outside the process, \<open>errno\<close> included.
  \<open>px_read\<close> also returns the bytes that it stored.
\<close>

record 'o posix =
  px_read :: "int \<Rightarrow> nat \<Rightarrow> 'o \<Rightarrow> int \<times> byte list \<times> 'o"
  px_write :: "int \<Rightarrow> byte list \<Rightarrow> 'o \<Rightarrow> int \<times> 'o"
  px_lseek :: "int \<Rightarrow> u64 \<Rightarrow> 'o \<Rightarrow> int \<times> 'o"
  px_open :: "byte list \<Rightarrow> 'o \<Rightarrow> int \<times> 'o"
  px_close :: "int \<Rightarrow> 'o \<Rightarrow> int \<times> 'o"
  px_full_fsync :: "int \<Rightarrow> 'o \<Rightarrow> int \<times> 'o"
  px_fsync :: "int \<Rightarrow> 'o \<Rightarrow> int \<times> 'o"
  px_errno :: "'o \<Rightarrow> int"
  px_strerror :: "int \<Rightarrow> byte list"

definition ENOENT :: int where
  "ENOENT = 2"

definition EINTR :: int where
  "EINTR = 4"

definition EINVAL :: int where
  "EINVAL = 22"

definition PosixError :: "'o posix \<Rightarrow> byte list \<Rightarrow> int \<Rightarrow> Status" where
  "PosixError px context error_number =
     (if error_number = ENOENT then NotFound2 context (px_strerror px error_number)
      else IOError context (px_strerror px error_number))"

definition Basename :: "byte list \<Rightarrow> slice" where
  "Basename filename = rev (takeWhile (\<lambda>c. c \<noteq> 47) (rev filename))"

definition Dirname :: "byte list \<Rightarrow> byte list" where
  "Dirname filename =
     (if 47 \<notin> set filename then lit ''.''
      else take (length filename - length (Basename filename) - 1) filename)"

definition IsManifest :: "byte list \<Rightarrow> bool" where
  "IsManifest filename = starts_with (Basename filename) (lit ''MANIFEST'')"

subsection \<open>Reading\<close>

partial_function (option) seq_read_loop ::
  "'o posix \<Rightarrow> int \<Rightarrow> byte list \<Rightarrow> nat \<Rightarrow> slice \<Rightarrow> 'o \<Rightarrow> (Status \<times> slice \<times> 'o) option" where
  "seq_read_loop px fd filename n result w =
     (case px_read px fd n w of (read_size, scratch, w) \<Rightarrow>
        if read_size < 0 then
          if px_errno px w = EINTR then seq_read_loop px fd filename n result w
          else Some (PosixError px filename (px_errno px w), result, w)
        else Some (OK, take (nat read_size) scratch, w))"

definition PosixSequentialFile :: "'o posix \<Rightarrow> int \<Rightarrow> byte list \<Rightarrow> 'o sequential_file" where
  "PosixSequentialFile px fd filename =
     \<lparr>sf_Read = seq_read_loop px fd filename,
      sf_Skip = (\<lambda>n w. case px_lseek px fd n w of (r, w) \<Rightarrow>
        Some (if r = - 1 then PosixError px filename (px_errno px w) else OK, w))\<rparr>"

text \<open>
  \<open>PosixMmapReadableFile::Read\<close> on the mapped bytes; \<open>None\<close> is an access outside of them.
\<close>

definition Mmap_Read :: "'o posix \<Rightarrow> byte list \<Rightarrow> byte list \<Rightarrow> u64 \<Rightarrow> u64 \<Rightarrow> (Status \<times> slice) option" where
  "Mmap_Read px filename mapped offset n =
     (if offset + n > of_nat (length mapped) then Some (PosixError px filename EINVAL, [])
      else if unat offset + unat n \<le> length mapped then Some (OK, take (unat n) (drop (unat offset) mapped))
      else None)"

subsection \<open>Writing\<close>

definition kWritableFileBufferSize :: nat where
  "kWritableFileBufferSize = 65536"

text \<open>\<open>pw_buf\<close> holds \<open>buf_[0, pos_ - 1]\<close>; \<open>pw_world\<close> is the state of the system.\<close>

record 'o posix_wfile =
  pw_buf :: "byte list"
  pw_fd :: int
  pw_filename :: "byte list"
  pw_world :: 'o

definition PosixWritableFile :: "byte list \<Rightarrow> int \<Rightarrow> 'o \<Rightarrow> 'o posix_wfile" where
  "PosixWritableFile filename fd w = \<lparr>pw_buf = [], pw_fd = fd, pw_filename = filename, pw_world = w\<rparr>"

partial_function (option) write_loop ::
  "'o posix \<Rightarrow> int \<Rightarrow> byte list \<Rightarrow> byte list \<Rightarrow> 'o \<Rightarrow> (Status \<times> 'o) option" where
  "write_loop px fd filename data w =
     (if length data > 0 then
        case px_write px fd data w of (write_result, w) \<Rightarrow>
          if write_result < 0 then
            if px_errno px w = EINTR then write_loop px fd filename data w
            else Some (PosixError px filename (px_errno px w), w)
          else write_loop px fd filename (drop (nat write_result) data) w
      else Some (OK, w))"

definition WriteUnbuffered :: "'o posix \<Rightarrow> byte list \<Rightarrow> 'o posix_wfile \<Rightarrow> (Status \<times> 'o posix_wfile) option" where
  "WriteUnbuffered px data f =
     do { (st, w) \<leftarrow> write_loop px (pw_fd f) (pw_filename f) data (pw_world f);
          Some (st, f\<lparr>pw_world := w\<rparr>) }"

definition FlushBuffer :: "'o posix \<Rightarrow> 'o posix_wfile \<Rightarrow> (Status \<times> 'o posix_wfile) option" where
  "FlushBuffer px f =
     do { (status, f) \<leftarrow> WriteUnbuffered px (pw_buf f) f; Some (status, f\<lparr>pw_buf := []\<rparr>) }"

definition Posix_Append :: "'o posix \<Rightarrow> slice \<Rightarrow> 'o posix_wfile \<Rightarrow> (Status \<times> 'o posix_wfile) option" where
  "Posix_Append px data f =
     (let copy_size = min (length data) (kWritableFileBufferSize - length (pw_buf f));
          f = f\<lparr>pw_buf := pw_buf f @ take copy_size data\<rparr>;
          write_data = drop copy_size data
      in if write_data = [] then Some (OK, f)
         else do { (status, f) \<leftarrow> FlushBuffer px f;
                   if \<not> Status_ok status then Some (status, f)
                   else if length write_data < kWritableFileBufferSize then Some (OK, f\<lparr>pw_buf := write_data\<rparr>)
                   else WriteUnbuffered px write_data f })"

definition Posix_Close :: "'o posix \<Rightarrow> 'o posix_wfile \<Rightarrow> (Status \<times> 'o posix_wfile) option" where
  "Posix_Close px f =
     do { (status, f) \<leftarrow> FlushBuffer px f;
          case px_close px (pw_fd f) (pw_world f) of (close_result, w) \<Rightarrow>
            let status = (if close_result < 0 \<and> Status_ok status then PosixError px (pw_filename f) (px_errno px w)
                          else status)
            in Some (status, f\<lparr>pw_fd := - 1, pw_world := w\<rparr>) }"

text \<open>The build defines \<^verbatim>\<open>HAVE_FULLFSYNC\<close> and not \<^verbatim>\<open>HAVE_FDATASYNC\<close>.\<close>

definition SyncFd :: "'o posix \<Rightarrow> int \<Rightarrow> byte list \<Rightarrow> 'o \<Rightarrow> Status \<times> 'o" where
  "SyncFd px fd fd_path w =
     (case px_full_fsync px fd w of (r, w) \<Rightarrow>
        if r = 0 then (OK, w)
        else case px_fsync px fd w of (r, w) \<Rightarrow>
          if r = 0 then (OK, w) else (PosixError px fd_path (px_errno px w), w))"

definition SyncDirIfManifest :: "'o posix \<Rightarrow> 'o posix_wfile \<Rightarrow> Status \<times> 'o posix_wfile" where
  "SyncDirIfManifest px f =
     (if \<not> IsManifest (pw_filename f) then (OK, f)
      else let dirname = Dirname (pw_filename f)
           in case px_open px dirname (pw_world f) of (fd, w) \<Rightarrow>
                if fd < 0 then (PosixError px dirname (px_errno px w), f\<lparr>pw_world := w\<rparr>)
                else case SyncFd px fd dirname w of (status, w) \<Rightarrow>
                  (status, f\<lparr>pw_world := snd (px_close px fd w)\<rparr>))"

definition Posix_Sync :: "'o posix \<Rightarrow> 'o posix_wfile \<Rightarrow> (Status \<times> 'o posix_wfile) option" where
  "Posix_Sync px f =
     (case SyncDirIfManifest px f of (status, f) \<Rightarrow>
        if \<not> Status_ok status then Some (status, f)
        else do { (status, f) \<leftarrow> FlushBuffer px f;
                  if \<not> Status_ok status then Some (status, f)
                  else case SyncFd px (pw_fd f) (pw_filename f) (pw_world f) of (status, w) \<Rightarrow>
                    Some (status, f\<lparr>pw_world := w\<rparr>) })"

definition posix_writable :: "'o posix \<Rightarrow> 'o posix_wfile writable_file" where
  "posix_writable px =
     \<lparr>wf_Append = Posix_Append px, wf_Close = Posix_Close px, wf_Flush = FlushBuffer px, wf_Sync = Posix_Sync px\<rparr>"

section \<open>Contracts\<close>

lemma take_min: "take (min (length xs) n) xs = take n xs" "take (min n (length xs)) xs = take n xs"
  by (simp_all add: min_def)

text \<open>A client that appends several strings and stops at the first error.\<close>

primrec append_all :: "'f writable_file \<Rightarrow> slice list \<Rightarrow> 'f \<Rightarrow> (Status \<times> 'f) option" where
  "append_all dest [] f = Some (OK, f)"
| "append_all dest (s # ss) f =
     do { (st, f) \<leftarrow> wf_Append dest s f; if Status_ok st then append_all dest ss f else Some (st, f) }"

text \<open>
  A writable file on which no I/O error occurs: \<open>content\<close> is what was appended, \<open>stored\<close> the
  part of it that has reached the file. Flushing stores everything.
\<close>

locale writable_contract =
  fixes dest :: "'f writable_file" and good :: "'f \<Rightarrow> bool" and content stored :: "'f \<Rightarrow> byte list"
  assumes append: "good f \<Longrightarrow> \<exists>f'. wf_Append dest s f = Some (OK, f') \<and> good f' \<and> content f' = content f @ s"
    and flush: "good f \<Longrightarrow> \<exists>f'. wf_Flush dest f = Some (OK, f') \<and> good f' \<and> content f' = content f \<and> stored f' = content f"
begin

lemma append_all_ok:
  "good f \<Longrightarrow> \<exists>f'. append_all dest ss f = Some (OK, f') \<and> good f' \<and> content f' = content f @ concat ss"
proof (induction ss arbitrary: f)
  case (Cons s ss)
  obtain f1 where "wf_Append dest s f = Some (OK, f1)" "good f1" "content f1 = content f @ s"
    using append [OF Cons.prems] by blast
  with Cons.IH [of f1] show ?case by auto
qed simp

end

text \<open>
  A file that is read sequentially without errors: \<open>rest\<close> is what is left to read, and a
  read is short at the end of the file only; skipping stops at the end.
\<close>

locale sequential_contract =
  fixes src :: "'f sequential_file" and fine :: "'f \<Rightarrow> bool" and rest :: "'f \<Rightarrow> byte list"
  assumes read: "fine f \<Longrightarrow> \<exists>f'. sf_Read src n r f = Some (OK, take n (rest f), f') \<and> fine f' \<and> rest f' = drop n (rest f)"
    and skip: "fine f \<Longrightarrow> \<exists>f'. sf_Skip src m f = Some (OK, f') \<and> fine f' \<and> rest f' = drop (unat m) (rest f)"

text \<open>
  What POSIX promises of a descriptor on a healthy disk: \<open>write\<close> takes a non-empty prefix of
  the data, \<open>read\<close> on a regular file returns as much as there is, and both may be
  interrupted, but not forever; seeking forward succeeds.
\<close>

definition wfile_good :: "('o \<Rightarrow> bool) \<Rightarrow> int \<Rightarrow> 'o posix_wfile \<Rightarrow> bool" where
  "wfile_good healthy fd f \<longleftrightarrow>
     healthy (pw_world f) \<and> pw_fd f = fd \<and> length (pw_buf f) \<le> kWritableFileBufferSize"

definition wfile_content :: "('o \<Rightarrow> byte list) \<Rightarrow> 'o posix_wfile \<Rightarrow> byte list" where
  "wfile_content disk f = disk (pw_world f) @ pw_buf f"

definition wfile_stored :: "('o \<Rightarrow> byte list) \<Rightarrow> 'o posix_wfile \<Rightarrow> byte list" where
  "wfile_stored disk f = disk (pw_world f)"

locale posix_disk =
  fixes px :: "'o posix" and fd :: int and healthy :: "'o \<Rightarrow> bool" and patience :: "'o \<Rightarrow> nat"
    and disk unread :: "'o \<Rightarrow> byte list"
  assumes write_call: "healthy w \<Longrightarrow> data \<noteq> [] \<Longrightarrow> px_write px fd data w = (r, w') \<Longrightarrow>
      healthy w' \<and>
      (r < 0 \<and> px_errno px w' = EINTR \<and> disk w' = disk w \<and> patience w' < patience w \<or>
       0 < r \<and> r \<le> int (length data) \<and> disk w' = disk w @ take (nat r) data)"
    and read_call: "healthy w \<Longrightarrow> px_read px fd n w = (r, bs, w') \<Longrightarrow>
      healthy w' \<and>
      (r < 0 \<and> px_errno px w' = EINTR \<and> unread w' = unread w \<and> patience w' < patience w \<or>
       r = int (length bs) \<and> bs = take n (unread w) \<and> unread w' = drop n (unread w))"
    and lseek_call: "healthy w \<Longrightarrow> px_lseek px fd m w = (r', w') \<Longrightarrow>
      healthy w' \<and> r' \<noteq> - 1 \<and> unread w' = drop (unat m) (unread w)"
begin

lemma write_loop_ok:
  "healthy w \<Longrightarrow> \<exists>w'. write_loop px fd name data w = Some (OK, w') \<and> healthy w' \<and> disk w' = disk w @ data"
proof (induction "(length data, patience w)" arbitrary: data w rule: wf_induct_rule [OF wf_lex_prod [OF wf_less wf_less]])
  case (1 data w)
  show ?case
  proof (cases "data = []")
    case False
    obtain r w1 where call: "px_write px fd data w = (r, w1)" by fastforce
    from write_call [OF \<open>healthy w\<close> False call] consider
        "healthy w1" "r < 0" "px_errno px w1 = EINTR" "disk w1 = disk w" "patience w1 < patience w"
      | "healthy w1" "0 < r" "r \<le> int (length data)" "disk w1 = disk w @ take (nat r) data" by blast
    then show ?thesis
    proof cases
      case 1
      with "1.hyps" [of data w1] False call show ?thesis by (simp add: write_loop.simps [of px fd name data w])
    next
      case 2
      then have "length (drop (nat r) data) < length data" using False by simp
      with "1.hyps" [of "drop (nat r) data" w1] 2 False call show ?thesis
        by (auto simp: write_loop.simps [of px fd name data w])
    qed
  qed (use 1 in \<open>simp add: write_loop.simps\<close>)
qed

lemma read_loop_ok:
  "healthy w \<Longrightarrow> \<exists>w'. seq_read_loop px fd name n r w = Some (OK, take n (unread w), w') \<and>
     healthy w' \<and> unread w' = drop n (unread w)"
proof (induction "patience w" arbitrary: w rule: less_induct)
  case less
  obtain k bs w1 where call: "px_read px fd n w = (k, bs, w1)" by (metis prod_cases3)
  from read_call [OF less.prems call] consider
      "healthy w1" "k < 0" "px_errno px w1 = EINTR" "unread w1 = unread w" "patience w1 < patience w"
    | "healthy w1" "k = int (length bs)" "bs = take n (unread w)" "unread w1 = drop n (unread w)" by blast
  then show ?case
  proof cases
    case 1
    with less.hyps [of w1] call show ?thesis by (simp add: seq_read_loop.simps [of px fd name n r w])
  next
    case 2
    with call show ?thesis by (simp add: seq_read_loop.simps [of px fd name n r w] take_min)
  qed
qed

lemma WriteUnbuffered_ok:
  assumes "healthy (pw_world f)" "pw_fd f = fd"
  shows "\<exists>w. WriteUnbuffered px data f = Some (OK, f\<lparr>pw_world := w\<rparr>) \<and> healthy w \<and> disk w = disk (pw_world f) @ data"
  using write_loop_ok [OF assms(1), of "pw_filename f" data] assms(2) by (auto simp: WriteUnbuffered_def)

lemma FlushBuffer_ok:
  assumes "healthy (pw_world f)" "pw_fd f = fd"
  shows "\<exists>w. FlushBuffer px f = Some (OK, f\<lparr>pw_world := w, pw_buf := []\<rparr>) \<and> healthy w \<and>
    disk w = disk (pw_world f) @ pw_buf f"
  using WriteUnbuffered_ok [OF assms, of "pw_buf f"] by (auto simp: FlushBuffer_def)

end

sublocale posix_disk \<subseteq> wfile: writable_contract "posix_writable px" "wfile_good healthy fd" "wfile_content disk" "wfile_stored disk"
proof
  fix f and s :: slice assume g: "wfile_good healthy fd f"
  let ?n = "min (length s) (kWritableFileBufferSize - length (pw_buf f))"
  let ?f = "f\<lparr>pw_buf := pw_buf f @ take ?n s\<rparr>"
  have h: "healthy (pw_world ?f)" "pw_fd ?f = fd" using g by (simp_all add: wfile_good_def)
  obtain w where w: "FlushBuffer px ?f = Some (OK, ?f\<lparr>pw_world := w, pw_buf := []\<rparr>)" "healthy w"
      "disk w = disk (pw_world f) @ pw_buf f @ take ?n s"
    using FlushBuffer_ok [OF h] by auto
  let ?g = "?f\<lparr>pw_world := w, pw_buf := []\<rparr>"
  obtain w2 where w2: "WriteUnbuffered px (drop ?n s) ?g = Some (OK, ?g\<lparr>pw_world := w2\<rparr>)" "healthy w2"
      "disk w2 = disk w @ drop ?n s"
    using WriteUnbuffered_ok [of ?g "drop ?n s"] h w(2) by auto
  show "\<exists>f'. wf_Append (posix_writable px) s f = Some (OK, f') \<and> wfile_good healthy fd f' \<and>
      wfile_content disk f' = wfile_content disk f @ s"
  proof (cases "drop ?n s = []")
    case True
    then have "take ?n s = s" by (simp add: min_def split: if_splits)
    with True show ?thesis
      using g by (auto simp: posix_writable_def Posix_Append_def Let_def wfile_good_def wfile_content_def)
  next
    case False
    then show ?thesis
      using g w w2 by (cases "length (drop ?n s) < kWritableFileBufferSize")
        (auto simp: posix_writable_def Posix_Append_def Let_def wfile_good_def wfile_content_def simp del: drop_eq_Nil)
  qed
  show "\<exists>f'. wf_Flush (posix_writable px) f = Some (OK, f') \<and> wfile_good healthy fd f' \<and>
      wfile_content disk f' = wfile_content disk f \<and> wfile_stored disk f' = wfile_content disk f"
    using FlushBuffer_ok [of f] g by (auto simp: posix_writable_def wfile_good_def wfile_content_def wfile_stored_def)
qed

context posix_disk
begin

lemma axioms_wfile: "writable_contract (posix_writable px) (wfile_good healthy fd) (wfile_content disk) (wfile_stored disk)"
  by (rule wfile.writable_contract_axioms)

end

sublocale posix_disk \<subseteq> sfile: sequential_contract "PosixSequentialFile px fd name" healthy unread for name
  by unfold_locales
     (use read_loop_ok lseek_call in \<open>fastforce simp: PosixSequentialFile_def split: prod.splits\<close>)+

section \<open>A disk\<close>

text \<open>
  A concrete system to run on: one file, and a schedule that says how many bytes each call
  may transfer at most, 0 standing for an interruption.
\<close>

record disk_state =
  ds_file :: "byte list"
  ds_unread :: "byte list"
  ds_schedule :: "nat list"

definition disk_write :: "byte list \<Rightarrow> disk_state \<Rightarrow> int \<times> disk_state" where
  "disk_write data w =
     (case ds_schedule w of
        [] \<Rightarrow> (int (length data), w\<lparr>ds_file := ds_file w @ data\<rparr>)
      | n # ns \<Rightarrow>
          if n = 0 then (- 1, w\<lparr>ds_schedule := ns\<rparr>)
          else (int (min n (length data)), w\<lparr>ds_file := ds_file w @ take n data, ds_schedule := ns\<rparr>))"

definition disk_read :: "nat \<Rightarrow> disk_state \<Rightarrow> int \<times> byte list \<times> disk_state" where
  "disk_read n w =
     (case ds_schedule w of
        0 # ns \<Rightarrow> (- 1, [], w\<lparr>ds_schedule := ns\<rparr>)
      | _ \<Rightarrow> (int (length (take n (ds_unread w))), take n (ds_unread w), w\<lparr>ds_unread := drop n (ds_unread w)\<rparr>))"

definition disk_posix :: "disk_state posix" where
  "disk_posix =
     \<lparr>px_read = (\<lambda>_. disk_read), px_write = (\<lambda>_. disk_write), px_lseek = (\<lambda>_ n w. (0, w\<lparr>ds_unread := drop (unat n) (ds_unread w)\<rparr>)),
      px_open = (\<lambda>_ w. (3, w)), px_close = (\<lambda>_ w. (0, w)), px_full_fsync = (\<lambda>_ w. (0, w)), px_fsync = (\<lambda>_ w. (0, w)),
      px_errno = (\<lambda>_. EINTR), px_strerror = (\<lambda>_. [])\<rparr>"

interpretation disk: posix_disk disk_posix fd "\<lambda>_. True" "\<lambda>w. length (ds_schedule w)" ds_file ds_unread for fd
  by unfold_locales
     (auto simp: disk_posix_def disk_write_def disk_read_def take_min split: list.splits if_splits nat.splits)

section \<open>Properties of files\<close>

text \<open>
  (C31) Buffered writing loses and reorders nothing: on a healthy descriptor, whatever the
  sizes of the writes and however the system splits and interrupts them, each \<open>Append\<close>
  returns success, and after a \<open>Flush\<close> the file holds exactly what was appended.
\<close>

theorem posix_append_flush:
  assumes "posix_disk px fd healthy patience disk unread" "healthy w"
  shows "\<exists>f f'. append_all (posix_writable px) ss (PosixWritableFile name fd w) = Some (OK, f) \<and>
      wf_Flush (posix_writable px) f = Some (OK, f') \<and> disk (pw_world f') = disk w @ concat ss"
proof -
  have "wfile_good healthy fd (PosixWritableFile name fd w)"
    using assms(2) by (simp add: wfile_good_def PosixWritableFile_def)
  note all = writable_contract.append_all_ok [OF posix_disk.axioms_wfile [OF assms(1)] this, of ss]
  then obtain f where f: "append_all (posix_writable px) ss (PosixWritableFile name fd w) = Some (OK, f)"
      "wfile_good healthy fd f" "wfile_content disk f = disk w @ concat ss"
    by (auto simp: wfile_content_def PosixWritableFile_def)
  with writable_contract.flush [OF posix_disk.axioms_wfile [OF assms(1)] f(2)] show ?thesis
    by (auto simp: wfile_stored_def)
qed

section \<open>Instances\<close>

theorem posix_append_flush_witness:
  "\<exists>f f'. append_all (posix_writable disk_posix) [[1, 2], [3]]
      (PosixWritableFile [97] 3 \<lparr>ds_file = [9], ds_unread = [], ds_schedule = [1, 0]\<rparr>) = Some (OK, f) \<and>
    wf_Flush (posix_writable disk_posix) f = Some (OK, f') \<and> ds_file (pw_world f') = [9, 1, 2, 3]"
  using posix_append_flush [OF disk.posix_disk_axioms [of 3] TrueI,
      of "[[1, 2], [3]]" "[97]" "\<lparr>ds_file = [9], ds_unread = [], ds_schedule = [1, 0]\<rparr>"]
  by simp

end
