(* ===== verification/Ldb_Crc32c.thy ===== *)
theory Ldb_Crc32c
  imports Ldb_Coding Ldb_Crc32c_Tables
begin

text \<open>
  \<^verbatim>\<open>util/crc32c.cc\<close> and \<^verbatim>\<open>util/crc32c.h\<close>: the checksum of log records and table blocks. The
  build does not define \<^verbatim>\<open>HAVE_CRC32C\<close>, so \<open>port::AcceleratedCRC32C\<close> returns 0 and the
  portable code runs: single bytes up to a 4-byte boundary, then four interleaved strides
  of words, then single bytes again. The data is the list of its bytes; where the strides
  begin depends on the address.
\<close>

section \<open>The portable implementation\<close>

definition kCRC32Xor :: u32 where
  "kCRC32Xor = 0xffffffff"

definition ReadUint32LE :: "byte list \<Rightarrow> u32" where
  "ReadUint32LE buffer = DecodeFixed32 buffer"

definition RoundUp4 :: "addr \<Rightarrow> addr" where
  "RoundUp4 pointer = (pointer + 3) AND NOT 3"

definition AcceleratedCRC32C :: "u32 \<Rightarrow> byte list \<Rightarrow> u32" where
  "AcceleratedCRC32C crc buf = 0"

text \<open>The bytes of \<^verbatim>\<open>"TestCRCBuffer"\<close>.\<close>

definition CanAccelerateCRC32C :: bool where
  "CanAccelerateCRC32C \<longleftrightarrow>
     AcceleratedCRC32C 0 [0x54, 0x65, 0x73, 0x74, 0x43, 0x52, 0x43, 0x42, 0x75, 0x66, 0x66, 0x65, 0x72] = 0xdcbc59fa"

definition STEP1 :: "u32 \<Rightarrow> byte \<Rightarrow> u32" where
  "STEP1 l b = (let c = (l AND 0xff) XOR ucast b in kByteExtensionTable ! unat c XOR drop_bit 8 l)"

text \<open>Bytes one at a time.\<close>

definition crc_bytes :: "u32 \<Rightarrow> byte list \<Rightarrow> u32" where
  "crc_bytes l p = foldl STEP1 l p"

text \<open>\<open>STEP4\<close> for one stride, with the word at \<open>p\<close>.\<close>

definition STEP4 :: "u32 \<Rightarrow> byte list \<Rightarrow> u32" where
  "STEP4 crc p =
     ReadUint32LE p XOR kStrideExtensionTable3 ! unat (crc AND 0xff) XOR
     kStrideExtensionTable2 ! unat (drop_bit 8 crc AND 0xff) XOR
     kStrideExtensionTable1 ! unat (drop_bit 16 crc AND 0xff) XOR
     kStrideExtensionTable0 ! unat (drop_bit 24 crc)"

type_synonym strides = "u32 \<times> u32 \<times> u32 \<times> u32"

function strides16 :: "strides \<Rightarrow> byte list \<Rightarrow> strides \<times> byte list" where
  "strides16 c p =
     (if length p \<ge> 16 then
        (case c of (crc0, crc1, crc2, crc3) \<Rightarrow>
           strides16 (STEP4 crc0 p, STEP4 crc1 (drop 4 p), STEP4 crc2 (drop 8 p), STEP4 crc3 (drop 12 p)) (drop 16 p))
      else (c, p))"
  by pat_completeness auto
termination by (relation "measure (\<lambda>(c, p). length p)") auto

declare strides16.simps [simp del]

function strides4 :: "strides \<Rightarrow> byte list \<Rightarrow> strides \<times> byte list" where
  "strides4 c p =
     (if length p \<ge> 4 then
        (case c of (crc0, crc1, crc2, crc3) \<Rightarrow> strides4 (crc1, crc2, crc3, STEP4 crc0 p) (drop 4 p))
      else (c, p))"
  by pat_completeness auto
termination by (relation "measure (\<lambda>(c, p). length p)") auto

declare strides4.simps [simp del]

definition STEP4W :: "u32 \<Rightarrow> u32 \<Rightarrow> u32" where
  "STEP4W w l = ((\<lambda>w. drop_bit 8 w XOR kByteExtensionTable ! unat (w AND 0xff)) ^^ 4) (w XOR l)"

definition crc_words :: "u32 \<Rightarrow> byte list \<Rightarrow> u32 \<times> byte list" where
  "crc_words l p =
     (if length p \<ge> 16 then
        let crc0 = ReadUint32LE p XOR l; crc1 = ReadUint32LE (drop 4 p);
            crc2 = ReadUint32LE (drop 8 p); crc3 = ReadUint32LE (drop 12 p); p = drop 16 p;
            (c, p) = strides16 (crc0, crc1, crc2, crc3) p;
            (c, p) = strides4 c p
        in case c of (crc0, crc1, crc2, crc3) \<Rightarrow>
             let l = 0; l = STEP4W crc0 l; l = STEP4W crc1 l; l = STEP4W crc2 l; l = STEP4W crc3 l
             in (l, p)
      else (l, p))"

definition Extend :: "addr \<Rightarrow> u32 \<Rightarrow> byte list \<Rightarrow> u32" where
  "Extend p crc data =
     (if CanAccelerateCRC32C then AcceleratedCRC32C crc data
      else let l = crc XOR kCRC32Xor; x = unat (RoundUp4 p - p);
               (l, data) = (if x \<le> length data then (crc_bytes l (take x data), drop x data) else (l, data));
               (l, data) = crc_words l data;
               l = crc_bytes l data
           in l XOR kCRC32Xor)"

definition Value :: "addr \<Rightarrow> byte list \<Rightarrow> u32" where
  "Value p data = Extend p 0 data"

definition kMaskDelta :: u32 where
  "kMaskDelta = 0xa282ead8"

definition Mask :: "u32 \<Rightarrow> u32" where
  "Mask crc = (drop_bit 15 crc OR push_bit 17 crc) + kMaskDelta"

definition Unmask :: "u32 \<Rightarrow> u32" where
  "Unmask masked_crc = (let rot = masked_crc - kMaskDelta in drop_bit 17 rot OR push_bit 15 rot)"

end
