(* ===== verification/Ldb_Crc32c_Spec.thy ===== *)
theory Ldb_Crc32c_Spec
  imports Ldb_Crc32c
begin

text \<open>
  The checksum of \<^verbatim>\<open>util/crc32c.cc\<close> against its reference, a shift register that consumes one
  bit at a time. The step is linear, so a table of 256 values is determined by the values
  of eight single bits; those are evaluated, and everything else follows from linearity.
\<close>

section \<open>The reference: bit by bit\<close>

text \<open>
  The Castagnoli polynomial, reflected: a right shift that feeds back when a 1 falls out.
\<close>

definition crc_bit :: "u32 \<Rightarrow> u32" where
  "crc_bit w = drop_bit 1 w XOR (if bit w 0 then 0x82f63b78 else 0)"

primrec crc_bits :: "nat \<Rightarrow> u32 \<Rightarrow> u32" where
  "crc_bits 0 w = w"
| "crc_bits (Suc n) w = crc_bits n (crc_bit w)"

definition crc32c_spec :: "u32 \<Rightarrow> byte list \<Rightarrow> u32" where
  "crc32c_spec crc data = foldl (\<lambda>l b. crc_bits 8 (l XOR ucast b)) (crc XOR kCRC32Xor) data XOR kCRC32Xor"

definition linear :: "(u32 \<Rightarrow> u32) \<Rightarrow> bool" where
  "linear f \<longleftrightarrow> f 0 = 0 \<and> (\<forall>a b. f (a XOR b) = f a XOR f b)"

lemma linear_crc_bit: "linear crc_bit"
  by (auto simp: linear_def crc_bit_def drop_bit_xor bit_xor_iff ac_simps)

lemma linear_crc_bits: "linear (crc_bits n)"
proof (induction n)
  case 0
  then show ?case by (simp add: linear_def)
next
  case (Suc n)
  then show ?case using linear_crc_bit by (simp add: linear_def)
qed

lemma crc_bits_add: "crc_bits (m + n) w = crc_bits n (crc_bits m w)"
  by (induction m arbitrary: w) auto

lemma crc_bits_xor: "crc_bits n (a XOR b) = crc_bits n a XOR crc_bits n b" "crc_bits n 0 = 0"
  using linear_crc_bits [of n] by (simp_all add: linear_def)

text \<open>Tables of linear functions: the value at an index is the sum of the values of its bits.\<close>

fun xor_table :: "u32 list \<Rightarrow> u32 list" where
  "xor_table [] = [0]"
| "xor_table (b # bs) = concat (map (\<lambda>v. [v, b XOR v]) (xor_table bs))"

fun xor_sum :: "u32 list \<Rightarrow> nat \<Rightarrow> u32" where
  "xor_sum [] i = 0"
| "xor_sum (b # bs) i = (if odd i then b else 0) XOR xor_sum bs (i div 2)"

lemma nth_pairs: "i < 2 * length vs \<Longrightarrow> concat (map (\<lambda>v. [v, b XOR v]) vs) ! i = (if odd i then b else 0) XOR vs ! (i div 2)"
proof (induction vs arbitrary: i)
  case (Cons v vs)
  consider "i = 0" | "i = 1" | j where "i = Suc (Suc j)"
    by (metis One_nat_def not0_implies_Suc)
  then show ?case using Cons by cases auto
qed simp

lemma length_xor_table: "length (xor_table bs) = 2 ^ length bs"
  by (induction bs) (simp_all add: length_concat comp_def sum_list_triv)

lemma nth_xor_table: "i < 2 ^ length bs \<Longrightarrow> xor_table bs ! i = xor_sum bs i"
proof (induction bs arbitrary: i)
  case (Cons b bs)
  then have "i div 2 < 2 ^ length bs" by (simp add: less_mult_imp_div_less mult.commute)
  with Cons show ?case by (simp add: nth_pairs length_xor_table)
qed simp

lemma push_bit_halves:
  "push_bit m (of_nat i) = push_bit m (of_nat (i mod 2)) XOR push_bit (Suc m) (of_nat (i div 2) :: u32)"
proof (rule bit_word_eqI)
  fix k assume k: "k < LENGTH(32)"
  have h: "i mod 2 = take_bit 1 i" "i div 2 = drop_bit 1 i"
    by (simp_all add: take_bit_eq_mod drop_bit_eq_div)
  have "bit (push_bit (m + 1) (of_nat (drop_bit 1 i)) :: u32) k \<longleftrightarrow> m + 1 \<le> k \<and> bit i (k - m)"
    using k by (auto simp: bit_push_bit_iff bit_of_nat_iff bit_drop_bit_eq simp del: push_bit_Suc add_Suc_right One_nat_def)
  moreover have "bit (push_bit m (of_nat (take_bit 1 i)) :: u32) k \<longleftrightarrow> k = m \<and> odd i"
    using k by (auto simp: bit_push_bit_iff bit_of_nat_iff bit_take_bit_iff bit_0)
  ultimately show "bit (push_bit m (of_nat i) :: u32) k =
      bit (push_bit m (of_nat (i mod 2)) XOR push_bit (Suc m) (of_nat (i div 2) :: u32)) k"
    using k unfolding h Suc_eq_plus1 bit_xor_iff
    by (cases "k = m") (auto simp: bit_push_bit_iff bit_of_nat_iff bit_0)
qed

lemma linear_xor_sum:
  assumes f: "linear f"
  shows "i < 2 ^ n \<Longrightarrow> f (push_bit m (of_nat i)) = xor_sum (map (\<lambda>k. f (push_bit (m + k) 1)) [0..<n]) i"
proof (induction n arbitrary: m i)
  case 0
  then show ?case using f by (simp add: linear_def)
next
  case (Suc n)
  have split: "push_bit m (of_nat i) = push_bit m (of_nat (i mod 2)) XOR push_bit (Suc m) (of_nat (i div 2) :: u32)"
    by (rule push_bit_halves)
  have "i div 2 < 2 ^ n" using Suc.prems by (simp add: less_mult_imp_div_less mult.commute)
  then have "f (push_bit (Suc m) (of_nat (i div 2))) = xor_sum (map (\<lambda>k. f (push_bit (Suc m + k) 1)) [0..<n]) (i div 2)"
    by (rule Suc.IH)
  moreover have "map (\<lambda>k. f (push_bit (m + k) 1)) [0..<Suc n] = f (push_bit m 1) # map (\<lambda>k. f (push_bit (Suc m + k) 1)) [0..<n]"
    by (simp add: upt_conv_Cons map_Suc_upt [symmetric] comp_def del: upt_Suc)
  moreover have "f (push_bit m (of_nat (i mod 2))) = (if odd i then f (push_bit m 1) else 0)"
    using f by (cases "odd i") (auto simp: linear_def odd_iff_mod_2_eq_one even_iff_mod_2_eq_zero)
  ultimately show ?case
    using f split by (simp add: linear_def)
qed

section \<open>The tables\<close>

text \<open>
  A single bit moves down unchanged until it falls out, so one orbit gives the value of
  every single-bit word.
\<close>

lemma crc_bit_push: "Suc k < 32 \<Longrightarrow> crc_bit (push_bit (Suc k) 1) = push_bit k 1"
  by (rule bit_word_eqI)
     (auto simp: crc_bit_def bit_push_bit_iff bit_drop_bit_eq bit_1_iff simp del: push_bit_Suc push_bit_of_1)

lemma crc_bits_push: "k < 32 \<Longrightarrow> crc_bits (k + n) (push_bit k 1) = crc_bits n 1"
  by (induction k) (simp_all add: crc_bit_push del: push_bit_Suc push_bit_of_1)

primrec crc_orbit :: "nat \<Rightarrow> u32 \<Rightarrow> u32 list" where
  "crc_orbit 0 w = []"
| "crc_orbit (Suc n) w = w # crc_orbit n (crc_bit w)"

lemma crc_orbit_eq: "crc_orbit n (crc_bits j w) = map (\<lambda>i. crc_bits (j + i) w) [0..<n]"
proof (induction n arbitrary: j)
  case (Suc n)
  have "crc_bit (crc_bits j w) = crc_bits (Suc j) w"
    using crc_bits_add [of j 1 w] by simp
  then show ?case
    using Suc [of "Suc j"] by (simp add: upt_conv_Cons map_Suc_upt [symmetric] comp_def del: upt_Suc)
qed simp

definition crc_basis :: "nat \<Rightarrow> nat \<Rightarrow> u32 list" where
  "crc_basis m n = map (\<lambda>k. crc_bits n (push_bit (m + k) 1)) [0..<8]"

lemma crc_basis_orbit:
  assumes "m + 8 \<le> 32" and "n = m + 7 + j"
  shows "crc_basis m n = rev (crc_orbit 8 (crc_bits j 1))"
proof (rule nth_equalityI)
  show "length (crc_basis m n) = length (rev (crc_orbit 8 (crc_bits j 1)))"
    by (simp add: crc_basis_def crc_orbit_eq)
  fix i assume "i < length (crc_basis m n)"
  then have "i < 8" by (simp add: crc_basis_def)
  then have nth: "[0..<8] ! i = i" "[0..<8] ! (7 - i) = 7 - i"
    using nth_upt [of 0 i 8] nth_upt [of 0 "7 - i" 8] by simp_all
  from \<open>i < 8\<close> have "n = (m + i) + (j + (7 - i))" "m + i < 32" using assms by auto
  then have "crc_bits n (push_bit (m + i) 1) = crc_bits (j + (7 - i)) 1"
    using crc_bits_push [of "m + i" "j + (7 - i)"] by simp
  then show "crc_basis m n ! i = rev (crc_orbit 8 (crc_bits j 1)) ! i"
    using \<open>i < 8\<close> nth by (simp add: crc_basis_def crc_orbit_eq rev_nth del: upt_rec_numeral)
qed

lemma crc_basis_byte: "crc_basis 0 8 =
    [0xf26b8303, 0xe13b70f7, 0xc79a971f, 0x8ad958cf, 0x105ec76f, 0x20bd8ede,
     0x417b1dbc, 0x82f63b78]"
proof -
  have *: "crc_basis 0 8 = rev (crc_orbit 8 (crc_bits 1 1))" by (rule crc_basis_orbit) simp_all
  show ?thesis unfolding * by code_simp
qed

lemma crc_bits_chunks:
  "crc_bits 16 1 = 0x13a29877"
  "crc_bits 16 0x13a29877 = 0xdd45aab8"
  "crc_bits 16 0xdd45aab8 = 0xef306b19"
  "crc_bits 16 0xef306b19 = 0x493c7d27"
  "crc_bits 16 0x493c7d27 = 0xcb567ba5"
  "crc_bits 17 0xcb567ba5 = 0x18b8ea18"
  "crc_bits 8 0x18b8ea18 = 0x9a9f274a"
  "crc_bits 8 0x9a9f274a = 0x2a03aaa3"
  "crc_bits 8 0x2a03aaa3 = 0xb13145f8"
  by code_simp+

lemma crc_bits_far: "crc_bits 97 1 = 0x18b8ea18" "crc_bits 105 1 = 0x9a9f274a" "crc_bits 113 1 = 0x2a03aaa3" "crc_bits 121 1 = 0xb13145f8"
proof -
  have "crc_bits (16 + 16 + 16 + 16 + 16 + 17) 1 = 0x18b8ea18"
    by (simp only: crc_bits_add crc_bits_chunks)
  then show a: "crc_bits 97 1 = 0x18b8ea18" by (simp only: arith_simps)
  show b: "crc_bits 105 1 = 0x9a9f274a" using crc_bits_add [of 97 8 1] by (simp only: a crc_bits_chunks arith_simps)
  show c: "crc_bits 113 1 = 0x2a03aaa3" using crc_bits_add [of 105 8 1] by (simp only: b crc_bits_chunks arith_simps)
  show "crc_bits 121 1 = 0xb13145f8" using crc_bits_add [of 113 8 1] by (simp only: c crc_bits_chunks arith_simps)
qed

lemma crc_basis_stride3: "crc_basis 0 128 =
    [0xf20c0dfe, 0xe1f46d0d, 0xc604aceb, 0x89e52f27, 0x162628bf, 0x2c4c517e,
     0x5898a2fc, 0xb13145f8]"
proof -
  have *: "crc_basis 0 128 = rev (crc_orbit 8 (crc_bits 121 1))" by (rule crc_basis_orbit) simp_all
  show ?thesis unfolding * crc_bits_far by code_simp
qed

lemma crc_basis_stride2: "crc_basis 8 128 =
    [0x678efd01, 0xcf1dfa02, 0x9bd782f5, 0x3243731b, 0x6486e636, 0xc90dcc6c,
     0x97f7ee29, 0x2a03aaa3]"
proof -
  have *: "crc_basis 8 128 = rev (crc_orbit 8 (crc_bits 113 1))" by (rule crc_basis_orbit) simp_all
  show ?thesis unfolding * crc_bits_far by code_simp
qed

lemma crc_basis_stride1: "crc_basis 16 128 =
    [0x54075546, 0xa80eaa8c, 0x55f123e9, 0xabe247d2, 0x5228f955, 0xa451f2aa,
     0x4d4f93a5, 0x9a9f274a]"
proof -
  have *: "crc_basis 16 128 = rev (crc_orbit 8 (crc_bits 105 1))" by (rule crc_basis_orbit) simp_all
  show ?thesis unfolding * crc_bits_far by code_simp
qed

lemma crc_basis_stride0: "crc_basis 24 128 =
    [0x30d23865, 0x61a470ca, 0xc348e194, 0x837db5d9, 0x03171d43, 0x062e3a86,
     0x0c5c750c, 0x18b8ea18]"
proof -
  have *: "crc_basis 24 128 = rev (crc_orbit 8 (crc_bits 97 1))" by (rule crc_basis_orbit) simp_all
  show ?thesis unfolding * crc_bits_far by code_simp
qed

text \<open>
  \<open>crc_table m n\<close> lists, for every byte at bit \<open>m\<close> of a word, the word after \<open>n\<close> more bits.
\<close>

definition crc_table :: "nat \<Rightarrow> nat \<Rightarrow> u32 list" where
  "crc_table m n = xor_table (crc_basis m n)"

lemma crc_table_nth: "i < 256 \<Longrightarrow> crc_table m n ! i = crc_bits n (push_bit m (of_nat i))"
  using linear_xor_sum [OF linear_crc_bits, of i 8 n m] by (simp add: crc_table_def crc_basis_def nth_xor_table)

lemma kByteExtensionTable_eq: "kByteExtensionTable = crc_table 0 8"
  unfolding crc_table_def crc_basis_byte by code_simp

lemma kStrideExtensionTable3_eq: "kStrideExtensionTable3 = crc_table 0 128"
  unfolding crc_table_def crc_basis_stride3 by code_simp

lemma kStrideExtensionTable2_eq: "kStrideExtensionTable2 = crc_table 8 128"
  unfolding crc_table_def crc_basis_stride2 by code_simp

lemma kStrideExtensionTable1_eq: "kStrideExtensionTable1 = crc_table 16 128"
  unfolding crc_table_def crc_basis_stride1 by code_simp

lemma kStrideExtensionTable0_eq: "kStrideExtensionTable0 = crc_table 24 128"
  unfolding crc_table_def crc_basis_stride0 by code_simp

section \<open>The tables compute the polynomial\<close>

lemma crc_bits_drop: "take_bit n w = 0 \<Longrightarrow> crc_bits n w = drop_bit n w"
proof (induction n arbitrary: w)
  case (Suc n)
  have b: "\<not> bit w i" if "i < Suc n" for i
    using Suc.prems that by (metis bit_0_eq bit_take_bit_iff bot_apply bot_bool_def)
  then have "crc_bit w = drop_bit 1 w" by (simp add: crc_bit_def)
  moreover have "take_bit n (drop_bit 1 w) = 0"
    by (rule bit_word_eqI) (auto simp: bit_take_bit_iff bit_drop_bit_eq b)
  ultimately show ?case using Suc.IH [of "drop_bit 1 w"] by (simp add: drop_bit_drop_bit)
qed simp

lemma crc_bits_split: "crc_bits n w = crc_bits n (take_bit n w) XOR drop_bit n w"
proof -
  have "w = take_bit n w XOR (w AND NOT (mask n))"
    by (rule bit_word_eqI) (auto simp: bit_simps)
  then have "crc_bits n w = crc_bits n (take_bit n w) XOR crc_bits n (w AND NOT (mask n))"
    by (metis crc_bits_xor(1))
  moreover have "crc_bits n (w AND NOT (mask n)) = drop_bit n (w AND NOT (mask n))"
    by (rule crc_bits_drop, rule bit_word_eqI) (auto simp: bit_simps)
  moreover have "drop_bit n (w AND NOT (mask n)) = drop_bit n w"
    by (rule bit_word_eqI) (auto simp: bit_simps dest: bit_imp_le_length)
  ultimately show ?thesis by simp
qed

lemma crc_bits_push_drop: "drop_bit n (push_bit n w) = w \<Longrightarrow> crc_bits n (push_bit n w) = w"
  by (subst crc_bits_drop) (auto simp: take_bit_push_bit)

lemma byte_table_nth: "kByteExtensionTable ! unat (w AND 0xff) = crc_bits 8 (w AND 0xff)"
proof -
  have "unat (w AND 0xff) < 256" using word_and_le1 [of w "0xff"] by (simp add: word_le_nat_alt)
  then show ?thesis by (simp add: kByteExtensionTable_eq crc_table_nth)
qed

lemma and_ff: "w AND 0xff = take_bit 8 (w :: u32)"
  by (simp add: take_bit_eq_mask mask_eq_exp_minus_1)

lemma STEP1_eq: "STEP1 l b = crc_bits 8 (l XOR ucast b)"
proof -
  have a: "(l AND 0xff) XOR ucast b = (l XOR ucast b) AND 0xff"
    by (rule bit_word_eqI) (auto simp: and_ff bit_simps dest: bit_imp_le_length)
  have b: "drop_bit 8 l = drop_bit 8 (l XOR ucast b)"
    by (rule bit_word_eqI) (auto simp: bit_simps dest: bit_imp_le_length)
  show ?thesis
    unfolding STEP1_def Let_def a b byte_table_nth using crc_bits_split [of 8 "l XOR ucast b"] by (simp add: and_ff)
qed

lemma word_step: "drop_bit 8 w XOR kByteExtensionTable ! unat (w AND 0xff) = crc_bits 8 w"
  unfolding byte_table_nth using crc_bits_split [of 8 w] by (simp add: and_ff xor.commute)

lemma STEP4W_eq: "STEP4W w l = crc_bits 32 (w XOR l)"
proof -
  have "(f ^^ 4) x = f (f (f (f x)))" for f :: "u32 \<Rightarrow> u32" and x by (simp add: numeral_eq_Suc)
  then show ?thesis
    using crc_bits_add [of 8 24 "w XOR l"] crc_bits_add [of 8 16] crc_bits_add [of 8 8]
    by (simp add: STEP4W_def word_step)
qed

lemma stride_table_nth:
  "kStrideExtensionTable3 ! unat (w AND 0xff) = crc_bits 128 (w AND 0xff)"
  "kStrideExtensionTable2 ! unat (w AND 0xff) = crc_bits 128 (push_bit 8 (w AND 0xff))"
  "kStrideExtensionTable1 ! unat (w AND 0xff) = crc_bits 128 (push_bit 16 (w AND 0xff))"
  "kStrideExtensionTable0 ! unat (w AND 0xff) = crc_bits 128 (push_bit 24 (w AND 0xff))"
proof -
  have "unat (w AND 0xff) < 256" using word_and_le1 [of w "0xff"] by (simp add: word_le_nat_alt)
  note nth = crc_table_nth [OF this]
  show "kStrideExtensionTable3 ! unat (w AND 0xff) = crc_bits 128 (w AND 0xff)"
    by (simp add: kStrideExtensionTable3_eq nth)
  show "kStrideExtensionTable2 ! unat (w AND 0xff) = crc_bits 128 (push_bit 8 (w AND 0xff))"
    by (simp add: kStrideExtensionTable2_eq nth)
  show "kStrideExtensionTable1 ! unat (w AND 0xff) = crc_bits 128 (push_bit 16 (w AND 0xff))"
    by (simp add: kStrideExtensionTable1_eq nth)
  show "kStrideExtensionTable0 ! unat (w AND 0xff) = crc_bits 128 (push_bit 24 (w AND 0xff))"
    by (simp add: kStrideExtensionTable0_eq nth)
qed

lemma word_bytes:
  "(w :: u32) = (w AND 0xff) XOR push_bit 8 (drop_bit 8 w AND 0xff) XOR
     push_bit 16 (drop_bit 16 w AND 0xff) XOR push_bit 24 (drop_bit 24 w AND 0xff)"
proof (rule bit_word_eqI)
  fix n assume "n < LENGTH(32)"
  then consider "n < 8" | "8 \<le> n" "n < 16" | "16 \<le> n" "n < 24" | "24 \<le> n" "n < 32" by fastforce
  then show "bit w n = bit ((w AND 0xff) XOR push_bit 8 (drop_bit 8 w AND 0xff) XOR
     push_bit 16 (drop_bit 16 w AND 0xff) XOR push_bit 24 (drop_bit 24 w AND 0xff)) n"
    by cases (auto simp: and_ff bit_simps)
qed

lemma top_byte: "drop_bit 24 (w :: u32) = drop_bit 24 w AND 0xff"
  by (rule bit_word_eqI) (auto simp: and_ff bit_simps dest: bit_imp_le_length)

lemma STEP4_eq: "STEP4 crc p = ReadUint32LE p XOR crc_bits 128 crc"
proof -
  have "crc_bits 128 crc = crc_bits 128 (crc AND 0xff) XOR crc_bits 128 (push_bit 8 (drop_bit 8 crc AND 0xff)) XOR
      crc_bits 128 (push_bit 16 (drop_bit 16 crc AND 0xff)) XOR crc_bits 128 (push_bit 24 (drop_bit 24 crc AND 0xff))"
    by (subst word_bytes) (simp only: crc_bits_xor)
  moreover have "kStrideExtensionTable0 ! unat (drop_bit 24 crc) = crc_bits 128 (push_bit 24 (drop_bit 24 crc AND 0xff))"
    using stride_table_nth(4) [of "drop_bit 24 crc"] by (simp only: top_byte [symmetric])
  ultimately show ?thesis
    unfolding STEP4_def by (simp only: stride_table_nth xor.assoc)
qed

section \<open>The strides\<close>

text \<open>The state after some bytes, bit by bit.\<close>

definition feed :: "u32 \<Rightarrow> byte list \<Rightarrow> u32" where
  "feed l p = foldl (\<lambda>l b. crc_bits 8 (l XOR ucast b)) l p"

lemma crc_bytes_feed: "crc_bytes l p = feed l p"
proof -
  have "STEP1 = (\<lambda>l b. crc_bits 8 (l XOR ucast b))" by (intro ext) (rule STEP1_eq)
  then show ?thesis by (simp add: crc_bytes_def feed_def)
qed

lemma feed_append: "feed l (p @ q) = feed (feed l p) q"
  by (simp add: feed_def)

lemma feed_word:
  assumes "length p \<ge> 4"
  shows "feed l (take 4 p) = crc_bits 32 (l XOR ReadUint32LE p)"
proof -
  obtain b0 b1 b2 b3 q where p: "p = b0 # b1 # b2 # b3 # q"
    using assms by (auto simp: numeral_eq_Suc Suc_le_length_iff)
  define u where "u b = (ucast b :: u32)" for b :: byte
  have r: "ReadUint32LE p = u b0 XOR push_bit 8 (u b1) XOR push_bit 16 (u b2) XOR push_bit 24 (u b3)"
    by (rule bit_word_eqI)
       (auto simp: p u_def ReadUint32LE_def DecodeFixed32_def bit_simps dest: bit_imp_le_length)
  have small: "drop_bit n (push_bit n (u b)) = u b" if "n \<le> 24" for n b
    using that by (intro bit_word_eqI) (auto simp: u_def bit_simps dest: bit_imp_le_length)
  have c: "crc_bits 32 (push_bit n (u b)) = crc_bits (32 - n) (u b)" if "n \<le> 24" for n b
    using that crc_bits_add [of n "32 - n" "push_bit n (u b)"] crc_bits_push_drop [OF small] by simp
  have "feed l (take 4 p) = crc_bits 8 (crc_bits 8 (crc_bits 8 (crc_bits 8 (l XOR u b0) XOR u b1) XOR u b2) XOR u b3)"
    by (simp add: feed_def p u_def)
  also have "\<dots> = crc_bits 32 (l XOR u b0) XOR crc_bits 24 (u b1) XOR crc_bits 16 (u b2) XOR crc_bits 8 (u b3)"
    using crc_bits_add [of 8 24] crc_bits_add [of 8 16] crc_bits_add [of 8 8] by (simp add: crc_bits_xor xor.assoc)
  also have "\<dots> = crc_bits 32 (l XOR ReadUint32LE p)"
    using c [of 8 b1] c [of 16 b2] c [of 24 b3] by (simp add: r crc_bits_xor xor.assoc)
  finally show ?thesis .
qed

text \<open>The four interleaved states, the oldest first, stand for one.\<close>

definition stride_value :: "strides \<Rightarrow> u32" where
  "stride_value c = (case c of (crc0, crc1, crc2, crc3) \<Rightarrow>
     crc_bits 32 (crc3 XOR crc_bits 32 (crc2 XOR crc_bits 32 (crc1 XOR crc_bits 32 crc0))))"

lemma crc_bits_words: "crc_bits 128 w = crc_bits 32 (crc_bits 32 (crc_bits 32 (crc_bits 32 w)))"
  using crc_bits_add [of 32 96] crc_bits_add [of 32 64] crc_bits_add [of 32 32] by simp

lemma stride_value_STEP4:
  assumes "length p \<ge> 4"
  shows "stride_value (crc1, crc2, crc3, STEP4 crc0 p) = feed (stride_value (crc0, crc1, crc2, crc3)) (take 4 p)"
  by (simp add: feed_word [OF assms] stride_value_def STEP4_eq crc_bits_words crc_bits_xor ac_simps)

lemma strides4_feed:
  assumes "strides4 c p = (c', p')"
  shows "feed (stride_value c) p = feed (stride_value c') p'"
  using assms
proof (induction c p rule: strides4.induct)
  case (1 c p)
  obtain crc0 crc1 crc2 crc3 where c: "c = (crc0, crc1, crc2, crc3)" by (cases c)
  show ?case
  proof (cases "length p \<ge> 4")
    case True
    then have "strides4 (crc1, crc2, crc3, STEP4 crc0 p) (drop 4 p) = (c', p')"
      using "1.prems" strides4.simps [of c p] by (simp add: c)
    with "1.IH" [OF True c [symmetric] refl refl] stride_value_STEP4 [OF True]
    show ?thesis using feed_append [of "stride_value c" "take 4 p" "drop 4 p"] c by simp
  qed (use "1.prems" strides4.simps [of c p] in simp)
qed

text \<open>A round of the unrolled loop is four rounds of the other.\<close>

lemma strides16_round:
  assumes "length p \<ge> 16"
  shows "feed (stride_value (crc0, crc1, crc2, crc3)) p =
    feed (stride_value (STEP4 crc0 p, STEP4 crc1 (drop 4 p), STEP4 crc2 (drop 8 p), STEP4 crc3 (drop 12 p))) (drop 16 p)"
proof -
  have r: "feed (stride_value (c0, c1, c2, c3)) q = feed (stride_value (c1, c2, c3, STEP4 c0 q)) (drop 4 q)"
    if "length q \<ge> 4" for c0 c1 c2 c3 q
    using feed_append [of "stride_value (c0, c1, c2, c3)" "take 4 q" "drop 4 q"] stride_value_STEP4 [OF that] by simp
  show ?thesis using assms by (simp add: r)
qed

lemma strides16_feed:
  assumes "strides16 c p = (c', p')"
  shows "feed (stride_value c) p = feed (stride_value c') p'"
  using assms
proof (induction c p rule: strides16.induct)
  case (1 c p)
  obtain crc0 crc1 crc2 crc3 where c: "c = (crc0, crc1, crc2, crc3)" by (cases c)
  show ?case
  proof (cases "length p \<ge> 16")
    case True
    then have "strides16 (STEP4 crc0 p, STEP4 crc1 (drop 4 p), STEP4 crc2 (drop 8 p), STEP4 crc3 (drop 12 p)) (drop 16 p) = (c', p')"
      using "1.prems" strides16.simps [of c p] by (simp add: c)
    with "1.IH" [OF True c [symmetric] refl refl] show ?thesis by (simp add: c strides16_round [OF True])
  qed (use "1.prems" strides16.simps [of c p] in simp)
qed

lemma crc_words_feed:
  assumes "crc_words l p = (l', p')"
  shows "feed l p = feed l' p'"
proof (cases "length p \<ge> 16")
  case True
  define c0 where "c0 = (ReadUint32LE p XOR l, ReadUint32LE (drop 4 p), ReadUint32LE (drop 8 p), ReadUint32LE (drop 12 p))"
  obtain c1 p1 where s16: "strides16 c0 (drop 16 p) = (c1, p1)" by fastforce
  obtain c2 p2 where s4: "strides4 c1 p1 = (c2, p2)" by fastforce
  have "stride_value c2 = l'" "p2 = p'"
    using assms True s16 s4 by (auto simp: crc_words_def c0_def Let_def stride_value_def STEP4W_eq split: prod.splits)
  moreover have "feed (stride_value c0) (drop 16 p) = feed (stride_value c2) p2"
    using strides16_feed [OF s16] strides4_feed [OF s4] by simp
  moreover have "feed l p = feed (stride_value c0) (drop 16 p)"
  proof -
    have w: "feed v q = feed (crc_bits 32 (v XOR ReadUint32LE q)) (drop 4 q)" if "length q \<ge> 4" for v q
      using feed_append [of v "take 4 q" "drop 4 q"] feed_word [OF that] by simp
    show ?thesis using True by (simp add: w stride_value_def c0_def xor.commute)
  qed
  ultimately show ?thesis by simp
qed (use assms in \<open>simp add: crc_words_def\<close>)

section \<open>Correctness\<close>

lemma crc32c_spec_feed: "crc32c_spec crc data = feed (crc XOR kCRC32Xor) data XOR kCRC32Xor"
  by (simp add: crc32c_spec_def feed_def)

lemma not_accelerated: "\<not> CanAccelerateCRC32C"
  by (simp add: CanAccelerateCRC32C_def AcceleratedCRC32C_def)

lemma Extend_spec: "Extend p crc data = crc32c_spec crc data"
proof -
  define x l where "x = unat (RoundUp4 p - p)" and "l = crc XOR kCRC32Xor"
  obtain l1 d1 where a: "(if x \<le> length data then (crc_bytes l (take x data), drop x data) else (l, data)) = (l1, d1)"
    by fastforce
  obtain l2 d2 where b: "crc_words l1 d1 = (l2, d2)" by fastforce
  have "Extend p crc data = feed l2 d2 XOR kCRC32Xor"
    unfolding Extend_def Let_def x_def [symmetric] l_def [symmetric] a
    by (simp add: not_accelerated b crc_bytes_feed)
  moreover have "feed l data = feed l1 d1"
    using a feed_append [of l "take x data" "drop x data"] by (auto simp: crc_bytes_feed split: if_splits)
  ultimately show ?thesis
    using crc_words_feed [OF b] by (simp add: crc32c_spec_feed l_def)
qed

lemma crc32c_append: "crc32c_spec (crc32c_spec crc a) b = crc32c_spec crc (a @ b)"
  by (simp add: crc32c_spec_feed feed_append xor.assoc)

lemma Unmask_Mask: "Unmask (Mask crc) = crc"
proof -
  have "drop_bit 17 (drop_bit 15 crc OR push_bit 17 crc) OR push_bit 15 (drop_bit 15 crc OR push_bit 17 crc) = crc"
  proof (rule bit_word_eqI)
    fix n assume "n < LENGTH(32)"
    then show "bit (drop_bit 17 (drop_bit 15 crc OR push_bit 17 crc) OR
        push_bit 15 (drop_bit 15 crc OR push_bit 17 crc)) n = bit crc n"
      by (cases "n < 15") (auto simp: bit_simps dest: bit_imp_le_length)
  qed
  then show ?thesis by (simp add: Mask_def Unmask_def)
qed

text \<open>
  (C20) The checksum is the CRC of the Castagnoli polynomial: whatever the address of the
  data, the tables and the four interleaved strides compute what the shift register
  computes bit by bit; extending a checksum over a second part gives the checksum of the
  whole; and a masked checksum, as the log and the tables store it, unmasks to the
  checksum.
\<close>

theorem crc32c_correct:
  "Extend p crc data = crc32c_spec crc data \<and>
   Extend p (Value q a) b = Value r (a @ b) \<and>
   Unmask (Mask crc) = crc"
  by (simp add: Extend_spec Value_def crc32c_append Unmask_Mask)

end
