(* ===== verification/Ldb_Log.thy ===== *)
theory Ldb_Log
  imports Ldb_Env Ldb_Crc32c_Spec
begin

text \<open>
  \<^verbatim>\<open>db/log_format.h\<close>, \<^verbatim>\<open>db/log_writer.cc\<close> and \<^verbatim>\<open>db/log_reader.cc\<close>: the write-ahead log. A
  record is cut into physical records that do not cross the boundaries of 32 KB blocks, each
  with a header of checksum, length and type; fewer than seven bytes at the end of a block
  are filled with zeros. The reader puts the records together again and reports what it has
  to drop. Checksums do not depend on addresses (\<open>Extend_spec\<close>); the address 0 is passed.
\<close>

section \<open>The format\<close>

definition kZeroType :: u32 where
  "kZeroType = 0"

definition kFullType :: u32 where
  "kFullType = 1"

definition kFirstType :: u32 where
  "kFirstType = 2"

definition kMiddleType :: u32 where
  "kMiddleType = 3"

definition kLastType :: u32 where
  "kLastType = 4"

definition kMaxRecordType :: u32 where
  "kMaxRecordType = kLastType"

definition kEof :: u32 where
  "kEof = kMaxRecordType + 1"

definition kBadRecord :: u32 where
  "kBadRecord = kMaxRecordType + 2"

definition kBlockSize :: nat where
  "kBlockSize = 32768"

definition kHeaderSize :: nat where
  "kHeaderSize = 4 + 2 + 1"

section \<open>The writer\<close>

record 'f log_writer =
  lw_dest :: 'f
  lw_block_offset :: nat
  lw_type_crc :: "u32 list"

definition InitTypeCrc :: "u32 list" where
  "InitTypeCrc = map (\<lambda>i. Value 0 [of_nat i]) [0..<Suc (unat kMaxRecordType)]"

definition make_Writer :: "'f \<Rightarrow> 'f log_writer" where
  "make_Writer f = \<lparr>lw_dest = f, lw_block_offset = 0, lw_type_crc = InitTypeCrc\<rparr>"

definition make_Writer_at :: "'f \<Rightarrow> u64 \<Rightarrow> 'f log_writer" where
  "make_Writer_at f dest_length =
     \<lparr>lw_dest = f, lw_block_offset = unat (dest_length mod of_nat kBlockSize), lw_type_crc = InitTypeCrc\<rparr>"

text \<open>The header of a physical record.\<close>

definition log_header :: "u32 \<Rightarrow> u32 \<Rightarrow> nat \<Rightarrow> byte list" where
  "log_header crc t n = EncodeFixed32 crc @ [ucast (of_nat n AND 0xff :: u64), ucast (drop_bit 8 (of_nat n :: u64)), ucast t]"

definition EmitPhysicalRecord ::
  "'f writable_file \<Rightarrow> u32 \<Rightarrow> byte list \<Rightarrow> 'f log_writer \<Rightarrow> (Status \<times> 'f log_writer) option" where
  "EmitPhysicalRecord dest t data w =
     (let crc = Extend 0 (lw_type_crc w ! unat t) data;
          crc = Mask crc;
          buf = log_header crc t (length data)
      in do { (s, f) \<leftarrow> wf_Append dest buf (lw_dest w);
              (s, f) \<leftarrow> (if Status_ok s
                         then do { (s, f) \<leftarrow> wf_Append dest data f;
                                   if Status_ok s then wf_Flush dest f else Some (s, f) }
                         else Some (s, f));
              Some (s, w\<lparr>lw_dest := f, lw_block_offset := lw_block_offset w + (kHeaderSize + length data)\<rparr>) })"

text \<open>The switch to a new block; the status of the padding is not looked at.\<close>

definition switch_block :: "'f writable_file \<Rightarrow> 'f log_writer \<Rightarrow> 'f log_writer option" where
  "switch_block dest w =
     (let leftover = kBlockSize - lw_block_offset w
      in if leftover < kHeaderSize
         then do { f \<leftarrow> (if leftover > 0 then map_option snd (wf_Append dest (replicate leftover 0) (lw_dest w))
                         else Some (lw_dest w));
                   Some (w\<lparr>lw_dest := f, lw_block_offset := 0\<rparr>) }
         else Some w)"

definition fragment_type :: "bool \<Rightarrow> bool \<Rightarrow> u32" where
  "fragment_type begin end' =
     (if begin \<and> end' then kFullType else if begin then kFirstType
      else if end' then kLastType else kMiddleType)"

lemma Emit_offset:
  "EmitPhysicalRecord dest t data w = Some (s, w') \<Longrightarrow>
     lw_block_offset w' = lw_block_offset w + (kHeaderSize + length data)"
  by (auto simp: EmitPhysicalRecord_def Let_def split: Option.bind_splits if_splits)

lemma switch_offset:
  "switch_block dest w = Some w' \<Longrightarrow>
     lw_block_offset w' = (if kBlockSize - lw_block_offset w < kHeaderSize then 0 else lw_block_offset w)"
  by (auto simp: switch_block_def Let_def split: Option.bind_splits if_splits)

function add_record_loop ::
  "'f writable_file \<Rightarrow> bool \<Rightarrow> byte list \<Rightarrow> 'f log_writer \<Rightarrow> (Status \<times> 'f log_writer) option" where
  "add_record_loop dest begin data w =
     Option.bind (switch_block dest w) (\<lambda>w.
       let avail = kBlockSize - lw_block_offset w - kHeaderSize;
           fragment_length = (if length data < avail then length data else avail);
           end' = (length data = fragment_length)
       in Option.bind (EmitPhysicalRecord dest (fragment_type begin end') (take fragment_length data) w) (\<lambda>(s, w).
            let data = drop fragment_length data
            in if Status_ok s \<and> length data > 0 then add_record_loop dest False data w else Some (s, w)))"
  by pat_completeness auto
termination
proof (relation "measures [\<lambda>(dest, begin, data, w). length data,
    \<lambda>(dest, begin, data, w). if kBlockSize - lw_block_offset w = kHeaderSize then 1 else 0]", goal_cases)
  case (2 dest start data w w1 avail n e sw s w2 d)
  then show ?case
    using switch_offset [of dest w w1] Emit_offset [of dest _ _ w1 s w2]
    by (auto simp: kBlockSize_def kHeaderSize_def split: if_splits)
qed simp

declare add_record_loop.simps [simp del]

definition AddRecord :: "'f writable_file \<Rightarrow> slice \<Rightarrow> 'f log_writer \<Rightarrow> (Status \<times> 'f log_writer) option" where
  "AddRecord dest record w = add_record_loop dest True record w"

section \<open>The reader\<close>

text \<open>
  \<open>lr_reports\<close> are the calls of the reporter, if there is one. \<open>buffer_\<close> is the unread part
  of the block that was read last.
\<close>

record 'f log_reader =
  lr_file :: 'f
  lr_reporter :: bool
  lr_reports :: "(u64 \<times> Status) list"
  lr_checksum :: bool
  lr_buffer :: slice
  lr_eof :: bool
  lr_last_record_offset :: u64
  lr_end_of_buffer_offset :: u64
  lr_initial_offset :: u64
  lr_resyncing :: bool

definition make_Reader :: "'f \<Rightarrow> bool \<Rightarrow> bool \<Rightarrow> u64 \<Rightarrow> 'f log_reader" where
  "make_Reader f reporter checksum initial_offset =
     \<lparr>lr_file = f, lr_reporter = reporter, lr_reports = [], lr_checksum = checksum, lr_buffer = [], lr_eof = False,
      lr_last_record_offset = 0, lr_end_of_buffer_offset = 0, lr_initial_offset = initial_offset,
      lr_resyncing = (initial_offset > 0)\<rparr>"

definition ReportDrop :: "u64 \<Rightarrow> Status \<Rightarrow> 'f log_reader \<Rightarrow> 'f log_reader" where
  "ReportDrop bytes reason r =
     (if lr_reporter r \<and> lr_end_of_buffer_offset r - of_nat (length (lr_buffer r)) - bytes \<ge> lr_initial_offset r
      then r\<lparr>lr_reports := lr_reports r @ [(bytes, reason)]\<rparr> else r)"

definition ReportCorruption :: "u64 \<Rightarrow> byte list \<Rightarrow> 'f log_reader \<Rightarrow> 'f log_reader" where
  "ReportCorruption bytes reason r = ReportDrop bytes (Corruption reason) r"

definition SkipToInitialBlock :: "'f sequential_file \<Rightarrow> 'f log_reader \<Rightarrow> (bool \<times> 'f log_reader) option" where
  "SkipToInitialBlock src r =
     (let offset_in_block = lr_initial_offset r mod of_nat kBlockSize;
          block_start_location = lr_initial_offset r - offset_in_block;
          block_start_location =
            (if offset_in_block > of_nat (kBlockSize - 6) then block_start_location + of_nat kBlockSize
             else block_start_location);
          r = r\<lparr>lr_end_of_buffer_offset := block_start_location\<rparr>
      in if block_start_location > 0
         then do { (skip_status, f) \<leftarrow> sf_Skip src block_start_location (lr_file r);
                   let r = r\<lparr>lr_file := f\<rparr>;
                   Some (if \<not> Status_ok skip_status then (False, ReportDrop block_start_location skip_status r)
                         else (True, r)) }
         else Some (True, r))"

text \<open>A record at the front of a buffer of at least seven bytes.\<close>

definition parse_record :: "slice \<Rightarrow> 'f log_reader \<Rightarrow> u32 \<times> slice \<times> 'f log_reader" where
  "parse_record result r =
     (let header = lr_buffer r;
          a = ucast (header ! 4) AND 0xff; b = ucast (header ! 5) AND 0xff;
          type = scast (header ! 6);
          len = unat (a OR push_bit 8 b :: u32)
      in if kHeaderSize + len > length (lr_buffer r) then
           let drop_size = length (lr_buffer r); r = r\<lparr>lr_buffer := []\<rparr>
           in if \<not> lr_eof r
              then (kBadRecord, result, ReportCorruption (of_nat drop_size) (lit ''bad record length'') r)
              else (kEof, result, r)
         else if type = kZeroType \<and> len = 0 then (kBadRecord, result, r\<lparr>lr_buffer := []\<rparr>)
         else if lr_checksum r \<and> Value 0 (take (1 + len) (drop 6 header)) \<noteq> Unmask (DecodeFixed32 header) then
           let drop_size = length (lr_buffer r); r = r\<lparr>lr_buffer := []\<rparr>
           in (kBadRecord, result, ReportCorruption (of_nat drop_size) (lit ''checksum mismatch'') r)
         else
           let r = r\<lparr>lr_buffer := remove_prefix (kHeaderSize + len) (lr_buffer r)\<rparr>
           in if lr_end_of_buffer_offset r - of_nat (length (lr_buffer r)) - of_nat kHeaderSize - of_nat len < lr_initial_offset r
              then (kBadRecord, [], r)
              else (type, take len (drop kHeaderSize header), r))"

function ReadPhysicalRecord ::
  "'f sequential_file \<Rightarrow> slice \<Rightarrow> 'f log_reader \<Rightarrow> (u32 \<times> slice \<times> 'f log_reader) option" where
  "ReadPhysicalRecord src result r =
     (if length (lr_buffer r) < kHeaderSize then
        if \<not> lr_eof r then
          Option.bind (sf_Read src kBlockSize [] (lr_file r)) (\<lambda>(status, b, f).
            let r = r\<lparr>lr_file := f, lr_buffer := b, lr_end_of_buffer_offset := lr_end_of_buffer_offset r + of_nat (length b)\<rparr>
            in if \<not> Status_ok status then
                 Some (kEof, result, (ReportDrop (of_nat kBlockSize) status (r\<lparr>lr_buffer := []\<rparr>))\<lparr>lr_eof := True\<rparr>)
               else ReadPhysicalRecord src result (if length b < kBlockSize then r\<lparr>lr_eof := True\<rparr> else r))
        else Some (kEof, result, r\<lparr>lr_buffer := []\<rparr>)
      else Some (parse_record result r))"
  by pat_completeness auto
termination
  by (relation "measure (\<lambda>(src, result, r). if length (lr_buffer r) < kHeaderSize \<and> \<not> lr_eof r then 1 else 0)")
     (auto simp: kBlockSize_def kHeaderSize_def)

declare ReadPhysicalRecord.simps [simp del]

partial_function (option) read_record_loop ::
  "'f sequential_file \<Rightarrow> bool \<Rightarrow> u64 \<Rightarrow> byte list \<Rightarrow> slice \<Rightarrow> 'f log_reader \<Rightarrow> (slice option \<times> 'f log_reader) option" where
  "read_record_loop src in_fragmented_record prospective_record_offset scratch fragment r =
     Option.bind (ReadPhysicalRecord src fragment r) (\<lambda>(record_type, fragment, r).
       let physical_record_offset =
             lr_end_of_buffer_offset r - of_nat (length (lr_buffer r)) - of_nat kHeaderSize - of_nat (length fragment)
       in if lr_resyncing r \<and> record_type = kMiddleType then
            read_record_loop src in_fragmented_record prospective_record_offset scratch fragment r
          else if lr_resyncing r \<and> record_type = kLastType then
            read_record_loop src in_fragmented_record prospective_record_offset scratch fragment (r\<lparr>lr_resyncing := False\<rparr>)
          else let r = r\<lparr>lr_resyncing := False\<rparr>
          in if record_type = kFullType then
               let r = (if in_fragmented_record \<and> scratch \<noteq> []
                        then ReportCorruption (of_nat (length scratch)) (lit ''partial record without end(1)'') r else r)
               in Some (Some fragment, r\<lparr>lr_last_record_offset := physical_record_offset\<rparr>)
             else if record_type = kFirstType then
               let r = (if in_fragmented_record \<and> scratch \<noteq> []
                        then ReportCorruption (of_nat (length scratch)) (lit ''partial record without end(2)'') r else r)
               in read_record_loop src True physical_record_offset fragment fragment r
             else if record_type = kMiddleType then
               if \<not> in_fragmented_record then
                 read_record_loop src in_fragmented_record prospective_record_offset scratch fragment
                   (ReportCorruption (of_nat (length fragment)) (lit ''missing start of fragmented record(1)'') r)
               else read_record_loop src in_fragmented_record prospective_record_offset (scratch @ fragment) fragment r
             else if record_type = kLastType then
               if \<not> in_fragmented_record then
                 read_record_loop src in_fragmented_record prospective_record_offset scratch fragment
                   (ReportCorruption (of_nat (length fragment)) (lit ''missing start of fragmented record(2)'') r)
               else Some (Some (scratch @ fragment), r\<lparr>lr_last_record_offset := prospective_record_offset\<rparr>)
             else if record_type = kEof then Some (None, r)
             else if record_type = kBadRecord then
               if in_fragmented_record then
                 read_record_loop src False prospective_record_offset [] fragment
                   (ReportCorruption (of_nat (length scratch)) (lit ''error in middle of record'') r)
               else read_record_loop src in_fragmented_record prospective_record_offset scratch fragment r
             else
               read_record_loop src False prospective_record_offset [] fragment
                 (ReportCorruption (of_nat (length fragment + (if in_fragmented_record then length scratch else 0)))
                   (lit ''unknown record type '' @ decimal (unat record_type)) r))"

text \<open>\<open>None\<close> as the record: the end of the input.\<close>

definition ReadRecord :: "'f sequential_file \<Rightarrow> 'f log_reader \<Rightarrow> (slice option \<times> 'f log_reader) option" where
  "ReadRecord src r =
     Option.bind (if lr_last_record_offset r < lr_initial_offset r then SkipToInitialBlock src r else Some (True, r))
       (\<lambda>(ok, r). if \<not> ok then Some (None, r) else read_record_loop src False 0 [] [] r)"

definition LastRecordOffset :: "'f log_reader \<Rightarrow> u64" where
  "LastRecordOffset r = lr_last_record_offset r"

end
