(* ===== verification/Ldb_Log_Spec.thy ===== *)
theory Ldb_Log_Spec
  imports Ldb_Log
begin

text \<open>
  What the log promises: the writer lays out records as the specification \<open>log_of\<close> says, and
  the reader gets them back. A log that was cut off anywhere, as by a crash, reads as the
  records that were written completely, without a report of corruption.
\<close>

section \<open>The layout of a log\<close>

text \<open>A physical record, and the padding and the position after a switch to a new block.\<close>

definition phys_bytes :: "u32 \<Rightarrow> byte list \<Rightarrow> byte list" where
  "phys_bytes t data = log_header (Mask (Value 0 (ucast t # data))) t (length data) @ data"

definition pad :: "nat \<Rightarrow> byte list" where
  "pad off = (if kBlockSize - off < kHeaderSize then replicate (kBlockSize - off) 0 else [])"

definition next_off :: "nat \<Rightarrow> nat" where
  "next_off off = (if kBlockSize - off < kHeaderSize then 0 else off)"

fun log_bytes :: "nat \<Rightarrow> (u32 \<times> byte list) list \<Rightarrow> byte list" where
  "log_bytes off [] = []"
| "log_bytes off ((t, d) # fs) = pad off @ phys_bytes t d @ log_bytes (next_off off + kHeaderSize + length d) fs"

fun log_end :: "nat \<Rightarrow> (u32 \<times> byte list) list \<Rightarrow> nat" where
  "log_end off [] = off"
| "log_end off ((t, d) # fs) = log_end (next_off off + kHeaderSize + length d) fs"

text \<open>The fragments of a record that begins at some offset in a block.\<close>

definition room :: "nat \<Rightarrow> nat" where
  "room off = kBlockSize - next_off off - kHeaderSize"

function fragments :: "nat \<Rightarrow> bool \<Rightarrow> byte list \<Rightarrow> (u32 \<times> byte list) list" where
  "fragments off start data =
     (fragment_type start (length data \<le> room off), take (room off) data) #
     (if length data \<le> room off then []
      else fragments (next_off off + kHeaderSize + room off) False (drop (room off) data))"
  by pat_completeness auto
termination
  by (relation "measures [\<lambda>(off, start, data). length data,
      \<lambda>(off, start, data). if kBlockSize - off = kHeaderSize then 1 else 0]")
     (auto simp: room_def next_off_def kBlockSize_def kHeaderSize_def)

declare fragments.simps [simp del]

fun log_of :: "nat \<Rightarrow> byte list list \<Rightarrow> byte list" where
  "log_of off [] = []"
| "log_of off (r # rs) = log_bytes off (fragments off True r) @ log_of (log_end off (fragments off True r)) rs"

lemmas log_sizes = kBlockSize_def kHeaderSize_def

lemma length_log_header [simp]: "length (log_header crc t n) = kHeaderSize"
  by (simp add: log_header_def kHeaderSize_def)

lemma length_phys_bytes [simp]: "length (phys_bytes t d) = kHeaderSize + length d"
  by (simp add: phys_bytes_def)

lemma length_pad [simp]: "length (pad off) = (if kBlockSize - off < kHeaderSize then kBlockSize - off else 0)"
  by (simp add: pad_def)

lemma next_off_room: "next_off off + kHeaderSize + room off = kBlockSize"
  by (auto simp: next_off_def room_def log_sizes)

lemma fragment_type_range: "fragment_type b e \<in> {1, 2, 3, 4}"
  by (simp add: fragment_type_def kFullType_def kFirstType_def kMiddleType_def kLastType_def)

section \<open>The writer\<close>

lemma InitTypeCrc_nth: "t \<in> {1, 2, 3, 4} \<Longrightarrow> InitTypeCrc ! unat t = Value 0 [ucast t]" for t :: u32
  by (auto simp: InitTypeCrc_def kMaxRecordType_def kLastType_def nth_append upt_rec)

lemma Extend_type: "t \<in> {1, 2, 3, 4} \<Longrightarrow> Extend 0 (InitTypeCrc ! unat t) d = Value 0 (ucast t # d)" for t :: u32
  by (simp add: InitTypeCrc_nth Value_def Extend_spec crc32c_append)

text \<open>The state of a writer on an error-free file.\<close>

definition writer_ok :: "('f \<Rightarrow> bool) \<Rightarrow> 'f log_writer \<Rightarrow> bool" where
  "writer_ok good w \<longleftrightarrow> good (lw_dest w) \<and> lw_block_offset w \<le> kBlockSize \<and> lw_type_crc w = InitTypeCrc"

text \<open>Records one after the other, until an error occurs.\<close>

primrec add_records :: "'f writable_file \<Rightarrow> byte list list \<Rightarrow> 'f log_writer \<Rightarrow> (Status \<times> 'f log_writer) option" where
  "add_records dest [] w = Some (OK, w)"
| "add_records dest (r # rs) w =
     Option.bind (AddRecord dest r w) (\<lambda>(s, w). if Status_ok s then add_records dest rs w else Some (s, w))"

context writable_contract
begin

lemma switch_ok:
  assumes "writer_ok good w"
  shows "\<exists>w'. switch_block dest w = Some w' \<and> writer_ok good w' \<and> lw_block_offset w' = next_off (lw_block_offset w) \<and>
    content (lw_dest w') = content (lw_dest w) @ pad (lw_block_offset w)"
proof -
  obtain f where "wf_Append dest (replicate (kBlockSize - lw_block_offset w) 0) (lw_dest w) = Some (OK, f)" "good f"
      "content f = content (lw_dest w) @ replicate (kBlockSize - lw_block_offset w) 0"
    using append assms by (metis writer_ok_def)
  then show ?thesis
    using assms by (auto simp: switch_block_def Let_def writer_ok_def next_off_def pad_def)
qed

lemma emit_ok:
  assumes "writer_ok good w" "t \<in> {1, 2, 3, 4}" "lw_block_offset w + kHeaderSize + length d \<le> kBlockSize"
  shows "\<exists>w'. EmitPhysicalRecord dest t d w = Some (OK, w') \<and> writer_ok good w' \<and>
    lw_block_offset w' = lw_block_offset w + kHeaderSize + length d \<and>
    content (lw_dest w') = content (lw_dest w) @ phys_bytes t d \<and> stored (lw_dest w') = content (lw_dest w')"
proof -
  let ?h = "log_header (Mask (Value 0 (ucast t # d))) t (length d)"
  have g: "good (lw_dest w)" "lw_type_crc w = InitTypeCrc" using assms(1) by (simp_all add: writer_ok_def)
  obtain f1 where f1: "wf_Append dest ?h (lw_dest w) = Some (OK, f1)" "good f1" "content f1 = content (lw_dest w) @ ?h"
    using append [OF g(1)] by blast
  obtain f2 where f2: "wf_Append dest d f1 = Some (OK, f2)" "good f2" "content f2 = content f1 @ d"
    using append [OF f1(2)] by blast
  obtain f3 where f3: "wf_Flush dest f2 = Some (OK, f3)" "good f3" "content f3 = content f2" "stored f3 = content f2"
    using flush [OF f2(2)] by blast
  show ?thesis
    using f1 f2 f3 assms g(2)
    by (simp add: EmitPhysicalRecord_def Let_def Extend_type writer_ok_def phys_bytes_def)
qed

lemma add_record_loop_ok:
  assumes "writer_ok good w"
  shows "\<exists>w'. add_record_loop dest start data w = Some (OK, w') \<and> writer_ok good w' \<and>
    lw_block_offset w' = log_end (lw_block_offset w) (fragments (lw_block_offset w) start data) \<and>
    content (lw_dest w') = content (lw_dest w) @ log_bytes (lw_block_offset w) (fragments (lw_block_offset w) start data) \<and>
    stored (lw_dest w') = content (lw_dest w')"
  using assms
proof (induction "lw_block_offset w" start data arbitrary: w rule: fragments.induct)
  case (1 start data)
  let ?off = "lw_block_offset w" and ?n = "room (lw_block_offset w)"
  let ?t = "fragment_type start (length data \<le> ?n)"
  obtain w1 where w1: "switch_block dest w = Some w1" "writer_ok good w1" "lw_block_offset w1 = next_off ?off"
      "content (lw_dest w1) = content (lw_dest w) @ pad ?off"
    using switch_ok "1.prems" by blast
  obtain w2 where w2: "EmitPhysicalRecord dest ?t (take ?n data) w1 = Some (OK, w2)" "writer_ok good w2"
      "lw_block_offset w2 = next_off ?off + kHeaderSize + length (take ?n data)"
      "content (lw_dest w2) = content (lw_dest w1) @ phys_bytes ?t (take ?n data)" "stored (lw_dest w2) = content (lw_dest w2)"
    using emit_ok [OF w1(2) fragment_type_range, of "take ?n data"] w1(3) next_off_room [of ?off] by fastforce
  have n: "(if length data < kBlockSize - lw_block_offset w1 - kHeaderSize then length data
      else kBlockSize - lw_block_offset w1 - kHeaderSize) = min (length data) ?n"
    by (simp add: w1(3) room_def min_def)
  have t: "take (min (length data) ?n) data = take ?n data" "drop (min (length data) ?n) data = drop ?n data"
      "length data = min (length data) ?n \<longleftrightarrow> length data \<le> ?n"
    by (auto simp: min_def)
  have step: "add_record_loop dest start data w =
      (if length data \<le> ?n then Some (OK, w2) else add_record_loop dest False (drop ?n data) w2)"
    unfolding add_record_loop.simps [of dest start data w]
    by (simp only: w1(1) Option.bind.bind_lunit Let_def n t w2(1) prod.case) simp
  show ?case
  proof (cases "length data \<le> ?n")
    case True
    then show ?thesis using w1 w2 by (simp add: step fragments.simps [of ?off])
  next
    case False
    have o: "lw_block_offset w2 = next_off ?off + kHeaderSize + ?n" using w2(3) False by simp
    obtain w3 where w3: "add_record_loop dest False (drop ?n data) w2 = Some (OK, w3)" "writer_ok good w3"
        "lw_block_offset w3 = log_end (lw_block_offset w2) (fragments (lw_block_offset w2) False (drop ?n data))"
        "content (lw_dest w3) = content (lw_dest w2) @ log_bytes (lw_block_offset w2) (fragments (lw_block_offset w2) False (drop ?n data))"
        "stored (lw_dest w3) = content (lw_dest w3)"
      using "1.hyps" [OF False o [symmetric] w2(2)] by blast
    have f: "fragments ?off start data = (?t, take ?n data) # fragments (lw_block_offset w2) False (drop ?n data)"
      using False by (simp add: fragments.simps [of ?off start] o)
    have l: "next_off ?off + kHeaderSize + length (take ?n data) = lw_block_offset w2" using False o by simp
    show ?thesis
      using w3 w1(4) w2(4) False by (intro exI [of _ w3]) (simp add: step f l del: length_take)
  qed
qed

lemma add_records_ok:
  assumes "writer_ok good w"
  shows "\<exists>w'. add_records dest rs w = Some (OK, w') \<and> writer_ok good w' \<and>
    content (lw_dest w') = content (lw_dest w) @ log_of (lw_block_offset w) rs \<and>
    (rs \<noteq> [] \<longrightarrow> stored (lw_dest w') = content (lw_dest w'))"
  using assms
proof (induction rs arbitrary: w)
  case (Cons r rs)
  obtain w1 where "AddRecord dest r w = Some (OK, w1)" "writer_ok good w1"
      "lw_block_offset w1 = log_end (lw_block_offset w) (fragments (lw_block_offset w) True r)"
      "content (lw_dest w1) = content (lw_dest w) @ log_bytes (lw_block_offset w) (fragments (lw_block_offset w) True r)"
      "stored (lw_dest w1) = content (lw_dest w1)"
    using add_record_loop_ok [OF Cons.prems] by (metis AddRecord_def)
  with Cons.IH [of w1] show ?case by (cases rs) auto
qed simp

end

section \<open>The reader\<close>

text \<open>
  A reader that stands at offset \<open>off\<close> of a block, with \<open>S\<close> left to read: the rest of the
  block is in the buffer, and a short block means the end of the file.
\<close>

definition reader_at :: "('f \<Rightarrow> bool) \<Rightarrow> ('f \<Rightarrow> byte list) \<Rightarrow> nat \<Rightarrow> byte list \<Rightarrow> 'f log_reader \<Rightarrow> bool" where
  "reader_at fine rest off S r \<longleftrightarrow>
     fine (lr_file r) \<and> off \<le> kBlockSize \<and> lr_buffer r = take (kBlockSize - off) S \<and>
     rest (lr_file r) = drop (kBlockSize - off) S \<and> (lr_eof r \<longleftrightarrow> length S < kBlockSize - off) \<and>
     lr_initial_offset r = 0 \<and> \<not> lr_resyncing r"

text \<open>At most \<open>n\<close> records, up to the end of the log.\<close>

primrec read_records :: "'f sequential_file \<Rightarrow> nat \<Rightarrow> 'f log_reader \<Rightarrow> (slice list \<times> 'f log_reader) option" where
  "read_records src 0 r = Some ([], r)"
| "read_records src (Suc n) r =
     Option.bind (ReadRecord src r) (\<lambda>(record, r).
       case record of
         None \<Rightarrow> Some ([], r)
       | Some x \<Rightarrow> Option.bind (read_records src n r) (\<lambda>(xs, r). Some (x # xs, r)))"

lemma header_fields:
  assumes "n < 65536" "t \<in> {1, 2, 3, 4}"
  shows "log_header crc t n ! 6 = ucast t" "scast (ucast t :: byte) = t"
    "unat ((ucast (log_header crc t n ! 4) AND 0xff) OR push_bit 8 (ucast (log_header crc t n ! 5) AND 0xff) :: u32) = n"
proof -
  show "log_header crc t n ! 6 = ucast t" by (simp add: log_header_def nth_append)
  show "scast (ucast t :: byte) = t" using assms(2) by auto
  let ?a = "ucast (of_nat n AND 0xff :: u64) :: byte" and ?b = "ucast (drop_bit 8 (of_nat n :: u64)) :: byte"
  have high: "\<not> bit n k" if "16 \<le> k" for k
  proof -
    have "n < 2 ^ k" using assms(1) power_increasing [OF that, of "2 :: nat"] by simp
    then show ?thesis by (simp add: bit_iff_odd)
  qed
  have m: "0xff = (mask 8 :: u32)" "0xff = (mask 8 :: u64)" by (simp_all add: mask_eq_exp_minus_1)
  have "(ucast ?a AND 0xff) OR push_bit 8 (ucast ?b AND 0xff) = (of_nat n :: u32)"
  proof (rule bit_word_eqI)
    fix k assume "k < LENGTH(32)"
    then consider "k < 8" | "8 \<le> k" "k < 16" | "16 \<le> k" "k < 32" by fastforce
    then show "bit ((ucast ?a AND 0xff) OR push_bit 8 (ucast ?b AND 0xff) :: u32) k = bit (of_nat n :: u32) k"
      unfolding m using high by cases (auto simp: bit_simps)
  qed
  then have "unat ((ucast ?a AND 0xff) OR push_bit 8 (ucast ?b AND 0xff) :: u32) = n"
    using assms(1) by (simp add: unat_of_nat_small)
  then show "unat ((ucast (log_header crc t n ! 4) AND 0xff) OR push_bit 8 (ucast (log_header crc t n ! 5) AND 0xff) :: u32) = n"
    by (simp add: log_header_def nth_append)
qed

lemma header_nth:
  "(log_header crc t n @ xs) ! 4 = log_header crc t n ! 4" "(log_header crc t n @ xs) ! 5 = log_header crc t n ! 5"
  "(log_header crc t n @ xs) ! 6 = log_header crc t n ! 6"
  by (simp_all add: nth_append kHeaderSize_def)

lemma parse_ok:
  assumes "reader_at fine rest off S r" "off + kHeaderSize + length d \<le> kBlockSize" "t \<in> {1, 2, 3, 4}"
    and S: "S = phys_bytes t d @ S'"
  shows "\<exists>r'. parse_record fr r = (t, d, r') \<and> reader_at fine rest (off + kHeaderSize + length d) S' r' \<and>
    lr_reports r' = lr_reports r"
proof -
  let ?k = "kBlockSize - (off + kHeaderSize + length d)"
  let ?h = "log_header (Mask (Value 0 (ucast t # d))) t (length d)"
  have buf: "lr_buffer r = ?h @ d @ take ?k S'"
    using assms by (simp add: reader_at_def phys_bytes_def)
  have n: "length d < 65536" using assms(2) by (simp add: log_sizes)
  note f = header_fields [OF n assms(3)]
  have d6: "drop 6 (?h @ d @ xs) = ucast t # d @ xs" "drop kHeaderSize (?h @ d @ xs) = d @ xs" for xs
    by (simp_all add: log_header_def kHeaderSize_def)
  have dec: "DecodeFixed32 (?h @ xs) = Mask (Value 0 (ucast t # d))" for xs
    by (simp add: log_header_def)
  have z: "t \<noteq> kZeroType" using assms(3) by (auto simp: kZeroType_def)
  have init: "lr_initial_offset r = 0" using assms(1) by (simp add: reader_at_def)
  have "parse_record fr r = (t, d, r\<lparr>lr_buffer := take ?k S'\<rparr>)"
    unfolding parse_record_def Let_def buf header_nth f dec d6
    using z init by (simp add: Unmask_Mask remove_prefix_def buf)
  moreover have "reader_at fine rest (off + kHeaderSize + length d) S' (r\<lparr>lr_buffer := take ?k S'\<rparr>)"
    using assms(1,2) by (auto simp: reader_at_def S add.assoc)
  ultimately show ?thesis by auto
qed

context sequential_contract
begin

text \<open>At the end of a block, the reader goes on with the next one.\<close>

lemma refill:
  assumes "reader_at fine rest off S r" "kBlockSize - off < kHeaderSize" "kBlockSize - off \<le> length S"
  shows "\<exists>r'. ReadPhysicalRecord src fr r = ReadPhysicalRecord src fr r' \<and>
    reader_at fine rest 0 (drop (kBlockSize - off) S) r' \<and> lr_reports r' = lr_reports r"
proof -
  have r: "fine (lr_file r)" "length (lr_buffer r) < kHeaderSize" "\<not> lr_eof r"
    "rest (lr_file r) = drop (kBlockSize - off) S" "lr_initial_offset r = 0" "\<not> lr_resyncing r"
    using assms by (auto simp: reader_at_def)
  let ?S = "drop (kBlockSize - off) S"
  let ?r = "\<lambda>f. r\<lparr>lr_file := f, lr_buffer := take kBlockSize ?S,
      lr_end_of_buffer_offset := lr_end_of_buffer_offset r + of_nat (length (take kBlockSize ?S))\<rparr>"
  obtain f where f: "sf_Read src kBlockSize [] (lr_file r) = Some (OK, take kBlockSize ?S, f)" "fine f"
      "rest f = drop kBlockSize ?S"
    using read [OF r(1), of kBlockSize "[]"] r(4) by auto
  let ?r' = "if length (take kBlockSize ?S) < kBlockSize then (?r f)\<lparr>lr_eof := True\<rparr> else ?r f"
  have "ReadPhysicalRecord src fr r = ReadPhysicalRecord src fr ?r'"
    unfolding ReadPhysicalRecord.simps [of src fr r] using r(2,3) f(1) by (simp add: Let_def)
  moreover have "reader_at fine rest 0 ?S ?r'"
    using f r(3,5,6) by (auto simp: reader_at_def kBlockSize_def)
  ultimately show ?thesis by (intro exI [of _ ?r']) simp
qed

lemma physical_ok:
  assumes "reader_at fine rest off (pad off @ phys_bytes t d @ S') r" "next_off off + kHeaderSize + length d \<le> kBlockSize"
    and "t \<in> {1, 2, 3, 4}"
  shows "\<exists>r'. ReadPhysicalRecord src fr r = Some (t, d, r') \<and>
    reader_at fine rest (next_off off + kHeaderSize + length d) S' r' \<and> lr_reports r' = lr_reports r"
proof -
  obtain r1 where r1: "ReadPhysicalRecord src fr r = ReadPhysicalRecord src fr r1"
      "reader_at fine rest (next_off off) (phys_bytes t d @ S') r1" "lr_reports r1 = lr_reports r"
  proof (cases "kBlockSize - off < kHeaderSize")
    case True
    then show ?thesis
      using refill [OF assms(1) True, of fr] that by (auto simp: pad_def next_off_def)
  next
    case False
    then show ?thesis using assms(1) that [of r] by (simp add: pad_def next_off_def)
  qed
  have "\<not> length (lr_buffer r1) < kHeaderSize"
    using r1(2) assms(2) by (simp add: reader_at_def)
  then have "ReadPhysicalRecord src fr r1 = Some (parse_record fr r1)"
    by (simp add: ReadPhysicalRecord.simps [of src fr r1])
  with parse_ok [OF r1(2) assms(2,3) refl, of fr] r1 show ?thesis by auto
qed

text \<open>A physical record that is not there completely is the end of the file.\<close>

lemma physical_cut:
  assumes "reader_at fine rest off S r" "S @ X = pad off @ phys_bytes t d" "X \<noteq> []"
    and "next_off off + kHeaderSize + length d \<le> kBlockSize" "t \<in> {1, 2, 3, 4}"
  shows "\<exists>r'. ReadPhysicalRecord src fr r = Some (kEof, fr, r') \<and> lr_reports r' = lr_reports r \<and> \<not> lr_resyncing r'"
proof -
  have end': "\<exists>r'. ReadPhysicalRecord src fr r = Some (kEof, fr, r') \<and> lr_reports r' = lr_reports r \<and> \<not> lr_resyncing r'"
    if r: "reader_at fine rest o' T r" and o': "kHeaderSize \<le> kBlockSize - o'" "o' + kHeaderSize + length d \<le> kBlockSize"
      and T: "T @ X = phys_bytes t d" for o' T and r :: "'f log_reader"
  proof -
    have len: "length T < kHeaderSize + length d"
      using arg_cong [OF T, of length] assms(3) by (cases X) simp_all
    then have eof: "lr_eof r" "lr_buffer r = T" "\<not> lr_resyncing r" using r o'(2) by (auto simp: reader_at_def)
    show ?thesis
    proof (cases "length T < kHeaderSize")
      case True
      then show ?thesis using eof by (simp add: ReadPhysicalRecord.simps [of src fr r])
    next
      case False
      have n: "length d < 65536" using o'(2) by (simp add: log_sizes)
      let ?h = "log_header (Mask (Value 0 (ucast t # d))) t (length d)"
      obtain U where U: "T = ?h @ U"
      proof -
        have "take kHeaderSize T = take kHeaderSize (phys_bytes t d)"
          using False T by (metis append_eq_append_conv_if append_take_drop_id take_append take_all_iff not_less diff_is_0_eq take0 append_Nil2)
        then have "T = ?h @ drop kHeaderSize T"
          by (metis append_take_drop_id phys_bytes_def length_log_header append_eq_conv_conj)
        then show ?thesis by (rule that)
      qed
      have nth: "T ! 4 = ?h ! 4" "T ! 5 = ?h ! 5" unfolding U by (rule header_nth)+
      have "parse_record fr r = (kEof, fr, r\<lparr>lr_buffer := []\<rparr>)"
        using eof len unfolding parse_record_def Let_def eof(2) nth header_fields [OF n assms(5)]
        by simp
      then show ?thesis using False eof by (simp add: ReadPhysicalRecord.simps [of src fr r])
    qed
  qed
  show ?thesis
  proof (cases "kBlockSize - off < kHeaderSize")
    case False
    then show ?thesis using end' [of off S r] assms by (simp add: pad_def next_off_def)
  next
    case short: True
    show ?thesis
    proof (cases "kBlockSize - off \<le> length S")
      case True
      obtain r1 where r1: "ReadPhysicalRecord src fr r = ReadPhysicalRecord src fr r1"
        "reader_at fine rest 0 (drop (kBlockSize - off) S) r1" "lr_reports r1 = lr_reports r"
        using refill [OF assms(1) short True] by blast
      have "drop (kBlockSize - off) S @ X = phys_bytes t d"
        using arg_cong [OF assms(2), of "drop (kBlockSize - off)"] True short by (simp add: pad_def)
      from end' [OF r1(2) _ _ this] r1 assms(4) show ?thesis
        using short by (auto simp: next_off_def log_sizes)
    next
      case False
      then have "lr_eof r" "length (lr_buffer r) < kHeaderSize" "\<not> lr_resyncing r"
        using assms(1) short by (auto simp: reader_at_def)
      then show ?thesis by (simp add: ReadPhysicalRecord.simps [of src fr r])
    qed
  qed
qed

text \<open>The loop of \<open>ReadRecord\<close> after a physical record of the writer, and at the end.\<close>

lemma loop_step:
  assumes "ReadPhysicalRecord src fr r = Some (fragment_type start e, d, r1)" "\<not> lr_resyncing r1"
  shows "\<exists>p' q. read_record_loop src (\<not> start) p scratch fr r =
    (if e then Some (Some ((if start then [] else scratch) @ d), r1\<lparr>lr_last_record_offset := q\<rparr>)
     else read_record_loop src True p' ((if start then [] else scratch) @ d) d r1)"
proof -
  have same: "r1\<lparr>lr_resyncing := False\<rparr> = r1" using assms(2) by (cases r1) simp
  show ?thesis
    unfolding read_record_loop.simps [of src "\<not> start" p scratch fr r]
    using assms by (cases start; cases e)
      (auto simp: fragment_type_def kFullType_def kFirstType_def kMiddleType_def kLastType_def Let_def same)
qed

lemma loop_eof:
  assumes "ReadPhysicalRecord src fr r = Some (kEof, fr, r1)" "\<not> lr_resyncing r1"
  shows "read_record_loop src b p scratch fr r = Some (None, r1)"
proof -
  have same: "r1\<lparr>lr_resyncing := False\<rparr> = r1" using assms(2) by (cases r1) simp
  show ?thesis
    unfolding read_record_loop.simps [of src b p scratch fr r]
    using assms by (simp add: kEof_def kMaxRecordType_def kFullType_def kFirstType_def kMiddleType_def kLastType_def Let_def same)
qed

lemma fragment_fits: "next_off off + kHeaderSize + length (take (room off) data) \<le> kBlockSize"
  using next_off_room [of off] by simp

lemma read_fragments_ok:
  assumes "reader_at fine rest off (log_bytes off (fragments off start data) @ S') r"
  shows "\<exists>r'. read_record_loop src (\<not> start) p scratch fr r = Some (Some ((if start then [] else scratch) @ data), r') \<and>
    reader_at fine rest (log_end off (fragments off start data)) S' r' \<and> lr_reports r' = lr_reports r"
  using assms
proof (induction off start data arbitrary: p scratch fr r rule: fragments.induct)
  case (1 off start data)
  let ?d = "take (room off) data" and ?e = "length data \<le> room off"
  let ?fs = "if ?e then [] else fragments (next_off off + kHeaderSize + room off) False (drop (room off) data)"
  have fs: "fragments off start data = (fragment_type start ?e, ?d) # ?fs" by (rule fragments.simps)
  let ?o = "next_off off + kHeaderSize + length ?d"
  obtain r1 where r1: "ReadPhysicalRecord src fr r = Some (fragment_type start ?e, ?d, r1)"
      "reader_at fine rest ?o (log_bytes ?o ?fs @ S') r1" "lr_reports r1 = lr_reports r"
    using physical_ok [OF _ fragment_fits fragment_type_range] "1.prems" unfolding fs log_bytes.simps append_assoc by blast
  have "\<not> lr_resyncing r1" using r1(2) by (simp add: reader_at_def)
  then obtain p' q where step: "read_record_loop src (\<not> start) p scratch fr r =
      (if ?e then Some (Some ((if start then [] else scratch) @ ?d), r1\<lparr>lr_last_record_offset := q\<rparr>)
       else read_record_loop src True p' ((if start then [] else scratch) @ ?d) ?d r1)"
    using loop_step [OF r1(1)] by blast
  show ?case
  proof (cases ?e)
    case True
    then show ?thesis using step r1 by (simp add: fs reader_at_def)
  next
    case False
    then have o: "?o = next_off off + kHeaderSize + room off" by simp
    have "reader_at fine rest (next_off off + kHeaderSize + room off)
        (log_bytes (next_off off + kHeaderSize + room off) ?fs @ S') r1"
      using r1(2) unfolding o .
    with "1.IH" [OF False, of r1 p' "(if start then [] else scratch) @ ?d" ?d] False step r1(3)
    show ?thesis by (simp add: fs)
  qed
qed

lemma read_fragments_cut:
  assumes "reader_at fine rest off S r" "S @ X = log_bytes off (fragments off start data)" "X \<noteq> []"
  shows "\<exists>r'. read_record_loop src (\<not> start) p scratch fr r = Some (None, r') \<and> lr_reports r' = lr_reports r"
  using assms
proof (induction off start data arbitrary: p scratch fr r S rule: fragments.induct)
  case (1 off start data)
  let ?d = "take (room off) data" and ?e = "length data \<le> room off"
  let ?t = "fragment_type start ?e"
  let ?fs = "if ?e then [] else fragments (next_off off + kHeaderSize + room off) False (drop (room off) data)"
  have fs: "fragments off start data = (?t, ?d) # ?fs" by (rule fragments.simps)
  let ?o = "next_off off + kHeaderSize + length ?d"
  let ?A = "pad off @ phys_bytes ?t ?d"
  have "S @ X = ?A @ log_bytes ?o ?fs" using "1.prems"(2) by (simp add: fs)
  then consider (cut) us where "S @ us = ?A" "us \<noteq> []" | (whole) us where "S = ?A @ us" "us @ X = log_bytes ?o ?fs"
    by (fastforce simp: append_eq_append_conv2)
  then show ?case
  proof cases
    case cut
    then show ?thesis
      using physical_cut [OF "1.prems"(1) cut fragment_fits fragment_type_range, of fr] loop_eof by blast
  next
    case whole
    obtain r1 where r1: "ReadPhysicalRecord src fr r = Some (?t, ?d, r1)" "reader_at fine rest ?o us r1"
        "lr_reports r1 = lr_reports r"
      using physical_ok [OF _ fragment_fits fragment_type_range] "1.prems"(1) unfolding whole(1) append_assoc by blast
    have e: "\<not> ?e" using whole(2) "1.prems"(3) by auto
    then have o: "?o = next_off off + kHeaderSize + room off" by simp
    have "\<not> lr_resyncing r1" using r1(2) by (simp add: reader_at_def)
    then obtain p' where "read_record_loop src (\<not> start) p scratch fr r =
        read_record_loop src (\<not> False) p' ((if start then [] else scratch) @ ?d) ?d r1"
      using loop_step [OF r1(1)] e by (metis (full_types))
    moreover have "us @ X = log_bytes (next_off off + kHeaderSize + room off)
        (fragments (next_off off + kHeaderSize + room off) False (drop (room off) data))"
      using whole(2) e unfolding o by simp
    ultimately show ?thesis
      using "1.IH" [OF e r1(2) [unfolded o]] "1.prems"(3) r1(3) by auto
  qed
qed

lemma ReadRecord_loop: "reader_at fine rest off S r \<Longrightarrow> ReadRecord src r = read_record_loop src (\<not> True) 0 [] [] r"
  by (simp add: ReadRecord_def reader_at_def)

lemma log_bytes_not_empty: "log_bytes off (fragments off start data) \<noteq> []"
  by (simp add: fragments.simps [of off] phys_bytes_def log_header_def)

lemma read_records_ok:
  assumes "reader_at fine rest off (take n (log_of off rs)) r"
  shows "\<exists>k r'. read_records src (Suc (length rs)) r = Some (take k rs, r') \<and> lr_reports r' = lr_reports r \<and>
    (\<forall>j \<le> length rs. length (log_of off (take j rs)) \<le> n \<longrightarrow> j \<le> k)"
  using assms
proof (induction rs arbitrary: off n r)
  case Nil
  obtain r' where "read_record_loop src (\<not> True) 0 [] [] r = Some (None, r')" "lr_reports r' = lr_reports r"
    using read_fragments_cut [OF Nil, where X = "log_bytes off (fragments off True [])" and start = True and data = "[]"
      and p = 0 and scratch = "[]" and fr = "[]"] log_bytes_not_empty by auto
  then show ?case using ReadRecord_loop [OF Nil] by auto
next
  case (Cons x rs)
  let ?fs = "fragments off True x"
  let ?L = "log_bytes off ?fs"
  show ?case
  proof (cases "n < length ?L")
    case True
    have S: "reader_at fine rest off (take n ?L) r" using Cons.prems True by simp
    obtain r' where r': "read_record_loop src (\<not> True) 0 [] [] r = Some (None, r')" "lr_reports r' = lr_reports r"
      using read_fragments_cut [OF S, where X = "drop n ?L" and start = True and data = x
        and p = 0 and scratch = "[]" and fr = "[]"] True by auto
    have "j \<le> 0" if "length (log_of off (take j (x # rs))) \<le> n" for j
      using that True by (cases j) auto
    with r' show ?thesis using ReadRecord_loop [OF S] by (intro exI [of _ 0]) auto
  next
    case False
    let ?o = "log_end off ?fs" and ?n = "n - length ?L"
    have S: "reader_at fine rest off (?L @ take ?n (log_of ?o rs)) r" using Cons.prems False by simp
    obtain r1 where r1: "read_record_loop src (\<not> True) 0 [] [] r = Some (Some x, r1)"
        "reader_at fine rest ?o (take ?n (log_of ?o rs)) r1" "lr_reports r1 = lr_reports r"
      using read_fragments_ok [OF S, of 0 "[]" "[]"] by auto
    obtain k r2 where k: "read_records src (Suc (length rs)) r1 = Some (take k rs, r2)" "lr_reports r2 = lr_reports r1"
        "\<And>j. j \<le> length rs \<Longrightarrow> length (log_of ?o (take j rs)) \<le> ?n \<Longrightarrow> j \<le> k"
      using Cons.IH [OF r1(2)] by blast
    have "j \<le> Suc k" if "j \<le> length (x # rs)" "length (log_of off (take j (x # rs))) \<le> n" for j
      using that k(3) [of "j - 1"] by (cases j) auto
    moreover have "read_records src (Suc (length (x # rs))) r = Some (take (Suc k) (x # rs), r2)"
      unfolding read_records.simps(2) [of src "length (x # rs)"] ReadRecord_loop [OF S] r1(1)
      using k(1) by (simp del: read_records.simps)
    ultimately show ?thesis using k(2) r1(3) by (intro exI [of _ "Suc k"] exI [of _ r2]) simp
  qed
qed

end

section \<open>Arbitrary contents\<close>

text \<open>What is left to read bounds the number of physical records, whatever the bytes are.\<close>

definition left_over :: "('f \<Rightarrow> byte list) \<Rightarrow> 'f log_reader \<Rightarrow> nat" where
  "left_over rest r = length (lr_buffer r) + 2 * length (rest (lr_file r))"

lemma Report_fields [simp]:
  "lr_file (ReportDrop b st r) = lr_file r" "lr_buffer (ReportDrop b st r) = lr_buffer r"
  "lr_file (ReportCorruption b m r) = lr_file r" "lr_buffer (ReportCorruption b m r) = lr_buffer r"
  by (simp_all add: ReportDrop_def ReportCorruption_def)

lemma left_over_simps [simp]:
  "left_over rest (ReportDrop b st r) = left_over rest r" "left_over rest (ReportCorruption b m r) = left_over rest r"
  "left_over rest (r\<lparr>lr_resyncing := q\<rparr>) = left_over rest r" "left_over rest (r\<lparr>lr_last_record_offset := p\<rparr>) = left_over rest r"
  by (simp_all add: left_over_def)

lemma parse_shrinks:
  assumes "kHeaderSize \<le> length (lr_buffer r)" "parse_record fr r = (t, fr', r')"
  shows "lr_file r' = lr_file r" "left_over rest r' < left_over rest r"
  using assms
  by (auto simp: parse_record_def Let_def left_over_def kHeaderSize_def remove_prefix_def split: if_splits)

context sequential_contract
begin

lemma physical_total_step:
  assumes "fine (lr_file r)" "kHeaderSize \<le> length (lr_buffer r) \<or> lr_eof r"
  shows "\<exists>t fr' r'. ReadPhysicalRecord src fr r = Some (t, fr', r') \<and> fine (lr_file r') \<and>
    (t = kEof \<or> left_over rest r' < left_over rest r)"
proof (cases "length (lr_buffer r) < kHeaderSize")
  case True
  then show ?thesis using assms by (simp add: ReadPhysicalRecord.simps [of src fr r])
next
  case False
  obtain t fr' r' where p: "parse_record fr r = (t, fr', r')" by (metis prod_cases3)
  with False parse_shrinks(1) [OF _ p] parse_shrinks(2) [OF _ p, of rest] assms(1) show ?thesis
    by (simp add: ReadPhysicalRecord.simps [of src fr r])
qed

lemma physical_total:
  assumes "fine (lr_file r)"
  shows "\<exists>t fr' r'. ReadPhysicalRecord src fr r = Some (t, fr', r') \<and> fine (lr_file r') \<and>
    (t = kEof \<or> left_over rest r' < left_over rest r)"
proof (cases "kHeaderSize \<le> length (lr_buffer r) \<or> lr_eof r")
  case True
  then show ?thesis by (rule physical_total_step [OF assms])
next
  case False
  let ?b = "take kBlockSize (rest (lr_file r))"
  obtain f where f: "sf_Read src kBlockSize [] (lr_file r) = Some (OK, ?b, f)" "fine f" "rest f = drop kBlockSize (rest (lr_file r))"
    using read [OF assms] by blast
  let ?r = "r\<lparr>lr_file := f, lr_buffer := ?b, lr_end_of_buffer_offset := lr_end_of_buffer_offset r + of_nat (length ?b)\<rparr>"
  let ?r1 = "if length ?b < kBlockSize then ?r\<lparr>lr_eof := True\<rparr> else ?r"
  have step: "ReadPhysicalRecord src fr r = ReadPhysicalRecord src fr ?r1"
    unfolding ReadPhysicalRecord.simps [of src fr r] using False f(1) by (simp add: Let_def)
  have le: "left_over rest ?r1 \<le> left_over rest r"
    using f(3) by (auto simp: left_over_def min_def)
  have "fine (lr_file ?r1)" "kHeaderSize \<le> length (lr_buffer ?r1) \<or> lr_eof ?r1"
    using f(2) by (auto simp: kBlockSize_def kHeaderSize_def)
  with step le obtain r1 where r1: "ReadPhysicalRecord src fr r = ReadPhysicalRecord src fr r1"
      "left_over rest r1 \<le> left_over rest r" "fine (lr_file r1)" "kHeaderSize \<le> length (lr_buffer r1) \<or> lr_eof r1"
    by blast
  from physical_total_step [OF r1(3,4), of fr] show ?thesis
    unfolding r1(1) using r1(2) by (blast intro: order_less_le_trans)
qed

lemma loop_total:
  assumes "fine (lr_file r)"
  shows "\<exists>x r'. read_record_loop src b p scratch fr r = Some (x, r') \<and> fine (lr_file r') \<and>
    (x = None \<or> left_over rest r' < left_over rest r)"
  using assms
proof (induction "left_over rest r" arbitrary: b p scratch fr r rule: less_induct)
  case less
  obtain t fr' r1 where r1: "ReadPhysicalRecord src fr r = Some (t, fr', r1)" "fine (lr_file r1)"
      "t = kEof \<or> left_over rest r1 < left_over rest r"
    using physical_total [OF less.prems] by blast
  show ?case
  proof (cases "t = kEof")
    case True
    then show ?thesis
      unfolding read_record_loop.simps [of src b p scratch fr r] using r1(1,2)
      by (simp add: Let_def kEof_def kMaxRecordType_def kFullType_def kFirstType_def kMiddleType_def kLastType_def)
  next
    case False
    then have l: "left_over rest r1 < left_over rest r" using r1(3) by simp
    define returns where "returns res \<longleftrightarrow> (\<exists>x r'. res = Some (x, r') \<and> fine (lr_file r') \<and>
        (x = None \<or> left_over rest r' < left_over rest r))" for res :: "(slice option \<times> 'f log_reader) option"
    have IH: "returns (read_record_loop src b p scratch fr r2)"
      if "left_over rest r2 = left_over rest r1" "lr_file r2 = lr_file r1" for b p scratch fr r2
      using less.hyps [of r2 b p scratch fr] that l r1(2) unfolding returns_def by (metis order_less_trans)
    have ret: "returns (Some (x, r2))" if "left_over rest r2 = left_over rest r1" "lr_file r2 = lr_file r1" for x r2
      using that l r1(2) by (simp add: returns_def)
    have "returns (read_record_loop src b p scratch fr r)"
      unfolding read_record_loop.simps [of src b p scratch fr r] r1(1) Option.bind.bind_lunit prod.case Let_def
      by (simp add: IH ret)
    then show ?thesis by (simp add: returns_def)
  qed
qed

end

context sequential_contract
begin

lemma SkipToInitialBlock_total:
  assumes "fine (lr_file r)"
  shows "\<exists>r1. SkipToInitialBlock src r = Some (True, r1) \<and> fine (lr_file r1) \<and> left_over rest r1 \<le> left_over rest r"
proof -
  define o' where "o' = lr_initial_offset r mod of_nat kBlockSize"
  define m where "m = (if o' > of_nat (kBlockSize - 6) then lr_initial_offset r - o' + of_nat kBlockSize else lr_initial_offset r - o')"
  obtain f where "sf_Skip src m (lr_file r) = Some (OK, f)" "fine f" "rest f = drop (unat m) (rest (lr_file r))"
    using skip [OF assms] by blast
  then show ?thesis
    unfolding SkipToInitialBlock_def Let_def o'_def [symmetric] m_def [symmetric]
    using assms by (auto simp: left_over_def)
qed

lemma ReadRecord_total:
  assumes "fine (lr_file r)"
  shows "\<exists>x r'. ReadRecord src r = Some (x, r') \<and> fine (lr_file r') \<and> (x = None \<or> left_over rest r' < left_over rest r)"
proof -
  obtain r1 where r1: "(if lr_last_record_offset r < lr_initial_offset r then SkipToInitialBlock src r else Some (True, r)) = Some (True, r1)"
      "fine (lr_file r1)" "left_over rest r1 \<le> left_over rest r"
  proof (cases "lr_last_record_offset r < lr_initial_offset r")
    case True
    with SkipToInitialBlock_total [OF assms] that show ?thesis by auto
  qed (use assms that in simp)
  from loop_total [OF r1(2), of False 0 "[]" "[]"] obtain x r2
    where "read_record_loop src False 0 [] [] r1 = Some (x, r2)" "fine (lr_file r2)" "x = None \<or> left_over rest r2 < left_over rest r1"
    by blast
  with r1 show ?thesis unfolding ReadRecord_def r1(1) by auto
qed

lemma read_records_end:
  assumes "fine (lr_file r)"
  shows "\<exists>n xs r'. read_records src n r = Some (xs, r') \<and> length xs < n"
  using assms
proof (induction "left_over rest r" arbitrary: r rule: less_induct)
  case less
  obtain x r1 where r1: "ReadRecord src r = Some (x, r1)" "fine (lr_file r1)" "x = None \<or> left_over rest r1 < left_over rest r"
    using ReadRecord_total [OF less.prems] by blast
  show ?case
  proof (cases x)
    case None
    then have "read_records src 1 r = Some ([], r1)" using r1(1) by simp
    then show ?thesis by force
  next
    case (Some y)
    then obtain n xs r2 where "read_records src n r1 = Some (xs, r2)" "length xs < n"
      using less.hyps r1 by blast
    then have "read_records src (Suc n) r = Some (y # xs, r2)" "length (y # xs) < Suc n"
      using r1(1) Some by simp_all
    then show ?thesis by blast
  qed
qed

end

section \<open>Properties of the log\<close>

lemma log_of_start: "log_of 0 rs = log_of kBlockSize rs"
proof (cases rs)
  case (Cons r rs')
  have n: "next_off kBlockSize = next_off 0" "pad kBlockSize = pad 0" "room kBlockSize = room 0"
    by (simp_all add: next_off_def pad_def room_def log_sizes)
  have f: "fragments 0 True r = fragments kBlockSize True r"
    by (simp add: fragments.simps [of 0] fragments.simps [of kBlockSize] n)
  obtain t d fs where c: "fragments kBlockSize True r = (t, d) # fs"
    by (simp add: fragments.simps [of kBlockSize])
  have "log_bytes 0 ((t, d) # fs) = log_bytes kBlockSize ((t, d) # fs)" "log_end 0 ((t, d) # fs) = log_end kBlockSize ((t, d) # fs)"
    by (simp_all add: n)
  then show ?thesis by (simp add: Cons f c del: log_bytes.simps log_end.simps)
qed simp

text \<open>
  (C7) The log survives crashes: on a file without I/O errors, records are written and
  flushed one after the other; whatever prefix of the file is there when it is read again,
  the reader returns the records in order, at least all those that are completely within the
  prefix, and nothing else, and it reports no corruption. From the whole file it returns all
  records.
\<close>

theorem log_crash_recovery:
  assumes "writable_contract dest good content stored" "good f" "content f = []"
    and "sequential_contract src fine rest" "rs \<noteq> []"
  shows "\<exists>w. add_records dest rs (make_Writer f) = Some (OK, w) \<and>
    stored (lw_dest w) = log_of 0 rs \<and>
    (\<forall>n g reporter checksum. fine g \<and> rest g = take n (stored (lw_dest w)) \<longrightarrow>
      (\<exists>k r. read_records src (Suc (length rs)) (make_Reader g reporter checksum 0) = Some (take k rs, r) \<and>
        lr_reports r = [] \<and> (\<forall>j \<le> length rs. length (log_of 0 (take j rs)) \<le> n \<longrightarrow> j \<le> k)))"
proof -
  have "writer_ok good (make_Writer f)"
    using assms(2) by (simp add: writer_ok_def make_Writer_def)
  then obtain w where w: "add_records dest rs (make_Writer f) = Some (OK, w)" "content (lw_dest w) = log_of 0 rs"
      "stored (lw_dest w) = content (lw_dest w)"
    using writable_contract.add_records_ok [OF assms(1), of "make_Writer f" rs] assms(3,5) by (auto simp: make_Writer_def)
  have "\<exists>k r. read_records src (Suc (length rs)) (make_Reader g reporter checksum 0) = Some (take k rs, r) \<and>
      lr_reports r = [] \<and> (\<forall>j \<le> length rs. length (log_of 0 (take j rs)) \<le> n \<longrightarrow> j \<le> k)"
    if "fine g" "rest g = take n (log_of 0 rs)" for n g reporter checksum
  proof -
    have "reader_at fine rest kBlockSize (take n (log_of kBlockSize rs)) (make_Reader g reporter checksum 0)"
      using that by (simp add: reader_at_def make_Reader_def log_of_start)
    from sequential_contract.read_records_ok [OF assms(4) this] show ?thesis
      by (simp add: make_Reader_def log_of_start)
  qed
  with w show ?thesis by auto
qed

text \<open>
  (C30) Reading always ends: whatever bytes a file holds and wherever reading begins,
  \<open>ReadRecord\<close> returns, and after finitely many records it reports the end of the log.
\<close>

theorem log_reading_ends:
  assumes "sequential_contract src fine rest" "fine g"
  shows "(\<exists>x r. ReadRecord src (make_Reader g reporter checksum initial_offset) = Some (x, r)) \<and>
    (\<exists>n xs r. read_records src n (make_Reader g reporter checksum initial_offset) = Some (xs, r) \<and> length xs < n)"
proof -
  have "fine (lr_file (make_Reader g reporter checksum initial_offset))" using assms(2) by (simp add: make_Reader_def)
  from sequential_contract.ReadRecord_total [OF assms(1) this] sequential_contract.read_records_end [OF assms(1) this]
  show ?thesis by blast
qed

section \<open>Instances\<close>

theorem log_reading_ends_witness:
  "\<exists>n xs r. read_records (PosixSequentialFile disk_posix 4 [97]) n
      (make_Reader \<lparr>ds_file = [], ds_unread = replicate 70000 255, ds_schedule = [0]\<rparr> True True 40000) = Some (xs, r) \<and> length xs < n"
  using log_reading_ends [OF disk.sfile.sequential_contract_axioms [of 4 "[97]"] TrueI] by blast

theorem log_crash_recovery_witness:
  "\<exists>w. add_records (posix_writable disk_posix) [[1, 2], []]
      (make_Writer (PosixWritableFile [97] 3 \<lparr>ds_file = [], ds_unread = [], ds_schedule = [1, 0]\<rparr>)) = Some (OK, w) \<and>
    (\<exists>k r. read_records (PosixSequentialFile disk_posix 4 [97]) 3
        (make_Reader \<lparr>ds_file = [], ds_unread = take 20 (ds_file (pw_world (lw_dest w))), ds_schedule = []\<rparr> True True 0) =
      Some (take k [[1, 2], []], r) \<and> lr_reports r = [])"
proof -
  let ?f = "PosixWritableFile [97] 3 \<lparr>ds_file = [], ds_unread = [], ds_schedule = [1, 0]\<rparr>"
  have "wfile_good (\<lambda>_. True) 3 ?f" "wfile_content ds_file ?f = []"
    by (simp_all add: wfile_good_def wfile_content_def PosixWritableFile_def)
  note log = log_crash_recovery [OF disk.axioms_wfile this disk.sfile.sequential_contract_axioms [of 4 "[97]"], of "[[1, 2], []]"]
  obtain w where w: "add_records (posix_writable disk_posix) [[1, 2], []] (make_Writer ?f) = Some (OK, w)"
    and r: "\<forall>n g reporter checksum. True \<and> ds_unread g = take n (wfile_stored ds_file (lw_dest w)) \<longrightarrow>
      (\<exists>k r. read_records (PosixSequentialFile disk_posix 4 [97]) (Suc (length [[1, 2 :: byte], []])) (make_Reader g reporter checksum 0) =
        Some (take k [[1, 2], []], r) \<and> lr_reports r = [] \<and>
        (\<forall>j \<le> length [[1, 2 :: byte], []]. length (log_of 0 (take j [[1, 2], []])) \<le> n \<longrightarrow> j \<le> k))"
    using log [OF list.distinct(2)] by blast
  let ?g = "\<lparr>ds_file = [], ds_unread = take 20 (ds_file (pw_world (lw_dest w))), ds_schedule = []\<rparr>"
  have three: "Suc (length [[1, 2 :: byte], []]) = 3" by simp
  have "ds_unread ?g = take 20 (wfile_stored ds_file (lw_dest w))" by (simp add: wfile_stored_def)
  then show ?thesis using w r [unfolded three, THEN spec, THEN spec [where x = ?g]] by blast
qed

end
