(* ===== verification/Ldb_Bloom.thy ===== *)
theory Ldb_Bloom
  imports Ldb_Dbformat Ldb_Logging
begin

text \<open>
  \<^verbatim>\<open>util/hash.cc\<close> and \<^verbatim>\<open>util/bloom.cc\<close>: the hash of keys and the Bloom filter policy. A
  filter is a bit array followed by one byte, the number of probes; a key's probes are at
  the hash values that double hashing gives. The policy meets the contract of a filter: no
  false negatives.
\<close>

section \<open>The hash function\<close>

definition hash_m :: u32 where
  "hash_m = 0xc6a4a793"

text \<open>Four bytes at a time.\<close>

function hash_words :: "u32 \<Rightarrow> byte list \<Rightarrow> u32 \<times> byte list" where
  "hash_words h data =
     (if 4 \<le> length data then
        let w = DecodeFixed32 data; data = drop 4 data; h = h + w; h = h * hash_m; h = h XOR drop_bit 16 h
        in hash_words h data
      else (h, data))"
  by pat_completeness auto
termination by (relation "measure (\<lambda>(h, data). length data)") auto

declare hash_words.simps [simp del]

text \<open>The remaining bytes, at most three; the cases fall through.\<close>

definition hash_rest :: "u32 \<Rightarrow> byte list \<Rightarrow> u32" where
  "hash_rest h data =
     (let h = (if length data = 3 then h + push_bit 16 (ucast (data ! 2)) else h);
          h = (if length data \<in> {2, 3} then h + push_bit 8 (ucast (data ! 1)) else h)
      in if length data \<in> {1, 2, 3}
         then let h = h + ucast (data ! 0); h = h * hash_m in h XOR drop_bit 24 h
         else h)"

definition Hash :: "byte list \<Rightarrow> u32 \<Rightarrow> u32" where
  "Hash data seed =
     (let h = seed XOR of_nat (length data) * hash_m; (h, data) = hash_words h data in hash_rest h data)"

section \<open>The Bloom filter\<close>

definition BloomHash :: "slice \<Rightarrow> u32" where
  "BloomHash key = Hash key 0xbc9f1d34"

text \<open>
  \<open>bits_per_key\<close> is an \<^verbatim>\<open>int\<close> that is not negative. The constructor computes the number of
  probes as the \<^verbatim>\<open>double\<close> product with 0.69, rounded down and clamped to 1 .. 30: up to 43
  bits per key the product is at least a hundredth away from an integer, and from 44 on it
  exceeds 30, so the rounding errors of the product do not matter.
\<close>

definition bloom_k :: "nat \<Rightarrow> nat" where
  "bloom_k bits_per_key =
     (let k = bits_per_key * 69 div 100; k = (if k < 1 then 1 else k) in if k > 30 then 30 else k)"

definition rotate_right_17 :: "u32 \<Rightarrow> u32" where
  "rotate_right_17 h = drop_bit 17 h OR push_bit 15 h"

text \<open>The byte and the bit in it for a hash value; \<open>h % bits\<close> is computed in \<^verbatim>\<open>size_t\<close>.\<close>

definition probe_byte :: "u64 \<Rightarrow> u32 \<Rightarrow> nat" where
  "probe_byte bits h = unat ((ucast (ucast h mod bits) :: u32) div 8)"

definition probe_mask :: "u64 \<Rightarrow> u32 \<Rightarrow> byte" where
  "probe_mask bits h = push_bit (unat ((ucast (ucast h mod bits) :: u32) mod 8)) 1"

primrec set_probes :: "nat \<Rightarrow> u64 \<Rightarrow> u32 \<Rightarrow> u32 \<Rightarrow> byte list \<Rightarrow> byte list" where
  "set_probes 0 bits delta h array = array"
| "set_probes (Suc j) bits delta h array =
     set_probes j bits delta (h + delta)
       (array[probe_byte bits h := array ! probe_byte bits h OR probe_mask bits h])"

primrec check_probes :: "nat \<Rightarrow> u64 \<Rightarrow> u32 \<Rightarrow> u32 \<Rightarrow> byte list \<Rightarrow> bool" where
  "check_probes 0 bits delta h array = True"
| "check_probes (Suc j) bits delta h array =
     (if array ! probe_byte bits h AND probe_mask bits h = 0 then False
      else check_probes j bits delta (h + delta) array)"

definition bloom_bytes :: "nat \<Rightarrow> nat \<Rightarrow> u64" where
  "bloom_bytes bits_per_key n =
     (let bits = of_nat n * of_nat bits_per_key; bits = (if bits < 64 then 64 else bits) in (bits + 7) div 8)"

definition add_key :: "nat \<Rightarrow> u64 \<Rightarrow> slice \<Rightarrow> byte list \<Rightarrow> byte list" where
  "add_key k bits key array = (let h = BloomHash key; delta = rotate_right_17 h in set_probes k bits delta h array)"

text \<open>What \<open>CreateFilter\<close> appends to \<open>dst\<close>.\<close>

definition Bloom_CreateFilter :: "nat \<Rightarrow> slice list \<Rightarrow> byte list" where
  "Bloom_CreateFilter bits_per_key keys =
     (let bytes = bloom_bytes bits_per_key (length keys); bits = bytes * 8;
          array = replicate (unat bytes) 0 @ [of_nat (bloom_k bits_per_key)]
      in fold (add_key (bloom_k bits_per_key) bits) keys array)"

definition Bloom_KeyMayMatch :: "slice \<Rightarrow> byte list \<Rightarrow> bool" where
  "Bloom_KeyMayMatch key bloom_filter =
     (let len = length bloom_filter
      in if len < 2 then False
         else let bits = of_nat (len - 1) * 8; k = (scast (bloom_filter ! (len - 1)) :: u64)
              in if k > 30 then True
                 else let h = BloomHash key; delta = rotate_right_17 h
                      in check_probes (unat k) bits delta h bloom_filter)"

definition NewBloomFilterPolicy :: "nat \<Rightarrow> filter_policy" where
  "NewBloomFilterPolicy bits_per_key =
     \<lparr>fp_Name = lit ''leveldb.BuiltinBloomFilter2'', CreateFilter = Bloom_CreateFilter bits_per_key, KeyMayMatch = Bloom_KeyMayMatch\<rparr>"

section \<open>No false negatives\<close>

lemma bloom_k_range: "1 \<le> bloom_k b" "bloom_k b \<le> 30"
  by (simp_all add: bloom_k_def Let_def)

lemma signed_small_k: "scast (of_nat (bloom_k b) :: byte) = (of_nat (bloom_k b) :: u64)"
proof -
  have "signed_take_bit 7 (int (bloom_k b)) = int (bloom_k b)"
    using bloom_k_range [of b] by (intro signed_take_bit_int_eq_self) auto
  then show ?thesis
    using bloom_k_range [of b] by (simp add: signed_of_nat word_eq_iff_unsigned)
qed

lemma bloom_bytes_value:
  assumes "n * b < 2 ^ 63"
  shows "unat (bloom_bytes b n) = max 8 ((n * b + 7) div 8)" "8 \<le> unat (bloom_bytes b n)"
    "unat (bloom_bytes b n) < 2 ^ 61"
proof -
  have "unat (of_nat (n * b) :: u64) = n * b"
    using assms by (intro unat_of_nat_small) simp
  then have "unat (of_nat n * of_nat b :: u64) = n * b" by (simp only: of_nat_mult)
  moreover have "64 \<le> n * b \<Longrightarrow> 8 \<le> (n * b + 7) div 8" by simp
  ultimately show v: "unat (bloom_bytes b n) = max 8 ((n * b + 7) div 8)"
    using assms by (auto simp: bloom_bytes_def Let_def word_less_nat_alt unat_div unat_word_ariths max_def)
  then show "8 \<le> unat (bloom_bytes b n)" "unat (bloom_bytes b n) < 2 ^ 61" using assms by auto
qed

text \<open>Probes stay inside the bit array.\<close>

lemma probe_byte_bound:
  assumes "0 < unat bytes" "unat bytes < 2 ^ 61"
  shows "probe_byte (bytes * 8) h < unat bytes"
proof -
  have b: "unat (bytes * 8) = unat bytes * 8" using assms by (simp add: unat_word_ariths)
  have "unat (ucast h mod (bytes * 8)) < unat bytes * 8"
    using assms by (simp add: unat_mod b)
  moreover have "unat (ucast (ucast h mod (bytes * 8)) :: u32) \<le> unat (ucast h mod (bytes * 8))"
    by (simp add: unsigned_ucast_eq take_bit_nat_less_eq_self)
  ultimately show ?thesis
    by (simp add: probe_byte_def unat_div)
qed

definition covers :: "byte list \<Rightarrow> byte list \<Rightarrow> bool" where
  "covers xs ys \<longleftrightarrow> list_all2 (\<lambda>x y. \<forall>i. bit x i \<longrightarrow> bit y i) xs ys"

lemma covers_refl [simp]: "covers xs xs"
  by (simp add: covers_def list_all2_refl)

lemma covers_trans: "covers xs ys \<Longrightarrow> covers ys zs \<Longrightarrow> covers xs zs"
  unfolding covers_def by (rule list_all2_trans) auto

lemma covers_or: "covers xs (xs[i := xs ! i OR m])"
proof -
  have "bit (xs[i := xs ! i OR m] ! j) n" if "j < length xs" "bit (xs ! j) n" for j n
    using that by (cases "i = j") (auto simp: bit_or_iff)
  then show ?thesis by (auto simp: covers_def list_all2_conv_all_nth)
qed

lemma covers_length: "covers xs ys \<Longrightarrow> length ys = length xs"
  by (simp add: covers_def list_all2_lengthD)

lemma set_probes_covers: "covers array (set_probes j bits delta h array)"
  by (induction j arbitrary: h array) (auto intro: covers_trans [OF covers_or])

lemma add_key_covers: "covers array (add_key k bits key array)"
  by (simp add: add_key_def Let_def set_probes_covers)

lemma fold_add_key_covers: "covers array (fold (add_key k bits) keys array)"
  by (induction keys arbitrary: array) (auto intro: covers_trans [OF add_key_covers])

lemma check_probes_covers:
  assumes "covers xs ys" "\<And>h. probe_byte bits h < length xs"
  shows "check_probes j bits delta h xs \<Longrightarrow> check_probes j bits delta h ys"
proof (induction j arbitrary: h)
  case (Suc j)
  let ?i = "probe_byte bits h" and ?m = "probe_mask bits h"
  have "xs ! ?i AND ?m \<noteq> 0" using Suc.prems by (auto split: if_splits)
  then obtain n where "bit (xs ! ?i) n" "bit ?m n" by (auto simp: bit_eq_iff bit_and_iff)
  moreover have "bit (xs ! ?i) n \<longrightarrow> bit (ys ! ?i) n"
    using assms by (auto simp: covers_def list_all2_conv_all_nth)
  ultimately have "bit (ys ! ?i AND ?m) n" by (simp add: bit_and_iff)
  then have "ys ! ?i AND ?m \<noteq> 0" by auto
  with Suc show ?case by (auto split: if_splits)
qed simp

lemma probe_mask_nonzero: "probe_mask bits h \<noteq> 0"
proof -
  let ?i = "unat ((ucast (ucast h mod bits) :: u32) mod 8)"
  have "?i < 8" by (simp add: unat_mod)
  then have "bit (probe_mask bits h) ?i" by (simp add: probe_mask_def bit_push_bit_iff del: push_bit_of_1)
  then show ?thesis by auto
qed

lemma check_set_probes:
  assumes "\<And>h. probe_byte bits h < length array"
  shows "check_probes j bits delta h (set_probes j bits delta h array)"
  using assms
proof (induction j arbitrary: h array)
  case (Suc j)
  let ?i = "probe_byte bits h" and ?m = "probe_mask bits h"
  let ?a = "array[?i := array ! ?i OR ?m]"
  have "?a ! ?i AND ?m = ?m" using Suc.prems by (simp add: bit_eq_iff bit_simps)
  then have "check_probes 1 bits delta h ?a" using probe_mask_nonzero by simp
  then have "check_probes 1 bits delta h (set_probes j bits delta (h + delta) ?a)"
    by (rule check_probes_covers [rotated 2]) (use Suc.prems set_probes_covers in auto)
  moreover have "check_probes j bits delta (h + delta) (set_probes j bits delta (h + delta) ?a)"
    using Suc.IH [of ?a] Suc.prems by simp
  ultimately show ?case by (auto split: if_splits)
qed simp

lemma set_probes_other: "(\<And>h. probe_byte bits h < i) \<Longrightarrow> set_probes j bits delta h array ! i = array ! i"
proof (induction j arbitrary: h array)
  case (Suc j)
  then have "probe_byte bits h \<noteq> i" by (metis less_irrefl)
  then show ?case using Suc by simp
qed simp

lemma fold_add_key_other: "(\<And>h. probe_byte bits h < i) \<Longrightarrow> fold (add_key k bits) keys array ! i = array ! i"
  by (induction keys arbitrary: array) (simp_all add: add_key_def Let_def set_probes_other)

lemma fold_add_key_check:
  assumes "\<And>h. probe_byte bits h < length array" "key \<in> set keys"
  shows "check_probes k bits (rotate_right_17 (BloomHash key)) (BloomHash key) (fold (add_key k bits) keys array)"
  using assms
proof (induction keys arbitrary: array)
  case (Cons x keys)
  let ?a = "add_key k bits x array"
  have len: "length ?a = length array" using covers_length [OF add_key_covers] .
  show ?case
  proof (cases "key \<in> set keys")
    case True
    then show ?thesis using Cons.IH [of ?a] Cons.prems(1) len by simp
  next
    case False
    then have "check_probes k bits (rotate_right_17 (BloomHash key)) (BloomHash key) ?a"
      using Cons.prems check_set_probes [of bits array] by (simp add: add_key_def Let_def)
    then show ?thesis
      using check_probes_covers [OF fold_add_key_covers [of ?a k bits keys]] Cons.prems(1) len by simp
  qed
qed simp

lemma create_may_match:
  assumes "length keys * b < 2 ^ 63" "key \<in> set keys"
  shows "Bloom_KeyMayMatch key (Bloom_CreateFilter b keys)"
proof -
  let ?bytes = "bloom_bytes b (length keys)" and ?k = "bloom_k b"
  let ?array = "replicate (unat ?bytes) 0 @ [of_nat ?k]" and ?f = "Bloom_CreateFilter b keys"
  note v = bloom_bytes_value [OF assms(1)]
  have len: "length ?f = Suc (unat ?bytes)"
    using covers_length [OF fold_add_key_covers] by (simp add: Bloom_CreateFilter_def Let_def)
  have p: "probe_byte (?bytes * 8) h < unat ?bytes" for h
    using v(2,3) by (intro probe_byte_bound) linarith+
  have f: "?f = fold (add_key ?k (?bytes * 8)) keys ?array"
    by (simp add: Bloom_CreateFilter_def Let_def)
  have "?f ! unat ?bytes = ?array ! unat ?bytes"
    unfolding f by (rule fold_add_key_other) (rule p)
  then have last_byte: "scast (?f ! unat ?bytes) = (of_nat ?k :: u64)"
    using signed_small_k [of b] by (simp add: nth_append)
  have "check_probes ?k (?bytes * 8) (rotate_right_17 (BloomHash key)) (BloomHash key) ?f"
    unfolding f by (rule fold_add_key_check) (use p less_Suc_eq assms(2) in auto)
  moreover have "unat (of_nat ?k :: u64) = ?k" using bloom_k_range(2) [of b] by (intro unat_of_nat_small) simp
  ultimately show ?thesis
    using v(2) by (simp add: Bloom_KeyMayMatch_def len last_byte Let_def)
qed

text \<open>The contract, for a policy of \<open>b\<close> bits per key and for its wrapper for internal keys.\<close>

interpretation bloom: filter_contract "NewBloomFilterPolicy b" "\<lambda>keys. length keys * b < 2 ^ 63" for b
  by unfold_locales (simp add: NewBloomFilterPolicy_def create_may_match)

lemma create_length:
  "length keys * b < 2 ^ 63 \<Longrightarrow> length (Bloom_CreateFilter b keys) = max 8 ((length keys * b + 7) div 8) + 1"
  using covers_length [OF fold_add_key_covers] bloom_bytes_value(1) [of "length keys" b]
  by (simp add: Bloom_CreateFilter_def Let_def)

text \<open>
  (C32) Bloom filters have no false negatives: every key that a filter was made from may
  match, also when the policy is wrapped for internal keys; and a filter takes the bytes for
  its bits, at least eight, and one byte for the number of probes.
\<close>

theorem bloom_no_false_negatives:
  assumes "length keys * bits_per_key < 2 ^ 63" "key \<in> set keys"
  shows "KeyMayMatch (NewBloomFilterPolicy bits_per_key) key
      (CreateFilter (NewBloomFilterPolicy bits_per_key) keys) \<and>
    KeyMayMatch (InternalFilterPolicy (NewBloomFilterPolicy bits_per_key)) (InternalKey key s t)
      (CreateFilter (InternalFilterPolicy (NewBloomFilterPolicy bits_per_key)) (map (\<lambda>k. InternalKey k s t) keys)) \<and>
    length (CreateFilter (NewBloomFilterPolicy bits_per_key) keys) = max 8 ((length keys * bits_per_key + 7) div 8) + 1"
proof -
  let ?iks = "map (\<lambda>k. InternalKey k s t) keys"
  have "length (map ExtractUserKey ?iks) * bits_per_key < 2 ^ 63" "InternalKey key s t \<in> set ?iks"
    using assms by auto
  from bloom.internal_may_match [OF this] bloom.may_match [OF assms] create_length [OF assms(1)]
  show ?thesis by (simp add: NewBloomFilterPolicy_def)
qed

section \<open>Instances\<close>

theorem bloom_no_false_negatives_witness:
  "KeyMayMatch (NewBloomFilterPolicy 10) [104, 105] (CreateFilter (NewBloomFilterPolicy 10) [[104, 105], [120]])"
  using bloom_no_false_negatives [of "[[104, 105], [120]]" 10 "[104, 105]"] by simp

end
