(* ===== verification/Ldb_VersionEdit.thy ===== *)
theory Ldb_VersionEdit
  imports Ldb_Dbformat Ldb_Logging "HOL-Library.Product_Lexorder"
begin

text \<open>
  \<^verbatim>\<open>db/version_edit.h\<close> and \<^verbatim>\<open>db/version_edit.cc\<close>: the changes between two versions of the
  database, as they are written to the manifest: names and numbers that were set, compaction
  pointers, files deleted and files added. Levels are natural numbers; the API is used with
  levels below \<open>kNumLevels\<close>.
\<close>

section \<open>Data\<close>

definition kNumLevels :: nat where
  "kNumLevels = 7"

record FileMetaData =
  fm_refs :: int
  fm_allowed_seeks :: int
  fm_number :: u64
  fm_file_size :: u64
  fm_smallest :: "byte list"
  fm_largest :: "byte list"

text \<open>
  The set of deleted files is kept in the order in which \<^verbatim>\<open>std::set\<close> enumerates it.
\<close>

record VersionEdit =
  ve_comparator :: "byte list"
  ve_log_number :: u64
  ve_prev_log_number :: u64
  ve_next_file_number :: u64
  ve_last_sequence :: u64
  ve_has_comparator :: bool
  ve_has_log_number :: bool
  ve_has_prev_log_number :: bool
  ve_has_next_file_number :: bool
  ve_has_last_sequence :: bool
  ve_compact_pointers :: "(nat \<times> byte list) list"
  ve_deleted_files :: "(nat \<times> u64) list"
  ve_new_files :: "(nat \<times> FileMetaData) list"

definition VersionEdit_Clear :: "VersionEdit \<Rightarrow> VersionEdit" where
  "VersionEdit_Clear e =
     e\<lparr>ve_comparator := [], ve_log_number := 0, ve_prev_log_number := 0, ve_last_sequence := 0,
       ve_next_file_number := 0, ve_has_comparator := False, ve_has_log_number := False,
       ve_has_prev_log_number := False, ve_has_next_file_number := False, ve_has_last_sequence := False,
       ve_deleted_files := [], ve_new_files := []\<rparr>"

text \<open>The constructor: the containers are empty, and \<open>Clear\<close> sets the rest.\<close>

definition make_VersionEdit :: VersionEdit where
  "make_VersionEdit =
     \<lparr>ve_comparator = [], ve_log_number = 0, ve_prev_log_number = 0, ve_next_file_number = 0, ve_last_sequence = 0,
      ve_has_comparator = False, ve_has_log_number = False, ve_has_prev_log_number = False,
      ve_has_next_file_number = False, ve_has_last_sequence = False,
      ve_compact_pointers = [], ve_deleted_files = [], ve_new_files = []\<rparr>"

definition SetComparatorName :: "slice \<Rightarrow> VersionEdit \<Rightarrow> VersionEdit" where
  "SetComparatorName name e = e\<lparr>ve_has_comparator := True, ve_comparator := name\<rparr>"

definition SetLogNumber :: "u64 \<Rightarrow> VersionEdit \<Rightarrow> VersionEdit" where
  "SetLogNumber num e = e\<lparr>ve_has_log_number := True, ve_log_number := num\<rparr>"

definition SetPrevLogNumber :: "u64 \<Rightarrow> VersionEdit \<Rightarrow> VersionEdit" where
  "SetPrevLogNumber num e = e\<lparr>ve_has_prev_log_number := True, ve_prev_log_number := num\<rparr>"

definition SetNextFile :: "u64 \<Rightarrow> VersionEdit \<Rightarrow> VersionEdit" where
  "SetNextFile num e = e\<lparr>ve_has_next_file_number := True, ve_next_file_number := num\<rparr>"

definition SetLastSequence :: "u64 \<Rightarrow> VersionEdit \<Rightarrow> VersionEdit" where
  "SetLastSequence seq e = e\<lparr>ve_has_last_sequence := True, ve_last_sequence := seq\<rparr>"

definition SetCompactPointer :: "nat \<Rightarrow> byte list \<Rightarrow> VersionEdit \<Rightarrow> VersionEdit" where
  "SetCompactPointer level key e = e\<lparr>ve_compact_pointers := ve_compact_pointers e @ [(level, key)]\<rparr>"

definition make_FileMetaData :: "u64 \<Rightarrow> u64 \<Rightarrow> byte list \<Rightarrow> byte list \<Rightarrow> FileMetaData" where
  "make_FileMetaData number file_size smallest largest =
     \<lparr>fm_refs = 0, fm_allowed_seeks = 2 ^ 30, fm_number = number, fm_file_size = file_size,
      fm_smallest = smallest, fm_largest = largest\<rparr>"

definition AddFile :: "nat \<Rightarrow> u64 \<Rightarrow> u64 \<Rightarrow> byte list \<Rightarrow> byte list \<Rightarrow> VersionEdit \<Rightarrow> VersionEdit" where
  "AddFile level file file_size smallest largest e =
     e\<lparr>ve_new_files := ve_new_files e @ [(level, make_FileMetaData file file_size smallest largest)]\<rparr>"

definition VersionEdit_DeleteFile :: "nat \<Rightarrow> u64 \<Rightarrow> VersionEdit \<Rightarrow> VersionEdit" where
  "VersionEdit_DeleteFile level file e = e\<lparr>ve_deleted_files := insort_insert (level, file) (ve_deleted_files e)\<rparr>"

section \<open>Writing\<close>

definition kComparator :: u32 where "kComparator = 1"

definition kLogNumber :: u32 where "kLogNumber = 2"

definition kNextFileNumber :: u32 where "kNextFileNumber = 3"

definition kLastSequence :: u32 where "kLastSequence = 4"

definition kCompactPointer :: u32 where "kCompactPointer = 5"

definition kDeletedFile :: u32 where "kDeletedFile = 6"

definition kNewFile :: u32 where "kNewFile = 7"

definition kPrevLogNumber :: u32 where "kPrevLogNumber = 9"

definition put_pointer :: "byte list \<Rightarrow> nat \<times> byte list \<Rightarrow> byte list" where
  "put_pointer dst p =
     PutLengthPrefixedSlice (PutVarint32 (PutVarint32 dst kCompactPointer) (of_nat (fst p))) (snd p)"

definition put_deleted :: "byte list \<Rightarrow> nat \<times> u64 \<Rightarrow> byte list" where
  "put_deleted dst p = PutVarint64 (PutVarint32 (PutVarint32 dst kDeletedFile) (of_nat (fst p))) (snd p)"

definition put_new_file :: "byte list \<Rightarrow> nat \<times> FileMetaData \<Rightarrow> byte list" where
  "put_new_file dst p =
     (let f = snd p;
          dst = PutVarint32 dst kNewFile;
          dst = PutVarint32 dst (of_nat (fst p));
          dst = PutVarint64 dst (fm_number f);
          dst = PutVarint64 dst (fm_file_size f);
          dst = PutLengthPrefixedSlice dst (fm_smallest f)
      in PutLengthPrefixedSlice dst (fm_largest f))"

definition EncodeTo :: "byte list \<Rightarrow> VersionEdit \<Rightarrow> byte list" where
  "EncodeTo dst e =
     (let dst = (if ve_has_comparator e then PutLengthPrefixedSlice (PutVarint32 dst kComparator) (ve_comparator e) else dst);
          dst = (if ve_has_log_number e then PutVarint64 (PutVarint32 dst kLogNumber) (ve_log_number e) else dst);
          dst = (if ve_has_prev_log_number e then PutVarint64 (PutVarint32 dst kPrevLogNumber) (ve_prev_log_number e) else dst);
          dst = (if ve_has_next_file_number e then PutVarint64 (PutVarint32 dst kNextFileNumber) (ve_next_file_number e) else dst);
          dst = (if ve_has_last_sequence e then PutVarint64 (PutVarint32 dst kLastSequence) (ve_last_sequence e) else dst);
          dst = foldl put_pointer dst (ve_compact_pointers e);
          dst = foldl put_deleted dst (ve_deleted_files e)
      in foldl put_new_file dst (ve_new_files e))"

section \<open>Reading\<close>

definition GetInternalKey :: "slice \<Rightarrow> byte list option \<times> slice" where
  "GetInternalKey input = (case GetLengthPrefixedSlice input of (Some str, input) \<Rightarrow> (Some str, input) | (None, input) \<Rightarrow> (None, input))"

definition GetLevel :: "slice \<Rightarrow> nat option \<times> slice" where
  "GetLevel input =
     (case GetVarint32 input of
        (Some v, input) \<Rightarrow> if v < of_nat kNumLevels then (Some (unat v), input) else (None, input)
      | (None, input) \<Rightarrow> (None, input))"

text \<open>A new file; every failure gives the same message.\<close>

definition decode_new_file :: "slice \<Rightarrow> VersionEdit \<Rightarrow> string + slice \<times> VersionEdit" where
  "decode_new_file input e =
     (case GetLevel input of
        (Some level, input) \<Rightarrow>
          (case GetVarint64 input of
             (Some number, input) \<Rightarrow>
               (case GetVarint64 input of
                  (Some file_size, input) \<Rightarrow>
                    (case GetInternalKey input of
                       (Some smallest, input) \<Rightarrow>
                         (case GetInternalKey input of
                            (Some largest, input) \<Rightarrow>
                              Inr (input, e\<lparr>ve_new_files := ve_new_files e @ [(level, make_FileMetaData number file_size smallest largest)]\<rparr>)
                          | _ \<Rightarrow> Inl ''new-file entry'')
                     | _ \<Rightarrow> Inl ''new-file entry'')
                | _ \<Rightarrow> Inl ''new-file entry'')
           | _ \<Rightarrow> Inl ''new-file entry'')
      | _ \<Rightarrow> Inl ''new-file entry'')"

text \<open>One field: the message in case of an error, or the remaining input and the new edit.\<close>

definition decode_edit_field :: "u32 \<Rightarrow> slice \<Rightarrow> VersionEdit \<Rightarrow> string + slice \<times> VersionEdit" where
  "decode_edit_field tag input e =
     (if tag = kComparator then
        (case GetLengthPrefixedSlice input of
           (Some str, input) \<Rightarrow> Inr (input, e\<lparr>ve_comparator := str, ve_has_comparator := True\<rparr>)
         | _ \<Rightarrow> Inl ''comparator name'')
      else if tag = kLogNumber then
        (case GetVarint64 input of
           (Some n, input) \<Rightarrow> Inr (input, e\<lparr>ve_log_number := n, ve_has_log_number := True\<rparr>)
         | _ \<Rightarrow> Inl ''log number'')
      else if tag = kPrevLogNumber then
        (case GetVarint64 input of
           (Some n, input) \<Rightarrow> Inr (input, e\<lparr>ve_prev_log_number := n, ve_has_prev_log_number := True\<rparr>)
         | _ \<Rightarrow> Inl ''previous log number'')
      else if tag = kNextFileNumber then
        (case GetVarint64 input of
           (Some n, input) \<Rightarrow> Inr (input, e\<lparr>ve_next_file_number := n, ve_has_next_file_number := True\<rparr>)
         | _ \<Rightarrow> Inl ''next file number'')
      else if tag = kLastSequence then
        (case GetVarint64 input of
           (Some n, input) \<Rightarrow> Inr (input, e\<lparr>ve_last_sequence := n, ve_has_last_sequence := True\<rparr>)
         | _ \<Rightarrow> Inl ''last sequence number'')
      else if tag = kCompactPointer then
        (case GetLevel input of
           (Some level, input) \<Rightarrow>
             (case GetInternalKey input of
                (Some key, input) \<Rightarrow> Inr (input, e\<lparr>ve_compact_pointers := ve_compact_pointers e @ [(level, key)]\<rparr>)
              | _ \<Rightarrow> Inl ''compaction pointer'')
         | _ \<Rightarrow> Inl ''compaction pointer'')
      else if tag = kDeletedFile then
        (case GetLevel input of
           (Some level, input) \<Rightarrow>
             (case GetVarint64 input of
                (Some number, input) \<Rightarrow> Inr (input, e\<lparr>ve_deleted_files := insort_insert (level, number) (ve_deleted_files e)\<rparr>)
              | _ \<Rightarrow> Inl ''deleted file'')
         | _ \<Rightarrow> Inl ''deleted file'')
      else if tag = kNewFile then
        decode_new_file input e
      else Inl ''unknown tag'')"

lemma GetVarint32_shorter: "GetVarint32 p = (Some v, q) \<Longrightarrow> length q < length p"
  by (auto simp: GetVarint32_def dest: GetVarint32Ptr_shorter split: option.splits)

lemma GetVarint64_shorter: "GetVarint64 p = (Some v, q) \<Longrightarrow> length q \<le> length p"
  by (auto simp: GetVarint64_def GetVarint64Ptr_def split: option.splits if_splits dest!: varint_from_shorter)

lemma GetLevel_shorter: "GetLevel p = (Some v, q) \<Longrightarrow> length q \<le> length p"
  by (auto simp: GetLevel_def dest: GetVarint32_shorter split: option.splits prod.splits if_splits)

lemma GetInternalKey_shorter: "GetInternalKey p = (Some v, q) \<Longrightarrow> length q \<le> length p"
  by (auto simp: GetInternalKey_def dest: GetLengthPrefixedSlice_shorter split: option.splits prod.splits)

lemma decode_new_file_shorter: "decode_new_file p e = Inr (q, e') \<Longrightarrow> length q \<le> length p"
  unfolding decode_new_file_def
  by (split prod.splits option.splits; auto split: prod.splits option.splits
      dest!: GetVarint64_shorter GetLevel_shorter GetInternalKey_shorter)+

lemma decode_edit_field_shorter: "decode_edit_field tag p e = Inr (q, e') \<Longrightarrow> length q \<le> length p"
  unfolding decode_edit_field_def
  by (split if_splits; auto split: prod.splits option.splits if_splits
      dest!: GetVarint64_shorter GetLevel_shorter GetInternalKey_shorter GetLengthPrefixedSlice_shorter decode_new_file_shorter)

function decode_loop :: "slice \<Rightarrow> VersionEdit \<Rightarrow> string option \<times> slice \<times> VersionEdit" where
  "decode_loop input e =
     (case GetVarint32 input of
        (Some tag, input) \<Rightarrow>
          (case decode_edit_field tag input e of
             Inl msg \<Rightarrow> (Some msg, input, e)
           | Inr (input, e) \<Rightarrow> decode_loop input e)
      | (None, input) \<Rightarrow> (None, input, e))"
  by pat_completeness auto
termination
  by (relation "measure (\<lambda>(input, e). length input)")
     (auto dest!: GetVarint32_shorter [OF sym] decode_edit_field_shorter)

declare decode_loop.simps [simp del]

definition DecodeFrom :: "slice \<Rightarrow> VersionEdit \<Rightarrow> Status \<times> VersionEdit" where
  "DecodeFrom src e =
     (case decode_loop src (VersionEdit_Clear e) of (msg, input, e) \<Rightarrow>
        let msg = (if msg = None \<and> input \<noteq> [] then Some ''invalid tag'' else msg)
        in (case msg of None \<Rightarrow> OK | Some m \<Rightarrow> Corruption2 (lit ''VersionEdit'') (lit m), e))"

section \<open>The fields of an edit\<close>

text \<open>An edit as the list of fields that stand for it, in the order of \<open>EncodeTo\<close>.\<close>

datatype edit_field =
  F_comparator "byte list" | F_log u64 | F_prev u64 | F_next u64 | F_seq u64
| F_pointer "nat \<times> byte list" | F_deleted "nat \<times> u64" | F_new "nat \<times> FileMetaData"

fun field_bytes :: "edit_field \<Rightarrow> byte list" where
  "field_bytes (F_comparator c) = PutVarint32 [] kComparator @ PutLengthPrefixedSlice [] c"
| "field_bytes (F_log n) = PutVarint32 [] kLogNumber @ PutVarint64 [] n"
| "field_bytes (F_prev n) = PutVarint32 [] kPrevLogNumber @ PutVarint64 [] n"
| "field_bytes (F_next n) = PutVarint32 [] kNextFileNumber @ PutVarint64 [] n"
| "field_bytes (F_seq n) = PutVarint32 [] kLastSequence @ PutVarint64 [] n"
| "field_bytes (F_pointer p) = put_pointer [] p"
| "field_bytes (F_deleted p) = put_deleted [] p"
| "field_bytes (F_new p) = put_new_file [] p"

fun field_apply :: "edit_field \<Rightarrow> VersionEdit \<Rightarrow> VersionEdit" where
  "field_apply (F_comparator c) e = SetComparatorName c e"
| "field_apply (F_log n) e = SetLogNumber n e"
| "field_apply (F_prev n) e = SetPrevLogNumber n e"
| "field_apply (F_next n) e = SetNextFile n e"
| "field_apply (F_seq n) e = SetLastSequence n e"
| "field_apply (F_pointer p) e = SetCompactPointer (fst p) (snd p) e"
| "field_apply (F_deleted p) e = VersionEdit_DeleteFile (fst p) (snd p) e"
| "field_apply (F_new p) e = e\<lparr>ve_new_files := ve_new_files e @ [p]\<rparr>"

definition file_ok :: "FileMetaData \<Rightarrow> bool" where
  "file_ok f \<longleftrightarrow> length (fm_smallest f) < 2 ^ 32 \<and> length (fm_largest f) < 2 ^ 32 \<and>
     f = make_FileMetaData (fm_number f) (fm_file_size f) (fm_smallest f) (fm_largest f)"

fun field_ok :: "edit_field \<Rightarrow> bool" where
  "field_ok (F_comparator c) = (length c < 2 ^ 32)"
| "field_ok (F_pointer p) = (fst p < kNumLevels \<and> length (snd p) < 2 ^ 32)"
| "field_ok (F_deleted p) = (fst p < kNumLevels)"
| "field_ok (F_new p) = (fst p < kNumLevels \<and> file_ok (snd p))"
| "field_ok (F_log n) = True"
| "field_ok (F_prev n) = True"
| "field_ok (F_next n) = True"
| "field_ok (F_seq n) = True"

definition fields :: "VersionEdit \<Rightarrow> edit_field list" where
  "fields e =
     (if ve_has_comparator e then [F_comparator (ve_comparator e)] else []) @
     (if ve_has_log_number e then [F_log (ve_log_number e)] else []) @
     (if ve_has_prev_log_number e then [F_prev (ve_prev_log_number e)] else []) @
     (if ve_has_next_file_number e then [F_next (ve_next_file_number e)] else []) @
     (if ve_has_last_sequence e then [F_seq (ve_last_sequence e)] else []) @
     map F_pointer (ve_compact_pointers e) @ map F_deleted (ve_deleted_files e) @ map F_new (ve_new_files e)"

lemma put_appends:
  "NO_MATCH [] dst \<Longrightarrow> PutVarint32 dst v = dst @ PutVarint32 [] v"
  "NO_MATCH [] dst \<Longrightarrow> PutVarint64 dst w = dst @ PutVarint64 [] w"
  "NO_MATCH [] dst \<Longrightarrow> PutLengthPrefixedSlice dst s = dst @ PutLengthPrefixedSlice [] s"
  by (rule v32.put_append v64.put_append lps.put_append)+

lemma put_fields:
  "put_pointer dst p = dst @ field_bytes (F_pointer p)" "put_deleted dst d = dst @ field_bytes (F_deleted d)"
  "put_new_file dst f = dst @ field_bytes (F_new f)"
  by (simp_all add: put_pointer_def put_deleted_def put_new_file_def Let_def put_appends)

lemma put_all:
  "foldl put_pointer dst ps = dst @ concat (map (field_bytes \<circ> F_pointer) ps)"
  "foldl put_deleted dst ds = dst @ concat (map (field_bytes \<circ> F_deleted) ds)"
  "foldl put_new_file dst fs = dst @ concat (map (field_bytes \<circ> F_new) fs)"
proof -
  show "foldl put_pointer dst ps = dst @ concat (map (field_bytes \<circ> F_pointer) ps)"
    by (induction ps arbitrary: dst) (simp_all add: put_fields(1) del: field_bytes.simps)
  show "foldl put_deleted dst ds = dst @ concat (map (field_bytes \<circ> F_deleted) ds)"
    by (induction ds arbitrary: dst) (simp_all add: put_fields(2) del: field_bytes.simps)
  show "foldl put_new_file dst fs = dst @ concat (map (field_bytes \<circ> F_new) fs)"
    by (induction fs arbitrary: dst) (simp_all add: put_fields(3) del: field_bytes.simps)
qed

lemma EncodeTo_fields: "EncodeTo [] e = concat (map field_bytes (fields e))"
  by (simp add: EncodeTo_def Let_def put_all fields_def put_appends del: field_bytes.simps(6-8))

lemma GetLevel_put: "level < kNumLevels \<Longrightarrow> GetLevel (PutVarint32 [] (of_nat level) @ rest) = (Some level, rest)"
proof -
  assume l: "level < kNumLevels"
  have "unat (of_nat level :: u32) = level" using l by (intro unat_of_nat_small) (simp add: kNumLevels_def)
  then show ?thesis using l by (simp add: GetLevel_def v32.get_put word_less_nat_alt kNumLevels_def)
qed

lemma GetInternalKey_eq: "GetInternalKey = GetLengthPrefixedSlice"
  by (intro ext) (auto simp: GetInternalKey_def split: prod.splits option.splits)

lemmas tag_defs = kComparator_def kLogNumber_def kPrevLogNumber_def kNextFileNumber_def kLastSequence_def
  kCompactPointer_def kDeletedFile_def kNewFile_def

lemma setters:
  "SetComparatorName c e = e\<lparr>ve_comparator := c, ve_has_comparator := True\<rparr>"
  "SetLogNumber n e = e\<lparr>ve_log_number := n, ve_has_log_number := True\<rparr>"
  "SetPrevLogNumber n e = e\<lparr>ve_prev_log_number := n, ve_has_prev_log_number := True\<rparr>"
  "SetNextFile n e = e\<lparr>ve_next_file_number := n, ve_has_next_file_number := True\<rparr>"
  "SetLastSequence n e = e\<lparr>ve_last_sequence := n, ve_has_last_sequence := True\<rparr>"
  by (simp_all add: SetComparatorName_def SetLogNumber_def SetPrevLogNumber_def SetNextFile_def SetLastSequence_def)

text \<open>Reading a field that was written.\<close>

lemma decode_loop_field:
  assumes "field_ok fd"
  shows "decode_loop (field_bytes fd @ rest) e = decode_loop rest (field_apply fd e)"
proof (cases fd)
  case (F_new p)
  with assms have f: "fst p < kNumLevels" "length (fm_smallest (snd p)) < 2 ^ 32" "length (fm_largest (snd p)) < 2 ^ 32"
    "make_FileMetaData (fm_number (snd p)) (fm_file_size (snd p)) (fm_smallest (snd p)) (fm_largest (snd p)) = snd p"
    by (auto simp: file_ok_def)
  have "decode_loop (field_bytes fd @ rest) e = decode_loop rest (e\<lparr>ve_new_files := ve_new_files e @ [(fst p, snd p)]\<rparr>)"
    using f(1-3) by (simp add: decode_loop.simps [of "_ @ _"] F_new put_new_file_def Let_def put_appends
        v32.get_put v64.get_put lps.get_put GetLevel_put GetInternalKey_eq decode_edit_field_def decode_new_file_def tag_defs f(4))
  then show ?thesis by (simp add: F_new)
next
  case (F_pointer p)
  then show ?thesis
    using assms by (simp add: decode_loop.simps [of "_ @ _"] put_pointer_def put_appends v32.get_put lps.get_put
        GetLevel_put GetInternalKey_eq decode_edit_field_def tag_defs SetCompactPointer_def)
next
  case (F_deleted p)
  then show ?thesis
    using assms by (simp add: decode_loop.simps [of "_ @ _"] put_deleted_def put_appends v32.get_put v64.get_put
        GetLevel_put decode_edit_field_def tag_defs VersionEdit_DeleteFile_def)
qed (use assms in \<open>simp_all add: decode_loop.simps [of "_ @ _"] v32.get_put v64.get_put lps.get_put decode_edit_field_def
    tag_defs setters\<close>)

lemma decode_loop_fields:
  "list_all field_ok fds \<Longrightarrow> decode_loop (concat (map field_bytes fds)) e = (None, [], fold field_apply fds e)"
proof (induction fds arbitrary: e)
  case Nil
  then show ?case by (simp add: decode_loop.simps GetVarint32_def GetVarint32Ptr_def GetVarint32PtrFallback_def)
qed (simp add: decode_loop_field)

text \<open>
  The edits that the operations of the class make: what was not set has its initial value,
  and the set of deleted files is in order.
\<close>

definition edit_ok :: "VersionEdit \<Rightarrow> bool" where
  "edit_ok e \<longleftrightarrow> list_all field_ok (fields e) \<and>
     sorted (ve_deleted_files e) \<and> distinct (ve_deleted_files e) \<and>
     (\<not> ve_has_comparator e \<longrightarrow> ve_comparator e = []) \<and> (\<not> ve_has_log_number e \<longrightarrow> ve_log_number e = 0) \<and>
     (\<not> ve_has_prev_log_number e \<longrightarrow> ve_prev_log_number e = 0) \<and>
     (\<not> ve_has_next_file_number e \<longrightarrow> ve_next_file_number e = 0) \<and>
     (\<not> ve_has_last_sequence e \<longrightarrow> ve_last_sequence e = 0)"

inductive edit_made :: "VersionEdit \<Rightarrow> bool" where
  new: "edit_made make_VersionEdit"
| comparator: "edit_made e \<Longrightarrow> length c < 2 ^ 32 \<Longrightarrow> edit_made (SetComparatorName c e)"
| log: "edit_made e \<Longrightarrow> edit_made (SetLogNumber n e)"
| prev_log: "edit_made e \<Longrightarrow> edit_made (SetPrevLogNumber n e)"
| next_file: "edit_made e \<Longrightarrow> edit_made (SetNextFile n e)"
| last_sequence: "edit_made e \<Longrightarrow> edit_made (SetLastSequence n e)"
| pointer: "edit_made e \<Longrightarrow> level < kNumLevels \<Longrightarrow> length k < 2 ^ 32 \<Longrightarrow> edit_made (SetCompactPointer level k e)"
| delete: "edit_made e \<Longrightarrow> level < kNumLevels \<Longrightarrow> edit_made (VersionEdit_DeleteFile level n e)"
| add: "edit_made e \<Longrightarrow> level < kNumLevels \<Longrightarrow> length a < 2 ^ 32 \<Longrightarrow> length b < 2 ^ 32 \<Longrightarrow>
    edit_made (AddFile level n size' a b e)"

lemma field_oks: "list_all field_ok (fields e) \<longleftrightarrow>
    (ve_has_comparator e \<longrightarrow> length (ve_comparator e) < 2 ^ 32) \<and>
    list_all (\<lambda>p. field_ok (F_pointer p)) (ve_compact_pointers e) \<and>
    list_all (\<lambda>p. field_ok (F_deleted p)) (ve_deleted_files e) \<and>
    list_all (\<lambda>p. field_ok (F_new p)) (ve_new_files e)"
  by (simp add: fields_def list.pred_map comp_def)

lemma edit_made_ok: "edit_made e \<Longrightarrow> edit_ok e"
proof (induction rule: edit_made.induct)
  case (add e level a b n size')
  then show ?case by (simp add: edit_ok_def field_oks AddFile_def file_ok_def make_FileMetaData_def)
next
  case (delete e level n)
  have "list_all (\<lambda>p. field_ok (F_deleted p)) (insort_insert (level, n) (ve_deleted_files e)) \<longleftrightarrow>
      field_ok (F_deleted (level, n)) \<and> list_all (\<lambda>p. field_ok (F_deleted p)) (ve_deleted_files e)"
    by (simp add: list_all_iff set_insort_insert)
  with delete show ?case
    by (simp add: edit_ok_def field_oks VersionEdit_DeleteFile_def sorted_insort_insert distinct_insort_insert)
qed (simp_all add: edit_ok_def field_oks make_VersionEdit_def SetComparatorName_def SetLogNumber_def SetPrevLogNumber_def
    SetNextFile_def SetLastSequence_def SetCompactPointer_def)

lemma fold_pointers: "fold field_apply (map F_pointer ps) e = e\<lparr>ve_compact_pointers := ve_compact_pointers e @ ps\<rparr>"
  by (induction ps arbitrary: e) (simp_all add: SetCompactPointer_def)

lemma fold_new: "fold field_apply (map F_new fs) e = e\<lparr>ve_new_files := ve_new_files e @ fs\<rparr>"
  by (induction fs arbitrary: e) simp_all

lemma fold_deleted:
  "sorted (ve_deleted_files e @ ds) \<Longrightarrow> distinct (ve_deleted_files e @ ds) \<Longrightarrow>
     fold field_apply (map F_deleted ds) e = e\<lparr>ve_deleted_files := ve_deleted_files e @ ds\<rparr>"
proof (induction ds arbitrary: e)
  case (Cons d ds)
  have "insort_insert d (ve_deleted_files e) = ve_deleted_files e @ [d]"
    using Cons.prems by (auto simp: insort_insert_insort sorted_append intro: sorted_insort_is_snoc)
  then show ?case using Cons by (simp add: VersionEdit_DeleteFile_def)
qed simp

lemma fields_rebuild:
  assumes "edit_ok e"
  shows "fold field_apply (fields e) (VersionEdit_Clear e0) =
    e\<lparr>ve_compact_pointers := ve_compact_pointers e0 @ ve_compact_pointers e\<rparr>"
proof -
  have s: "sorted (ve_deleted_files e)" "distinct (ve_deleted_files e)" using assms by (simp_all add: edit_ok_def)
  show ?thesis
    using assms by (cases e) (simp add: edit_ok_def fields_def fold_pointers fold_new fold_deleted setters VersionEdit_Clear_def)
qed

section \<open>Properties of edits\<close>

text \<open>
  (C33) Edits survive the manifest: an edit made by the operations of the class is read back
  from its encoding. (Only the compaction pointers of the object that is decoded into are
  kept in front, since \<open>Clear\<close> does not remove them.) A tag that is not known is reported as
  corruption.
\<close>

theorem version_edit_roundtrip:
  assumes "edit_made e" "tag \<notin> {1, 2, 3, 4, 5, 6, 7, 9}"
  shows "DecodeFrom (EncodeTo [] e) e0 =
      (OK, e\<lparr>ve_compact_pointers := ve_compact_pointers e0 @ ve_compact_pointers e\<rparr>) \<and>
    IsCorruption (fst (DecodeFrom (EncodeTo [] e @ PutVarint32 [] tag @ rest) e0))"
proof -
  have ok: "edit_ok e" "list_all field_ok (fields e)" using edit_made_ok [OF assms(1)] by (simp_all add: edit_ok_def)
  have d: "decode_loop (concat (map field_bytes fds) @ r) e1 = decode_loop r (fold field_apply fds e1)"
    if "list_all field_ok fds" for fds r e1
    using that by (induction fds arbitrary: e1) (simp_all add: decode_loop_field)
  obtain m e2 r where bad: "decode_loop (PutVarint32 [] tag @ rest) (fold field_apply (fields e) (VersionEdit_Clear e0)) = (Some m, r, e2)"
    using assms(2) by (simp add: decode_loop.simps [of "_ @ _"] v32.get_put decode_edit_field_def tag_defs)
  have "IsCorruption (fst (DecodeFrom (EncodeTo [] e @ PutVarint32 [] tag @ rest) e0))"
    unfolding DecodeFrom_def EncodeTo_fields d [OF ok(2)] bad by (simp add: IsCorruption_def Corruption2_def)
  moreover have "DecodeFrom (EncodeTo [] e) e0 =
      (OK, e\<lparr>ve_compact_pointers := ve_compact_pointers e0 @ ve_compact_pointers e\<rparr>)"
    unfolding DecodeFrom_def EncodeTo_fields decode_loop_fields [OF ok(2)] fields_rebuild [OF ok(1)] by simp
  ultimately show ?thesis by simp
qed

section \<open>Instances\<close>

theorem version_edit_roundtrip_witness:
  "DecodeFrom (EncodeTo [] (AddFile 2 7 100 [1] [9] (SetLogNumber 5 make_VersionEdit))) make_VersionEdit =
     (OK, AddFile 2 7 100 [1] [9] (SetLogNumber 5 make_VersionEdit))"
proof -
  have "edit_made (AddFile 2 7 100 [1] [9] (SetLogNumber 5 make_VersionEdit))"
    by (intro edit_made.intros) (simp_all add: kNumLevels_def)
  from version_edit_roundtrip [OF this, of 8 make_VersionEdit] show ?thesis
    by (simp add: make_VersionEdit_def AddFile_def SetLogNumber_def)
qed

end
