(* ===== verification/Ldb_Filename.thy ===== *)
theory Ldb_Filename
  imports Ldb_Logging
begin

text \<open>
  \<^verbatim>\<open>db/filename.cc\<close>: the names of the files of a database, and the recognition of these
  names in a directory.
\<close>

datatype FileType = kLogFile | kDBLockFile | kTableFile | kDescriptorFile | kCurrentFile | kTempFile | kInfoLogFile

text \<open>\<^verbatim>\<open>%06llu\<close>\<close>

definition decimal6 :: "u64 \<Rightarrow> byte list" where
  "decimal6 n = replicate (6 - length (decimal (unat n))) 48 @ decimal (unat n)"

definition MakeFileName :: "byte list \<Rightarrow> u64 \<Rightarrow> byte list \<Rightarrow> byte list" where
  "MakeFileName dbname number suffix = dbname @ (lit ''/'' @ decimal6 number @ lit ''.'' @ suffix)"

definition LogFileName :: "byte list \<Rightarrow> u64 \<Rightarrow> byte list" where
  "LogFileName dbname number = MakeFileName dbname number (lit ''log'')"

definition TableFileName :: "byte list \<Rightarrow> u64 \<Rightarrow> byte list" where
  "TableFileName dbname number = MakeFileName dbname number (lit ''ldb'')"

definition SSTTableFileName :: "byte list \<Rightarrow> u64 \<Rightarrow> byte list" where
  "SSTTableFileName dbname number = MakeFileName dbname number (lit ''sst'')"

definition DescriptorFileName :: "byte list \<Rightarrow> u64 \<Rightarrow> byte list" where
  "DescriptorFileName dbname number = dbname @ (lit ''/MANIFEST-'' @ decimal6 number)"

definition CurrentFileName :: "byte list \<Rightarrow> byte list" where
  "CurrentFileName dbname = dbname @ lit ''/CURRENT''"

definition LockFileName :: "byte list \<Rightarrow> byte list" where
  "LockFileName dbname = dbname @ lit ''/LOCK''"

definition TempFileName :: "byte list \<Rightarrow> u64 \<Rightarrow> byte list" where
  "TempFileName dbname number = MakeFileName dbname number (lit ''dbtmp'')"

definition InfoLogFileName :: "byte list \<Rightarrow> byte list" where
  "InfoLogFileName dbname = dbname @ lit ''/LOG''"

definition OldInfoLogFileName :: "byte list \<Rightarrow> byte list" where
  "OldInfoLogFileName dbname = dbname @ lit ''/LOG.old''"

definition ParseFileName :: "byte list \<Rightarrow> (u64 \<times> FileType) option" where
  "ParseFileName filename =
     (let rest = filename
      in if rest = lit ''CURRENT'' then Some (0, kCurrentFile)
         else if rest = lit ''LOCK'' then Some (0, kDBLockFile)
         else if rest = lit ''LOG'' \<or> rest = lit ''LOG.old'' then Some (0, kInfoLogFile)
         else if starts_with rest (lit ''MANIFEST-'') then
           (case ConsumeDecimalNumber (remove_prefix 9 rest) of
              (None, _) \<Rightarrow> None
            | (Some num, rest) \<Rightarrow> if rest \<noteq> [] then None else Some (num, kDescriptorFile))
         else
           (case ConsumeDecimalNumber rest of
              (None, _) \<Rightarrow> None
            | (Some num, suffix) \<Rightarrow>
                if suffix = lit ''.log'' then Some (num, kLogFile)
                else if suffix = lit ''.sst'' \<or> suffix = lit ''.ldb'' then Some (num, kTableFile)
                else if suffix = lit ''.dbtmp'' then Some (num, kTempFile)
                else None))"

section \<open>Names are recognised\<close>

lemma digits_value_zeros: "digits_value 0 (replicate k 48 @ ds) = digits_value 0 ds"
  by (induction k) simp_all

lemma decimal6_digits: "list_all is_digit (decimal6 n)" "decimal6 n \<noteq> []" "digits_value 0 (decimal6 n) = unat n"
  using decimal_digits [OF refl, of "unat n"]
  by (auto simp: decimal6_def digits_value_zeros list_all_iff is_digit_def)

lemma Consume_decimal6:
  "rest = [] \<or> \<not> is_digit (hd rest) \<Longrightarrow> ConsumeDecimalNumber (decimal6 n @ rest) = (Some n, rest)"
  using ConsumeDecimalNumber_digits [OF decimal6_digits(1,2), of n rest] decimal6_digits(3) [of n] unat_bound [of n] by simp

lemma decimal6_hd: "\<exists>d ds. decimal6 n = d # ds \<and> 48 \<le> d \<and> d \<le> 57"
  using decimal6_digits(1,2) [of n] by (cases "decimal6 n") (auto simp: is_digit_def)

lemma parse_numbered:
  assumes "rest \<in> {lit ''.log'', lit ''.sst'', lit ''.ldb'', lit ''.dbtmp''}"
  shows "ParseFileName (decimal6 n @ rest) =
    Some (n, if rest = lit ''.log'' then kLogFile else if rest = lit ''.dbtmp'' then kTempFile else kTableFile)"
proof -
  obtain d ds where d: "decimal6 n = d # ds" "48 \<le> d" "d \<le> 57" using decimal6_hd by blast
  have ne: "d \<noteq> 67" "d \<noteq> 76" "d \<noteq> 77" using d(3) by auto
  have "ConsumeDecimalNumber (decimal6 n @ rest) = (Some n, rest)"
    using assms by (intro Consume_decimal6) (auto simp: lit_def is_digit_def)
  then show ?thesis
    using assms ne by (auto simp: ParseFileName_def Let_def d(1) lit_def starts_with_def)
qed

lemma parse_manifest: "ParseFileName (lit ''MANIFEST-'' @ decimal6 n) = Some (n, kDescriptorFile)"
  using Consume_decimal6 [of "[]" n]
  by (simp add: ParseFileName_def Let_def lit_def starts_with_def remove_prefix_def)

text \<open>
  (C34) Every name that the database gives to a file is recognised in the directory, with its
  number and type, whatever the number is.
\<close>

theorem filename_roundtrip:
  "map (\<lambda>name. ParseFileName (drop (length dbname + 1) name))
     [LogFileName dbname n, TableFileName dbname n, SSTTableFileName dbname n, DescriptorFileName dbname n,
      TempFileName dbname n, CurrentFileName dbname, LockFileName dbname, InfoLogFileName dbname, OldInfoLogFileName dbname] =
   [Some (n, kLogFile), Some (n, kTableFile), Some (n, kTableFile), Some (n, kDescriptorFile), Some (n, kTempFile),
    Some (0, kCurrentFile), Some (0, kDBLockFile), Some (0, kInfoLogFile), Some (0, kInfoLogFile)]"
proof -
  have m: "drop (length dbname + 1) (MakeFileName dbname n s) = decimal6 n @ (lit ''.'' @ s)" for s
    by (simp add: MakeFileName_def lit_def)
  have c: "drop (length dbname + 1) (dbname @ lit (CHR ''/'' # s)) = lit s" for s
    by (simp add: lit_def)
  have d: "drop (length dbname + 1) (DescriptorFileName dbname n) = lit ''MANIFEST-'' @ decimal6 n"
    by (simp add: DescriptorFileName_def lit_def)
  have p: "lit ''.'' @ lit s = lit (CHR ''.'' # s)" for s by (simp add: lit_def)
  show ?thesis
    unfolding list.map LogFileName_def TableFileName_def SSTTableFileName_def TempFileName_def
      CurrentFileName_def LockFileName_def InfoLogFileName_def OldInfoLogFileName_def m c d p
    by (simp add: parse_numbered parse_manifest) (simp add: ParseFileName_def lit_def)
qed

end
