(* ===== verification/Ldb_Iterator.thy ===== *)
theory Ldb_Iterator
  imports Ldb_Comparator Ldb_Logging
begin

text \<open>
  \<^verbatim>\<open>leveldb/iterator.h\<close> and \<^verbatim>\<open>table/iterator.cc\<close>: iterators, their documented contract as a
  locale over an abstract cursor in a list of entries, and the iterators without entries.
\<close>

section \<open>The interface\<close>

text \<open>
  The virtual functions of \<open>Iterator\<close>. Operations that move the iterator may fail to
  return: the model then has no result. \<open>it_value\<close> is the bytes that the returned slice
  points to, if they can be read.
\<close>

record 's iterator =
  it_Valid :: "'s \<Rightarrow> bool"
  it_SeekToFirst :: "'s \<Rightarrow> 's option"
  it_SeekToLast :: "'s \<Rightarrow> 's option"
  it_Seek :: "slice \<Rightarrow> 's \<Rightarrow> 's option"
  it_Next :: "'s \<Rightarrow> 's option"
  it_Prev :: "'s \<Rightarrow> 's option"
  it_key :: "'s \<Rightarrow> slice"
  it_value :: "'s \<Rightarrow> slice option"
  it_status :: "'s \<Rightarrow> Status"

section \<open>The contract\<close>

text \<open>
  The source of an iterator is a list of entries. A cursor is an index into it, or its
  length when the iterator is not valid. \<open>Next\<close> and \<open>Prev\<close> require a valid iterator.
\<close>

type_synonym entries = "(slice \<times> slice) list"

datatype iter_op = First | Last | To slice | Forward | Backward

definition seek_pos :: "(slice \<Rightarrow> slice \<Rightarrow> int) \<Rightarrow> slice \<Rightarrow> entries \<Rightarrow> nat" where
  "seek_pos cmp target kvs = length (takeWhile (\<lambda>kv. cmp (fst kv) target < 0) kvs)"

definition prev_pos :: "entries \<Rightarrow> nat \<Rightarrow> nat" where
  "prev_pos kvs i = (if i = 0 then length kvs else i - 1)"

fun cursor_op :: "(slice \<Rightarrow> slice \<Rightarrow> int) \<Rightarrow> entries \<Rightarrow> iter_op \<Rightarrow> nat \<Rightarrow> nat option" where
  "cursor_op cmp kvs First i = Some 0"
| "cursor_op cmp kvs Last i = Some (length kvs - 1)"
| "cursor_op cmp kvs (To target) i = Some (seek_pos cmp target kvs)"
| "cursor_op cmp kvs Forward i = (if i < length kvs then Some (i + 1) else None)"
| "cursor_op cmp kvs Backward i = (if i < length kvs then Some (prev_pos kvs i) else None)"

fun iter_do :: "'s iterator \<Rightarrow> iter_op \<Rightarrow> 's \<Rightarrow> 's option" where
  "iter_do it First = it_SeekToFirst it"
| "iter_do it Last = it_SeekToLast it"
| "iter_do it (To target) = it_Seek it target"
| "iter_do it Forward = it_Next it"
| "iter_do it Backward = it_Prev it"

primrec runs :: "('o \<Rightarrow> 's \<Rightarrow> 's option) \<Rightarrow> 'o list \<Rightarrow> 's \<Rightarrow> 's option" where
  "runs step [] s = Some s"
| "runs step (x # xs) s = Option.bind (step x s) (runs step xs)"

definition shows_entry :: "'s iterator \<Rightarrow> entries \<Rightarrow> nat \<Rightarrow> 's \<Rightarrow> bool" where
  "shows_entry it kvs i s \<longleftrightarrow>
     it_status it s = OK \<and>
     (if i < length kvs then it_Valid it s \<and> it_key it s = fst (kvs ! i) \<and> it_value it s = Some (snd (kvs ! i))
      else \<not> it_Valid it s)"

text \<open>
  What \<^verbatim>\<open>iterator.h\<close> documents: \<open>at kvs i s\<close> says that \<open>s\<close> iterates over \<open>kvs\<close> and stands at
  index \<open>i\<close>; seeking is promised for the targets that are \<open>valid\<close>.
\<close>

locale iterator_contract =
  fixes it :: "'s iterator" and cmp :: "slice \<Rightarrow> slice \<Rightarrow> int" and valid :: "slice \<Rightarrow> bool"
    and at :: "entries \<Rightarrow> nat \<Rightarrow> 's \<Rightarrow> bool"
  assumes at_bound: "at kvs i s \<Longrightarrow> i \<le> length kvs"
    and at_shows: "at kvs i s \<Longrightarrow> shows_entry it kvs i s"
    and at_first: "at kvs i s \<Longrightarrow> \<exists>s'. it_SeekToFirst it s = Some s' \<and> at kvs 0 s'"
    and at_last: "at kvs i s \<Longrightarrow> \<exists>s'. it_SeekToLast it s = Some s' \<and> at kvs (length kvs - 1) s'"
    and at_seek: "at kvs i s \<Longrightarrow> valid target \<Longrightarrow>
      \<exists>s'. it_Seek it target s = Some s' \<and> at kvs (seek_pos cmp target kvs) s'"
    and at_next: "at kvs i s \<Longrightarrow> i < length kvs \<Longrightarrow> \<exists>s'. it_Next it s = Some s' \<and> at kvs (i + 1) s'"
    and at_prev: "at kvs i s \<Longrightarrow> i < length kvs \<Longrightarrow> \<exists>s'. it_Prev it s = Some s' \<and> at kvs (prev_pos kvs i) s'"
begin

lemma op_simulates:
  assumes "at kvs i s" "cursor_op cmp kvs x i = Some j" "\<forall>target. x = To target \<longrightarrow> valid target"
  shows "\<exists>s'. iter_do it x s = Some s' \<and> at kvs j s'"
  using assms by (cases x) (auto intro: at_first at_last [simplified] at_seek at_next [simplified] at_prev split: if_splits)

lemma runs_simulates:
  assumes "at kvs i s" "runs (cursor_op cmp kvs) xs i = Some j" "\<forall>target. To target \<in> set xs \<longrightarrow> valid target"
  shows "\<exists>s'. runs (iter_do it) xs s = Some s' \<and> at kvs j s'"
  using assms
proof (induction xs arbitrary: i s)
  case (Cons x xs)
  then obtain k where k: "cursor_op cmp kvs x i = Some k" "runs (cursor_op cmp kvs) xs k = Some j"
    by (auto simp: bind_eq_Some_conv)
  then obtain t where t: "iter_do it x s = Some t" "at kvs k t"
    using op_simulates Cons.prems by (metis list.set_intros(1))
  then show ?case using Cons.IH [OF t(2) k(2)] Cons.prems(3) by simp
qed simp

text \<open>A loop from \<open>SeekToFirst\<close> with \<open>Next\<close> sees every entry once and in order.\<close>

lemma forward_scan:
  assumes "at kvs i s" "n \<le> length kvs"
  shows "\<exists>s'. runs (iter_do it) (First # replicate n Forward) s = Some s' \<and> at kvs n s'"
proof -
  have "runs (cursor_op cmp kvs) (replicate n Forward) k = Some (k + n)" if "k + n \<le> length kvs" for k
    using that by (induction n arbitrary: k) auto
  from this [of 0] show ?thesis
    using runs_simulates [OF assms(1), of "First # replicate n Forward" n] assms(2) by auto
qed

end

section \<open>Sources in increasing order\<close>

definition sorted_entries :: "comparator_t \<Rightarrow> (slice \<Rightarrow> bool) \<Rightarrow> entries \<Rightarrow> bool" where
  "sorted_entries c valid kvs \<longleftrightarrow>
     list_all (\<lambda>kv. valid (fst kv)) kvs \<and> sorted_wrt (\<lambda>a b. Compare c (fst a) (fst b) < 0) kvs"

lemma seek_posI:
  "\<forall>j < i. cmp (fst (kvs ! j)) target < 0 \<Longrightarrow> i \<le> length kvs \<Longrightarrow>
    (i < length kvs \<Longrightarrow> \<not> cmp (fst (kvs ! i)) target < 0) \<Longrightarrow> seek_pos cmp target kvs = i"
  unfolding seek_pos_def by (subst takeWhile_eq_take_P_nth [of i]) auto

definition ordered :: "comparator_t \<Rightarrow> (slice \<Rightarrow> bool) \<Rightarrow> entries \<Rightarrow> bool" where
  "ordered c valid kvs \<longleftrightarrow> comparator c valid \<and> sorted_entries c valid kvs"

lemma valid_key: "ordered c valid kvs \<Longrightarrow> a < length kvs \<Longrightarrow> valid (fst (kvs ! a))"
  by (simp add: ordered_def sorted_entries_def list_all_length)

lemma key_less: "ordered c valid kvs \<Longrightarrow> a < b \<Longrightarrow> b < length kvs \<Longrightarrow> Compare c (fst (kvs ! a)) (fst (kvs ! b)) < 0"
  using sorted_wrt_nth_less [of "\<lambda>x y. Compare c (fst x) (fst y) < 0" kvs a b]
  by (simp add: ordered_def sorted_entries_def)

lemma key_less_iff:
  assumes "ordered c valid kvs" "a < length kvs" "b < length kvs"
  shows "Compare c (fst (kvs ! a)) (fst (kvs ! b)) < 0 \<longleftrightarrow> a < b"
    and "Compare c (fst (kvs ! a)) (fst (kvs ! b)) > 0 \<longleftrightarrow> b < a"
proof -
  have c: "comparator c valid" using assms(1) by (simp add: ordered_def)
  have v: "valid (fst (kvs ! a))" "valid (fst (kvs ! b))" using valid_key assms by blast+
  note l = key_less [OF assms(1), of a b] key_less [OF assms(1), of b a]
    comparator.refl [OF c v(1)] comparator.sym [OF c v] comparator.sym [OF c v(2,1)]
  show "Compare c (fst (kvs ! a)) (fst (kvs ! b)) < 0 \<longleftrightarrow> a < b"
    using l assms(2,3) by (cases a b rule: linorder_cases) auto
  show "Compare c (fst (kvs ! a)) (fst (kvs ! b)) > 0 \<longleftrightarrow> b < a"
    using l assms(2,3) by (cases a b rule: linorder_cases) auto
qed

lemma ordered_nth_eq:
  assumes "ordered c valid kvs" "a < length kvs" "b < length kvs"
  shows "kvs ! a = kvs ! b \<longleftrightarrow> a = b"
  using key_less_iff(1) [OF assms(1,2,3)] key_less_iff(1) [OF assms(1,3,2)] key_less_iff(1) [OF assms(1,2,2)]
  by (cases a b rule: linorder_cases) auto

lemma ordered_distinct: "ordered c valid kvs \<Longrightarrow> distinct kvs"
  using ordered_nth_eq by (auto simp: distinct_conv_nth)

lemma in_take:
  assumes "ordered c valid kvs" "q < length kvs"
  shows "kvs ! q \<in> set (take m kvs) \<longleftrightarrow> q < m"
proof
  assume "kvs ! q \<in> set (take m kvs)"
  then obtain r where "r < m" "r < length kvs" "kvs ! q = kvs ! r" by (auto simp: in_set_conv_nth)
  then show "q < m" using ordered_nth_eq [OF assms] by auto
next
  assume "q < m"
  then show "kvs ! q \<in> set (take m kvs)" using assms(2) by (auto simp: in_set_conv_nth)
qed

section \<open>Iterators without entries\<close>

text \<open>The state of an \<open>EmptyIterator\<close> is its status; \<open>Next\<close> and \<open>Prev\<close> must not be called.\<close>

definition EmptyIterator :: "Status iterator" where
  "EmptyIterator =
     \<lparr>it_Valid = \<lambda>_. False, it_SeekToFirst = Some, it_SeekToLast = Some, it_Seek = \<lambda>_. Some,
      it_Next = \<lambda>_. None, it_Prev = \<lambda>_. None, it_key = \<lambda>_. [], it_value = \<lambda>_. Some [], it_status = id\<rparr>"

definition NewEmptyIterator :: Status where
  "NewEmptyIterator = OK"

definition NewErrorIterator :: "Status \<Rightarrow> Status" where
  "NewErrorIterator status = status"

interpretation empty_iterator: iterator_contract EmptyIterator cmp "\<lambda>_. True"
  "\<lambda>kvs i s. kvs = [] \<and> i = 0 \<and> s = NewEmptyIterator" for cmp
  by unfold_locales (auto simp: EmptyIterator_def shows_entry_def NewEmptyIterator_def seek_pos_def)

end
