(* ===== verification/Ldb_Block.thy ===== *)
theory Ldb_Block
  imports Ldb_Iterator
begin

text \<open>
  \<^verbatim>\<open>table/block_builder.cc\<close> and \<^verbatim>\<open>table/block.cc\<close>: the blocks of a table file. Keys are stored
  without the prefix they share with their predecessor; restart points, at which the key
  is stored in full, are listed at the end of the block for the binary search.
\<close>

section \<open>Building a block\<close>

text \<open>Of the options, a builder uses only \<open>block_restart_interval\<close>, an argument here.\<close>

record BlockBuilder =
  bb_buffer :: "byte list"
  bb_restarts :: "u32 list"
  bb_counter :: int
  bb_finished :: bool
  bb_last_key :: "byte list"

definition make_BlockBuilder :: BlockBuilder where
  "make_BlockBuilder =
     \<lparr>bb_buffer = [], bb_restarts = [0], bb_counter = 0, bb_finished = False, bb_last_key = []\<rparr>"

definition BlockBuilder_Reset :: "BlockBuilder \<Rightarrow> BlockBuilder" where
  "BlockBuilder_Reset b =
     b\<lparr>bb_buffer := [], bb_restarts := [0], bb_counter := 0, bb_finished := False, bb_last_key := []\<rparr>"

definition CurrentSizeEstimate :: "BlockBuilder \<Rightarrow> nat" where
  "CurrentSizeEstimate b = length (bb_buffer b) + length (bb_restarts b) * 4 + 4"

definition BlockBuilder_empty :: "BlockBuilder \<Rightarrow> bool" where
  "BlockBuilder_empty b \<longleftrightarrow> bb_buffer b = []"

definition BlockBuilder_Finish :: "BlockBuilder \<Rightarrow> slice \<times> BlockBuilder" where
  "BlockBuilder_Finish b =
     (let buffer = foldl PutFixed32 (bb_buffer b) (bb_restarts b);
          buffer = PutFixed32 buffer (of_nat (length (bb_restarts b)))
      in (buffer, b\<lparr>bb_buffer := buffer, bb_finished := True\<rparr>))"

text \<open>The loop over the common prefix is that of \<open>diff_index\<close>.\<close>

definition BlockBuilder_Add :: "int \<Rightarrow> slice \<Rightarrow> slice \<Rightarrow> BlockBuilder \<Rightarrow> BlockBuilder" where
  "BlockBuilder_Add block_restart_interval key value b =
     (let (shared, restarts, counter) =
            (if bb_counter b < block_restart_interval
             then (diff_index (bb_last_key b) key, bb_restarts b, bb_counter b)
             else (0, bb_restarts b @ [of_nat (length (bb_buffer b))], 0));
          non_shared = length key - shared;
          buffer = PutVarint32 (bb_buffer b) (of_nat shared);
          buffer = PutVarint32 buffer (of_nat non_shared);
          buffer = PutVarint32 buffer (of_nat (length value));
          buffer = buffer @ take non_shared (drop shared key);
          buffer = buffer @ value
      in b\<lparr>bb_buffer := buffer, bb_restarts := restarts, bb_counter := counter + 1,
           bb_last_key := take shared (bb_last_key b) @ take non_shared (drop shared key)\<rparr>)"

section \<open>Blocks\<close>

text \<open>\<open>bl_restart_offset\<close> is not set in a block with the error marker, and not used either.\<close>

record Block =
  bl_data :: "byte list"
  bl_size :: size_t
  bl_restart_offset :: u32

definition NumRestarts :: "Block \<Rightarrow> u32" where
  "NumRestarts b = DecodeFixed32 (drop (unat (bl_size b - 4)) (bl_data b))"

definition make_Block :: "slice \<Rightarrow> Block" where
  "make_Block contents =
     (let b = \<lparr>bl_data = contents, bl_size = of_nat (length contents), bl_restart_offset = 0\<rparr>
      in if bl_size b < 4 then b\<lparr>bl_size := 0\<rparr>
         else let max_restarts_allowed = (bl_size b - 4) div 4
              in if ucast (NumRestarts b) > max_restarts_allowed then b\<lparr>bl_size := 0\<rparr>
                 else b\<lparr>bl_restart_offset := ucast (bl_size b - ucast (1 + NumRestarts b) * 4)\<rparr>)"

text \<open>
  Pointers into the block are offsets into its bytes. The result is the offset of the key
  delta, \<open>shared\<close>, \<open>non_shared\<close> and \<open>value_length\<close>.
\<close>

definition DecodeEntry :: "byte list \<Rightarrow> nat \<Rightarrow> nat \<Rightarrow> (nat \<times> u32 \<times> u32 \<times> u32) option" where
  "DecodeEntry data p limit =
     (if int limit - int p < 3 then None
      else let q = take (limit - p) (drop p data);
               shared = ucast (q ! 0); non_shared = ucast (q ! 1); value_length = ucast (q ! 2)
           in case (if (shared OR non_shared OR value_length :: u32) < 128
                    then Some (shared, non_shared, value_length, drop 3 q)
                    else case GetVarint32Ptr q of
                           None \<Rightarrow> None
                         | Some (shared, q) \<Rightarrow>
                             (case GetVarint32Ptr q of
                                None \<Rightarrow> None
                              | Some (non_shared, q) \<Rightarrow>
                                  (case GetVarint32Ptr q of
                                     None \<Rightarrow> None
                                   | Some (value_length, q) \<Rightarrow> Some (shared, non_shared, value_length, q)))) of
                None \<Rightarrow> None
              | Some (shared, non_shared, value_length, q) \<Rightarrow>
                  if of_nat (length q) < non_shared + value_length then None
                  else Some (limit - length q, shared, non_shared, value_length))"

section \<open>Iterating over a block\<close>

text \<open>
  \<open>bi_value\<close> is the offset and the length of \<open>value_\<close>; it is \<open>None\<close> as long as \<open>value_\<close> does
  not point into the block. Functions return \<open>None\<close> where the code would read outside the
  block or subtract unrelated pointers.
\<close>

record Iter =
  bi_data :: "byte list"
  bi_restarts :: u32
  bi_num_restarts :: u32
  bi_current :: u32
  bi_restart_index :: u32
  bi_key :: "byte list"
  bi_value :: "(nat \<times> nat) option"
  bi_status :: Status

definition make_Iter :: "byte list \<Rightarrow> u32 \<Rightarrow> u32 \<Rightarrow> Iter" where
  "make_Iter data restarts num_restarts =
     \<lparr>bi_data = data, bi_restarts = restarts, bi_num_restarts = num_restarts, bi_current = restarts,
      bi_restart_index = num_restarts, bi_key = [], bi_value = None, bi_status = OK\<rparr>"

definition NextEntryOffset :: "Iter \<Rightarrow> u32 option" where
  "NextEntryOffset s = map_option (\<lambda>(data, size). of_nat (data + size)) (bi_value s)"

definition GetRestartPoint :: "Iter \<Rightarrow> u32 \<Rightarrow> u32 option" where
  "GetRestartPoint s index =
     (let p = unat (bi_restarts s) + unat index * 4
      in if p + 4 \<le> length (bi_data s) then Some (DecodeFixed32 (drop p (bi_data s))) else None)"

definition SeekToRestartPoint :: "u32 \<Rightarrow> Iter \<Rightarrow> Iter option" where
  "SeekToRestartPoint index s =
     map_option (\<lambda>offset. s\<lparr>bi_key := [], bi_restart_index := index, bi_value := Some (unat offset, 0)\<rparr>)
       (GetRestartPoint s index)"

definition bi_Valid :: "Iter \<Rightarrow> bool" where
  "bi_Valid s \<longleftrightarrow> bi_current s < bi_restarts s"

definition CorruptionError :: "Iter \<Rightarrow> Iter" where
  "CorruptionError s =
     s\<lparr>bi_current := bi_restarts s, bi_restart_index := bi_num_restarts s,
       bi_status := Corruption (lit ''bad entry in block''), bi_key := [], bi_value := None\<rparr>"

text \<open>The loop at the end of \<open>ParseNextKey\<close>.\<close>

function advance_restart :: "Iter \<Rightarrow> u32 \<Rightarrow> u32 option" where
  "advance_restart s index =
     (if index + 1 < bi_num_restarts s
      then case GetRestartPoint s (index + 1) of
             None \<Rightarrow> None
           | Some r \<Rightarrow> if r < bi_current s then advance_restart s (index + 1) else Some index
      else Some index)"
  by pat_completeness auto
termination
proof (relation "measure (\<lambda>(s, index). unat (bi_num_restarts s) - unat (index + 1))", goal_cases)
  case (2 s index r)
  then have "unat (index + 1 + 1) = Suc (unat (index + 1))" "unat (index + 1) < unat (bi_num_restarts s)"
    using unat_add_one [of "index + 1" "bi_num_restarts s"] by (simp_all add: word_less_nat_alt)
  then show ?case by simp
qed simp

declare advance_restart.simps [simp del]

definition ParseNextKey :: "Iter \<Rightarrow> (bool \<times> Iter) option" where
  "ParseNextKey s =
     (case NextEntryOffset s of
        None \<Rightarrow> None
      | Some current \<Rightarrow>
          let s = s\<lparr>bi_current := current\<rparr>
          in if current \<ge> bi_restarts s
             then Some (False, s\<lparr>bi_current := bi_restarts s, bi_restart_index := bi_num_restarts s\<rparr>)
             else case DecodeEntry (bi_data s) (unat current) (unat (bi_restarts s)) of
                    None \<Rightarrow> Some (False, CorruptionError s)
                  | Some (p, shared, non_shared, value_length) \<Rightarrow>
                      if length (bi_key s) < unat shared then Some (False, CorruptionError s)
                      else if p + unat non_shared > length (bi_data s) then None
                      else let s = s\<lparr>bi_key := take (unat shared) (bi_key s) @ take (unat non_shared) (drop p (bi_data s)),
                                     bi_value := Some (p + unat non_shared, unat value_length)\<rparr>
                           in map_option (\<lambda>index. (True, s\<lparr>bi_restart_index := index\<rparr>))
                                (advance_restart s (bi_restart_index s)))"

definition bi_Next :: "Iter \<Rightarrow> Iter option" where
  "bi_Next s = map_option snd (ParseNextKey s)"

text \<open>
  \<open>Prev\<close>: the first loop gives no index when there are no more entries; the second one,
  which \<open>SeekToLast\<close> shares, may not end.
\<close>

function prev_restart :: "Iter \<Rightarrow> u32 \<Rightarrow> u32 \<Rightarrow> u32 option option" where
  "prev_restart s original index =
     (case GetRestartPoint s index of
        None \<Rightarrow> None
      | Some r \<Rightarrow>
          if r \<ge> original then (if index = 0 then Some None else prev_restart s original (index - 1))
          else Some (Some index))"
  by pat_completeness auto
termination
  by (relation "measure (\<lambda>(s, original, index). unat index)") (simp_all add: measure_unat)

declare prev_restart.simps [simp del]

partial_function (option) parse_until :: "u32 \<Rightarrow> Iter \<Rightarrow> Iter option" where
  "parse_until bound s =
     Option.bind (ParseNextKey s) (\<lambda>(ok, s).
       if ok then Option.bind (NextEntryOffset s) (\<lambda>e. if e < bound then parse_until bound s else Some s)
       else Some s)"

definition bi_Prev :: "Iter \<Rightarrow> Iter option" where
  "bi_Prev s =
     (let original = bi_current s
      in case prev_restart s original (bi_restart_index s) of
           None \<Rightarrow> None
         | Some None \<Rightarrow> Some (s\<lparr>bi_current := bi_restarts s, bi_restart_index := bi_num_restarts s\<rparr>)
         | Some (Some index) \<Rightarrow> Option.bind (SeekToRestartPoint index s) (parse_until original))"

text \<open>\<open>Seek\<close>: the binary search gives no index when it finds a corrupt entry.\<close>

partial_function (option) seek_restart :: "comparator_t \<Rightarrow> slice \<Rightarrow> Iter \<Rightarrow> u32 \<Rightarrow> u32 \<Rightarrow> u32 option option" where
  "seek_restart c target s left right =
     (if left < right then
        let mid = (left + right + 1) div 2
        in Option.bind (GetRestartPoint s mid) (\<lambda>region_offset.
             case DecodeEntry (bi_data s) (unat region_offset) (unat (bi_restarts s)) of
               None \<Rightarrow> Some None
             | Some (key_ptr, shared, non_shared, value_length) \<Rightarrow>
                 if shared \<noteq> 0 then Some None
                 else if key_ptr + unat non_shared > length (bi_data s) then None
                 else let mid_key = take (unat non_shared) (drop key_ptr (bi_data s))
                      in if Compare c mid_key target < 0 then seek_restart c target s mid right
                         else seek_restart c target s left (mid - 1))
      else Some (Some left))"

partial_function (option) seek_linear :: "comparator_t \<Rightarrow> slice \<Rightarrow> Iter \<Rightarrow> Iter option" where
  "seek_linear c target s =
     Option.bind (ParseNextKey s) (\<lambda>(ok, s).
       if ok \<and> Compare c (bi_key s) target < 0 then seek_linear c target s else Some s)"

definition bi_Seek :: "comparator_t \<Rightarrow> slice \<Rightarrow> Iter \<Rightarrow> Iter option" where
  "bi_Seek c target s =
     (case seek_restart c target s 0 (bi_num_restarts s - 1) of
        None \<Rightarrow> None
      | Some None \<Rightarrow> Some (CorruptionError s)
      | Some (Some left) \<Rightarrow> Option.bind (SeekToRestartPoint left s) (seek_linear c target))"

definition bi_SeekToFirst :: "Iter \<Rightarrow> Iter option" where
  "bi_SeekToFirst s = Option.bind (SeekToRestartPoint 0 s) (\<lambda>s. map_option snd (ParseNextKey s))"

definition bi_SeekToLast :: "Iter \<Rightarrow> Iter option" where
  "bi_SeekToLast s =
     Option.bind (SeekToRestartPoint (bi_num_restarts s - 1) s) (\<lambda>s. parse_until (bi_restarts s) s)"

definition bi_value_bytes :: "Iter \<Rightarrow> slice option" where
  "bi_value_bytes s =
     Option.bind (bi_value s) (\<lambda>(data, size).
       if data + size \<le> length (bi_data s) then Some (take size (drop data (bi_data s))) else None)"

definition BlockIter :: "comparator_t \<Rightarrow> Iter iterator" where
  "BlockIter c =
     \<lparr>it_Valid = bi_Valid, it_SeekToFirst = bi_SeekToFirst, it_SeekToLast = bi_SeekToLast,
      it_Seek = bi_Seek c, it_Next = bi_Next, it_Prev = bi_Prev, it_key = bi_key,
      it_value = bi_value_bytes, it_status = bi_status\<rparr>"

text \<open>The result is the state of an \<open>EmptyIterator\<close> or of a \<open>BlockIter\<close>.\<close>

definition Block_NewIterator :: "Block \<Rightarrow> Status + Iter" where
  "Block_NewIterator b =
     (if bl_size b < 4 then Inl (NewErrorIterator (Corruption (lit ''bad block contents'')))
      else let num_restarts = NumRestarts b
           in if num_restarts = 0 then Inl NewEmptyIterator
              else Inr (make_Iter (bl_data b) (bl_restart_offset b) num_restarts))"

end
