(* ===== verification/Ldb_Block_Spec.thy ===== *)
theory Ldb_Block_Spec
  imports Ldb_Block
begin

text \<open>
  The layout of blocks as a specification, that the builder produces it, and that the
  iterator over a block meets the contract of iterators.
\<close>

section \<open>The layout\<close>

text \<open>An entry is stored with the length of the prefix that it shares with its predecessor.\<close>

fun entry_bytes :: "nat \<times> slice \<times> slice \<Rightarrow> byte list" where
  "entry_bytes (shared, key, value) =
     EncodeVarint32 (of_nat shared) @ EncodeVarint32 (of_nat (length key - shared)) @
     EncodeVarint32 (of_nat (length value)) @ drop shared key @ value"

definition entries_bytes :: "nat list \<Rightarrow> entries \<Rightarrow> byte list" where
  "entries_bytes shs kvs = concat (map entry_bytes (zip shs kvs))"

text \<open>The offset of the entry with index \<open>i\<close>.\<close>

definition off :: "nat list \<Rightarrow> entries \<Rightarrow> nat \<Rightarrow> nat" where
  "off shs kvs i = length (entries_bytes (take i shs) (take i kvs))"

definition prev_key :: "entries \<Rightarrow> nat \<Rightarrow> slice" where
  "prev_key kvs i = (if i = 0 then [] else fst (kvs ! (i - 1)))"

definition shares :: "nat \<Rightarrow> slice \<Rightarrow> slice \<Rightarrow> bool" where
  "shares n key prev \<longleftrightarrow> n \<le> length key \<and> n \<le> length prev \<and> take n prev = take n key"

definition laid_out :: "entries \<Rightarrow> nat list \<Rightarrow> nat list \<Rightarrow> bool" where
  "laid_out kvs shs ris \<longleftrightarrow>
     length shs = length kvs \<and> (\<forall>i < length kvs. shares (shs ! i) (fst (kvs ! i)) (prev_key kvs i)) \<and>
     ris \<noteq> [] \<and> hd ris = 0 \<and> sorted_wrt (<) ris \<and>
     (\<forall>r \<in> set ris. r < max 1 (length kvs) \<and> (r < length kvs \<longrightarrow> shs ! r = 0))"

definition restart_words :: "entries \<Rightarrow> nat list \<Rightarrow> nat list \<Rightarrow> u32 list" where
  "restart_words kvs shs ris = map (\<lambda>r. of_nat (off shs kvs r)) ris"

lemma restart_words_simps [simp]:
  "length (restart_words kvs shs ris) = length ris"
  "j < length ris \<Longrightarrow> restart_words kvs shs ris ! j = of_nat (off shs kvs (ris ! j))"
  by (simp_all add: restart_words_def)

definition block_bytes :: "entries \<Rightarrow> nat list \<Rightarrow> nat list \<Rightarrow> byte list" where
  "block_bytes kvs shs ris =
     entries_bytes shs kvs @ concat (map EncodeFixed32 (restart_words kvs shs ris)) @ EncodeFixed32 (of_nat (length ris))"

section \<open>The builder\<close>

lemma diff_index_shares: "shares (diff_index prev key) key prev"
  by (induction prev key rule: diff_index.induct) (auto simp: shares_def)

lemma off_take: "i \<le> length kvs \<Longrightarrow> length shs = length kvs \<Longrightarrow> off (shs @ shs') (kvs @ kvs') i = off shs kvs i"
  by (simp add: off_def)

lemma off_all: "length shs = length kvs \<Longrightarrow> off shs kvs (length kvs) = length (entries_bytes shs kvs)"
  by (simp add: off_def)

definition built :: "entries \<Rightarrow> BlockBuilder \<Rightarrow> bool" where
  "built kvs b \<longleftrightarrow>
     (\<exists>shs ris. laid_out kvs shs ris \<and> bb_buffer b = entries_bytes shs kvs \<and>
        bb_restarts b = restart_words kvs shs ris) \<and>
     bb_last_key b = prev_key kvs (length kvs) \<and> (kvs = [] \<longrightarrow> bb_counter b = 0)"

lemma builtI:
  "laid_out kvs shs ris \<Longrightarrow> bb_buffer b = entries_bytes shs kvs \<Longrightarrow> bb_restarts b = restart_words kvs shs ris \<Longrightarrow>
    bb_last_key b = prev_key kvs (length kvs) \<Longrightarrow> (kvs = [] \<Longrightarrow> bb_counter b = 0) \<Longrightarrow> built kvs b"
  unfolding built_def by blast

lemma built_make: "built [] make_BlockBuilder"
  unfolding built_def make_BlockBuilder_def
  by (auto simp: laid_out_def entries_bytes_def restart_words_def prev_key_def off_def
      intro!: exI [of _ "[] :: nat list"] exI [of _ "[0] :: nat list"])

lemma laid_out_snoc:
  assumes "laid_out kvs shs ris" "shares sh k (prev_key kvs (length kvs))"
  shows "laid_out (kvs @ [(k, v)]) (shs @ [sh]) ris"
    and "sh = 0 \<Longrightarrow> kvs \<noteq> [] \<Longrightarrow> laid_out (kvs @ [(k, v)]) (shs @ [sh]) (ris @ [length kvs])"
proof -
  have n: "length shs = length kvs" and sh: "kvs = [] \<Longrightarrow> sh = 0"
    using assms by (auto simp: laid_out_def shares_def prev_key_def)
  have "prev_key (kvs @ [(k, v)]) i = prev_key kvs i" if "i \<le> length kvs" for i
    using that by (auto simp: prev_key_def nth_append)
  then have all: "shares ((shs @ [sh]) ! i) (fst ((kvs @ [(k, v)]) ! i)) (prev_key (kvs @ [(k, v)]) i)"
    if "i < Suc (length kvs)" for i
    using that assms n by (cases "i = length kvs") (auto simp: laid_out_def nth_append)
  have ris: "r < Suc (length kvs) \<and> (shs @ [sh]) ! r = 0" if "r \<in> set ris" for r
  proof -
    have r: "r < max 1 (length kvs)" "r < length kvs \<Longrightarrow> shs ! r = 0" using that assms(1) by (auto simp: laid_out_def)
    show ?thesis
    proof (cases "kvs = []")
      case True
      then show ?thesis using r(1) sh n by simp
    next
      case False
      then have "r < length kvs" using r(1) by (cases kvs) auto
      then show ?thesis using r(2) n by (simp add: nth_append)
    qed
  qed
  show "laid_out (kvs @ [(k, v)]) (shs @ [sh]) ris"
    using assms(1) all ris n by (auto simp: laid_out_def)
  have "r < length kvs" if "r \<in> set ris" "kvs \<noteq> []" for r
    using that assms(1) by (cases kvs) (auto simp: laid_out_def max_def split: if_splits)
  then show "laid_out (kvs @ [(k, v)]) (shs @ [sh]) (ris @ [length kvs])" if "sh = 0" "kvs \<noteq> []"
    using that assms(1) all ris n by (auto simp: laid_out_def sorted_wrt_append nth_append)
qed

lemma restart_words_snoc:
  assumes "laid_out kvs shs ris"
  shows "restart_words (kvs @ [kv]) (shs @ [sh]) ris = restart_words kvs shs ris"
    and "restart_words (kvs @ [kv]) (shs @ [sh]) (ris @ [length kvs]) =
      restart_words kvs shs ris @ [of_nat (length (entries_bytes shs kvs))]"
proof -
  have n: "length shs = length kvs" using assms by (simp add: laid_out_def)
  have "off (shs @ [sh]) (kvs @ [kv]) r = off shs kvs r" if "r \<in> set ris" for r
  proof -
    have "r \<le> length kvs" using that assms by (cases kvs) (auto simp: laid_out_def max_def split: if_splits)
    then show ?thesis using n by (rule off_take)
  qed
  then show "restart_words (kvs @ [kv]) (shs @ [sh]) ris = restart_words kvs shs ris"
    by (auto simp: restart_words_def)
  then show "restart_words (kvs @ [kv]) (shs @ [sh]) (ris @ [length kvs]) =
      restart_words kvs shs ris @ [of_nat (length (entries_bytes shs kvs))]"
    using off_take [OF _ n] off_all [OF n] by (simp add: restart_words_def)
qed

lemma built_Add:
  assumes b: "built kvs b" and "interval \<ge> 1"
  shows "built (kvs @ [(k, v)]) (BlockBuilder_Add interval k v b)"
proof -
  obtain shs ris where l: "laid_out kvs shs ris" "bb_buffer b = entries_bytes shs kvs"
      "bb_restarts b = restart_words kvs shs ris" "bb_last_key b = prev_key kvs (length kvs)"
      "kvs = [] \<longrightarrow> bb_counter b = 0"
    using b by (auto simp: built_def)
  define again where "again \<longleftrightarrow> bb_counter b < interval"
  define sh where "sh = (if again then diff_index (bb_last_key b) k else 0)"
  have sh: "shares sh k (prev_key kvs (length kvs))"
    using diff_index_shares [of "bb_last_key b" k] l(4) by (auto simp: sh_def shares_def)
  have n: "length shs = length kvs" using l by (simp add: laid_out_def)
  have buf: "bb_buffer (BlockBuilder_Add interval k v b) = entries_bytes (shs @ [sh]) (kvs @ [(k, v)])"
    using n by (simp add: BlockBuilder_Add_def sh_def again_def l(2) entries_bytes_def PutVarint32_def)
  have rs: "bb_restarts (BlockBuilder_Add interval k v b) =
      (if again then bb_restarts b else bb_restarts b @ [of_nat (length (bb_buffer b))])"
    by (simp add: BlockBuilder_Add_def again_def)
  have key: "bb_last_key (BlockBuilder_Add interval k v b) = prev_key (kvs @ [(k, v)]) (length (kvs @ [(k, v)]))"
    using sh by (simp add: BlockBuilder_Add_def l(4) sh_def again_def prev_key_def nth_append shares_def split: if_splits)
  show ?thesis
  proof (cases again)
    case True
    then show ?thesis
      using rs l(3) by (intro builtI [OF laid_out_snoc(1) [OF l(1) sh] buf _ key]) (simp_all add: restart_words_snoc [OF l(1)])
  next
    case False
    then have "kvs \<noteq> []" "sh = 0" using l(5) assms(2) by (auto simp: again_def sh_def)
    then show ?thesis
      using rs l(2,3) False
      by (intro builtI [OF laid_out_snoc(2) [OF l(1) sh] buf _ key]) (simp_all add: restart_words_snoc [OF l(1)])
  qed
qed

definition build_block :: "int \<Rightarrow> entries \<Rightarrow> BlockBuilder" where
  "build_block interval kvs = foldl (\<lambda>b (k, v). BlockBuilder_Add interval k v b) make_BlockBuilder kvs"

lemma built_build_block: "interval \<ge> 1 \<Longrightarrow> built kvs (build_block interval kvs)"
proof (induction kvs rule: rev_induct)
  case (snoc kv kvs)
  then show ?case using built_Add [of kvs _ interval "fst kv" "snd kv"] by (simp add: build_block_def case_prod_beta)
qed (simp add: build_block_def built_make)

lemma Finish_bytes:
  assumes "built kvs b"
  obtains shs ris where "laid_out kvs shs ris" "fst (BlockBuilder_Finish b) = block_bytes kvs shs ris"
proof -
  have "foldl PutFixed32 dst ws = dst @ concat (map EncodeFixed32 ws)" for dst ws
    by (induction ws arbitrary: dst) (simp_all add: PutFixed32_def)
  then have "fst (BlockBuilder_Finish b) = block_bytes kvs shs ris"
    if "bb_buffer b = entries_bytes shs kvs" "bb_restarts b = restart_words kvs shs ris" for shs ris
    using that by (simp add: BlockBuilder_Finish_def block_bytes_def PutFixed32_def restart_words_def Let_def)
  then show ?thesis
    using assms that unfolding built_def by blast
qed

section \<open>Decoding entries\<close>

lemma small_no_top: "(w :: u32) < 128 \<Longrightarrow> \<not> bit w 7"
proof -
  assume "w < 128"
  then have "drop_bit 7 w = 0" using unat_drop_bit [of 7 w] by (simp add: word_less_nat_alt flip: unat_eq_0)
  then show ?thesis by (simp add: bit_iff_odd_drop_bit)
qed

lemma GetVarint32Ptr_small:
  "(ucast x OR w :: u32) < 128 \<Longrightarrow> GetVarint32Ptr (x # t) = Some (ucast x, t)"
proof -
  assume "(ucast x OR w :: u32) < 128"
  then have "\<not> bit (ucast x OR w :: u32) 7" by (rule small_no_top)
  then have "\<not> bit (ucast x :: u32) 7" by (simp only: bit_or_iff simp_thms de_Morgan_disj)
  then have "(ucast x :: u32) AND 2 ^ 7 = 0" by (simp only: and_exp_eq_0_iff_not_bit simp_thms)
  then show ?thesis by (simp add: GetVarint32Ptr_def)
qed

lemma DecodeEntry_slow:
  assumes "p + 3 \<le> limit" "limit \<le> length data"
  shows "DecodeEntry data p limit =
     (case GetVarint32Ptr (take (limit - p) (drop p data)) of
        None \<Rightarrow> None
      | Some (shared, q) \<Rightarrow>
          (case GetVarint32Ptr q of
             None \<Rightarrow> None
           | Some (non_shared, q) \<Rightarrow>
               (case GetVarint32Ptr q of
                  None \<Rightarrow> None
                | Some (value_length, q) \<Rightarrow>
                    if of_nat (length q) < non_shared + value_length then None
                    else Some (limit - length q, shared, non_shared, value_length))))"
proof -
  have "length (take (limit - p) (drop p data)) \<ge> 3" using assms by simp
  then obtain x y z t where q: "take (limit - p) (drop p data) = x # y # z # t"
    by (metis Suc_le_length_iff numeral_3_eq_3)
  show ?thesis
  proof (cases "(ucast x OR ucast y OR ucast z :: u32) < 128")
    case True
    then have "GetVarint32Ptr (x # y # z # t) = Some (ucast x, y # z # t)"
      "GetVarint32Ptr (y # z # t) = Some (ucast y, z # t)" "GetVarint32Ptr (z # t) = Some (ucast z, t)"
      using GetVarint32Ptr_small [of x "ucast y OR ucast z"] GetVarint32Ptr_small [of y "ucast x OR ucast z"]
        GetVarint32Ptr_small [of z "ucast x OR ucast y"]
      by (simp_all only: or.commute or.left_commute or.assoc)
    then show ?thesis using True assms by (simp add: DecodeEntry_def q)
  next
    case False
    then show ?thesis using assms by (simp add: DecodeEntry_def q Let_def split: option.splits)
  qed
qed

lemma DecodeEntry_entry:
  assumes q: "take (limit - p) (drop p data) = entry_bytes (sh, k, v) @ rest"
    and le: "p \<le> limit" "limit \<le> length data" "sh \<le> length k" "limit < 2 ^ 32"
  shows "DecodeEntry data p limit =
      Some (limit - length (drop sh k @ v @ rest), of_nat sh, of_nat (length k - sh), of_nat (length v))"
proof -
  have len: "limit - p = length (entry_bytes (sh, k, v) @ rest)" using q le by (metis length_take length_drop min.absorb2 diff_le_mono)
  have pos: "length (EncodeVarint32 w) \<ge> 1" for w
    using GetVarint32Ptr_shorter [OF GetVarint32_varint [of w "[]"]] by (simp add: Suc_le_eq)
  have "p + 3 \<le> limit"
    using len pos [of "of_nat sh"] pos [of "of_nat (length k - sh)"] pos [of "of_nat (length v)"] le(1) by simp
  moreover have "\<not> (of_nat (length k - sh + (length v + length rest)) :: u32) < of_nat (length k - sh) + of_nat (length v)"
  proof -
    have "length k - sh + (length v + length rest) < 2 ^ 32" using len le by simp
    then show ?thesis by (simp add: word_less_nat_alt unat_of_nat_small del: of_nat_diff flip: of_nat_add)
  qed
  ultimately show ?thesis
    using le by (simp add: DecodeEntry_slow q GetVarint32_varint del: of_nat_diff)
qed

section \<open>States of the iterator\<close>

text \<open>An iterator over the block of \<open>kvs\<close>.\<close>

definition over :: "entries \<Rightarrow> nat list \<Rightarrow> nat list \<Rightarrow> Iter \<Rightarrow> bool" where
  "over kvs shs ris s \<longleftrightarrow>
     laid_out kvs shs ris \<and> bi_data s = block_bytes kvs shs ris \<and> length (bi_data s) < 2 ^ 32 \<and>
     bi_restarts s = of_nat (off shs kvs (length kvs)) \<and> bi_num_restarts s = of_nat (length ris) \<and> bi_status s = OK"

text \<open>The next entry to parse is that with index \<open>i\<close>; the end of the last value is its start.\<close>

definition before :: "entries \<Rightarrow> nat list \<Rightarrow> nat list \<Rightarrow> nat \<Rightarrow> Iter \<Rightarrow> bool" where
  "before kvs shs ris i s \<longleftrightarrow>
     over kvs shs ris s \<and> i \<le> length kvs \<and> bi_restart_index s < bi_num_restarts s \<and>
     (\<exists>data size. bi_value s = Some (data, size) \<and> data + size = off shs kvs i) \<and>
     (i < length kvs \<longrightarrow> shares (shs ! i) (fst (kvs ! i)) (bi_key s))"

definition at_entry :: "entries \<Rightarrow> nat list \<Rightarrow> nat list \<Rightarrow> nat \<Rightarrow> Iter \<Rightarrow> bool" where
  "at_entry kvs shs ris i s \<longleftrightarrow>
     (if i < length kvs
      then before kvs shs ris (i + 1) s \<and> bi_current s = of_nat (off shs kvs i) \<and> bi_key s = fst (kvs ! i) \<and>
        bi_value_bytes s = Some (snd (kvs ! i))
      else over kvs shs ris s \<and> i = length kvs \<and> bi_current s = bi_restarts s)"

lemma entries_split:
  assumes "i < length kvs" "length shs = length kvs"
  shows "entries_bytes shs kvs =
    entries_bytes (take i shs) (take i kvs) @ entry_bytes (shs ! i, kvs ! i) @
    entries_bytes (drop (Suc i) shs) (drop (Suc i) kvs)"
proof -
  have "zip shs kvs = zip (take i shs) (take i kvs) @ (shs ! i, kvs ! i) # zip (drop (Suc i) shs) (drop (Suc i) kvs)"
    using assms by (subst id_take_nth_drop [of i "zip shs kvs"]) (simp_all add: take_zip drop_zip)
  then show ?thesis by (simp add: entries_bytes_def)
qed

lemma off_0 [simp]: "off shs kvs 0 = 0"
  by (simp add: off_def entries_bytes_def)

lemma off_Suc:
  assumes "i < length kvs" "length shs = length kvs"
  shows "off shs kvs (Suc i) = off shs kvs i + length (entry_bytes (shs ! i, kvs ! i))"
  using assms by (simp add: off_def entries_bytes_def take_Suc_conv_app_nth)

lemma entry_bytes_pos: "length (entry_bytes e) > 0"
proof (cases e)
  case (fields sh k v)
  then show ?thesis using GetVarint32Ptr_shorter [OF GetVarint32_varint [of "of_nat sh" "[]"]] by simp
qed

lemma off_less:
  assumes "i < j" "j \<le> length kvs" "length shs = length kvs"
  shows "off shs kvs i < off shs kvs j"
  using assms
proof (induction j)
  case (Suc j)
  then have "off shs kvs i \<le> off shs kvs j" by (cases "i = j") auto
  also have "\<dots> < off shs kvs (Suc j)" using Suc.prems off_Suc [of j kvs shs] entry_bytes_pos by simp
  finally show ?case .
qed simp

lemma off_less_iff:
  assumes "i \<le> length kvs" "j \<le> length kvs" "length shs = length kvs"
  shows "off shs kvs i < off shs kvs j \<longleftrightarrow> i < j"
  using assms off_less [of i j kvs shs] off_less [of j i kvs shs] by (cases i j rule: linorder_cases) auto

lemma over_sizes:
  assumes "over kvs shs ris s"
  shows "length shs = length kvs"
    and "length (bi_data s) = off shs kvs (length kvs) + 4 * length ris + 4"
    and "i \<le> length kvs \<Longrightarrow> off shs kvs i < 2 ^ 32"
    and "unat (bi_num_restarts s) = length ris" and "ris \<noteq> []"
    and "unat (bi_restarts s) = off shs kvs (length kvs)"
proof -
  show n: "length shs = length kvs" and "ris \<noteq> []" using assms by (auto simp: over_def laid_out_def)
  have "length (concat (map EncodeFixed32 ws)) = 4 * length ws" for ws by (induction ws) auto
  then show len: "length (bi_data s) = off shs kvs (length kvs) + 4 * length ris + 4"
    using assms off_all [OF n] by (simp add: over_def block_bytes_def)
  then have small: "off shs kvs (length kvs) + 4 * length ris + 4 < 2 ^ 32" using assms by (simp add: over_def)
  then show "unat (bi_num_restarts s) = length ris" "unat (bi_restarts s) = off shs kvs (length kvs)"
    using assms by (simp_all add: over_def unat_of_nat_small)
  show "off shs kvs i < 2 ^ 32" if "i \<le> length kvs"
    using that small off_less [of i "length kvs" kvs shs] n by (cases "i = length kvs") auto
qed

lemma entry_in_block:
  assumes "over kvs shs ris s" "i < length kvs"
  shows "take (off shs kvs (length kvs) - off shs kvs i) (drop (off shs kvs i) (bi_data s)) =
    entry_bytes (shs ! i, kvs ! i) @ entries_bytes (drop (Suc i) shs) (drop (Suc i) kvs)"
proof -
  have n: "length shs = length kvs" by (rule over_sizes [OF assms(1)])
  show ?thesis
    using assms off_all [OF n] entries_split [OF assms(2) n] by (simp add: over_def block_bytes_def off_def)
qed

lemma GetRestartPoint_over:
  assumes "over kvs shs ris s" "unat index < length ris"
  shows "GetRestartPoint s index = Some (of_nat (off shs kvs (ris ! unat index)))"
proof -
  have n: "length shs = length kvs" by (rule over_sizes [OF assms(1)])
  have "drop (off shs kvs (length kvs)) (bi_data s) =
      concat (map EncodeFixed32 (restart_words kvs shs ris)) @ EncodeFixed32 (of_nat (length ris))"
    using assms off_all [OF n] by (simp add: over_def block_bytes_def)
  moreover obtain rest where "drop (4 * unat index)
      (concat (map EncodeFixed32 (restart_words kvs shs ris)) @ EncodeFixed32 (of_nat (length ris))) =
      EncodeFixed32 (restart_words kvs shs ris ! unat index) @ rest"
    using concat_fixed_nth [of "unat index" "restart_words kvs shs ris"] assms(2) by fastforce
  ultimately have "drop (off shs kvs (length kvs) + 4 * unat index) (bi_data s) =
      EncodeFixed32 (restart_words kvs shs ris ! unat index) @ rest"
    by (metis add.commute drop_drop)
  then show ?thesis
    using over_sizes [OF assms(1)] assms(2) by (simp add: GetRestartPoint_def mult.commute)
qed

lemma key_length:
  assumes "over kvs shs ris s" "i < length kvs"
  shows "length (fst (kvs ! i)) \<le> off shs kvs (Suc i)"
  using assms(2)
proof (induction i)
  case (Suc i)
  have "shs ! Suc i \<le> length (fst (kvs ! i))"
    using assms(1) Suc.prems by (auto simp: over_def laid_out_def shares_def prev_key_def dest: spec [of _ "Suc i"])
  then show ?case
    using Suc off_Suc [OF Suc.prems over_sizes(1) [OF assms(1)]] by (cases "kvs ! Suc i") auto
next
  case 0
  have "shs ! 0 = 0"
    using assms(1) 0 by (auto simp: over_def laid_out_def shares_def prev_key_def)
  then show ?case
    using off_Suc [OF 0 over_sizes(1) [OF assms(1)]] by (cases "kvs ! 0") auto
qed

lemma take_drop_end:
  assumes "take (e - p) (drop p d) = as @ bs @ cs" "p \<le> e" "e \<le> length d"
  shows "take (length bs) (drop (e - length (bs @ cs)) d) = bs"
proof -
  have len: "e = p + length as + length bs + length cs"
    using arg_cong [OF assms(1), of length] assms(2,3) by simp
  have "take (length bs) (drop (length as) (take (e - p) (drop p d))) = bs" by (simp add: assms(1))
  moreover have "take (length bs) (drop (length as) (take (e - p) (drop p d))) = take (length bs) (drop (p + length as) d)"
    using len by (simp add: drop_take add.commute)
  moreover have "e - length (bs @ cs) = p + length as" using len by simp
  ultimately show ?thesis by simp
qed

section \<open>The operations\<close>

lemma advance_restart_over:
  assumes "over kvs shs ris s" "index < bi_num_restarts s"
  shows "\<exists>j. advance_restart s index = Some j \<and> j < bi_num_restarts s"
  using assms
proof (induction s index rule: advance_restart.induct)
  case (1 s index)
  show ?case
  proof (cases "index + 1 < bi_num_restarts s")
    case True
    then have "unat (index + 1) < length ris" using over_sizes [OF 1(2)] by (simp add: word_less_nat_alt)
    then obtain r where "GetRestartPoint s (index + 1) = Some r" using GetRestartPoint_over [OF 1(2)] by blast
    then show ?thesis using 1 True by (auto simp: advance_restart.simps [of s index])
  next
    case False
    then show ?thesis using 1(3) by (simp add: advance_restart.simps [of s index])
  qed
qed

lemma over_update [simp]:
  "over kvs shs ris (s\<lparr>bi_current := a\<rparr>) = over kvs shs ris s"
  "over kvs shs ris (s\<lparr>bi_restart_index := b\<rparr>) = over kvs shs ris s"
  "over kvs shs ris (s\<lparr>bi_key := k\<rparr>) = over kvs shs ris s"
  "over kvs shs ris (s\<lparr>bi_value := v\<rparr>) = over kvs shs ris s"
  by (simp_all add: over_def)

lemma entry_decoded:
  assumes o: "over kvs shs ris s" and i: "i < length kvs" and kv: "kvs ! i = (k, v)"
  obtains p where "DecodeEntry (bi_data s) (off shs kvs i) (off shs kvs (length kvs)) =
      Some (p, of_nat (shs ! i), of_nat (length k - shs ! i), of_nat (length v))"
    "take (length k - shs ! i) (drop p (bi_data s)) = drop (shs ! i) k"
    "take (length v) (drop (p + (length k - shs ! i)) (bi_data s)) = v"
    "p + (length k - shs ! i) + length v = off shs kvs (Suc i)" "off shs kvs (Suc i) \<le> length (bi_data s)"
    "length k < 2 ^ 32" "length v < 2 ^ 32" "shs ! i \<le> length k"
proof -
  note sizes = over_sizes [OF o]
  let ?sh = "shs ! i" and ?fin = "off shs kvs (length kvs)"
  define hdr where "hdr = EncodeVarint32 (of_nat ?sh) @ EncodeVarint32 (of_nat (length k - ?sh)) @ EncodeVarint32 (of_nat (length v))"
  define rest where "rest = entries_bytes (drop (Suc i) shs) (drop (Suc i) kvs)"
  define p where "p = ?fin - length (drop ?sh k @ v @ rest)"
  have sh: "?sh \<le> length k" using o i kv by (auto simp: over_def laid_out_def shares_def dest!: spec [of _ i])
  have lt: "off shs kvs i < ?fin" using off_less [OF i _ sizes(1)] by simp
  have bytes: "take (?fin - off shs kvs i) (drop (off shs kvs i) (bi_data s)) = entry_bytes (?sh, k, v) @ rest"
    using entry_in_block [OF o i] kv by (simp add: rest_def)
  then have all: "take (?fin - off shs kvs i) (drop (off shs kvs i) (bi_data s)) = hdr @ drop ?sh k @ v @ rest"
    by (simp add: hdr_def del: of_nat_diff)
  have de: "DecodeEntry (bi_data s) (off shs kvs i) ?fin =
      Some (p, of_nat ?sh, of_nat (length k - ?sh), of_nat (length v))"
    unfolding p_def using sh lt sizes(2,3) by (intro DecodeEntry_entry [OF bytes]) auto
  have delta: "take (length k - ?sh) (drop p (bi_data s)) = drop ?sh k"
    using take_drop_end [OF all] lt sizes(2) by (simp add: p_def)
  have ends: "p + (length k - ?sh) = ?fin - length (v @ rest)" "?fin - length rest = off shs kvs (Suc i)"
      "length rest + length v + (length k - ?sh) \<le> ?fin"
    using arg_cong [OF bytes, of length] lt sizes(2) off_Suc [OF i sizes(1)] kv by (auto simp: p_def)
  have v: "take (length v) (drop (p + (length k - ?sh)) (bi_data s)) = v"
    unfolding ends by (rule take_drop_end [where as = "hdr @ drop ?sh k"]) (use all less_imp_le [OF lt] sizes(2) in simp_all)
  have small: "length k < 2 ^ 32" "length v < 2 ^ 32"
    using key_length [OF o i] sizes(3) [of "Suc i"] sizes(3) [of "length kvs"] i kv ends(3) by auto
  show thesis by (rule that [OF de delta v _ _ small sh]) (use ends sizes(2) in auto)
qed

lemma ParseNextKey_before:
  assumes b: "before kvs shs ris i s"
  shows "\<exists>s'. ParseNextKey s = Some (i < length kvs, s') \<and> at_entry kvs shs ris i s'"
proof -
  have o: "over kvs shs ris s" and i: "i \<le> length kvs" using b by (auto simp: before_def)
  note sizes = over_sizes [OF o]
  have next_off: "NextEntryOffset s = Some (of_nat (off shs kvs i))"
    using b by (auto simp: before_def NextEntryOffset_def simp flip: of_nat_add)
  have cur: "unat (of_nat (off shs kvs i) :: u32) = off shs kvs i"
    using sizes(3) [OF i] by (simp add: unat_of_nat_small)
  show ?thesis
  proof (cases "i < length kvs")
    case False
    then have "i = length kvs" using i by simp
    then show ?thesis
      using o by (auto simp: ParseNextKey_def next_off at_entry_def over_def)
  next
    case True
    obtain k v where kv: "kvs ! i = (k, v)" by (cases "kvs ! i")
    let ?sh = "shs ! i"
    obtain p where d: "DecodeEntry (bi_data s) (off shs kvs i) (off shs kvs (length kvs)) =
        Some (p, of_nat ?sh, of_nat (length k - ?sh), of_nat (length v))"
      "take (length k - ?sh) (drop p (bi_data s)) = drop ?sh k"
      "take (length v) (drop (p + (length k - ?sh)) (bi_data s)) = v"
      "p + (length k - ?sh) + length v = off shs kvs (Suc i)" "off shs kvs (Suc i) \<le> length (bi_data s)"
      "length k < 2 ^ 32" "length v < 2 ^ 32" "?sh \<le> length k"
      by (rule entry_decoded [OF o True kv])
    define s1 where "s1 = s\<lparr>bi_current := of_nat (off shs kvs i), bi_key := k, bi_value := Some (p + (length k - ?sh), length v)\<rparr>"
    have o1: "over kvs shs ris s1" using o by (simp add: s1_def)
    moreover have "bi_restart_index s1 < bi_num_restarts s1" using b by (simp add: s1_def before_def)
    ultimately obtain j where j: "advance_restart s1 (bi_restart_index s) = Some j" "j < bi_num_restarts s1"
      using advance_restart_over [of kvs shs ris s1] by (auto simp: s1_def)
    have "of_nat (off shs kvs i) < bi_restarts s"
      using off_less [OF True _ sizes(1)] cur sizes(6) by (simp add: word_less_nat_alt)
    moreover have "p + (length k - ?sh) \<le> length (bi_data s)" "?sh \<le> length (bi_key s)" "?sh < 2 ^ 32"
        "take ?sh (bi_key s) @ drop ?sh k = k"
      using d(4-) b True kv by (auto simp: before_def shares_def)
    ultimately have parse: "ParseNextKey s = Some (True, s1\<lparr>bi_restart_index := j\<rparr>)"
      using j(1) d(1,2,6,7) cur sizes(6)
      by (simp add: ParseNextKey_def next_off s1_def Let_def unat_of_nat_small not_le [symmetric] del: of_nat_diff)
    have "shares (shs ! Suc i) (fst (kvs ! Suc i)) k" if "Suc i < length kvs"
      using o that kv by (auto simp: over_def laid_out_def prev_key_def dest!: spec [of _ "Suc i"])
    then have "at_entry kvs shs ris i (s1\<lparr>bi_restart_index := j\<rparr>)"
      using True o1 j(2) kv d(3-5) by (auto simp: at_entry_def before_def s1_def bi_value_bytes_def)
    then show ?thesis using parse True by simp
  qed
qed

lemma SeekToRestartPoint_over:
  assumes o: "over kvs shs ris s" and j: "unat index < length ris"
  shows "\<exists>s'. SeekToRestartPoint index s = Some s' \<and> before kvs shs ris (ris ! unat index) s'"
proof -
  note sizes = over_sizes [OF o]
  let ?r = "ris ! unat index"
  have r: "?r < max 1 (length kvs)" "?r < length kvs \<Longrightarrow> shs ! ?r = 0"
    using o j by (auto simp: over_def laid_out_def)
  then have le: "?r \<le> length kvs" by auto
  have "index < bi_num_restarts s" using j sizes(4) by (simp add: word_less_nat_alt)
  then have "before kvs shs ris ?r (s\<lparr>bi_key := [], bi_restart_index := index, bi_value := Some (off shs kvs ?r, 0)\<rparr>)"
    using o r(2) le by (auto simp: before_def shares_def)
  then show ?thesis
    using GetRestartPoint_over [OF o j] sizes(3) [OF le] by (simp add: SeekToRestartPoint_def unat_of_nat_small)
qed

lemma at_entry_over: "at_entry kvs shs ris i s \<Longrightarrow> over kvs shs ris s"
  by (auto simp: at_entry_def before_def split: if_splits)

lemma parse_until_before:
  assumes "before kvs shs ris i s" "i < m" "m \<le> length kvs"
  shows "\<exists>s'. parse_until (of_nat (off shs kvs m)) s = Some s' \<and> at_entry kvs shs ris (m - 1) s'"
  using assms
proof (induction "m - i" arbitrary: i s)
  case (Suc x)
  have i: "i < length kvs" using Suc.prems by simp
  obtain s' where s': "ParseNextKey s = Some (True, s')" "at_entry kvs shs ris i s'"
    using ParseNextKey_before [OF Suc.prems(1)] i by auto
  then have b: "before kvs shs ris (Suc i) s'" using i by (simp add: at_entry_def)
  then have o: "over kvs shs ris s'" by (simp add: before_def)
  have "NextEntryOffset s' = Some (of_nat (off shs kvs (Suc i)))"
    using b by (auto simp: before_def NextEntryOffset_def simp flip: of_nat_add)
  moreover have "of_nat (off shs kvs (Suc i)) < (of_nat (off shs kvs m) :: u32) \<longleftrightarrow> Suc i < m"
    using Suc.prems(2,3) over_sizes(3) [OF o, of "Suc i"] over_sizes(3) [OF o, of m]
      off_less_iff [of "Suc i" kvs m shs] over_sizes(1) [OF o]
    by (simp add: word_less_nat_alt unat_of_nat_small)
  ultimately have step: "parse_until (of_nat (off shs kvs m)) s =
      (if Suc i < m then parse_until (of_nat (off shs kvs m)) s' else Some s')"
    using s'(1) by (simp add: parse_until.simps [of _ s])
  show ?case
  proof (cases "Suc i < m")
    case True
    then show ?thesis using Suc.hyps(1) [OF _ b] Suc.hyps(2) Suc.prems(3) step by simp
  next
    case False
    then have "m = Suc i" using Suc.prems(2) by simp
    then show ?thesis using step s'(2) by simp
  qed
qed simp

lemma restart_le: "over kvs shs ris s \<Longrightarrow> j < length ris \<Longrightarrow> ris ! j \<le> length kvs"
  unfolding over_def laid_out_def by (metis less_max_iff_disj less_one linorder_not_less nth_mem less_imp_le_nat le0)

lemma restart_less: "over kvs shs ris s \<Longrightarrow> kvs \<noteq> [] \<Longrightarrow> j < length ris \<Longrightarrow> ris ! j < length kvs"
  unfolding over_def laid_out_def by (cases kvs) (auto dest!: bspec [OF _ nth_mem])

lemma restart_0: "over kvs shs ris s \<Longrightarrow> ris ! 0 = 0"
  by (auto simp: over_def laid_out_def hd_conv_nth)

lemma off_word_less:
  assumes "over kvs shs ris s" "i \<le> length kvs" "j \<le> length kvs"
  shows "(of_nat (off shs kvs i) :: u32) < of_nat (off shs kvs j) \<longleftrightarrow> i < j"
  using assms over_sizes(1,3) [OF assms(1)] off_less_iff [OF assms(2,3)] by (simp add: word_less_nat_alt unat_of_nat_small)

lemma prev_restart_over:
  assumes "over kvs shs ris s" "i \<le> length kvs" "unat index < length ris"
  shows "if i = 0 then prev_restart s (of_nat (off shs kvs i)) index = Some None
    else \<exists>j. prev_restart s (of_nat (off shs kvs i)) index = Some (Some j) \<and> unat j < length ris \<and> ris ! unat j < i"
  using assms(3)
proof (induction "unat index" arbitrary: index)
  case 0
  then have "index = 0" by (simp add: unat_eq_0)
  then show ?case
    using GetRestartPoint_over [OF assms(1), of 0] 0 restart_0 [OF assms(1)] off_word_less [OF assms(1) _ assms(2), of 0]
    by (auto simp: prev_restart.simps [of s _ 0] not_less)
next
  case (Suc x)
  have "index \<noteq> 0" using Suc.hyps(2) by auto
  then have prev: "index \<noteq> 0" "unat (index - 1) = x" using Suc.hyps(2) by (auto simp: unat_minus_one)
  have r: "ris ! unat index \<le> length kvs" using restart_le [OF assms(1)] Suc.prems by blast
  have "prev_restart s (of_nat (off shs kvs i)) index =
      (if ris ! unat index < i then Some (Some index) else prev_restart s (of_nat (off shs kvs i)) (index - 1))"
    using GetRestartPoint_over [OF assms(1) Suc.prems] off_word_less [OF assms(1) r assms(2)] prev(1)
    by (auto simp: prev_restart.simps [of s _ index] not_less [symmetric])
  then show ?case using Suc.hyps(1) [of "index - 1"] prev Suc.prems Suc.hyps(2) by auto
qed

text \<open>A restart point from which a linear search for \<open>target\<close> may start.\<close>

definition starts :: "comparator_t \<Rightarrow> slice \<Rightarrow> entries \<Rightarrow> nat list \<Rightarrow> nat \<Rightarrow> bool" where
  "starts c target kvs ris j \<longleftrightarrow> j < length ris \<and> (j = 0 \<or> Compare c (fst (kvs ! (ris ! j))) target < 0)"

lemma mid_key_over:
  assumes o: "over kvs shs ris s" and m: "0 < unat mid" "unat mid < length ris"
  obtains p v where "DecodeEntry (bi_data s) (off shs kvs (ris ! unat mid)) (off shs kvs (length kvs)) =
      Some (p, 0, of_nat (length (fst (kvs ! (ris ! unat mid)))), v)"
    "unat (of_nat (length (fst (kvs ! (ris ! unat mid)))) :: u32) = length (fst (kvs ! (ris ! unat mid)))"
    "take (length (fst (kvs ! (ris ! unat mid)))) (drop p (bi_data s)) = fst (kvs ! (ris ! unat mid))"
    "p + length (fst (kvs ! (ris ! unat mid))) \<le> length (bi_data s)" "ris ! unat mid < length kvs"
proof -
  let ?r = "ris ! unat mid"
  have "?r \<in> set ris" "?r > ris ! 0"
    using o m sorted_wrt_nth_less [of "(<)" ris 0 "unat mid"] by (auto simp: over_def laid_out_def)
  then have r: "?r < length kvs" "shs ! ?r = 0" using o by (fastforce simp: over_def laid_out_def)+
  obtain k v where kv: "kvs ! ?r = (k, v)" by (cases "kvs ! ?r")
  obtain p where d: "DecodeEntry (bi_data s) (off shs kvs ?r) (off shs kvs (length kvs)) =
      Some (p, of_nat (shs ! ?r), of_nat (length k - shs ! ?r), of_nat (length v))"
    "take (length k - shs ! ?r) (drop p (bi_data s)) = drop (shs ! ?r) k"
    "p + (length k - shs ! ?r) + length v = off shs kvs (Suc ?r)" "off shs kvs (Suc ?r) \<le> length (bi_data s)"
    "length k < 2 ^ 32"
    by (rule entry_decoded [OF o r(1) kv])
  show thesis
    by (rule that [of p "of_nat (length v)"]) (use d r kv in \<open>simp_all add: unat_of_nat_small\<close>)
qed

lemma seek_restart_over:
  assumes o: "over kvs shs ris s"
  shows "left \<le> right \<Longrightarrow> unat right < length ris \<Longrightarrow> starts c target kvs ris (unat left) \<Longrightarrow>
    \<exists>j. seek_restart c target s left right = Some (Some j) \<and> starts c target kvs ris (unat j)"
proof (induction "unat right - unat left" arbitrary: left right rule: less_induct)
  case less
  note sizes = over_sizes [OF o]
  show ?case
  proof (cases "left < right")
    case False
    then show ?thesis using less.prems by (simp add: seek_restart.simps)
  next
    case True
    define mid where "mid = (left + right + 1) div 2"
    have lr: "unat left < unat right" using True by (simp add: word_less_nat_alt)
    have "length ris < 2 ^ 30" using sizes(2) o by (simp add: over_def)
    then have "unat (left + right + 1) = unat left + unat right + 1"
      using less.prems(2) lr by (simp add: unat_word_ariths)
    then have mid: "unat mid = (unat left + unat right + 1) div 2" by (simp add: mid_def unat_div)
    then have m: "unat left < unat mid" "unat mid \<le> unat right" using lr by auto
    then have m1: "unat (mid - 1) = unat mid - 1" by (intro unat_minus_one) auto
    obtain p v where d: "DecodeEntry (bi_data s) (off shs kvs (ris ! unat mid)) (off shs kvs (length kvs)) =
        Some (p, 0, of_nat (length (fst (kvs ! (ris ! unat mid)))), v)"
      "unat (of_nat (length (fst (kvs ! (ris ! unat mid)))) :: u32) = length (fst (kvs ! (ris ! unat mid)))"
      "take (length (fst (kvs ! (ris ! unat mid)))) (drop p (bi_data s)) = fst (kvs ! (ris ! unat mid))"
      "p + length (fst (kvs ! (ris ! unat mid))) \<le> length (bi_data s)" "ris ! unat mid < length kvs"
      by (rule mid_key_over [OF o, of mid]) (use m less.prems in auto)
    have get: "GetRestartPoint s mid = Some (of_nat (off shs kvs (ris ! unat mid)))"
      by (rule GetRestartPoint_over [OF o]) (use m less.prems in auto)
    have step: "seek_restart c target s left right =
        (if Compare c (fst (kvs ! (ris ! unat mid))) target < 0 then seek_restart c target s mid right
         else seek_restart c target s left (mid - 1))"
      using True get d sizes(3) [of "ris ! unat mid"] sizes(6)
      by (simp add: seek_restart.simps [of _ _ _ left] unat_of_nat_small Let_def flip: mid_def)
    show ?thesis
    proof (cases "Compare c (fst (kvs ! (ris ! unat mid))) target < 0")
      case True
      then show ?thesis
        using less.hyps [of right mid] m less.prems step by (auto simp: starts_def word_le_nat_alt)
    next
      case False
      then show ?thesis
        using less.hyps [of "mid - 1" left] m m1 less.prems step by (auto simp: word_le_nat_alt)
    qed
  qed
qed

section \<open>The contract of iterators\<close>

lemma seek_linear_before:
  assumes "before kvs shs ris i s" "\<forall>j < i. Compare c (fst (kvs ! j)) target < 0"
  shows "\<exists>s'. seek_linear c target s = Some s' \<and> at_entry kvs shs ris (seek_pos (Compare c) target kvs) s'"
  using assms
proof (induction "length kvs - i" arbitrary: i s rule: less_induct)
  case less
  have i: "i \<le> length kvs" using less.prems(1) by (simp add: before_def)
  obtain s' where s': "ParseNextKey s = Some (i < length kvs, s')" "at_entry kvs shs ris i s'"
    using ParseNextKey_before [OF less.prems(1)] by blast
  show ?case
  proof (cases "i < length kvs \<and> Compare c (fst (kvs ! i)) target < 0")
    case True
    then have "seek_linear c target s = seek_linear c target s'" "before kvs shs ris (Suc i) s'"
      using s' by (simp_all add: seek_linear.simps [of _ _ s] at_entry_def)
    moreover have "\<forall>j < Suc i. Compare c (fst (kvs ! j)) target < 0"
      using True less.prems(2) by (simp add: less_Suc_eq)
    ultimately show ?thesis using less.hyps [of "Suc i" s'] True by auto
  next
    case False
    then have "seek_linear c target s = Some s'"
      using s' by (auto simp: seek_linear.simps [of _ _ s] at_entry_def split: if_splits)
    moreover have "seek_pos (Compare c) target kvs = i" using less.prems(2) i False by (intro seek_posI) auto
    ultimately show ?thesis using s'(2) by simp
  qed
qed

lemma starts_less:
  assumes "comparator c valid" "sorted_entries c valid kvs" "over kvs shs ris s" "valid target"
    and "starts c target kvs ris j" "i < ris ! j"
  shows "Compare c (fst (kvs ! i)) target < 0"
proof -
  have j: "j < length ris" "j \<noteq> 0" using assms(3,5,6) restart_0 [OF assms(3)] by (auto simp: starts_def intro: gr0I)
  have r: "ris ! j < length kvs" using restart_less [OF assms(3) _ j(1)] restart_le [OF assms(3) j(1)] assms(6) by (cases "kvs = []") auto
  have v: "valid (fst (kvs ! i))" "valid (fst (kvs ! (ris ! j)))"
    using assms(2,6) r by (auto simp: sorted_entries_def list_all_length)
  have "Compare c (fst (kvs ! i)) (fst (kvs ! (ris ! j))) < 0"
    using assms(2,6) r sorted_wrt_nth_less [of "\<lambda>a b. Compare c (fst a) (fst b) < 0" kvs i "ris ! j"] by (simp add: sorted_entries_def)
  then show ?thesis
    using comparator.less_trans2 [OF assms(1) v assms(4)] assms(5) j(2) by (simp add: starts_def)
qed

definition block_at :: "comparator_t \<Rightarrow> (slice \<Rightarrow> bool) \<Rightarrow> entries \<Rightarrow> nat \<Rightarrow> Iter \<Rightarrow> bool" where
  "block_at c valid kvs i s \<longleftrightarrow>
     comparator c valid \<and> sorted_entries c valid kvs \<and> (\<exists>shs ris. at_entry kvs shs ris i s)"

lemma restart_last: "over kvs shs ris s \<Longrightarrow> unat (bi_num_restarts s - 1) = length ris - 1"
  using over_sizes(4,5) [of kvs shs ris s] by (subst unat_minus_one) (auto simp: unat_eq_0 [symmetric])

lemma Seek_over:
  assumes "comparator c valid" "sorted_entries c valid kvs" "over kvs shs ris s" "valid target"
  shows "\<exists>s'. bi_Seek c target s = Some s' \<and> at_entry kvs shs ris (seek_pos (Compare c) target kvs) s'"
proof -
  note o = assms(3)
  have "starts c target kvs ris 0" using over_sizes(5) [OF o] by (simp add: starts_def)
  then obtain j where j: "seek_restart c target s 0 (bi_num_restarts s - 1) = Some (Some j)" "starts c target kvs ris (unat j)"
    using seek_restart_over [OF o, of 0 "bi_num_restarts s - 1" c target] restart_last [OF o] over_sizes(5) [OF o] by auto
  obtain s1 where s1: "SeekToRestartPoint j s = Some s1" "before kvs shs ris (ris ! unat j) s1"
    using SeekToRestartPoint_over [OF o, of j] j(2) by (auto simp: starts_def)
  show ?thesis
    using seek_linear_before [OF s1(2), of c target] starts_less [OF assms j(2)] j(1) s1(1) by (simp add: bi_Seek_def)
qed

lemma Prev_at:
  assumes "at_entry kvs shs ris i s" "i < length kvs"
  shows "\<exists>s'. bi_Prev s = Some s' \<and> at_entry kvs shs ris (prev_pos kvs i) s'"
proof -
  have o: "over kvs shs ris s" and cur: "bi_current s = of_nat (off shs kvs i)"
    and idx: "unat (bi_restart_index s) < length ris"
    using assms over_sizes(4) by (auto simp: at_entry_def before_def word_less_nat_alt)
  show ?thesis
  proof (cases "i = 0")
    case True
    then show ?thesis
      using prev_restart_over [OF o, of i "bi_restart_index s"] o idx cur
      by (simp add: bi_Prev_def at_entry_def prev_pos_def)
  next
    case False
    then obtain j where j: "prev_restart s (of_nat (off shs kvs i)) (bi_restart_index s) = Some (Some j)"
        "unat j < length ris" "ris ! unat j < i"
      using prev_restart_over [OF o, of i "bi_restart_index s"] idx assms(2) by auto
    obtain s1 where s1: "SeekToRestartPoint j s = Some s1" "before kvs shs ris (ris ! unat j) s1"
      using SeekToRestartPoint_over [OF o j(2)] by blast
    show ?thesis
      using parse_until_before [OF s1(2) j(3)] assms(2) j(1) s1(1) cur False by (simp add: bi_Prev_def prev_pos_def)
  qed
qed

lemma SeekToLast_over:
  assumes "over kvs shs ris s"
  shows "\<exists>s'. bi_SeekToLast s = Some s' \<and> at_entry kvs shs ris (length kvs - 1) s'"
proof -
  let ?j = "bi_num_restarts s - 1"
  have j: "unat ?j < length ris" using restart_last [OF assms] over_sizes(5) [OF assms] by simp
  obtain s1 where s1: "SeekToRestartPoint ?j s = Some s1" "before kvs shs ris (ris ! unat ?j) s1"
    using SeekToRestartPoint_over [OF assms j] by blast
  have end1: "bi_restarts s1 = of_nat (off shs kvs (length kvs))" using s1(2) by (simp add: before_def over_def)
  show ?thesis
  proof (cases "kvs = []")
    case True
    then have "ParseNextKey s1 = Some (False, s') \<Longrightarrow> parse_until b s1 = Some s'" for s' b
      by (simp add: parse_until.simps [of _ s1])
    then show ?thesis using ParseNextKey_before [OF s1(2)] s1 True by (auto simp: bi_SeekToLast_def before_def)
  next
    case False
    then have "ris ! unat ?j < length kvs" using restart_less [OF assms _ j] by blast
    then show ?thesis using parse_until_before [OF s1(2)] s1(1) end1 by (simp add: bi_SeekToLast_def)
  qed
qed

lemma block_at_over: "block_at c valid kvs i s \<Longrightarrow> \<exists>shs ris. over kvs shs ris s \<and> at_entry kvs shs ris i s"
  by (auto simp: block_at_def dest: at_entry_over)

lemma block_atI: "block_at c valid kvs i s \<Longrightarrow> at_entry kvs shs ris j s' \<Longrightarrow> block_at c valid kvs j s'"
  by (auto simp: block_at_def)

lemma SeekToFirst_over:
  assumes "over kvs shs ris s"
  shows "\<exists>s'. bi_SeekToFirst s = Some s' \<and> at_entry kvs shs ris 0 s'"
proof -
  obtain s1 where s1: "SeekToRestartPoint 0 s = Some s1" "before kvs shs ris (ris ! 0) s1"
    using SeekToRestartPoint_over [OF assms, of 0] over_sizes(5) [OF assms] by auto
  show ?thesis using ParseNextKey_before [OF s1(2)] restart_0 [OF assms] s1(1) by (auto simp: bi_SeekToFirst_def)
qed

lemma Next_at:
  assumes "at_entry kvs shs ris i s" "i < length kvs"
  shows "\<exists>s'. bi_Next s = Some s' \<and> at_entry kvs shs ris (i + 1) s'"
  using ParseNextKey_before [of kvs shs ris "i + 1" s] assms by (auto simp: at_entry_def bi_Next_def)

lemma at_entry_shows:
  assumes "at_entry kvs shs ris i s"
  shows "shows_entry (BlockIter c) kvs i s"
proof -
  have o: "over kvs shs ris s" using assms by (rule at_entry_over)
  then have "of_nat (off shs kvs i) < bi_restarts s" if "i < length kvs"
    using off_word_less [OF o, of i "length kvs"] that by (simp add: over_def)
  then show ?thesis
    using assms o by (auto simp: shows_entry_def BlockIter_def at_entry_def bi_Valid_def over_def)
qed

interpretation block_iterator: iterator_contract "BlockIter c" "Compare c" valid "block_at c valid" for c valid
proof (unfold_locales, goal_cases)
  case (1 kvs i s)
  then show ?case by (auto simp: block_at_def at_entry_def split: if_splits)
next
  case (2 kvs i s)
  then show ?case by (auto simp: block_at_def intro: at_entry_shows)
next
  case (3 kvs i s)
  then show ?case using block_at_over [OF 3] SeekToFirst_over block_atI by (fastforce simp: BlockIter_def)
next
  case (4 kvs i s)
  then show ?case using block_at_over [OF 4] SeekToLast_over block_atI by (fastforce simp: BlockIter_def)
next
  case (5 kvs i s target)
  then show ?case using block_at_over [OF 5(1)] Seek_over block_atI by (fastforce simp: BlockIter_def block_at_def)
next
  case (6 kvs i s)
  then show ?case using Next_at block_atI [OF 6(1)] by (fastforce simp: BlockIter_def block_at_def)
next
  case (7 kvs i s)
  then show ?case using Prev_at block_atI [OF 7(1)] by (fastforce simp: BlockIter_def block_at_def)
qed

lemma ucast_of_nat_u32: "(ucast (of_nat x :: size_t) :: u32) = of_nat x"
  unfolding word_unat_eq_iff unat_ucast_down by (simp add: unsigned_of_nat take_bit_eq_mod mod_mod_cancel)

lemma NewIterator_laid_out:
  assumes "laid_out kvs shs ris" "length (block_bytes kvs shs ris) < 2 ^ 32"
  shows "\<exists>s. Block_NewIterator (make_Block (block_bytes kvs shs ris)) = Inr s \<and> at_entry kvs shs ris (length kvs) s"
proof -
  let ?d = "block_bytes kvs shs ris" and ?num = "of_nat (length ris) :: u32"
  define s where "s = make_Iter ?d (of_nat (off shs kvs (length kvs))) ?num"
  have o: "over kvs shs ris s" using assms by (simp add: s_def over_def make_Iter_def)
  have n: "length ?d = off shs kvs (length kvs) + 4 * length ris + 4" using over_sizes(2) [OF o] by (simp add: s_def make_Iter_def)
  have num: "unat ?num = length ris" "?num \<noteq> 0" using over_sizes(4,5) [OF o] by (auto simp: s_def make_Iter_def unat_eq_0 [symmetric])
  have size: "unat (of_nat (length ?d) :: size_t) = length ?d" using assms(2) by (simp add: unat_of_nat_small)
  have tail: "drop (length ?d - 4) ?d = EncodeFixed32 ?num" by (simp add: block_bytes_def)
  have small: "(4 :: size_t) \<le> of_nat (length ?d)" using size n by (simp add: word_le_nat_alt)
  then have nr: "NumRestarts \<lparr>bl_data = ?d, bl_size = of_nat (length ?d), bl_restart_offset = r\<rparr> = ?num" for r
    using size tail DecodeFixed_Encode(1) [of ?num "[]"] by (simp add: NumRestarts_def unat_sub)
  have "unat ((of_nat (length ?d) - 4) div 4 :: size_t) = (length ?d - 4) div 4"
    using small size by (simp add: unat_div unat_sub)
  then have le: "\<not> (of_nat (length ?d) - 4) div 4 < (ucast ?num :: size_t)" using num n by (simp add: word_less_nat_alt)
  have "unat w + 1 < 2 ^ 32 \<Longrightarrow> unat (1 + w) = 1 + unat w" for w :: u32 by (simp add: unat_word_ariths)
  from this [of ?num] have "unat (1 + ?num) = 1 + length ris" using n assms(2) unfolding num(1) by linarith
  then have "(ucast (1 + ?num) :: size_t) = of_nat (1 + length ris)"
    using n assms(2) unfolding word_unat_eq_iff by (simp add: unat_of_nat_small del: of_nat_add of_nat_Suc)
  then have "(ucast (of_nat (length ?d) - (ucast (1 + ?num) :: size_t) * 4) :: u32) = of_nat (off shs kvs (length kvs))"
    using n ucast_of_nat_u32 by simp
  then have "Block_NewIterator (make_Block ?d) = Inr s"
    using small nr le num by (simp add: Block_NewIterator_def make_Block_def s_def Let_def)
  then show ?thesis using o by (simp add: at_entry_def s_def make_Iter_def)
qed

section \<open>Properties\<close>

text \<open>
  (C10) A block built from entries in increasing order of the comparator, in any restart
  interval, gives an iterator that behaves like a cursor in the list of the entries: after
  any sequence of operations in which \<open>Next\<close> and \<open>Prev\<close> are called on a valid iterator only, the
  iterator has returned from every call, is valid exactly if the cursor is within the list,
  and then shows the key and the value of that entry; \<open>Seek\<close> ends at the first key that is
  not below the target.
\<close>

theorem block_iterator_cursor:
  assumes "comparator c valid" "sorted_entries c valid kvs" "1 \<le> interval"
    and "length (fst (BlockBuilder_Finish (build_block interval kvs))) < 2 ^ 32"
    and "\<forall>target. To target \<in> set ops \<longrightarrow> valid target"
    and "runs (cursor_op (Compare c) kvs) ops (length kvs) = Some i"
  shows "\<exists>start s.
    Block_NewIterator (make_Block (fst (BlockBuilder_Finish (build_block interval kvs)))) = Inr start \<and>
    runs (iter_do (BlockIter c)) ops start = Some s \<and> shows_entry (BlockIter c) kvs i s"
proof -
  obtain shs ris where l: "laid_out kvs shs ris"
      "fst (BlockBuilder_Finish (build_block interval kvs)) = block_bytes kvs shs ris"
    using Finish_bytes [OF built_build_block [OF assms(3)]] .
  then obtain start where start: "Block_NewIterator (make_Block (block_bytes kvs shs ris)) = Inr start"
      "at_entry kvs shs ris (length kvs) start"
    using NewIterator_laid_out [OF l(1)] assms(4) by auto
  then have "block_at c valid kvs (length kvs) start" using assms by (auto simp: block_at_def)
  then show ?thesis
    using block_iterator.runs_simulates [OF _ assms(6,5)] block_iterator.at_shows start(1) l(2) by metis
qed

lemma example_block_length:
  "length (fst (BlockBuilder_Finish
      (build_block 2 [([97, 98], [1]), ([97, 99], [2]), ([97, 99, 0], []), ([98], [3])]))) = 34"
  by code_simp

theorem block_iterator_cursor_witness:
  "\<exists>start s.
    Block_NewIterator (make_Block (fst (BlockBuilder_Finish
      (build_block 2 [([97, 98], [1]), ([97, 99], [2]), ([97, 99, 0], []), ([98], [3])])))) = Inr start \<and>
    runs (iter_do (BlockIter BytewiseComparator)) [To [97, 99, 0], Backward] start = Some s \<and>
    shows_entry (BlockIter BytewiseComparator) [([97, 98], [1]), ([97, 99], [2]), ([97, 99, 0], []), ([98], [3])] 1 s"
proof (rule block_iterator_cursor [where valid = "\<lambda>_. True"], goal_cases)
  case 1
  show ?case by (rule bytewise.comparator_axioms)
next
  case 2
  show ?case by (simp add: sorted_entries_def BytewiseComparator_def)
next
  case 4
  show ?case unfolding example_block_length by simp
next
  case 6
  show ?case by code_simp
qed simp_all

end
