(* ===== verification/Ldb_Block_Safe.thy ===== *)
theory Ldb_Block_Safe
  imports Ldb_Block_Spec
begin

text \<open>
  Iterators over arbitrary block contents, such as those of a damaged file: every operation
  returns and reads only within the block, provided that the lengths in no entry overflow.
\<close>

section \<open>Entries of arbitrary contents\<close>

definition lengths_fit :: "byte list \<Rightarrow> nat \<Rightarrow> bool" where
  "lengths_fit data limit \<longleftrightarrow>
     (\<forall>p q shared non_shared value_length.
        DecodeEntry data p limit = Some (q, shared, non_shared, value_length) \<longrightarrow>
        unat non_shared + unat value_length < 2 ^ 32)"

lemma DecodeEntry_within:
  assumes d: "DecodeEntry data p limit = Some (q, shared, non_shared, value_length)"
    and "limit \<le> length data" "limit < 2 ^ 32" "lengths_fit data limit"
  shows "p + 3 \<le> q \<and> q + unat non_shared + unat value_length \<le> limit"
proof -
  have p: "p + 3 \<le> limit" using d by (auto simp: DecodeEntry_def split: if_splits)
  obtain q1 q2 q3 where q: "GetVarint32Ptr (take (limit - p) (drop p data)) = Some (shared, q1)"
      "GetVarint32Ptr q1 = Some (non_shared, q2)" "GetVarint32Ptr q2 = Some (value_length, q3)"
      "\<not> of_nat (length q3) < non_shared + value_length" "q = limit - length q3"
    using d p assms(2) by (auto simp: DecodeEntry_slow split: option.splits if_splits)
  have "length (take (limit - p) (drop p data)) = limit - p" using p assms(2) by simp
  then have len: "length q3 + 3 \<le> limit - p"
    using GetVarint32Ptr_shorter [OF q(1)] GetVarint32Ptr_shorter [OF q(2)] GetVarint32Ptr_shorter [OF q(3)] by linarith
  have "unat non_shared + unat value_length < 2 ^ 32" using d assms(4) by (auto simp: lengths_fit_def)
  then have "unat non_shared + unat value_length \<le> length q3"
    using q(4) len assms(3) by (simp add: word_less_nat_alt unat_of_nat_small unat_word_ariths)
  then show ?thesis using len p q(5) by linarith
qed

section \<open>States of the iterator\<close>

definition inside :: "Iter \<Rightarrow> bool" where
  "inside s \<longleftrightarrow>
     unat (bi_restarts s) + 4 * unat (bi_num_restarts s) + 4 \<le> length (bi_data s) \<and> length (bi_data s) < 2 ^ 32 \<and>
     bi_num_restarts s \<noteq> 0 \<and> lengths_fit (bi_data s) (unat (bi_restarts s))"

text \<open>\<open>ParseNextKey\<close> may be called at offset \<open>e\<close>; what holds in a state between two calls.\<close>

definition parsable :: "nat \<Rightarrow> Iter \<Rightarrow> bool" where
  "parsable e s \<longleftrightarrow>
     inside s \<and> e < 2 ^ 32 \<and> bi_restart_index s < bi_num_restarts s \<and>
     (\<exists>data size. bi_value s = Some (data, size) \<and> data + size = e)"

definition sane :: "Iter \<Rightarrow> bool" where
  "sane s \<longleftrightarrow> inside s \<and> (bi_Valid s \<longrightarrow> (\<exists>e \<le> unat (bi_restarts s). parsable e s))"

lemma inside_update [simp]:
  "inside (s\<lparr>bi_current := a\<rparr>) = inside s" "inside (s\<lparr>bi_restart_index := b\<rparr>) = inside s"
  "inside (s\<lparr>bi_key := k\<rparr>) = inside s" "inside (s\<lparr>bi_value := v\<rparr>) = inside s" "inside (s\<lparr>bi_status := t\<rparr>) = inside s"
  by (simp_all add: inside_def)

lemma sane_invalid: "inside s \<Longrightarrow> sane (CorruptionError s)"
  "inside s \<Longrightarrow> sane (s\<lparr>bi_current := bi_restarts s, bi_restart_index := i\<rparr>)"
  by (simp_all add: sane_def CorruptionError_def bi_Valid_def)

lemma GetRestartPoint_inside:
  "inside s \<Longrightarrow> index < bi_num_restarts s \<Longrightarrow> \<exists>r. GetRestartPoint s index = Some r"
  by (auto simp: inside_def GetRestartPoint_def word_less_nat_alt)

lemma advance_restart_inside:
  assumes "inside s" "index < bi_num_restarts s"
  shows "\<exists>j. advance_restart s index = Some j \<and> j < bi_num_restarts s"
  using assms
proof (induction s index rule: advance_restart.induct)
  case (1 s index)
  then show ?case
    using GetRestartPoint_inside [of s "index + 1"]
    by (cases "index + 1 < bi_num_restarts s") (auto simp: advance_restart.simps [of s index])
qed

lemma ParseNextKey_inside:
  assumes "parsable e s"
  shows "\<exists>ok s'. ParseNextKey s = Some (ok, s') \<and> sane s' \<and>
    (ok \<longrightarrow> bi_restarts s' = bi_restarts s \<and> (\<exists>e'. e < e' \<and> e' \<le> unat (bi_restarts s') \<and> parsable e' s'))"
proof -
  have i: "inside s" and e: "NextEntryOffset s = Some (of_nat e)" "unat (of_nat e :: u32) = e"
    using assms by (auto simp: parsable_def NextEntryOffset_def unat_of_nat_small simp flip: of_nat_add)
  have lim: "unat (bi_restarts s) \<le> length (bi_data s)" "unat (bi_restarts s) < 2 ^ 32"
      "lengths_fit (bi_data s) (unat (bi_restarts s))"
    using i by (auto simp: inside_def)
  consider (finish) "bi_restarts s \<le> of_nat e"
    | (bad) "\<not> bi_restarts s \<le> of_nat e" "\<And>p sh n v. DecodeEntry (bi_data s) e (unat (bi_restarts s)) = Some (p, sh, n, v) \<Longrightarrow> length (bi_key s) < unat sh"
    | (good) p sh n v where "\<not> bi_restarts s \<le> of_nat e" "DecodeEntry (bi_data s) e (unat (bi_restarts s)) = Some (p, sh, n, v)"
        "\<not> length (bi_key s) < unat sh"
    by blast
  then show ?thesis
  proof cases
    case finish
    then show ?thesis using e i sane_invalid(2) [of "s\<lparr>bi_current := of_nat e\<rparr>"] by (auto simp: ParseNextKey_def Let_def)
  next
    case bad
    then have "ParseNextKey s = Some (False, CorruptionError (s\<lparr>bi_current := of_nat e\<rparr>))"
      using e by (auto simp: ParseNextKey_def Let_def split: option.split)
    then show ?thesis using i sane_invalid(1) by auto
  next
    case good
    have w: "e + 3 \<le> p" "p + unat n + unat v \<le> unat (bi_restarts s)"
      using DecodeEntry_within [OF good(2) lim] by auto
    define s1 where "s1 = s\<lparr>bi_current := of_nat e, bi_key := take (unat sh) (bi_key s) @ take (unat n) (drop p (bi_data s)),
      bi_value := Some (p + unat n, unat v)\<rparr>"
    obtain j where j: "advance_restart s1 (bi_restart_index s) = Some j" "j < bi_num_restarts s1"
      using advance_restart_inside [of s1 "bi_restart_index s"] i assms by (auto simp: s1_def parsable_def)
    have "ParseNextKey s = Some (True, s1\<lparr>bi_restart_index := j\<rparr>)"
      using e good w lim(1) j(1) by (simp add: ParseNextKey_def Let_def s1_def)
    moreover have "parsable (p + unat n + unat v) (s1\<lparr>bi_restart_index := j\<rparr>)"
      using i j(2) w lim(2) by (simp add: parsable_def s1_def)
    moreover from this have "sane (s1\<lparr>bi_restart_index := j\<rparr>)"
      using w by (auto simp: sane_def parsable_def s1_def)
    moreover have "bi_restarts (s1\<lparr>bi_restart_index := j\<rparr>) = bi_restarts s" by (simp add: s1_def)
    moreover have "e < p + unat n + unat v" using w by simp
    ultimately show ?thesis using w(2) by metis
  qed
qed

section \<open>The operations\<close>

lemma NextEntryOffset_parsable: "parsable e s \<Longrightarrow> NextEntryOffset s = Some (of_nat e)"
  by (auto simp: parsable_def NextEntryOffset_def simp flip: of_nat_add)

lemma parse_loops_inside:
  assumes "parsable e s"
  shows "(\<exists>s'. parse_until bound s = Some s' \<and> sane s') \<and> (\<exists>s'. seek_linear c target s = Some s' \<and> sane s')"
  using assms
proof (induction "unat (bi_restarts s) - e" arbitrary: e s rule: less_induct)
  case less
  obtain ok s' where s': "ParseNextKey s = Some (ok, s')" "sane s'" using ParseNextKey_inside [OF less.prems] by blast
  show ?case
  proof (cases ok)
    case False
    then show ?thesis using s' by (simp add: parse_until.simps [of _ s] seek_linear.simps [of _ _ s])
  next
    case True
    then obtain e' where e': "bi_restarts s' = bi_restarts s" "e < e'" "e' \<le> unat (bi_restarts s')" "parsable e' s'"
      using ParseNextKey_inside [OF less.prems] s'(1) by auto
    have "unat (bi_restarts s') - e' < unat (bi_restarts s) - e" using e' by simp
    from less.hyps [OF this e'(4)] show ?thesis
      using s' True NextEntryOffset_parsable [OF e'(4)]
      by (auto simp: parse_until.simps [of _ s] seek_linear.simps [of _ _ s])
  qed
qed

lemma SeekToRestartPoint_inside:
  assumes "inside s" "index < bi_num_restarts s"
  shows "\<exists>e s'. SeekToRestartPoint index s = Some s' \<and> parsable e s'"
proof -
  obtain r where "GetRestartPoint s index = Some r" using GetRestartPoint_inside [OF assms] by blast
  moreover have "parsable (unat r) (s\<lparr>bi_key := [], bi_restart_index := index, bi_value := Some (unat r, 0)\<rparr>)"
    using assms unat_bound [of r] by (simp add: parsable_def)
  ultimately show ?thesis by (auto simp: SeekToRestartPoint_def)
qed

lemma prev_restart_inside:
  assumes "inside s" "index < bi_num_restarts s"
  shows "\<exists>r. prev_restart s original index = Some r \<and> (\<forall>j. r = Some j \<longrightarrow> j < bi_num_restarts s)"
  using assms
proof (induction s original index rule: prev_restart.induct)
  case (1 s original index)
  obtain r where r: "GetRestartPoint s index = Some r" using GetRestartPoint_inside [OF 1(2,3)] by blast
  have "index - 1 < bi_num_restarts s" if "index \<noteq> 0"
    using that 1(3) unat_minus_one [OF that] by (simp add: word_less_nat_alt)
  then show ?case using 1 r by (auto simp: prev_restart.simps [of s original index])
qed

lemma seek_restart_inside:
  assumes i: "inside s"
  shows "left \<le> right \<Longrightarrow> right < bi_num_restarts s \<Longrightarrow>
    \<exists>r. seek_restart c target s left right = Some r \<and> (\<forall>j. r = Some j \<longrightarrow> j < bi_num_restarts s)"
proof (induction "unat right - unat left" arbitrary: left right rule: less_induct)
  case less
  show ?case
  proof (cases "left < right")
    case False
    then show ?thesis using less.prems by (simp add: seek_restart.simps)
  next
    case True
    define mid where "mid = (left + right + 1) div 2"
    have lr: "unat left < unat right" "unat right < unat (bi_num_restarts s)"
      using True less.prems by (simp_all add: word_less_nat_alt)
    then have "unat (left + right + 1) = unat left + unat right + 1"
      using i by (simp add: inside_def unat_word_ariths)
    then have "unat mid = (unat left + unat right + 1) div 2" by (simp add: mid_def unat_div)
    then have m: "unat left < unat mid" "unat mid \<le> unat right" using lr by auto
    then have m1: "unat (mid - 1) = unat mid - 1" by (intro unat_minus_one) auto
    obtain r where get: "GetRestartPoint s mid = Some r"
      using GetRestartPoint_inside [OF i, of mid] m lr by (auto simp: word_less_nat_alt)
    have step: "seek_restart c target s left right =
      (case DecodeEntry (bi_data s) (unat r) (unat (bi_restarts s)) of
         None \<Rightarrow> Some None
       | Some (p, shared, n, v) \<Rightarrow>
           if shared \<noteq> 0 then Some None
           else if Compare c (take (unat n) (drop p (bi_data s))) target < 0 then seek_restart c target s mid right
           else seek_restart c target s left (mid - 1))"
      using DecodeEntry_within [of "bi_data s" "unat r" "unat (bi_restarts s)"] True get i
      by (subst seek_restart.simps) (fastforce simp: Let_def inside_def simp flip: mid_def split: option.splits)
    have "\<exists>r. seek_restart c target s mid right = Some r \<and> (\<forall>j. r = Some j \<longrightarrow> j < bi_num_restarts s)"
        "\<exists>r. seek_restart c target s left (mid - 1) = Some r \<and> (\<forall>j. r = Some j \<longrightarrow> j < bi_num_restarts s)"
      using less.hyps [of right mid] less.hyps [of "mid - 1" left] m m1 lr
      by (auto simp: word_le_nat_alt word_less_nat_alt)
    then show ?thesis by (auto simp: step split: option.splits)
  qed
qed

text \<open>A client tests \<open>Valid\<close> before it calls \<open>Next\<close> or \<open>Prev\<close>.\<close>

definition guarded :: "'s iterator \<Rightarrow> iter_op \<Rightarrow> 's \<Rightarrow> 's option" where
  "guarded it x s = (if (x = Forward \<or> x = Backward) \<and> \<not> it_Valid it s then Some s else iter_do it x s)"

lemma seeks_inside:
  assumes "inside s"
  shows "\<exists>s'. bi_SeekToFirst s = Some s' \<and> sane s'" "\<exists>s'. bi_SeekToLast s = Some s' \<and> sane s'"
    "\<exists>s'. bi_Seek c target s = Some s' \<and> sane s'"
proof -
  have num: "0 < bi_num_restarts s" using assms by (simp add: inside_def word_neq_0_conv)
  then have last: "bi_num_restarts s - 1 < bi_num_restarts s"
    using assms unat_minus_one [of "bi_num_restarts s"] by (auto simp: word_less_nat_alt inside_def)
  show "\<exists>s'. bi_SeekToFirst s = Some s' \<and> sane s'"
    using SeekToRestartPoint_inside [OF assms num] ParseNextKey_inside by (fastforce simp: bi_SeekToFirst_def)
  show "\<exists>s'. bi_SeekToLast s = Some s' \<and> sane s'"
    using SeekToRestartPoint_inside [OF assms last] parse_loops_inside by (fastforce simp: bi_SeekToLast_def)
  obtain r where r: "seek_restart c target s 0 (bi_num_restarts s - 1) = Some r" "\<forall>j. r = Some j \<longrightarrow> j < bi_num_restarts s"
    using seek_restart_inside [OF assms _ last, of 0 c target] by auto
  show "\<exists>s'. bi_Seek c target s = Some s' \<and> sane s'"
  proof (cases r)
    case None
    then show ?thesis using r sane_invalid(1) [OF assms] by (simp add: bi_Seek_def)
  next
    case (Some j)
    then obtain e s1 where "SeekToRestartPoint j s = Some s1" "parsable e s1"
      using SeekToRestartPoint_inside [OF assms, of j] r(2) by blast
    then show ?thesis using r Some parse_loops_inside by (simp add: bi_Seek_def)
  qed
qed

lemma moves_inside:
  assumes "sane s" "bi_Valid s"
  shows "\<exists>s'. bi_Next s = Some s' \<and> sane s'" "\<exists>s'. bi_Prev s = Some s' \<and> sane s'"
proof -
  obtain e where e: "parsable e s" and i: "inside s" using assms by (auto simp: sane_def)
  show "\<exists>s'. bi_Next s = Some s' \<and> sane s'" using ParseNextKey_inside [OF e] by (auto simp: bi_Next_def)
  obtain r where r: "prev_restart s (bi_current s) (bi_restart_index s) = Some r" "\<forall>j. r = Some j \<longrightarrow> j < bi_num_restarts s"
    using prev_restart_inside [OF i, of "bi_restart_index s"] e by (auto simp: parsable_def)
  show "\<exists>s'. bi_Prev s = Some s' \<and> sane s'"
  proof (cases r)
    case None
    then show ?thesis using r sane_invalid(2) [OF i] by (simp add: bi_Prev_def)
  next
    case (Some j)
    then obtain e s1 where "SeekToRestartPoint j s = Some s1" "parsable e s1"
      using SeekToRestartPoint_inside [OF i, of j] r(2) by blast
    then show ?thesis using r Some parse_loops_inside by (simp add: bi_Prev_def)
  qed
qed

lemma guarded_sane:
  assumes "sane s"
  shows "\<exists>s'. guarded (BlockIter c) x s = Some s' \<and> sane s'"
proof -
  have "inside s" using assms by (simp add: sane_def)
  from seeks_inside [OF this] show ?thesis
    using assms moves_inside [OF assms] by (cases x; cases "bi_Valid s") (auto simp: guarded_def BlockIter_def)
qed

lemma runs_sane: "sane s \<Longrightarrow> \<exists>s'. runs (guarded (BlockIter c)) ops s = Some s' \<and> sane s'"
proof (induction ops arbitrary: s)
  case (Cons x ops)
  then show ?case using guarded_sane [OF Cons.prems, of c x] by auto
qed simp

section \<open>Properties\<close>

lemma NewIterator_sane:
  assumes "Block_NewIterator (make_Block contents) = Inr start" "length contents < 2 ^ 32"
    and "lengths_fit contents (unat (bi_restarts start))"
  shows "sane start"
proof -
  define num where "num = DecodeFixed32 (drop (unat (of_nat (length contents) - 4 :: size_t)) contents)"
  have size: "unat (of_nat (length contents) :: size_t) = length contents" using assms(2) by (simp add: unat_of_nat_small)
  have nr: "NumRestarts \<lparr>bl_data = contents, bl_size = of_nat (length contents), bl_restart_offset = r\<rparr> = num" for r
    by (simp add: NumRestarts_def num_def)
  have four: "\<not> (of_nat (length contents) :: size_t) < 4" and le: "\<not> ucast num > ((of_nat (length contents) - 4) div 4 :: size_t)"
    and start: "start = make_Iter contents (ucast (of_nat (length contents) - ucast (1 + num) * 4 :: size_t)) num" and num0: "num \<noteq> 0"
    using assms(1) nr by (auto simp: Block_NewIterator_def make_Block_def Let_def split: if_splits)
  have "unat ((of_nat (length contents) - 4) div 4 :: size_t) = (length contents - 4) div 4"
    using four size by (simp add: unat_div unat_sub word_le_nat_alt word_less_nat_alt not_less)
  then have n: "unat num \<le> (length contents - 4) div 4" using le by (simp add: word_less_nat_alt)
  have len: "4 + 4 * unat num \<le> length contents" using n four size by (simp add: word_less_nat_alt)
  have "unat (1 + num) = 1 + unat num" using len assms(2) by (simp add: unat_word_ariths)
  then have "unat (ucast (1 + num) * 4 :: size_t) = 4 + 4 * unat num" using len assms(2) by (simp add: unat_word_ariths)
  then have "unat (of_nat (length contents) - ucast (1 + num) * 4 :: size_t) = length contents - (4 + 4 * unat num)"
    using len size by (simp add: unat_sub word_le_nat_alt)
  then have "unat (ucast (of_nat (length contents) - ucast (1 + num) * 4 :: size_t) :: u32) = length contents - (4 + 4 * unat num)"
    using assms(2) by (simp add: unat_ucast_down)
  then show ?thesis
    using len num0 assms(2,3) start by (simp add: sane_def inside_def make_Iter_def bi_Valid_def)
qed

text \<open>
  (C11) On arbitrary contents, all operations of the iterator return and read only bytes of
  the block, as long as the lengths of no entry add up to \<open>2 ^ 32\<close> or more; the value that a
  valid iterator returns lies in the block.
\<close>

theorem block_iterator_safe:
  assumes "length contents < 2 ^ 32" "Block_NewIterator (make_Block contents) = Inr start"
    and "lengths_fit contents (unat (bi_restarts start))"
  shows "\<exists>s. runs (guarded (BlockIter c)) ops start = Some s \<and>
    (it_Valid (BlockIter c) s \<longrightarrow> it_value (BlockIter c) s \<noteq> None)"
proof -
  obtain s where s: "runs (guarded (BlockIter c)) ops start = Some s" "sane s"
    using runs_sane [OF NewIterator_sane [OF assms(2,1,3)]] by blast
  moreover have "bi_value_bytes s \<noteq> None" if "bi_Valid s"
    using that s(2) by (auto simp: sane_def parsable_def inside_def bi_value_bytes_def)
  ultimately show ?thesis by (auto simp: BlockIter_def)
qed

lemma example_lengths_fit: "lengths_fit [0, 1, 1, 97, 98, 0, 0, 0, 0, 1, 0, 0, 0] 5"
proof -
  let ?d = "[0, 1, 1, 97, 98, 0, 0, 0, 0, 1, 0, 0, 0] :: byte list"
  have "DecodeEntry ?d 0 5 = Some (3, 0, 1, 1)" "DecodeEntry ?d 1 5 = None" "DecodeEntry ?d 2 5 = None" by code_simp+
  moreover have "DecodeEntry ?d p 5 = None" if "p > 2" for p using that by (simp add: DecodeEntry_def)
  ultimately have "DecodeEntry ?d p 5 \<in> {None, Some (3, 0, 1, 1)}" for p
    by (cases "p > 2") (auto simp: not_less numeral_2_eq_2 le_Suc_eq)
  then have "n = 1 \<and> v = 1" if "DecodeEntry ?d p 5 = Some (q, sh, n, v)" for p q sh n v
    by (metis that empty_iff insert_iff option.distinct(1) option.inject prod.inject)
  then have "unat n + unat v < 2 ^ 32" if "DecodeEntry ?d p 5 = Some (q, sh, n, v)" for p q sh n v
    using that by fastforce
  then show ?thesis unfolding lengths_fit_def by blast
qed

theorem block_iterator_safe_witness:
  "\<exists>s. runs (guarded (BlockIter BytewiseComparator)) [Last, Backward, To [97], Forward]
      (make_Iter [0, 1, 1, 97, 98, 0, 0, 0, 0, 1, 0, 0, 0] 5 1) = Some s \<and>
    (it_Valid (BlockIter BytewiseComparator) s \<longrightarrow> it_value (BlockIter BytewiseComparator) s \<noteq> None)"
proof (rule block_iterator_safe [of "[0, 1, 1, 97, 98, 0, 0, 0, 0, 1, 0, 0, 0]"], goal_cases)
  case 2
  show ?case by code_simp
next
  case 3
  show ?case using example_lengths_fit by (simp add: make_Iter_def)
qed simp

text \<open>
  The condition on the lengths is needed: the sum of the lengths in this block is \<open>2 ^ 32\<close>,
  the check in \<open>DecodeEntry\<close> passes and the key is read from far outside of the block.
\<close>

lemma block_lengths_wrap:
  "Block_NewIterator (make_Block [0, 0xff, 0xff, 0xff, 0xff, 0x0f, 1, 0, 0, 0, 0, 1, 0, 0, 0]) =
     Inr (make_Iter [0, 0xff, 0xff, 0xff, 0xff, 0x0f, 1, 0, 0, 0, 0, 1, 0, 0, 0] 7 1) \<and>
   bi_SeekToFirst (make_Iter [0, 0xff, 0xff, 0xff, 0xff, 0x0f, 1, 0, 0, 0, 0, 1, 0, 0, 0] 7 1) = None"
proof -
  let ?d = "[0, 0xff, 0xff, 0xff, 0xff, 0x0f, 1, 0, 0, 0, 0, 1, 0, 0, 0] :: byte list"
  have "Block_NewIterator (make_Block ?d) = Inr (make_Iter ?d 7 1)" by code_simp
  moreover have "SeekToRestartPoint 0 (make_Iter ?d 7 1) = Some ((make_Iter ?d 7 1)\<lparr>bi_restart_index := 0, bi_value := Some (0, 0)\<rparr>)"
    by code_simp
  moreover have "DecodeEntry ?d 0 7 = Some (7, 0, 0xffffffff, 1)" by code_simp
  ultimately show ?thesis by (simp add: bi_SeekToFirst_def ParseNextKey_def NextEntryOffset_def make_Iter_def)
qed

end
