(* ===== verification/Ldb_Wrapper.thy ===== *)
theory Ldb_Wrapper
  imports Ldb_Iterator
begin

text \<open>
  \<^verbatim>\<open>table/iterator_wrapper.h\<close>: the wrapper that caches validity and key of an iterator, and
  that it keeps the contract of the wrapped iterator.
\<close>

section \<open>Wrappers\<close>

text \<open>An iterator that is used through a pointer carries its operations; \<open>it\<close> below is their table.\<close>

record 's wrapper =
  iw_iter :: "'s option"
  iw_valid :: bool
  iw_key :: slice

definition make_IteratorWrapper :: "'s wrapper" where
  "make_IteratorWrapper = \<lparr>iw_iter = None, iw_valid = False, iw_key = []\<rparr>"

definition iw_Update :: "'s iterator \<Rightarrow> 's wrapper \<Rightarrow> 's wrapper" where
  "iw_Update it w =
     (let valid = it_Valid it (the (iw_iter w)); w = w\<lparr>iw_valid := valid\<rparr>
      in if valid then w\<lparr>iw_key := it_key it (the (iw_iter w))\<rparr> else w)"

definition iw_Set :: "'s iterator \<Rightarrow> 's option \<Rightarrow> 's wrapper \<Rightarrow> 's wrapper" where
  "iw_Set it iter w =
     (let w = w\<lparr>iw_iter := iter\<rparr> in if iter = None then w\<lparr>iw_valid := False\<rparr> else iw_Update it w)"

text \<open>The forwarding operations require an iterator.\<close>

definition iw_call :: "'s iterator \<Rightarrow> ('s \<Rightarrow> 's option) \<Rightarrow> 's wrapper \<Rightarrow> 's wrapper option" where
  "iw_call it f w =
     Option.bind (iw_iter w) (\<lambda>s. map_option (\<lambda>s. iw_Update it (w\<lparr>iw_iter := Some s\<rparr>)) (f s))"

definition iw_Next :: "'s iterator \<Rightarrow> 's wrapper \<Rightarrow> 's wrapper option" where
  "iw_Next it = iw_call it (it_Next it)"

definition iw_Prev :: "'s iterator \<Rightarrow> 's wrapper \<Rightarrow> 's wrapper option" where
  "iw_Prev it = iw_call it (it_Prev it)"

definition iw_Seek :: "'s iterator \<Rightarrow> slice \<Rightarrow> 's wrapper \<Rightarrow> 's wrapper option" where
  "iw_Seek it k = iw_call it (it_Seek it k)"

definition iw_SeekToFirst :: "'s iterator \<Rightarrow> 's wrapper \<Rightarrow> 's wrapper option" where
  "iw_SeekToFirst it = iw_call it (it_SeekToFirst it)"

definition iw_SeekToLast :: "'s iterator \<Rightarrow> 's wrapper \<Rightarrow> 's wrapper option" where
  "iw_SeekToLast it = iw_call it (it_SeekToLast it)"

definition iw_value :: "'s iterator \<Rightarrow> 's wrapper \<Rightarrow> slice option" where
  "iw_value it w = Option.bind (iw_iter w) (it_value it)"

definition iw_status :: "'s iterator \<Rightarrow> 's wrapper \<Rightarrow> Status" where
  "iw_status it w = (case iw_iter w of None \<Rightarrow> OK | Some s \<Rightarrow> it_status it s)"

section \<open>The contract of the wrapped iterator\<close>

definition child_at :: "'s iterator \<Rightarrow> (entries \<Rightarrow> nat \<Rightarrow> 's \<Rightarrow> bool) \<Rightarrow> entries \<Rightarrow> nat \<Rightarrow> 's wrapper \<Rightarrow> bool" where
  "child_at it at ks p w \<longleftrightarrow>
     (\<exists>s. iw_iter w = Some s \<and> at ks p s) \<and> iw_valid w = (p < length ks) \<and> (p < length ks \<longrightarrow> iw_key w = fst (ks ! p))"

lemma child_at_valid: "child_at it at ks p w \<Longrightarrow> iw_valid w \<longleftrightarrow> p < length ks"
  by (simp add: child_at_def)

lemma child_at_key: "child_at it at ks p w \<Longrightarrow> p < length ks \<Longrightarrow> iw_key w = fst (ks ! p)"
  by (simp add: child_at_def)

context iterator_contract begin

lemma child_Update:
  assumes "at ks q s"
  shows "child_at it at ks q (iw_Update it (w\<lparr>iw_iter := Some s\<rparr>))"
  using assms at_shows [OF assms] by (auto simp: child_at_def iw_Update_def shows_entry_def Let_def split: if_splits)

lemma child_call:
  assumes "child_at it at ks p w" "\<And>s. at ks p s \<Longrightarrow> \<exists>s'. f s = Some s' \<and> at ks q s'"
  shows "\<exists>w'. iw_call it f w = Some w' \<and> child_at it at ks q w'"
proof -
  obtain s where "iw_iter w = Some s" "at ks p s" using assms(1) by (auto simp: child_at_def)
  then show ?thesis using assms(2) [of s] child_Update by (auto simp: iw_call_def)
qed

lemma child_bound: "child_at it at ks p w \<Longrightarrow> p \<le> length ks"
  using at_bound by (auto simp: child_at_def)

lemma child_ops:
  assumes w: "child_at it at ks p w"
  shows "\<exists>w'. iw_SeekToFirst it w = Some w' \<and> child_at it at ks 0 w'"
    and "\<exists>w'. iw_SeekToLast it w = Some w' \<and> child_at it at ks (length ks - 1) w'"
    and "valid target \<Longrightarrow> \<exists>w'. iw_Seek it target w = Some w' \<and> child_at it at ks (seek_pos cmp target ks) w'"
    and "p < length ks \<Longrightarrow> \<exists>w'. iw_Next it w = Some w' \<and> child_at it at ks (Suc p) w'"
    and "p < length ks \<Longrightarrow> \<exists>w'. iw_Prev it w = Some w' \<and> child_at it at ks (prev_pos ks p) w'"
proof -
  show "\<exists>w'. iw_SeekToFirst it w = Some w' \<and> child_at it at ks 0 w'"
    unfolding iw_SeekToFirst_def by (intro child_call [OF w] at_first)
  show "\<exists>w'. iw_SeekToLast it w = Some w' \<and> child_at it at ks (length ks - 1) w'"
    unfolding iw_SeekToLast_def by (intro child_call [OF w] at_last)
  show "\<exists>w'. iw_Seek it target w = Some w' \<and> child_at it at ks (seek_pos cmp target ks) w'" if "valid target"
    unfolding iw_Seek_def by (intro child_call [OF w] at_seek [OF _ that])
  show "\<exists>w'. iw_Next it w = Some w' \<and> child_at it at ks (Suc p) w'" if "p < length ks"
    unfolding iw_Next_def by (intro child_call [OF w] at_next [OF _ that, simplified])
  show "\<exists>w'. iw_Prev it w = Some w' \<and> child_at it at ks (prev_pos ks p) w'" if "p < length ks"
    unfolding iw_Prev_def by (intro child_call [OF w] at_prev [OF _ that])
qed

lemma child_Set: "at ks q s \<Longrightarrow> child_at it at ks q (iw_Set it (Some s) w)"
  using child_Update [of ks q s] by (simp add: iw_Set_def)

lemma child_status: "child_at it at ks p w \<Longrightarrow> iw_status it w = OK"
  using at_shows by (auto simp: child_at_def iw_status_def shows_entry_def)

lemma child_value: "child_at it at ks p w \<Longrightarrow> p < length ks \<Longrightarrow> iw_value it w = Some (snd (ks ! p))"
  using at_shows by (fastforce simp: child_at_def iw_value_def shows_entry_def)

end

end
