(* ===== verification/Ldb_Merger.thy ===== *)
theory Ldb_Merger
  imports Ldb_Wrapper
begin

text \<open>
  \<^verbatim>\<open>table/merger.cc\<close>: the iterator that merges the entries of several iterators.
\<close>

section \<open>Merging\<close>

datatype Direction = kForward | kReverse

record 's merger =
  mg_children :: "'s wrapper list"
  mg_current :: "nat option"
  mg_direction :: Direction

definition make_MergingIterator :: "'s iterator \<Rightarrow> 's list \<Rightarrow> 's merger" where
  "make_MergingIterator it children =
     \<lparr>mg_children = map (\<lambda>s. iw_Set it (Some s) make_IteratorWrapper) children, mg_current = None,
      mg_direction = kForward\<rparr>"

text \<open>The loop of \<open>FindSmallest\<close> and \<open>FindLargest\<close> over the children with the given indices.\<close>

definition select_child :: "(slice \<Rightarrow> slice \<Rightarrow> bool) \<Rightarrow> 's wrapper list \<Rightarrow> nat list \<Rightarrow> nat option" where
  "select_child better children =
     foldl (\<lambda>best i.
       let child = children ! i
       in if iw_valid child
          then case best of
                 None \<Rightarrow> Some i
               | Some b \<Rightarrow> if better (iw_key child) (iw_key (children ! b)) then Some i else best
          else best) None"

definition FindSmallest :: "comparator_t \<Rightarrow> 's merger \<Rightarrow> 's merger" where
  "FindSmallest c m =
     m\<lparr>mg_current := select_child (\<lambda>a b. Compare c a b < 0) (mg_children m) [0..<length (mg_children m)]\<rparr>"

definition FindLargest :: "comparator_t \<Rightarrow> 's merger \<Rightarrow> 's merger" where
  "FindLargest c m =
     m\<lparr>mg_current := select_child (\<lambda>a b. Compare c a b > 0) (mg_children m) (rev [0..<length (mg_children m)])\<rparr>"

definition all_children :: "('s wrapper \<Rightarrow> 's wrapper option) \<Rightarrow> 's merger \<Rightarrow> 's merger option" where
  "all_children f m = map_option (\<lambda>ws. m\<lparr>mg_children := ws\<rparr>) (those (map f (mg_children m)))"

definition other_children :: "nat \<Rightarrow> ('s wrapper \<Rightarrow> 's wrapper option) \<Rightarrow> 's merger \<Rightarrow> 's merger option" where
  "other_children current f m =
     map_option (\<lambda>ws. m\<lparr>mg_children := ws\<rparr>)
       (those (map (\<lambda>i. if i \<noteq> current then f (mg_children m ! i) else Some (mg_children m ! i))
          [0..<length (mg_children m)]))"

definition current_child :: "nat \<Rightarrow> ('s wrapper \<Rightarrow> 's wrapper option) \<Rightarrow> 's merger \<Rightarrow> 's merger option" where
  "current_child current f m =
     map_option (\<lambda>w. m\<lparr>mg_children := (mg_children m)[current := w]\<rparr>) (f (mg_children m ! current))"

definition mg_Valid :: "'s merger \<Rightarrow> bool" where
  "mg_Valid m \<longleftrightarrow> mg_current m \<noteq> None"

definition mg_key :: "'s merger \<Rightarrow> slice" where
  "mg_key m = iw_key (mg_children m ! the (mg_current m))"

definition mg_value :: "'s iterator \<Rightarrow> 's merger \<Rightarrow> slice option" where
  "mg_value it m = iw_value it (mg_children m ! the (mg_current m))"

fun first_error :: "Status \<Rightarrow> Status list \<Rightarrow> Status" where
  "first_error status [] = status"
| "first_error status (s # ss) = (if \<not> Status_ok s then s else first_error s ss)"

definition mg_status :: "'s iterator \<Rightarrow> 's merger \<Rightarrow> Status" where
  "mg_status it m = first_error OK (map (iw_status it) (mg_children m))"

definition mg_SeekToFirst :: "'s iterator \<Rightarrow> comparator_t \<Rightarrow> 's merger \<Rightarrow> 's merger option" where
  "mg_SeekToFirst it c m =
     map_option (\<lambda>m. (FindSmallest c m)\<lparr>mg_direction := kForward\<rparr>) (all_children (iw_SeekToFirst it) m)"

definition mg_SeekToLast :: "'s iterator \<Rightarrow> comparator_t \<Rightarrow> 's merger \<Rightarrow> 's merger option" where
  "mg_SeekToLast it c m =
     map_option (\<lambda>m. (FindLargest c m)\<lparr>mg_direction := kReverse\<rparr>) (all_children (iw_SeekToLast it) m)"

definition mg_Seek :: "'s iterator \<Rightarrow> comparator_t \<Rightarrow> slice \<Rightarrow> 's merger \<Rightarrow> 's merger option" where
  "mg_Seek it c target m =
     map_option (\<lambda>m. (FindSmallest c m)\<lparr>mg_direction := kForward\<rparr>) (all_children (iw_Seek it target) m)"

text \<open>The calls in the loops that turn the direction, for a child that is not the current one.\<close>

definition place_after :: "'s iterator \<Rightarrow> comparator_t \<Rightarrow> slice \<Rightarrow> 's wrapper \<Rightarrow> 's wrapper option" where
  "place_after it c key child =
     Option.bind (iw_Seek it key child) (\<lambda>child.
       if iw_valid child \<and> Compare c key (iw_key child) = 0 then iw_Next it child else Some child)"

definition place_before :: "'s iterator \<Rightarrow> slice \<Rightarrow> 's wrapper \<Rightarrow> 's wrapper option" where
  "place_before it key child =
     Option.bind (iw_Seek it key child) (\<lambda>child.
       if iw_valid child then iw_Prev it child else iw_SeekToLast it child)"

definition mg_Next :: "'s iterator \<Rightarrow> comparator_t \<Rightarrow> 's merger \<Rightarrow> 's merger option" where
  "mg_Next it c m =
     Option.bind (mg_current m) (\<lambda>current.
       Option.bind
         (if mg_direction m \<noteq> kForward
          then map_option (\<lambda>m. m\<lparr>mg_direction := kForward\<rparr>) (other_children current (place_after it c (mg_key m)) m)
          else Some m)
         (\<lambda>m. map_option (FindSmallest c) (current_child current (iw_Next it) m)))"

definition mg_Prev :: "'s iterator \<Rightarrow> comparator_t \<Rightarrow> 's merger \<Rightarrow> 's merger option" where
  "mg_Prev it c m =
     Option.bind (mg_current m) (\<lambda>current.
       Option.bind
         (if mg_direction m \<noteq> kReverse
          then map_option (\<lambda>m. m\<lparr>mg_direction := kReverse\<rparr>) (other_children current (place_before it (mg_key m)) m)
          else Some m)
         (\<lambda>m. map_option (FindLargest c) (current_child current (iw_Prev it) m)))"

definition MergingIterator :: "'s iterator \<Rightarrow> comparator_t \<Rightarrow> 's merger iterator" where
  "MergingIterator it c =
     \<lparr>it_Valid = mg_Valid, it_SeekToFirst = mg_SeekToFirst it c, it_SeekToLast = mg_SeekToLast it c,
      it_Seek = mg_Seek it c, it_Next = mg_Next it c, it_Prev = mg_Prev it c, it_key = mg_key,
      it_value = mg_value it, it_status = mg_status it\<rparr>"

text \<open>\<open>NewMergingIterator\<close> returns an empty iterator, its only child, or a new iterator.\<close>

datatype 's merged = No_child Status | One_child 's | Many "'s merger"

definition NewMergingIterator :: "'s iterator \<Rightarrow> 's list \<Rightarrow> 's merged" where
  "NewMergingIterator it children =
     (case children of
        [] \<Rightarrow> No_child NewEmptyIterator
      | [child] \<Rightarrow> One_child child
      | _ \<Rightarrow> Many (make_MergingIterator it children))"

end
