(* ===== verification/Ldb_Merger_Spec.thy ===== *)
theory Ldb_Merger_Spec
  imports Ldb_Merger Ldb_Block_Spec
begin

text \<open>
  The merging iterator over children that meet the contract of iterators: it is a cursor in
  the merged list of their entries, in which a key that is present in several children is
  repeated. A change of the direction at such a key leaves its other copies out. Without
  repeated keys the merging iterator meets the contract of iterators itself.
\<close>

section \<open>The merged list\<close>

text \<open>
  Every entry of the merged list is there with the index of its child. The entries of each
  child are a subsequence of it; keys do not decrease, and the copies of a key are in the
  order of the children.
\<close>

type_synonym tagged = "(nat \<times> slice \<times> slice) list"

definition entry_before :: "comparator_t \<Rightarrow> nat \<times> slice \<times> slice \<Rightarrow> nat \<times> slice \<times> slice \<Rightarrow> bool" where
  "entry_before c x y \<longleftrightarrow>
     Compare c (fst (snd x)) (fst (snd y)) < 0 \<or> Compare c (fst (snd x)) (fst (snd y)) = 0 \<and> fst x < fst y"

definition entries_of :: "tagged \<Rightarrow> nat \<Rightarrow> entries" where
  "entries_of es a = map snd (filter (\<lambda>e. fst e = a) es)"

definition merge_order :: "comparator_t \<Rightarrow> entries list \<Rightarrow> tagged \<Rightarrow> bool" where
  "merge_order c kss es \<longleftrightarrow>
     sorted_wrt (entry_before c) es \<and> list_all (\<lambda>e. fst e < length kss) es \<and>
     (\<forall>a < length kss. entries_of es a = kss ! a)"

text \<open>It is made by inserting the entries one after the other.\<close>

fun insert_entry :: "comparator_t \<Rightarrow> nat \<times> slice \<times> slice \<Rightarrow> tagged \<Rightarrow> tagged" where
  "insert_entry c x [] = [x]"
| "insert_entry c x (y # ys) = (if entry_before c y x then y # insert_entry c x ys else x # y # ys)"

definition tag_entries :: "entries list \<Rightarrow> tagged" where
  "tag_entries kss = concat (map (\<lambda>a. map (Pair a) (kss ! a)) [0..<length kss])"

definition merge_list :: "comparator_t \<Rightarrow> entries list \<Rightarrow> tagged" where
  "merge_list c kss = foldr (insert_entry c) (tag_entries kss) []"

text \<open>
  The cursor has a direction: \<open>Next\<close> after a backward operation goes to the first entry with
  a larger key, \<open>Prev\<close> after a forward operation to the last one with a smaller key.
\<close>

definition after_key :: "(slice \<Rightarrow> slice \<Rightarrow> int) \<Rightarrow> entries \<Rightarrow> nat \<Rightarrow> nat" where
  "after_key cmp kvs i = length (takeWhile (\<lambda>kv. cmp (fst kv) (fst (kvs ! i)) \<le> 0) kvs)"

definition before_key :: "(slice \<Rightarrow> slice \<Rightarrow> int) \<Rightarrow> entries \<Rightarrow> nat \<Rightarrow> nat" where
  "before_key cmp kvs i = prev_pos kvs (seek_pos cmp (fst (kvs ! i)) kvs)"

fun merge_cursor_op ::
  "(slice \<Rightarrow> slice \<Rightarrow> int) \<Rightarrow> entries \<Rightarrow> iter_op \<Rightarrow> nat \<times> Direction \<Rightarrow> (nat \<times> Direction) option" where
  "merge_cursor_op cmp kvs First (i, d) = Some (0, kForward)"
| "merge_cursor_op cmp kvs Last (i, d) = Some (length kvs - 1, kReverse)"
| "merge_cursor_op cmp kvs (To target) (i, d) = Some (seek_pos cmp target kvs, kForward)"
| "merge_cursor_op cmp kvs Forward (i, d) =
     (if i < length kvs then Some (if d = kForward then i + 1 else after_key cmp kvs i, kForward) else None)"
| "merge_cursor_op cmp kvs Backward (i, d) =
     (if i < length kvs then Some (if d = kReverse then prev_pos kvs i else before_key cmp kvs i, kReverse) else None)"

section \<open>Making the merged list\<close>

lemma set_insert_entry [simp]: "set (insert_entry c x ys) = insert x (set ys)"
  by (induction ys) auto

lemma entry_before_trans:
  assumes c: "comparator c valid" and v: "valid (fst (snd x))" "valid (fst (snd y))" "valid (fst (snd z))"
    and b: "entry_before c x y" "entry_before c y z"
  shows "entry_before c x z"
proof -
  have le: "Compare c (fst (snd x)) (fst (snd y)) \<le> 0" "Compare c (fst (snd y)) (fst (snd z)) \<le> 0"
    using b by (auto simp: entry_before_def)
  show ?thesis
    using b comparator.trans [OF c v le] comparator.less_trans [OF c v le(1)] comparator.less_trans2 [OF c v _ le(2)]
    by (auto simp: entry_before_def)
qed

text \<open>The entries of a child are in order, so that any two entries are comparable.\<close>

definition children_sorted :: "comparator_t \<Rightarrow> tagged \<Rightarrow> bool" where
  "children_sorted c xs \<longleftrightarrow> sorted_wrt (\<lambda>x y. fst x = fst y \<longrightarrow> Compare c (fst (snd x)) (fst (snd y)) < 0) xs"

lemma insert_sorted:
  assumes c: "comparator c valid" and v: "\<forall>y \<in> insert x (set ys). valid (fst (snd y))"
    and "sorted_wrt (entry_before c) ys" "\<forall>y \<in> set ys. entry_before c x y \<or> entry_before c y x"
  shows "sorted_wrt (entry_before c) (insert_entry c x ys)"
  using assms(2-)
proof (induction ys)
  case (Cons y ys)
  show ?case
  proof (cases "entry_before c y x")
    case True
    then show ?thesis using Cons by auto
  next
    case False
    then have "entry_before c x y" using Cons.prems(3) by simp
    moreover have "entry_before c x z" if "z \<in> set ys" for z
      using entry_before_trans [OF c, of x y z] calculation Cons.prems(1,2) that by auto
    ultimately show ?thesis using False Cons.prems(2) by auto
  qed
qed simp

lemma entries_of_insert:
  "\<forall>y \<in> set ys. fst y = fst x \<longrightarrow> \<not> entry_before c y x \<Longrightarrow>
    entries_of (insert_entry c x ys) a = (if fst x = a then snd x # entries_of ys a else entries_of ys a)"
  by (induction ys) (auto simp: entries_of_def)

lemma insert_all:
  assumes c: "comparator c valid" and "\<forall>y \<in> set xs. valid (fst (snd y))" "children_sorted c xs"
  shows "sorted_wrt (entry_before c) (foldr (insert_entry c) xs []) \<and> set (foldr (insert_entry c) xs []) = set xs \<and>
    entries_of (foldr (insert_entry c) xs []) a = entries_of xs a"
  using assms(2-)
proof (induction xs)
  case Nil
  show ?case by simp
next
  case (Cons x xs)
  let ?ys = "foldr (insert_entry c) xs []"
  have IH: "sorted_wrt (entry_before c) ?ys" "set ?ys = set xs" "entries_of ?ys a = entries_of xs a"
    using Cons by (auto simp: children_sorted_def)
  have own: "Compare c (fst (snd x)) (fst (snd y)) < 0" if "y \<in> set xs" "fst x = fst y" for y
    using Cons.prems(2) that by (auto simp: children_sorted_def)
  have v: "valid (fst (snd x))" "y \<in> set xs \<Longrightarrow> valid (fst (snd y))" for y using Cons.prems(1) by auto
  have "entry_before c x y \<or> entry_before c y x" if y: "y \<in> set xs" for y
    using own [OF y] comparator.sym [OF c v(1) v(2) [OF y]] comparator.sym_eq [OF c v(1) v(2) [OF y]]
    by (cases "fst x" "fst y" rule: linorder_cases) (auto simp: entry_before_def)
  moreover have "\<not> entry_before c y x" if y: "y \<in> set xs" "fst y = fst x" for y
    using own [OF y(1)] y(2) comparator.sym [OF c v(1) v(2) [OF y(1)]] by (auto simp: entry_before_def)
  ultimately show ?case
    using insert_sorted [OF c _ IH(1), of x] entries_of_insert [of ?ys x c a] IH(2,3) Cons.prems(1)
    by (auto simp: entries_of_def)
qed

lemma entries_of_tagged:
  assumes "n \<le> length kss"
  shows "entries_of (concat (map (\<lambda>a. map (Pair a) (kss ! a)) [0..<n])) a = (if a < n then kss ! a else [])"
  using assms
proof (induction n)
  case (Suc n)
  have "map snd (filter (\<lambda>e. fst e = a) (map (Pair n) (kss ! n))) = (if a = n then kss ! n else [])"
    by (induction "kss ! n") (auto simp: filter_map comp_def)
  then show ?case using Suc by (auto simp: entries_of_def)
qed (simp add: entries_of_def)

lemma merge_list_order:
  assumes c: "comparator c valid" and "list_all (sorted_entries c valid) kss"
  shows "merge_order c kss (merge_list c kss)"
proof -
  have "children_sorted c (concat (map (\<lambda>a. map (Pair a) (kss ! a)) [0..<n])) \<and>
      (\<forall>e \<in> set (concat (map (\<lambda>a. map (Pair a) (kss ! a)) [0..<n])). fst e < n \<and> valid (fst (snd e)))"
    if "n \<le> length kss" for n
    using that
  proof (induction n)
    case (Suc n)
    have "sorted_entries c valid (kss ! n)" using assms(2) Suc.prems by (simp add: list_all_length)
    then have "sorted_wrt (\<lambda>x y. fst x = fst y \<longrightarrow> Compare c (fst (snd x)) (fst (snd y)) < 0) (map (Pair n) (kss ! n))"
      and "\<forall>kv \<in> set (kss ! n). valid (fst kv)"
      by (auto simp: sorted_entries_def sorted_wrt_map list_all_iff)
    then show ?case using Suc by (fastforce simp: children_sorted_def sorted_wrt_append)
  qed (simp add: children_sorted_def)
  from this [of "length kss"] show ?thesis
    using insert_all [OF c, of "tag_entries kss"] entries_of_tagged [of "length kss" kss]
    by (auto simp: merge_order_def merge_list_def tag_entries_def list_all_iff)
qed

section \<open>Positions in the children\<close>

text \<open>The number of entries of child \<open>a\<close> among the first \<open>m\<close> ones, and the position before it.\<close>

definition cnt :: "tagged \<Rightarrow> nat \<Rightarrow> nat \<Rightarrow> nat" where
  "cnt es m a = length (entries_of (take m es) a)"

definition behind :: "entries list \<Rightarrow> tagged \<Rightarrow> nat \<Rightarrow> nat \<Rightarrow> nat" where
  "behind kss es m a = prev_pos (kss ! a) (cnt es m a)"

definition parts :: "comparator_t \<Rightarrow> (slice \<Rightarrow> bool) \<Rightarrow> tagged \<Rightarrow> entries list \<Rightarrow> bool" where
  "parts c valid es kss \<longleftrightarrow> comparator c valid \<and> list_all (sorted_entries c valid) kss \<and> merge_order c kss es"

lemma entries_of_append: "entries_of (es @ es') a = entries_of es a @ entries_of es' a"
  by (simp add: entries_of_def)

lemma cnt_0 [simp]: "cnt es 0 a = 0"
  by (simp add: cnt_def entries_of_def)

lemma cnt_Suc:
  assumes "m < length es"
  shows "cnt es (Suc m) a = (if fst (es ! m) = a then Suc (cnt es m a) else cnt es m a)"
  using assms by (simp add: cnt_def entries_of_def take_Suc_conv_app_nth)

lemma takeWhile_closed:
  assumes "\<forall>p q. p < q \<and> q < length xs \<and> P (xs ! q) \<longrightarrow> P (xs ! p)" "q < length xs"
  shows "q < length (takeWhile P xs) \<longleftrightarrow> P (xs ! q)"
proof
  assume "q < length (takeWhile P xs)"
  then show "P (xs ! q)" using nth_mem set_takeWhileD takeWhile_nth by metis
next
  assume Pq: "P (xs ! q)"
  let ?l = "length (takeWhile P xs)"
  show "q < ?l"
  proof (rule ccontr)
    assume "\<not> q < ?l"
    then have l: "?l \<le> q" "?l < length xs" using assms(2) by auto
    then have "\<not> P (xs ! ?l)" using nth_length_takeWhile by blast
    moreover have "P (xs ! ?l)" using assms Pq l by (cases "?l = q") (auto simp: le_less)
    ultimately show False by blast
  qed
qed

lemma child_split:
  "parts c valid es kss \<Longrightarrow> a < length kss \<Longrightarrow> kss ! a = entries_of (take m es) a @ entries_of (drop m es) a"
  by (simp add: parts_def merge_order_def flip: entries_of_append)

lemma owner: "parts c valid es kss \<Longrightarrow> q < length es \<Longrightarrow> fst (es ! q) < length kss"
  by (simp add: parts_def merge_order_def list_all_length)

lemma cnt_bound: "parts c valid es kss \<Longrightarrow> a < length kss \<Longrightarrow> cnt es m a \<le> length (kss ! a)"
  using child_split [of c valid es kss a m] by (simp add: cnt_def)

lemma cnt_all: "parts c valid es kss \<Longrightarrow> a < length kss \<Longrightarrow> cnt es (length es) a = length (kss ! a)"
  by (simp add: parts_def merge_order_def cnt_def)

lemma cnt_owner:
  assumes P: "parts c valid es kss" and m: "m < length es" "fst (es ! m) = a"
  shows "cnt es m a < length (kss ! a)" "kss ! a ! cnt es m a = snd (es ! m)"
proof -
  have "drop m es = es ! m # drop (Suc m) es" using m(1) by (simp add: Cons_nth_drop_Suc)
  then have "kss ! a = entries_of (take m es) a @ snd (es ! m) # entries_of (drop (Suc m) es) a"
    using child_split [OF P owner [OF P m(1)], of m] m(2) by (simp add: entries_of_def)
  then show "cnt es m a < length (kss ! a)" "kss ! a ! cnt es m a = snd (es ! m)"
    by (simp_all add: cnt_def nth_append)
qed

lemma cnt_at:
  assumes P: "parts c valid es kss" and a: "a < length kss" "cnt es m a < length (kss ! a)"
  shows "\<exists>q < length es. m \<le> q \<and> fst (es ! q) = a \<and> kss ! a ! cnt es m a = snd (es ! q)"
proof -
  have "kss ! a ! cnt es m a \<in> set (entries_of (drop m es) a)"
    using a child_split [OF P a(1), of m] nth_mem [of 0 "entries_of (drop m es) a"]
    by (auto simp: cnt_def nth_append)
  then obtain e where e: "e \<in> set (drop m es)" "fst e = a" "kss ! a ! cnt es m a = snd e"
    by (auto simp: entries_of_def)
  then obtain k where "k < length es - m" "e = es ! (m + k)" by (auto simp: in_set_conv_nth)
  then show ?thesis using e by (intro exI [of _ "m + k"]) auto
qed

lemma behind_valid:
  assumes P: "parts c valid es kss" and a: "a < length kss" "behind kss es m a < length (kss ! a)"
  shows "\<exists>q < m. q < length es \<and> fst (es ! q) = a \<and> kss ! a ! behind kss es m a = snd (es ! q)"
proof -
  have b: "cnt es m a = Suc (behind kss es m a)" using a(2) by (auto simp: behind_def prev_pos_def split: if_splits)
  then have "kss ! a ! behind kss es m a = entries_of (take m es) a ! behind kss es m a"
    using child_split [OF P a(1), of m] by (simp add: cnt_def nth_append)
  also have "\<dots> \<in> set (entries_of (take m es) a)" using b by (intro nth_mem) (simp add: cnt_def)
  finally obtain e where e: "e \<in> set (take m es)" "fst e = a" "kss ! a ! behind kss es m a = snd e"
    by (auto simp: entries_of_def)
  then obtain q where "q < length (take m es)" "e = take m es ! q" by (metis in_set_conv_nth)
  then show ?thesis using e by (intro exI [of _ q]) auto
qed

lemma behind_owner: "m < length es \<Longrightarrow> fst (es ! m) = a \<Longrightarrow> behind kss es (Suc m) a = cnt es m a"
  by (simp add: behind_def prev_pos_def cnt_Suc)

lemma behind_other: "m < length es \<Longrightarrow> fst (es ! m) \<noteq> a \<Longrightarrow> behind kss es (Suc m) a = behind kss es m a"
  by (simp add: behind_def cnt_Suc)

text \<open>The order of the keys.\<close>

abbreviation ekey :: "tagged \<Rightarrow> nat \<Rightarrow> slice" where
  "ekey es q \<equiv> fst (snd (es ! q))"

lemma entry_less: "parts c valid es kss \<Longrightarrow> p < q \<Longrightarrow> q < length es \<Longrightarrow> entry_before c (es ! p) (es ! q)"
  using sorted_wrt_nth_less [of "entry_before c" es p q] by (simp add: parts_def merge_order_def)

lemma ekey_valid:
  assumes P: "parts c valid es kss" and q: "q < length es"
  shows "valid (ekey es q)"
proof -
  have "sorted_entries c valid (kss ! fst (es ! q))" using P owner [OF P q] by (simp add: parts_def list_all_length)
  then have "valid (fst (kss ! fst (es ! q) ! cnt es q (fst (es ! q))))"
    using cnt_owner(1) [OF P q] by (simp add: sorted_entries_def list_all_length)
  then show ?thesis using cnt_owner(2) [OF P q] by simp
qed

lemma ekey_facts:
  assumes P: "parts c valid es kss" and pq: "p < length es" "q < length es"
  shows "Compare c (ekey es p) (ekey es q) < 0 \<longleftrightarrow> Compare c (ekey es q) (ekey es p) > 0"
    and "Compare c (ekey es p) (ekey es q) = 0 \<longleftrightarrow> Compare c (ekey es q) (ekey es p) = 0"
    and "p < q \<Longrightarrow> Compare c (ekey es p) (ekey es q) \<le> 0"
    and "valid t \<Longrightarrow> Compare c (ekey es p) (ekey es q) \<le> 0 \<Longrightarrow> Compare c (ekey es q) t < 0 \<Longrightarrow> Compare c (ekey es p) t < 0"
    and "valid t \<Longrightarrow> Compare c (ekey es p) (ekey es q) \<le> 0 \<Longrightarrow> Compare c (ekey es q) t \<le> 0 \<Longrightarrow> Compare c (ekey es p) t \<le> 0"
proof -
  have c: "comparator c valid" using P by (simp add: parts_def)
  note v = ekey_valid [OF P pq(1)] ekey_valid [OF P pq(2)]
  show "Compare c (ekey es p) (ekey es q) < 0 \<longleftrightarrow> Compare c (ekey es q) (ekey es p) > 0"
    by (rule comparator.sym [OF c v])
  show "Compare c (ekey es p) (ekey es q) = 0 \<longleftrightarrow> Compare c (ekey es q) (ekey es p) = 0"
    by (rule comparator.sym_eq [OF c v])
  show "p < q \<Longrightarrow> Compare c (ekey es p) (ekey es q) \<le> 0"
    using entry_less [OF P _ pq(2), of p] by (auto simp: entry_before_def)
  show "valid t \<Longrightarrow> Compare c (ekey es p) (ekey es q) \<le> 0 \<Longrightarrow> Compare c (ekey es q) t < 0 \<Longrightarrow> Compare c (ekey es p) t < 0"
    by (rule comparator.less_trans [OF c v])
  show "valid t \<Longrightarrow> Compare c (ekey es p) (ekey es q) \<le> 0 \<Longrightarrow> Compare c (ekey es q) t \<le> 0 \<Longrightarrow> Compare c (ekey es p) t \<le> 0"
    by (rule comparator.trans [OF c v])
qed

text \<open>A position of the merged list that a condition on keys determines, in a child.\<close>

lemma cut_at:
  assumes P: "parts c valid es kss" and a: "a < length kss" and Q: "\<forall>q < length es. q < m \<longleftrightarrow> Q (snd (es ! q))"
  shows "length (takeWhile Q (kss ! a)) = cnt es m a"
proof -
  have "Q x" if "x \<in> set (entries_of (take m es) a)" for x
    using that Q by (auto simp: entries_of_def in_set_conv_nth)
  moreover have "\<not> Q x" if x: "x \<in> set (entries_of (drop m es) a)" for x
  proof -
    obtain k where "k < length es - m" "x = snd (es ! (m + k))"
      using x by (auto simp: entries_of_def in_set_conv_nth)
    then show ?thesis using Q [rule_format, of "m + k"] by auto
  qed
  then have "takeWhile Q (entries_of (drop m es) a) = []"
    by (cases "entries_of (drop m es) a") auto
  ultimately show ?thesis
    by (subst child_split [OF P a, of m]) (simp add: cnt_def)
qed

lemma seek_cut:
  assumes P: "parts c valid es kss" and t: "valid t" and q: "q < length es"
  shows "q < seek_pos (Compare c) t (map snd es) \<longleftrightarrow> Compare c (ekey es q) t < 0"
proof -
  have "\<forall>p q. p < q \<and> q < length (map snd es) \<and> Compare c (fst (map snd es ! q)) t < 0 \<longrightarrow>
      Compare c (fst (map snd es ! p)) t < 0"
  proof (intro allI impI)
    fix p q assume "p < q \<and> q < length (map snd es) \<and> Compare c (fst (map snd es ! q)) t < 0"
    then have "p < q" "q < length es" "Compare c (ekey es q) t < 0" by auto
    then show "Compare c (fst (map snd es ! p)) t < 0"
      using ekey_facts(3) [OF P, of p q] ekey_facts(4) [OF P _ _ t, of p q] by simp
  qed
  from takeWhile_closed [OF this] show ?thesis using q by (simp add: seek_pos_def)
qed

lemma seek_pos_cnt:
  assumes P: "parts c valid es kss" and a: "a < length kss" and t: "valid t"
  shows "seek_pos (Compare c) t (kss ! a) = cnt es (seek_pos (Compare c) t (map snd es)) a"
  unfolding seek_pos_def [of _ _ "kss ! a"]
  by (rule cut_at [OF P a]) (use seek_cut [OF P t] in simp)

lemma after_cut:
  assumes P: "parts c valid es kss" and i: "i < length es" and q: "q < length es"
  shows "q < after_key (Compare c) (map snd es) i \<longleftrightarrow> Compare c (ekey es q) (ekey es i) \<le> 0"
proof -
  have "\<forall>p q. p < q \<and> q < length (map snd es) \<and> Compare c (fst (map snd es ! q)) (ekey es i) \<le> 0 \<longrightarrow>
      Compare c (fst (map snd es ! p)) (ekey es i) \<le> 0"
  proof (intro allI impI)
    fix p q assume "p < q \<and> q < length (map snd es) \<and> Compare c (fst (map snd es ! q)) (ekey es i) \<le> 0"
    then have "p < q" "q < length es" "Compare c (ekey es q) (ekey es i) \<le> 0" by auto
    then show "Compare c (fst (map snd es ! p)) (ekey es i) \<le> 0"
      using ekey_facts(3) [OF P, of p q] ekey_facts(5) [OF P _ _ ekey_valid [OF P i], of p q] by simp
  qed
  from takeWhile_closed [OF this] show ?thesis using q i by (simp add: after_key_def)
qed

lemma after_cnt:
  assumes P: "parts c valid es kss" and a: "a < length kss" and i: "i < length es"
  shows "length (takeWhile (\<lambda>kv. Compare c (fst kv) (ekey es i) \<le> 0) (kss ! a)) =
    cnt es (after_key (Compare c) (map snd es) i) a"
  by (rule cut_at [OF P a]) (use after_cut [OF P i] in simp)

text \<open>A change of the direction does not pass another entry of the current child.\<close>

lemma cnt_gap:
  assumes "i \<le> n" "n \<le> length es" "\<forall>q. i \<le> q \<and> q < n \<longrightarrow> fst (es ! q) \<noteq> a"
  shows "cnt es n a = cnt es i a"
  using assms by (induction n) (auto simp: le_Suc_eq cnt_Suc)

lemma own_strict:
  assumes P: "parts c valid es kss" and "p < q" "q < length es" "fst (es ! p) = fst (es ! q)"
  shows "Compare c (ekey es p) (ekey es q) < 0"
  using entry_less [OF P assms(2,3)] assms(4) by (simp add: entry_before_def)

lemma cnt_after:
  assumes P: "parts c valid es kss" and i: "i < length es"
  shows "cnt es (after_key (Compare c) (map snd es) i) (fst (es ! i)) = Suc (cnt es i (fst (es ! i)))"
proof -
  let ?n = "after_key (Compare c) (map snd es) i"
  have c: "comparator c valid" using P by (simp add: parts_def)
  have n: "?n \<le> length es" using length_takeWhile_le [of _ "map snd es"] by (simp add: after_key_def)
  have "i < ?n" using after_cut [OF P i i] comparator.refl [OF c ekey_valid [OF P i]] by simp
  moreover have "fst (es ! q) \<noteq> fst (es ! i)" if q: "Suc i \<le> q" "q < ?n" for q
    using own_strict [OF P, of i q] after_cut [OF P i, of q] ekey_facts(1) [OF P i, of q] q n by auto
  ultimately show ?thesis using cnt_gap [of "Suc i" ?n es "fst (es ! i)"] n cnt_Suc [OF i] by simp
qed

lemma cnt_before:
  assumes P: "parts c valid es kss" and i: "i < length es"
  shows "seek_pos (Compare c) (ekey es i) (map snd es) \<le> i"
    and "cnt es (seek_pos (Compare c) (ekey es i) (map snd es)) (fst (es ! i)) = cnt es i (fst (es ! i))"
proof -
  let ?s = "seek_pos (Compare c) (ekey es i) (map snd es)"
  have c: "comparator c valid" using P by (simp add: parts_def)
  note v = ekey_valid [OF P i]
  show s: "?s \<le> i" using seek_cut [OF P v i] comparator.refl [OF c v] by simp
  have "fst (es ! q) \<noteq> fst (es ! i)" if q: "?s \<le> q" "q < i" for q
    using own_strict [OF P q(2) i] seek_cut [OF P v, of q] q i by auto
  then show "cnt es ?s (fst (es ! i)) = cnt es i (fst (es ! i))"
    using cnt_gap [OF s, of es "fst (es ! i)"] i by simp
qed

section \<open>Selecting a child\<close>

lemma select_child_snoc:
  "select_child better ws [] = None"
  "select_child better ws (xs @ [x]) =
     (if iw_valid (ws ! x)
      then case select_child better ws xs of
             None \<Rightarrow> Some x
           | Some b \<Rightarrow> if better (iw_key (ws ! x)) (iw_key (ws ! b)) then Some x else Some b
      else select_child better ws xs)"
  unfolding select_child_def by (simp, auto simp only: foldl_append foldl.simps Let_def split: option.split)

lemma select_child_in: "select_child better ws xs = Some b \<Longrightarrow> b \<in> set xs \<and> iw_valid (ws ! b)"
  by (induction xs arbitrary: b rule: rev_induct) (auto simp: select_child_snoc split: if_splits option.splits)

text \<open>The child that is selected is better than those before it, and none behind it is better.\<close>

lemma select_child_best:
  assumes "iw_valid (ws ! k)"
    and "\<And>j. j \<in> set xs \<Longrightarrow> iw_valid (ws ! j) \<Longrightarrow> better (iw_key (ws ! k)) (iw_key (ws ! j))"
    and "\<And>j. j \<in> set ys \<Longrightarrow> iw_valid (ws ! j) \<Longrightarrow> \<not> better (iw_key (ws ! j)) (iw_key (ws ! k))"
  shows "select_child better ws (xs @ k # ys) = Some k"
  using assms(3)
proof (induction ys rule: rev_induct)
  case Nil
  show ?case
    using assms(1,2) select_child_in [of better ws xs] by (auto simp: select_child_snoc split: option.splits)
next
  case (snoc y ys)
  then have "select_child better ws (xs @ k # ys) = Some k" by simp
  then show ?case
    using snoc.prems [of y] select_child_snoc(2) [of better ws "xs @ k # ys" y] by simp
qed

lemma select_child_none: "(\<And>j. j \<in> set xs \<Longrightarrow> \<not> iw_valid (ws ! j)) \<Longrightarrow> select_child better ws xs = None"
  by (induction xs rule: rev_induct) (auto simp: select_child_snoc)

section \<open>States of the merging iterator\<close>

definition placed ::
  "'s iterator \<Rightarrow> (entries \<Rightarrow> nat \<Rightarrow> 's \<Rightarrow> bool) \<Rightarrow> entries list \<Rightarrow> (nat \<Rightarrow> nat) \<Rightarrow> 's merger \<Rightarrow> bool" where
  "placed it at kss pos m \<longleftrightarrow>
     length (mg_children m) = length kss \<and>
     (\<forall>a < length kss. child_at it at (kss ! a) (pos a) (mg_children m ! a))"

definition merging ::
  "'s iterator \<Rightarrow> comparator_t \<Rightarrow> (slice \<Rightarrow> bool) \<Rightarrow> (entries \<Rightarrow> nat \<Rightarrow> 's \<Rightarrow> bool) \<Rightarrow>
    entries list \<Rightarrow> tagged \<Rightarrow> nat \<times> Direction \<Rightarrow> 's merger \<Rightarrow> bool" where
  "merging it c valid at kss es p m \<longleftrightarrow>
     (case p of (i, d) \<Rightarrow>
        parts c valid es kss \<and> i \<le> length es \<and> mg_direction m = d \<and>
        (if i < length es
         then mg_current m = Some (fst (es ! i)) \<and>
           placed it at kss (if d = kForward then cnt es i else behind kss es (Suc i)) m
         else mg_current m = None \<and> (\<exists>pos. placed it at kss pos m)))"

lemma placed_nth: "placed it at kss pos m \<Longrightarrow> a < length kss \<Longrightarrow> child_at it at (kss ! a) (pos a) (mg_children m ! a)"
  by (simp add: placed_def)

lemma upt_pick: "j < n \<Longrightarrow> [0..<n] = [0..<j] @ j # [Suc j..<n]"
  using upt_add_eq_append [of 0 j "n - j"] upt_conv_Cons [of j n] by simp

text \<open>With every child behind the first \<open>i\<close> entries, the smallest key is that of the next one.\<close>

lemma FindSmallest_placed:
  assumes P: "parts c valid es kss" and pl: "placed it at kss (cnt es i) m" and i: "i \<le> length es"
  shows "merging it c valid at kss es (i, kForward) ((FindSmallest c m)\<lparr>mg_direction := kForward\<rparr>)"
proof -
  let ?ws = "mg_children m"
  have len: "length ?ws = length kss" using pl by (simp add: placed_def)
  have "mg_current (FindSmallest c m) = (if i < length es then Some (fst (es ! i)) else None)"
  proof (cases "i < length es")
    case False
    then have "\<not> iw_valid (?ws ! a)" if "a < length kss" for a
      using cnt_all [OF P that] i child_at_valid [OF placed_nth [OF pl that]] that by simp
    then show ?thesis using False len by (auto simp: FindSmallest_def intro!: select_child_none)
  next
    case True
    define j where "j = fst (es ! i)"
    have j: "j < length kss" using owner [OF P True] by (simp add: j_def)
    note own = cnt_owner [OF P True, of j, folded j_def, OF refl]
    have kj: "iw_valid (?ws ! j)" "iw_key (?ws ! j) = ekey es i"
      using child_at_valid [OF placed_nth [OF pl j]] child_at_key [OF placed_nth [OF pl j]] own by simp_all
    have other: "\<exists>q < length es. i < q \<and> fst (es ! q) = a \<and> iw_key (?ws ! a) = ekey es q"
      if a: "a < length kss" "iw_valid (?ws ! a)" "a \<noteq> j" for a
    proof -
      have va: "cnt es i a < length (kss ! a)" using child_at_valid [OF placed_nth [OF pl a(1)]] a(2) by simp
      then show ?thesis
        using cnt_at [OF P a(1) va] child_at_key [OF placed_nth [OF pl a(1)] va] a(3)
        by (metis j_def le_neq_implies_less)
    qed
    have "select_child (\<lambda>a b. Compare c a b < 0) ?ws ([0..<j] @ j # [Suc j..<length ?ws]) = Some j"
    proof (rule select_child_best [OF kj(1)])
      fix a assume a: "a \<in> set [0..<j]" "iw_valid (?ws ! a)"
      then obtain q where q: "q < length es" "i < q" "fst (es ! q) = a" "iw_key (?ws ! a) = ekey es q"
        using other [of a] j by auto
      then show "Compare c (iw_key (?ws ! j)) (iw_key (?ws ! a)) < 0"
        using entry_less [OF P q(2,1)] a(1) by (simp add: entry_before_def kj(2) flip: j_def)
    next
      fix a assume a: "a \<in> set [Suc j..<length ?ws]" "iw_valid (?ws ! a)"
      then obtain q where q: "q < length es" "i < q" "fst (es ! q) = a" "iw_key (?ws ! a) = ekey es q"
        using other [of a] len by auto
      then show "\<not> Compare c (iw_key (?ws ! a)) (iw_key (?ws ! j)) < 0"
        using ekey_facts(3) [OF P True q(1,2)] ekey_facts(1) [OF P q(1) True] by (simp add: kj(2))
    qed
    then show ?thesis using True len j upt_pick [of j "length ?ws"] by (simp add: FindSmallest_def flip: j_def)
  qed
  then show ?thesis using P pl i by (auto simp: merging_def FindSmallest_def placed_def)
qed

lemma FindLargest_placed:
  assumes P: "parts c valid es kss" and pl: "placed it at kss (behind kss es i) m" and i: "i \<le> length es"
  shows "merging it c valid at kss es (prev_pos (map snd es) i, kReverse) ((FindLargest c m)\<lparr>mg_direction := kReverse\<rparr>)"
proof -
  let ?ws = "mg_children m"
  have len: "length ?ws = length kss" using pl by (simp add: placed_def)
  show ?thesis
  proof (cases i)
    case 0
    then have "\<not> iw_valid (?ws ! a)" if "a < length kss" for a
      using child_at_valid [OF placed_nth [OF pl that]] by (simp add: behind_def prev_pos_def)
    then have "mg_current (FindLargest c m) = None"
      using len by (auto simp: FindLargest_def intro!: select_child_none)
    then show ?thesis using 0 P pl len by (auto simp: merging_def FindLargest_def placed_def prev_pos_def)
  next
    case (Suc l)
    then have l: "l < length es" using i by simp
    define j where "j = fst (es ! l)"
    have j: "j < length kss" using owner [OF P l] by (simp add: j_def)
    note own = cnt_owner [OF P l, of j, folded j_def, OF refl] behind_owner [OF l, of j kss, folded j_def Suc, OF refl]
    have kj: "iw_valid (?ws ! j)" "iw_key (?ws ! j) = ekey es l"
      using child_at_valid [OF placed_nth [OF pl j]] child_at_key [OF placed_nth [OF pl j]] own by simp_all
    have other: "\<exists>q < l. q < length es \<and> fst (es ! q) = a \<and> iw_key (?ws ! a) = ekey es q"
      if a: "a < length kss" "iw_valid (?ws ! a)" "a \<noteq> j" for a
    proof -
      have va: "behind kss es i a < length (kss ! a)" using child_at_valid [OF placed_nth [OF pl a(1)]] a(2) by simp
      then show ?thesis
        using behind_valid [OF P a(1) va] child_at_key [OF placed_nth [OF pl a(1)] va] a(3) Suc
        by (metis j_def less_antisym)
    qed
    have "rev [0..<length ?ws] = rev [Suc j..<length ?ws] @ j # rev [0..<j]"
      using upt_pick [of j "length ?ws"] j len by simp
    moreover have "select_child (\<lambda>a b. Compare c a b > 0) ?ws (rev [Suc j..<length ?ws] @ j # rev [0..<j]) = Some j"
    proof (rule select_child_best [OF kj(1)])
      fix a assume a: "a \<in> set (rev [Suc j..<length ?ws])" "iw_valid (?ws ! a)"
      then obtain q where q: "q < l" "q < length es" "fst (es ! q) = a" "iw_key (?ws ! a) = ekey es q"
        using other [of a] len by auto
      then show "Compare c (iw_key (?ws ! j)) (iw_key (?ws ! a)) > 0"
        using entry_less [OF P q(1) l] a(1) ekey_facts(1) [OF P q(2) l] by (simp add: entry_before_def kj(2) flip: j_def)
    next
      fix a assume a: "a \<in> set (rev [0..<j])" "iw_valid (?ws ! a)"
      then obtain q where q: "q < l" "q < length es" "fst (es ! q) = a" "iw_key (?ws ! a) = ekey es q"
        using other [of a] j by auto
      then show "\<not> Compare c (iw_key (?ws ! a)) (iw_key (?ws ! j)) > 0"
        using ekey_facts(3) [OF P q(2) l q(1)] by (simp add: kj(2))
    qed
    ultimately have "mg_current (FindLargest c m) = Some j" by (simp add: FindLargest_def)
    then show ?thesis using l Suc P pl j by (auto simp: merging_def FindLargest_def placed_def prev_pos_def j_def)
  qed
qed

section \<open>Moving the children\<close>

lemma those_all:
  "(\<And>x. x \<in> set xs \<Longrightarrow> f x \<noteq> None) \<Longrightarrow> those (map f xs) = Some (map (\<lambda>x. the (f x)) xs)"
  by (induction xs) (auto split: option.split)

lemma all_children_placed:
  assumes "length (mg_children m) = length kss"
    and "\<And>a. a < length kss \<Longrightarrow> \<exists>w. f (mg_children m ! a) = Some w \<and> child_at it at (kss ! a) (pos a) w"
  shows "\<exists>m'. all_children f m = Some m' \<and> placed it at kss pos m'"
proof -
  have "those (map f (mg_children m)) = Some (map (\<lambda>x. the (f x)) (mg_children m))"
    using assms by (intro those_all) (auto simp: in_set_conv_nth)
  moreover have "child_at it at (kss ! a) (pos a) (the (f (mg_children m ! a)))" if "a < length kss" for a
    using assms(2) [OF that] by auto
  ultimately show ?thesis using assms(1) by (simp add: all_children_def placed_def)
qed

lemma other_children_placed:
  assumes "length (mg_children m) = length kss" "j < length kss"
    and "child_at it at (kss ! j) (pos j) (mg_children m ! j)"
    and "\<And>a. a < length kss \<Longrightarrow> a \<noteq> j \<Longrightarrow> \<exists>w. f (mg_children m ! a) = Some w \<and> child_at it at (kss ! a) (pos a) w"
  shows "\<exists>m'. other_children j f m = Some m' \<and> placed it at kss pos m'"
proof -
  define g where "g = (\<lambda>i. if i \<noteq> j then f (mg_children m ! i) else Some (mg_children m ! i))"
  have each: "\<exists>w. g a = Some w \<and> child_at it at (kss ! a) (pos a) w" if "a < length kss" for a
    using assms(3) assms(4) [OF that] by (auto simp: g_def)
  then have "those (map g [0..<length (mg_children m)]) = Some (map (\<lambda>x. the (g x)) [0..<length (mg_children m)])"
    using assms(1) by (intro those_all) fastforce
  moreover have "child_at it at (kss ! a) (pos a) (the (g a))" if "a < length kss" for a
    using each [OF that] by auto
  ultimately show ?thesis using assms(1) by (simp add: other_children_def placed_def flip: g_def)
qed

lemma current_child_placed:
  assumes "placed it at kss pos m" "j < length kss"
    and "\<exists>w. f (mg_children m ! j) = Some w \<and> child_at it at (kss ! j) (pos' j) w"
    and "\<And>a. a < length kss \<Longrightarrow> a \<noteq> j \<Longrightarrow> pos' a = pos a"
  shows "\<exists>m'. current_child j f m = Some m' \<and> placed it at kss pos' m' \<and> mg_direction m' = mg_direction m"
  using assms by (auto simp: current_child_def placed_def nth_list_update)

section \<open>The operations\<close>

locale merge_children = comparator c valid + child: iterator_contract it "Compare c" valid at
  for c :: comparator_t and valid :: "slice \<Rightarrow> bool" and it :: "'s iterator" and at :: "entries \<Rightarrow> nat \<Rightarrow> 's \<Rightarrow> bool"
begin

abbreviation state :: "entries list \<Rightarrow> tagged \<Rightarrow> nat \<times> Direction \<Rightarrow> 's merger \<Rightarrow> bool" where
  "state \<equiv> merging it c valid at"

lemma state_parts: "state kss es p m \<Longrightarrow> parts c valid es kss"
  by (auto simp: merging_def split: prod.splits)

lemma state_any:
  assumes "state kss es p m"
  obtains pos where "placed it at kss pos m"
  using assms unfolding merging_def by (auto split: prod.splits if_splits)

lemma merge_all:
  assumes m: "state kss es p m"
    and f: "\<And>a q w. a < length kss \<Longrightarrow> child_at it at (kss ! a) q w \<Longrightarrow> \<exists>w'. f w = Some w' \<and> child_at it at (kss ! a) (pos a) w'"
  shows "\<exists>m'. all_children f m = Some m' \<and> placed it at kss pos m'"
proof -
  obtain pos0 where "placed it at kss pos0 m" by (rule state_any [OF m])
  then show ?thesis using f by (intro all_children_placed) (auto simp: placed_def)
qed

lemma merge_SeekToFirst:
  assumes "state kss es p m"
  shows "\<exists>m'. mg_SeekToFirst it c m = Some m' \<and> state kss es (0, kForward) m'"
proof -
  obtain m' where "all_children (iw_SeekToFirst it) m = Some m'" "placed it at kss (cnt es 0) m'"
    using merge_all [OF assms, of "iw_SeekToFirst it" "cnt es 0"] child.child_ops(1) by auto
  then show ?thesis using FindSmallest_placed [OF state_parts [OF assms], of it at 0 m'] by (simp add: mg_SeekToFirst_def)
qed

lemma merge_Seek:
  assumes "state kss es p m" "valid target"
  shows "\<exists>m'. mg_Seek it c target m = Some m' \<and> state kss es (seek_pos (Compare c) target (map snd es), kForward) m'"
proof -
  let ?k = "seek_pos (Compare c) target (map snd es)"
  have "\<exists>w'. iw_Seek it target w = Some w' \<and> child_at it at (kss ! a) (cnt es ?k a) w'"
    if "a < length kss" "child_at it at (kss ! a) q w" for a q w
    using child.child_ops(3) [OF that(2) assms(2)] seek_pos_cnt [OF state_parts [OF assms(1)] that(1) assms(2)] by simp
  then obtain m' where "all_children (iw_Seek it target) m = Some m'" "placed it at kss (cnt es ?k) m'"
    using merge_all [OF assms(1), of "iw_Seek it target" "cnt es ?k"] by blast
  moreover have "?k \<le> length es" using length_takeWhile_le [of _ "map snd es"] by (simp add: seek_pos_def)
  ultimately show ?thesis using FindSmallest_placed [OF state_parts [OF assms(1)], of it at ?k m'] by (simp add: mg_Seek_def)
qed

lemma merge_SeekToLast:
  assumes "state kss es p m"
  shows "\<exists>m'. mg_SeekToLast it c m = Some m' \<and> state kss es (length es - 1, kReverse) m'"
proof -
  note P = state_parts [OF assms]
  have "behind kss es (length es) a = length (kss ! a) - 1" if "a < length kss" for a
    using cnt_all [OF P that] by (simp add: behind_def prev_pos_def)
  then obtain m' where "all_children (iw_SeekToLast it) m = Some m'" "placed it at kss (behind kss es (length es)) m'"
    using merge_all [OF assms, of "iw_SeekToLast it" "behind kss es (length es)"] child.child_ops(2) by auto
  then show ?thesis
    using FindLargest_placed [OF P, of it at "length es" m'] by (simp add: mg_SeekToLast_def prev_pos_def split: if_splits)
qed

text \<open>The current child stands at the current entry, in both directions.\<close>

lemma current_entry:
  assumes "state kss es (i, d) m" "i < length es"
  defines "j \<equiv> fst (es ! i)"
  shows "parts c valid es kss" "j < length kss" "mg_current m = Some j"
    "placed it at kss (if d = kForward then cnt es i else behind kss es (Suc i)) m"
    "child_at it at (kss ! j) (cnt es i j) (mg_children m ! j)" "mg_key m = ekey es i" "mg_direction m = d"
proof -
  show P: "parts c valid es kss" by (rule state_parts [OF assms(1)])
  show j: "j < length kss" using owner [OF P assms(2)] by (simp add: j_def)
  show cur: "mg_current m = Some j" and d: "mg_direction m = d"
    and pl: "placed it at kss (if d = kForward then cnt es i else behind kss es (Suc i)) m"
    using assms(1,2) by (auto simp: merging_def j_def)
  show w: "child_at it at (kss ! j) (cnt es i j) (mg_children m ! j)"
    using placed_nth [OF pl j] behind_owner [OF assms(2), of j kss] by (auto simp: j_def split: if_splits)
  show "mg_key m = ekey es i"
    using child_at_key [OF w] cnt_owner [OF P assms(2), of j] cur by (simp add: mg_key_def j_def)
qed

lemma place_after_child:
  assumes P: "parts c valid es kss" and a: "a < length kss" and i: "i < length es" and w: "child_at it at (kss ! a) p w"
  shows "\<exists>w'. place_after it c (ekey es i) w = Some w' \<and>
    child_at it at (kss ! a) (cnt es (after_key (Compare c) (map snd es) i) a) w'"
proof -
  let ?k = "ekey es i" and ?ks = "kss ! a"
  let ?s = "seek_pos (Compare c) ?k ?ks" and ?l = "length (takeWhile (\<lambda>kv. Compare c (fst kv) ?k \<le> 0) ?ks)"
  have v: "valid ?k" by (rule ekey_valid [OF P i])
  have o: "ordered c valid ?ks" using P a by (simp add: parts_def ordered_def list_all_length)
  obtain w' where w': "iw_Seek it ?k w = Some w'" "child_at it at ?ks ?s w'"
    using child.child_ops(3) [OF w v] by blast
  have le: "?s \<le> length ?ks" by (simp add: seek_pos_def length_takeWhile_le)
  have below: "Compare c (fst (?ks ! b)) ?k < 0" if "b < ?s" for b
    using that nth_mem [of b "takeWhile (\<lambda>kv. Compare c (fst kv) ?k < 0) ?ks"]
    by (auto simp: seek_pos_def takeWhile_nth dest: set_takeWhileD)
  have stop: "\<not> Compare c (fst (?ks ! ?s)) ?k < 0" if "?s < length ?ks"
    using nth_length_takeWhile [of "\<lambda>kv. Compare c (fst kv) ?k < 0" ?ks] that by (simp add: seek_pos_def)
  have length: "?l = n" if "\<forall>b < n. Compare c (fst (?ks ! b)) ?k \<le> 0" "n \<le> length ?ks"
      "n < length ?ks \<longrightarrow> \<not> Compare c (fst (?ks ! n)) ?k \<le> 0" for n
    using that by (subst takeWhile_eq_take_P_nth [of n]) auto
  show ?thesis
  proof (cases "?s < length ?ks \<and> Compare c ?k (fst (?ks ! ?s)) = 0")
    case True
    then have eq: "Compare c (fst (?ks ! ?s)) ?k = 0" using sym_eq [OF valid_key [OF o] v] by blast
    have "\<not> Compare c (fst (?ks ! Suc ?s)) ?k \<le> 0" if b: "Suc ?s < length ?ks"
    proof
      assume "Compare c (fst (?ks ! Suc ?s)) ?k \<le> 0"
      moreover have "Compare c (fst (?ks ! ?s)) (fst (?ks ! Suc ?s)) < 0" by (rule key_less [OF o lessI b])
      ultimately have "Compare c (fst (?ks ! ?s)) ?k < 0"
        using less_trans2 [OF valid_key [OF o] valid_key [OF o b] v] True by blast
      then show False using eq by simp
    qed
    then have "?l = Suc ?s" using True below eq by (intro length) (auto simp: less_Suc_eq less_imp_le)
    then show ?thesis
      using True w' child_at_valid [OF w'(2)] child_at_key [OF w'(2)] child.child_ops(4) [OF w'(2)] after_cnt [OF P a i]
      by (simp add: place_after_def)
  next
    case False
    have "\<not> Compare c (fst (?ks ! ?s)) ?k \<le> 0" if "?s < length ?ks"
      using False stop [OF that] that sym_eq [OF valid_key [OF o that] v] by (auto simp: le_less)
    then have "?l = ?s" using below le by (intro length) (auto simp: less_imp_le)
    then show ?thesis
      using False w' child_at_valid [OF w'(2)] child_at_key [OF w'(2)] after_cnt [OF P a i]
      by (auto simp: place_after_def)
  qed
qed

lemma place_before_child:
  assumes P: "parts c valid es kss" and a: "a < length kss" and i: "i < length es" and w: "child_at it at (kss ! a) p w"
  shows "\<exists>w'. place_before it (ekey es i) w = Some w' \<and>
    child_at it at (kss ! a) (behind kss es (seek_pos (Compare c) (ekey es i) (map snd es)) a) w'"
proof -
  let ?s = "seek_pos (Compare c) (ekey es i) (map snd es)"
  have v: "valid (ekey es i)" by (rule ekey_valid [OF P i])
  obtain w' where w': "iw_Seek it (ekey es i) w = Some w'" "child_at it at (kss ! a) (cnt es ?s a) w'"
    using child.child_ops(3) [OF w v] seek_pos_cnt [OF P a v] by auto
  show ?thesis
  proof (cases "cnt es ?s a < length (kss ! a)")
    case True
    then show ?thesis
      using child.child_ops(5) [OF w'(2) True] w' child_at_valid [OF w'(2)] by (auto simp: place_before_def behind_def)
  next
    case False
    then have "behind kss es ?s a = length (kss ! a) - 1"
      using child.child_bound [OF w'(2)] by (simp add: behind_def prev_pos_def)
    then show ?thesis
      using child.child_ops(2) [OF w'(2)] w' child_at_valid [OF w'(2)] False by (auto simp: place_before_def)
  qed
qed

lemma merge_Next:
  assumes "state kss es (i, d) m" "i < length es"
  shows "\<exists>m'. mg_Next it c m = Some m' \<and>
    state kss es (if d = kForward then i + 1 else after_key (Compare c) (map snd es) i, kForward) m'"
proof -
  note cur = current_entry [OF assms]
  note P = cur(1)
  let ?j = "fst (es ! i)" and ?n = "if d = kForward then i + 1 else after_key (Compare c) (map snd es) i"
  let ?turn = "if mg_direction m \<noteq> kForward
    then map_option (\<lambda>m. m\<lparr>mg_direction := kForward\<rparr>) (other_children ?j (place_after it c (mg_key m)) m)
    else Some m"
  let ?pos = "(cnt es ?n)(?j := cnt es i ?j)"
  have len: "length (mg_children m) = length kss" using cur(4) by (simp add: placed_def)
  have "\<exists>m1. ?turn = Some m1 \<and> placed it at kss ?pos m1 \<and> mg_direction m1 = kForward"
  proof (cases "d = kForward")
    case True
    have pos: "?pos = cnt es i" using cnt_Suc [OF assms(2)] True by auto
    show ?thesis unfolding pos using True cur(4,7) by simp
  next
    case False
    have "\<exists>w'. place_after it c (mg_key m) (mg_children m ! a) = Some w' \<and> child_at it at (kss ! a) (?pos a) w'"
      if "a < length kss" "a \<noteq> ?j" for a
      using place_after_child [OF P that(1) assms(2) placed_nth [OF cur(4) that(1)]] that(2) False cur(6) by simp
    then obtain m1 where "other_children ?j (place_after it c (mg_key m)) m = Some m1" "placed it at kss ?pos m1"
      using other_children_placed [OF len cur(2), of it at ?pos] cur(5) by auto
    then show ?thesis using False cur(7) by (simp add: placed_def)
  qed
  then obtain m1 where m1: "?turn = Some m1" "placed it at kss ?pos m1" "mg_direction m1 = kForward" by blast
  have "cnt es ?n ?j = Suc (cnt es i ?j)" using cnt_after [OF P assms(2)] cnt_Suc [OF assms(2)] by simp
  then have "\<exists>w. iw_Next it (mg_children m1 ! ?j) = Some w \<and> child_at it at (kss ! ?j) (cnt es ?n ?j) w"
    using child.child_ops(4) [of "kss ! ?j" "cnt es i ?j" "mg_children m1 ! ?j"] placed_nth [OF m1(2) cur(2)]
      cnt_owner(1) [OF P assms(2) HOL.refl] by simp
  then obtain m2 where m2: "current_child ?j (iw_Next it) m1 = Some m2" "placed it at kss (cnt es ?n) m2" "mg_direction m2 = kForward"
    using current_child_placed [OF m1(2) cur(2), of "iw_Next it" "cnt es ?n"] m1(3) by auto
  have "?n \<le> length es"
    using assms(2) length_takeWhile_le [of _ "map snd es"] by (auto simp: after_key_def)
  then have "state kss es (?n, kForward) ((FindSmallest c m2)\<lparr>mg_direction := kForward\<rparr>)"
    by (rule FindSmallest_placed [OF P m2(2)])
  moreover have "(FindSmallest c m2)\<lparr>mg_direction := kForward\<rparr> = FindSmallest c m2"
    using m2(3) by (simp add: FindSmallest_def)
  moreover have "mg_Next it c m = Some (FindSmallest c m2)"
    using m1(1) m2(1) cur(3) unfolding mg_Next_def by simp
  ultimately show ?thesis by simp
qed

lemma merge_Prev:
  assumes "state kss es (i, d) m" "i < length es"
  shows "\<exists>m'. mg_Prev it c m = Some m' \<and>
    state kss es (if d = kReverse then prev_pos (map snd es) i else before_key (Compare c) (map snd es) i, kReverse) m'"
proof -
  note cur = current_entry [OF assms]
  note P = cur(1)
  let ?j = "fst (es ! i)" and ?n = "if d = kReverse then i else seek_pos (Compare c) (ekey es i) (map snd es)"
  let ?turn = "if mg_direction m \<noteq> kReverse
    then map_option (\<lambda>m. m\<lparr>mg_direction := kReverse\<rparr>) (other_children ?j (place_before it (mg_key m)) m)
    else Some m"
  let ?pos = "(behind kss es ?n)(?j := cnt es i ?j)"
  have len: "length (mg_children m) = length kss" using cur(4) by (simp add: placed_def)
  have "\<exists>m1. ?turn = Some m1 \<and> placed it at kss ?pos m1 \<and> mg_direction m1 = kReverse"
  proof (cases "d = kReverse")
    case True
    have pos: "?pos = behind kss es (Suc i)"
      using behind_owner [OF assms(2), of _ kss] behind_other [OF assms(2), of _ kss] True by (intro ext) simp
    show ?thesis unfolding pos using True cur(4,7) by simp
  next
    case False
    have "\<exists>w'. place_before it (mg_key m) (mg_children m ! a) = Some w' \<and> child_at it at (kss ! a) (?pos a) w'"
      if "a < length kss" "a \<noteq> ?j" for a
      using place_before_child [OF P that(1) assms(2) placed_nth [OF cur(4) that(1)]] that(2) False cur(6) by simp
    then obtain m1 where "other_children ?j (place_before it (mg_key m)) m = Some m1" "placed it at kss ?pos m1"
      using other_children_placed [OF len cur(2), of it at ?pos] cur(5) by auto
    then show ?thesis using False cur(7) by (simp add: placed_def)
  qed
  then obtain m1 where m1: "?turn = Some m1" "placed it at kss ?pos m1" "mg_direction m1 = kReverse" by blast
  have n: "?n \<le> length es" "cnt es ?n ?j = cnt es i ?j" using cnt_before [OF P assms(2)] assms(2) by auto
  then have "behind kss es ?n ?j = prev_pos (kss ! ?j) (cnt es i ?j)" by (simp add: behind_def)
  then have "\<exists>w. iw_Prev it (mg_children m1 ! ?j) = Some w \<and> child_at it at (kss ! ?j) (behind kss es ?n ?j) w"
    using child.child_ops(5) [of "kss ! ?j" "cnt es i ?j" "mg_children m1 ! ?j"] placed_nth [OF m1(2) cur(2)]
      cnt_owner(1) [OF P assms(2) HOL.refl] by simp
  then obtain m2 where m2: "current_child ?j (iw_Prev it) m1 = Some m2" "placed it at kss (behind kss es ?n) m2" "mg_direction m2 = kReverse"
    using current_child_placed [OF m1(2) cur(2), of "iw_Prev it" "behind kss es ?n"] m1(3) by auto
  have "state kss es (prev_pos (map snd es) ?n, kReverse) ((FindLargest c m2)\<lparr>mg_direction := kReverse\<rparr>)"
    by (rule FindLargest_placed [OF P m2(2) n(1)])
  moreover have "(FindLargest c m2)\<lparr>mg_direction := kReverse\<rparr> = FindLargest c m2"
    using m2(3) by (simp add: FindLargest_def)
  moreover have "mg_Prev it c m = Some (FindLargest c m2)"
    using m1(1) m2(1) cur(3) unfolding mg_Prev_def by simp
  moreover have "prev_pos (map snd es) ?n =
      (if d = kReverse then prev_pos (map snd es) i else before_key (Compare c) (map snd es) i)"
    using assms(2) by (simp add: before_key_def)
  ultimately show ?thesis by simp
qed

text \<open>What the merging iterator shows, and the simulation of the cursor.\<close>

lemma merge_shows:
  assumes "state kss es (i, d) m"
  shows "shows_entry (MergingIterator it c) (map snd es) i m" "i \<le> length es"
proof -
  show "i \<le> length es" using assms by (simp add: merging_def)
  obtain pos where pl: "placed it at kss pos m" by (rule state_any [OF assms])
  then have "iw_status it w = OK" if "w \<in> set (mg_children m)" for w
    using child.child_status placed_nth [OF pl] that by (fastforce simp: placed_def in_set_conv_nth)
  then have "set (map (iw_status it) (mg_children m)) \<subseteq> {OK}" by auto
  moreover have "set ss \<subseteq> {OK} \<Longrightarrow> first_error OK ss = OK" for ss
    by (induction ss) (auto simp: Status_kinds)
  ultimately have status: "mg_status it m = OK" by (simp add: mg_status_def)
  show "shows_entry (MergingIterator it c) (map snd es) i m"
  proof (cases "i < length es")
    case False
    then show ?thesis using assms status by (auto simp: merging_def shows_entry_def MergingIterator_def mg_Valid_def)
  next
    case True
    note cur = current_entry [OF assms True]
    have "mg_value it m = Some (snd (snd (es ! i)))"
      using child.child_value [OF cur(5)] cnt_owner [OF cur(1) True HOL.refl] cur(3) by (simp add: mg_value_def)
    then show ?thesis
      using True status cur(3,6) by (simp add: shows_entry_def MergingIterator_def mg_Valid_def)
  qed
qed

lemma merge_op:
  assumes "state kss es p m" "merge_cursor_op (Compare c) (map snd es) x p = Some p'" "\<forall>t. x = To t \<longrightarrow> valid t"
  shows "\<exists>m'. iter_do (MergingIterator it c) x m = Some m' \<and> state kss es p' m'"
proof (cases p)
  case (Pair i d)
  show ?thesis
    using assms merge_SeekToFirst [OF assms(1)] merge_SeekToLast [OF assms(1)] merge_Seek [OF assms(1)]
      merge_Next [of kss es i d m] merge_Prev [of kss es i d m]
    by (cases x) (auto simp: Pair MergingIterator_def split: if_splits)
qed

lemma merge_runs:
  assumes "state kss es p m" "runs (merge_cursor_op (Compare c) (map snd es)) xs p = Some p'" "\<forall>t. To t \<in> set xs \<longrightarrow> valid t"
  shows "\<exists>m'. runs (iter_do (MergingIterator it c)) xs m = Some m' \<and> state kss es p' m'"
  using assms
proof (induction xs arbitrary: p m)
  case (Cons x xs)
  then obtain q where q: "merge_cursor_op (Compare c) (map snd es) x p = Some q"
      "runs (merge_cursor_op (Compare c) (map snd es)) xs q = Some p'"
    by (auto simp: bind_eq_Some_conv)
  then obtain m1 where m1: "iter_do (MergingIterator it c) x m = Some m1" "state kss es q m1"
    using merge_op Cons.prems by (metis list.set_intros(1))
  then show ?case using Cons.IH [OF m1(2) q(2)] Cons.prems(3) by simp
qed simp

lemma merge_start:
  assumes "parts c valid es kss" "list_all2 (\<lambda>ks s. \<exists>p. at ks p s) kss children"
  shows "state kss es (length es, kForward) (make_MergingIterator it children)"
proof -
  have "\<exists>p. child_at it at (kss ! a) p (iw_Set it (Some (children ! a)) make_IteratorWrapper)" if "a < length kss" for a
  proof -
    have "\<exists>p. at (kss ! a) p (children ! a)" using assms(2) that by (simp add: list_all2_conv_all_nth)
    then obtain p where "at (kss ! a) p (children ! a)" by blast
    then show ?thesis using child.child_Set by blast
  qed
  then have "\<exists>pos. \<forall>a < length kss. child_at it at (kss ! a) (pos a) (iw_Set it (Some (children ! a)) make_IteratorWrapper)"
    by metis
  then show ?thesis
    using assms by (auto simp: merging_def placed_def make_MergingIterator_def list_all2_conv_all_nth)
qed

text \<open>Without repeated keys: the cursor of the contract.\<close>

definition merge_at :: "entries \<Rightarrow> nat \<Rightarrow> 's merger \<Rightarrow> bool" where
  "merge_at kvs i m \<longleftrightarrow> sorted_entries c valid kvs \<and> (\<exists>kss es d. kvs = map snd es \<and> state kss es (i, d) m)"

lemma distinct_cursor:
  assumes "sorted_entries c valid kvs" "i < length kvs"
  shows "after_key (Compare c) kvs i = i + 1" "before_key (Compare c) kvs i = prev_pos kvs i"
proof -
  have o: "ordered c valid kvs" using assms(1) comparator_axioms by (simp add: ordered_def)
  have le: "Compare c (fst (kvs ! q)) (fst (kvs ! i)) \<le> 0 \<longleftrightarrow> q \<le> i" if "q < length kvs" for q
    using key_less_iff [OF o that assms(2)] by (auto simp: not_less [symmetric])
  show "after_key (Compare c) kvs i = i + 1"
    unfolding after_key_def using assms(2) le by (subst takeWhile_eq_take_P_nth [of "i + 1"]) auto
  have "seek_pos (Compare c) (fst (kvs ! i)) kvs = i"
    by (rule seek_posI) (use assms(2) key_less_iff [OF o] in auto)
  then show "before_key (Compare c) kvs i = prev_pos kvs i" by (simp add: before_key_def)
qed

lemma merge_at_Next:
  assumes "merge_at kvs i m" "i < length kvs"
  shows "\<exists>m'. mg_Next it c m = Some m' \<and> merge_at kvs (i + 1) m'"
proof -
  obtain kss es d where s: "sorted_entries c valid kvs" "kvs = map snd es" "state kss es (i, d) m"
    using assms(1) by (auto simp: merge_at_def)
  have "i < length es" using assms(2) s(2) by simp
  from merge_Next [OF s(3) this] obtain m' where "mg_Next it c m = Some m'" "state kss es (i + 1, kForward) m'"
    using distinct_cursor(1) [OF s(1) assms(2)] s(2) by (auto split: if_splits)
  then show ?thesis using s(1,2) unfolding merge_at_def by blast
qed

lemma merge_at_Prev:
  assumes "merge_at kvs i m" "i < length kvs"
  shows "\<exists>m'. mg_Prev it c m = Some m' \<and> merge_at kvs (prev_pos kvs i) m'"
proof -
  obtain kss es d where s: "sorted_entries c valid kvs" "kvs = map snd es" "state kss es (i, d) m"
    using assms(1) by (auto simp: merge_at_def)
  have "i < length es" using assms(2) s(2) by simp
  from merge_Prev [OF s(3) this] obtain m' where "mg_Prev it c m = Some m'" "state kss es (prev_pos kvs i, kReverse) m'"
    using distinct_cursor(2) [OF s(1) assms(2)] s(2) by (auto split: if_splits)
  then show ?thesis using s(1,2) unfolding merge_at_def by blast
qed

end

sublocale merge_children \<subseteq> merged: iterator_contract "MergingIterator it c" "Compare c" valid merge_at
proof (unfold_locales, goal_cases)
  case (1 kvs i m)
  then show ?case using merge_shows(2) by (auto simp: merge_at_def)
next
  case (2 kvs i m)
  then show ?case using merge_shows(1) by (auto simp: merge_at_def)
next
  case (3 kvs i m)
  then show ?case using merge_SeekToFirst by (fastforce simp: merge_at_def MergingIterator_def)
next
  case (4 kvs i m)
  then show ?case using merge_SeekToLast by (fastforce simp: merge_at_def MergingIterator_def)
next
  case (5 kvs i m target)
  then show ?case using merge_Seek by (fastforce simp: merge_at_def MergingIterator_def)
next
  case (6 kvs i m)
  then show ?case using merge_at_Next by (simp add: MergingIterator_def)
next
  case (7 kvs i m)
  then show ?case using merge_at_Prev by (simp add: MergingIterator_def)
qed

context merge_children begin

lemma merged_contract: "iterator_contract (MergingIterator it c) (Compare c) valid merge_at"
  by (rule merged.iterator_contract_axioms)

end

interpretation merged_blocks: merge_children BytewiseComparator "\<lambda>_. True" "BlockIter BytewiseComparator"
  "block_at BytewiseComparator (\<lambda>_. True)"
  by unfold_locales

section \<open>Properties\<close>

text \<open>
  (C12) A merging iterator over children that meet the contract of iterators, each in strictly
  increasing order, behaves like a cursor with a direction in the merged list of all their
  entries, under every sequence of operations. A key that is present in several children is
  there once for each of them, in the order of the children; when the direction changes at
  such a key, \<open>Next\<close> goes to the first larger key and \<open>Prev\<close> to the last smaller one.
\<close>

theorem merging_iterator_cursor:
  assumes "comparator c valid" "iterator_contract it (Compare c) valid at"
    and "list_all2 (\<lambda>ks s. \<exists>p. at ks p s) kss children" "list_all (sorted_entries c valid) kss"
    and "kvs = map snd (merge_list c kss)"
    and "NewMergingIterator it children = Many start"
    and "\<forall>target. To target \<in> set ops \<longrightarrow> valid target"
    and "runs (merge_cursor_op (Compare c) kvs) ops (length kvs, kForward) = Some (i, d)"
  shows "\<exists>m. runs (iter_do (MergingIterator it c)) ops start = Some m \<and> shows_entry (MergingIterator it c) kvs i m"
proof -
  have mc: "merge_children c valid it at" using assms(1,2) by (rule merge_children.intro)
  have start: "start = make_MergingIterator it children"
    using assms(6) by (auto simp: NewMergingIterator_def split: list.splits)
  have P: "parts c valid (merge_list c kss) kss"
    using assms(1,4) merge_list_order [OF assms(1,4)] by (simp add: parts_def)
  have "merging it c valid at kss (merge_list c kss) (length kvs, kForward) start"
    using merge_children.merge_start [OF mc P assms(3)] start assms(5) by simp
  then obtain m where "runs (iter_do (MergingIterator it c)) ops start = Some m"
      "merging it c valid at kss (merge_list c kss) (i, d) m"
    using merge_children.merge_runs [OF mc] assms(5,7,8) by blast
  then show ?thesis using merge_children.merge_shows(1) [OF mc] assms(5) by blast
qed

text \<open>
  Two blocks that have the key \<open>[3]\<close> both, merged: both copies are seen, but the last
  \<open>Prev\<close>, which turns the direction at the second copy, leaves the first one out.
\<close>

lemma example_blocks:
  "length (fst (BlockBuilder_Finish (build_block 1 [([1], [10]), ([3], [30])]))) = 22"
  "length (fst (BlockBuilder_Finish (build_block 1 [([2], [20]), ([3], [31])]))) = 22"
  "map snd (merge_list BytewiseComparator [[([1], [10]), ([3], [30])], [([2], [20]), ([3], [31])]]) =
     [([1], [10]), ([2], [20]), ([3], [30]), ([3], [31])]"
  by code_simp+

theorem merging_iterator_cursor_witness:
  "\<exists>a b start m.
    Block_NewIterator (make_Block (fst (BlockBuilder_Finish (build_block 1 [([1], [10]), ([3], [30])])))) = Inr a \<and>
    Block_NewIterator (make_Block (fst (BlockBuilder_Finish (build_block 1 [([2], [20]), ([3], [31])])))) = Inr b \<and>
    NewMergingIterator (BlockIter BytewiseComparator) [a, b] = Many start \<and>
    runs (iter_do (MergingIterator (BlockIter BytewiseComparator) BytewiseComparator))
      [Last, Backward, Backward, Forward, Forward, Backward] start = Some m \<and>
    shows_entry (MergingIterator (BlockIter BytewiseComparator) BytewiseComparator)
      [([1], [10]), ([2], [20]), ([3], [30]), ([3], [31])] 1 m"
proof -
  let ?c = "BytewiseComparator" and ?v = "\<lambda>_ :: slice. True"
  let ?ks = "[([1 :: byte], [10 :: byte]), ([3], [30])]" and ?ks' = "[([2 :: byte], [20 :: byte]), ([3], [31])]"
  let ?kvs = "[([1 :: byte], [10 :: byte]), ([2], [20]), ([3], [30]), ([3], [31])]"
  have c: "comparator ?c ?v" by (rule bytewise.comparator_axioms)
  have new: "\<exists>s. Block_NewIterator (make_Block (fst (BlockBuilder_Finish (build_block 1 kvs)))) = Inr s \<and> block_at ?c ?v kvs (length kvs) s"
    if "sorted_entries ?c ?v kvs" "length (fst (BlockBuilder_Finish (build_block 1 kvs))) < 2 ^ 32" for kvs
  proof -
    obtain shs ris where l: "laid_out kvs shs ris"
        "fst (BlockBuilder_Finish (build_block 1 kvs)) = block_bytes kvs shs ris"
      using Finish_bytes [OF built_build_block [of 1 kvs]] by auto
    then show ?thesis using NewIterator_laid_out [OF l(1)] that c by (auto simp: block_at_def)
  qed
  have sorted: "sorted_entries ?c ?v ?ks" "sorted_entries ?c ?v ?ks'"
    by (simp_all add: sorted_entries_def BytewiseComparator_def)
  obtain a where a: "Block_NewIterator (make_Block (fst (BlockBuilder_Finish (build_block 1 ?ks)))) = Inr a"
      "block_at ?c ?v ?ks (length ?ks) a"
    using new [OF sorted(1)] example_blocks(1) by auto
  obtain b where b: "Block_NewIterator (make_Block (fst (BlockBuilder_Finish (build_block 1 ?ks')))) = Inr b"
      "block_at ?c ?v ?ks' (length ?ks') b"
    using new [OF sorted(2)] example_blocks(2) by auto
  have run: "runs (merge_cursor_op (Compare ?c) ?kvs) [Last, Backward, Backward, Forward, Forward, Backward]
      (length ?kvs, kForward) = Some (1, kReverse)"
    by code_simp
  have "list_all2 (\<lambda>ks s. \<exists>p. block_at ?c ?v ks p s) [?ks, ?ks'] [a, b]"
    using a(2) b(2) by blast
  moreover have "list_all (sorted_entries ?c ?v) [?ks, ?ks']"
    using sorted by simp
  ultimately have "\<exists>m. runs (iter_do (MergingIterator (BlockIter ?c) ?c)) [Last, Backward, Backward, Forward, Forward, Backward]
      (make_MergingIterator (BlockIter ?c) [a, b]) = Some m \<and> shows_entry (MergingIterator (BlockIter ?c) ?c) ?kvs 1 m"
    by (intro merging_iterator_cursor [where children = "[a, b]", OF c block_iterator.iterator_contract_axioms _ _ example_blocks(3) [symmetric] _ _ run])
      (simp_all add: NewMergingIterator_def)
  then obtain m where "runs (iter_do (MergingIterator (BlockIter ?c) ?c)) [Last, Backward, Backward, Forward, Forward, Backward]
      (make_MergingIterator (BlockIter ?c) [a, b]) = Some m" "shows_entry (MergingIterator (BlockIter ?c) ?c) ?kvs 1 m"
    by blast
  moreover have "NewMergingIterator (BlockIter ?c) [a, b] = Many (make_MergingIterator (BlockIter ?c) [a, b])"
    by (simp add: NewMergingIterator_def)
  ultimately show ?thesis using a(1) b(1) by blast
qed

end
