(* ===== verification/Ldb_DBIter.thy ===== *)
theory Ldb_DBIter
  imports Ldb_Merger Ldb_SkipList Ldb_Dbformat
begin

text \<open>
  \<^verbatim>\<open>db/db_iter.cc\<close>: the iterator over a database, which combines the entries that an internal
  iterator yields for the same user key, up to a sequence number, into a single one.
\<close>

section \<open>The state\<close>

text \<open>
  The enumeration of directions is the one of the merging iterator. The database only takes
  the keys that are passed to \<open>RecordReadSample\<close>, which decide about compactions in the
  background: the state records these calls in \<open>dbi_samples\<close>. Every call of
  \<open>FindNextUserEntry\<close> passes \<open>saved_key_\<close> as \<open>skip\<close>, so that this field is both. The
  capacities of the strings are not modelled.
\<close>

record 's db_iter =
  dbi_iter :: 's
  dbi_sequence :: u64
  dbi_status :: Status
  dbi_saved_key :: "byte list"
  dbi_saved_value :: "byte list"
  dbi_direction :: Direction
  dbi_valid :: bool
  dbi_rnd :: u32
  dbi_bytes_until_read_sampling :: u64
  dbi_samples :: "slice list"

definition kReadBytesPeriod :: u32 where
  "kReadBytesPeriod = 1048576"

definition Random_Uniform :: "u32 \<Rightarrow> u32 \<Rightarrow> u32 \<times> u32" where
  "Random_Uniform n seed = (let seed = Random_Next seed in (seed mod n, seed))"

definition RandomCompactionPeriod :: "u32 \<Rightarrow> u64 \<times> u32" where
  "RandomCompactionPeriod rnd = (case Random_Uniform (2 * kReadBytesPeriod) rnd of (r, rnd) \<Rightarrow> (ucast r, rnd))"

definition make_DBIter :: "'s \<Rightarrow> u64 \<Rightarrow> u32 \<Rightarrow> 's db_iter" where
  "make_DBIter iter s seed =
     (case RandomCompactionPeriod (make_Random seed) of (period, rnd) \<Rightarrow>
       \<lparr>dbi_iter = iter, dbi_sequence = s, dbi_status = OK, dbi_saved_key = [], dbi_saved_value = [],
        dbi_direction = kForward, dbi_valid = False, dbi_rnd = rnd,
        dbi_bytes_until_read_sampling = period, dbi_samples = []\<rparr>)"

section \<open>Parsing the current key\<close>

partial_function (option) read_sampling :: "slice \<Rightarrow> u64 \<Rightarrow> 's db_iter \<Rightarrow> 's db_iter option" where
  "read_sampling k bytes_read d =
     (if dbi_bytes_until_read_sampling d < bytes_read
      then case RandomCompactionPeriod (dbi_rnd d) of (period, rnd) \<Rightarrow>
        read_sampling k bytes_read
          (d\<lparr>dbi_rnd := rnd,
             dbi_bytes_until_read_sampling := dbi_bytes_until_read_sampling d + period,
             dbi_samples := dbi_samples d @ [k]\<rparr>)
      else Some d)"

definition ParseKey :: "'s iterator \<Rightarrow> 's db_iter \<Rightarrow> (ParsedInternalKey option \<times> 's db_iter) option" where
  "ParseKey it d =
     Option.bind (it_value it (dbi_iter d)) (\<lambda>v.
       let k = it_key it (dbi_iter d); bytes_read = of_nat (length k) + of_nat (length v)
       in Option.bind (read_sampling k bytes_read d) (\<lambda>d.
         let d = d\<lparr>dbi_bytes_until_read_sampling := dbi_bytes_until_read_sampling d - bytes_read\<rparr>
         in case ParseInternalKey k of
              None \<Rightarrow> Some (None, d\<lparr>dbi_status := Corruption (lit ''corrupted internal key in DBIter'')\<rparr>)
            | Some ikey \<Rightarrow> Some (Some ikey, d)))"

section \<open>Moving forward\<close>

text \<open>
  One round of the loop of \<open>FindNextUserEntry\<close> up to \<^verbatim>\<open>iter_->Next()\<close>: whether the entry is
  yielded, and \<open>skipping\<close> and the state after it.
\<close>

definition next_entry ::
  "comparator_t \<Rightarrow> bool \<Rightarrow> ParsedInternalKey option \<Rightarrow> 's db_iter \<Rightarrow> bool \<times> bool \<times> 's db_iter" where
  "next_entry c skipping ikey d =
     (case ikey of
        None \<Rightarrow> (False, skipping, d)
      | Some k \<Rightarrow>
          if pik_sequence k \<le> dbi_sequence d
          then case pik_type k of
                 kTypeDeletion \<Rightarrow> (False, True, d\<lparr>dbi_saved_key := pik_user_key k\<rparr>)
               | kTypeValue \<Rightarrow>
                   if skipping \<and> Compare c (pik_user_key k) (dbi_saved_key d) \<le> 0 then (False, skipping, d)
                   else (True, skipping, d\<lparr>dbi_valid := True, dbi_saved_key := []\<rparr>)
          else (False, skipping, d))"

partial_function (option) FindNextUserEntry ::
  "'s iterator \<Rightarrow> comparator_t \<Rightarrow> bool \<Rightarrow> 's db_iter \<Rightarrow> 's db_iter option" where
  "FindNextUserEntry it c skipping d =
     Option.bind (ParseKey it d) (\<lambda>(ikey, d).
       case next_entry c skipping ikey d of (found, skipping, d) \<Rightarrow>
         if found then Some d
         else Option.bind (it_Next it (dbi_iter d)) (\<lambda>iter.
           if it_Valid it iter then FindNextUserEntry it c skipping (d\<lparr>dbi_iter := iter\<rparr>)
           else Some (d\<lparr>dbi_iter := iter, dbi_saved_key := [], dbi_valid := False\<rparr>)))"

definition dbi_Next :: "'s iterator \<Rightarrow> comparator_t \<Rightarrow> 's db_iter \<Rightarrow> 's db_iter option" where
  "dbi_Next it c d =
     (if \<not> dbi_valid d then None
      else if dbi_direction d = kReverse
      then Option.bind
             (if \<not> it_Valid it (dbi_iter d) then it_SeekToFirst it (dbi_iter d) else it_Next it (dbi_iter d))
             (\<lambda>iter.
               let d = d\<lparr>dbi_direction := kForward, dbi_iter := iter\<rparr>
               in if \<not> it_Valid it iter then Some (d\<lparr>dbi_valid := False, dbi_saved_key := []\<rparr>)
                  else FindNextUserEntry it c True d)
      else FindNextUserEntry it c True (d\<lparr>dbi_saved_key := ExtractUserKey (it_key it (dbi_iter d))\<rparr>))"

section \<open>Moving backward\<close>

text \<open>
  One round of the loop of \<open>FindPrevUserEntry\<close> up to \<^verbatim>\<open>iter_->Prev()\<close>: whether the loop ends
  with \<^verbatim>\<open>break\<close>, and \<open>value_type\<close> and the state after it.
\<close>

definition prev_entry ::
  "'s iterator \<Rightarrow> comparator_t \<Rightarrow> ValueType \<Rightarrow> ParsedInternalKey option \<Rightarrow> 's db_iter \<Rightarrow>
     (bool \<times> ValueType \<times> 's db_iter) option" where
  "prev_entry it c value_type ikey d =
     (case ikey of
        None \<Rightarrow> Some (False, value_type, d)
      | Some k \<Rightarrow>
          if pik_sequence k \<le> dbi_sequence d
          then if value_type \<noteq> kTypeDeletion \<and> Compare c (pik_user_key k) (dbi_saved_key d) < 0
               then Some (True, value_type, d)
               else case pik_type k of
                      kTypeDeletion \<Rightarrow> Some (False, kTypeDeletion, d\<lparr>dbi_saved_key := [], dbi_saved_value := []\<rparr>)
                    | kTypeValue \<Rightarrow>
                        map_option (\<lambda>v. (False, kTypeValue,
                            d\<lparr>dbi_saved_key := ExtractUserKey (it_key it (dbi_iter d)), dbi_saved_value := v\<rparr>))
                          (it_value it (dbi_iter d))
          else Some (False, value_type, d))"

partial_function (option) find_prev_loop ::
  "'s iterator \<Rightarrow> comparator_t \<Rightarrow> ValueType \<Rightarrow> 's db_iter \<Rightarrow> (ValueType \<times> 's db_iter) option" where
  "find_prev_loop it c value_type d =
     Option.bind (ParseKey it d) (\<lambda>(ikey, d).
       Option.bind (prev_entry it c value_type ikey d) (\<lambda>(stop, value_type, d).
         if stop then Some (value_type, d)
         else Option.bind (it_Prev it (dbi_iter d)) (\<lambda>iter.
           if it_Valid it iter then find_prev_loop it c value_type (d\<lparr>dbi_iter := iter\<rparr>)
           else Some (value_type, d\<lparr>dbi_iter := iter\<rparr>))))"

definition FindPrevUserEntry :: "'s iterator \<Rightarrow> comparator_t \<Rightarrow> 's db_iter \<Rightarrow> 's db_iter option" where
  "FindPrevUserEntry it c d =
     map_option (\<lambda>(value_type, d).
         if value_type = kTypeDeletion
         then d\<lparr>dbi_valid := False, dbi_saved_key := [], dbi_saved_value := [], dbi_direction := kForward\<rparr>
         else d\<lparr>dbi_valid := True\<rparr>)
       (if it_Valid it (dbi_iter d) then find_prev_loop it c kTypeDeletion d else Some (kTypeDeletion, d))"

text \<open>
  The loop in \<open>Prev\<close> that moves before the entries of the saved key; the result says
  whether there is an entry before them.
\<close>

partial_function (option) scan_back :: "'s iterator \<Rightarrow> comparator_t \<Rightarrow> 's db_iter \<Rightarrow> (bool \<times> 's db_iter) option" where
  "scan_back it c d =
     Option.bind (it_Prev it (dbi_iter d)) (\<lambda>iter.
       let d = d\<lparr>dbi_iter := iter\<rparr>
       in if \<not> it_Valid it iter
          then Some (False, d\<lparr>dbi_valid := False, dbi_saved_key := [], dbi_saved_value := []\<rparr>)
          else if Compare c (ExtractUserKey (it_key it iter)) (dbi_saved_key d) < 0 then Some (True, d)
          else scan_back it c d)"

definition dbi_Prev :: "'s iterator \<Rightarrow> comparator_t \<Rightarrow> 's db_iter \<Rightarrow> 's db_iter option" where
  "dbi_Prev it c d =
     (if \<not> dbi_valid d then None
      else if dbi_direction d = kForward
      then Option.bind (scan_back it c (d\<lparr>dbi_saved_key := ExtractUserKey (it_key it (dbi_iter d))\<rparr>))
             (\<lambda>(found, d). if found then FindPrevUserEntry it c (d\<lparr>dbi_direction := kReverse\<rparr>) else Some d)
      else FindPrevUserEntry it c d)"

section \<open>Seeking\<close>

definition find_from :: "'s iterator \<Rightarrow> comparator_t \<Rightarrow> 's db_iter \<Rightarrow> 's db_iter option" where
  "find_from it c d =
     (if it_Valid it (dbi_iter d) then FindNextUserEntry it c False d else Some (d\<lparr>dbi_valid := False\<rparr>))"

definition dbi_Seek :: "'s iterator \<Rightarrow> comparator_t \<Rightarrow> slice \<Rightarrow> 's db_iter \<Rightarrow> 's db_iter option" where
  "dbi_Seek it c target d =
     (let key = AppendInternalKey []
            \<lparr>pik_user_key = target, pik_sequence = dbi_sequence d, pik_type = kValueTypeForSeek\<rparr>;
          d = d\<lparr>dbi_direction := kForward, dbi_saved_value := [], dbi_saved_key := key\<rparr>
      in Option.bind (it_Seek it key (dbi_iter d)) (\<lambda>iter. find_from it c (d\<lparr>dbi_iter := iter\<rparr>)))"

definition dbi_SeekToFirst :: "'s iterator \<Rightarrow> comparator_t \<Rightarrow> 's db_iter \<Rightarrow> 's db_iter option" where
  "dbi_SeekToFirst it c d =
     Option.bind (it_SeekToFirst it (dbi_iter d)) (\<lambda>iter.
       find_from it c (d\<lparr>dbi_direction := kForward, dbi_saved_value := [], dbi_iter := iter\<rparr>))"

definition dbi_SeekToLast :: "'s iterator \<Rightarrow> comparator_t \<Rightarrow> 's db_iter \<Rightarrow> 's db_iter option" where
  "dbi_SeekToLast it c d =
     Option.bind (it_SeekToLast it (dbi_iter d)) (\<lambda>iter.
       FindPrevUserEntry it c (d\<lparr>dbi_direction := kReverse, dbi_saved_value := [], dbi_iter := iter\<rparr>))"

section \<open>The iterator\<close>

definition dbi_key :: "'s iterator \<Rightarrow> 's db_iter \<Rightarrow> slice" where
  "dbi_key it d =
     (if dbi_direction d = kForward then ExtractUserKey (it_key it (dbi_iter d)) else dbi_saved_key d)"

definition dbi_value :: "'s iterator \<Rightarrow> 's db_iter \<Rightarrow> slice option" where
  "dbi_value it d = (if dbi_direction d = kForward then it_value it (dbi_iter d) else Some (dbi_saved_value d))"

definition dbi_get_status :: "'s iterator \<Rightarrow> 's db_iter \<Rightarrow> Status" where
  "dbi_get_status it d = (if Status_ok (dbi_status d) then it_status it (dbi_iter d) else dbi_status d)"

definition DBIter :: "'s iterator \<Rightarrow> comparator_t \<Rightarrow> 's db_iter iterator" where
  "DBIter it c =
     \<lparr>it_Valid = dbi_valid, it_SeekToFirst = dbi_SeekToFirst it c, it_SeekToLast = dbi_SeekToLast it c,
      it_Seek = dbi_Seek it c, it_Next = dbi_Next it c, it_Prev = dbi_Prev it c, it_key = dbi_key it,
      it_value = dbi_value it, it_status = dbi_get_status it\<rparr>"

definition NewDBIterator :: "'s \<Rightarrow> u64 \<Rightarrow> u32 \<Rightarrow> 's db_iter" where
  "NewDBIterator internal_iter sequence seed = make_DBIter internal_iter sequence seed"

end
