(* ===== verification/Ldb_DBIter_Spec.thy ===== *)
theory Ldb_DBIter_Spec
  imports Ldb_DBIter Ldb_SkipList_Spec Ldb_Block_Spec
begin

text \<open>
  The iterator over a database shows its view at a sequence number: the entries whose newest
  version, up to that number, is a value, in the order of their user keys. The sampling loop
  of every step returns.
\<close>


section \<open>The sampling of reads\<close>

definition good_seed :: "u32 \<Rightarrow> bool" where
  "good_seed r \<longleftrightarrow> 0 < r \<and> r < 2147483647"

lemma good_Next: "good_seed r \<Longrightarrow> good_seed (Random_Next r)"
  using Random_Next_correct [of r] by (simp add: good_seed_def)

lemma seed_range: "x \<le> 2147483647 \<Longrightarrow> good_seed (if x = 0 \<or> x = 2147483647 then 1 else x)"
  by (simp add: good_seed_def word_gt_0 order.strict_iff_order)

lemma good_make: "good_seed (make_Random s)"
proof -
  have "s AND 0x7fffffff = take_bit 31 s"
    by (simp add: take_bit_eq_mask mask_eq_exp_minus_1 del: take_bit_eq_mask_iff)
  moreover have "unat (take_bit 31 s) < 2147483648"
    using take_bit_nat_less_exp [of 31 "unat s"] by (simp add: unat_take_bit)
  ultimately have "s AND 0x7fffffff \<le> 2147483647" by (simp add: word_le_nat_alt)
  then show ?thesis unfolding make_Random_def Let_def by (rule seed_range)
qed

text \<open>
  A period may be zero, and then the loop only takes one more sample; it is never zero
  twice in a row.
\<close>

lemma dvd_twice:
  fixes a :: nat
  assumes "2 ^ 21 dvd a" "2 ^ 21 dvd a * 16807 mod 2147483647" "0 < a" "a < 2147483647"
  shows False
proof -
  let ?M = "2147483647 :: nat"
  obtain x where a: "a = 2 ^ 21 * x" using assms(1) by (rule dvdE)
  obtain y where b: "a * 16807 mod ?M = 2 ^ 21 * y" using assms(2) by (rule dvdE)
  have x: "0 < x" "x \<le> 1023" using a assms(3,4) by auto
  have "2 ^ 21 * y < ?M" unfolding b [symmetric] by simp
  then have y: "y \<le> 1023" by simp
  have "2 ^ 21 * (x * 16807) mod ?M = 2 ^ 21 * y mod ?M"
    using b a by (metis mod_mod_trivial mult.assoc)
  then have "?M dvd 2 ^ 21 * (x * 16807) - 2 ^ 21 * y"
    using x y by (subst mod_eq_dvd_iff_nat [symmetric]) auto
  then have "?M dvd 2 ^ 21 * (x * 16807 - y)" by (simp only: right_diff_distrib')
  moreover have "coprime ?M (2 ^ 21)" by (simp add: coprime_iff_gcd_eq_1 gcd_non_0_nat)
  ultimately have "?M dvd x * 16807 - y" using coprime_dvd_mult_right_iff by blast
  then have "x * 16807 - y = 0" using x y by (auto dest: dvd_imp_le)
  then show False using x y by simp
qed


text \<open>What the sampling may change, and when it returns.\<close>

definition sampled :: "'s db_iter \<Rightarrow> 's db_iter \<Rightarrow> bool" where
  "sampled d d' \<longleftrightarrow>
     good_seed (dbi_rnd d') \<and>
     d' = d\<lparr>dbi_rnd := dbi_rnd d', dbi_bytes_until_read_sampling := dbi_bytes_until_read_sampling d',
            dbi_samples := dbi_samples d'\<rparr>"

lemma sampledD:
  assumes "sampled d d'"
  shows "good_seed (dbi_rnd d')" "dbi_iter d' = dbi_iter d" "dbi_sequence d' = dbi_sequence d"
    "dbi_status d' = dbi_status d" "dbi_saved_key d' = dbi_saved_key d" "dbi_saved_value d' = dbi_saved_value d"
    "dbi_direction d' = dbi_direction d" "dbi_valid d' = dbi_valid d"
proof -
  have "good_seed (dbi_rnd d')" and d: "d' = d\<lparr>dbi_rnd := dbi_rnd d',
      dbi_bytes_until_read_sampling := dbi_bytes_until_read_sampling d', dbi_samples := dbi_samples d'\<rparr>"
    using assms unfolding sampled_def by blast+
  then show "good_seed (dbi_rnd d')" by simp
  show "dbi_iter d' = dbi_iter d" "dbi_sequence d' = dbi_sequence d"
    "dbi_status d' = dbi_status d" "dbi_saved_key d' = dbi_saved_key d" "dbi_saved_value d' = dbi_saved_value d"
    "dbi_direction d' = dbi_direction d" "dbi_valid d' = dbi_valid d"
    by (subst d, simp)+
qed

definition next_period :: "slice \<Rightarrow> 's db_iter \<Rightarrow> 's db_iter" where
  "next_period k d =
     d\<lparr>dbi_rnd := Random_Next (dbi_rnd d),
       dbi_bytes_until_read_sampling := dbi_bytes_until_read_sampling d + ucast (Random_Next (dbi_rnd d) mod 0x200000),
       dbi_samples := dbi_samples d @ [k]\<rparr>"

lemma read_sampling_step:
  "read_sampling k n d =
     (if dbi_bytes_until_read_sampling d < n then read_sampling k n (next_period k d) else Some d)"
  by (subst read_sampling.simps)
    (simp add: RandomCompactionPeriod_def Random_Uniform_def Let_def kReadBytesPeriod_def next_period_def)

lemma next_period_rest:
  assumes "sampled (next_period k d) d'"
  shows "sampled d d'"
proof -
  note r = sampledD [OF assms]
  show ?thesis
    unfolding sampled_def using r by (intro conjI db_iter.equality) (simp_all add: next_period_def)
qed

lemma unat_ucast_u64: "unat (ucast (x :: u32) :: u64) = unat x"
  using unsigned_less [of x, where ?'a = nat] by (simp add: unsigned_ucast_eq take_bit_nat_eq_self)

lemma period_value:
  assumes "unat (dbi_bytes_until_read_sampling d) < 2 ^ 63"
  shows "unat (dbi_bytes_until_read_sampling (next_period k d)) =
    unat (dbi_bytes_until_read_sampling d) + unat (Random_Next (dbi_rnd d)) mod 2 ^ 21"
proof -
  have m: "unat (Random_Next (dbi_rnd d) mod 0x200000) = unat (Random_Next (dbi_rnd d)) mod 2 ^ 21"
    by (simp add: unat_mod)
  have "unat (Random_Next (dbi_rnd d)) mod 2 ^ 21 < 2 ^ 21" by simp
  then have "unat (dbi_bytes_until_read_sampling d) + unat (Random_Next (dbi_rnd d) mod 0x200000) < 2 ^ 64"
    using assms unfolding m by simp
  then show ?thesis
    unfolding m [symmetric] by (simp add: next_period_def unat_word_ariths unat_ucast_u64)
qed

lemma read_sampling_returns:
  assumes "good_seed (dbi_rnd d)" "unat n < 2 ^ 63"
  shows "\<exists>d'. read_sampling k n d = Some d' \<and> sampled d d'"
  using assms
proof (induction "unat n - unat (dbi_bytes_until_read_sampling d)" arbitrary: d rule: less_induct)
  case less
  let ?b = dbi_bytes_until_read_sampling
  show ?case
  proof (cases "?b d < n")
    case False
    then show ?thesis using less.prems(1) by (subst read_sampling_step) (simp add: sampled_def)
  next
    case more: True
    then have b: "unat (?b d) < unat n" "unat (?b d) < 2 ^ 63"
      using less.prems(2) by (simp_all add: word_less_nat_alt)
    let ?d = "next_period k d"
    have s: "good_seed (dbi_rnd ?d)" using good_Next [OF less.prems(1)] by (simp add: next_period_def)
    note v = period_value [OF b(2), of k]
    have step: "read_sampling k n d = read_sampling k n ?d" using more by (subst read_sampling_step) simp
    show ?thesis
    proof (cases "unat (?b ?d) = unat (?b d)")
      case False
      then have "unat n - unat (?b ?d) < unat n - unat (?b d)" using v b(1) by simp
      from less.hyps [OF this s less.prems(2)] show ?thesis
        using next_period_rest step by auto
    next
      case same: True
      let ?e = "next_period k ?d"
      have zero: "2 ^ 21 dvd unat (Random_Next (dbi_rnd d))" using same v by (simp add: dvd_eq_mod_eq_0)
      have r: "good_seed (Random_Next (dbi_rnd d))" using good_Next [OF less.prems(1)] .
      have "unat (Random_Next (dbi_rnd ?d)) = unat (Random_Next (dbi_rnd d)) * 16807 mod 2147483647"
        using Random_Next_correct [of "Random_Next (dbi_rnd d)"] r by (simp add: good_seed_def next_period_def)
      then have "\<not> 2 ^ 21 dvd unat (Random_Next (dbi_rnd ?d))"
        using dvd_twice [OF zero] r by (auto simp: good_seed_def word_less_nat_alt unat_gt_0)
      then have pos: "unat (Random_Next (dbi_rnd ?d)) mod 2 ^ 21 > 0" by (simp add: dvd_eq_mod_eq_0)
      have more2: "?b ?d < n" using same b(1) by (simp add: word_less_nat_alt)
      have "unat (?b ?e) = unat (?b ?d) + unat (Random_Next (dbi_rnd ?d)) mod 2 ^ 21"
        using period_value [of ?d k] same b(2) by simp
      then have "unat n - unat (?b ?e) < unat n - unat (?b d)" using same pos b(1) by simp
      moreover have "good_seed (dbi_rnd ?e)" using good_Next [OF s] by (simp add: next_period_def)
      ultimately obtain d' where d': "read_sampling k n ?e = Some d'" "sampled ?e d'"
        using less.hyps less.prems(2) by blast
      moreover have "read_sampling k n ?d = read_sampling k n ?e" using more2 by (subst read_sampling_step) simp
      ultimately show ?thesis
        using next_period_rest [OF next_period_rest] step by auto
    qed
  qed
qed


section \<open>The view at a sequence number\<close>

text \<open>
  An internal entry is the newest one of its user key, up to \<open>s\<close>, when no other entry of
  the key with a number up to \<open>s\<close> has a larger tag. The view has those of them that are
  values.
\<close>

definition ikey_of :: "slice \<times> slice \<Rightarrow> ParsedInternalKey" where
  "ikey_of e = the (ParseInternalKey (fst e))"

abbreviation ukey_of :: "slice \<times> slice \<Rightarrow> slice" where
  "ukey_of e \<equiv> ExtractUserKey (fst e)"

definition newest :: "comparator_t \<Rightarrow> u64 \<Rightarrow> entries \<Rightarrow> slice \<times> slice \<Rightarrow> bool" where
  "newest c s es e \<longleftrightarrow>
     pik_sequence (ikey_of e) \<le> s \<and>
     list_all (\<lambda>e'. Compare c (ukey_of e') (ukey_of e) = 0 \<longrightarrow> pik_sequence (ikey_of e') \<le> s \<longrightarrow>
       key_num (fst e') \<le> key_num (fst e)) es"

definition db_view :: "comparator_t \<Rightarrow> u64 \<Rightarrow> entries \<Rightarrow> entries" where
  "db_view c s es =
     map (\<lambda>e. (ukey_of e, snd e)) (filter (\<lambda>e. newest c s es e \<and> pik_type (ikey_of e) = kTypeValue) es)"

definition db_source :: "comparator_t \<Rightarrow> (slice \<Rightarrow> bool) \<Rightarrow> entries \<Rightarrow> bool" where
  "db_source c valid es \<longleftrightarrow>
     sorted_entries (InternalKeyComparator c) (internal_valid valid) es \<and>
     list_all (\<lambda>e. ParseInternalKey (fst e) \<noteq> None \<and> length (fst e) + length (snd e) < 2 ^ 63) es"

text \<open>The same in terms of indices, with the number of entries of the view before an index.\<close>

definition live :: "u64 \<Rightarrow> entries \<Rightarrow> nat \<Rightarrow> bool" where
  "live s es i \<longleftrightarrow> pik_sequence (ikey_of (es ! i)) \<le> s"

definition is_value :: "entries \<Rightarrow> nat \<Rightarrow> bool" where
  "is_value es i \<longleftrightarrow> pik_type (ikey_of (es ! i)) = kTypeValue"

definition shown :: "comparator_t \<Rightarrow> u64 \<Rightarrow> entries \<Rightarrow> nat \<Rightarrow> bool" where
  "shown c s es i \<longleftrightarrow>
     i < length es \<and> live s es i \<and> is_value es i \<and>
     (\<forall>j<i. Compare c (ukey_of (es ! j)) (ukey_of (es ! i)) = 0 \<longrightarrow> \<not> live s es j)"

definition shown_before :: "comparator_t \<Rightarrow> u64 \<Rightarrow> entries \<Rightarrow> nat \<Rightarrow> nat" where
  "shown_before c s es v = length (filter (shown c s es) [0..<v])"

lemma shown_gap:
  assumes "a \<le> b" "\<forall>k. a \<le> k \<and> k < b \<longrightarrow> \<not> shown c s es k"
  shows "shown_before c s es b = shown_before c s es a"
proof -
  have "[0..<b] = [0..<a] @ [a..<b]" using assms(1) upt_add_eq_append [of 0 a "b - a"] by simp
  moreover have "filter (shown c s es) [a..<b] = []" using assms(2) by simp
  ultimately show ?thesis by (simp add: shown_before_def)
qed

lemma shown_next:
  assumes "shown c s es a" "a < b" "\<forall>k. a < k \<and> k < b \<longrightarrow> \<not> shown c s es k"
  shows "shown_before c s es b = shown_before c s es a + 1"
proof -
  have "shown_before c s es b = shown_before c s es (Suc a)"
    by (rule shown_gap) (use assms in auto)
  then show ?thesis using assms(1) by (simp add: shown_before_def)
qed

lemma parsed_key:
  assumes "ParseInternalKey k = Some p"
  shows "pik_user_key p = ExtractUserKey k" "pik_sequence p \<le> kMaxSequenceNumber"
    "key_num k = PackSequenceAndType (pik_sequence p) (pik_type p)"
proof -
  show "pik_user_key p = ExtractUserKey k"
    using assms by (auto simp: ParseInternalKey_def ExtractUserKey_def Let_def split: if_splits)
  have p: "pik_sequence p = drop_bit 8 (key_num k)" "ucast (key_num k AND 0xff) \<le> (1 :: byte)"
    "pik_type p = ValueType_of (ucast (key_num k AND 0xff))"
    using assms unfolding ParseInternalKey_def Let_def key_num_def by (auto split: if_splits)
  have "unat (key_num k) < 2 ^ 64" using unsigned_less [of "key_num k", where ?'a = nat] by simp
  then show "pik_sequence p \<le> kMaxSequenceNumber"
    using p(1) by (simp add: kMaxSequenceNumber_value word_le_nat_alt unat_drop_bit)
  show "key_num k = PackSequenceAndType (pik_sequence p) (pik_type p)"
    using pack_unpack [OF p(2)] p(1,3) by simp
qed

locale db_internal = comparator c valid +
    inner: iterator_contract it "Compare (InternalKeyComparator c)" "internal_valid valid" at
  for c valid and it :: "'s iterator" and at +
  fixes es :: entries and s :: u64
  assumes source: "db_source c valid es" and number: "s \<le> kMaxSequenceNumber"
begin

abbreviation ukey :: "nat \<Rightarrow> slice" where
  "ukey i \<equiv> ukey_of (es ! i)"

lemma valid_ukey: "i < length es \<Longrightarrow> valid (ukey i)"
  using source by (auto simp: db_source_def sorted_entries_def list_all_length internal_valid_def)

lemma internal_order:
  assumes "i < j" "j < length es"
  shows "Compare c (ukey i) (ukey j) < 0 \<or>
    Compare c (ukey i) (ukey j) = 0 \<and> key_num (fst (es ! j)) < key_num (fst (es ! i))"
  using assms source sorted_wrt_nth_less [of "\<lambda>a b. Compare (InternalKeyComparator c) (fst a) (fst b) < 0" es i j]
  by (simp add: db_source_def sorted_entries_def Internal_Compare_cases)

lemma ukey_mono: "i \<le> j \<Longrightarrow> j < length es \<Longrightarrow> Compare c (ukey i) (ukey j) \<le> 0"
  using internal_order [of i j] refl [OF valid_ukey, of i] by (cases "i = j") auto

lemma entry_parsed: "i < length es \<Longrightarrow> ParseInternalKey (fst (es ! i)) = Some (ikey_of (es ! i))"
  using source by (auto simp: db_source_def list_all_length ikey_of_def)

lemma entry_small: "i < length es \<Longrightarrow> length (fst (es ! i)) + length (snd (es ! i)) < 2 ^ 63"
  using source by (auto simp: db_source_def list_all_length)

lemma newest_nth:
  assumes "i < length es"
  shows "newest c s es (es ! i) \<and> is_value es i \<longleftrightarrow> shown c s es i"
proof -
  have "(\<forall>j<length es. Compare c (ukey j) (ukey i) = 0 \<longrightarrow> live s es j \<longrightarrow>
      key_num (fst (es ! j)) \<le> key_num (fst (es ! i))) \<longleftrightarrow>
      (\<forall>j<i. Compare c (ukey j) (ukey i) = 0 \<longrightarrow> \<not> live s es j)" (is "?L \<longleftrightarrow> ?R")
  proof
    assume L: ?L
    show ?R
    proof (intro allI impI notI)
      fix j assume j: "j < i" "Compare c (ukey j) (ukey i) = 0" "live s es j"
      then have "key_num (fst (es ! j)) \<le> key_num (fst (es ! i))" using L assms by simp
      then show False using internal_order [OF j(1) assms] j(2) by auto
    qed
  next
    assume ?R
    have "key_num (fst (es ! j)) \<le> key_num (fst (es ! i))"
      if "j < length es" "Compare c (ukey j) (ukey i) = 0" "live s es j" for j
    proof (cases "i < j")
      case True
      then have "Compare c (ukey i) (ukey j) = 0" using that sym_eq valid_ukey assms by blast
      then show ?thesis using internal_order [OF True that(1)] by auto
    next
      case False
      then have "i = j" using that \<open>?R\<close> by (auto simp: not_less le_less)
      then show ?thesis by simp
    qed
    then show ?L by blast
  qed
  then show ?thesis
    using assms by (auto simp: newest_def shown_def live_def is_value_def list_all_length)
qed

lemma view_nth: "db_view c s es = map (\<lambda>i. (ukey i, snd (es ! i))) (filter (shown c s es) [0..<length es])"
proof -
  have "filter (\<lambda>e. newest c s es e \<and> pik_type (ikey_of e) = kTypeValue) es =
      map (nth es) (filter (\<lambda>i. newest c s es (es ! i) \<and> pik_type (ikey_of (es ! i)) = kTypeValue) [0..<length es])"
    by (subst (1) map_nth [of es, symmetric]) (simp add: filter_map comp_def)
  also have "\<dots> = map (nth es) (filter (shown c s es) [0..<length es])"
    using newest_nth by (intro arg_cong [where f = "map (nth es)"] filter_cong refl) (auto simp: is_value_def)
  finally show ?thesis by (simp add: db_view_def comp_def)
qed

lemma shown_less: "shown c s es i \<Longrightarrow> i < length es"
  by (simp add: shown_def)

lemma view_length: "shown_before c s es (length es) = length (db_view c s es)"
  by (simp add: view_nth shown_before_def)

lemma view_split: "v \<le> length es \<Longrightarrow> db_view c s es =
    map (\<lambda>i. (ukey i, snd (es ! i))) (filter (shown c s es) [0..<v]) @
    map (\<lambda>i. (ukey i, snd (es ! i))) (filter (shown c s es) [v..<length es])"
  using upt_add_eq_append [of 0 v "length es - v"] by (simp add: view_nth)

lemma view_at:
  assumes "shown c s es v"
  shows "shown_before c s es v < length (db_view c s es)"
    and "db_view c s es ! shown_before c s es v = (ukey v, snd (es ! v))"
  using view_split [of v] shown_less [OF assms] assms
  by (auto simp: shown_before_def nth_append upt_conv_Cons)

lemma view_before:
  assumes "j < shown_before c s es v" "v \<le> length es"
  shows "\<exists>k<v. shown c s es k \<and> db_view c s es ! j = (ukey k, snd (es ! k))"
proof -
  let ?xs = "filter (shown c s es) [0..<v]"
  have j: "j < length ?xs" using assms(1) by (simp add: shown_before_def)
  then have "?xs ! j \<in> set ?xs" by (rule nth_mem)
  then show ?thesis using j view_split [OF assms(2)] by (intro exI [of _ "?xs ! j"]) (auto simp: nth_append)
qed


end

section \<open>The loops\<close>

definition db_ok :: "u64 \<Rightarrow> 's db_iter \<Rightarrow> bool" where
  "db_ok s d \<longleftrightarrow> dbi_sequence d = s \<and> dbi_status d = OK \<and> good_seed (dbi_rnd d)"

context db_internal begin

lemma inner_entry: "at es i t \<Longrightarrow> i < length es \<Longrightarrow>
    it_Valid it t \<and> it_key it t = fst (es ! i) \<and> it_value it t = Some (snd (es ! i))"
  using inner.at_shows [of es i t] by (simp add: shows_entry_def)

lemma inner_valid: "at es i t \<Longrightarrow> it_Valid it t \<longleftrightarrow> i < length es"
  using inner.at_shows [of es i t] by (auto simp: shows_entry_def split: if_splits)

lemma ParseKey_ok:
  assumes "at es i (dbi_iter d)" "i < length es" "good_seed (dbi_rnd d)"
  shows "\<exists>d'. ParseKey it d = Some (Some (ikey_of (es ! i)), d') \<and> sampled d d'"
proof -
  let ?k = "fst (es ! i)" and ?v = "snd (es ! i)"
  let ?n = "of_nat (length ?k) + of_nat (length ?v) :: u64"
  have "unat ?n = length ?k + length ?v"
    using entry_small [OF assms(2)] unat_of_nat_small [of "length ?k + length ?v", where ?'a = 64] by simp
  then have "unat ?n < 2 ^ 63" using entry_small [OF assms(2)] by simp
  from read_sampling_returns [OF assms(3) this, of ?k]
  obtain d1 where d1: "read_sampling ?k ?n d = Some d1" "sampled d d1" by blast
  let ?d = "d1\<lparr>dbi_bytes_until_read_sampling := dbi_bytes_until_read_sampling d1 - ?n\<rparr>"
  note r = sampledD [OF d1(2)]
  have "sampled d ?d"
    unfolding sampled_def using r by (intro conjI db_iter.equality) simp_all
  moreover have "ParseKey it d = Some (Some (ikey_of (es ! i)), ?d)"
    using inner_entry [OF assms(1,2)] entry_parsed [OF assms(2)] d1(1) by (simp add: ParseKey_def Let_def)
  ultimately show ?thesis by blast
qed

lemma ikey_parts: "i < length es \<Longrightarrow> pik_user_key (ikey_of (es ! i)) = ukey i"
  using parsed_key(1) [OF entry_parsed] .

text \<open>
  \<open>passed skip k i\<close>: the loop of \<open>FindNextUserEntry\<close> may go on at \<open>i\<close>, since the entries
  that older ones hide are those it skips. \<open>lands\<close> says where it stops.
\<close>

definition passed :: "bool \<Rightarrow> slice \<Rightarrow> nat \<Rightarrow> bool" where
  "passed skipping skip i \<longleftrightarrow>
     (\<forall>k' k. k' < i \<and> i \<le> k \<and> k < length es \<and> Compare c (ukey k') (ukey k) = 0 \<and> live s es k' \<longrightarrow>
       skipping \<and> Compare c (ukey k) skip \<le> 0) \<and>
     (skipping \<longrightarrow> valid skip \<and> (\<forall>k. i \<le> k \<and> k < length es \<and> live s es k \<longrightarrow> Compare c (ukey k) skip \<ge> 0))"

definition lands :: "bool \<Rightarrow> slice \<Rightarrow> nat \<Rightarrow> nat \<Rightarrow> bool" where
  "lands skipping skip i w \<longleftrightarrow>
     i \<le> w \<and> w \<le> length es \<and>
     (w < length es \<longrightarrow> shown c s es w \<and> \<not> (skipping \<and> Compare c (ukey w) skip \<le> 0)) \<and>
     (\<forall>k. i \<le> k \<and> k < w \<and> shown c s es k \<longrightarrow> skipping \<and> Compare c (ukey k) skip \<le> 0)"

lemma passedI:
  assumes "\<And>k' k. k' < i \<Longrightarrow> i \<le> k \<Longrightarrow> k < length es \<Longrightarrow> Compare c (ukey k') (ukey k) = 0 \<Longrightarrow> live s es k' \<Longrightarrow>
      skipping \<and> Compare c (ukey k) skip \<le> 0"
    and "skipping \<Longrightarrow> valid skip"
    and "\<And>k. skipping \<Longrightarrow> i \<le> k \<Longrightarrow> k < length es \<Longrightarrow> live s es k \<Longrightarrow> Compare c (ukey k) skip \<ge> 0"
  shows "passed skipping skip i"
  using assms unfolding passed_def by blast

lemma passedD:
  assumes "passed skipping skip i"
  shows "k' < i \<Longrightarrow> i \<le> k \<Longrightarrow> k < length es \<Longrightarrow> Compare c (ukey k') (ukey k) = 0 \<Longrightarrow> live s es k' \<Longrightarrow>
      skipping \<and> Compare c (ukey k) skip \<le> 0"
    and "skipping \<Longrightarrow> valid skip"
    and "skipping \<Longrightarrow> i \<le> k \<Longrightarrow> k < length es \<Longrightarrow> live s es k \<Longrightarrow> Compare c (ukey k) skip \<ge> 0"
  using assms unfolding passed_def by blast+

lemma ukey_trans: "i < length es \<Longrightarrow> j < length es \<Longrightarrow> valid x \<Longrightarrow> Compare c (ukey i) (ukey j) \<le> 0 \<Longrightarrow>
    Compare c (ukey j) x \<le> 0 \<Longrightarrow> Compare c (ukey i) x \<le> 0"
  using trans [OF valid_ukey valid_ukey, of i j x] by blast

lemma ukey_eq_sym: "i < length es \<Longrightarrow> j < length es \<Longrightarrow> Compare c (ukey i) (ukey j) = 0 \<Longrightarrow> Compare c (ukey j) (ukey i) = 0"
  using sym_eq [OF valid_ukey valid_ukey] by blast

lemma ukey_ge: "i \<le> k \<Longrightarrow> k < length es \<Longrightarrow> Compare c (ukey k) (ukey i) \<ge> 0"
  using ukey_mono [of i k] sym_le [OF valid_ukey valid_ukey, of i k] by simp

lemma lands_later:
  assumes "lands skipping skip (Suc i) w" "shown c s es i \<longrightarrow> skipping \<and> Compare c (ukey i) skip \<le> 0"
  shows "lands skipping skip i w"
proof -
  have "skipping \<and> Compare c (ukey k) skip \<le> 0" if "i \<le> k \<and> k < w \<and> shown c s es k" for k
  proof (cases "k = i")
    case False
    then have "Suc i \<le> k" using that by simp
    then show ?thesis using assms(1) that unfolding lands_def by blast
  qed (use assms(2) that in blast)
  then show ?thesis using assms(1) unfolding lands_def by (metis Suc_leD)
qed

lemma pass_dead:
  assumes "passed skipping skip i" "\<not> live s es i"
  shows "passed skipping skip (Suc i)" "lands skipping skip (Suc i) w \<Longrightarrow> lands skipping skip i w"
proof -
  show "passed skipping skip (Suc i)"
  proof (rule passedI)
    fix k' k assume "k' < Suc i" "Suc i \<le> k" "k < length es" "Compare c (ukey k') (ukey k) = 0" "live s es k'"
    then show "skipping \<and> Compare c (ukey k) skip \<le> 0"
      using passedD(1) [OF assms(1), of k' k] assms(2) by (cases "k' = i") auto
  qed (use passedD [OF assms(1)] in auto)
  show "lands skipping skip i w" if "lands skipping skip (Suc i) w"
    using that by (rule lands_later) (use assms(2) in \<open>simp add: shown_def\<close>)
qed

lemma pass_deleted:
  assumes p: "passed skipping skip i" and i: "i < length es" "live s es i" "\<not> is_value es i"
  shows "passed True (ukey i) (Suc i)" "lands True (ukey i) (Suc i) w \<Longrightarrow> lands skipping skip i w"
proof -
  note above = ukey_ge [of i]
  show "passed True (ukey i) (Suc i)"
  proof (rule passedI)
    fix k' k assume k: "k' < Suc i" "Suc i \<le> k" "k < length es" "Compare c (ukey k') (ukey k) = 0"
    then have "Compare c (ukey k) (ukey k') \<le> 0" "Compare c (ukey k') (ukey i) \<le> 0"
      using ukey_eq_sym [of k' k] ukey_mono [of k' i] i(1) by auto
    then show "True \<and> Compare c (ukey k) (ukey i) \<le> 0"
      using ukey_trans [of k k' "ukey i"] k valid_ukey i(1) by simp
  qed (use above valid_ukey i(1) in auto)
  assume w: "lands True (ukey i) (Suc i) w"
  have not: "\<not> shown c s es i" using i(3) by (simp add: shown_def)
  have hidden: "\<not> shown c s es k" if k: "Suc i \<le> k" "k < w" for k
  proof
    assume sh: "shown c s es k"
    then have "Compare c (ukey k) (ukey i) \<le> 0" using w k by (auto simp: lands_def)
    then have "Compare c (ukey k) (ukey i) = 0" using above [of k] k shown_less [OF sh] by simp
    then have "Compare c (ukey i) (ukey k) = 0" using ukey_eq_sym i(1) shown_less [OF sh] by blast
    then show False using sh i(2) k by (auto simp: shown_def)
  qed
  have "\<not> (skipping \<and> Compare c (ukey w) skip \<le> 0)" if "w < length es"
  proof
    assume sk: "skipping \<and> Compare c (ukey w) skip \<le> 0"
    then have v: "valid skip" "Compare c (ukey i) skip \<ge> 0" using passedD(2,3) [OF p] i by auto
    then have "Compare c skip (ukey i) \<le> 0" using sym_le [OF v(1) valid_ukey [OF i(1)]] by simp
    then have "Compare c (ukey w) (ukey i) \<le> 0"
      using trans [OF valid_ukey [OF that] v(1) valid_ukey [OF i(1)]] sk by blast
    then show False using w that by (simp add: lands_def)
  qed
  moreover have "\<not> shown c s es k" if "i \<le> k" "k < w" for k
    using not hidden that by (cases "k = i") auto
  ultimately show "lands skipping skip i w"
    using w unfolding lands_def by (metis Suc_leD)
qed

lemma pass_hidden:
  assumes p: "passed skipping skip i" and i: "i < length es" "live s es i" "skipping" "Compare c (ukey i) skip \<le> 0"
  shows "passed skipping skip (Suc i)" "lands skipping skip (Suc i) w \<Longrightarrow> lands skipping skip i w"
proof -
  show "passed skipping skip (Suc i)"
  proof (rule passedI)
    fix k' k assume k: "k' < Suc i" "Suc i \<le> k" "k < length es" "Compare c (ukey k') (ukey k) = 0" "live s es k'"
    show "skipping \<and> Compare c (ukey k) skip \<le> 0"
    proof (cases "k' = i")
      case True
      then have "Compare c (ukey k) (ukey i) \<le> 0" using ukey_eq_sym [OF i(1) k(3)] k(4) by simp
      then show ?thesis using ukey_trans [OF k(3) i(1) passedD(2) [OF p i(3)]] i(3,4) by blast
    next
      case False
      then show ?thesis using passedD(1) [OF p, of k' k] k by auto
    qed
  qed (use passedD [OF p] in auto)
  show "lands skipping skip i w" if "lands skipping skip (Suc i) w"
    using that by (rule lands_later) (use i in simp)
qed

lemma pass_found:
  assumes p: "passed skipping skip i" and i: "i < length es" "live s es i" "is_value es i"
    "\<not> (skipping \<and> Compare c (ukey i) skip \<le> 0)"
  shows "lands skipping skip i i"
proof -
  have "shown c s es i" using p i by (auto simp: shown_def passed_def)
  then show ?thesis using i by (auto simp: lands_def)
qed

text \<open>The loop of \<open>FindNextUserEntry\<close>.\<close>

lemma find_next:
  assumes "db_ok s d" "at es i (dbi_iter d)" "i < length es" "passed skipping (dbi_saved_key d) i"
  shows "\<exists>d' w. FindNextUserEntry it c skipping d = Some d' \<and> db_ok s d' \<and> dbi_direction d' = dbi_direction d \<and>
    at es w (dbi_iter d') \<and> lands skipping (dbi_saved_key d) i w \<and> (dbi_valid d' \<longleftrightarrow> w < length es)"
  using assms
proof (induction "length es - i" arbitrary: i d skipping rule: less_induct)
  case less
  let ?k = "ikey_of (es ! i)" and ?skip = "dbi_saved_key d"
  obtain d1 where d1: "ParseKey it d = Some (Some ?k, d1)" "sampled d d1"
    using ParseKey_ok [OF less.prems(2,3)] less.prems(1) by (auto simp: db_ok_def)
  note r = sampledD [OF d1(2)]
  have ok1: "db_ok s d1" using less.prems(1) r by (simp add: db_ok_def)
  have seq: "pik_sequence ?k \<le> dbi_sequence d1 \<longleftrightarrow> live s es i" "pik_user_key ?k = ukey i"
    using ok1 ikey_parts [OF less.prems(3)] by (simp_all add: db_ok_def live_def)
  have go_on: "?case"
    if step: "next_entry c skipping (Some ?k) d1 = (False, sk2, d2)"
      and d2: "d2 = d1\<lparr>dbi_saved_key := key2\<rparr>" and p2: "passed sk2 key2 (Suc i)"
      and bk: "\<forall>w. lands sk2 key2 (Suc i) w \<longrightarrow> lands skipping ?skip i w" for sk2 d2 key2
  proof -
    obtain t where t: "it_Next it (dbi_iter d) = Some t" "at es (Suc i) t"
      using inner.at_next [OF less.prems(2,3)] by auto
    have unfold: "FindNextUserEntry it c skipping d =
        (if it_Valid it t then FindNextUserEntry it c sk2 (d2\<lparr>dbi_iter := t\<rparr>)
         else Some (d2\<lparr>dbi_iter := t, dbi_saved_key := [], dbi_valid := False\<rparr>))"
      using t(1) r(2) by (subst FindNextUserEntry.simps) (simp add: d1(1) step d2)
    show ?thesis
    proof (cases "Suc i < length es")
      case True
      let ?d = "d2\<lparr>dbi_iter := t\<rparr>"
      have "db_ok s ?d" "at es (Suc i) (dbi_iter ?d)" "passed sk2 (dbi_saved_key ?d) (Suc i)"
        "length es - Suc i < length es - i"
        using ok1 t(2) p2 True by (simp_all add: db_ok_def d2)
      from less.hyps [OF this(4,1,2) True this(3)] show ?thesis
        using unfold inner_valid [OF t(2)] True bk r(7) by (auto simp: d2)
    next
      case False
      then have "lands sk2 key2 (Suc i) (length es)" using less.prems(3) by (auto simp: lands_def)
      then have "lands skipping ?skip i (length es)" using bk by blast
      moreover have "Suc i = length es" using False less.prems(3) by simp
      ultimately show ?thesis
        using unfold inner_valid [OF t(2)] t(2) ok1 r(7) by (auto simp: d2 db_ok_def)
    qed
  qed
  show ?case
  proof (cases "live s es i")
    case False
    show ?thesis
      by (rule go_on [where ?key2.0 = ?skip, OF _ _ pass_dead(1) [OF less.prems(4) False]])
        (use seq False r pass_dead(2) [OF less.prems(4) False] in \<open>auto simp: next_entry_def\<close>)
  next
    case live: True
    show ?thesis
    proof (cases "is_value es i")
      case False
      then have ty: "pik_type ?k = kTypeDeletion" by (cases "pik_type ?k") (auto simp: is_value_def)
      show ?thesis
        by (rule go_on [where ?key2.0 = "ukey i", OF _ _ pass_deleted(1) [OF less.prems(4,3) live False]])
          (use seq live ty pass_deleted(2) [OF less.prems(4,3) live False] in \<open>auto simp: next_entry_def\<close>)
    next
      case isv: True
      then have ty: "pik_type ?k = kTypeValue" by (simp add: is_value_def)
      show ?thesis
      proof (cases "skipping \<and> Compare c (ukey i) ?skip \<le> 0")
        case True
        then have h: "skipping" "Compare c (ukey i) ?skip \<le> 0" by blast+
        show ?thesis
          by (rule go_on [where ?key2.0 = ?skip, OF _ _ pass_hidden(1) [OF less.prems(4,3) live h]])
            (use seq live ty r h pass_hidden(2) [OF less.prems(4,3) live h] in \<open>auto simp: next_entry_def\<close>)
      next
        case False
        have "next_entry c skipping (Some ?k) d1 = (True, skipping, d1\<lparr>dbi_valid := True, dbi_saved_key := []\<rparr>)"
          using seq live ty r(5) False by (auto simp: next_entry_def)
        then have "FindNextUserEntry it c skipping d = Some (d1\<lparr>dbi_valid := True, dbi_saved_key := []\<rparr>)"
          by (subst FindNextUserEntry.simps) (simp add: d1(1))
        then show ?thesis
          using pass_found [OF less.prems(4,3) live isv False] ok1 r less.prems(2,3)
          by (intro exI [of _ "d1\<lparr>dbi_valid := True, dbi_saved_key := []\<rparr>"] exI [of _ i]) (simp add: db_ok_def)
      qed
    qed
  qed
qed

text \<open>
  The loop of \<open>FindPrevUserEntry\<close> examines the entries below \<open>b\<close> from the last one to \<open>i\<close>:
  it keeps the only one that may be shown so far.
\<close>

definition kept :: "ValueType \<Rightarrow> 's db_iter \<Rightarrow> nat \<Rightarrow> nat \<Rightarrow> nat \<Rightarrow> bool" where
  "kept t d i v b \<longleftrightarrow>
     (if t = kTypeDeletion then \<forall>k. i \<le> k \<and> k < b \<longrightarrow> \<not> shown c s es k
      else i \<le> v \<and> v < b \<and> v < length es \<and> live s es v \<and> is_value es v \<and> dbi_saved_key d = ukey v \<and>
        dbi_saved_value d = snd (es ! v) \<and>
        (\<forall>k. i \<le> k \<and> k < v \<longrightarrow> \<not> live s es k) \<and> (\<forall>k. v < k \<and> k < b \<longrightarrow> \<not> shown c s es k))"

definition stops_before :: "nat \<Rightarrow> nat \<Rightarrow> bool" where
  "stops_before j v \<longleftrightarrow>
     (if j < length es then j < v \<and> Compare c (ukey j) (ukey v) < 0 \<and> (\<forall>k. j < k \<and> k < v \<longrightarrow> \<not> live s es k)
      else \<forall>k<v. \<not> live s es k)"

lemma kept_dead:
  assumes k: "kept t d (Suc i) v b" and n: "\<not> live s es i"
  shows "kept t d i v b"
proof (cases "t = kTypeDeletion")
  case True
  have "\<not> shown c s es q" if "i \<le> q" "q < b" for q
    using k n True that by (cases "q = i") (auto simp: kept_def shown_def)
  then show ?thesis using True by (simp add: kept_def)
next
  case False
  then have v: "Suc i \<le> v" "\<forall>q. Suc i \<le> q \<and> q < v \<longrightarrow> \<not> live s es q" using k by (auto simp: kept_def)
  have "\<not> live s es q" if "i \<le> q" "q < v" for q
    using v n that by (cases "q = i") auto
  then show ?thesis using k False v(1) by (auto simp: kept_def)
qed

lemma kept_live:
  assumes k: "kept t d (Suc i) v b" and i: "live s es i" "i < length es"
    and go: "t = kTypeDeletion \<or> \<not> Compare c (ukey i) (dbi_saved_key d) < 0"
  shows "\<forall>k. i < k \<and> k < b \<longrightarrow> \<not> shown c s es k"
proof (cases "t = kTypeDeletion")
  case True
  then show ?thesis using k by (auto simp: kept_def)
next
  case False
  have v: "i < v" "v < length es" "dbi_saved_key d = ukey v" "\<forall>k. Suc i \<le> k \<and> k < v \<longrightarrow> \<not> live s es k"
      "\<forall>k. v < k \<and> k < b \<longrightarrow> \<not> shown c s es k"
    using k False by (auto simp: kept_def)
  have "Compare c (ukey i) (ukey v) = 0" using ukey_mono [of i v] v go False by auto
  then have "\<not> shown c s es v" using i v(1) by (auto simp: shown_def)
  moreover have "\<not> shown c s es k" if "i < k" "k < v" for k
    using v(4) that by (auto simp: shown_def)
  ultimately show ?thesis using v(5) by (metis linorder_neqE_nat)
qed

lemma kept_deletion:
  assumes "\<forall>k. i < k \<and> k < b \<longrightarrow> \<not> shown c s es k" "\<not> is_value es i"
  shows "kept kTypeDeletion d i v b"
proof -
  have "\<not> shown c s es k" if "i \<le> k" "k < b" for k
    using assms that by (cases "k = i") (auto simp: shown_def)
  then show ?thesis by (simp add: kept_def)
qed

lemma kept_value:
  assumes "\<forall>k. i < k \<and> k < b \<longrightarrow> \<not> shown c s es k" "is_value es i" "live s es i" "i < b" "i < length es"
    "dbi_saved_key d = ukey i" "dbi_saved_value d = snd (es ! i)"
  shows "kept kTypeValue d i i b"
  using assms by (auto simp: kept_def)

lemma kept_same:
  "kept t d i v b \<Longrightarrow> dbi_saved_key d' = dbi_saved_key d \<Longrightarrow> dbi_saved_value d' = dbi_saved_value d \<Longrightarrow> kept t d' i v b"
  by (simp add: kept_def)

text \<open>What is kept is shown once nothing of its key can precede it.\<close>

lemma kept_shown:
  assumes "kept kTypeValue d e v b" "j < length es \<and> e = Suc j \<and> Compare c (ukey j) (ukey v) < 0 \<or> j = length es \<and> e = 0"
  shows "shown c s es v \<and> stops_before j v"
proof -
  have v: "e \<le> v" "v < length es" "live s es v" "is_value es v" "\<forall>k. e \<le> k \<and> k < v \<longrightarrow> \<not> live s es k"
    using assms(1) by (simp_all add: kept_def)
  have "\<not> live s es k" if k: "k < v" "Compare c (ukey k) (ukey v) = 0" for k
  proof (cases "e \<le> k")
    case False
    then have j: "k \<le> j" "j < length es" "Compare c (ukey j) (ukey v) < 0" using assms(2) by auto
    then have "Compare c (ukey k) (ukey v) < 0"
      using less_trans [OF valid_ukey valid_ukey valid_ukey, of k j v] ukey_mono [of k j] v(2) by simp
    then show ?thesis using k by simp
  qed (use v k in blast)
  then have "shown c s es v" using v by (simp add: shown_def)
  moreover have "stops_before j v" using assms(2) v(1,5) by (auto simp: stops_before_def)
  ultimately show ?thesis ..
qed

lemma find_prev_loop_ok:
  assumes "db_ok s d" "at es i (dbi_iter d)" "i < length es" "i < b" "kept t d (Suc i) v b"
  shows "\<exists>t' d' v' j e. find_prev_loop it c t d = Some (t', d') \<and> db_ok s d' \<and> dbi_direction d' = dbi_direction d \<and>
    at es j (dbi_iter d') \<and> kept t' d' e v' b \<and>
    (j < length es \<and> e = Suc j \<and> t' = kTypeValue \<and> Compare c (ukey j) (ukey v') < 0 \<or> j = length es \<and> e = 0)"
  using assms
proof (induction i arbitrary: d t v rule: less_induct)
  case (less i)
  let ?k = "ikey_of (es ! i)"
  obtain d1 where d1: "ParseKey it d = Some (Some ?k, d1)" "sampled d d1"
    using ParseKey_ok [OF less.prems(2,3)] less.prems(1) by (auto simp: db_ok_def)
  note r = sampledD [OF d1(2)]
  have ok1: "db_ok s d1" using less.prems(1) r by (simp add: db_ok_def)
  have seq: "pik_sequence ?k \<le> dbi_sequence d1 \<longleftrightarrow> live s es i" "pik_user_key ?k = ukey i"
    using ok1 ikey_parts [OF less.prems(3)] by (simp_all add: db_ok_def live_def)
  have entry: "it_key it (dbi_iter d1) = fst (es ! i)" "it_value it (dbi_iter d1) = Some (snd (es ! i))"
    using inner_entry [OF less.prems(2,3)] r by simp_all
  have kept1: "kept t d1 (Suc i) v b" using less.prems(5) r by (simp add: kept_def)
  have go_on: "?case"
    if step: "prev_entry it c t (Some ?k) d1 = Some (False, t2, d2)"
      and d2: "d2 = d1\<lparr>dbi_saved_key := key2, dbi_saved_value := val2\<rparr>" and k2: "kept t2 d2 i v2 b" for t2 d2 key2 val2 v2
  proof -
    obtain u where u: "it_Prev it (dbi_iter d) = Some u" "at es (prev_pos es i) u"
      using inner.at_prev [OF less.prems(2,3)] by auto
    have unfold: "find_prev_loop it c t d =
        (if it_Valid it u then find_prev_loop it c t2 (d2\<lparr>dbi_iter := u\<rparr>) else Some (t2, d2\<lparr>dbi_iter := u\<rparr>))"
      using u(1) r(2) by (subst find_prev_loop.simps) (simp add: d1(1) step d2)
    show ?thesis
    proof (cases i)
      case 0
      then have "at es (length es) u" using u(2) by (simp add: prev_pos_def)
      moreover have "kept t2 (d2\<lparr>dbi_iter := u\<rparr>) 0 v2 b" using k2 0 by (simp add: kept_def)
      ultimately show ?thesis
        using unfold inner_valid [of "length es" u] ok1 r(7) by (auto simp: d2 db_ok_def)
    next
      case (Suc m)
      let ?d = "d2\<lparr>dbi_iter := u\<rparr>"
      have m: "at es m (dbi_iter ?d)" "m < length es" "m < b" "m < i"
        using u(2) less.prems(3,4) by (simp_all add: Suc prev_pos_def)
      have k3: "kept t2 ?d (Suc m) v2 b" by (rule kept_same [OF k2 [unfolded Suc]]) simp_all
      have ok3: "db_ok s ?d" using ok1 by (simp add: db_ok_def d2)
      from less.IH [OF m(4) ok3 m(1,2,3) k3] show ?thesis
        using unfold inner_valid [of m u] m(1,2) r(7) by (simp add: d2)
    qed
  qed
  show ?case
  proof (cases "live s es i")
    case False
    show ?thesis
      by (rule go_on [where ?key2.0 = "dbi_saved_key d1" and ?val2.0 = "dbi_saved_value d1", OF _ _ kept_dead [OF kept1 False]])
        (use seq False in \<open>simp_all add: prev_entry_def\<close>)
  next
    case live: True
    show ?thesis
    proof (cases "t \<noteq> kTypeDeletion \<and> Compare c (ukey i) (dbi_saved_key d1) < 0")
      case True
      then have "find_prev_loop it c t d = Some (t, d1)"
        using seq live by (subst find_prev_loop.simps) (simp add: d1(1) prev_entry_def)
      moreover have "t = kTypeValue" "Compare c (ukey i) (ukey v) < 0"
        using True kept1 by (cases t; simp add: kept_def)+
      ultimately show ?thesis
        using ok1 r less.prems(2,3) kept1 by (intro exI [of _ t] exI [of _ d1] exI [of _ v] exI [of _ i] exI [of _ "Suc i"]) simp
    next
      case False
      then have sh: "\<forall>k. i < k \<and> k < b \<longrightarrow> \<not> shown c s es k"
        by (intro kept_live [OF kept1 live less.prems(3)]) blast
      show ?thesis
      proof (cases "is_value es i")
        case False
        then have ty: "pik_type ?k = kTypeDeletion" by (cases "pik_type ?k") (auto simp: is_value_def)
        show ?thesis
          by (rule go_on [where ?key2.0 = "[]" and ?val2.0 = "[]", OF _ _ kept_deletion [OF sh False]])
            (use seq live ty \<open>\<not> (t \<noteq> kTypeDeletion \<and> Compare c (ukey i) (dbi_saved_key d1) < 0)\<close> in \<open>auto simp: prev_entry_def\<close>)
      next
        case isv: True
        then have ty: "pik_type ?k = kTypeValue" by (simp add: is_value_def)
        let ?d2 = "d1\<lparr>dbi_saved_key := ukey i, dbi_saved_value := snd (es ! i)\<rparr>"
        have "kept kTypeValue ?d2 i i b"
          by (rule kept_value [OF sh isv live less.prems(4,3)]) simp_all
        then show ?thesis
          by (intro go_on [where ?key2.0 = "ukey i" and ?val2.0 = "snd (es ! i)"])
            (use seq live ty False entry in \<open>auto simp: prev_entry_def\<close>)
      qed
    qed
  qed
qed

section \<open>The operations\<close>

lemma FindPrev_ok:
  assumes "db_ok s d" "at es j (dbi_iter d)" "dbi_direction d = kReverse"
  defines "b \<equiv> (if j < length es then Suc j else 0)"
  shows "\<exists>d'. FindPrevUserEntry it c d = Some d' \<and> db_ok s d' \<and> (\<exists>j'. at es j' (dbi_iter d') \<and>
    ((\<forall>k < b. \<not> shown c s es k) \<and> \<not> dbi_valid d' \<or>
     (\<exists>v < b. shown c s es v \<and> (\<forall>k. v < k \<and> k < b \<longrightarrow> \<not> shown c s es k) \<and> dbi_valid d' \<and>
        dbi_direction d' = kReverse \<and> dbi_saved_key d' = ukey v \<and> dbi_saved_value d' = snd (es ! v) \<and> stops_before j' v)))"
proof (cases "j < length es")
  case False
  then have "FindPrevUserEntry it c d =
      Some (d\<lparr>dbi_valid := False, dbi_saved_key := [], dbi_saved_value := [], dbi_direction := kForward\<rparr>)"
    using inner_valid [OF assms(2)] by (simp add: FindPrevUserEntry_def)
  then show ?thesis using assms(1,2) False by (auto simp: b_def db_ok_def)
next
  case True
  have "kept kTypeDeletion d (Suc j) 0 (Suc j)" by (auto simp: kept_def)
  from find_prev_loop_ok [OF assms(1,2) True lessI this]
  obtain t' d' v j' e where r: "find_prev_loop it c kTypeDeletion d = Some (t', d')" "db_ok s d'"
      "dbi_direction d' = dbi_direction d" "at es j' (dbi_iter d')" "kept t' d' e v (Suc j)"
      "j' < length es \<and> e = Suc j' \<and> t' = kTypeValue \<and> Compare c (ukey j') (ukey v) < 0 \<or> j' = length es \<and> e = 0"
    by blast
  show ?thesis
  proof (cases t')
    case kTypeDeletion
    let ?d = "d'\<lparr>dbi_valid := False, dbi_saved_key := [], dbi_saved_value := [], dbi_direction := kForward\<rparr>"
    have "FindPrevUserEntry it c d = Some ?d"
      using inner_valid [OF assms(2)] True r(1) kTypeDeletion by (simp add: FindPrevUserEntry_def)
    moreover have "\<forall>k < b. \<not> shown c s es k" using r(5,6) kTypeDeletion True by (auto simp: kept_def b_def)
    moreover have "db_ok s ?d" "at es j' (dbi_iter ?d)" "\<not> dbi_valid ?d" using r(2,4) by (simp_all add: db_ok_def)
    ultimately show ?thesis by blast
  next
    case kTypeValue
    let ?d = "d'\<lparr>dbi_valid := True\<rparr>"
    have f: "FindPrevUserEntry it c d = Some ?d"
      using inner_valid [OF assms(2)] True r(1) kTypeValue by (simp add: FindPrevUserEntry_def)
    have sb: "shown c s es v \<and> stops_before j' v"
      by (rule kept_shown [of d' e v "Suc j"]) (use r(5,6) kTypeValue in auto)
    have k: "v < b" "\<forall>k. v < k \<and> k < b \<longrightarrow> \<not> shown c s es k" "dbi_saved_key d' = ukey v" "dbi_saved_value d' = snd (es ! v)"
      using r(5) kTypeValue True by (simp_all add: kept_def b_def)
    have "db_ok s ?d" "at es j' (dbi_iter ?d)" "dbi_valid ?d" "dbi_direction ?d = kReverse"
        "dbi_saved_key ?d = ukey v" "dbi_saved_value ?d = snd (es ! v)"
      using r(2-4) assms(3) k(3,4) by (simp_all add: db_ok_def)
    then show ?thesis using f sb k(1,2) by blast
  qed
qed

text \<open>Moving before the entries with the key of \<open>v\<close>.\<close>

lemma scan_back_ok:
  assumes "db_ok s d" "at es i (dbi_iter d)" "i \<le> v" "v < length es" "dbi_saved_key d = ukey v"
    and "\<forall>k. i \<le> k \<and> k \<le> v \<longrightarrow> Compare c (ukey k) (ukey v) = 0"
  shows "\<exists>found d'. scan_back it c d = Some (found, d') \<and> db_ok s d' \<and>
    (if found then \<exists>j < i. at es j (dbi_iter d') \<and> dbi_valid d' = dbi_valid d \<and> Compare c (ukey j) (ukey v) < 0 \<and>
       (\<forall>k. j < k \<and> k \<le> v \<longrightarrow> Compare c (ukey k) (ukey v) = 0)
     else at es (length es) (dbi_iter d') \<and> \<not> dbi_valid d' \<and> dbi_direction d' = dbi_direction d \<and>
       (\<forall>k \<le> v. Compare c (ukey k) (ukey v) = 0))"
  using assms
proof (induction i arbitrary: d rule: less_induct)
  case (less i)
  have i: "i < length es" using less.prems(3,4) by simp
  obtain t where t: "it_Prev it (dbi_iter d) = Some t" "at es (prev_pos es i) t"
    using inner.at_prev [OF less.prems(2) i] by auto
  let ?d = "d\<lparr>dbi_iter := t\<rparr>"
  have unfold: "scan_back it c d =
      (if \<not> it_Valid it t then Some (False, ?d\<lparr>dbi_valid := False, dbi_saved_key := [], dbi_saved_value := []\<rparr>)
       else if Compare c (ExtractUserKey (it_key it t)) (ukey v) < 0 then Some (True, ?d)
       else scan_back it c ?d)"
    using t(1) less.prems(5) by (subst scan_back.simps) (simp add: Let_def)
  show ?case
  proof (cases i)
    case 0
    then have at: "at es (length es) t" using t(2) by (simp add: prev_pos_def)
    then have "scan_back it c d = Some (False, ?d\<lparr>dbi_valid := False, dbi_saved_key := [], dbi_saved_value := []\<rparr>)"
      using unfold inner_valid [OF at] by simp
    then show ?thesis
      using at less.prems(1,6) 0
      by (intro exI [of _ False] exI [of _ "?d\<lparr>dbi_valid := False, dbi_saved_key := [], dbi_saved_value := []\<rparr>"]) (simp add: db_ok_def)
  next
    case (Suc m)
    then have m: "at es m t" "m < length es" using t(2) i by (simp_all add: prev_pos_def)
    have key: "it_Valid it t" "it_key it t = fst (es ! m)" using inner_entry [OF m] by blast+
    have le: "Compare c (ukey m) (ukey v) \<le> 0" using ukey_mono [of m v] Suc less.prems(3,4) by simp
    show ?thesis
    proof (cases "Compare c (ukey m) (ukey v) < 0")
      case True
      then have "scan_back it c d = Some (True, ?d)" using unfold key by simp
      then show ?thesis
        using True m less.prems(1,6) Suc by (intro exI [of _ True] exI [of _ ?d]) (auto simp: db_ok_def intro!: exI [of _ m])
    next
      case False
      then have eq: "Compare c (ukey m) (ukey v) = 0" using le by simp
      have same: "\<forall>k. m \<le> k \<and> k \<le> v \<longrightarrow> Compare c (ukey k) (ukey v) = 0"
      proof (intro allI impI)
        fix k assume "m \<le> k \<and> k \<le> v"
        then show "Compare c (ukey k) (ukey v) = 0" using less.prems(6) eq Suc by (cases "k = m") auto
      qed
      have "db_ok s ?d" "at es m (dbi_iter ?d)" "m \<le> v" "m < i" "dbi_saved_key ?d = ukey v"
        using less.prems m(1) Suc by (simp_all add: db_ok_def)
      from less.IH [OF this(4,1,2,3) less.prems(4) this(5) same]
      obtain found d' where r: "scan_back it c ?d = Some (found, d')" "db_ok s d'"
        "if found then \<exists>j < m. at es j (dbi_iter d') \<and> dbi_valid d' = dbi_valid ?d \<and> Compare c (ukey j) (ukey v) < 0 \<and>
             (\<forall>k. j < k \<and> k \<le> v \<longrightarrow> Compare c (ukey k) (ukey v) = 0)
           else at es (length es) (dbi_iter d') \<and> \<not> dbi_valid d' \<and> dbi_direction d' = dbi_direction ?d \<and>
             (\<forall>k \<le> v. Compare c (ukey k) (ukey v) = 0)"
        by blast
      have "scan_back it c d = Some (found, d')" using unfold key False r(1) by simp
      then show ?thesis
        using r(2,3) Suc by (intro exI [of _ found] exI [of _ d']) (auto split: if_splits intro: less_SucI)
    qed
  qed
qed

text \<open>The states of the iterator that stand at the entry \<open>v\<close>, the end if there is none.\<close>

definition db_state :: "nat \<Rightarrow> 's db_iter \<Rightarrow> bool" where
  "db_state v d \<longleftrightarrow>
     db_ok s d \<and> v \<le> length es \<and>
     (\<exists>i. at es i (dbi_iter d) \<and>
        (if v < length es
         then shown c s es v \<and> dbi_valid d \<and>
           (if dbi_direction d = kForward then i = v
            else dbi_saved_key d = ukey v \<and> dbi_saved_value d = snd (es ! v) \<and> stops_before i v)
         else \<not> dbi_valid d))"

lemma passed_from:
  assumes "v < length es" "i \<le> v" "\<forall>k. i \<le> k \<and> k < v \<longrightarrow> \<not> live s es k"
  shows "passed True (ukey v) i"
proof (rule passedI)
  fix k' k assume k: "k' < i" "i \<le> k" "k < length es" "Compare c (ukey k') (ukey k) = 0" "live s es k'"
  then have "Compare c (ukey k) (ukey k') \<le> 0" "Compare c (ukey k') (ukey v) \<le> 0"
    using ukey_eq_sym [of k' k] ukey_mono [of k' v] assms(1,2) by auto
  then show "True \<and> Compare c (ukey k) (ukey v) \<le> 0"
    using ukey_trans [of k k' "ukey v"] k valid_ukey assms(1,2) by simp
next
  show "valid (ukey v)" by (rule valid_ukey [OF assms(1)])
  fix k assume k: "i \<le> k" "k < length es" "live s es k"
  then have "v \<le> k" using assms(3) by (metis not_less)
  then show "Compare c (ukey k) (ukey v) \<ge> 0" using ukey_ge k(2) by blast
qed

lemma lands_next:
  assumes "shown c s es v" "i \<le> v" "lands True (ukey v) i w"
  shows "v < w" "\<forall>k. v < k \<and> k < w \<longrightarrow> \<not> shown c s es k"
proof -
  have v: "v < length es" by (rule shown_less [OF assms(1)])
  have l: "w < length es \<longrightarrow> \<not> Compare c (ukey w) (ukey v) \<le> 0"
      "\<forall>k. i \<le> k \<and> k < w \<and> shown c s es k \<longrightarrow> Compare c (ukey k) (ukey v) \<le> 0" "w \<le> length es"
    using assms(3) by (auto simp: lands_def)
  show "v < w"
  proof (rule ccontr)
    assume "\<not> v < w"
    then have "w \<le> v" by simp
    then show False using l(1) ukey_mono [of w v] v by simp
  qed
  show "\<forall>k. v < k \<and> k < w \<longrightarrow> \<not> shown c s es k"
  proof (intro allI impI notI)
    fix k assume k: "v < k \<and> k < w" and sh: "shown c s es k"
    then have kn: "k < length es" "Compare c (ukey k) (ukey v) \<le> 0" using l(2,3) assms(2) by auto
    then have "Compare c (ukey k) (ukey v) = 0" using ukey_ge [of v k] k by auto
    then have "Compare c (ukey v) (ukey k) = 0" using ukey_eq_sym kn(1) v by blast
    then show False using sh assms(1) k by (auto simp: shown_def)
  qed
qed

lemma at_landing:
  assumes "db_ok s d" "dbi_direction d = kForward" "at es w (dbi_iter d)" "lands sk skip i w" "dbi_valid d \<longleftrightarrow> w < length es"
  shows "db_state w d"
  using assms by (auto simp: db_state_def lands_def)

lemma db_Next:
  assumes "db_state v d" "v < length es"
  shows "\<exists>d' w. dbi_Next it c d = Some d' \<and> db_state w d' \<and> v < w \<and> (\<forall>k. v < k \<and> k < w \<longrightarrow> \<not> shown c s es k)"
proof -
  obtain i where i: "at es i (dbi_iter d)" "shown c s es v" "dbi_valid d" "db_ok s d"
      "if dbi_direction d = kForward then i = v
       else dbi_saved_key d = ukey v \<and> dbi_saved_value d = snd (es ! v) \<and> stops_before i v"
    using assms by (auto simp: db_state_def)
  have run: "\<exists>d' w. FindNextUserEntry it c True d1 = Some d' \<and> db_state w d' \<and> v < w \<and> (\<forall>k. v < k \<and> k < w \<longrightarrow> \<not> shown c s es k)"
    if "at es m (dbi_iter d1)" "db_ok s d1" "dbi_direction d1 = kForward" "dbi_saved_key d1 = ukey v" "m \<le> v"
      "\<forall>k. m \<le> k \<and> k < v \<longrightarrow> \<not> live s es k" for m d1
  proof -
    note h = that
    have "passed True (dbi_saved_key d1) m" unfolding that(4) by (rule passed_from [OF assms(2) that(5,6)])
    from find_next [OF that(2,1) _ this] obtain d' w where r: "FindNextUserEntry it c True d1 = Some d'" "db_ok s d'"
        "dbi_direction d' = kForward" "at es w (dbi_iter d')" "lands True (ukey v) m w" "dbi_valid d' \<longleftrightarrow> w < length es"
      using assms(2) h(3-5) by auto
    then show ?thesis using at_landing [OF r(2-6)] lands_next [OF i(2) that(5) r(5)] by blast
  qed
  show ?thesis
  proof (cases "dbi_direction d")
    case kForward
    let ?d = "d\<lparr>dbi_saved_key := ukey v\<rparr>"
    have "i = v" using i(5) kForward by simp
    then have "dbi_Next it c d = FindNextUserEntry it c True ?d"
      using i(3) kForward inner_entry [OF i(1)] assms(2) by (simp add: dbi_Next_def)
    moreover have "at es v (dbi_iter ?d)" "db_ok s ?d" "dbi_direction ?d = kForward" "dbi_saved_key ?d = ukey v"
      using i(1,4) \<open>i = v\<close> kForward by (simp_all add: db_ok_def)
    moreover have "\<forall>k. v \<le> k \<and> k < v \<longrightarrow> \<not> live s es k" by auto
    ultimately show ?thesis using run [of v ?d] by simp
  next
    case kReverse
    let ?m = "if i < length es then Suc i else 0"
    have b: "stops_before i v" "dbi_saved_key d = ukey v" using i(5) kReverse by simp_all
    obtain t where t: "(if \<not> it_Valid it (dbi_iter d) then it_SeekToFirst it (dbi_iter d) else it_Next it (dbi_iter d)) = Some t"
        "at es ?m t"
      using inner.at_first [OF i(1)] inner.at_next [OF i(1)] inner_valid [OF i(1)] by (cases "i < length es") auto
    have m: "?m \<le> v" "\<forall>k. ?m \<le> k \<and> k < v \<longrightarrow> \<not> live s es k" using b(1) by (auto simp: stops_before_def split: if_splits)
    then have "it_Valid it t" using inner_valid [OF t(2)] assms(2) by simp
    then have "dbi_Next it c d = FindNextUserEntry it c True (d\<lparr>dbi_direction := kForward, dbi_iter := t\<rparr>)"
      using i(3) kReverse t(1) by (simp add: dbi_Next_def Let_def)
    then show ?thesis
      using run [of ?m "d\<lparr>dbi_direction := kForward, dbi_iter := t\<rparr>"] t(2) i(4) b(2) m by (simp add: db_ok_def)
  qed
qed

lemma db_Prev:
  assumes "db_state v d" "v < length es"
  shows "\<exists>d' w. dbi_Prev it c d = Some d' \<and> db_state w d' \<and>
    (w < v \<and> shown c s es w \<and> (\<forall>k. w < k \<and> k < v \<longrightarrow> \<not> shown c s es k) \<or>
     w = length es \<and> (\<forall>k < v. \<not> shown c s es k))"
proof -
  obtain i where i: "at es i (dbi_iter d)" "shown c s es v" "dbi_valid d" "db_ok s d"
      "if dbi_direction d = kForward then i = v
       else dbi_saved_key d = ukey v \<and> dbi_saved_value d = snd (es ! v) \<and> stops_before i v"
    using assms by (auto simp: db_state_def)
  have run: "\<exists>d' w. FindPrevUserEntry it c d1 = Some d' \<and> db_state w d' \<and>
      (w < v \<and> shown c s es w \<and> (\<forall>k. w < k \<and> k < v \<longrightarrow> \<not> shown c s es k) \<or>
       w = length es \<and> (\<forall>k < v. \<not> shown c s es k))"
    if h: "at es j (dbi_iter d1)" "db_ok s d1" "dbi_direction d1 = kReverse"
      "\<forall>k < v. shown c s es k \<longrightarrow> k < (if j < length es then Suc j else 0)" "(if j < length es then Suc j else 0) \<le> v" for j d1
  proof -
    let ?b = "if j < length es then Suc j else 0"
    obtain d' j' where d': "FindPrevUserEntry it c d1 = Some d'" "db_ok s d'" "at es j' (dbi_iter d')"
        "(\<forall>k < ?b. \<not> shown c s es k) \<and> \<not> dbi_valid d' \<or>
         (\<exists>u < ?b. shown c s es u \<and> (\<forall>k. u < k \<and> k < ?b \<longrightarrow> \<not> shown c s es k) \<and> dbi_valid d' \<and>
            dbi_direction d' = kReverse \<and> dbi_saved_key d' = ukey u \<and> dbi_saved_value d' = snd (es ! u) \<and> stops_before j' u)"
      using FindPrev_ok [OF h(2,1,3)] by blast
    from d'(4) show ?thesis
    proof (elim disjE exE conjE)
      assume n: "\<forall>k < ?b. \<not> shown c s es k" "\<not> dbi_valid d'"
      then have "db_state (length es) d'" using d'(2,3) by (auto simp: db_state_def)
      moreover have "\<forall>k < v. \<not> shown c s es k" using n(1) h(4) by blast
      ultimately show ?thesis using d'(1) by blast
    next
      fix u assume u: "u < ?b" "shown c s es u" "\<forall>k. u < k \<and> k < ?b \<longrightarrow> \<not> shown c s es k" "dbi_valid d'"
        "dbi_direction d' = kReverse" "dbi_saved_key d' = ukey u" "dbi_saved_value d' = snd (es ! u)" "stops_before j' u"
      then have "db_state u d'" using d'(2,3) shown_less [OF u(2)] by (auto simp: db_state_def)
      moreover have "\<forall>k. u < k \<and> k < v \<longrightarrow> \<not> shown c s es k" using u(3) h(4) by blast
      moreover have "u < v" using u(1) h(5) by linarith
      ultimately show ?thesis using d'(1) u(2) by blast
    qed
  qed
  show ?thesis
  proof (cases "dbi_direction d")
    case kReverse
    have b: "stops_before i v" using i(5) kReverse by simp
    have "dbi_Prev it c d = FindPrevUserEntry it c d" using i(3) kReverse by (simp add: dbi_Prev_def)
    moreover have "\<forall>k < v. shown c s es k \<longrightarrow> k < (if i < length es then Suc i else 0)"
      using b by (auto simp: stops_before_def shown_def not_less split: if_splits) (metis Suc_leI not_less_eq)
    moreover have "(if i < length es then Suc i else 0) \<le> v" using b by (auto simp: stops_before_def split: if_splits)
    ultimately show ?thesis using run [OF i(1,4) kReverse] by simp
  next
    case kForward
    let ?d = "d\<lparr>dbi_saved_key := ukey v\<rparr>"
    have iv: "i = v" using i(5) kForward by simp
    have key: "ExtractUserKey (it_key it (dbi_iter d)) = ukey v" using inner_entry [OF i(1)] iv assms(2) by simp
    have "Compare c (ukey v) (ukey v) = 0" by (rule refl [OF valid_ukey [OF assms(2)]])
    then have "\<forall>k. v \<le> k \<and> k \<le> v \<longrightarrow> Compare c (ukey k) (ukey v) = 0" using order.antisym by blast
    then obtain found d1 where r: "scan_back it c ?d = Some (found, d1)" "db_ok s d1"
        "if found then \<exists>j < v. at es j (dbi_iter d1) \<and> dbi_valid d1 = dbi_valid ?d \<and> Compare c (ukey j) (ukey v) < 0 \<and>
             (\<forall>k. j < k \<and> k \<le> v \<longrightarrow> Compare c (ukey k) (ukey v) = 0)
         else at es (length es) (dbi_iter d1) \<and> \<not> dbi_valid d1 \<and> dbi_direction d1 = dbi_direction ?d \<and>
           (\<forall>k \<le> v. Compare c (ukey k) (ukey v) = 0)"
      using scan_back_ok [of ?d v v] i(1,4) iv assms(2) by (auto simp: db_ok_def)
    have hidden: "\<not> shown c s es k" if "k < v" "Compare c (ukey k) (ukey v) = 0" for k
      using that i(2) by (auto simp: shown_def)
    have prev: "dbi_Prev it c d = (if found then FindPrevUserEntry it c (d1\<lparr>dbi_direction := kReverse\<rparr>) else Some d1)"
      using i(3) kForward key r(1) by (simp add: dbi_Prev_def)
    show ?thesis
    proof (cases found)
      case False
      then have f: "at es (length es) (dbi_iter d1)" "\<not> dbi_valid d1" "\<forall>k \<le> v. Compare c (ukey k) (ukey v) = 0"
        using r(3) by auto
      have "db_state (length es) d1" using r(2) f(1,2) by (auto simp: db_state_def)
      moreover have "\<forall>k < v. \<not> shown c s es k" using hidden f(3) by auto
      moreover have "dbi_Prev it c d = Some d1" using prev False by simp
      ultimately show ?thesis by blast
    next
      case True
      then obtain j where j: "j < v" "at es j (dbi_iter d1)" "Compare c (ukey j) (ukey v) < 0"
          "\<forall>k. j < k \<and> k \<le> v \<longrightarrow> Compare c (ukey k) (ukey v) = 0"
        using r(3) by auto
      have "k < Suc j" if "k < v" "shown c s es k" for k
        using hidden [OF that(1)] j(4) that by (metis not_less_eq less_imp_le)
      then show ?thesis
        using run [of j "d1\<lparr>dbi_direction := kReverse\<rparr>"] prev True j(1,2) r(2) assms(2) by (simp add: db_ok_def)
    qed
  qed
qed

lemma find_from_ok:
  assumes "db_ok s d" "at es i (dbi_iter d)" "dbi_direction d = kForward" "passed False (dbi_saved_key d) i"
  shows "\<exists>d' w. find_from it c d = Some d' \<and> db_state w d' \<and> i \<le> w \<and> (\<forall>k. i \<le> k \<and> k < w \<longrightarrow> \<not> shown c s es k)"
proof (cases "i < length es")
  case True
  from find_next [OF assms(1,2) True assms(4)]
  obtain d' w where r: "FindNextUserEntry it c False d = Some d'" "db_ok s d'" "dbi_direction d' = kForward"
      "at es w (dbi_iter d')" "lands False (dbi_saved_key d) i w" "dbi_valid d' \<longleftrightarrow> w < length es"
    using assms(3) by auto
  then show ?thesis
    using at_landing [OF r(2-6)] inner_valid [OF assms(2)] True by (auto simp: find_from_def lands_def)
next
  case False
  then have n: "i = length es" using inner.at_bound [OF assms(2)] by simp
  have "db_state i (d\<lparr>dbi_valid := False\<rparr>)" using assms(1,2) n by (auto simp: db_state_def db_ok_def)
  then show ?thesis using inner_valid [OF assms(2)] n by (auto simp: find_from_def)
qed

lemma db_SeekToFirst:
  assumes "db_state v d"
  shows "\<exists>d' w. dbi_SeekToFirst it c d = Some d' \<and> db_state w d' \<and> (\<forall>k < w. \<not> shown c s es k)"
proof -
  obtain i where i: "at es i (dbi_iter d)" "db_ok s d" using assms by (auto simp: db_state_def)
  obtain t where t: "it_SeekToFirst it (dbi_iter d) = Some t" "at es 0 t" using inner.at_first [OF i(1)] by blast
  let ?d = "d\<lparr>dbi_direction := kForward, dbi_saved_value := [], dbi_iter := t\<rparr>"
  have "passed False (dbi_saved_key ?d) 0" by (simp add: passed_def)
  moreover have "db_ok s ?d" "at es 0 (dbi_iter ?d)" "dbi_direction ?d = kForward" using i(2) t(2) by (simp_all add: db_ok_def)
  ultimately show ?thesis using find_from_ok [of ?d 0] t(1) by (auto simp: dbi_SeekToFirst_def)
qed

lemma db_SeekToLast:
  assumes "db_state v d"
  shows "\<exists>d' w. dbi_SeekToLast it c d = Some d' \<and> db_state w d' \<and>
    (shown c s es w \<and> (\<forall>k. w < k \<longrightarrow> \<not> shown c s es k) \<or> w = length es \<and> (\<forall>k. \<not> shown c s es k))"
proof -
  obtain i where i: "at es i (dbi_iter d)" "db_ok s d" using assms by (auto simp: db_state_def)
  obtain t where t: "it_SeekToLast it (dbi_iter d) = Some t" "at es (length es - 1) t" using inner.at_last [OF i(1)] by auto
  let ?d = "d\<lparr>dbi_direction := kReverse, dbi_saved_value := [], dbi_iter := t\<rparr>"
  have b: "(if length es - 1 < length es then Suc (length es - 1) else 0) = length es" by (cases es) auto
  have ok: "db_ok s ?d" "at es (length es - 1) (dbi_iter ?d)" "dbi_direction ?d = kReverse"
    using i(2) t(2) by (simp_all add: db_ok_def)
  obtain d' j' where d': "FindPrevUserEntry it c ?d = Some d'" "db_ok s d'" "at es j' (dbi_iter d')"
      "(\<forall>k < length es. \<not> shown c s es k) \<and> \<not> dbi_valid d' \<or>
       (\<exists>u < length es. shown c s es u \<and> (\<forall>k. u < k \<and> k < length es \<longrightarrow> \<not> shown c s es k) \<and> dbi_valid d' \<and>
          dbi_direction d' = kReverse \<and> dbi_saved_key d' = ukey u \<and> dbi_saved_value d' = snd (es ! u) \<and> stops_before j' u)"
    using FindPrev_ok [OF ok] unfolding b by blast
  have run: "dbi_SeekToLast it c d = Some d'" using t(1) d'(1) by (simp add: dbi_SeekToLast_def)
  from d'(4) show ?thesis
  proof (elim disjE exE conjE)
    assume n: "\<forall>k < length es. \<not> shown c s es k" "\<not> dbi_valid d'"
    then have "db_state (length es) d'" using d'(2,3) by (auto simp: db_state_def)
    then show ?thesis using run n(1) shown_less by blast
  next
    fix u assume u: "u < length es" "shown c s es u" "\<forall>k. u < k \<and> k < length es \<longrightarrow> \<not> shown c s es k" "dbi_valid d'"
      "dbi_direction d' = kReverse" "dbi_saved_key d' = ukey u" "dbi_saved_value d' = snd (es ! u)" "stops_before j' u"
    then have "db_state u d'" using d'(2,3) by (auto simp: db_state_def)
    moreover have "\<forall>k. u < k \<longrightarrow> \<not> shown c s es k" using u(3) shown_less by blast
    ultimately show ?thesis using run u(2) by blast
  qed
qed

text \<open>The internal key that \<open>Seek\<close> looks for separates the keys below the target from the rest.\<close>

lemma seek_target:
  fixes target :: slice
  assumes "k < length es" "live s es k"
  defines "key \<equiv> AppendInternalKey [] \<lparr>pik_user_key = target, pik_sequence = s, pik_type = kValueTypeForSeek\<rparr>"
  shows "Compare (InternalKeyComparator c) (fst (es ! k)) key < 0 \<longleftrightarrow> Compare c (ukey k) target < 0"
proof -
  let ?p = "ikey_of (es ! k)"
  note p = parsed_key [OF entry_parsed [OF assms(1)]]
  have k: "ExtractUserKey key = target" "key_num key = PackSequenceAndType s kTypeValue"
    by (simp_all add: key_def Append_fields kValueTypeForSeek_def)
  have "\<not> key_num key < key_num (fst (es ! k))"
    using pack_mono [OF number p(2), of kTypeValue "pik_type ?p"] assms(2) unfolding k(2) p(3) live_def by auto
  then show ?thesis by (simp add: Internal_Compare_cases k(1))
qed

lemma db_Seek:
  assumes "db_state v d" "valid target"
  shows "\<exists>d' w. dbi_Seek it c target d = Some d' \<and> db_state w d' \<and>
    (\<forall>k < w. shown c s es k \<longrightarrow> Compare c (ukey k) target < 0) \<and> (w < length es \<longrightarrow> \<not> Compare c (ukey w) target < 0)"
proof -
  obtain i where i: "at es i (dbi_iter d)" "db_ok s d" using assms(1) by (auto simp: db_state_def)
  let ?key = "AppendInternalKey [] \<lparr>pik_user_key = target, pik_sequence = s, pik_type = kValueTypeForSeek\<rparr>"
  let ?P = "\<lambda>e :: slice \<times> slice. Compare (InternalKeyComparator c) (fst e) ?key < 0"
  let ?i = "seek_pos (Compare (InternalKeyComparator c)) ?key es"
  have "internal_valid valid ?key" using assms(2) by (simp add: internal_valid_def Append_fields)
  then obtain t where t: "it_Seek it ?key (dbi_iter d) = Some t" "at es ?i t" using inner.at_seek [OF i(1)] by blast
  let ?d = "d\<lparr>dbi_direction := kForward, dbi_saved_value := [], dbi_saved_key := ?key, dbi_iter := t\<rparr>"
  have below: "?P (es ! k)" if "k < ?i" for k
    using that nth_mem [of k "takeWhile ?P es"] by (auto simp: seek_pos_def takeWhile_nth dest: set_takeWhileD)
  have stop: "\<not> Compare c (ukey k) target < 0" if k: "?i \<le> k" "k < length es" for k
  proof
    assume less: "Compare c (ukey k) target < 0"
    have n: "?i < length es" using k by simp
    then have "\<not> ?P (es ! ?i)" using nth_length_takeWhile [of ?P es] by (simp add: seek_pos_def)
    then have "\<not> Compare c (ukey ?i) target < 0" by (simp add: Internal_Compare_cases Append_fields)
    then show False
      using less_trans [OF valid_ukey valid_ukey assms(2), of ?i k] ukey_mono [OF k] n k(2) less by blast
  qed
  have "passed False ?key ?i"
  proof (rule passedI)
    fix k' k assume k: "k' < ?i" "?i \<le> k" "k < length es" "Compare c (ukey k') (ukey k) = 0" "live s es k'"
    then have "Compare c (ukey k') target < 0" using below seek_target [of k' target] by simp
    moreover have "Compare c (ukey k) (ukey k') \<le> 0" using ukey_eq_sym [of k' k] k by simp
    ultimately have "Compare c (ukey k) target < 0"
      using less_trans [OF valid_ukey valid_ukey assms(2), of k k'] k(1-3) by simp
    then show "False \<and> Compare c (ukey k) ?key \<le> 0" using stop k(2,3) by blast
  qed simp_all
  then have "passed False (dbi_saved_key ?d) ?i" by simp
  moreover have "db_ok s ?d" "at es ?i (dbi_iter ?d)" "dbi_direction ?d = kForward"
    using i(2) t(2) by (simp_all add: db_ok_def)
  ultimately obtain d' w where r: "find_from it c ?d = Some d'" "db_state w d'" "?i \<le> w"
      "\<forall>k. ?i \<le> k \<and> k < w \<longrightarrow> \<not> shown c s es k"
    using find_from_ok [of ?d ?i] by blast
  have "dbi_Seek it c target d = Some d'"
    using t(1) r(1) i(2) by (simp add: dbi_Seek_def Let_def db_ok_def)
  moreover have "Compare c (ukey k) target < 0" if "k < w" "shown c s es k" for k
    using r(4) that below [of k] seek_target [of k target] by (auto simp: shown_def not_less [symmetric])
  moreover have "w < length es \<longrightarrow> \<not> Compare c (ukey w) target < 0" using stop r(3) by blast
  ultimately show ?thesis using r(2) by blast
qed

end

section \<open>The contract\<close>

text \<open>The position of an entry in the view is the number of entries of the view before it.\<close>

context db_internal begin

definition db_at :: "entries \<Rightarrow> nat \<Rightarrow> 's db_iter \<Rightarrow> bool" where
  "db_at kvs p d \<longleftrightarrow> kvs = db_view c s es \<and> (\<exists>v. p = shown_before c s es v \<and> db_state v d)"

lemma db_shows:
  assumes "db_state v d"
  shows "shows_entry (DBIter it c) (db_view c s es) (shown_before c s es v) d"
    and "shown_before c s es v \<le> length (db_view c s es)"
proof -
  obtain i where i: "at es i (dbi_iter d)" "db_ok s d" "v \<le> length es" "if v < length es
       then shown c s es v \<and> dbi_valid d \<and>
         (if dbi_direction d = kForward then i = v
          else dbi_saved_key d = ukey v \<and> dbi_saved_value d = snd (es ! v) \<and> stops_before i v)
       else \<not> dbi_valid d"
    using assms by (auto simp: db_state_def)
  have status: "dbi_get_status it d = OK"
    using i(2) inner.at_shows [OF i(1)] by (simp add: dbi_get_status_def db_ok_def shows_entry_def Status_kinds)
  have "shows_entry (DBIter it c) (db_view c s es) (shown_before c s es v) d \<and>
    shown_before c s es v \<le> length (db_view c s es)"
  proof (cases "v < length es")
    case True
    note a = view_at [of v]
    have sv: "shown c s es v" using i(4) True by simp
    have "dbi_key it d = ukey v \<and> dbi_value it d = Some (snd (es ! v))"
      using i(4) True inner_entry [OF i(1)] by (auto simp: dbi_key_def dbi_value_def)
    then show ?thesis using a [OF sv] status i(4) True by (simp add: shows_entry_def DBIter_def)
  next
    case False
    then show ?thesis using i(3,4) status view_length by (simp add: shows_entry_def DBIter_def)
  qed
  then show "shows_entry (DBIter it c) (db_view c s es) (shown_before c s es v) d"
    "shown_before c s es v \<le> length (db_view c s es)" by blast+
qed

lemma db_at_inside: "db_state v d \<Longrightarrow> shown_before c s es v < length (db_view c s es) \<Longrightarrow> v < length es \<and> shown c s es v"
  using view_length by (auto simp: db_state_def le_less)

lemma seek_view:
  assumes "w \<le> length es" "\<forall>k < w. shown c s es k \<longrightarrow> Compare c (ukey k) target < 0"
    "w < length es \<longrightarrow> shown c s es w \<and> \<not> Compare c (ukey w) target < 0"
  shows "seek_pos (Compare c) target (db_view c s es) = shown_before c s es w"
proof (rule seek_posI)
  show "\<forall>j < shown_before c s es w. Compare c (fst (db_view c s es ! j)) target < 0"
    using view_before [OF _ assms(1)] assms(2) by fastforce
  show "shown_before c s es w \<le> length (db_view c s es)"
    using view_at(1) [of w] view_length assms(1,3) by (cases "w < length es") auto
  show "\<not> Compare c (fst (db_view c s es ! shown_before c s es w)) target < 0"
    if "shown_before c s es w < length (db_view c s es)"
    using that view_at(2) [of w] view_length assms(1,3) by (cases "w < length es") auto
qed

lemma none_before: "\<forall>k < w. \<not> shown c s es k \<Longrightarrow> shown_before c s es w = 0"
  by (simp add: shown_before_def)

end

sublocale db_internal \<subseteq> db: iterator_contract "DBIter it c" "Compare c" valid db_at
proof (unfold_locales, goal_cases)
  case (1 kvs p d)
  then show ?case using db_shows(2) by (auto simp: db_at_def)
next
  case (2 kvs p d)
  then show ?case using db_shows(1) by (auto simp: db_at_def)
next
  case (3 kvs p d)
  then obtain v where v: "kvs = db_view c s es" "db_state v d" by (auto simp: db_at_def)
  from db_SeekToFirst [OF v(2)] obtain d' w where w: "dbi_SeekToFirst it c d = Some d'" "db_state w d'" "\<forall>k < w. \<not> shown c s es k"
    by blast
  have "db_at kvs 0 d'" unfolding db_at_def using none_before [OF w(3)] v(1) w(2) by force
  then show ?case using w(1) by (simp add: DBIter_def)
next
  case (4 kvs p d)
  then obtain v where v: "kvs = db_view c s es" "db_state v d" by (auto simp: db_at_def)
  from db_SeekToLast [OF v(2)] obtain d' w where w: "dbi_SeekToLast it c d = Some d'" "db_state w d'"
      "shown c s es w \<and> (\<forall>k. w < k \<longrightarrow> \<not> shown c s es k) \<or> w = length es \<and> (\<forall>k. \<not> shown c s es k)"
    by blast
  from w(3) have "shown_before c s es w = length kvs - 1"
  proof
    assume a: "shown c s es w \<and> (\<forall>k. w < k \<longrightarrow> \<not> shown c s es k)"
    then show ?thesis
      using shown_next [of c s es w "length es"] shown_less view_length v(1) by simp
  next
    assume a: "w = length es \<and> (\<forall>k. \<not> shown c s es k)"
    then show ?thesis using none_before [of w] view_length v(1) by simp
  qed
  then have "db_at kvs (length kvs - 1) d'" unfolding db_at_def using v(1) w(2) by force
  then show ?case using w(1) by (simp add: DBIter_def)
next
  case (5 kvs p d target)
  then obtain v where v: "kvs = db_view c s es" "db_state v d" by (auto simp: db_at_def)
  from db_Seek [OF v(2) 5(2)] obtain d' w where w: "dbi_Seek it c target d = Some d'" "db_state w d'"
      "\<forall>k < w. shown c s es k \<longrightarrow> Compare c (ukey k) target < 0" "w < length es \<longrightarrow> \<not> Compare c (ukey w) target < 0"
    by blast
  have "seek_pos (Compare c) target kvs = shown_before c s es w"
    unfolding v(1) using w(2-4) by (intro seek_view) (auto simp: db_state_def)
  then have "db_at kvs (seek_pos (Compare c) target kvs) d'" unfolding db_at_def using v(1) w(2) by force
  then show ?case using w(1) by (simp add: DBIter_def)
next
  case (6 kvs p d)
  then obtain v where v: "kvs = db_view c s es" "p = shown_before c s es v" "db_state v d" by (auto simp: db_at_def)
  have sv: "v < length es" "shown c s es v" using db_at_inside [OF v(3)] 6(2) v(1,2) by auto
  from db_Next [OF v(3) sv(1)] obtain d' w where w: "dbi_Next it c d = Some d'" "db_state w d'" "v < w"
      "\<forall>k. v < k \<and> k < w \<longrightarrow> \<not> shown c s es k"
    by blast
  have "shown_before c s es w = p + 1" unfolding v(2) by (rule shown_next [OF sv(2) w(3,4)])
  then have "db_at kvs (p + 1) d'" unfolding db_at_def using v(1) w(2) by metis
  then show ?case using w(1) by (simp add: DBIter_def)
next
  case (7 kvs p d)
  then obtain v where v: "kvs = db_view c s es" "p = shown_before c s es v" "db_state v d" by (auto simp: db_at_def)
  have sv: "v < length es" "shown c s es v" using db_at_inside [OF v(3)] 7(2) v(1,2) by auto
  from db_Prev [OF v(3) sv(1)] obtain d' w where w: "dbi_Prev it c d = Some d'" "db_state w d'"
      "w < v \<and> shown c s es w \<and> (\<forall>k. w < k \<and> k < v \<longrightarrow> \<not> shown c s es k) \<or> w = length es \<and> (\<forall>k < v. \<not> shown c s es k)"
    by blast
  from w(3) have "shown_before c s es w = prev_pos kvs p"
  proof
    assume a: "w < v \<and> shown c s es w \<and> (\<forall>k. w < k \<and> k < v \<longrightarrow> \<not> shown c s es k)"
    then show ?thesis using shown_next [of c s es w v] v(2) by (simp add: prev_pos_def)
  next
    assume a: "w = length es \<and> (\<forall>k < v. \<not> shown c s es k)"
    then show ?thesis using none_before [of v] view_length v(1,2) by (simp add: prev_pos_def)
  qed
  then have "db_at kvs (prev_pos kvs p) d'" unfolding db_at_def using v(1) w(2) by force
  then show ?case using w(1) by (simp add: DBIter_def)
qed

context db_internal begin

lemma db_start:
  assumes "at es i t"
  shows "db_at (db_view c s es) (length (db_view c s es)) (NewDBIterator t s seed)"
proof -
  have "good_seed (Random_Next (make_Random seed))" by (rule good_Next [OF good_make])
  then have "db_state (length es) (NewDBIterator t s seed)"
    using assms by (auto simp: db_state_def db_ok_def NewDBIterator_def make_DBIter_def RandomCompactionPeriod_def
        Random_Uniform_def Let_def)
  then show ?thesis using view_length by (force simp: db_at_def)
qed

lemma db_runs:
  assumes "at es i t" "\<forall>target. To target \<in> set ops \<longrightarrow> valid target"
    and "runs (cursor_op (Compare c) (db_view c s es)) ops (length (db_view c s es)) = Some j"
  shows "\<exists>d. runs (iter_do (DBIter it c)) ops (NewDBIterator t s seed) = Some d \<and> shows_entry (DBIter it c) (db_view c s es) j d"
  using db.runs_simulates [OF db_start [OF assms(1)] assms(3,2)] db.at_shows by blast

end

section \<open>Properties\<close>

text \<open>
  (C13) The iterator over a database, over an internal iterator that meets the contract of
  iterators and whose keys all parse, behaves under every sequence of operations like a
  cursor in the view at its sequence number: the user keys whose newest entry up to that
  number is a value, each once, in their order and with that value. Every operation returns,
  also the loop that samples the reads with random periods.
\<close>

theorem db_iterator_cursor:
  assumes "comparator c valid" "iterator_contract it (Compare (InternalKeyComparator c)) (internal_valid valid) at"
    and "db_source c valid es" "s \<le> kMaxSequenceNumber" "at es i t"
    and "\<forall>target. To target \<in> set ops \<longrightarrow> valid target"
    and "runs (cursor_op (Compare c) (db_view c s es)) ops (length (db_view c s es)) = Some j"
  shows "\<exists>d. runs (iter_do (DBIter it c)) ops (NewDBIterator t s seed) = Some d \<and>
    shows_entry (DBIter it c) (db_view c s es) j d"
proof -
  have "db_internal c valid it at es s"
    using assms(1-4) by (simp add: db_internal_def db_internal_axioms_def)
  from db_internal.db_runs [OF this assms(5,6,7)] show ?thesis .
qed

text \<open>
  Five entries of three user keys in a block, read at the sequence number 7: the version of
  the first key at 9 is too new, the second key is deleted at 5, the third key is a value.
\<close>

definition sample_internal :: entries where
  "sample_internal =
     [(InternalKey [1] 9 kTypeValue, [19]), (InternalKey [1] 4 kTypeValue, [14]),
      (InternalKey [2] 5 kTypeDeletion, []), (InternalKey [2] 3 kTypeValue, [23]),
      (InternalKey [3] 6 kTypeValue, [36])]"

lemma sample_internal_eval:
  "sorted_entries (InternalKeyComparator BytewiseComparator) (internal_valid (\<lambda>_. True)) sample_internal"
  "list_all (\<lambda>e. ParseInternalKey (fst e) \<noteq> None \<and> length (fst e) + length (snd e) \<le> 10) sample_internal"
  "db_view BytewiseComparator 7 sample_internal = [([1], [14]), ([3], [36])]"
  "length (fst (BlockBuilder_Finish (build_block 1 sample_internal))) = 88"
  by code_simp+

lemma sample_internal_source: "db_source BytewiseComparator (\<lambda>_. True) sample_internal"
  using sample_internal_eval(1,2) by (auto simp: db_source_def list_all_iff)

interpretation sample_db: db_internal BytewiseComparator "\<lambda>_. True" "BlockIter (InternalKeyComparator BytewiseComparator)"
  "block_at (InternalKeyComparator BytewiseComparator) (internal_valid (\<lambda>_. True))" sample_internal 7
  by (intro db_internal.intro db_internal_axioms.intro bytewise.comparator_axioms block_iterator.iterator_contract_axioms
      sample_internal_source) (simp add: kMaxSequenceNumber_value)

theorem db_iterator_cursor_witness:
  "\<exists>t d. Block_NewIterator (make_Block (fst (BlockBuilder_Finish (build_block 1 sample_internal)))) = Inr t \<and>
    runs (iter_do (DBIter (BlockIter (InternalKeyComparator BytewiseComparator)) BytewiseComparator))
      [First, Forward, Backward, Last, Backward, To [2]] (NewDBIterator t 7 301) = Some d \<and>
    shows_entry (DBIter (BlockIter (InternalKeyComparator BytewiseComparator)) BytewiseComparator)
      [([1], [14]), ([3], [36])] 1 d"
proof -
  let ?i = "InternalKeyComparator BytewiseComparator" and ?v = "internal_valid (\<lambda>_. True)"
  obtain shs ris where l: "laid_out sample_internal shs ris"
      "fst (BlockBuilder_Finish (build_block 1 sample_internal)) = block_bytes sample_internal shs ris"
    using Finish_bytes [OF built_build_block [of 1 sample_internal]] by auto
  have "ordered ?i ?v sample_internal"
    using ukey.internal.comparator_axioms sample_internal_source by (simp add: ordered_def db_source_def)
  then obtain t where t: "Block_NewIterator (make_Block (fst (BlockBuilder_Finish (build_block 1 sample_internal)))) = Inr t"
      "block_at ?i ?v sample_internal (length sample_internal) t"
    using NewIterator_laid_out [OF l(1)] l(2) sample_internal_eval(4) by (auto simp: block_at_def ordered_def)
  have run: "runs (cursor_op (Compare BytewiseComparator) (db_view BytewiseComparator 7 sample_internal))
      [First, Forward, Backward, Last, Backward, To [2]] (length (db_view BytewiseComparator 7 sample_internal)) = Some 1"
    unfolding sample_internal_eval(3) by code_simp
  have "(7 :: u64) \<le> kMaxSequenceNumber" by (simp add: kMaxSequenceNumber_value)
  from db_iterator_cursor [OF bytewise.comparator_axioms block_iterator.iterator_contract_axioms sample_internal_source this t(2) _ run,
      of 301]
  obtain d where "runs (iter_do (DBIter (BlockIter ?i) BytewiseComparator)) [First, Forward, Backward, Last, Backward, To [2]]
      (NewDBIterator t 7 301) = Some d"
      "shows_entry (DBIter (BlockIter ?i) BytewiseComparator) [([1], [14]), ([3], [36])] 1 d"
    unfolding sample_internal_eval(3) by auto
  then show ?thesis using t(1) by blast
qed

end
