(* ===== verification/Ldb_Format.thy ===== *)
theory Ldb_Format
  imports Ldb_Block_Spec Ldb_Crc32c_Spec Ldb_Env Ldb_Dbformat
begin

text \<open>
  \<^verbatim>\<open>table/format.h\<close> and \<^verbatim>\<open>table/format.cc\<close>: block handles, the footer of a table, and the reading
  of blocks with their checksums, on files with random access.
\<close>

section \<open>Files with random access\<close>

text \<open>
  \<open>RandomAccessFile::Read\<close> takes the offset and the number of bytes; besides status and bytes
  the result tells whether they are in the buffer of the caller. \<open>None\<close> is an access
  outside of the memory of the file.
\<close>

type_synonym random_access_file = "u64 \<Rightarrow> u64 \<Rightarrow> (Status \<times> slice \<times> bool) option"

definition PosixMmapReadableFile :: "'o posix \<Rightarrow> byte list \<Rightarrow> byte list \<Rightarrow> random_access_file" where
  "PosixMmapReadableFile px filename mapped offset n =
     map_option (\<lambda>(s, r). (s, r, False)) (Mmap_Read px filename mapped offset n)"

locale random_access =
  fixes raf :: random_access_file and content :: "byte list"
  assumes reads: "length content < 2 ^ 64 \<Longrightarrow> unat pos + unat n \<le> length content \<Longrightarrow>
    \<exists>own. raf pos n = Some (OK, take (unat n) (drop (unat pos) content), own)"

interpretation mmap_file: random_access "PosixMmapReadableFile px filename mapped" mapped for px filename mapped
proof
  fix pos n :: u64
  assume n: "length mapped < 2 ^ 64" and "unat pos + unat n \<le> length mapped"
  then have le: "unat pos + unat n \<le> length mapped" "unat (of_nat (length mapped) :: u64) = length mapped"
    "unat (pos + n) = unat pos + unat n"
    by (simp_all add: unat_of_nat_small unat_word_ariths)
  then have "\<not> pos + n > of_nat (length mapped)" by (simp add: word_less_nat_alt)
  then show "\<exists>own. PosixMmapReadableFile px filename mapped pos n = Some (OK, take (unat n) (drop (unat pos) mapped), own)"
    using le by (auto simp: PosixMmapReadableFile_def Mmap_Read_def)
qed

section \<open>Handles and the footer\<close>

record BlockHandle =
  bh_offset :: u64
  bh_size :: u64

definition make_BlockHandle :: BlockHandle where
  "make_BlockHandle = \<lparr>bh_offset = NOT 0, bh_size = NOT 0\<rparr>"

definition BlockHandle_kMaxEncodedLength :: nat where
  "BlockHandle_kMaxEncodedLength = 10 + 10"

definition BlockHandle_EncodeTo :: "BlockHandle \<Rightarrow> byte list \<Rightarrow> byte list" where
  "BlockHandle_EncodeTo h dst = PutVarint64 (PutVarint64 dst (bh_offset h)) (bh_size h)"

text \<open>The results are the status, the handle and what \<open>*input\<close> is afterwards.\<close>

definition BlockHandle_DecodeFrom :: "slice \<Rightarrow> BlockHandle \<Rightarrow> Status \<times> BlockHandle \<times> slice" where
  "BlockHandle_DecodeFrom input h =
     (case GetVarint64 input of
        (None, input) \<Rightarrow> (Corruption (lit ''bad block handle''), h, input)
      | (Some pos, input) \<Rightarrow>
          let h = h\<lparr>bh_offset := pos\<rparr>
          in case GetVarint64 input of
               (None, input) \<Rightarrow> (Corruption (lit ''bad block handle''), h, input)
             | (Some sz, input) \<Rightarrow> (OK, h\<lparr>bh_size := sz\<rparr>, input))"

record Footer =
  ft_metaindex_handle :: BlockHandle
  ft_index_handle :: BlockHandle

definition make_Footer :: Footer where
  "make_Footer = \<lparr>ft_metaindex_handle = make_BlockHandle, ft_index_handle = make_BlockHandle\<rparr>"

definition Footer_kEncodedLength :: nat where
  "Footer_kEncodedLength = 2 * BlockHandle_kMaxEncodedLength + 8"

definition kTableMagicNumber :: u64 where
  "kTableMagicNumber = 0xdb4775248b80fb57"

definition kBlockTrailerSize :: size_t where
  "kBlockTrailerSize = 5"

text \<open>\<open>std::string::resize\<close>\<close>

definition resize :: "nat \<Rightarrow> byte list \<Rightarrow> byte list" where
  "resize n dst = take n dst @ replicate (n - length dst) 0"

definition Footer_EncodeTo :: "Footer \<Rightarrow> byte list \<Rightarrow> byte list" where
  "Footer_EncodeTo f dst =
     (let dst = BlockHandle_EncodeTo (ft_metaindex_handle f) dst;
          dst = BlockHandle_EncodeTo (ft_index_handle f) dst;
          dst = resize (2 * BlockHandle_kMaxEncodedLength) dst;
          dst = PutFixed32 dst (ucast (kTableMagicNumber AND 0xffffffff))
      in PutFixed32 dst (ucast (drop_bit 32 kTableMagicNumber)))"

text \<open>\<open>None\<close> is a read behind the end of a short input. Handles take less than 40 bytes.\<close>

definition Footer_DecodeFrom :: "slice \<Rightarrow> Footer \<Rightarrow> (Status \<times> Footer \<times> slice) option" where
  "Footer_DecodeFrom input f =
     (if length input < Footer_kEncodedLength then None
      else let magic_ptr = drop (Footer_kEncodedLength - 8) input;
               magic_lo = DecodeFixed32 magic_ptr;
               magic_hi = DecodeFixed32 (drop 4 magic_ptr);
               magic = (push_bit 32 (ucast magic_hi) OR ucast magic_lo) :: u64
           in if magic \<noteq> kTableMagicNumber then Some (Corruption (lit ''not an sstable (bad magic number)''), f, input)
              else case BlockHandle_DecodeFrom input (ft_metaindex_handle f) of
                     (result, h, rest) \<Rightarrow>
                       let f = f\<lparr>ft_metaindex_handle := h\<rparr>
                       in if \<not> Status_ok result then Some (result, f, rest)
                          else case BlockHandle_DecodeFrom rest (ft_index_handle f) of
                                 (result, h, rest) \<Rightarrow>
                                   let f = f\<lparr>ft_index_handle := h\<rparr>
                                   in if \<not> Status_ok result then Some (result, f, rest)
                                      else Some (result, f, drop 8 magic_ptr))"

section \<open>Reading a block\<close>

datatype CompressionType = kNoCompression | kSnappyCompression

definition compression_byte :: "CompressionType \<Rightarrow> byte" where
  "compression_byte t = (case t of kNoCompression \<Rightarrow> 0 | kSnappyCompression \<Rightarrow> 1)"

text \<open>The functions of \<^verbatim>\<open>port/port_stdcxx.h\<close> in a build without Snappy.\<close>

definition Snappy_Compress :: "slice \<Rightarrow> (byte list) option" where
  "Snappy_Compress input = None"

definition Snappy_GetUncompressedLength :: "slice \<Rightarrow> size_t option" where
  "Snappy_GetUncompressedLength input = None"

definition Snappy_Uncompress :: "slice \<Rightarrow> (byte list) option" where
  "Snappy_Uncompress input = None"

record ReadOptions =
  ro_verify_checksums :: bool
  ro_fill_cache :: bool

definition make_ReadOptions :: ReadOptions where
  "make_ReadOptions = \<lparr>ro_verify_checksums = False, ro_fill_cache = True\<rparr>"

record BlockContents =
  bc_data :: slice
  bc_cachable :: bool
  bc_heap_allocated :: bool

text \<open>\<open>n + kBlockTrailerSize\<close> may wrap around: \<open>None\<close> is a read behind what the file returned.\<close>

definition ReadBlock :: "random_access_file \<Rightarrow> ReadOptions \<Rightarrow> BlockHandle \<Rightarrow> (Status \<times> BlockContents) option" where
  "ReadBlock file options handle =
     (let result = \<lparr>bc_data = [], bc_cachable = False, bc_heap_allocated = False\<rparr>;
          n = bh_size handle
      in Option.bind (file (bh_offset handle) (n + kBlockTrailerSize)) (\<lambda>(s, contents, own).
        if \<not> Status_ok s then Some (s, result)
        else if length contents \<noteq> unat (n + kBlockTrailerSize)
        then Some (Corruption (lit ''truncated block read''), result)
        else if length contents < unat n + 5 then None
        else let n = unat n;
                 crc = Unmask (DecodeFixed32 (drop (n + 1) contents));
                 actual = Value 0 (take (n + 1) contents)
             in if ro_verify_checksums options \<and> actual \<noteq> crc
                then Some (Corruption (lit ''block checksum mismatch''), result)
                else if contents ! n = compression_byte kNoCompression
                then Some (OK, \<lparr>bc_data = take n contents, bc_cachable = own, bc_heap_allocated = own\<rparr>)
                else if contents ! n = compression_byte kSnappyCompression
                then case Snappy_GetUncompressedLength (take n contents) of
                       None \<Rightarrow> Some (Corruption (lit ''corrupted compressed block contents''), result)
                     | Some ulength \<Rightarrow>
                         (case Snappy_Uncompress (take n contents) of
                            None \<Rightarrow> Some (Corruption (lit ''corrupted compressed block contents''), result)
                          | Some ubuf \<Rightarrow> Some (OK, \<lparr>bc_data = take (unat ulength) ubuf, bc_cachable = True, bc_heap_allocated = True\<rparr>))
                else Some (Corruption (lit ''bad block type''), result)))"

section \<open>Round trips\<close>

lemma BlockHandle_Decode_Encode:
  "BlockHandle_DecodeFrom (BlockHandle_EncodeTo h [] @ rest) h' = (OK, \<lparr>bh_offset = bh_offset h, bh_size = bh_size h\<rparr>, rest)"
  by (simp add: BlockHandle_DecodeFrom_def BlockHandle_EncodeTo_def PutVarint64_def GetVarint64_def GetVarint64_varint)

lemma BlockHandle_Encode_append: "BlockHandle_EncodeTo h dst = dst @ BlockHandle_EncodeTo h []"
  by (simp add: BlockHandle_EncodeTo_def PutVarint64_def)

lemma BlockHandle_Encode_inj:
  "BlockHandle_EncodeTo h [] = BlockHandle_EncodeTo h' [] \<longleftrightarrow> bh_offset h = bh_offset h' \<and> bh_size h = bh_size h'"
proof
  assume "BlockHandle_EncodeTo h [] = BlockHandle_EncodeTo h' []"
  then show "bh_offset h = bh_offset h' \<and> bh_size h = bh_size h'"
    using BlockHandle_Decode_Encode [of h "[]" undefined] BlockHandle_Decode_Encode [of h' "[]" undefined] by simp
qed (simp add: BlockHandle_EncodeTo_def)

lemma BlockHandle_Encode_length: "length (BlockHandle_EncodeTo h []) \<le> 20"
proof -
  have "length (EncodeVarint64 v) \<le> 10" for v using varint_length_and_cut [of v 0] by simp
  from this [of "bh_offset h"] this [of "bh_size h"] show ?thesis by (simp add: BlockHandle_EncodeTo_def PutVarint64_def)
qed

lemma Footer_Encode_length: "length (Footer_EncodeTo f []) = 48"
  by (simp add: Footer_EncodeTo_def Let_def PutFixed32_def resize_def BlockHandle_kMaxEncodedLength_def)

lemma magic_words:
  "push_bit 32 (ucast (ucast (drop_bit 32 kTableMagicNumber) :: u32)) OR
    ucast (ucast (kTableMagicNumber AND 0xffffffff) :: u32) = kTableMagicNumber"
  by (simp add: kTableMagicNumber_def)

lemma Footer_Decode_Encode: "Footer_DecodeFrom (Footer_EncodeTo f [] @ rest) g = Some (OK, f, rest)"
proof -
  define a b where ab: "a = BlockHandle_EncodeTo (ft_metaindex_handle f) []" "b = BlockHandle_EncodeTo (ft_index_handle f) []"
  define pad where "pad = replicate (40 - length (a @ b)) (0 :: byte)"
  define lo hi where lh: "lo = EncodeFixed32 (ucast (kTableMagicNumber AND 0xffffffff))"
    "hi = EncodeFixed32 (ucast (drop_bit 32 kTableMagicNumber))"
  define d where "d = Footer_EncodeTo f [] @ rest"
  have len: "length (a @ b) \<le> 40"
    using BlockHandle_Encode_length [of "ft_metaindex_handle f"] BlockHandle_Encode_length [of "ft_index_handle f"] by (simp add: ab)
  have d: "d = a @ b @ pad @ lo @ hi @ rest"
    using len BlockHandle_Encode_append [of "ft_index_handle f" a]
    by (simp add: d_def Footer_EncodeTo_def resize_def PutFixed32_def BlockHandle_kMaxEncodedLength_def Let_def ab pad_def lh)
  have m: "drop 40 d = lo @ hi @ rest" and l: "\<not> length d < 48"
    using len by (simp_all add: d pad_def lh)
  have k: "Footer_kEncodedLength = 48" "48 - 8 = (40 :: nat)" by (simp_all add: Footer_kEncodedLength_def BlockHandle_kMaxEncodedLength_def)
  have "BlockHandle_DecodeFrom d h = (OK, ft_metaindex_handle f, b @ pad @ lo @ hi @ rest)"
    "BlockHandle_DecodeFrom (b @ pad @ lo @ hi @ rest) h = (OK, ft_index_handle f, pad @ lo @ hi @ rest)" for h
    by (simp_all add: d ab BlockHandle_Decode_Encode)
  moreover have "push_bit 32 (ucast (DecodeFixed32 (drop 4 (lo @ hi @ rest)))) OR ucast (DecodeFixed32 (lo @ hi @ rest)) = kTableMagicNumber"
    by (simp only: lh drop_append length_EncodeFixed append.simps diff_self_eq_0 drop_0 drop_all [OF order.refl, of "EncodeFixed32 _", unfolded length_EncodeFixed] DecodeFixed_Encode magic_words)
  moreover have "drop 8 (lo @ hi @ rest) = rest" by (simp add: lh)
  ultimately show ?thesis
    using l by (simp add: Footer_DecodeFrom_def k m Let_def Status_kinds flip: d_def)
qed

text \<open>A block as the builder of tables stores it: data, type and checksum.\<close>

definition stored_block :: "slice \<Rightarrow> byte list" where
  "stored_block data = data @ [0] @ EncodeFixed32 (Mask (crc32c_spec 0 (data @ [0])))"

definition stored :: "byte list \<Rightarrow> BlockHandle \<Rightarrow> slice \<Rightarrow> bool" where
  "stored content h data \<longleftrightarrow>
     (\<exists>pre post. content = pre @ stored_block data @ post \<and> bh_offset h = of_nat (length pre) \<and> bh_size h = of_nat (length data))"

lemma stored_append: "stored content h data \<Longrightarrow> stored (content @ cs) h data"
  unfolding stored_def by fastforce

context random_access begin

lemma ReadBlock_stored:
  assumes "stored content h data" "length content < 2 ^ 63"
  shows "\<exists>own. ReadBlock raf options h = Some (OK, \<lparr>bc_data = data, bc_cachable = own, bc_heap_allocated = own\<rparr>)"
proof -
  obtain pre post where c: "content = pre @ stored_block data @ post" and h: "bh_offset h = of_nat (length pre)" "bh_size h = of_nat (length data)"
    using assms(1) by (auto simp: stored_def)
  have len: "length (stored_block data) = length data + 5" by (simp add: stored_block_def)
  have c: "content = pre @ stored_block data @ post" "unat (bh_offset h) = length pre" "unat (bh_size h) = length data"
    using c assms(2) len by (simp_all add: h unat_of_nat_small)
  have n: "unat (bh_size h + 5) = length data + 5" using assms(2) c(3) len by (simp add: c(1) unat_word_ariths)
  obtain own where own: "raf (bh_offset h) (bh_size h + 5) = Some (OK, take (length data + 5) (drop (length pre) content), own)"
    using reads [of "bh_offset h" "bh_size h + 5"] assms(2) n c(2) len by (auto simp: c(1))
  have t: "take (length data + 5) (drop (length pre) content) = stored_block data"
    using len by (simp add: c(1))
  have crc: "Unmask (DecodeFixed32 (drop (length data + 1) (stored_block data))) = Value 0 (take (length data + 1) (stored_block data))"
    using DecodeFixed_Encode(1) [of _ "[]"] by (simp add: stored_block_def Unmask_Mask Value_def Extend_spec)
  have "stored_block data ! length data = 0" "take (length data) (stored_block data) = data" by (simp_all add: stored_block_def)
  then show ?thesis
    using own t n len crc by (simp add: ReadBlock_def kBlockTrailerSize_def c(3) compression_byte_def Status_kinds)
qed

end

text \<open>The wrap-around: a corrupt handle with a size close to \<^verbatim>\<open>2^64\<close> passes the check of the length.\<close>

lemma ReadBlock_wraps:
  assumes "file pos 0 = Some (OK, [], own)"
  shows "ReadBlock file options \<lparr>bh_offset = pos, bh_size = - 5\<rparr> = None"
  using assms by (simp add: ReadBlock_def kBlockTrailerSize_def Status_kinds)

end
