(* ===== verification/Ldb_FilterBlock.thy ===== *)
theory Ldb_FilterBlock
  imports Ldb_Bloom "HOL-Library.Sublist"
begin

text \<open>
  \<^verbatim>\<open>table/filter_block.cc\<close>: the filters of a table, one for every two kilobytes of data, and
  that a key never misses the filter of its block.
\<close>

section \<open>Building\<close>

definition kFilterBaseLg :: nat where
  "kFilterBaseLg = 11"

definition kFilterBase :: size_t where
  "kFilterBase = 2048"

text \<open>\<open>tmp_keys_\<close> is local to \<open>GenerateFilter\<close>. The policy is an argument.\<close>

record FilterBlockBuilder =
  fbb_keys :: "byte list"
  fbb_start :: "nat list"
  fbb_result :: "byte list"
  fbb_filter_offsets :: "u32 list"

definition make_FilterBlockBuilder :: FilterBlockBuilder where
  "make_FilterBlockBuilder = \<lparr>fbb_keys = [], fbb_start = [], fbb_result = [], fbb_filter_offsets = []\<rparr>"

definition GenerateFilter :: "filter_policy \<Rightarrow> FilterBlockBuilder \<Rightarrow> FilterBlockBuilder" where
  "GenerateFilter policy b =
     (let num_keys = length (fbb_start b); offsets = fbb_filter_offsets b @ [of_nat (length (fbb_result b))]
      in if num_keys = 0 then b\<lparr>fbb_filter_offsets := offsets\<rparr>
         else let start = fbb_start b @ [length (fbb_keys b)];
                  tmp_keys = map (\<lambda>i. take (start ! (i + 1) - start ! i) (drop (start ! i) (fbb_keys b))) [0..<num_keys]
              in b\<lparr>fbb_filter_offsets := offsets, fbb_result := fbb_result b @ CreateFilter policy tmp_keys,
                   fbb_keys := [], fbb_start := []\<rparr>)"

lemma length_GenerateFilter: "length (fbb_filter_offsets (GenerateFilter p b)) = Suc (length (fbb_filter_offsets b))"
  by (simp add: GenerateFilter_def Let_def)

function generate_until :: "filter_policy \<Rightarrow> u64 \<Rightarrow> FilterBlockBuilder \<Rightarrow> FilterBlockBuilder" where
  "generate_until policy filter_index b =
     (if unat filter_index > length (fbb_filter_offsets b)
      then generate_until policy filter_index (GenerateFilter policy b) else b)"
  by pat_completeness auto
termination
  by (relation "measure (\<lambda>(p, i, b). unat i - length (fbb_filter_offsets b))") (auto simp: length_GenerateFilter)

declare generate_until.simps [simp del]

definition StartBlock :: "filter_policy \<Rightarrow> u64 \<Rightarrow> FilterBlockBuilder \<Rightarrow> FilterBlockBuilder" where
  "StartBlock policy block_offset b = generate_until policy (block_offset div kFilterBase) b"

definition FilterBlock_AddKey :: "slice \<Rightarrow> FilterBlockBuilder \<Rightarrow> FilterBlockBuilder" where
  "FilterBlock_AddKey key b =
     b\<lparr>fbb_start := fbb_start b @ [length (fbb_keys b)], fbb_keys := fbb_keys b @ key\<rparr>"

definition FilterBlock_Finish :: "filter_policy \<Rightarrow> FilterBlockBuilder \<Rightarrow> slice \<times> FilterBlockBuilder" where
  "FilterBlock_Finish policy b =
     (let b = (if fbb_start b \<noteq> [] then GenerateFilter policy b else b);
          array_offset = of_nat (length (fbb_result b)) :: u32;
          result = foldl PutFixed32 (fbb_result b) (fbb_filter_offsets b);
          result = PutFixed32 result array_offset;
          result = result @ [of_nat kFilterBaseLg]
      in (result, b\<lparr>fbb_result := result\<rparr>))"

section \<open>Reading\<close>

text \<open>Pointers are offsets into the contents; \<open>base_lg_\<close> is the last character, extended with its sign.\<close>

record FilterBlockReader =
  fbr_data :: "byte list"
  fbr_offset :: nat
  fbr_num :: nat
  fbr_base_lg :: size_t

definition make_FilterBlockReader :: "slice \<Rightarrow> FilterBlockReader" where
  "make_FilterBlockReader contents =
     (let r = \<lparr>fbr_data = [], fbr_offset = 0, fbr_num = 0, fbr_base_lg = 0\<rparr>; n = length contents
      in if n < 5 then r
         else let r = r\<lparr>fbr_base_lg := scast (contents ! (n - 1))\<rparr>;
                  last_word = unat (DecodeFixed32 (drop (n - 5) contents))
              in if last_word > n - 5 then r
                 else r\<lparr>fbr_data := contents, fbr_offset := last_word, fbr_num := (n - 5 - last_word) div 4\<rparr>)"

text \<open>A shift by 64 or more is undefined.\<close>

definition FilterBlock_KeyMayMatch :: "filter_policy \<Rightarrow> u64 \<Rightarrow> slice \<Rightarrow> FilterBlockReader \<Rightarrow> bool option" where
  "FilterBlock_KeyMayMatch policy block_offset key r =
     (if unat (fbr_base_lg r) \<ge> 64 then None
      else let index = unat (drop_bit (unat (fbr_base_lg r)) block_offset)
           in if index < fbr_num r then
                let start = unat (DecodeFixed32 (drop (fbr_offset r + index * 4) (fbr_data r)));
                    limit = unat (DecodeFixed32 (drop (fbr_offset r + index * 4 + 4) (fbr_data r)))
                in if start \<le> limit \<and> limit \<le> fbr_offset r
                   then Some (KeyMayMatch policy key (take (limit - start) (drop start (fbr_data r))))
                   else if start = limit then Some False
                   else Some True
              else Some True)"

section \<open>The filters of a sequence of blocks\<close>

text \<open>The calls that \<^verbatim>\<open>filter_block.h\<close> allows: for each block its offset and its keys, then \<open>Finish\<close>.\<close>

definition add_block :: "filter_policy \<Rightarrow> u64 \<times> slice list \<Rightarrow> FilterBlockBuilder \<Rightarrow> FilterBlockBuilder" where
  "add_block policy blk b = fold FilterBlock_AddKey (snd blk) (StartBlock policy (fst blk) b)"

definition filter_block :: "filter_policy \<Rightarrow> (u64 \<times> slice list) list \<Rightarrow> slice" where
  "filter_block policy blks = fst (FilterBlock_Finish policy (fold (add_block policy) blks make_FilterBlockBuilder))"

definition filter_bytes :: "filter_policy \<Rightarrow> slice list \<Rightarrow> byte list" where
  "filter_bytes policy ks = (if ks = [] then [] else CreateFilter policy ks)"

definition filter_off :: "filter_policy \<Rightarrow> slice list list \<Rightarrow> nat \<Rightarrow> nat" where
  "filter_off policy gs i = length (concat (map (filter_bytes policy) (take i gs)))"

text \<open>The filters made so far are those of the groups \<open>gs\<close>; the keys \<open>ps\<close> wait for the next one.\<close>

definition fb_inv :: "filter_policy \<Rightarrow> slice list list \<Rightarrow> slice list \<Rightarrow> FilterBlockBuilder \<Rightarrow> bool" where
  "fb_inv policy gs ps b \<longleftrightarrow>
     fbb_keys b = concat ps \<and> fbb_start b = map (\<lambda>i. length (concat (take i ps))) [0..<length ps] \<and>
     fbb_result b = concat (map (filter_bytes policy) gs) \<and>
     fbb_filter_offsets b = map (\<lambda>i. of_nat (filter_off policy gs i)) [0..<length gs]"

lemma concat_piece:
  "i < length ps \<Longrightarrow> take (length (concat (take (Suc i) ps)) - length (concat (take i ps)))
     (drop (length (concat (take i ps))) (concat ps)) = ps ! i"
proof -
  assume i: "i < length ps"
  have "concat ps = concat (take i ps) @ ps ! i @ concat (drop (Suc i) ps)"
    using i by (metis append_take_drop_id concat.simps(2) concat_append Cons_nth_drop_Suc)
  then show ?thesis using i by (simp add: take_Suc_conv_app_nth)
qed

lemma filter_off_all: "filter_off p gs (length gs) = length (concat (map (filter_bytes p) gs))"
  by (simp add: filter_off_def)

lemma filter_off_append: "i \<le> length gs \<Longrightarrow> filter_off p (gs @ hs) i = filter_off p gs i"
  by (simp add: filter_off_def)

lemma fb_inv_Generate:
  assumes "fb_inv p gs ps b"
  shows "fb_inv p (gs @ [ps]) [] (GenerateFilter p b)"
proof -
  have n: "length (fbb_start b) = length ps" using assms by (simp add: fb_inv_def)
  have offs: "fbb_filter_offsets b @ [of_nat (length (fbb_result b))] =
      map (\<lambda>i. of_nat (filter_off p (gs @ [ps]) i)) [0..<length (gs @ [ps])]"
    using assms by (simp add: fb_inv_def filter_off_append filter_off_all)
  show ?thesis
  proof (cases "ps = []")
    case True
    then show ?thesis using assms offs n by (simp add: fb_inv_def GenerateFilter_def filter_bytes_def)
  next
    case False
    let ?s = "fbb_start b @ [length (fbb_keys b)]"
    have s: "?s ! i = length (concat (take i ps))" if "i \<le> length ps" for i
      using assms that n by (cases "i = length ps") (auto simp: fb_inv_def nth_append)
    have "map (\<lambda>i. take (?s ! (i + 1) - ?s ! i) (drop (?s ! i) (fbb_keys b))) [0..<length ps] = ps"
    proof (rule nth_equalityI)
      fix i assume "i < length (map (\<lambda>i. take (?s ! (i + 1) - ?s ! i) (drop (?s ! i) (fbb_keys b))) [0..<length ps])"
      then have i: "i < length ps" by simp
      then show "map (\<lambda>i. take (?s ! (i + 1) - ?s ! i) (drop (?s ! i) (fbb_keys b))) [0..<length ps] ! i = ps ! i"
        using s [of i] s [of "Suc i"] concat_piece [OF i] assms by (simp add: fb_inv_def)
    qed simp
    then show ?thesis using False assms offs n by (simp add: fb_inv_def GenerateFilter_def filter_bytes_def Let_def)
  qed
qed

lemma fb_inv_AddKey: "fb_inv p gs ps b \<Longrightarrow> fb_inv p gs (ps @ [k]) (FilterBlock_AddKey k b)"
  by (simp add: fb_inv_def FilterBlock_AddKey_def)

lemma fb_inv_AddKeys: "fb_inv p gs ps b \<Longrightarrow> fb_inv p gs (ps @ ks) (fold FilterBlock_AddKey ks b)"
proof (induction ks arbitrary: ps b)
  case (Cons k ks)
  then show ?case using Cons.IH [OF fb_inv_AddKey [OF Cons.prems]] by simp
qed simp

text \<open>Generating up to \<open>index\<close>: the waiting keys go into the next group, then empty groups follow.\<close>

lemma fb_inv_until:
  assumes "fb_inv p gs ps b" "length gs \<le> unat index"
  shows "fb_inv p (if length gs < unat index then gs @ ps # replicate (unat index - length gs - 1) [] else gs)
    (if length gs < unat index then [] else ps) (generate_until p index b)"
  using assms
proof (induction "unat index - length gs" arbitrary: gs ps b)
  case 0
  then show ?case by (simp add: fb_inv_def generate_until.simps [of _ _ b])
next
  case (Suc x)
  have n: "length (fbb_filter_offsets b) = length gs" using Suc.prems by (simp add: fb_inv_def)
  have "fb_inv p (if length (gs @ [ps]) < unat index then (gs @ [ps]) @ [] # replicate (unat index - length (gs @ [ps]) - 1) [] else gs @ [ps])
      (if length (gs @ [ps]) < unat index then [] else []) (generate_until p index (GenerateFilter p b))"
    using Suc.hyps(2) by (intro Suc.hyps(1) fb_inv_Generate Suc.prems) auto
  moreover have "generate_until p index b = generate_until p index (GenerateFilter p b)"
    using n Suc.hyps(2) by (simp add: generate_until.simps [of _ _ b])
  moreover have "ps # replicate (unat index - length gs - 1) [] =
      ps # (if length (gs @ [ps]) < unat index then [] # replicate (unat index - length (gs @ [ps]) - 1) [] else [])"
    using Suc.hyps(2) by (auto simp flip: replicate_Suc simp: Suc_diff_Suc)
  ultimately show ?case using Suc.hyps(2) by (auto split: if_splits)
qed


section \<open>Where the keys go\<close>

text \<open>The group of a block is that of its offset; the waiting keys are the group after \<open>gs\<close>.\<close>

definition group_of :: "u64 \<Rightarrow> nat" where
  "group_of off = unat off div 2048"

lemma unat_filter_index: "unat (off div kFilterBase) = group_of off" "unat (off div 2048) = group_of off"
  by (simp_all add: kFilterBase_def group_of_def unat_div_distrib)

lemma add_block_inv:
  assumes "fb_inv p gs ps b" "length gs \<le> group_of off"
  shows "\<exists>gs' ps'. fb_inv p gs' ps' (add_block p (off, ks) b) \<and> length gs' = group_of off \<and>
    gs' @ [ps'] = (if length gs < group_of off then gs @ ps # replicate (group_of off - length gs - 1) [] @ [ks]
      else gs @ [ps @ ks])"
proof -
  let ?g = "group_of off"
  let ?gs = "if length gs < ?g then gs @ ps # replicate (?g - length gs - 1) [] else gs"
  let ?ps = "if length gs < ?g then [] else ps"
  have "fb_inv p ?gs ?ps (StartBlock p off b)"
    using fb_inv_until [OF assms(1), of "off div kFilterBase"] assms(2)
    unfolding StartBlock_def unat_filter_index by simp
  then have "fb_inv p ?gs (?ps @ ks) (add_block p (off, ks) b)" by (simp add: add_block_def fb_inv_AddKeys)
  then show ?thesis using assms(2) by (intro exI [of _ ?gs] exI [of _ "?ps @ ks"]) simp
qed

text \<open>Groups only grow, and each is a run of consecutive keys.\<close>

definition grows :: "slice list list \<Rightarrow> slice list list \<Rightarrow> bool" where
  "grows G G' \<longleftrightarrow> length G \<le> length G' \<and> (\<forall>i < length G. set (G ! i) \<subseteq> set (G' ! i))"

lemma add_blocks_inv:
  assumes "fb_inv p gs ps b" "sorted (map group_of (map fst blks))" "\<forall>blk \<in> set blks. length gs \<le> group_of (fst blk)"
  shows "\<exists>gs' ps'. fb_inv p gs' ps' (fold (add_block p) blks b) \<and> grows (gs @ [ps]) (gs' @ [ps']) \<and>
    concat (gs' @ [ps']) = concat (gs @ [ps]) @ concat (map snd blks) \<and>
    (\<forall>blk \<in> set blks. group_of (fst blk) \<le> length gs' \<and> set (snd blk) \<subseteq> set ((gs' @ [ps']) ! group_of (fst blk)))"
  using assms
proof (induction blks arbitrary: gs ps b)
  case Nil
  then show ?case by (auto simp: grows_def)
next
  case (Cons blk blks)
  obtain off ks where blk: "blk = (off, ks)" by (cases blk)
  have le: "length gs \<le> group_of off" using Cons.prems(3) blk by simp
  obtain gs1 ps1 where 1: "fb_inv p gs1 ps1 (add_block p (off, ks) b)" "length gs1 = group_of off"
    "gs1 @ [ps1] = (if length gs < group_of off then gs @ ps # replicate (group_of off - length gs - 1) [] @ [ks]
      else gs @ [ps @ ks])"
    using add_block_inv [OF Cons.prems(1) le] by blast
  have "sorted (map group_of (map fst blks))" "\<forall>blk \<in> set blks. length gs1 \<le> group_of (fst blk)"
    using Cons.prems(2) blk 1(2) by auto
  then obtain gs2 ps2 where 2: "fb_inv p gs2 ps2 (fold (add_block p) blks (add_block p (off, ks) b))"
    "grows (gs1 @ [ps1]) (gs2 @ [ps2])" "concat (gs2 @ [ps2]) = concat (gs1 @ [ps1]) @ concat (map snd blks)"
    "\<forall>blk \<in> set blks. group_of (fst blk) \<le> length gs2 \<and> set (snd blk) \<subseteq> set ((gs2 @ [ps2]) ! group_of (fst blk))"
    using Cons.IH [OF 1(1)] by blast
  have "concat (gs1 @ [ps1]) = concat (gs @ [ps]) @ ks" using 1(3) by (simp split: if_splits)
  moreover have g: "grows (gs @ [ps]) (gs1 @ [ps1])"
    using le 1(2) unfolding 1(3) by (auto simp: grows_def nth_append nth_Cons split: nat.splits)
  have "grows (gs @ [ps]) (gs2 @ [ps2])"
    using g 2(2) unfolding grows_def by (meson order.strict_trans2 order.trans)
  moreover have "set ks \<subseteq> set ((gs1 @ [ps1]) ! group_of off)"
    using le unfolding 1(3) by (auto simp: nth_append nth_Cons split: nat.splits)
  then have "group_of off \<le> length gs2 \<and> set ks \<subseteq> set ((gs2 @ [ps2]) ! group_of off)"
    using 2(2) 1(2) by (auto simp: grows_def)
  ultimately show ?case using 2 blk by auto
qed

lemma finish_inv:
  assumes "fb_inv p gs ps b"
  defines "gs' \<equiv> (if ps = [] then gs else gs @ [ps])"
  shows "fst (FilterBlock_Finish p b) =
    concat (map (filter_bytes p) gs') @ concat (map EncodeFixed32 (map (\<lambda>i. of_nat (filter_off p gs' i)) [0..<Suc (length gs')])) @ [11]"
proof -
  have put: "foldl PutFixed32 r ws = r @ concat (map EncodeFixed32 ws)" for r ws
    by (induction ws arbitrary: r) (simp_all add: PutFixed32_def)
  have n: "fbb_start b \<noteq> [] \<longleftrightarrow> ps \<noteq> []" using assms(1) by (auto simp: fb_inv_def)
  have "fb_inv p gs' [] (if fbb_start b \<noteq> [] then GenerateFilter p b else b)"
    using n assms(1) fb_inv_Generate [OF assms(1)] by (auto simp: gs'_def)
  then show ?thesis
    by (simp add: FilterBlock_Finish_def Let_def fb_inv_def put PutFixed32_def filter_off_all kFilterBaseLg_def)
qed

section \<open>Reading the filters back\<close>

lemma filter_off_Suc: "i < length gs \<Longrightarrow> filter_off p gs (Suc i) = filter_off p gs i + length (filter_bytes p (gs ! i))"
  by (simp add: filter_off_def take_Suc_conv_app_nth)

lemma filter_off_mono: "i \<le> length gs \<Longrightarrow> filter_off p gs i \<le> filter_off p gs (length gs)"
proof (induction "length gs - i" arbitrary: i)
  case (Suc x)
  then show ?case using filter_off_Suc [of i gs p] Suc.hyps(1) [of "Suc i"] by fastforce
qed simp

lemma filter_piece:
  assumes "i < length gs"
  shows "take (filter_off p gs (Suc i) - filter_off p gs i) (drop (filter_off p gs i) (concat (map (filter_bytes p) gs) @ rest)) =
    filter_bytes p (gs ! i)"
  using concat_piece [of i "map (filter_bytes p) gs"] filter_off_mono [of "Suc i" gs p] assms
  by (simp add: filter_off_def take_map)

lemma read_group:
  assumes i: "group_of off < length gs" and g: "gs ! group_of off \<noteq> []"
    and n: "filter_off p gs (length gs) < 2 ^ 32"
  defines "c \<equiv> concat (map (filter_bytes p) gs) @
    concat (map EncodeFixed32 (map (\<lambda>i. of_nat (filter_off p gs i)) [0..<Suc (length gs)])) @ [11]"
  shows "FilterBlock_KeyMayMatch p off k (make_FilterBlockReader c) =
    Some (KeyMayMatch p k (CreateFilter p (gs ! group_of off)))"
proof -
  let ?R = "concat (map (filter_bytes p) gs)"
  define ws :: "u32 list" where "ws = map (\<lambda>i. of_nat (filter_off p gs i)) [0..<Suc (length gs)]"
  have R: "length ?R = filter_off p gs (length gs)" by (simp add: filter_off_all)
  have c: "c = ?R @ concat (map EncodeFixed32 ws) @ [11]" by (simp add: c_def ws_def)
  have len: "length (concat (map EncodeFixed32 ws)) = 4 * Suc (length gs)"
    by (simp add: length_concat comp_def ws_def sum_list_triv del: upt_Suc)
  have word: "unat (DecodeFixed32 (drop (length ?R + 4 * j) c)) = filter_off p gs j" if j: "j \<le> length gs" for j
  proof -
    have jl: "j < length ws" using j by (simp add: ws_def)
    obtain rest where "drop (4 * j) (concat (map EncodeFixed32 ws) @ [11]) = EncodeFixed32 (ws ! j) @ rest"
      using concat_fixed_nth [OF jl, of "[11]"] by blast
    then have "drop (length ?R + 4 * j) c = EncodeFixed32 (ws ! j) @ rest" unfolding c by simp
    moreover have "ws ! j = of_nat (filter_off p gs j)" using j by (simp add: ws_def del: upt_Suc)
    ultimately show ?thesis using filter_off_mono [OF j, of p] n by (simp add: unat_of_nat_small)
  qed
  have n5: "length c - 5 = length ?R + 4 * length gs" and l5: "\<not> length c < 5" using len by (simp_all add: c)
  have r: "make_FilterBlockReader c =
      \<lparr>fbr_data = c, fbr_offset = length ?R, fbr_num = length gs, fbr_base_lg = 11\<rparr>"
  proof -
    have "c ! (length c - 1) = 11" using len by (simp add: c nth_append)
    then show ?thesis using l5 word [of "length gs"] n5 R by (simp add: make_FilterBlockReader_def Let_def)
  qed
  have idx: "unat (drop_bit 11 off) = group_of off"
    by (simp add: drop_bit_eq_div unat_filter_index)
  have "filter_off p gs (Suc (group_of off)) \<le> length ?R" "filter_off p gs (group_of off) \<le> filter_off p gs (Suc (group_of off))"
    using filter_off_mono [of "Suc (group_of off)" gs p] filter_off_Suc [OF i, of p] i R by simp_all
  moreover have "take (filter_off p gs (Suc (group_of off)) - filter_off p gs (group_of off)) (drop (filter_off p gs (group_of off)) c) =
      CreateFilter p (gs ! group_of off)"
    unfolding c filter_piece [OF i] using g by (simp add: filter_bytes_def)
  moreover have "unat (DecodeFixed32 (drop (length ?R + group_of off * 4) c)) = filter_off p gs (group_of off)"
    "unat (DecodeFixed32 (drop (length ?R + group_of off * 4 + 4) c)) = filter_off p gs (Suc (group_of off))"
    using word [of "group_of off"] word [of "Suc (group_of off)"] i by (simp_all add: ac_simps)
  moreover have "unat (11 :: size_t) = 11" by simp
  ultimately show ?thesis
    using i by (simp only: FilterBlock_KeyMayMatch_def r idx Let_def FilterBlockReader.select_convs) simp
qed

lemma filter_block_total: "\<exists>b. FilterBlock_KeyMayMatch p off k (make_FilterBlockReader (filter_block q blks)) = Some b"
proof -
  obtain y :: "byte list" and w where c: "filter_block q blks = y @ EncodeFixed32 w @ [11]"
    by (auto simp: filter_block_def FilterBlock_Finish_def Let_def PutFixed32_def kFilterBaseLg_def)
  have "fbr_base_lg (make_FilterBlockReader (filter_block q blks)) = 11"
    unfolding c by (simp add: make_FilterBlockReader_def Let_def nth_append)
  then have "FilterBlock_KeyMayMatch p off k (make_FilterBlockReader (filter_block q blks)) \<noteq> None"
    by (simp add: FilterBlock_KeyMayMatch_def Let_def del: not_None_eq)
  then show ?thesis by blast
qed

context filter_contract begin

lemma filter_block_complete:
  assumes ord: "sorted (map (\<lambda>blk. unat (fst blk)) blks)"
    and ok: "\<forall>g. sublist g (concat (map snd blks)) \<longrightarrow> ok g"
    and n: "length (filter_block p blks) < 2 ^ 32" and blk: "(off, ks) \<in> set blks" and k: "k \<in> set ks"
  shows "FilterBlock_KeyMayMatch p off k (make_FilterBlockReader (filter_block p blks)) = Some True"
proof -
  have "fb_inv p [] [] make_FilterBlockBuilder" by (simp add: fb_inv_def make_FilterBlockBuilder_def)
  moreover have "sorted (map group_of (map fst blks))"
    using ord by (induction blks) (auto simp: group_of_def div_le_mono)
  ultimately obtain gs ps where inv: "fb_inv p gs ps (fold (add_block p) blks make_FilterBlockBuilder)"
    and all: "concat (gs @ [ps]) = concat (map snd blks)"
    and mem: "\<forall>blk \<in> set blks. group_of (fst blk) \<le> length gs \<and> set (snd blk) \<subseteq> set ((gs @ [ps]) ! group_of (fst blk))"
    using add_blocks_inv [of p "[]" "[]" make_FilterBlockBuilder blks] by auto
  define gs' where "gs' = (if ps = [] then gs else gs @ [ps])"
  have fb: "filter_block p blks = concat (map (filter_bytes p) gs') @
      concat (map EncodeFixed32 (map (\<lambda>i. of_nat (filter_off p gs' i)) [0..<Suc (length gs')])) @ [11]"
    using finish_inv [OF inv] by (simp add: filter_block_def gs'_def)
  have "k \<in> set ((gs @ [ps]) ! group_of off)" "group_of off \<le> length gs" using mem blk k by fastforce+
  then have i: "group_of off < length gs'" and ki: "k \<in> set (gs' ! group_of off)"
    by (auto simp: gs'_def nth_append split: if_splits)
  have "concat gs' = concat (map snd blks)" using all by (auto simp: gs'_def)
  moreover have "concat gs' = concat (take (group_of off) gs') @ gs' ! group_of off @ concat (drop (Suc (group_of off)) gs')"
    using i by (metis append_take_drop_id concat.simps(2) concat_append Cons_nth_drop_Suc)
  ultimately have "ok (gs' ! group_of off)" using ok by (metis sublist_appendI)
  then have "KeyMayMatch p k (CreateFilter p (gs' ! group_of off))" by (rule may_match [OF _ ki])
  moreover have "filter_off p gs' (length gs') < 2 ^ 32" using n by (simp add: fb filter_off_all)
  moreover have "gs' ! group_of off \<noteq> []" using ki by auto
  ultimately show ?thesis using read_group [OF i, of p k] by (simp add: fb)
qed

end

text \<open>
  (C14) A table's filters never miss: whatever user policy without false negatives is used, and
  for blocks at increasing offsets, the reader of the finished filter block answers that a key
  may be in its block for every key that was added for that block, as long as the filters
  stay below 4 GB (their offsets are 32 bits).
\<close>

theorem filter_block_no_false_negatives:
  assumes "filter_contract p ok" "sorted (map (\<lambda>blk. unat (fst blk)) blks)"
    "\<forall>g. sublist g (concat (map snd blks)) \<longrightarrow> ok g"
    "length (filter_block p blks) < 2 ^ 32" "(off, ks) \<in> set blks" "k \<in> set ks"
  shows "FilterBlock_KeyMayMatch p off k (make_FilterBlockReader (filter_block p blks)) = Some True"
  by (rule filter_contract.filter_block_complete [OF assms])

theorem filter_block_no_false_negatives_witness:
  "FilterBlock_KeyMayMatch (NewBloomFilterPolicy 10) 5000 (lit ''c'') (make_FilterBlockReader
     (filter_block (NewBloomFilterPolicy 10) [(0, [lit ''a'', lit ''b'']), (5000, [lit ''c''])])) = Some True"
proof (rule filter_block_no_false_negatives [where ok = "\<lambda>keys. length keys * 10 < 2 ^ 63" and ks = "[lit ''c'']"])
  show "filter_contract (NewBloomFilterPolicy 10) (\<lambda>keys. length keys * 10 < 2 ^ 63)" by (rule bloom.filter_contract_axioms)
  show "\<forall>g. sublist g (concat (map snd [(0, [lit ''a'', lit ''b'']), (5000, [lit ''c''])])) \<longrightarrow> length g * 10 < 2 ^ 63"
    using sublist_length_le by fastforce
  have "length (filter_block (NewBloomFilterPolicy 10) [(0, [lit ''a'', lit ''b'']), (5000, [lit ''c''])]) = 35" by code_simp
  then show "length (filter_block (NewBloomFilterPolicy 10) [(0, [lit ''a'', lit ''b'']), (5000, [lit ''c''])]) < 2 ^ 32" by simp
qed simp_all

end
