(* ===== verification/Ldb_TwoLevel.thy ===== *)
theory Ldb_TwoLevel
  imports Ldb_Wrapper
begin

text \<open>
  \<^verbatim>\<open>table/two_level_iterator.cc\<close>: an index iterator yields the handles of data blocks, whose
  entries are concatenated.
\<close>

section \<open>The iterator\<close>

text \<open>
  \<open>iit\<close> and \<open>dit\<close> are the operations of the index iterator and of the data iterators, \<open>bf\<close> the
  block function with its argument and options: it makes an iterator from a handle, also
  when the block cannot be read, if it returns.
\<close>

record ('i, 'd) two_level =
  tl_status :: Status
  tl_index :: "'i wrapper"
  tl_data :: "'d wrapper"
  tl_handle :: slice

definition make_TwoLevelIterator :: "'i iterator \<Rightarrow> 'i \<Rightarrow> ('i, 'd) two_level" where
  "make_TwoLevelIterator iit index_iter =
     \<lparr>tl_status = OK, tl_index = iw_Set iit (Some index_iter) make_IteratorWrapper,
      tl_data = make_IteratorWrapper, tl_handle = []\<rparr>"

definition SaveError :: "Status \<Rightarrow> ('i, 'd) two_level \<Rightarrow> ('i, 'd) two_level" where
  "SaveError s t = (if Status_ok (tl_status t) \<and> \<not> Status_ok s then t\<lparr>tl_status := s\<rparr> else t)"

definition SetDataIterator :: "'d iterator \<Rightarrow> 'd option \<Rightarrow> ('i, 'd) two_level \<Rightarrow> ('i, 'd) two_level" where
  "SetDataIterator dit data_iter t =
     (let t = (if iw_iter (tl_data t) \<noteq> None then SaveError (iw_status dit (tl_data t)) t else t)
      in t\<lparr>tl_data := iw_Set dit data_iter (tl_data t)\<rparr>)"

definition InitDataBlock ::
  "'i iterator \<Rightarrow> 'd iterator \<Rightarrow> (slice \<Rightarrow> 'd option) \<Rightarrow> ('i, 'd) two_level \<Rightarrow> ('i, 'd) two_level option" where
  "InitDataBlock iit dit bf t =
     (if \<not> iw_valid (tl_index t) then Some (SetDataIterator dit None t)
      else Option.bind (iw_value iit (tl_index t)) (\<lambda>handle.
        if iw_iter (tl_data t) \<noteq> None \<and> Slice_compare handle (tl_handle t) = 0 then Some t
        else Option.bind (bf handle) (\<lambda>iter.
          Some (SetDataIterator dit (Some iter) (t\<lparr>tl_handle := handle\<rparr>)))))"

text \<open>\<^verbatim>\<open>if (data_iter_.iter() != nullptr) data_iter_...\<close>\<close>

definition with_index :: "('i wrapper \<Rightarrow> 'i wrapper option) \<Rightarrow> ('i, 'd) two_level \<Rightarrow> ('i, 'd) two_level option" where
  "with_index f t = map_option (\<lambda>w. t\<lparr>tl_index := w\<rparr>) (f (tl_index t))"

definition with_data :: "('d wrapper \<Rightarrow> 'd wrapper option) \<Rightarrow> ('i, 'd) two_level \<Rightarrow> ('i, 'd) two_level option" where
  "with_data f t = map_option (\<lambda>w. t\<lparr>tl_data := w\<rparr>) (f (tl_data t))"

definition if_data :: "('d wrapper \<Rightarrow> 'd wrapper option) \<Rightarrow> ('i, 'd) two_level \<Rightarrow> ('i, 'd) two_level option" where
  "if_data f t = (if iw_iter (tl_data t) \<noteq> None then with_data f t else Some t)"

partial_function (option) SkipEmptyDataBlocksForward ::
  "'i iterator \<Rightarrow> 'd iterator \<Rightarrow> (slice \<Rightarrow> 'd option) \<Rightarrow> ('i, 'd) two_level \<Rightarrow> ('i, 'd) two_level option" where
  "SkipEmptyDataBlocksForward iit dit bf t =
     (if iw_iter (tl_data t) = None \<or> \<not> iw_valid (tl_data t) then
        if \<not> iw_valid (tl_index t) then Some (SetDataIterator dit None t)
        else Option.bind (with_index (iw_Next iit) t) (\<lambda>t.
          Option.bind (InitDataBlock iit dit bf t) (\<lambda>t.
            Option.bind (if_data (iw_SeekToFirst dit) t) (SkipEmptyDataBlocksForward iit dit bf)))
      else Some t)"

partial_function (option) SkipEmptyDataBlocksBackward ::
  "'i iterator \<Rightarrow> 'd iterator \<Rightarrow> (slice \<Rightarrow> 'd option) \<Rightarrow> ('i, 'd) two_level \<Rightarrow> ('i, 'd) two_level option" where
  "SkipEmptyDataBlocksBackward iit dit bf t =
     (if iw_iter (tl_data t) = None \<or> \<not> iw_valid (tl_data t) then
        if \<not> iw_valid (tl_index t) then Some (SetDataIterator dit None t)
        else Option.bind (with_index (iw_Prev iit) t) (\<lambda>t.
          Option.bind (InitDataBlock iit dit bf t) (\<lambda>t.
            Option.bind (if_data (iw_SeekToLast dit) t) (SkipEmptyDataBlocksBackward iit dit bf)))
      else Some t)"

text \<open>\<open>Seek\<close>, \<open>SeekToFirst\<close> and \<open>SeekToLast\<close> have the same shape.\<close>

definition tl_seek ::
  "'i iterator \<Rightarrow> 'd iterator \<Rightarrow> (slice \<Rightarrow> 'd option) \<Rightarrow> ('i wrapper \<Rightarrow> 'i wrapper option) \<Rightarrow> ('d wrapper \<Rightarrow> 'd wrapper option) \<Rightarrow>
    (('i, 'd) two_level \<Rightarrow> ('i, 'd) two_level option) \<Rightarrow> ('i, 'd) two_level \<Rightarrow> ('i, 'd) two_level option" where
  "tl_seek iit dit bf f g skip t =
     Option.bind (with_index f t) (\<lambda>t.
       Option.bind (InitDataBlock iit dit bf t) (\<lambda>t. Option.bind (if_data g t) skip))"

definition tl_Seek where
  "tl_Seek iit dit bf target =
     tl_seek iit dit bf (iw_Seek iit target) (iw_Seek dit target) (SkipEmptyDataBlocksForward iit dit bf)"

definition tl_SeekToFirst where
  "tl_SeekToFirst iit dit bf =
     tl_seek iit dit bf (iw_SeekToFirst iit) (iw_SeekToFirst dit) (SkipEmptyDataBlocksForward iit dit bf)"

definition tl_SeekToLast where
  "tl_SeekToLast iit dit bf =
     tl_seek iit dit bf (iw_SeekToLast iit) (iw_SeekToLast dit) (SkipEmptyDataBlocksBackward iit dit bf)"

definition tl_Next where
  "tl_Next iit dit bf t = Option.bind (with_data (iw_Next dit) t) (SkipEmptyDataBlocksForward iit dit bf)"

definition tl_Prev where
  "tl_Prev iit dit bf t = Option.bind (with_data (iw_Prev dit) t) (SkipEmptyDataBlocksBackward iit dit bf)"

definition tl_get_status :: "'i iterator \<Rightarrow> 'd iterator \<Rightarrow> ('i, 'd) two_level \<Rightarrow> Status" where
  "tl_get_status iit dit t =
     (if \<not> Status_ok (iw_status iit (tl_index t)) then iw_status iit (tl_index t)
      else if iw_iter (tl_data t) \<noteq> None \<and> \<not> Status_ok (iw_status dit (tl_data t)) then iw_status dit (tl_data t)
      else tl_status t)"

definition TwoLevelIterator :: "'i iterator \<Rightarrow> 'd iterator \<Rightarrow> (slice \<Rightarrow> 'd option) \<Rightarrow> ('i, 'd) two_level iterator" where
  "TwoLevelIterator iit dit bf =
     \<lparr>it_Valid = \<lambda>t. iw_valid (tl_data t), it_SeekToFirst = tl_SeekToFirst iit dit bf,
      it_SeekToLast = tl_SeekToLast iit dit bf, it_Seek = tl_Seek iit dit bf, it_Next = tl_Next iit dit bf,
      it_Prev = tl_Prev iit dit bf, it_key = \<lambda>t. iw_key (tl_data t),
      it_value = \<lambda>t. iw_value dit (tl_data t), it_status = tl_get_status iit dit\<rparr>"

definition NewTwoLevelIterator :: "'i iterator \<Rightarrow> 'i \<Rightarrow> ('i, 'd) two_level" where
  "NewTwoLevelIterator iit index_iter = make_TwoLevelIterator iit index_iter"

section \<open>Entries in blocks\<close>

text \<open>The index \<open>ixs\<close> of the blocks \<open>blks\<close>: separators and handles.\<close>

definition start :: "entries list \<Rightarrow> nat \<Rightarrow> nat" where
  "start blks j = length (concat (take j blks))"

definition indexed :: "comparator_t \<Rightarrow> (slice \<Rightarrow> bool) \<Rightarrow> entries list \<Rightarrow> entries \<Rightarrow> bool" where
  "indexed c valid blks ixs \<longleftrightarrow>
     length ixs = length blks \<and> ordered c valid (concat blks) \<and> ordered c valid ixs \<and> distinct (map snd ixs) \<and>
     (\<forall>j < length blks. \<forall>kv \<in> set (blks ! j). Compare c (fst kv) (fst (ixs ! j)) \<le> 0) \<and>
     (\<forall>j. Suc j < length blks \<longrightarrow> (\<forall>kv \<in> set (blks ! Suc j). Compare c (fst (ixs ! j)) (fst kv) < 0))"

lemma start_Suc: "j < length blks \<Longrightarrow> start blks (Suc j) = start blks j + length (blks ! j)"
  by (simp add: start_def take_Suc_conv_app_nth)

lemma start_0 [simp]: "start blks 0 = 0"
  by (simp add: start_def)

lemma start_all [simp]: "start blks (length blks) = length (concat blks)"
  by (simp add: start_def)

lemma concat_split:
  "j < length blks \<Longrightarrow> concat blks = concat (take j blks) @ blks ! j @ concat (drop (Suc j) blks)"
  by (metis append_take_drop_id concat.simps(2) concat_append Cons_nth_drop_Suc)

lemma concat_nth:
  assumes "j < length blks" "p < length (blks ! j)"
  shows "start blks j + p < length (concat blks)" "concat blks ! (start blks j + p) = blks ! j ! p"
  using assms by (simp_all add: concat_split [OF assms(1)] start_def nth_append)

section \<open>States of the iterator\<close>

text \<open>The data iterator, if any, belongs to the block of the handle.\<close>

definition data_ok ::
  "'d iterator \<Rightarrow> (entries \<Rightarrow> nat \<Rightarrow> 'd \<Rightarrow> bool) \<Rightarrow> entries list \<Rightarrow> entries \<Rightarrow> ('i, 'd) two_level \<Rightarrow> bool" where
  "data_ok dit dat blks ixs t \<longleftrightarrow>
     tl_status t = OK \<and>
     (iw_iter (tl_data t) = None \<and> \<not> iw_valid (tl_data t) \<or>
      (\<exists>k < length blks. tl_handle t = snd (ixs ! k) \<and> (\<exists>p. child_at dit dat (blks ! k) p (tl_data t))))"

definition closed ::
  "'i iterator \<Rightarrow> (entries \<Rightarrow> nat \<Rightarrow> 'i \<Rightarrow> bool) \<Rightarrow> entries \<Rightarrow> nat \<Rightarrow> ('i, 'd) two_level \<Rightarrow> bool" where
  "closed iit iat ixs j t \<longleftrightarrow>
     child_at iit iat ixs j (tl_index t) \<and> tl_status t = OK \<and> iw_iter (tl_data t) = None \<and> \<not> iw_valid (tl_data t)"

definition at_block ::
  "'i iterator \<Rightarrow> (entries \<Rightarrow> nat \<Rightarrow> 'i \<Rightarrow> bool) \<Rightarrow> 'd iterator \<Rightarrow> (entries \<Rightarrow> nat \<Rightarrow> 'd \<Rightarrow> bool) \<Rightarrow>
    entries list \<Rightarrow> entries \<Rightarrow> nat \<Rightarrow> nat \<Rightarrow> ('i, 'd) two_level \<Rightarrow> bool" where
  "at_block iit iat dit dat blks ixs j p t \<longleftrightarrow>
     j < length blks \<and> child_at iit iat ixs j (tl_index t) \<and> tl_status t = OK \<and>
     child_at dit dat (blks ! j) p (tl_data t) \<and> tl_handle t = snd (ixs ! j)"

definition two_level_at ::
  "'i iterator \<Rightarrow> (entries \<Rightarrow> nat \<Rightarrow> 'i \<Rightarrow> bool) \<Rightarrow> 'd iterator \<Rightarrow> (entries \<Rightarrow> nat \<Rightarrow> 'd \<Rightarrow> bool) \<Rightarrow>
    entries list \<Rightarrow> entries \<Rightarrow> entries \<Rightarrow> nat \<Rightarrow> ('i, 'd) two_level \<Rightarrow> bool" where
  "two_level_at iit iat dit dat blks ixs kvs i t \<longleftrightarrow>
     kvs = concat blks \<and>
     ((\<exists>j p. at_block iit iat dit dat blks ixs j p t \<and> p < length (blks ! j) \<and> i = start blks j + p) \<or>
      i = length kvs \<and> (\<exists>j. closed iit iat ixs j t))"

locale two_level_blocks = index: iterator_contract iit "Compare c" valid iat + data: iterator_contract dit "Compare c" valid dat
  for c :: comparator_t and valid :: "slice \<Rightarrow> bool" and iit :: "'i iterator" and iat :: "entries \<Rightarrow> nat \<Rightarrow> 'i \<Rightarrow> bool"
    and dit :: "'d iterator" and dat :: "entries \<Rightarrow> nat \<Rightarrow> 'd \<Rightarrow> bool" +
  fixes bf :: "slice \<Rightarrow> 'd option" and blks :: "entries list" and ixs :: entries
  assumes indexed: "indexed c valid blks ixs"
    and blocks: "j < length blks \<Longrightarrow> \<exists>p d. bf (snd (ixs ! j)) = Some d \<and> dat (blks ! j) p d"
begin

lemma lengths: "length ixs = length blks"
  using indexed by (simp add: indexed_def)

lemma handle_inj: "j < length blks \<Longrightarrow> k < length blks \<Longrightarrow> snd (ixs ! j) = snd (ixs ! k) \<longleftrightarrow> j = k"
  using indexed nth_eq_iff_index_eq [of "map snd ixs" j k] by (simp add: indexed_def)

lemma SetDataIterator_ok:
  assumes "data_ok dit dat blks ixs t"
  shows "SetDataIterator dit d t = t\<lparr>tl_data := iw_Set dit d (tl_data t)\<rparr>"
proof -
  have "iw_status dit (tl_data t) = OK" if "iw_iter (tl_data t) \<noteq> None"
    using that assms data.child_status by (auto simp: data_ok_def)
  then show ?thesis by (auto simp: SetDataIterator_def SaveError_def Status_kinds)
qed

lemma InitDataBlock_ok:
  assumes "child_at iit iat ixs j (tl_index t)" "data_ok dit dat blks ixs t"
  shows "\<exists>t'. InitDataBlock iit dit bf t = Some t' \<and>
    (if j < length blks then (\<exists>p. at_block iit iat dit dat blks ixs j p t') else closed iit iat ixs j t')"
proof (cases "j < length blks")
  case False
  then have "\<not> iw_valid (tl_index t)" using child_at_valid [OF assms(1)] lengths by simp
  then show ?thesis
    using False assms by (auto simp: InitDataBlock_def SetDataIterator_ok closed_def iw_Set_def data_ok_def)
next
  case True
  then have j: "j < length ixs" by (simp add: lengths)
  have v: "iw_valid (tl_index t)" "iw_value iit (tl_index t) = Some (snd (ixs ! j))"
    using child_at_valid [OF assms(1)] index.child_value [OF assms(1) j] j by simp_all
  show ?thesis
  proof (cases "iw_iter (tl_data t) \<noteq> None \<and> tl_handle t = snd (ixs ! j)")
    case same: True
    then obtain k p where "k < length blks" "tl_handle t = snd (ixs ! k)" "child_at dit dat (blks ! k) p (tl_data t)"
      using assms(2) by (auto simp: data_ok_def)
    then have "at_block iit iat dit dat blks ixs j p t"
      using same handle_inj [OF _ True] assms True by (auto simp: at_block_def data_ok_def)
    then show ?thesis using same True v by (auto simp: InitDataBlock_def)
  next
    case False
    obtain p d where b: "bf (snd (ixs ! j)) = Some d" and p: "dat (blks ! j) p d" using blocks [OF True] by blast
    let ?t = "t\<lparr>tl_handle := snd (ixs ! j)\<rparr>"
    have "SetDataIterator dit (Some d) ?t =
        ?t\<lparr>tl_data := iw_Set dit (Some d) (tl_data t)\<rparr>"
    proof -
      have "iw_status dit (tl_data t) = OK" if "iw_iter (tl_data t) \<noteq> None"
        using that assms(2) data.child_status by (auto simp: data_ok_def)
      then show ?thesis by (auto simp: SetDataIterator_def SaveError_def Status_kinds)
    qed
    moreover have "at_block iit iat dit dat blks ixs j p (?t\<lparr>tl_data := iw_Set dit (Some d) (tl_data t)\<rparr>)"
      using True assms data.child_Set [OF p] by (simp add: at_block_def data_ok_def)
    ultimately show ?thesis using False True v b by (auto simp: InitDataBlock_def)
  qed
qed

lemma at_block_data_ok: "at_block iit iat dit dat blks ixs j p t \<Longrightarrow> data_ok dit dat blks ixs t"
  by (auto simp: at_block_def data_ok_def)

lemma closed_data_ok: "closed iit iat ixs j t \<Longrightarrow> data_ok dit dat blks ixs t"
  by (simp add: closed_def data_ok_def)

text \<open>Moving the index and opening the block there; \<open>g\<close> positions the new data iterator.\<close>

lemma open_block:
  assumes i: "f (tl_index t) = Some w" "child_at iit iat ixs j w" and d: "data_ok dit dat blks ixs t"
    and g: "\<And>p w. j < length blks \<Longrightarrow> child_at dit dat (blks ! j) p w \<Longrightarrow> \<exists>w'. g w = Some w' \<and> child_at dit dat (blks ! j) q w'"
  shows "\<exists>t'. Option.bind (with_index f t) (\<lambda>t. Option.bind (InitDataBlock iit dit bf t) (\<lambda>t. Option.bind (if_data g t) k)) = k t' \<and>
    (if j < length blks then at_block iit iat dit dat blks ixs j q t' else closed iit iat ixs j t')"
proof -
  let ?t = "t\<lparr>tl_index := w\<rparr>"
  have "data_ok dit dat blks ixs ?t" using d by (simp add: data_ok_def)
  then obtain t1 where t1: "InitDataBlock iit dit bf ?t = Some t1"
      "if j < length blks then (\<exists>p. at_block iit iat dit dat blks ixs j p t1) else closed iit iat ixs j t1"
    using InitDataBlock_ok [of j ?t] i(2) by auto
  show ?thesis
  proof (cases "j < length blks")
    case False
    then show ?thesis using t1 i(1) by (auto simp: with_index_def if_data_def closed_def)
  next
    case True
    then obtain p where b: "at_block iit iat dit dat blks ixs j p t1" using t1(2) by auto
    then obtain w' where w': "g (tl_data t1) = Some w'" "child_at dit dat (blks ! j) q w'"
      using g [OF True] by (auto simp: at_block_def)
    have "iw_iter (tl_data t1) \<noteq> None" using b by (auto simp: at_block_def child_at_def)
    moreover have "at_block iit iat dit dat blks ixs j q (t1\<lparr>tl_data := w'\<rparr>)" using b w'(2) by (simp add: at_block_def)
    ultimately show ?thesis using True t1(1) i(1) w'(1) by (auto simp: with_index_def with_data_def if_data_def)
  qed
qed

lemma two_level_block:
  "at_block iit iat dit dat blks ixs j p t \<Longrightarrow> p < length (blks ! j) \<Longrightarrow>
    two_level_at iit iat dit dat blks ixs (concat blks) (start blks j + p) t"
  by (auto simp: two_level_at_def)

lemma two_level_closed:
  "closed iit iat ixs j t \<Longrightarrow> two_level_at iit iat dit dat blks ixs (concat blks) (length (concat blks)) t"
  by (auto simp: two_level_at_def)

text \<open>The loops end at once at the end of the index.\<close>

lemma skip_closed:
  assumes "closed iit iat ixs (length blks) t"
  shows "\<exists>t'. SkipEmptyDataBlocksForward iit dit bf t = Some t' \<and> closed iit iat ixs (length blks) t'"
    and "\<exists>t'. SkipEmptyDataBlocksBackward iit dit bf t = Some t' \<and> closed iit iat ixs (length blks) t'"
proof -
  have "\<not> iw_valid (tl_index t)" using assms child_at_valid lengths by (fastforce simp: closed_def)
  moreover have "closed iit iat ixs (length blks) (SetDataIterator dit None t)"
    using assms SetDataIterator_ok [OF closed_data_ok [OF assms]] by (simp add: closed_def iw_Set_def)
  ultimately show "\<exists>t'. SkipEmptyDataBlocksForward iit dit bf t = Some t' \<and> closed iit iat ixs (length blks) t'"
      "\<exists>t'. SkipEmptyDataBlocksBackward iit dit bf t = Some t' \<and> closed iit iat ixs (length blks) t'"
    using assms by (simp_all add: closed_def SkipEmptyDataBlocksForward.simps [of _ _ _ t] SkipEmptyDataBlocksBackward.simps [of _ _ _ t])
qed

lemma data_iter: "at_block iit iat dit dat blks ixs j p t \<Longrightarrow> iw_iter (tl_data t) \<noteq> None \<and> iw_valid (tl_data t) = (p < length (blks ! j))"
  by (auto simp: at_block_def child_at_def)

lemma skip_valid:
  assumes "at_block iit iat dit dat blks ixs j p t" "p < length (blks ! j)"
  shows "SkipEmptyDataBlocksForward iit dit bf t = Some t" "SkipEmptyDataBlocksBackward iit dit bf t = Some t"
  using data_iter [OF assms(1)] assms(2)
  by (auto simp: SkipEmptyDataBlocksForward.simps [of _ _ _ t] SkipEmptyDataBlocksBackward.simps [of _ _ _ t])

lemma index_valid: "at_block iit iat dit dat blks ixs j p t \<Longrightarrow> iw_valid (tl_index t)"
  using lengths by (auto simp: at_block_def child_at_def)

lemma forward:
  assumes "if j < length blks then at_block iit iat dit dat blks ixs j p t \<and> p \<le> length (blks ! j)
    else j = length blks \<and> p = 0 \<and> closed iit iat ixs j t"
  shows "\<exists>t'. SkipEmptyDataBlocksForward iit dit bf t = Some t' \<and>
    two_level_at iit iat dit dat blks ixs (concat blks) (start blks j + p) t'"
  using assms
proof (induction "length blks - j" arbitrary: j p t rule: less_induct)
  case less
  consider (all) "j = length blks" "p = 0" "closed iit iat ixs (length blks) t"
    | (valid) "at_block iit iat dit dat blks ixs j p t" "p < length (blks ! j)"
    | (empty) "at_block iit iat dit dat blks ixs j p t" "p = length (blks ! j)" "j < length blks"
    using less.prems by (auto simp: le_less split: if_splits)
  then show ?case
  proof cases
    case all
    then show ?thesis using skip_closed(1) [OF all(3)] two_level_closed by fastforce
  next
    case valid
    then show ?thesis using skip_valid(1) [OF valid] two_level_block [OF valid] by simp
  next
    case empty
    have ij: "child_at iit iat ixs j (tl_index t)" using empty(1) by (simp add: at_block_def)
    obtain w where w: "iw_Next iit (tl_index t) = Some w" "child_at iit iat ixs (Suc j) w"
      using index.child_ops(4) [OF ij] empty(3) lengths by auto
    have "SkipEmptyDataBlocksForward iit dit bf t = Option.bind (with_index (iw_Next iit) t) (\<lambda>t.
        Option.bind (InitDataBlock iit dit bf t) (\<lambda>t.
          Option.bind (if_data (iw_SeekToFirst dit) t) (SkipEmptyDataBlocksForward iit dit bf)))"
      using data_iter [OF empty(1)] index_valid [OF empty(1)] empty(2)
      by (simp add: SkipEmptyDataBlocksForward.simps [of _ _ _ t])
    then obtain t' where t': "SkipEmptyDataBlocksForward iit dit bf t = SkipEmptyDataBlocksForward iit dit bf t'"
        "if Suc j < length blks then at_block iit iat dit dat blks ixs (Suc j) 0 t' else closed iit iat ixs (Suc j) t'"
      using open_block [where f = "iw_Next iit" and t = t and g = "iw_SeekToFirst dit" and q = 0 and k = "SkipEmptyDataBlocksForward iit dit bf", OF w at_block_data_ok [OF empty(1)]]
        data.child_ops(1) by metis
    have "\<exists>t''. SkipEmptyDataBlocksForward iit dit bf t' = Some t'' \<and>
        two_level_at iit iat dit dat blks ixs (concat blks) (start blks (Suc j) + 0) t''"
      using t'(2) empty(3) by (intro less.hyps) auto
    then show ?thesis using t'(1) start_Suc [OF empty(3)] empty(2) by simp
  qed
qed

lemma backward:
  assumes "at_block iit iat dit dat blks ixs j p t"
  shows "\<exists>t'. SkipEmptyDataBlocksBackward iit dit bf t = Some t' \<and>
    two_level_at iit iat dit dat blks ixs (concat blks)
      (if p < length (blks ! j) then start blks j + p else prev_pos (concat blks) (start blks j)) t'"
  using assms
proof (induction j arbitrary: p t)
  case 0
  show ?case
  proof (cases "p < length (blks ! 0)")
    case True
    then show ?thesis
      using skip_valid(2) [OF 0 True] two_level_block [OF 0 True] by simp
  next
    case False
    have ij: "child_at iit iat ixs 0 (tl_index t)" "0 < length ixs" using 0 lengths by (auto simp: at_block_def)
    obtain w where w: "iw_Prev iit (tl_index t) = Some w" "child_at iit iat ixs (length blks) w"
      using index.child_ops(5) [OF ij] lengths by (auto simp: prev_pos_def)
    have "SkipEmptyDataBlocksBackward iit dit bf t = Option.bind (with_index (iw_Prev iit) t) (\<lambda>t.
        Option.bind (InitDataBlock iit dit bf t) (\<lambda>t.
          Option.bind (if_data (iw_SeekToLast dit) t) (SkipEmptyDataBlocksBackward iit dit bf)))"
      using data_iter [OF 0] index_valid [OF 0] False
      by (simp add: SkipEmptyDataBlocksBackward.simps [of _ _ _ t])
    then obtain t' where t': "SkipEmptyDataBlocksBackward iit dit bf t = SkipEmptyDataBlocksBackward iit dit bf t'"
        "closed iit iat ixs (length blks) t'"
      using open_block [where f = "iw_Prev iit" and t = t and g = "iw_SeekToLast dit" and q = "length (blks ! length blks) - 1" and k = "SkipEmptyDataBlocksBackward iit dit bf", OF w at_block_data_ok [OF 0]]
        data.child_ops(2) by (metis less_irrefl)
    then show ?thesis using skip_closed(2) [OF t'(2)] False two_level_closed by (fastforce simp: prev_pos_def)
  qed
next
  case (Suc j)
  show ?case
  proof (cases "p < length (blks ! Suc j)")
    case True
    then show ?thesis
      using skip_valid(2) [OF Suc.prems True] two_level_block [OF Suc.prems True] by simp
  next
    case False
    let ?q = "length (blks ! j) - 1"
    have ij: "child_at iit iat ixs (Suc j) (tl_index t)" "Suc j < length ixs" and j: "j < length blks"
      using Suc.prems lengths by (auto simp: at_block_def)
    obtain w where w: "iw_Prev iit (tl_index t) = Some w" "child_at iit iat ixs j w"
      using index.child_ops(5) [OF ij] by (auto simp: prev_pos_def)
    have "SkipEmptyDataBlocksBackward iit dit bf t = Option.bind (with_index (iw_Prev iit) t) (\<lambda>t.
        Option.bind (InitDataBlock iit dit bf t) (\<lambda>t.
          Option.bind (if_data (iw_SeekToLast dit) t) (SkipEmptyDataBlocksBackward iit dit bf)))"
      using data_iter [OF Suc.prems] index_valid [OF Suc.prems] False
      by (simp add: SkipEmptyDataBlocksBackward.simps [of _ _ _ t])
    then obtain t' where t': "SkipEmptyDataBlocksBackward iit dit bf t = SkipEmptyDataBlocksBackward iit dit bf t'"
        "at_block iit iat dit dat blks ixs j ?q t'"
      using open_block [where f = "iw_Prev iit" and t = t and g = "iw_SeekToLast dit" and q = ?q and k = "SkipEmptyDataBlocksBackward iit dit bf", OF w at_block_data_ok [OF Suc.prems]]
        data.child_ops(2) j by metis
    have "(if ?q < length (blks ! j) then start blks j + ?q else prev_pos (concat blks) (start blks j)) =
        prev_pos (concat blks) (start blks (Suc j))"
      using start_Suc [OF j] by (cases "length (blks ! j)") (auto simp: prev_pos_def)
    then show ?thesis using Suc.IH [OF t'(2)] t'(1) False by simp
  qed
qed

lemma order_facts:
  shows "comparator c valid" and "j < length blks \<Longrightarrow> valid (fst (ixs ! j))"
    and "j < length blks \<Longrightarrow> kv \<in> set (blks ! j) \<Longrightarrow> valid (fst kv)"
    and "j < length blks \<Longrightarrow> kv \<in> set (blks ! j) \<Longrightarrow> Compare c (fst kv) (fst (ixs ! j)) \<le> 0"
    and "k < length blks \<Longrightarrow> j < k \<Longrightarrow> kv \<in> set (blks ! k) \<Longrightarrow> Compare c (fst (ixs ! j)) (fst kv) < 0"
proof -
  have o: "ordered c valid (concat blks)" "ordered c valid ixs" using indexed by (auto simp: indexed_def)
  show c: "comparator c valid" using o by (simp add: ordered_def)
  show v: "valid (fst (ixs ! j))" if "j < length blks" for j using valid_key [OF o(2)] that lengths by simp
  show vk: "valid (fst kv)" if "j < length blks" "kv \<in> set (blks ! j)" for j kv
    using that o(1) nth_mem [OF that(1)] by (auto simp: ordered_def sorted_entries_def list_all_iff)
  show "Compare c (fst kv) (fst (ixs ! j)) \<le> 0" if "j < length blks" "kv \<in> set (blks ! j)"
    using that indexed by (auto simp: indexed_def)
  show "Compare c (fst (ixs ! j)) (fst kv) < 0" if k: "k < length blks" "j < k" "kv \<in> set (blks ! k)"
  proof -
    have l: "Compare c (fst (ixs ! (k - 1))) (fst kv) < 0"
      using k indexed by (auto simp: indexed_def dest: spec [of _ "k - 1"])
    show ?thesis
    proof (cases "j = k - 1")
      case False
      then have "Compare c (fst (ixs ! j)) (fst (ixs ! (k - 1))) < 0" using key_less [OF o(2), of j "k - 1"] k lengths by simp
      then show ?thesis
        using comparator.less_trans [OF c v v vk, of j "k - 1" k kv] l k by simp
    qed (use l in simp)
  qed
qed

lemma seek_pos_blocks:
  assumes t: "valid target" and j: "j = seek_pos (Compare c) target ixs"
  shows "seek_pos (Compare c) target (concat blks) =
    (if j < length blks then start blks j + seek_pos (Compare c) target (blks ! j) else length (concat blks))"
proof -
  let ?P = "\<lambda>kv. Compare c (fst kv) target < 0"
  note c = order_facts(1)
  have jl: "j \<le> length blks" using j lengths by (simp add: seek_pos_def length_takeWhile_le flip: lengths)
  have sep: "?P (ixs ! i)" if "i < j" for i
    using that j by (metis (no_types, lifting) nth_mem seek_pos_def set_takeWhileD takeWhile_nth)
  have before: "?P kv" if "i < j" "kv \<in> set (blks ! i)" for i kv
  proof -
    have i: "i < length blks" using that jl by simp
    show ?thesis
      using comparator.less_trans [OF c order_facts(3) [OF i that(2)] order_facts(2) [OF i] t] order_facts(4) [OF i that(2)] sep [OF that(1)]
      by blast
  qed
  have "set (concat (take j blks)) \<subseteq> {kv. ?P kv}"
    using before jl by (fastforce simp: in_set_conv_nth)
  then have all: "\<forall>kv \<in> set (concat (take j blks)). ?P kv" by blast
  show ?thesis
  proof (cases "j < length blks")
    case False
    then have "takeWhile ?P (concat blks) = concat blks" using all jl by (simp add: takeWhile_eq_all_conv)
    then show ?thesis using False by (simp add: seek_pos_def del: takeWhile_eq_all_conv)
  next
    case True
    then have nsep: "\<not> ?P (ixs ! j)"
      using j lengths nth_length_takeWhile [of ?P ixs] by (simp add: seek_pos_def)
    have after: "\<not> ?P kv" if "k < length blks" "j < k" "kv \<in> set (blks ! k)" for k kv
      using comparator.less_trans2 [OF c order_facts(2) [OF True] order_facts(3) [OF that(1,3)] t] order_facts(5) [OF that] nsep by fastforce
    have "\<not> ?P kv" if kv: "kv \<in> set (concat (drop (Suc j) blks))" for kv
    proof -
      obtain k where "k < length blks - Suc j" "kv \<in> set (blks ! (Suc j + k))"
        using kv by (auto simp: in_set_conv_nth [of _ "drop (Suc j) blks"])
      then show ?thesis using after [of "Suc j + k" kv] by simp
    qed
    then have "takeWhile ?P (concat (drop (Suc j) blks)) = []" unfolding takeWhile_eq_Nil_iff using hd_in_set by blast
    moreover have "takeWhile ?P (concat blks) = concat (take j blks) @ takeWhile ?P (blks ! j @ concat (drop (Suc j) blks))"
      by (subst concat_split [OF True]) (rule takeWhile_append2, use all in blast)
    ultimately have "takeWhile ?P (concat blks) = concat (take j blks) @ takeWhile ?P (blks ! j)"
      by (auto simp: takeWhile_append takeWhile_eq_all_conv [THEN iffD2])
    then show ?thesis using True by (simp add: seek_pos_def start_def)
  qed
qed

lemma two_level_any:
  assumes "two_level_at iit iat dit dat blks ixs kvs i t"
  shows "kvs = concat blks" "data_ok dit dat blks ixs t" "\<exists>q. child_at iit iat ixs q (tl_index t)"
  using assms at_block_data_ok closed_data_ok by (auto simp: two_level_at_def at_block_def closed_def)

lemma tl_seek_at:
  assumes "two_level_at iit iat dit dat blks ixs kvs i t"
    and "\<And>q w. child_at iit iat ixs q w \<Longrightarrow> \<exists>w'. f w = Some w' \<and> child_at iit iat ixs j w'"
    and "\<And>p w. j < length blks \<Longrightarrow> child_at dit dat (blks ! j) p w \<Longrightarrow> \<exists>w'. g w = Some w' \<and> child_at dit dat (blks ! j) q w'"
  shows "\<exists>t'. tl_seek iit dit bf f g k t = k t' \<and>
    (if j < length blks then at_block iit iat dit dat blks ixs j q t' else closed iit iat ixs j t')"
proof -
  obtain r where r: "child_at iit iat ixs r (tl_index t)" using two_level_any(3) [OF assms(1)] by blast
  obtain w where "f (tl_index t) = Some w" "child_at iit iat ixs j w" using assms(2) [OF r] by blast
  then show ?thesis
    unfolding tl_seek_def by (rule open_block [OF _ _ two_level_any(2) [OF assms(1)] assms(3)])
qed

lemma two_level_Seek:
  assumes "two_level_at iit iat dit dat blks ixs kvs i t" "valid target"
  shows "\<exists>t'. tl_Seek iit dit bf target t = Some t' \<and>
    two_level_at iit iat dit dat blks ixs kvs (seek_pos (Compare c) target kvs) t'"
proof -
  define j where "j = seek_pos (Compare c) target ixs"
  define q where "q = (if j < length blks then seek_pos (Compare c) target (blks ! j) else 0)"
  have jl: "j \<le> length blks" by (simp add: j_def seek_pos_def length_takeWhile_le flip: lengths)
  obtain t' where t': "tl_Seek iit dit bf target t = SkipEmptyDataBlocksForward iit dit bf t'"
      "if j < length blks then at_block iit iat dit dat blks ixs j q t' else closed iit iat ixs j t'"
    unfolding tl_Seek_def
    using tl_seek_at [OF assms(1), of "iw_Seek iit target" j "iw_Seek dit target" q] index.child_ops(3) data.child_ops(3) assms(2)
    by (fastforce simp: j_def q_def)
  have ql: "j < length blks \<Longrightarrow> q \<le> length (blks ! j)" by (simp add: q_def seek_pos_def length_takeWhile_le)
  have "\<exists>t''. SkipEmptyDataBlocksForward iit dit bf t' = Some t'' \<and>
      two_level_at iit iat dit dat blks ixs (concat blks) (start blks j + q) t''"
    using t'(2) ql jl by (intro forward) (auto simp: q_def)
  moreover have "start blks j + q = seek_pos (Compare c) target (concat blks)"
    using seek_pos_blocks [OF assms(2) j_def] jl by (cases "j = length blks") (auto simp: q_def)
  ultimately show ?thesis using t'(1) two_level_any(1) [OF assms(1)] by simp
qed

lemma two_level_SeekToFirst:
  assumes "two_level_at iit iat dit dat blks ixs kvs i t"
  shows "\<exists>t'. tl_SeekToFirst iit dit bf t = Some t' \<and> two_level_at iit iat dit dat blks ixs kvs 0 t'"
proof -
  obtain t' where t': "tl_SeekToFirst iit dit bf t = SkipEmptyDataBlocksForward iit dit bf t'"
      "if 0 < length blks then at_block iit iat dit dat blks ixs 0 0 t' else closed iit iat ixs 0 t'"
    unfolding tl_SeekToFirst_def
    using tl_seek_at [OF assms(1), of "iw_SeekToFirst iit" 0 "iw_SeekToFirst dit" 0] index.child_ops(1) data.child_ops(1) by blast
  have "\<exists>t''. SkipEmptyDataBlocksForward iit dit bf t' = Some t'' \<and>
      two_level_at iit iat dit dat blks ixs (concat blks) (start blks 0 + 0) t''"
    using t'(2) by (intro forward) auto
  then show ?thesis using t'(1) two_level_any(1) [OF assms(1)] by simp
qed

lemma two_level_SeekToLast:
  assumes "two_level_at iit iat dit dat blks ixs kvs i t"
  shows "\<exists>t'. tl_SeekToLast iit dit bf t = Some t' \<and> two_level_at iit iat dit dat blks ixs kvs (length kvs - 1) t'"
proof -
  let ?j = "length blks - 1"
  let ?q = "length (blks ! ?j) - 1"
  have "length ixs - 1 = ?j" using lengths by simp
  then obtain t' where t': "tl_SeekToLast iit dit bf t = SkipEmptyDataBlocksBackward iit dit bf t'"
      "if ?j < length blks then at_block iit iat dit dat blks ixs ?j ?q t' else closed iit iat ixs ?j t'"
    unfolding tl_SeekToLast_def
    using tl_seek_at [OF assms(1), of "iw_SeekToLast iit" ?j "iw_SeekToLast dit" ?q] index.child_ops(2) data.child_ops(2) by metis
  show ?thesis
  proof (cases "blks = []")
    case True
    then show ?thesis
      using t' skip_closed(2) [of t'] two_level_any(1) [OF assms] two_level_closed by fastforce
  next
    case False
    then have j: "?j < length blks" by simp
    obtain t'' where t'': "SkipEmptyDataBlocksBackward iit dit bf t' = Some t''"
        "two_level_at iit iat dit dat blks ixs (concat blks)
          (if ?q < length (blks ! ?j) then start blks ?j + ?q else prev_pos (concat blks) (start blks ?j)) t''"
      using backward [of ?j ?q t'] t'(2) j by auto
    have "(if ?q < length (blks ! ?j) then start blks ?j + ?q else prev_pos (concat blks) (start blks ?j)) = length (concat blks) - 1"
      using start_Suc [OF j] start_all [of blks] False by (cases "length (blks ! ?j)") (auto simp: prev_pos_def)
    then show ?thesis using t'(1) t'' two_level_any(1) [OF assms(1)] by simp
  qed
qed

lemma two_level_moves:
  assumes "two_level_at iit iat dit dat blks ixs kvs i t" "i < length kvs"
  shows "\<exists>t'. tl_Next iit dit bf t = Some t' \<and> two_level_at iit iat dit dat blks ixs kvs (i + 1) t'"
    and "\<exists>t'. tl_Prev iit dit bf t = Some t' \<and> two_level_at iit iat dit dat blks ixs kvs (prev_pos kvs i) t'"
proof -
  obtain j p where b: "at_block iit iat dit dat blks ixs j p t" "p < length (blks ! j)" "i = start blks j + p"
    using assms by (auto simp: two_level_at_def)
  have kvs: "kvs = concat blks" by (rule two_level_any(1) [OF assms(1)])
  have d: "child_at dit dat (blks ! j) p (tl_data t)" and j: "j < length blks" using b(1) by (simp_all add: at_block_def)
  obtain w where w: "iw_Next dit (tl_data t) = Some w" "child_at dit dat (blks ! j) (Suc p) w"
    using data.child_ops(4) [OF d b(2)] by blast
  have "at_block iit iat dit dat blks ixs j (Suc p) (t\<lparr>tl_data := w\<rparr>)" using b(1) w(2) by (simp add: at_block_def)
  then show "\<exists>t'. tl_Next iit dit bf t = Some t' \<and> two_level_at iit iat dit dat blks ixs kvs (i + 1) t'"
    using forward [of j "Suc p" "t\<lparr>tl_data := w\<rparr>"] w(1) b(2,3) j kvs by (simp add: tl_Next_def with_data_def)
  obtain w where w: "iw_Prev dit (tl_data t) = Some w" "child_at dit dat (blks ! j) (prev_pos (blks ! j) p) w"
    using data.child_ops(5) [OF d b(2)] by blast
  have "at_block iit iat dit dat blks ixs j (prev_pos (blks ! j) p) (t\<lparr>tl_data := w\<rparr>)" using b(1) w(2) by (simp add: at_block_def)
  moreover have "(if prev_pos (blks ! j) p < length (blks ! j) then start blks j + prev_pos (blks ! j) p
      else prev_pos (concat blks) (start blks j)) = prev_pos kvs i"
    using b(2,3) kvs by (auto simp: prev_pos_def)
  ultimately show "\<exists>t'. tl_Prev iit dit bf t = Some t' \<and> two_level_at iit iat dit dat blks ixs kvs (prev_pos kvs i) t'"
    using backward [of j "prev_pos (blks ! j) p" "t\<lparr>tl_data := w\<rparr>"] w(1) kvs by (auto simp: tl_Prev_def with_data_def)
qed

lemma two_level_shows:
  assumes "two_level_at iit iat dit dat blks ixs kvs i t"
  shows "i \<le> length kvs \<and> shows_entry (TwoLevelIterator iit dit bf) kvs i t"
proof -
  have kvs: "kvs = concat blks" and ok: "data_ok dit dat blks ixs t" by (rule two_level_any [OF assms(1)])+
  obtain q where "child_at iit iat ixs q (tl_index t)" using two_level_any(3) [OF assms(1)] by blast
  then have "iw_status iit (tl_index t) = OK" by (rule index.child_status)
  moreover have "iw_iter (tl_data t) \<noteq> None \<Longrightarrow> iw_status dit (tl_data t) = OK"
    using ok data.child_status by (auto simp: data_ok_def)
  ultimately have status: "tl_get_status iit dit t = OK" using ok by (auto simp: tl_get_status_def data_ok_def Status_kinds)
  show ?thesis
  proof (cases "i = length kvs")
    case False
    then obtain j p where b: "at_block iit iat dit dat blks ixs j p t" "p < length (blks ! j)" "i = start blks j + p"
      using assms by (auto simp: two_level_at_def)
    have d: "child_at dit dat (blks ! j) p (tl_data t)" and j: "j < length blks" using b(1) by (simp_all add: at_block_def)
    show ?thesis
      using status child_at_valid [OF d] child_at_key [OF d b(2)] data.child_value [OF d b(2)] concat_nth [OF j b(2)] b(2,3) kvs
      by (simp add: shows_entry_def TwoLevelIterator_def)
  next
    case True
    then have "\<not> iw_valid (tl_data t)"
      using assms concat_nth(1) by (fastforce simp: two_level_at_def closed_def at_block_def)
    then show ?thesis using True status by (simp add: shows_entry_def TwoLevelIterator_def)
  qed
qed

lemma two_level_start:
  assumes "iat ixs q s"
  shows "two_level_at iit iat dit dat blks ixs (concat blks) (length (concat blks)) (NewTwoLevelIterator iit s)"
  using index.child_Set [OF assms]
  by (intro two_level_closed [where j = q]) (simp add: closed_def NewTwoLevelIterator_def make_TwoLevelIterator_def make_IteratorWrapper_def)

end

sublocale two_level_blocks \<subseteq> concatenated: iterator_contract "TwoLevelIterator iit dit bf" "Compare c" valid
  "two_level_at iit iat dit dat blks ixs"
proof (unfold_locales, goal_cases)
  case (3 kvs i s)
  then show ?case using two_level_SeekToFirst by (simp add: TwoLevelIterator_def)
next
  case (4 kvs i s)
  then show ?case using two_level_SeekToLast by (simp add: TwoLevelIterator_def)
next
  case (5 kvs i s target)
  then show ?case using two_level_Seek by (simp add: TwoLevelIterator_def)
next
  case (6 kvs i s)
  then show ?case using two_level_moves(1) by (simp add: TwoLevelIterator_def)
next
  case (7 kvs i s)
  then show ?case using two_level_moves(2) by (simp add: TwoLevelIterator_def)
qed (use two_level_shows in blast)+

context two_level_blocks begin

lemma concatenated_contract:
  "iterator_contract (TwoLevelIterator iit dit bf) (Compare c) valid (two_level_at iit iat dit dat blks ixs)"
  by (rule concatenated.iterator_contract_axioms)

end

end
