(* ===== verification/Ldb_TableBuilder.thy ===== *)
theory Ldb_TableBuilder
  imports Ldb_Format Ldb_FilterBlock Ldb_TwoLevel
begin

text \<open>
  \<^verbatim>\<open>table/table_builder.cc\<close>: writing a sorted table, and what its file contains.
\<close>

section \<open>The builder\<close>

text \<open>The options that tables use (\<^verbatim>\<open>leveldb/options.h\<close>); the block cache is an argument of the reader.\<close>

record Options =
  op_comparator :: comparator_t
  op_paranoid_checks :: bool
  op_block_size :: size_t
  op_block_restart_interval :: int
  op_compression :: CompressionType
  op_filter_policy :: "filter_policy option"

definition make_Options :: Options where
  "make_Options =
     \<lparr>op_comparator = BytewiseComparator, op_paranoid_checks = False, op_block_size = 4 * 1024,
      op_block_restart_interval = 16, op_compression = kSnappyCompression, op_filter_policy = None\<rparr>"

text \<open>\<open>filter_block\<close> carries the policy that it was made with; the file is of any type \<open>'f\<close>.\<close>

record 'f TableBuilder =
  tb_options :: Options
  tb_index_block_options :: Options
  tb_file :: 'f
  tb_offset :: u64
  tb_status :: Status
  tb_data_block :: BlockBuilder
  tb_index_block :: BlockBuilder
  tb_last_key :: slice
  tb_num_entries :: "64 word"
  tb_closed :: bool
  tb_filter_block :: "(filter_policy \<times> FilterBlockBuilder) option"
  tb_pending_index_entry :: bool
  tb_pending_handle :: BlockHandle
  tb_compressed_output :: slice

definition make_TableBuilder :: "Options \<Rightarrow> 'f \<Rightarrow> 'f TableBuilder" where
  "make_TableBuilder options file =
     \<lparr>tb_options = options, tb_index_block_options = options\<lparr>op_block_restart_interval := 1\<rparr>,
      tb_file = file, tb_offset = 0, tb_status = OK, tb_data_block = make_BlockBuilder,
      tb_index_block = make_BlockBuilder, tb_last_key = [], tb_num_entries = 0, tb_closed = False,
      tb_filter_block = map_option (\<lambda>p. (p, StartBlock p 0 make_FilterBlockBuilder)) (op_filter_policy options),
      tb_pending_index_entry = False, tb_pending_handle = make_BlockHandle, tb_compressed_output = []\<rparr>"

text \<open>\<open>same_comparator\<close> is the comparison of the two pointers to comparators.\<close>

definition ChangeOptions :: "bool \<Rightarrow> Options \<Rightarrow> 'f TableBuilder \<Rightarrow> Status \<times> 'f TableBuilder" where
  "ChangeOptions same_comparator options b =
     (if \<not> same_comparator then (InvalidArgument (lit ''changing comparator while building table''), b)
      else (OK, b\<lparr>tb_options := options, tb_index_block_options := options\<lparr>op_block_restart_interval := 1\<rparr>\<rparr>))"

definition tb_ok :: "'f TableBuilder \<Rightarrow> bool" where
  "tb_ok b = Status_ok (tb_status b)"

text \<open>The results are the handle and the builder.\<close>

definition WriteRawBlock ::
  "'f writable_file \<Rightarrow> slice \<Rightarrow> CompressionType \<Rightarrow> 'f TableBuilder \<Rightarrow> (BlockHandle \<times> 'f TableBuilder) option" where
  "WriteRawBlock dest block_contents type b =
     (let handle = \<lparr>bh_offset = tb_offset b, bh_size = of_nat (length block_contents)\<rparr>
      in Option.bind (wf_Append dest block_contents (tb_file b)) (\<lambda>(s, f).
        let b = b\<lparr>tb_status := s, tb_file := f\<rparr>
        in if Status_ok s then
             let crc = Value 0 block_contents;
                 crc = Extend 0 crc [compression_byte type];
                 trailer = compression_byte type # EncodeFixed32 (Mask crc)
             in Option.bind (wf_Append dest trailer (tb_file b)) (\<lambda>(s, f).
                  let b = b\<lparr>tb_status := s, tb_file := f\<rparr>
                  in if Status_ok s
                     then Some (handle, b\<lparr>tb_offset := tb_offset b + (of_nat (length block_contents) + kBlockTrailerSize)\<rparr>)
                     else Some (handle, b))
           else Some (handle, b)))"

text \<open>The results are the handle, the block after \<open>Reset\<close> and the builder.\<close>

definition WriteBlock ::
  "'f writable_file \<Rightarrow> BlockBuilder \<Rightarrow> 'f TableBuilder \<Rightarrow> (BlockHandle \<times> BlockBuilder \<times> 'f TableBuilder) option" where
  "WriteBlock dest block b =
     (case BlockBuilder_Finish block of (raw, block) \<Rightarrow>
        case (case op_compression (tb_options b) of
                kNoCompression \<Rightarrow> (raw, kNoCompression, b)
              | kSnappyCompression \<Rightarrow>
                  (case Snappy_Compress raw of
                     Some compressed \<Rightarrow>
                       let b = b\<lparr>tb_compressed_output := compressed\<rparr>
                       in if length compressed < length raw - length raw div 8
                          then (compressed, kSnappyCompression, b) else (raw, kNoCompression, b)
                   | None \<Rightarrow> (raw, kNoCompression, b))) of
          (block_contents, type, b) \<Rightarrow>
            map_option (\<lambda>(handle, b). (handle, BlockBuilder_Reset block, b\<lparr>tb_compressed_output := []\<rparr>))
              (WriteRawBlock dest block_contents type b))"

definition tb_Flush :: "'f writable_file \<Rightarrow> 'f TableBuilder \<Rightarrow> 'f TableBuilder option" where
  "tb_Flush dest b =
     (if \<not> tb_ok b then Some b
      else if BlockBuilder_empty (tb_data_block b) then Some b
      else Option.bind (WriteBlock dest (tb_data_block b) b) (\<lambda>(handle, block, b).
        let b = b\<lparr>tb_pending_handle := handle, tb_data_block := block\<rparr>
        in Option.bind (if tb_ok b
                        then map_option (\<lambda>(s, f). b\<lparr>tb_pending_index_entry := True, tb_status := s, tb_file := f\<rparr>)
                               (wf_Flush dest (tb_file b))
                        else Some b) (\<lambda>b.
             Some (b\<lparr>tb_filter_block := map_option (\<lambda>(p, fb). (p, StartBlock p (tb_offset b) fb)) (tb_filter_block b)\<rparr>))))"

text \<open>The entry of the index for the pending block, with the key \<open>sep\<close>.\<close>

definition index_entry :: "slice \<Rightarrow> 'f TableBuilder \<Rightarrow> 'f TableBuilder" where
  "index_entry sep b =
     (let handle_encoding = BlockHandle_EncodeTo (tb_pending_handle b) []
      in b\<lparr>tb_last_key := sep,
           tb_index_block := BlockBuilder_Add (op_block_restart_interval (tb_index_block_options b)) sep handle_encoding (tb_index_block b),
           tb_pending_index_entry := False\<rparr>)"

definition tb_Add :: "'f writable_file \<Rightarrow> slice \<Rightarrow> slice \<Rightarrow> 'f TableBuilder \<Rightarrow> 'f TableBuilder option" where
  "tb_Add dest key value b =
     (if \<not> tb_ok b then Some b
      else let b = (if tb_pending_index_entry b
                    then index_entry (FindShortestSeparator (op_comparator (tb_options b)) (tb_last_key b) key) b else b);
               b = b\<lparr>tb_filter_block := map_option (\<lambda>(p, fb). (p, FilterBlock_AddKey key fb)) (tb_filter_block b)\<rparr>;
               b = b\<lparr>tb_last_key := key, tb_num_entries := tb_num_entries b + 1,
                     tb_data_block := BlockBuilder_Add (op_block_restart_interval (tb_options b)) key value (tb_data_block b)\<rparr>;
               estimated_block_size = CurrentSizeEstimate (tb_data_block b)
           in if estimated_block_size \<ge> unat (op_block_size (tb_options b)) then tb_Flush dest b else Some b)"

text \<open>The four parts of \<open>Finish\<close>; a filter block without a policy in the options is a null pointer.\<close>

definition write_filter :: "'f writable_file \<Rightarrow> 'f TableBuilder \<Rightarrow> (BlockHandle \<times> 'f TableBuilder) option" where
  "write_filter dest b =
     (if \<not> tb_ok b then Some (make_BlockHandle, b)
      else case tb_filter_block b of
             None \<Rightarrow> Some (make_BlockHandle, b)
           | Some (p, fb) \<Rightarrow>
               (case FilterBlock_Finish p fb of (contents, fb) \<Rightarrow>
                  WriteRawBlock dest contents kNoCompression (b\<lparr>tb_filter_block := Some (p, fb)\<rparr>)))"

definition write_metaindex ::
  "'f writable_file \<Rightarrow> BlockHandle \<Rightarrow> 'f TableBuilder \<Rightarrow> (BlockHandle \<times> 'f TableBuilder) option" where
  "write_metaindex dest filter_block_handle b =
     (if \<not> tb_ok b then Some (make_BlockHandle, b)
      else Option.bind
             (if tb_filter_block b = None then Some make_BlockBuilder
              else case op_filter_policy (tb_options b) of
                     None \<Rightarrow> None
                   | Some policy \<Rightarrow>
                       Some (BlockBuilder_Add (op_block_restart_interval (tb_options b)) (lit ''filter.'' @ fp_Name policy)
                         (BlockHandle_EncodeTo filter_block_handle []) make_BlockBuilder)) (\<lambda>meta_index_block.
           map_option (\<lambda>(handle, _, b). (handle, b)) (WriteBlock dest meta_index_block b)))"

definition write_index :: "'f writable_file \<Rightarrow> 'f TableBuilder \<Rightarrow> (BlockHandle \<times> 'f TableBuilder) option" where
  "write_index dest b =
     (if \<not> tb_ok b then Some (make_BlockHandle, b)
      else let b = (if tb_pending_index_entry b
                    then index_entry (FindShortSuccessor (op_comparator (tb_options b)) (tb_last_key b)) b else b)
           in map_option (\<lambda>(handle, block, b). (handle, b\<lparr>tb_index_block := block\<rparr>)) (WriteBlock dest (tb_index_block b) b))"

definition write_footer ::
  "'f writable_file \<Rightarrow> BlockHandle \<Rightarrow> BlockHandle \<Rightarrow> 'f TableBuilder \<Rightarrow> 'f TableBuilder option" where
  "write_footer dest metaindex_block_handle index_block_handle b =
     (if \<not> tb_ok b then Some b
      else let footer_encoding = Footer_EncodeTo \<lparr>ft_metaindex_handle = metaindex_block_handle, ft_index_handle = index_block_handle\<rparr> []
           in map_option (\<lambda>(s, f).
                let b = b\<lparr>tb_status := s, tb_file := f\<rparr>
                in if Status_ok s then b\<lparr>tb_offset := tb_offset b + of_nat (length footer_encoding)\<rparr> else b)
              (wf_Append dest footer_encoding (tb_file b)))"

definition tb_Finish :: "'f writable_file \<Rightarrow> 'f TableBuilder \<Rightarrow> (Status \<times> 'f TableBuilder) option" where
  "tb_Finish dest b =
     Option.bind (tb_Flush dest b) (\<lambda>b.
       Option.bind (write_filter dest (b\<lparr>tb_closed := True\<rparr>)) (\<lambda>(filter_block_handle, b).
         Option.bind (write_metaindex dest filter_block_handle b) (\<lambda>(metaindex_block_handle, b).
           Option.bind (write_index dest b) (\<lambda>(index_block_handle, b).
             map_option (\<lambda>b. (tb_status b, b)) (write_footer dest metaindex_block_handle index_block_handle b)))))"

definition Abandon :: "'f TableBuilder \<Rightarrow> 'f TableBuilder" where
  "Abandon b = b\<lparr>tb_closed := True\<rparr>"

definition NumEntries :: "'f TableBuilder \<Rightarrow> u64" where
  "NumEntries b = tb_num_entries b"

definition FileSize :: "'f TableBuilder \<Rightarrow> u64" where
  "FileSize b = tb_offset b"

text \<open>A table from a list of entries.\<close>

fun add_entries :: "'f writable_file \<Rightarrow> entries \<Rightarrow> 'f TableBuilder \<Rightarrow> 'f TableBuilder option" where
  "add_entries dest [] b = Some b"
| "add_entries dest ((k, v) # kvs) b = Option.bind (tb_Add dest k v b) (add_entries dest kvs)"

definition build_table :: "'f writable_file \<Rightarrow> Options \<Rightarrow> entries \<Rightarrow> 'f \<Rightarrow> (Status \<times> 'f TableBuilder) option" where
  "build_table dest options kvs f = Option.bind (add_entries dest kvs (make_TableBuilder options f)) (tb_Finish dest)"

end
