(* ===== verification/Ldb_Table.thy ===== *)
theory Ldb_Table
  imports Ldb_TableBuilder
begin

text \<open>
  \<^verbatim>\<open>table/table.cc\<close>: opening a table file, iterating over it and looking up a key.
\<close>

section \<open>Iterators of two kinds\<close>

text \<open>The virtual calls on an iterator that is either an \<open>EmptyIterator\<close> or one of another class.\<close>

definition sum_op :: "('a \<Rightarrow> 'a option) \<Rightarrow> ('b \<Rightarrow> 'b option) \<Rightarrow> 'a + 'b \<Rightarrow> ('a + 'b) option" where
  "sum_op f g s = (case s of Inl a \<Rightarrow> map_option Inl (f a) | Inr b \<Rightarrow> map_option Inr (g b))"

definition sum_iterator :: "'a iterator \<Rightarrow> 'b iterator \<Rightarrow> ('a + 'b) iterator" where
  "sum_iterator a b =
     \<lparr>it_Valid = case_sum (it_Valid a) (it_Valid b), it_SeekToFirst = sum_op (it_SeekToFirst a) (it_SeekToFirst b),
      it_SeekToLast = sum_op (it_SeekToLast a) (it_SeekToLast b), it_Seek = (\<lambda>k. sum_op (it_Seek a k) (it_Seek b k)),
      it_Next = sum_op (it_Next a) (it_Next b), it_Prev = sum_op (it_Prev a) (it_Prev b),
      it_key = case_sum (it_key a) (it_key b), it_value = case_sum (it_value a) (it_value b),
      it_status = case_sum (it_status a) (it_status b)\<rparr>"

definition block_iterator :: "comparator_t \<Rightarrow> (Status + Iter) iterator" where
  "block_iterator c = sum_iterator EmptyIterator (BlockIter c)"

section \<open>Tables\<close>

record Table =
  t_options :: Options
  t_file :: random_access_file
  t_cache_id :: u64
  t_filter :: "FilterBlockReader option"
  t_metaindex_handle :: BlockHandle
  t_index_block :: Block

definition paranoid_options :: "Options \<Rightarrow> ReadOptions" where
  "paranoid_options options =
     (let opt = make_ReadOptions in if op_paranoid_checks options then opt\<lparr>ro_verify_checksums := True\<rparr> else opt)"

definition ReadFilter :: "slice \<Rightarrow> Table \<Rightarrow> Table option" where
  "ReadFilter filter_handle_value t =
     (case BlockHandle_DecodeFrom filter_handle_value make_BlockHandle of
        (s, filter_handle, _) \<Rightarrow>
          if \<not> Status_ok s then Some t
          else map_option (\<lambda>(s, block).
                 if \<not> Status_ok s then t else t\<lparr>t_filter := Some (make_FilterBlockReader (bc_data block))\<rparr>)
               (ReadBlock (t_file t) (paranoid_options (t_options t)) filter_handle))"

definition ReadMeta :: "Footer \<Rightarrow> Table \<Rightarrow> Table option" where
  "ReadMeta footer t =
     (case op_filter_policy (t_options t) of
        None \<Rightarrow> Some t
      | Some policy \<Rightarrow>
          Option.bind (ReadBlock (t_file t) (paranoid_options (t_options t)) (ft_metaindex_handle footer)) (\<lambda>(s, contents).
            if \<not> Status_ok s then Some t
            else let it = block_iterator BytewiseComparator;
                     key = lit ''filter.'' @ fp_Name policy
                 in Option.bind (it_Seek it key (Block_NewIterator (make_Block (bc_data contents)))) (\<lambda>iter.
                      if it_Valid it iter \<and> it_key it iter = key
                      then Option.bind (it_value it iter) (\<lambda>v. ReadFilter v t) else Some t)))"

text \<open>\<open>cache_id\<close> is the new number that the block cache gives, or 0 without one.\<close>

definition Table_Open :: "Options \<Rightarrow> random_access_file \<Rightarrow> u64 \<Rightarrow> u64 \<Rightarrow> (Status \<times> Table option) option" where
  "Table_Open options file size' cache_id =
     (if size' < of_nat Footer_kEncodedLength then Some (Corruption (lit ''file is too short to be an sstable''), None)
      else Option.bind (file (size' - of_nat Footer_kEncodedLength) (of_nat Footer_kEncodedLength)) (\<lambda>(s, footer_input, _).
        if \<not> Status_ok s then Some (s, None)
        else Option.bind (Footer_DecodeFrom footer_input make_Footer) (\<lambda>(s, footer, _).
          if \<not> Status_ok s then Some (s, None)
          else Option.bind (ReadBlock file (paranoid_options options) (ft_index_handle footer)) (\<lambda>(s, index_block_contents).
            if \<not> Status_ok s then Some (s, None)
            else map_option (\<lambda>t. (s, Some t))
                   (ReadMeta footer
                     \<lparr>t_options = options, t_file = file, t_cache_id = cache_id, t_filter = None,
                      t_metaindex_handle = ft_metaindex_handle footer,
                      t_index_block = make_Block (bc_data index_block_contents)\<rparr>)))))"

text \<open>
  The block cache is an argument: \<open>None\<close> without a cache, otherwise what \<open>Lookup\<close> finds for
  each key. Besides the iterator, the result is the block that is inserted into the cache.
\<close>

definition BlockReader ::
  "Table \<Rightarrow> (slice \<Rightarrow> Block option) option \<Rightarrow> ReadOptions \<Rightarrow> slice \<Rightarrow> ((Status + Iter) \<times> (slice \<times> Block) option) option" where
  "BlockReader t block_cache options index_value =
     (case BlockHandle_DecodeFrom index_value make_BlockHandle of
        (s, handle, _) \<Rightarrow>
          Option.bind
            (if \<not> Status_ok s then Some (s, None, None)
             else case block_cache of
                    Some lookup \<Rightarrow>
                      let key = EncodeFixed64 (t_cache_id t) @ EncodeFixed64 (bh_offset handle)
                      in (case lookup key of
                            Some block \<Rightarrow> Some (s, Some block, None)
                          | None \<Rightarrow>
                              map_option (\<lambda>(s, contents).
                                if Status_ok s
                                then let block = make_Block (bc_data contents)
                                     in (s, Some block, if bc_cachable contents \<and> ro_fill_cache options then Some (key, block) else None)
                                else (s, None, None))
                              (ReadBlock (t_file t) options handle))
                  | None \<Rightarrow>
                      map_option (\<lambda>(s, contents). (s, if Status_ok s then Some (make_Block (bc_data contents)) else None, None))
                        (ReadBlock (t_file t) options handle))
            (\<lambda>(s, block, inserted).
               Some (case block of Some b \<Rightarrow> Block_NewIterator b | None \<Rightarrow> Inl (NewErrorIterator s), inserted)))"

definition block_function ::
  "Table \<Rightarrow> (slice \<Rightarrow> Block option) option \<Rightarrow> ReadOptions \<Rightarrow> slice \<Rightarrow> (Status + Iter) option" where
  "block_function t block_cache options v = map_option fst (BlockReader t block_cache options v)"

text \<open>The operations of the iterator of a table, and its initial state.\<close>

type_synonym table_iter = "(Status + Iter, Status + Iter) two_level"

definition TableIterator ::
  "Table \<Rightarrow> (slice \<Rightarrow> Block option) option \<Rightarrow> ReadOptions \<Rightarrow> table_iter iterator" where
  "TableIterator t block_cache options =
     (let it = block_iterator (op_comparator (t_options t))
      in TwoLevelIterator it it (block_function t block_cache options))"

definition Table_NewIterator :: "Table \<Rightarrow> table_iter" where
  "Table_NewIterator t =
     NewTwoLevelIterator (block_iterator (op_comparator (t_options t))) (Block_NewIterator (t_index_block t))"

text \<open>
  Whether the filter rules out the key; the handle is decoded only if there is a filter.
\<close>

definition ruled_out :: "Table \<Rightarrow> slice \<Rightarrow> slice \<Rightarrow> bool option" where
  "ruled_out t handle_value k =
     (case (t_filter t, op_filter_policy (t_options t)) of
        (Some f, Some p) \<Rightarrow>
          (case BlockHandle_DecodeFrom handle_value make_BlockHandle of
             (s, handle, _) \<Rightarrow>
               if Status_ok s then map_option Not (FilterBlock_KeyMayMatch p (bh_offset handle) k f) else Some False)
      | (Some f, None) \<Rightarrow> None
      | (None, _) \<Rightarrow> Some False)"

text \<open>The results are the status and the entry that \<open>handle_result\<close> is called with, if it is.\<close>

definition InternalGet ::
  "Table \<Rightarrow> (slice \<Rightarrow> Block option) option \<Rightarrow> ReadOptions \<Rightarrow> slice \<Rightarrow> (Status \<times> (slice \<times> slice) option) option" where
  "InternalGet t block_cache options k =
     (let it = block_iterator (op_comparator (t_options t))
      in Option.bind (it_Seek it k (Block_NewIterator (t_index_block t))) (\<lambda>iiter.
        Option.bind
          (if it_Valid it iiter then
             Option.bind (it_value it iiter) (\<lambda>handle_value.
               Option.bind (ruled_out t handle_value k) (\<lambda>r.
                 if r then Some (OK, None)
                 else Option.bind (block_function t block_cache options handle_value) (\<lambda>block_iter.
                        Option.bind (it_Seek it k block_iter) (\<lambda>block_iter.
                          if it_Valid it block_iter
                          then map_option (\<lambda>v. (it_status it block_iter, Some (it_key it block_iter, v))) (it_value it block_iter)
                          else Some (it_status it block_iter, None)))))
           else Some (OK, None))
          (\<lambda>(s, r). Some (if Status_ok s then it_status it iiter else s, r))))"

definition ApproximateOffsetOf :: "Table \<Rightarrow> slice \<Rightarrow> u64 option" where
  "ApproximateOffsetOf t key =
     (let it = block_iterator (op_comparator (t_options t))
      in Option.bind (it_Seek it key (Block_NewIterator (t_index_block t))) (\<lambda>index_iter.
        if it_Valid it index_iter then
          map_option (\<lambda>input.
            case BlockHandle_DecodeFrom input make_BlockHandle of
              (s, handle, _) \<Rightarrow> if Status_ok s then bh_offset handle else bh_offset (t_metaindex_handle t))
          (it_value it index_iter)
        else Some (bh_offset (t_metaindex_handle t))))"

end
