(* ===== verification/Ldb_TableBuilder_Spec.thy ===== *)
theory Ldb_TableBuilder_Spec
  imports Ldb_TableBuilder
begin

text \<open>
  The layout of a table file as a specification, and that \<open>build_table\<close> produces it on every
  file that meets \<open>writable_contract\<close>.
\<close>

section \<open>Ordered entries\<close>

lemma ordered_snoc:
  assumes "ordered c valid (xs @ [kv])"
  shows "ordered c valid xs" "valid (fst kv)" "x \<in> set xs \<Longrightarrow> Compare c (fst x) (fst kv) < 0"
  using assms by (auto simp: ordered_def sorted_entries_def sorted_wrt_append)

lemma ordered_valid: "ordered c valid xs \<Longrightarrow> x \<in> set xs \<Longrightarrow> valid (fst x)"
  by (auto simp: ordered_def sorted_entries_def list_all_iff)

lemma ordered_last:
  assumes "ordered c valid xs" "x \<in> set xs"
  shows "Compare c (fst x) (fst (last xs)) \<le> 0"
proof -
  have xs: "butlast xs @ [last xs] = xs" using assms(2) by (intro append_butlast_last_id) auto
  then have o: "ordered c valid (butlast xs @ [last xs])" using assms(1) by simp
  have "x \<in> set (butlast xs @ [last xs])" using assms(2) xs by simp
  then have "x = last xs \<or> x \<in> set (butlast xs)" by auto
  then show ?thesis
  proof
    assume "x = last xs"
    then show ?thesis using comparator.refl [of c valid "fst x"] ordered_valid [OF assms] assms(1) by (simp add: ordered_def)
  qed (use ordered_snoc(3) [OF o] in fastforce)
qed

section \<open>The layout\<close>

text \<open>The blocks \<open>ds\<close> follow each other from the start of the file.\<close>

definition blocks_bytes :: "slice list \<Rightarrow> byte list" where
  "blocks_bytes ds = concat (map stored_block ds)"

definition handle_of :: "slice list \<Rightarrow> nat \<Rightarrow> BlockHandle" where
  "handle_of ds j = \<lparr>bh_offset = of_nat (length (blocks_bytes (take j ds))), bh_size = of_nat (length (ds ! j))\<rparr>"

definition block_of :: "entries \<Rightarrow> slice \<Rightarrow> bool" where
  "block_of kvs d \<longleftrightarrow> (\<exists>shs ris. laid_out kvs shs ris \<and> d = block_bytes kvs shs ris)"

definition data_blocks :: "entries list \<Rightarrow> slice list \<Rightarrow> bool" where
  "data_blocks blks ds \<longleftrightarrow> length ds = length blks \<and> (\<forall>j < length blks. blks ! j \<noteq> [] \<and> block_of (blks ! j) (ds ! j))"

text \<open>The index \<open>ixs\<close> of the first \<open>m\<close> blocks of \<open>gs\<close>.\<close>

definition index_of :: "comparator_t \<Rightarrow> (slice \<Rightarrow> bool) \<Rightarrow> entries list \<Rightarrow> slice list \<Rightarrow> nat \<Rightarrow> entries \<Rightarrow> bool" where
  "index_of c valid gs ds m ixs \<longleftrightarrow>
     length ixs = m \<and>
     (\<forall>j < m. valid (fst (ixs ! j)) \<and> snd (ixs ! j) = BlockHandle_EncodeTo (handle_of ds j) [] \<and>
        (\<forall>kv \<in> set (gs ! j). Compare c (fst kv) (fst (ixs ! j)) \<le> 0) \<and>
        (Suc j < length gs \<longrightarrow> (\<forall>kv \<in> set (gs ! Suc j). Compare c (fst (ixs ! j)) (fst kv) < 0)))"

definition filter_blocks :: "entries list \<Rightarrow> slice list \<Rightarrow> (u64 \<times> slice list) list" where
  "filter_blocks gs ds = map (\<lambda>j. (bh_offset (handle_of ds j), map fst (gs ! j))) [0..<length gs]"

definition filter_state :: "filter_policy \<Rightarrow> entries list \<Rightarrow> slice list \<Rightarrow> FilterBlockBuilder" where
  "filter_state p gs ds = fold (add_block p) (filter_blocks gs ds) make_FilterBlockBuilder"

definition meta_entries :: "filter_policy option \<Rightarrow> slice list \<Rightarrow> nat \<Rightarrow> entries" where
  "meta_entries pol ds j =
     (case pol of None \<Rightarrow> [] | Some p \<Rightarrow> [(lit ''filter.'' @ fp_Name p, BlockHandle_EncodeTo (handle_of ds j) [])])"

text \<open>
  A table file: the data blocks, the filter block if there is a policy, the metaindex block,
  the index block and the footer.
\<close>

definition table_file ::
  "comparator_t \<Rightarrow> (slice \<Rightarrow> bool) \<Rightarrow> filter_policy option \<Rightarrow> entries list \<Rightarrow> entries \<Rightarrow> slice list \<Rightarrow> slice list \<Rightarrow> byte list \<Rightarrow> bool" where
  "table_file c valid pol blks ixs ds all content \<longleftrightarrow>
     data_blocks blks ds \<and> ordered c valid (concat blks) \<and> index_of c valid blks ds (length blks) ixs \<and>
     (\<exists>meta index.
        all = ds @ (case pol of None \<Rightarrow> [] | Some p \<Rightarrow> [filter_block p (filter_blocks (blks @ [[]]) ds)]) @ [meta, index] \<and>
        block_of (meta_entries pol all (length ds)) meta \<and> block_of ixs index \<and>
        content = blocks_bytes all @
          Footer_EncodeTo \<lparr>ft_metaindex_handle = handle_of all (length all - 2), ft_index_handle = handle_of all (length all - 1)\<rparr> [])"

lemma blocks_bytes_append: "blocks_bytes (xs @ ys) = blocks_bytes xs @ blocks_bytes ys"
  by (simp add: blocks_bytes_def)

lemma handle_of_append [simp]: "j < length ds \<Longrightarrow> handle_of (ds @ es) j = handle_of ds j"
  by (simp add: handle_of_def nth_append)

lemma handle_offset_append [simp]: "j \<le> length ds \<Longrightarrow> bh_offset (handle_of (ds @ es) j) = bh_offset (handle_of ds j)"
  by (simp add: handle_of_def)

lemma handle_of_next: "handle_of (ds @ d # es) (length ds) = \<lparr>bh_offset = of_nat (length (blocks_bytes ds)), bh_size = of_nat (length d)\<rparr>"
  by (simp add: handle_of_def)

lemma stored_handle:
  assumes "j < length ds"
  shows "stored (blocks_bytes ds @ tail) (handle_of ds j) (ds ! j)"
proof -
  have "blocks_bytes ds = blocks_bytes (take j ds) @ stored_block (ds ! j) @ blocks_bytes (drop (Suc j) ds)"
    using assms by (metis append_take_drop_id blocks_bytes_append blocks_bytes_def concat.simps(2) list.simps(9) Cons_nth_drop_Suc)
  then show ?thesis
    unfolding stored_def handle_of_def
    by (intro exI [of _ "blocks_bytes (take j ds)"] exI [of _ "blocks_bytes (drop (Suc j) ds) @ tail"]) simp
qed

lemma filter_blocks_snoc:
  assumes "length ds = length blks"
  shows "filter_blocks (blks @ [cur]) (ds @ es) = filter_blocks blks ds @ [(of_nat (length (blocks_bytes ds)), map fst cur)]"
proof -
  have "map (\<lambda>j. (bh_offset (handle_of (ds @ es) j), map fst ((blks @ [cur]) ! j))) [0..<length blks] =
      map (\<lambda>j. (bh_offset (handle_of ds j), map fst (blks ! j))) [0..<length blks]"
    using assms by (intro map_cong) (auto simp: nth_append)
  then show ?thesis using assms by (simp add: filter_blocks_def handle_of_def)
qed

section \<open>Writing blocks\<close>

definition holds :: "('f \<Rightarrow> bool) \<Rightarrow> ('f \<Rightarrow> byte list) \<Rightarrow> slice list \<Rightarrow> 'f TableBuilder \<Rightarrow> bool" where
  "holds good content ds b \<longleftrightarrow>
     good (tb_file b) \<and> content (tb_file b) = blocks_bytes ds \<and>
     tb_offset b = of_nat (length (blocks_bytes ds)) \<and> tb_status b = OK"

lemma Reset_make: "BlockBuilder_Reset b = make_BlockBuilder"
  by (cases b) (simp add: BlockBuilder_Reset_def make_BlockBuilder_def)

text \<open>\<open>moved b b'\<close>: only the file, its offset and the status have changed.\<close>

definition moved :: "'f TableBuilder \<Rightarrow> 'f TableBuilder \<Rightarrow> bool" where
  "moved b b' \<longleftrightarrow>
     b' = b\<lparr>tb_file := tb_file b', tb_offset := tb_offset b', tb_status := tb_status b', tb_compressed_output := tb_compressed_output b'\<rparr>"

lemma movedD:
  assumes "moved b b'"
  shows "tb_options b' = tb_options b" "tb_index_block_options b' = tb_index_block_options b"
    "tb_data_block b' = tb_data_block b" "tb_index_block b' = tb_index_block b" "tb_last_key b' = tb_last_key b"
    "tb_filter_block b' = tb_filter_block b" "tb_pending_index_entry b' = tb_pending_index_entry b"
    "tb_pending_handle b' = tb_pending_handle b"
  by (subst assms [unfolded moved_def], simp)+

context writable_contract begin

lemma WriteRaw_ok:
  assumes "holds good content ds b"
  shows "\<exists>b'. WriteRawBlock dest d kNoCompression b = Some (handle_of (ds @ [d]) (length ds), b') \<and>
    holds good content (ds @ [d]) b' \<and> moved b b'"
proof -
  have g: "good (tb_file b)" "content (tb_file b) = blocks_bytes ds" "tb_offset b = of_nat (length (blocks_bytes ds))"
    using assms by (auto simp: holds_def)
  obtain f1 where f1: "wf_Append dest d (tb_file b) = Some (OK, f1)" "good f1" "content f1 = blocks_bytes ds @ d"
    using append [OF g(1)] g(2) by metis
  let ?t = "0 # EncodeFixed32 (Mask (Extend 0 (Value 0 d) [0]))"
  obtain f2 where f2: "wf_Append dest ?t f1 = Some (OK, f2)" "good f2" "content f2 = blocks_bytes ds @ d @ ?t"
    using append [OF f1(2)] f1(3) by (metis append.assoc)
  have "d @ ?t = stored_block d" by (simp add: stored_block_def Value_def Extend_spec crc32c_append)
  then have "content f2 = blocks_bytes (ds @ [d])" using f2(3) by (simp add: blocks_bytes_def)
  moreover have "length (blocks_bytes (ds @ [d])) = length (blocks_bytes ds) + (length d + 5)"
    by (simp add: blocks_bytes_def stored_block_def)
  ultimately show ?thesis
    using f1(1) f2(1,2) g(3)
    by (auto simp: WriteRawBlock_def Let_def compression_byte_def Status_kinds holds_def moved_def handle_of_next kBlockTrailerSize_def)
qed

lemma WriteBlock_ok:
  assumes "holds good content ds b" "built kvs block"
  shows "\<exists>b' d. WriteBlock dest block b = Some (handle_of (ds @ [d]) (length ds), make_BlockBuilder, b') \<and>
    block_of kvs d \<and> holds good content (ds @ [d]) b' \<and> moved b b'"
proof -
  obtain shs ris where l: "laid_out kvs shs ris" "fst (BlockBuilder_Finish block) = block_bytes kvs shs ris"
    using Finish_bytes [OF assms(2)] .
  obtain b' where b': "WriteRawBlock dest (block_bytes kvs shs ris) kNoCompression b =
      Some (handle_of (ds @ [block_bytes kvs shs ris]) (length ds), b')"
    "holds good content (ds @ [block_bytes kvs shs ris]) b'" "moved b b'"
    using WriteRaw_ok [OF assms(1)] by blast
  have "WriteBlock dest block b =
      Some (handle_of (ds @ [block_bytes kvs shs ris]) (length ds), make_BlockBuilder, b'\<lparr>tb_compressed_output := []\<rparr>)"
    using b'(1) l(2) by (cases "BlockBuilder_Finish block")
      (simp add: WriteBlock_def Snappy_Compress_def Reset_make split: CompressionType.splits)
  moreover have "holds good content (ds @ [block_bytes kvs shs ris]) (b'\<lparr>tb_compressed_output := []\<rparr>)"
    using b'(2) by (simp add: holds_def)
  moreover have "moved b (b'\<lparr>tb_compressed_output := []\<rparr>)" using b'(3) by (cases b, cases b') (simp add: moved_def)
  ultimately show ?thesis using l(1) by (auto simp: block_of_def)
qed

end

section \<open>The invariant of the builder\<close>

text \<open>
  The blocks \<open>blks\<close> are written, the entries \<open>cur\<close> are in the data block. As long as the entry
  of the last block is missing in the index, the data block is empty.
\<close>

definition table_inv ::
  "('f \<Rightarrow> bool) \<Rightarrow> ('f \<Rightarrow> byte list) \<Rightarrow> (slice \<Rightarrow> bool) \<Rightarrow> Options \<Rightarrow> entries list \<Rightarrow> entries \<Rightarrow> slice list \<Rightarrow> 'f TableBuilder \<Rightarrow> bool" where
  "table_inv good content valid opts blks cur ds b \<longleftrightarrow>
     holds good content ds b \<and> data_blocks blks ds \<and> ordered (op_comparator opts) valid (concat blks @ cur) \<and>
     built cur (tb_data_block b) \<and>
     (\<exists>ixs. built ixs (tb_index_block b) \<and>
        index_of (op_comparator opts) valid (blks @ [cur]) ds (if tb_pending_index_entry b then length blks - 1 else length blks) ixs) \<and>
     (if tb_pending_index_entry b then blks \<noteq> [] \<and> cur = [] \<and> tb_pending_handle b = handle_of ds (length blks - 1)
      else blks = [] \<or> cur \<noteq> []) \<and>
     (concat blks @ cur \<noteq> [] \<longrightarrow> tb_last_key b = fst (last (concat blks @ cur))) \<and>
     tb_filter_block b = map_option (\<lambda>p. (p, filter_state p (blks @ [cur]) ds)) (op_filter_policy opts) \<and>
     tb_options b = opts \<and> tb_index_block_options b = opts\<lparr>op_block_restart_interval := 1\<rparr>"

lemma index_of_extend:
  assumes "index_of c valid (blks @ [cur]) ds m ixs" "length ds = length blks" "m \<le> length blks" "comparator c valid"
    and "m = length blks \<Longrightarrow> m = 0 \<or> cur \<noteq> []" "valid k" "\<forall>x \<in> set cur. valid (fst x) \<and> Compare c (fst x) k < 0"
  shows "index_of c valid (blks @ [cur @ [(k, v)]]) ds m ixs"
proof -
  have "Compare c (fst (ixs ! j)) (fst kv) < 0"
    if j: "j < m" and kv: "kv \<in> set ((blks @ [cur @ [(k, v)]]) ! Suc j)" for j kv
  proof (cases "Suc j < length blks")
    case True
    then show ?thesis using assms(1) j kv by (auto simp: index_of_def nth_append)
  next
    case False
    then have j': "Suc j = length blks" "m = length blks" using j assms(3) by auto
    then have sep: "\<forall>x \<in> set cur. Compare c (fst (ixs ! j)) (fst x) < 0" and v: "valid (fst (ixs ! j))"
      using assms(1) j by (auto simp: index_of_def nth_append)
    obtain x where x: "x \<in> set cur" using assms(5) j j' by (cases cur) auto
    have "Compare c (fst (ixs ! j)) k < 0"
      using comparator.less_trans [OF assms(4) v _ assms(6), of "fst x"] sep assms(7) x by fastforce
    then show ?thesis using kv sep j' by (auto simp: nth_append)
  qed
  then show ?thesis using assms(1,3) by (auto simp: index_of_def nth_append)
qed

lemma index_of_snoc:
  assumes "index_of c valid gs ds m ixs" "valid sep"
    and "\<forall>kv \<in> set (gs ! m). Compare c (fst kv) sep \<le> 0" "Suc m < length gs \<Longrightarrow> \<forall>kv \<in> set (gs ! Suc m). Compare c sep (fst kv) < 0"
  shows "index_of c valid gs ds (Suc m) (ixs @ [(sep, BlockHandle_EncodeTo (handle_of ds m) [])])"
  using assms by (auto simp: index_of_def nth_append less_Suc_eq)

lemma index_of_drop: "index_of c valid (gs @ [[]]) ds (length gs) ixs \<Longrightarrow> index_of c valid gs ds (length gs) ixs"
  by (simp add: index_of_def nth_append)

lemma index_of_write:
  "index_of c valid gs ds m ixs \<Longrightarrow> m \<le> length ds \<Longrightarrow> m \<le> length gs \<Longrightarrow> index_of c valid (gs @ [[]]) (ds @ es) m ixs"
  by (auto simp: index_of_def nth_append)

text \<open>The separator behind the last block: between its keys and the next one, if there is one.\<close>

lemma index_entry_inv:
  assumes "table_inv good content valid opts blks cur ds b" "tb_pending_index_entry b"
    and sep: "valid sep" "Compare (op_comparator opts) (tb_last_key b) sep \<le> 0"
    and next': "set nxt \<subseteq> {kv. Compare (op_comparator opts) sep (fst kv) < 0}"
  shows "\<exists>ixs. built ixs (tb_index_block (index_entry sep b)) \<and>
    index_of (op_comparator opts) valid (blks @ [nxt]) ds (length blks) ixs"
proof -
  let ?c = "op_comparator opts" and ?m = "length blks - 1"
  obtain ixs where ixs: "built ixs (tb_index_block b)" "index_of ?c valid (blks @ [cur]) ds ?m ixs"
    and blks: "blks \<noteq> []" "cur = []" "tb_pending_handle b = handle_of ds ?m" and ds: "data_blocks blks ds"
    and o: "ordered ?c valid (concat blks)" and lk: "concat blks \<noteq> [] \<longrightarrow> tb_last_key b = fst (last (concat blks))"
    and opts: "tb_index_block_options b = opts\<lparr>op_block_restart_interval := 1\<rparr>"
    using assms(1,2) by (auto simp: table_inv_def)
  have c: "comparator ?c valid" using o by (simp add: ordered_def)
  have le: "Compare ?c (fst kv) sep \<le> 0" if "kv \<in> set (blks ! ?m)" for kv
  proof -
    have "blks ! ?m \<in> set blks" using blks(1) by simp
    then have kv: "kv \<in> set (concat blks)" using that by auto
    then have "concat blks \<noteq> []" by (metis empty_iff list.set(1))
    then show ?thesis
      using comparator.trans [OF c ordered_valid [OF o kv] ordered_valid [OF o last_in_set] sep(1)] ordered_last [OF o kv] sep(2) lk by simp
  qed
  have old: "index_of ?c valid (blks @ [nxt]) ds ?m ixs"
    using ixs(2) blks(1) by (auto simp: index_of_def nth_append)
  have "Suc ?m = length blks" using blks(1) by simp
  then have "index_of ?c valid (blks @ [nxt]) ds (length blks) (ixs @ [(sep, BlockHandle_EncodeTo (handle_of ds ?m) [])])"
    using index_of_snoc [OF old sep(1)] le next' by (auto simp: nth_append)
  moreover have "built (ixs @ [(sep, BlockHandle_EncodeTo (handle_of ds ?m) [])]) (tb_index_block (index_entry sep b))"
    using built_Add [OF ixs(1), of 1 sep] by (simp add: index_entry_def blks(3) opts)
  ultimately show ?thesis by blast
qed

lemma index_entry_fields [simp]:
  "tb_file (index_entry sep b) = tb_file b" "tb_offset (index_entry sep b) = tb_offset b"
  "tb_status (index_entry sep b) = tb_status b" "tb_data_block (index_entry sep b) = tb_data_block b"
  "tb_filter_block (index_entry sep b) = tb_filter_block b" "tb_options (index_entry sep b) = tb_options b"
  "tb_index_block_options (index_entry sep b) = tb_index_block_options b"
  "\<not> tb_pending_index_entry (index_entry sep b)" "tb_last_key (index_entry sep b) = sep"
  by (simp_all add: index_entry_def)

lemma filter_state_AddKey:
  "length ds = length blks \<Longrightarrow> filter_state p (blks @ [cur @ [(k, v)]]) ds = FilterBlock_AddKey k (filter_state p (blks @ [cur]) ds)"
  using filter_blocks_snoc [of ds blks _ "[]"] by (simp add: filter_state_def add_block_def)

lemma filter_state_StartBlock:
  assumes "length ds = length blks"
  shows "filter_state p ((blks @ [cur]) @ [[]]) (ds @ [d]) =
    StartBlock p (of_nat (length (blocks_bytes (ds @ [d])))) (filter_state p (blks @ [cur]) ds)"
  using filter_blocks_snoc [of "ds @ [d]" "blks @ [cur]" "[]" "[]"] filter_blocks_snoc [of ds blks cur "[d]"]
    filter_blocks_snoc [of ds blks cur "[]"] assms
  by (simp add: filter_state_def add_block_def)

lemma buffer_empty: "built cur b \<Longrightarrow> BlockBuilder_empty b \<longleftrightarrow> cur = []"
proof -
  assume "built cur b"
  then obtain shs ris where l: "laid_out cur shs ris" "bb_buffer b = entries_bytes shs cur" by (auto simp: built_def)
  then have n: "length shs = length cur" by (simp add: laid_out_def)
  show ?thesis
  proof (cases cur)
    case (Cons kv kvs)
    then obtain sh shs' where "shs = sh # shs'" using n by (cases shs) auto
    then show ?thesis using l(2) Cons entry_bytes_pos [of "(sh, kv)"] by (auto simp: BlockBuilder_empty_def entries_bytes_def)
  qed (simp add: BlockBuilder_empty_def l(2) entries_bytes_def)
qed

text \<open>One key, before the check of the size of the block.\<close>

definition add_key :: "slice \<Rightarrow> slice \<Rightarrow> 'f TableBuilder \<Rightarrow> 'f TableBuilder" where
  "add_key key value b =
     (let b = (if tb_pending_index_entry b
               then index_entry (FindShortestSeparator (op_comparator (tb_options b)) (tb_last_key b) key) b else b);
          b = b\<lparr>tb_filter_block := map_option (\<lambda>(p, fb). (p, FilterBlock_AddKey key fb)) (tb_filter_block b)\<rparr>
      in b\<lparr>tb_last_key := key, tb_num_entries := tb_num_entries b + 1,
           tb_data_block := BlockBuilder_Add (op_block_restart_interval (tb_options b)) key value (tb_data_block b)\<rparr>)"

lemma tb_Add_key:
  "tb_ok b \<Longrightarrow> tb_Add dest key value b =
     (if CurrentSizeEstimate (tb_data_block (add_key key value b)) \<ge> unat (op_block_size (tb_options b))
      then tb_Flush dest (add_key key value b) else Some (add_key key value b))"
  by (simp add: tb_Add_def add_key_def Let_def)

lemma add_key_inv:
  assumes inv: "table_inv good content valid opts blks cur ds b" and o: "ordered (op_comparator opts) valid (concat blks @ cur @ [(k, v)])"
    and int: "1 \<le> op_block_restart_interval opts"
  shows "table_inv good content valid opts blks (cur @ [(k, v)]) ds (add_key k v b)"
proof -
  let ?c = "op_comparator opts" and ?b = "add_key k v b"
  have c: "comparator ?c valid" using o by (simp add: ordered_def)
  have o': "ordered ?c valid ((concat blks @ cur) @ [(k, v)])" using o by simp
  note snoc = ordered_snoc [OF o', simplified]
  have opts: "tb_options b = opts" and n: "length ds = length blks" using inv by (auto simp: table_inv_def data_blocks_def)
  have fields: "tb_file ?b = tb_file b" "tb_offset ?b = tb_offset b" "tb_status ?b = tb_status b" "\<not> tb_pending_index_entry ?b"
    "tb_last_key ?b = k" "tb_options ?b = tb_options b" "tb_index_block_options ?b = tb_index_block_options b"
    "tb_data_block ?b = BlockBuilder_Add (op_block_restart_interval opts) k v (tb_data_block b)"
    "tb_filter_block ?b = map_option (\<lambda>(p, fb). (p, FilterBlock_AddKey k fb)) (tb_filter_block b)"
    by (simp_all add: add_key_def Let_def opts)
  have "\<exists>ixs. built ixs (tb_index_block ?b) \<and> index_of ?c valid (blks @ [cur @ [(k, v)]]) ds (length blks) ixs"
  proof (cases "tb_pending_index_entry b")
    case True
    then have p: "blks \<noteq> []" "cur = []" and lk: "concat blks \<noteq> [] \<longrightarrow> tb_last_key b = fst (last (concat blks))"
      and ds: "data_blocks blks ds" using inv by (auto simp: table_inv_def)
    have ne: "concat blks \<noteq> []" using p(1) ds by (cases blks) (auto simp: data_blocks_def)
    let ?lk = "tb_last_key b"
    have lv: "valid ?lk" "Compare ?c ?lk k < 0"
      using lk ne snoc(3) [of "last (concat blks)"] ordered_valid [OF snoc(1), of "last (concat blks)"] p(2) last_in_set [OF ne] by auto
    have sep: "valid (FindShortestSeparator ?c ?lk k)" "Compare ?c ?lk (FindShortestSeparator ?c ?lk k) \<le> 0"
      "Compare ?c (FindShortestSeparator ?c ?lk k) k < 0"
      using comparator.separator [OF c lv(1) snoc(2) lv(2)] comparator.valid_separator [OF c lv(1) snoc(2)] by auto
    show ?thesis
      using index_entry_inv [OF inv True sep(1,2), of "[(k, v)]"] sep(3) True p(2) by (simp add: add_key_def Let_def opts)
  next
    case False
    then obtain ixs where ixs: "built ixs (tb_index_block b)" "index_of ?c valid (blks @ [cur]) ds (length blks) ixs"
      and ne: "blks = [] \<or> cur \<noteq> []" using inv by (auto simp: table_inv_def)
    have "index_of ?c valid (blks @ [cur @ [(k, v)]]) ds (length blks) ixs"
      using ne snoc(2,3) ordered_valid [OF snoc(1)] by (intro index_of_extend [OF ixs(2) n _ c]) auto
    then show ?thesis using ixs(1) False by (auto simp: add_key_def Let_def)
  qed
  moreover have "built (cur @ [(k, v)]) (tb_data_block ?b)"
    using inv built_Add [OF _ int] by (auto simp: fields table_inv_def)
  moreover have "tb_filter_block ?b = map_option (\<lambda>p. (p, filter_state p (blks @ [cur @ [(k, v)]]) ds)) (op_filter_policy opts)"
    using inv filter_state_AddKey [OF n] by (simp add: fields table_inv_def option.map_comp comp_def)
  ultimately show ?thesis using inv o by (simp add: table_inv_def fields holds_def)
qed

context writable_contract begin

lemma Flush_inv:
  assumes inv: "table_inv good content valid opts blks cur ds b"
  shows "\<exists>blks' ds' b'. tb_Flush dest b = Some b' \<and> table_inv good content valid opts blks' [] ds' b' \<and>
    concat blks' = concat blks @ cur"
proof (cases "cur = []")
  case True
  then have "tb_Flush dest b = Some b"
    using inv buffer_empty [of cur "tb_data_block b"] by (simp add: tb_Flush_def table_inv_def)
  then show ?thesis using inv True by (intro exI [of _ blks] exI [of _ ds] exI [of _ b]) simp
next
  case False
  have h: "holds good content ds b" and bl: "built cur (tb_data_block b)" and n: "length ds = length blks"
    and np: "\<not> tb_pending_index_entry b" and db: "data_blocks blks ds"
    using inv False by (auto simp: table_inv_def data_blocks_def split: if_splits)
  obtain b1 d where b1: "WriteBlock dest (tb_data_block b) b = Some (handle_of (ds @ [d]) (length ds), make_BlockBuilder, b1)"
    "block_of cur d" "holds good content (ds @ [d]) b1" "moved b b1"
    using WriteBlock_ok [OF h bl] by blast
  note mv = movedD [OF b1(4)]
  obtain f where f: "wf_Flush dest (tb_file b1) = Some (OK, f)" "good f" "content f = blocks_bytes (ds @ [d])"
    using flush [of "tb_file b1"] b1(3) by (auto simp: holds_def)
  define b' where "b' = b1\<lparr>tb_pending_handle := handle_of (ds @ [d]) (length ds), tb_data_block := make_BlockBuilder,
    tb_pending_index_entry := True, tb_status := OK, tb_file := f,
    tb_filter_block := map_option (\<lambda>(p, fb). (p, StartBlock p (tb_offset b1) fb)) (tb_filter_block b1)\<rparr>"
  have "tb_ok b" "tb_status b1 = OK" using h b1(3) by (simp_all add: tb_ok_def holds_def Status_kinds)
  then have "tb_Flush dest b = Some b'"
    using False bl buffer_empty [OF bl] b1(1) f(1) by (simp add: tb_Flush_def tb_ok_def Status_kinds b'_def)
  moreover have "table_inv good content valid opts (blks @ [cur]) [] (ds @ [d]) b'"
  proof -
    obtain ixs where ixs: "built ixs (tb_index_block b)" "index_of (op_comparator opts) valid (blks @ [cur]) ds (length blks) ixs"
      using inv np by (auto simp: table_inv_def)
    have "index_of (op_comparator opts) valid ((blks @ [cur]) @ [[]]) (ds @ [d]) (length blks) ixs"
      by (rule index_of_write [OF ixs(2)]) (simp_all add: n)
    moreover have "data_blocks (blks @ [cur]) (ds @ [d])"
      using db b1(2) False by (auto simp: data_blocks_def nth_append less_Suc_eq)
    moreover have "tb_filter_block b' = map_option (\<lambda>p. (p, filter_state p ((blks @ [cur]) @ [[]]) (ds @ [d]))) (op_filter_policy opts)"
      using inv b1(3) filter_state_StartBlock [OF n] by (simp add: b'_def mv table_inv_def holds_def option.map_comp comp_def)
    moreover have "holds good content (ds @ [d]) b'" using b1(3) f(2,3) by (simp add: holds_def b'_def)
    ultimately show ?thesis
      using inv ixs(1) b1(3) n built_make by (auto simp: table_inv_def b'_def mv)
  qed
  ultimately show ?thesis by (intro exI [of _ "blks @ [cur]"] exI [of _ "ds @ [d]"] exI [of _ b']) simp
qed

lemma Add_inv:
  assumes inv: "table_inv good content valid opts blks cur ds b" and o: "ordered (op_comparator opts) valid (concat blks @ cur @ [(k, v)])"
    and int: "1 \<le> op_block_restart_interval opts"
  shows "\<exists>blks' cur' ds' b'. tb_Add dest k v b = Some b' \<and> table_inv good content valid opts blks' cur' ds' b' \<and>
    concat blks' @ cur' = concat blks @ cur @ [(k, v)]"
proof -
  have inv': "table_inv good content valid opts blks (cur @ [(k, v)]) ds (add_key k v b)" by (rule add_key_inv [OF assms])
  have ok: "tb_ok b" using inv by (simp add: table_inv_def holds_def tb_ok_def Status_kinds)
  show ?thesis
  proof (cases "CurrentSizeEstimate (tb_data_block (add_key k v b)) \<ge> unat (op_block_size (tb_options b))")
    case True
    then show ?thesis using Flush_inv [OF inv'] tb_Add_key [OF ok] by fastforce
  next
    case False
    then show ?thesis using inv' tb_Add_key [OF ok] by fastforce
  qed
qed

lemma add_entries_inv:
  assumes "table_inv good content valid opts blks cur ds b" "ordered (op_comparator opts) valid (concat blks @ cur @ kvs)"
    and "1 \<le> op_block_restart_interval opts"
  shows "\<exists>blks' cur' ds' b'. add_entries dest kvs b = Some b' \<and> table_inv good content valid opts blks' cur' ds' b' \<and>
    concat blks' @ cur' = concat blks @ cur @ kvs"
  using assms(1,2)
proof (induction kvs arbitrary: blks cur ds b)
  case (Cons kv kvs)
  obtain k v where kv: "kv = (k, v)" by (cases kv)
  have "ordered (op_comparator opts) valid (concat blks @ cur @ [(k, v)])"
    using Cons.prems(2) kv by (auto simp: ordered_def sorted_entries_def sorted_wrt_append)
  then obtain blks' cur' ds' b' where 1: "tb_Add dest k v b = Some b'" "table_inv good content valid opts blks' cur' ds' b'"
    "concat blks' @ cur' = concat blks @ cur @ [(k, v)]"
    using Add_inv [OF Cons.prems(1) _ assms(3)] by blast
  have e: "concat blks' @ cur' @ kvs = concat blks @ cur @ kv # kvs"
    using arg_cong [OF 1(3), of "\<lambda>xs. xs @ kvs"] kv by simp
  have "\<exists>blks'' cur'' ds'' b''. add_entries dest kvs b' = Some b'' \<and> table_inv good content valid opts blks'' cur'' ds'' b'' \<and>
      concat blks'' @ cur'' = concat blks' @ cur' @ kvs"
    using Cons.prems(2) by (intro Cons.IH [OF 1(2)]) (simp only: e)
  then show ?case unfolding e using 1(1) kv by simp
qed auto

lemma write_filter_ok:
  assumes h: "holds good content ds b" and f: "tb_filter_block b = map_option (\<lambda>p. (p, filter_state p gs ds)) pol"
  shows "\<exists>h b' fds. write_filter dest b = Some (h, b') \<and> holds good content (ds @ fds) b' \<and>
    fds = (case pol of None \<Rightarrow> [] | Some p \<Rightarrow> [filter_block p (filter_blocks gs ds)]) \<and>
    (pol \<noteq> None \<longrightarrow> h = handle_of (ds @ fds) (length ds)) \<and> (tb_filter_block b' = None \<longleftrightarrow> pol = None) \<and>
    moved (b\<lparr>tb_filter_block := tb_filter_block b'\<rparr>) b'"
proof (cases pol)
  case None
  have "moved (b\<lparr>tb_filter_block := tb_filter_block b\<rparr>) b" by (cases b) (simp add: moved_def)
  then show ?thesis using None h f by (auto simp: write_filter_def)
next
  case (Some p)
  obtain d fb where fin: "FilterBlock_Finish p (filter_state p gs ds) = (d, fb)" by fastforce
  then have d: "d = filter_block p (filter_blocks gs ds)" by (simp add: filter_block_def filter_state_def)
  have "holds good content ds (b\<lparr>tb_filter_block := Some (p, fb)\<rparr>)" using h by (simp add: holds_def)
  from WriteRaw_ok [OF this, of d] obtain b' where b':
    "WriteRawBlock dest d kNoCompression (b\<lparr>tb_filter_block := Some (p, fb)\<rparr>) = Some (handle_of (ds @ [d]) (length ds), b')"
    "holds good content (ds @ [d]) b'" "moved (b\<lparr>tb_filter_block := Some (p, fb)\<rparr>) b'" by blast
  have "tb_filter_block b' = Some (p, fb)" using movedD(6) [OF b'(3)] by simp
  moreover have "tb_ok b" using h by (simp add: holds_def tb_ok_def Status_kinds)
  ultimately show ?thesis using b' Some f fin d by (auto simp: write_filter_def)
qed

lemma write_metaindex_ok:
  assumes h: "holds good content ds b" and int: "1 \<le> op_block_restart_interval (tb_options b)"
    and f: "tb_filter_block b = None \<longleftrightarrow> op_filter_policy (tb_options b) = None"
    and handle: "op_filter_policy (tb_options b) \<noteq> None \<longrightarrow> fh = handle_of ds j"
  shows "\<exists>b' d. write_metaindex dest fh b = Some (handle_of (ds @ [d]) (length ds), b') \<and>
    block_of (meta_entries (op_filter_policy (tb_options b)) ds j) d \<and> holds good content (ds @ [d]) b' \<and> moved b b'"
proof -
  let ?kvs = "meta_entries (op_filter_policy (tb_options b)) ds j"
  have "\<exists>m. built ?kvs m \<and> (if tb_filter_block b = None then Some make_BlockBuilder
      else case op_filter_policy (tb_options b) of None \<Rightarrow> None
           | Some policy \<Rightarrow> Some (BlockBuilder_Add (op_block_restart_interval (tb_options b)) (lit ''filter.'' @ fp_Name policy)
               (BlockHandle_EncodeTo fh []) make_BlockBuilder)) = Some m"
    using f handle built_make built_Add [OF built_make int] by (cases "op_filter_policy (tb_options b)") (auto simp: meta_entries_def)
  then obtain m where m: "built ?kvs m" "(if tb_filter_block b = None then Some make_BlockBuilder
      else case op_filter_policy (tb_options b) of None \<Rightarrow> None
           | Some policy \<Rightarrow> Some (BlockBuilder_Add (op_block_restart_interval (tb_options b)) (lit ''filter.'' @ fp_Name policy)
               (BlockHandle_EncodeTo fh []) make_BlockBuilder)) = Some m" by blast
  obtain b' d where b': "WriteBlock dest m b = Some (handle_of (ds @ [d]) (length ds), make_BlockBuilder, b')"
    "block_of ?kvs d" "holds good content (ds @ [d]) b'" "moved b b'"
    using WriteBlock_ok [OF h m(1)] by blast
  have "tb_ok b" using h by (simp add: holds_def tb_ok_def Status_kinds)
  then show ?thesis using b' unfolding write_metaindex_def m(2) by auto
qed

lemma write_index_ok:
  assumes h: "holds good content ds b" and b: "built ixs (tb_index_block b')"
    and b': "b' = (if tb_pending_index_entry b then index_entry (FindShortSuccessor (op_comparator (tb_options b)) (tb_last_key b)) b else b)"
  shows "\<exists>b'' d. write_index dest b = Some (handle_of (ds @ [d]) (length ds), b'') \<and> block_of ixs d \<and> holds good content (ds @ [d]) b''"
proof -
  have "holds good content ds b'" using h by (simp add: holds_def b')
  then obtain b'' d where b'': "WriteBlock dest (tb_index_block b') b' = Some (handle_of (ds @ [d]) (length ds), make_BlockBuilder, b'')"
    "block_of ixs d" "holds good content (ds @ [d]) b''"
    using WriteBlock_ok [OF _ b] by blast
  have "tb_ok b" using h by (simp add: holds_def tb_ok_def Status_kinds)
  then have "write_index dest b = Some (handle_of (ds @ [d]) (length ds), b''\<lparr>tb_index_block := make_BlockBuilder\<rparr>)"
    using b''(1) by (simp add: write_index_def Let_def flip: b')
  moreover have "holds good content (ds @ [d]) (b''\<lparr>tb_index_block := make_BlockBuilder\<rparr>)" using b''(3) by (simp add: holds_def)
  ultimately show ?thesis using b''(2) by blast
qed

lemma write_footer_ok:
  assumes "holds good content ds b"
  shows "\<exists>b'. write_footer dest mh ih b = Some b' \<and> tb_status b' = OK \<and> good (tb_file b') \<and>
    content (tb_file b') = blocks_bytes ds @ Footer_EncodeTo \<lparr>ft_metaindex_handle = mh, ft_index_handle = ih\<rparr> [] \<and>
    tb_offset b' = of_nat (length (content (tb_file b')))"
proof -
  let ?e = "Footer_EncodeTo \<lparr>ft_metaindex_handle = mh, ft_index_handle = ih\<rparr> []"
  obtain f where "wf_Append dest ?e (tb_file b) = Some (OK, f)" "good f" "content f = blocks_bytes ds @ ?e"
    using append [of "tb_file b"] assms by (fastforce simp: holds_def)
  then show ?thesis using assms by (simp add: write_footer_def holds_def tb_ok_def Status_kinds)
qed

text \<open>The index with the entry of the last block, which \<open>Finish\<close> adds.\<close>

lemma last_index_entry:
  assumes inv: "table_inv good content valid opts blks [] ds b"
    and b': "b' = (if tb_pending_index_entry b then index_entry (FindShortSuccessor (op_comparator opts) (tb_last_key b)) b else b)"
  shows "\<exists>ixs. built ixs (tb_index_block b') \<and> index_of (op_comparator opts) valid blks ds (length blks) ixs"
proof (cases "tb_pending_index_entry b")
  case True
  let ?c = "op_comparator opts"
  have p: "blks \<noteq> []" and lk: "concat blks \<noteq> [] \<longrightarrow> tb_last_key b = fst (last (concat blks))"
    and o: "ordered ?c valid (concat blks)" and ds: "data_blocks blks ds" using inv True by (auto simp: table_inv_def)
  have ne: "concat blks \<noteq> []" using p ds by (cases blks) (auto simp: data_blocks_def)
  have v: "valid (tb_last_key b)" using lk ne ordered_valid [OF o last_in_set [OF ne]] by simp
  have c: "comparator ?c valid" using o by (simp add: ordered_def)
  obtain ixs where "built ixs (tb_index_block b')" "index_of ?c valid (blks @ [[]]) ds (length blks) ixs"
    using index_entry_inv [OF inv True comparator.valid_successor [OF c v] comparator.successor [OF c v], of "[]"] True b' by auto
  then show ?thesis using index_of_drop by blast
next
  case False
  then show ?thesis using inv b' index_of_drop by (fastforce simp: table_inv_def)
qed

lemma Finish_ok:
  assumes inv: "table_inv good content valid opts blks cur ds b" and int: "1 \<le> op_block_restart_interval opts"
  shows "\<exists>blks' ixs ds' all b'. tb_Finish dest b = Some (OK, b') \<and> good (tb_file b') \<and> concat blks' = concat blks @ cur \<and>
    table_file (op_comparator opts) valid (op_filter_policy opts) blks' ixs ds' all (content (tb_file b')) \<and>
    tb_offset b' = of_nat (length (content (tb_file b')))"
proof -
  let ?c = "op_comparator opts" and ?pol = "op_filter_policy opts"
  obtain blks' ds' b0 where fl: "tb_Flush dest b = Some b0" and inv0: "table_inv good content valid opts blks' [] ds' b0"
    and e: "concat blks' = concat blks @ cur"
    using Flush_inv [OF inv] by blast
  define b1 where "b1 = b0\<lparr>tb_closed := True\<rparr>"
  have h1: "holds good content ds' b1" and f1: "tb_filter_block b1 = map_option (\<lambda>p. (p, filter_state p (blks' @ [[]]) ds')) ?pol"
    and o1: "tb_options b1 = opts" using inv0 by (simp_all add: table_inv_def holds_def b1_def)
  obtain fh b2 fds where 2: "write_filter dest b1 = Some (fh, b2)" "holds good content (ds' @ fds) b2"
    "fds = (case ?pol of None \<Rightarrow> [] | Some p \<Rightarrow> [filter_block p (filter_blocks (blks' @ [[]]) ds')])"
    "?pol \<noteq> None \<longrightarrow> fh = handle_of (ds' @ fds) (length ds')" "tb_filter_block b2 = None \<longleftrightarrow> ?pol = None"
    "moved (b1\<lparr>tb_filter_block := tb_filter_block b2\<rparr>) b2"
    using write_filter_ok [OF h1 f1] by (elim exE conjE) (rule that)
  note m2 = movedD [OF 2(6), simplified]
  have o2: "tb_options b2 = opts" using o1 m2(1) by simp
  obtain b3 meta where 3: "write_metaindex dest fh b2 = Some (handle_of ((ds' @ fds) @ [meta]) (length (ds' @ fds)), b3)"
    "block_of (meta_entries ?pol (ds' @ fds) (length ds')) meta" "holds good content ((ds' @ fds) @ [meta]) b3" "moved b2 b3"
    using write_metaindex_ok [OF 2(2), of fh "length ds'"] 2(4,5) int o2 by auto
  note m3 = movedD [OF 3(4)]
  define b3' where "b3' = (if tb_pending_index_entry b3 then index_entry (FindShortSuccessor (op_comparator (tb_options b3)) (tb_last_key b3)) b3 else b3)"
  define b0' where "b0' = (if tb_pending_index_entry b0 then index_entry (FindShortSuccessor ?c (tb_last_key b0)) b0 else b0)"
  obtain ixs where ixs: "built ixs (tb_index_block b0')" "index_of ?c valid blks' ds' (length blks') ixs"
    using last_index_entry [OF inv0 b0'_def] by blast
  have idx: "tb_pending_index_entry b3 = tb_pending_index_entry b0" "tb_last_key b3 = tb_last_key b0" "tb_options b3 = opts"
    "tb_index_block b3 = tb_index_block b0" "tb_pending_handle b3 = tb_pending_handle b0"
    "tb_index_block_options b3 = tb_index_block_options b0"
    unfolding m3 o2 unfolding m2 by (simp_all add: b1_def)
  have "tb_index_block b3' = tb_index_block b0'"
    by (simp add: b3'_def b0'_def index_entry_def idx)
  then have "built ixs (tb_index_block b3')" using ixs(1) by simp
  then obtain b4 index where 4: "write_index dest b3 = Some (handle_of (((ds' @ fds) @ [meta]) @ [index]) (length ((ds' @ fds) @ [meta])), b4)"
    "block_of ixs index" "holds good content (((ds' @ fds) @ [meta]) @ [index]) b4"
    using write_index_ok [OF 3(3) _ b3'_def] by blast
  define all where "all = ds' @ fds @ [meta, index]"
  define mh ih where "mh = handle_of all (length all - 2)" and "ih = handle_of all (length all - 1)"
  have handles: "handle_of ((ds' @ fds) @ [meta]) (length (ds' @ fds)) = mh"
    "handle_of (((ds' @ fds) @ [meta]) @ [index]) (length ((ds' @ fds) @ [meta])) = ih" "((ds' @ fds) @ [meta]) @ [index] = all"
    by (simp_all add: mh_def ih_def all_def handle_of_def nth_append blocks_bytes_def)
  obtain b5 where 5: "write_footer dest mh ih b4 = Some b5" "tb_status b5 = OK" "good (tb_file b5)"
    "content (tb_file b5) = blocks_bytes all @ Footer_EncodeTo \<lparr>ft_metaindex_handle = mh, ft_index_handle = ih\<rparr> []"
    "tb_offset b5 = of_nat (length (content (tb_file b5)))"
    using write_footer_ok [OF 4(3) [unfolded handles]] by blast
  have "tb_Finish dest b = Some (OK, b5)"
    using fl 2(1) 3(1) [unfolded handles(1)] 4(1) [unfolded handles(2)] 5(1,2)
    by (simp only: tb_Finish_def b1_def Option.bind.simps prod.case option.map)
  moreover have "meta_entries ?pol all (length ds') = meta_entries ?pol (ds' @ fds) (length ds')"
    using 2(3) by (auto simp: all_def meta_entries_def handle_of_def nth_append split: option.splits)
  then have "table_file ?c valid ?pol blks' ixs ds' all (content (tb_file b5))"
    using inv0 ixs(2) 2(3) 3(2) 4(2) 5(4) unfolding table_file_def mh_def ih_def
    by (auto simp: table_inv_def all_def)
  ultimately show ?thesis using 5(3,5) e by blast
qed

text \<open>The file that a table of the entries \<open>kvs\<close> fills.\<close>

lemma build_table_file:
  assumes "good f" "content f = []" "ordered (op_comparator opts) valid kvs" "1 \<le> op_block_restart_interval opts"
  shows "\<exists>blks ixs ds all b. build_table dest opts kvs f = Some (OK, b) \<and> good (tb_file b) \<and> concat blks = kvs \<and>
    table_file (op_comparator opts) valid (op_filter_policy opts) blks ixs ds all (content (tb_file b)) \<and>
    FileSize b = of_nat (length (content (tb_file b)))"
proof -
  have "table_inv good content valid opts [] [] [] (make_TableBuilder opts f)"
    using assms(1,2,3) built_make
    by (auto simp: table_inv_def make_TableBuilder_def holds_def blocks_bytes_def data_blocks_def index_of_def ordered_def
        sorted_entries_def filter_state_def filter_blocks_def handle_of_def add_block_def)
  then obtain blks cur ds b where b: "add_entries dest kvs (make_TableBuilder opts f) = Some b"
    "table_inv good content valid opts blks cur ds b" "concat blks @ cur = kvs"
    using add_entries_inv [of valid opts "[]" "[]" "[]" "make_TableBuilder opts f" kvs] assms(3,4) by auto
  then show ?thesis using Finish_ok [OF b(2) assms(4)] by (auto simp: build_table_def FileSize_def)
qed

end

end
