(* ===== verification/Ldb_Table_Spec.thy ===== *)
theory Ldb_Table_Spec
  imports Ldb_Table Ldb_TableBuilder_Spec
begin

text \<open>
  Reading a table file: opening it, its iterator as a cursor in its entries, look-up through
  the filter, all on files that meet \<open>random_access\<close>.
\<close>

section \<open>Iterators of blocks\<close>

definition sum_at :: "(entries \<Rightarrow> nat \<Rightarrow> 'a \<Rightarrow> bool) \<Rightarrow> (entries \<Rightarrow> nat \<Rightarrow> 'b \<Rightarrow> bool) \<Rightarrow> entries \<Rightarrow> nat \<Rightarrow> 'a + 'b \<Rightarrow> bool" where
  "sum_at a b kvs i s = case_sum (a kvs i) (b kvs i) s"

locale sum_children = left: iterator_contract it1 cmp valid at1 + right: iterator_contract it2 cmp valid at2
  for it1 :: "'a iterator" and it2 :: "'b iterator" and cmp valid at1 at2

sublocale sum_children \<subseteq> either: iterator_contract "sum_iterator it1 it2" cmp valid "sum_at at1 at2"
proof (unfold_locales, goal_cases)
  case (1 kvs i s)
  then show ?case using left.at_bound right.at_bound by (cases s) (auto simp: sum_at_def)
next
  case (2 kvs i s)
  then show ?case
    using left.at_shows right.at_shows by (cases s) (fastforce simp: sum_at_def sum_iterator_def shows_entry_def)+
next
  case (3 kvs i s)
  then show ?case
    using left.at_first right.at_first by (cases s) (fastforce simp: sum_at_def sum_iterator_def sum_op_def)+
next
  case (4 kvs i s)
  then show ?case
    using left.at_last right.at_last by (cases s) (fastforce simp: sum_at_def sum_iterator_def sum_op_def)+
next
  case (5 kvs i s target)
  then show ?case
    using left.at_seek right.at_seek by (cases s) (fastforce simp: sum_at_def sum_iterator_def sum_op_def)+
next
  case (6 kvs i s)
  then show ?case
    using left.at_next right.at_next by (cases s) (fastforce simp: sum_at_def sum_iterator_def sum_op_def)+
next
  case (7 kvs i s)
  then show ?case
    using left.at_prev right.at_prev by (cases s) (fastforce simp: sum_at_def sum_iterator_def sum_op_def)+
qed

definition empty_at :: "entries \<Rightarrow> nat \<Rightarrow> Status \<Rightarrow> bool" where
  "empty_at kvs i s \<longleftrightarrow> kvs = [] \<and> i = 0 \<and> s = OK"

interpretation blocks: sum_children EmptyIterator "BlockIter c" "Compare c" valid empty_at "block_at c valid" for c valid
proof (intro sum_children.intro block_iterator.iterator_contract_axioms)
  show "iterator_contract EmptyIterator (Compare c) valid empty_at"
    by unfold_locales (auto simp: EmptyIterator_def shows_entry_def empty_at_def seek_pos_def)
qed

abbreviation table_at :: "comparator_t \<Rightarrow> (slice \<Rightarrow> bool) \<Rightarrow> entries \<Rightarrow> nat \<Rightarrow> Status + Iter \<Rightarrow> bool" where
  "table_at c valid \<equiv> sum_at empty_at (block_at c valid)"

lemma block_contract: "iterator_contract (block_iterator c) (Compare c) valid (table_at c valid)"
  unfolding block_iterator_def by (rule blocks.either.iterator_contract_axioms)

lemma NewIterator_block:
  assumes "block_of kvs d" "length d < 2 ^ 32" "ordered c valid kvs"
  shows "table_at c valid kvs (length kvs) (Block_NewIterator (make_Block d))"
proof -
  obtain shs ris where l: "laid_out kvs shs ris" "d = block_bytes kvs shs ris" using assms(1) by (auto simp: block_of_def)
  then obtain s where "Block_NewIterator (make_Block d) = Inr s" "at_entry kvs shs ris (length kvs) s"
    using NewIterator_laid_out [OF l(1)] assms(2) by auto
  then show ?thesis using assms(3) by (auto simp: sum_at_def block_at_def ordered_def)
qed

text \<open>A single seek in the iterator of a block.\<close>

lemma Seek_block:
  assumes "table_at c valid kvs i s" "valid k"
  shows "\<exists>s'. it_Seek (block_iterator c) k s = Some s' \<and> it_status (block_iterator c) s' = OK \<and>
    (if seek_pos (Compare c) k kvs < length kvs
     then it_Valid (block_iterator c) s' \<and> it_key (block_iterator c) s' = fst (kvs ! seek_pos (Compare c) k kvs) \<and>
       it_value (block_iterator c) s' = Some (snd (kvs ! seek_pos (Compare c) k kvs))
     else \<not> it_Valid (block_iterator c) s')"
proof -
  obtain s' where s': "it_Seek (block_iterator c) k s = Some s'" "table_at c valid kvs (seek_pos (Compare c) k kvs) s'"
    using iterator_contract.at_seek [OF block_contract assms] by blast
  have "shows_entry (block_iterator c) kvs (seek_pos (Compare c) k kvs) s'"
    by (rule iterator_contract.at_shows [OF block_contract s'(2)])
  then show ?thesis using s'(1) by (auto simp: shows_entry_def)
qed

section \<open>Opening\<close>

lemma block_in_file:
  assumes "d \<in> set ds"
  shows "length d < length (blocks_bytes ds)"
proof -
  obtain xs ys where "ds = xs @ d # ys" using assms by (meson split_list)
  then show ?thesis by (simp add: blocks_bytes_def stored_block_def)
qed

text \<open>A table that was opened on a file with the blocks \<open>all\<close>.\<close>

definition opened :: "Options \<Rightarrow> random_access_file \<Rightarrow> entries list \<Rightarrow> slice list \<Rightarrow> slice list \<Rightarrow> Table \<Rightarrow> bool" where
  "opened options raf blks ds all t \<longleftrightarrow>
     t_options t = options \<and> t_file t = raf \<and> t_index_block t = make_Block (last all) \<and>
     t_metaindex_handle t = handle_of all (length all - 2) \<and>
     t_filter t = map_option (\<lambda>p. make_FilterBlockReader (filter_block p (filter_blocks (blks @ [[]]) ds))) (op_filter_policy options)"

context random_access begin

lemma ReadBlock_handle:
  assumes "content = blocks_bytes all @ tail" "j < length all" "length content < 2 ^ 32"
  shows "\<exists>own. ReadBlock raf options (handle_of all j) = Some (OK, \<lparr>bc_data = all ! j, bc_cachable = own, bc_heap_allocated = own\<rparr>)"
  using ReadBlock_stored [OF stored_handle [OF assms(2), of tail, folded assms(1)]] assms(3) by simp

lemma ReadMeta_ok:
  assumes c: "content = blocks_bytes all @ tail" "length content < 2 ^ 32"
    and t: "t_file t = raf" "op_filter_policy (t_options t) = Some p"
    and j: "j < length all" "m < length all" and meta: "block_of [(lit ''filter.'' @ fp_Name p, BlockHandle_EncodeTo (handle_of all j) [])] (all ! m)"
  shows "ReadMeta \<lparr>ft_metaindex_handle = handle_of all m, ft_index_handle = ih\<rparr> t = Some (t\<lparr>t_filter := Some (make_FilterBlockReader (all ! j))\<rparr>)"
proof -
  let ?o = "paranoid_options (t_options t)" and ?key = "lit ''filter.'' @ fp_Name p"
  let ?kvs = "[(?key, BlockHandle_EncodeTo (handle_of all j) [])]"
  obtain own where r: "ReadBlock raf ?o (handle_of all m) = Some (OK, \<lparr>bc_data = all ! m, bc_cachable = own, bc_heap_allocated = own\<rparr>)"
    using ReadBlock_handle [OF c(1) j(2) c(2)] by blast
  obtain own' where r': "ReadBlock raf ?o (handle_of all j) = Some (OK, \<lparr>bc_data = all ! j, bc_cachable = own', bc_heap_allocated = own'\<rparr>)"
    using ReadBlock_handle [OF c(1) j(1) c(2)] by blast
  have "ordered BytewiseComparator (\<lambda>_. True) ?kvs"
    using bytewise.comparator_axioms by (simp add: ordered_def sorted_entries_def)
  moreover have "length (all ! m) < 2 ^ 32"
    using block_in_file [OF nth_mem [OF j(2)]] c by simp
  ultimately have at: "table_at BytewiseComparator (\<lambda>_. True) ?kvs (length ?kvs) (Block_NewIterator (make_Block (all ! m)))"
    using NewIterator_block [OF meta] by blast
  have "seek_pos (Compare BytewiseComparator) ?key ?kvs = 0"
    using bytewise.refl [of ?key] by (simp add: seek_pos_def)
  then obtain s where s: "it_Seek (block_iterator BytewiseComparator) ?key (Block_NewIterator (make_Block (all ! m))) = Some s"
    "it_Valid (block_iterator BytewiseComparator) s" "it_key (block_iterator BytewiseComparator) s = ?key"
    "it_value (block_iterator BytewiseComparator) s = Some (BlockHandle_EncodeTo (handle_of all j) [])"
    using Seek_block [OF at, of ?key] by auto
  have d: "BlockHandle_DecodeFrom (BlockHandle_EncodeTo (handle_of all j) []) make_BlockHandle = (OK, handle_of all j, [])"
    using BlockHandle_Decode_Encode [of "handle_of all j" "[]"] by simp
  show ?thesis
    by (simp add: ReadMeta_def ReadFilter_def t r r' s d Let_def Status_kinds)
qed

lemma Open_ok:
  assumes f: "table_file (op_comparator options) valid (op_filter_policy options) blks ixs ds all content"
    and n: "length content < 2 ^ 32"
  shows "\<exists>t. Table_Open options raf (of_nat (length content)) cache_id = Some (OK, Some t) \<and>
    opened options raf blks ds all t \<and> t_cache_id t = cache_id"
proof -
  let ?pol = "op_filter_policy options"
  obtain meta index where all: "all = ds @ (case ?pol of None \<Rightarrow> [] | Some p \<Rightarrow> [filter_block p (filter_blocks (blks @ [[]]) ds)]) @ [meta, index]"
    and meta: "block_of (meta_entries ?pol all (length ds)) meta"
    using f by (auto simp: table_file_def)
  define m where "m = length all - 2"
  define ft where "ft = \<lparr>ft_metaindex_handle = handle_of all m, ft_index_handle = handle_of all (length all - 1)\<rparr>"
  have c: "content = blocks_bytes all @ Footer_EncodeTo ft []" using f unfolding table_file_def ft_def m_def by blast
  have len: "m < length all" "length all - 1 < length all" "all ! m = meta" "last all = index" "all ! (length all - 1) = index"
    by (auto simp: all m_def nth_append split: option.splits)
  define t where "t = \<lparr>t_options = options, t_file = raf, t_cache_id = cache_id, t_filter = None,
    t_metaindex_handle = handle_of all m, t_index_block = make_Block index\<rparr>"
  define t' where "t' = t\<lparr>t_filter := map_option (\<lambda>p. make_FilterBlockReader (filter_block p (filter_blocks (blks @ [[]]) ds))) ?pol\<rparr>"
  have size: "unat (of_nat (length content) :: u64) = length content" using n by (simp add: unat_of_nat_small)
  have l48: "length content = length (blocks_bytes all) + 48" using Footer_Encode_length [of ft] by (simp add: c)
  have kE: "Footer_kEncodedLength = 48" by (simp add: Footer_kEncodedLength_def BlockHandle_kMaxEncodedLength_def)
  have "(of_nat (length content) :: u64) - 48 = of_nat (length (blocks_bytes all))" using l48 by simp
  then obtain own where rd: "raf (of_nat (length content) - 48) 48 = Some (OK, Footer_EncodeTo ft [], own)"
    using reads [of "of_nat (length content) - 48" 48] n l48 Footer_Encode_length [of ft]
    by (auto simp: unat_of_nat_small c)
  have dec: "Footer_DecodeFrom (Footer_EncodeTo ft []) make_Footer = Some (OK, ft, [])"
    using Footer_Decode_Encode [of ft "[]"] by simp
  obtain own' where ri: "ReadBlock raf (paranoid_options options) (ft_index_handle ft) =
      Some (OK, \<lparr>bc_data = index, bc_cachable = own', bc_heap_allocated = own'\<rparr>)"
    using ReadBlock_handle [OF c len(2) n] len(5) by (auto simp: ft_def)
  have rm: "ReadMeta ft t = Some t'"
  proof (cases ?pol)
    case None
    then show ?thesis by (simp add: ReadMeta_def t_def t'_def)
  next
    case (Some p)
    have j: "length ds < length all" "all ! length ds = filter_block p (filter_blocks (blks @ [[]]) ds)"
      using Some by (simp_all add: all)
    show ?thesis
      using ReadMeta_ok [OF c n, of t p "length ds" m] j len(1,3) meta Some by (simp add: t_def t'_def ft_def meta_entries_def)
  qed
  have "\<not> (of_nat (length content) :: u64) < 48" using size l48 by (simp add: word_less_nat_alt)
  then have "Table_Open options raf (of_nat (length content)) cache_id = Some (OK, Some t')"
    using rd dec ri rm by (simp add: Table_Open_def kE Status_kinds t_def ft_def)
  then show ?thesis using len(4) by (auto simp: opened_def t'_def t_def m_def)
qed

end

section \<open>The blocks that the index describes\<close>

lemma offset_less:
  assumes "j < k" "k \<le> length ds"
  shows "length (blocks_bytes (take j ds)) < length (blocks_bytes (take k ds))"
proof -
  have "take k ds = take j ds @ ds ! j # take (k - Suc j) (drop (Suc j) ds)"
    using assms by (metis (no_types, lifting) append_take_drop_id Cons_nth_drop_Suc Suc_diff_Suc less_le_trans min.absorb1 less_imp_le take_Suc_Cons take_add take_take le_add_diff_inverse)
  then show ?thesis by (simp add: blocks_bytes_def stored_block_def)
qed

lemma offset_word:
  assumes "j \<le> length ds" "length (blocks_bytes ds) < 2 ^ 32"
  shows "unat (bh_offset (handle_of ds j)) = length (blocks_bytes (take j ds))"
proof -
  have "length (blocks_bytes (take j ds)) \<le> length (blocks_bytes ds)"
    using offset_less [of j "length ds" ds] assms(1) by (cases "j = length ds") auto
  then show ?thesis using assms(2) by (simp add: handle_of_def unat_of_nat_small)
qed

lemma separators_less:
  assumes i: "index_of c valid blks ds (length blks) ixs" and o: "ordered c valid (concat blks)" and d: "data_blocks blks ds"
    and "j < k" "k < length blks"
  shows "Compare c (fst (ixs ! j)) (fst (ixs ! k)) < 0"
  using assms(4,5)
proof (induction k)
  case (Suc k)
  have c: "comparator c valid" using o by (simp add: ordered_def)
  have v: "valid (fst (ixs ! x))" if "x < length blks" for x using i that by (simp add: index_of_def)
  have ne: "blks ! Suc k \<noteq> []" using d Suc.prems(2) by (simp add: data_blocks_def)
  let ?kv = "hd (blks ! Suc k)"
  have kv: "?kv \<in> set (blks ! Suc k)" using ne by simp
  then have vk: "valid (fst ?kv)" using Suc.prems(2) nth_mem [OF Suc.prems(2)] by (intro ordered_valid [OF o]) auto
  have "Compare c (fst (ixs ! k)) (fst ?kv) < 0" "Compare c (fst ?kv) (fst (ixs ! Suc k)) \<le> 0"
    using i kv Suc.prems(2) by (auto simp: index_of_def)
  then have step: "Compare c (fst (ixs ! k)) (fst (ixs ! Suc k)) < 0"
    using comparator.less_trans2 [OF c v vk v, of k "Suc k"] Suc.prems(2) by simp
  show ?case
  proof (cases "j = k")
    case False
    then have "Compare c (fst (ixs ! j)) (fst (ixs ! k)) < 0" using Suc by simp
    then show ?thesis using comparator.less_trans [OF c v v v, of j k "Suc k"] step Suc.prems by simp
  qed (use step in simp)
qed simp

lemma table_indexed:
  assumes i: "index_of c valid blks ds (length blks) ixs" and o: "ordered c valid (concat blks)" and d: "data_blocks blks ds"
    and n: "length (blocks_bytes ds) < 2 ^ 32"
  shows "indexed c valid blks ixs"
proof -
  have len: "length ixs = length blks" "length ds = length blks" using i d by (auto simp: index_of_def data_blocks_def)
  have "ordered c valid ixs"
    unfolding ordered_def sorted_entries_def
    using o i separators_less [OF i o d] len by (auto simp: ordered_def list_all_length index_of_def sorted_wrt_iff_nth_less)
  moreover have "distinct (map snd ixs)"
  proof (unfold distinct_conv_nth, intro allI impI)
    fix j k assume jk: "j < length (map snd ixs)" "k < length (map snd ixs)" "j \<noteq> k"
    then have "unat (bh_offset (handle_of ds j)) \<noteq> unat (bh_offset (handle_of ds k))"
      using offset_word [OF _ n, of j] offset_word [OF _ n, of k] offset_less [of j k ds] offset_less [of k j ds] len
      by (cases j k rule: linorder_cases) auto
    then have "BlockHandle_EncodeTo (handle_of ds j) [] \<noteq> BlockHandle_EncodeTo (handle_of ds k) []"
      unfolding BlockHandle_Encode_inj by auto
    then show "map snd ixs ! j \<noteq> map snd ixs ! k" using i jk len by (simp add: index_of_def)
  qed
  ultimately show ?thesis using i o len by (simp add: indexed_def index_of_def)
qed

text \<open>What the block cache holds for this table is what the file holds.\<close>

definition coherent :: "Table \<Rightarrow> (slice \<Rightarrow> Block option) option \<Rightarrow> bool" where
  "coherent t cache \<longleftrightarrow>
     (\<forall>lookup h b contents. cache = Some lookup \<longrightarrow>
        lookup (EncodeFixed64 (t_cache_id t) @ EncodeFixed64 (bh_offset h)) = Some b \<longrightarrow>
        ReadBlock (t_file t) (make_ReadOptions\<lparr>ro_verify_checksums := True\<rparr>) h = Some (OK, contents) \<longrightarrow>
        b = make_Block (bc_data contents))"

text \<open>The context in which a table is read: its file, the blocks in it, and the table itself.\<close>

locale open_table = random_access raf content
  for raf :: random_access_file and content :: "byte list" +
  fixes options :: Options and valid :: "slice \<Rightarrow> bool" and blks :: "entries list" and ixs :: entries
    and ds all :: "slice list" and t :: Table and cache :: "(slice \<Rightarrow> Block option) option" and ro :: ReadOptions
  assumes table: "table_file (op_comparator options) valid (op_filter_policy options) blks ixs ds all content"
    and small: "length content < 2 ^ 32" and opened: "opened options raf blks ds all t" and coherent: "coherent t cache"
begin

abbreviation cmp :: comparator_t where
  "cmp \<equiv> op_comparator options"

lemma layout:
  shows "\<exists>tail. content = blocks_bytes all @ tail" and "\<exists>es. all = ds @ es \<and> es \<noteq> []" and "length ds = length blks"
    and "ordered cmp valid (concat blks)" and "index_of cmp valid blks ds (length blks) ixs" and "data_blocks blks ds"
    and "block_of ixs (last all)"
  using table by (auto simp: table_file_def data_blocks_def)

lemma sizes:
  shows "length (blocks_bytes ds) < 2 ^ 32" and "d \<in> set all \<Longrightarrow> length d < 2 ^ 32"
proof -
  obtain tail es where c: "content = blocks_bytes all @ tail" and all: "all = ds @ es" using layout(1,2) by blast
  show "length (blocks_bytes ds) < 2 ^ 32" using small by (simp add: c all blocks_bytes_append)
  show "d \<in> set all \<Longrightarrow> length d < 2 ^ 32" using block_in_file [of d all] small c by simp
qed

lemma indexed_blocks: "indexed cmp valid blks ixs"
  by (rule table_indexed [OF layout(5,4,6) sizes(1)])

lemma block_function_ok:
  assumes j: "j < length blks"
  shows "block_function t cache ro (snd (ixs ! j)) = Some (Block_NewIterator (make_Block (ds ! j)))"
proof -
  obtain tail es where c: "content = blocks_bytes all @ tail" and all: "all = ds @ es" using layout(1,2) by blast
  have j': "j < length all" "all ! j = ds ! j" "handle_of all j = handle_of ds j"
    using j layout(3) by (simp_all add: all nth_append)
  have v: "snd (ixs ! j) = BlockHandle_EncodeTo (handle_of ds j) []" using layout(5) j by (simp add: index_of_def)
  have d: "BlockHandle_DecodeFrom (BlockHandle_EncodeTo (handle_of ds j) []) make_BlockHandle = (OK, handle_of ds j, [])"
    using BlockHandle_Decode_Encode [of "handle_of ds j" "[]"] by simp
  have f: "t_file t = raf" using opened by (simp add: opened_def)
  have r: "\<exists>own. ReadBlock raf ro (handle_of ds j) = Some (OK, \<lparr>bc_data = ds ! j, bc_cachable = own, bc_heap_allocated = own\<rparr>)" for ro
    using ReadBlock_handle [OF c j'(1) small] j'(2,3) by simp
  obtain own where own: "ReadBlock raf ro (handle_of ds j) = Some (OK, \<lparr>bc_data = ds ! j, bc_cachable = own, bc_heap_allocated = own\<rparr>)"
    using r by blast
  have "b = make_Block (ds ! j)"
    if "cache = Some lookup" "lookup (EncodeFixed64 (t_cache_id t) @ EncodeFixed64 (bh_offset (handle_of ds j))) = Some b" for lookup b
    using coherent that r [of "make_ReadOptions\<lparr>ro_verify_checksums := True\<rparr>"] f by (fastforce simp: coherent_def)
  then show ?thesis
    using own f by (auto simp: block_function_def BlockReader_def v d Status_kinds Let_def split: option.splits)
qed

lemma block_at_start:
  assumes "j < length blks"
  shows "table_at cmp valid (blks ! j) (length (blks ! j)) (Block_NewIterator (make_Block (ds ! j)))"
proof (rule NewIterator_block)
  show "block_of (blks ! j) (ds ! j)" using layout(6) assms by (simp add: data_blocks_def)
  show "length (ds ! j) < 2 ^ 32" using sizes(2) [of "ds ! j"] layout(2,3) assms by auto
  have "concat blks = concat (take j blks) @ blks ! j @ concat (drop (Suc j) blks)" by (rule concat_split [OF assms])
  then show "ordered cmp valid (blks ! j)"
    using layout(4) by (simp add: ordered_def sorted_entries_def sorted_wrt_append)
qed

lemma index_start: "table_at cmp valid ixs (length ixs) (Block_NewIterator (t_index_block t))"
proof -
  have "last all \<in> set all" using layout(2) by auto
  then show ?thesis
    using NewIterator_block [OF layout(7) sizes(2)] indexed_blocks opened by (simp add: indexed_def opened_def)
qed

end

sublocale open_table \<subseteq> entries: two_level_blocks cmp valid "block_iterator cmp" "table_at cmp valid" "block_iterator cmp" "table_at cmp valid"
  "block_function t cache ro" blks ixs
proof (intro two_level_blocks.intro two_level_blocks_axioms.intro block_contract indexed_blocks)
  fix j assume j: "j < length blks"
  show "\<exists>p d. block_function t cache ro (snd (ixs ! j)) = Some d \<and> table_at cmp valid (blks ! j) p d"
    using block_function_ok [OF j] block_at_start [OF j] by blast
qed

section \<open>Iterating and looking up\<close>

lemma seek_pos_equal:
  assumes o: "ordered c valid kvs" and v: "valid k" and i: "i < length kvs" "Compare c (fst (kvs ! i)) k = 0"
  shows "seek_pos (Compare c) k kvs = i"
proof (rule seek_posI)
  have c: "comparator c valid" using o by (simp add: ordered_def)
  show "\<forall>j < i. Compare c (fst (kvs ! j)) k < 0"
    using comparator.less_trans2 [OF c valid_key [OF o] valid_key [OF o i(1)] v] key_less [OF o _ i(1)] i by fastforce
qed (use i in auto)

lemma filter_blocks_keys: "map snd (filter_blocks gs ds) = map (map fst) gs"
  by (rule nth_equalityI) (simp_all add: filter_blocks_def)

context open_table begin

lemma cursor:
  assumes "runs (cursor_op (Compare cmp) (concat blks)) ops (length (concat blks)) = Some i"
    and "\<forall>target. To target \<in> set ops \<longrightarrow> valid target"
  shows "\<exists>s. runs (iter_do (TableIterator t cache ro)) ops (Table_NewIterator t) = Some s \<and>
    shows_entry (TableIterator t cache ro) (concat blks) i s"
proof -
  have o: "op_comparator (t_options t) = cmp" using opened by (simp add: opened_def)
  have "two_level_at (block_iterator cmp) (table_at cmp valid) (block_iterator cmp) (table_at cmp valid) blks ixs (concat blks)
      (length (concat blks)) (Table_NewIterator t)"
    using entries.two_level_start [OF index_start] by (simp add: Table_NewIterator_def o)
  moreover have it: "TwoLevelIterator (block_iterator cmp) (block_iterator cmp) (block_function t cache ro) = TableIterator t cache ro"
    by (simp add: TableIterator_def o Let_def)
  ultimately show ?thesis
    using entries.concatenated.runs_simulates [OF _ assms] entries.concatenated.at_shows unfolding it by blast
qed

lemma filter_hit:
  assumes p: "op_filter_policy options = Some p" and fc: "filter_contract p ok"
    and ok: "\<forall>g. sublist g (map fst (concat blks)) \<longrightarrow> ok g" and j: "j < length blks" and k: "k \<in> set (map fst (blks ! j))"
  shows "ruled_out t (snd (ixs ! j)) k = Some False"
proof -
  let ?fb = "filter_blocks (blks @ [[]]) ds"
  have f: "filter_block p ?fb \<in> set all" using table p by (auto simp: table_file_def)
  have len: "length ds = length blks" by (rule layout(3))
  have "map (\<lambda>blk. unat (fst blk)) ?fb = map (\<lambda>j. unat (bh_offset (handle_of ds j))) [0..<Suc (length blks)]"
    by (simp add: filter_blocks_def del: upt_Suc)
  also have "\<dots> = map (\<lambda>j. length (blocks_bytes (take j ds))) [0..<Suc (length blks)]"
    using offset_word [OF _ sizes(1)] len by (intro map_cong) auto
  finally have "sorted (map (\<lambda>blk. unat (fst blk)) ?fb)"
    using offset_less [of _ _ ds] len by (auto simp: sorted_iff_nth_mono_less less_imp_le simp del: upt_Suc)
  moreover have "concat (map snd ?fb) = map fst (concat blks)" unfolding filter_blocks_keys by (simp add: map_concat)
  moreover have "(bh_offset (handle_of ds j), map fst (blks ! j)) \<in> set ?fb"
    using j by (auto simp: filter_blocks_def nth_append intro!: image_eqI [of _ _ j])
  ultimately have "FilterBlock_KeyMayMatch p (bh_offset (handle_of ds j)) k (make_FilterBlockReader (filter_block p ?fb)) = Some True"
    using filter_contract.filter_block_complete [OF fc _ _ sizes(2) [OF f] _ k] ok by metis
  moreover have "snd (ixs ! j) = BlockHandle_EncodeTo (handle_of ds j) []" using layout(5) j by (simp add: index_of_def)
  moreover have "BlockHandle_DecodeFrom (BlockHandle_EncodeTo (handle_of ds j) []) make_BlockHandle = (OK, handle_of ds j, [])"
    using BlockHandle_Decode_Encode [of "handle_of ds j" "[]"] by simp
  ultimately show ?thesis using opened p by (simp add: ruled_out_def opened_def Status_kinds)
qed

lemma ruled_out_total:
  assumes "j < length blks"
  shows "\<exists>r. ruled_out t (snd (ixs ! j)) k = Some r" and "op_filter_policy options = None \<Longrightarrow> ruled_out t (snd (ixs ! j)) k = Some False"
proof -
  have "snd (ixs ! j) = BlockHandle_EncodeTo (handle_of ds j) []" using layout(5) assms by (simp add: index_of_def)
  moreover have "BlockHandle_DecodeFrom (BlockHandle_EncodeTo (handle_of ds j) []) make_BlockHandle = (OK, handle_of ds j, [])"
    using BlockHandle_Decode_Encode [of "handle_of ds j" "[]"] by simp
  ultimately show "\<exists>r. ruled_out t (snd (ixs ! j)) k = Some r"
    using opened filter_block_total [of _ "bh_offset (handle_of ds j)" k _ "filter_blocks (blks @ [[]]) ds"]
    by (cases "op_filter_policy options") (fastforce simp: ruled_out_def opened_def Status_kinds)+
  show "op_filter_policy options = None \<Longrightarrow> ruled_out t (snd (ixs ! j)) k = Some False"
    using opened by (simp add: ruled_out_def opened_def)
qed

text \<open>The look-up: the index leads to the only block that can hold the key.\<close>

lemma InternalGet_value:
  assumes k: "valid k"
  defines "j \<equiv> seek_pos (Compare cmp) k ixs"
  shows "InternalGet t cache ro k = Some (OK,
    if j < length blks \<and> ruled_out t (snd (ixs ! j)) k = Some False \<and> seek_pos (Compare cmp) k (blks ! j) < length (blks ! j)
    then Some (blks ! j ! seek_pos (Compare cmp) k (blks ! j)) else None)"
proof -
  let ?it = "block_iterator cmp"
  have o: "op_comparator (t_options t) = cmp" using opened by (simp add: opened_def)
  have len: "length ixs = length blks" by (rule entries.lengths)
  obtain s where s: "it_Seek ?it k (Block_NewIterator (t_index_block t)) = Some s" "it_status ?it s = OK"
    "if j < length ixs then it_Valid ?it s \<and> it_key ?it s = fst (ixs ! j) \<and> it_value ?it s = Some (snd (ixs ! j)) else \<not> it_Valid ?it s"
    using Seek_block [OF index_start k] unfolding j_def by blast
  show ?thesis
  proof (cases "j < length blks")
    case False
    then show ?thesis using s len by (simp add: InternalGet_def o Let_def Status_kinds)
  next
    case True
    obtain r where r: "ruled_out t (snd (ixs ! j)) k = Some r" using ruled_out_total(1) [OF True] by blast
    let ?p = "seek_pos (Compare cmp) k (blks ! j)"
    obtain s' where s': "it_Seek ?it k (Block_NewIterator (make_Block (ds ! j))) = Some s'" "it_status ?it s' = OK"
      "if ?p < length (blks ! j) then it_Valid ?it s' \<and> it_key ?it s' = fst (blks ! j ! ?p) \<and> it_value ?it s' = Some (snd (blks ! j ! ?p))
       else \<not> it_Valid ?it s'"
      using Seek_block [OF block_at_start [OF True] k] by blast
    show ?thesis
      using s s' r True len block_function_ok [OF True] by (simp add: InternalGet_def o Let_def Status_kinds)
  qed
qed

lemma found_entry:
  assumes k: "valid k" and j: "j < length blks" and p: "p < length (blks ! j)" "Compare cmp (fst (blks ! j ! p)) k = 0"
  shows "seek_pos (Compare cmp) k ixs = j" and "seek_pos (Compare cmp) k (blks ! j) = p"
proof -
  have o: "ordered cmp valid (concat blks)" "ordered cmp valid ixs" using indexed_blocks by (auto simp: indexed_def)
  have c: "comparator cmp valid" using o by (simp add: ordered_def)
  let ?kv = "blks ! j ! p"
  have kv: "?kv \<in> set (blks ! j)" using p(1) by simp
  have vk: "valid (fst ?kv)" by (rule entries.order_facts(3) [OF j kv])
  have vi: "valid (fst (ixs ! i))" if "i < length blks" for i by (rule entries.order_facts(2) [OF that])
  show "seek_pos (Compare cmp) k ixs = j"
  proof (rule seek_posI)
    show "\<forall>i < j. Compare cmp (fst (ixs ! i)) k < 0"
      using comparator.less_trans2 [OF c vi vk k] entries.order_facts(5) [OF j _ kv] p(2) j by fastforce
    show "\<not> Compare cmp (fst (ixs ! j)) k < 0"
      using comparator.less_trans [OF c vk vi k, of j] entries.order_facts(4) [OF j kv] p(2) j
        comparator.sym [OF c vk k] comparator.less_trans2 [OF c vk vi [OF j] k] by force
  qed (use j entries.lengths in simp)
  have "concat blks = concat (take j blks) @ blks ! j @ concat (drop (Suc j) blks)" by (rule concat_split [OF j])
  then have "ordered cmp valid (blks ! j)" using o(1) by (simp add: ordered_def sorted_entries_def sorted_wrt_append)
  then show "seek_pos (Compare cmp) k (blks ! j) = p" using k p by (rule seek_pos_equal)
qed

lemma InternalGet_ok:
  assumes k: "valid k"
    and fc: "\<And>p. op_filter_policy options = Some p \<Longrightarrow> filter_contract p ok \<and> (\<forall>g. sublist g (map fst (concat blks)) \<longrightarrow> ok g)"
  shows "\<exists>r. InternalGet t cache ro k = Some (OK, r) \<and>
    (\<forall>e. r = Some e \<longrightarrow> seek_pos (Compare cmp) k (concat blks) < length (concat blks) \<and> e = concat blks ! seek_pos (Compare cmp) k (concat blks)) \<and>
    (\<forall>kv \<in> set (concat blks). (if op_filter_policy options = None then Compare cmp (fst kv) k = 0 else fst kv = k) \<longrightarrow> r = Some kv)"
proof -
  define j where "j = seek_pos (Compare cmp) k ixs"
  define r where "r = (if j < length blks \<and> ruled_out t (snd (ixs ! j)) k = Some False \<and> seek_pos (Compare cmp) k (blks ! j) < length (blks ! j)
    then Some (blks ! j ! seek_pos (Compare cmp) k (blks ! j)) else None)"
  have c: "comparator cmp valid" using layout(4) by (simp add: ordered_def)
  have get: "InternalGet t cache ro k = Some (OK, r)" using InternalGet_value [OF k] by (simp add: j_def r_def)
  moreover have "seek_pos (Compare cmp) k (concat blks) < length (concat blks) \<and> e = concat blks ! seek_pos (Compare cmp) k (concat blks)"
    if e: "r = Some e" for e
  proof -
    have j: "j < length blks" and p: "seek_pos (Compare cmp) k (blks ! j) < length (blks ! j)"
      and e': "e = blks ! j ! seek_pos (Compare cmp) k (blks ! j)" using e by (auto simp: r_def split: if_splits)
    show ?thesis using entries.seek_pos_blocks [OF k j_def] concat_nth [OF j p] j e' by simp
  qed
  moreover have "r = Some kv"
    if kv: "kv \<in> set (concat blks)" and eq: "if op_filter_policy options = None then Compare cmp (fst kv) k = 0 else fst kv = k" for kv
  proof -
    obtain q p where q: "q < length blks" "p < length (blks ! q)" "kv = blks ! q ! p"
      using kv by (auto simp: in_set_conv_nth [of _ blks] in_set_conv_nth [of kv])
    have cmp0: "Compare cmp (fst (blks ! q ! p)) k = 0"
      using eq q(3) comparator.refl [OF c k] by (auto split: if_splits)
    have pos: "j = q" "seek_pos (Compare cmp) k (blks ! q) = p"
      using found_entry [OF k q(1,2) cmp0] by (simp_all add: j_def)
    have "ruled_out t (snd (ixs ! q)) k = Some False"
    proof (cases "op_filter_policy options")
      case None
      then show ?thesis using ruled_out_total(2) [OF q(1)] by simp
    next
      case (Some f)
      then have "k \<in> set (map fst (blks ! q))" using eq q by auto
      then show ?thesis using filter_hit [OF Some _ _ q(1)] fc [OF Some] by blast
    qed
    then show ?thesis using pos q by (simp add: r_def)
  qed
  ultimately show ?thesis by blast
qed

lemma ApproximateOffsetOf_value:
  assumes k: "valid k"
  shows "ApproximateOffsetOf t k = Some (if seek_pos (Compare cmp) k ixs < length blks
    then bh_offset (handle_of ds (seek_pos (Compare cmp) k ixs)) else bh_offset (handle_of all (length all - 2)))"
proof -
  have o: "op_comparator (t_options t) = cmp" "t_metaindex_handle t = handle_of all (length all - 2)" using opened by (simp_all add: opened_def)
  have len: "length ixs = length blks" by (rule entries.lengths)
  obtain s where s: "it_Seek (block_iterator cmp) k (Block_NewIterator (t_index_block t)) = Some s"
    "if seek_pos (Compare cmp) k ixs < length ixs then it_Valid (block_iterator cmp) s \<and>
      it_value (block_iterator cmp) s = Some (snd (ixs ! seek_pos (Compare cmp) k ixs)) else \<not> it_Valid (block_iterator cmp) s"
    using Seek_block [OF index_start k] by fastforce
  have "BlockHandle_DecodeFrom (snd (ixs ! j)) make_BlockHandle = (OK, handle_of ds j, [])" if "j < length blks" for j
    using layout(5) that BlockHandle_Decode_Encode [of "handle_of ds j" "[]"] by (simp add: index_of_def)
  then show ?thesis using s len by (auto simp: ApproximateOffsetOf_def o Let_def Status_kinds)
qed

lemma ApproximateOffsetOf_bound:
  assumes "valid k"
  shows "\<exists>pos. ApproximateOffsetOf t k = Some pos \<and> unat pos < length content"
proof -
  obtain tail es where c: "content = blocks_bytes all @ tail" and all: "all = ds @ es" "es \<noteq> []" using layout(1,2) by blast
  have b: "unat (bh_offset (handle_of all j)) < length content" if "j < length all" for j
    using offset_word [of j all] offset_less [of j "length all" all] that small by (simp add: c)
  have "unat (bh_offset (handle_of ds j)) < length content" if "j < length blks" for j
    using b [of j] that layout(3) by (simp add: all)
  moreover have "length all - 2 < length all" using all by simp
  ultimately show ?thesis using ApproximateOffsetOf_value [OF assms] b by simp
qed

end

section \<open>A built table\<close>

definition readable ::
  "Options \<Rightarrow> (slice \<Rightarrow> bool) \<Rightarrow> entries \<Rightarrow> byte list \<Rightarrow> random_access_file \<Rightarrow> Table \<Rightarrow> bool" where
  "readable options valid kvs content raf t \<longleftrightarrow>
     (\<exists>blks ixs ds all. concat blks = kvs \<and>
        (\<forall>cache. coherent t cache \<longrightarrow> open_table raf content options valid blks ixs ds all t cache))"

lemma readable_cursor:
  assumes "readable options valid kvs content raf t" "coherent t cache"
    and "runs (cursor_op (Compare (op_comparator options)) kvs) ops (length kvs) = Some i"
    and "\<forall>target. To target \<in> set ops \<longrightarrow> valid target"
  shows "\<exists>s. runs (iter_do (TableIterator t cache ro)) ops (Table_NewIterator t) = Some s \<and>
    shows_entry (TableIterator t cache ro) kvs i s"
proof -
  obtain blks ixs ds all where o: "concat blks = kvs" "open_table raf content options valid blks ixs ds all t cache"
    using assms(1,2) by (auto simp: readable_def)
  show ?thesis by (rule open_table.cursor [OF o(2), unfolded o(1), OF assms(3,4)])
qed

lemma readable_get:
  assumes "readable options valid kvs content raf t" "coherent t cache" "valid k"
    and "\<forall>p. op_filter_policy options = Some p \<longrightarrow> filter_contract p ok \<and> (\<forall>g. sublist g (map fst kvs) \<longrightarrow> ok g)"
  shows "\<exists>r. InternalGet t cache ro k = Some (OK, r) \<and>
    (\<forall>e. r = Some e \<longrightarrow> seek_pos (Compare (op_comparator options)) k kvs < length kvs \<and>
      e = kvs ! seek_pos (Compare (op_comparator options)) k kvs) \<and>
    (\<forall>kv \<in> set kvs. (if op_filter_policy options = None then Compare (op_comparator options) (fst kv) k = 0 else fst kv = k) \<longrightarrow> r = Some kv)"
proof -
  obtain blks ixs ds all where o: "concat blks = kvs" "open_table raf content options valid blks ixs ds all t cache"
    using assms(1,2) by (auto simp: readable_def)
  show ?thesis by (rule open_table.InternalGet_ok [OF o(2), unfolded o(1), OF assms(3) assms(4) [rule_format]])
qed

lemma readable_offset:
  assumes "readable options valid kvs content raf t" "valid k"
  shows "\<exists>pos. ApproximateOffsetOf t k = Some pos \<and> unat pos < length content"
proof -
  have "coherent t None" by (simp add: coherent_def)
  then obtain blks ixs ds all where o: "open_table raf content options valid blks ixs ds all t None"
    using assms(1) by (auto simp: readable_def)
  show ?thesis by (rule open_table.ApproximateOffsetOf_bound [OF o, OF assms(2)])
qed

text \<open>Writing and opening: every table that was built is readable.\<close>

lemma built_table:
  assumes w: "writable_contract dest good content flushed" "good f" "content f = []"
    and o: "ordered (op_comparator options) valid kvs" "1 \<le> op_block_restart_interval options"
  shows "\<exists>b. build_table dest options kvs f = Some (OK, b) \<and> good (tb_file b) \<and>
    (\<forall>raf cache_id. length (content (tb_file b)) < 2 ^ 32 \<longrightarrow> random_access raf (content (tb_file b)) \<longrightarrow>
      (\<exists>t. Table_Open options raf (FileSize b) cache_id = Some (OK, Some t) \<and> readable options valid kvs (content (tb_file b)) raf t))"
proof -
  obtain blks ixs ds all b where b: "build_table dest options kvs f = Some (OK, b)" "good (tb_file b)" "concat blks = kvs"
    "table_file (op_comparator options) valid (op_filter_policy options) blks ixs ds all (content (tb_file b))"
    "FileSize b = of_nat (length (content (tb_file b)))"
    using writable_contract.build_table_file [OF w o] by blast
  have "\<exists>t. Table_Open options raf (FileSize b) cache_id = Some (OK, Some t) \<and> readable options valid kvs (content (tb_file b)) raf t"
    if n: "length (content (tb_file b)) < 2 ^ 32" and r: "random_access raf (content (tb_file b))" for raf cache_id
  proof -
    obtain t where t: "Table_Open options raf (FileSize b) cache_id = Some (OK, Some t)" "opened options raf blks ds all t"
      using random_access.Open_ok [OF r b(4) n] b(5) by auto
    have "open_table raf (content (tb_file b)) options valid blks ixs ds all t cache" if "coherent t cache" for cache
      using r b(4) n t(2) that by (intro open_table.intro open_table_axioms.intro)
    then show ?thesis using t(1) b(3) by (auto simp: readable_def)
  qed
  then show ?thesis using b(1,2) by (intro exI [of _ b]) simp
qed

text \<open>
  (C8) A table of entries in increasing order, written by \<open>TableBuilder\<close> in whatever block size
  and restart interval to any file without errors, is accepted by \<open>Table::Open\<close>, and its
  iterator is a cursor in the list of the entries: after any sequence of operations, across
  the blocks and in both directions, it has returned from every call, it is valid exactly if the
  cursor is within the list and then shows that entry, with the status OK. The file is below 4 GB and is
  read through any object that returns its bytes; a block cache may hold any blocks of the file.
\<close>

theorem table_iterator_cursor:
  assumes "writable_contract dest good content flushed" "good f" "content f = []"
    and "ordered (op_comparator options) valid kvs" "1 \<le> op_block_restart_interval options"
    and "\<forall>target. To target \<in> set ops \<longrightarrow> valid target"
    and "runs (cursor_op (Compare (op_comparator options)) kvs) ops (length kvs) = Some i"
  shows "\<exists>b. build_table dest options kvs f = Some (OK, b) \<and> good (tb_file b) \<and>
    (\<forall>raf cache_id. length (content (tb_file b)) < 2 ^ 32 \<longrightarrow> random_access raf (content (tb_file b)) \<longrightarrow>
      (\<exists>t. Table_Open options raf (FileSize b) cache_id = Some (OK, Some t) \<and>
        (\<forall>cache ro. coherent t cache \<longrightarrow>
          (\<exists>s. runs (iter_do (TableIterator t cache ro)) ops (Table_NewIterator t) = Some s \<and>
            shows_entry (TableIterator t cache ro) kvs i s))))"
proof -
  obtain b where b: "build_table dest options kvs f = Some (OK, b)" "good (tb_file b)"
    and t: "\<forall>raf cache_id. length (content (tb_file b)) < 2 ^ 32 \<longrightarrow> random_access raf (content (tb_file b)) \<longrightarrow>
      (\<exists>t. Table_Open options raf (FileSize b) cache_id = Some (OK, Some t) \<and> readable options valid kvs (content (tb_file b)) raf t)"
    using built_table [OF assms(1-5)] by blast
  note cursor = readable_cursor [OF _ _ assms(7,6)]
  show ?thesis using b t cursor by (intro exI [of _ b]) blast
qed

text \<open>
  (C9) \<open>Table::InternalGet\<close> on a built table, with or without filters: it ends with the status OK and
  calls \<open>handle_result\<close> at most once, with the first entry whose key is not below \<open>k\<close>; without a filter
  policy it finds every entry whose key compares equal to \<open>k\<close>, with a policy without false negatives
  every entry whose key is \<open>k\<close>. \<open>ApproximateOffsetOf\<close> gives a position in the file.
\<close>

theorem table_lookup:
  assumes "writable_contract dest good content flushed" "good f" "content f = []"
    and "ordered (op_comparator options) valid kvs" "1 \<le> op_block_restart_interval options" "valid k"
    and "\<forall>p. op_filter_policy options = Some p \<longrightarrow> filter_contract p ok \<and> (\<forall>g. sublist g (map fst kvs) \<longrightarrow> ok g)"
  shows "\<exists>b. build_table dest options kvs f = Some (OK, b) \<and> good (tb_file b) \<and>
    (\<forall>raf cache_id. length (content (tb_file b)) < 2 ^ 32 \<longrightarrow> random_access raf (content (tb_file b)) \<longrightarrow>
      (\<exists>t. Table_Open options raf (FileSize b) cache_id = Some (OK, Some t) \<and>
        (\<exists>pos. ApproximateOffsetOf t k = Some pos \<and> unat pos < length (content (tb_file b))) \<and>
        (\<forall>cache ro. coherent t cache \<longrightarrow>
          (\<exists>r. InternalGet t cache ro k = Some (OK, r) \<and>
            (\<forall>e. r = Some e \<longrightarrow> seek_pos (Compare (op_comparator options)) k kvs < length kvs \<and>
              e = kvs ! seek_pos (Compare (op_comparator options)) k kvs) \<and>
            (\<forall>kv \<in> set kvs. (if op_filter_policy options = None then Compare (op_comparator options) (fst kv) k = 0 else fst kv = k) \<longrightarrow>
              r = Some kv)))))"
proof -
  obtain b where b: "build_table dest options kvs f = Some (OK, b)" "good (tb_file b)"
    and t: "\<forall>raf cache_id. length (content (tb_file b)) < 2 ^ 32 \<longrightarrow> random_access raf (content (tb_file b)) \<longrightarrow>
      (\<exists>t. Table_Open options raf (FileSize b) cache_id = Some (OK, Some t) \<and> readable options valid kvs (content (tb_file b)) raf t)"
    using built_table [OF assms(1-5)] by blast
  note get = readable_get [where valid = valid and options = options and kvs = kvs and ok = ok and k = k, OF _ _ assms(6,7)]
    and pos = readable_offset [where valid = valid, OF _ assms(6)]
  show ?thesis
  proof (intro exI [of _ b] conjI allI impI b)
    fix raf cache_id
    assume "length (content (tb_file b)) < 2 ^ 32" "random_access raf (content (tb_file b))"
    then obtain t where t: "Table_Open options raf (FileSize b) cache_id = Some (OK, Some t)"
      "readable options valid kvs (content (tb_file b)) raf t" using t by blast
    show "\<exists>t. Table_Open options raf (FileSize b) cache_id = Some (OK, Some t) \<and>
        (\<exists>pos. ApproximateOffsetOf t k = Some pos \<and> unat pos < length (content (tb_file b))) \<and>
        (\<forall>cache ro. coherent t cache \<longrightarrow>
          (\<exists>r. InternalGet t cache ro k = Some (OK, r) \<and>
            (\<forall>e. r = Some e \<longrightarrow> seek_pos (Compare (op_comparator options)) k kvs < length kvs \<and>
              e = kvs ! seek_pos (Compare (op_comparator options)) k kvs) \<and>
            (\<forall>kv \<in> set kvs. (if op_filter_policy options = None then Compare (op_comparator options) (fst kv) k = 0 else fst kv = k) \<longrightarrow>
              r = Some kv)))"
      by (intro exI [of _ t] conjI [OF t(1)] conjI [OF pos [OF t(2)]] allI impI get [OF t(2)])
  qed
qed

section \<open>Instances\<close>

text \<open>A file in memory, a small table in it with two data blocks and a Bloom filter, and its reader.\<close>

definition memory_file :: "byte list writable_file" where
  "memory_file =
     \<lparr>wf_Append = \<lambda>s f. Some (OK, f @ s), wf_Close = \<lambda>f. Some (OK, f), wf_Flush = \<lambda>f. Some (OK, f), wf_Sync = \<lambda>f. Some (OK, f)\<rparr>"

interpretation memory: writable_contract memory_file "\<lambda>_. True" "\<lambda>f. f" "\<lambda>f. f"
  by unfold_locales (simp_all add: memory_file_def)

definition sample_options :: Options where
  "sample_options = make_Options\<lparr>op_block_size := 16, op_filter_policy := Some (NewBloomFilterPolicy 10)\<rparr>"

definition sample_entries :: entries where
  "sample_entries = [([97], [49]), ([98], [50]), ([99], [51])]"

lemma length_lit [simp]: "length (lit s) = length s"
  by (simp add: lit_def)

lemmas builder_simps = tb_ok_def Status_kinds Let_def make_BlockBuilder_def BlockBuilder_Add_def PutVarint32_def EncodeVarint32_def
  tb_Flush_def BlockBuilder_empty_def WriteBlock_def BlockBuilder_Finish_def WriteRawBlock_def Snappy_Compress_def PutFixed32_def
  Reset_make compression_byte_def kBlockTrailerSize_def

lemma sample_small:
  "\<exists>b. build_table memory_file sample_options sample_entries [] = Some (OK, b) \<and> length (tb_file b) < 2 ^ 32"
  apply (simp add: build_table_def memory_file_def sample_options_def sample_entries_def make_Options_def make_TableBuilder_def
      tb_Add_def tb_ok_def Status_kinds Let_def make_BlockBuilder_def BlockBuilder_Add_def CurrentSizeEstimate_def PutVarint32_def
      EncodeVarint32_def)
  apply (simp add: builder_simps)
  apply (simp add: builder_simps tb_Finish_def write_filter_def write_metaindex_def write_index_def write_footer_def index_entry_def
      BlockHandle_EncodeTo_def PutVarint64_def EncodeVarint64.simps BytewiseComparator_def Bytewise_FindShortestSeparator_def
      StartBlock_def kFilterBase_def generate_until.simps FilterBlock_AddKey_def make_FilterBlockBuilder_def FilterBlock_Finish_def
      GenerateFilter_def NewBloomFilterPolicy_def create_length Footer_Encode_length kFilterBaseLg_def)
  done

lemma sample_hypotheses:
  shows "writable_contract memory_file (\<lambda>_. True) (\<lambda>f. f) (\<lambda>f. f)"
    and "ordered (op_comparator sample_options) (\<lambda>_. True) sample_entries" and "1 \<le> op_block_restart_interval sample_options"
    and "\<forall>p. op_filter_policy sample_options = Some p \<longrightarrow>
      filter_contract p (\<lambda>keys. length keys * 10 < 2 ^ 63) \<and> (\<forall>g. sublist g (map fst sample_entries) \<longrightarrow> length g * 10 < 2 ^ 63)"
proof -
  show "writable_contract memory_file (\<lambda>_. True) (\<lambda>f. f) (\<lambda>f. f)" by (rule memory.writable_contract_axioms)
  show "ordered (op_comparator sample_options) (\<lambda>_. True) sample_entries" "1 \<le> op_block_restart_interval sample_options"
    using bytewise.comparator_axioms
    by (simp_all add: sample_options_def sample_entries_def make_Options_def ordered_def sorted_entries_def BytewiseComparator_def)
  have "length g * 10 < 2 ^ 63" if "sublist g (map fst sample_entries)" for g
    using sublist_length_le [OF that] by (simp add: sample_entries_def)
  then show "\<forall>p. op_filter_policy sample_options = Some p \<longrightarrow>
      filter_contract p (\<lambda>keys. length keys * 10 < 2 ^ 63) \<and> (\<forall>g. sublist g (map fst sample_entries) \<longrightarrow> length g * 10 < 2 ^ 63)"
    using bloom.filter_contract_axioms [of 10] by (simp add: sample_options_def)
qed

definition sample_file :: "byte list" where
  "sample_file = (case build_table memory_file sample_options sample_entries [] of Some (s, b) \<Rightarrow> tb_file b | None \<Rightarrow> [])"

abbreviation sample_reader :: random_access_file where
  "sample_reader \<equiv> PosixMmapReadableFile disk_posix (lit ''000005.ldb'') sample_file"

definition sample_table :: Table where
  "sample_table = (case Table_Open sample_options sample_reader (of_nat (length sample_file)) 0 of Some (s, Some t) \<Rightarrow> t)"

definition sample_layout :: "entries list \<times> entries \<times> slice list \<times> slice list" where
  "sample_layout = (SOME l. table_file BytewiseComparator (\<lambda>_. True) (op_filter_policy sample_options)
     (fst l) (fst (snd l)) (fst (snd (snd l))) (snd (snd (snd l))) sample_file)"

interpretation sample: open_table sample_reader sample_file sample_options "\<lambda>_. True" "fst sample_layout" "fst (snd sample_layout)"
  "fst (snd (snd sample_layout))" "snd (snd (snd sample_layout))" sample_table None make_ReadOptions
proof -
  have c: "op_comparator sample_options = BytewiseComparator" by (simp add: sample_options_def make_Options_def)
  obtain b where b: "build_table memory_file sample_options sample_entries [] = Some (OK, b)" "length (tb_file b) < 2 ^ 32"
    using sample_small by blast
  then have f: "tb_file b = sample_file" by (simp add: sample_file_def)
  let ?P = "\<lambda>l. table_file BytewiseComparator (\<lambda>_. True) (op_filter_policy sample_options)
    (fst l) (fst (snd l)) (fst (snd (snd l))) (snd (snd (snd l))) sample_file"
  obtain blks ixs ds all where "table_file BytewiseComparator (\<lambda>_. True) (op_filter_policy sample_options) blks ixs ds all sample_file"
    using memory.build_table_file [OF _ _ sample_hypotheses(2,3)] b(1) f c by auto
  then have "?P (blks, ixs, ds, all)" by simp
  then have "?P (SOME l. ?P l)" by (rule someI [where P = ?P])
  then have t: "table_file (op_comparator sample_options) (\<lambda>_. True) (op_filter_policy sample_options) (fst sample_layout)
      (fst (snd sample_layout)) (fst (snd (snd sample_layout))) (snd (snd (snd sample_layout))) sample_file"
    unfolding c sample_layout_def .
  have r: "random_access sample_reader sample_file" by (rule mmap_file.random_access_axioms)
  have n: "length sample_file < 2 ^ 32" using b(2) f by simp
  obtain t' where "Table_Open sample_options sample_reader (of_nat (length sample_file)) 0 = Some (OK, Some t')"
    "opened sample_options sample_reader (fst sample_layout) (fst (snd (snd sample_layout))) (snd (snd (snd sample_layout))) t'"
    using random_access.Open_ok [OF r t n] by blast
  then have "opened sample_options sample_reader (fst sample_layout) (fst (snd (snd sample_layout))) (snd (snd (snd sample_layout))) sample_table"
    by (simp add: sample_table_def)
  then show "open_table sample_reader sample_file sample_options (\<lambda>_. True) (fst sample_layout) (fst (snd sample_layout))
      (fst (snd (snd sample_layout))) (snd (snd (snd sample_layout))) sample_table None"
    using r t n by (intro open_table.intro open_table_axioms.intro) (simp_all add: coherent_def)
qed

theorem table_iterator_cursor_witness:
  "\<exists>b t s. build_table memory_file sample_options sample_entries [] = Some (OK, b) \<and>
     Table_Open sample_options (PosixMmapReadableFile disk_posix (lit ''000005.ldb'') (tb_file b)) (FileSize b) 0 = Some (OK, Some t) \<and>
     runs (iter_do (TableIterator t None make_ReadOptions)) [To [98], Forward] (Table_NewIterator t) = Some s \<and>
     it_key (TableIterator t None make_ReadOptions) s = [99] \<and> it_value (TableIterator t None make_ReadOptions) s = Some [51]"
proof -
  have cur: "runs (cursor_op (Compare (op_comparator sample_options)) sample_entries) [To [98], Forward] (length sample_entries) = Some 2"
    by (simp add: sample_entries_def sample_options_def make_Options_def BytewiseComparator_def seek_pos_def)
  obtain b where b: "build_table memory_file sample_options sample_entries [] = Some (OK, b)"
    and t: "\<forall>raf cache_id. length (tb_file b) < 2 ^ 32 \<longrightarrow> random_access raf (tb_file b) \<longrightarrow>
      (\<exists>t. Table_Open sample_options raf (FileSize b) cache_id = Some (OK, Some t) \<and>
        (\<forall>cache ro. coherent t cache \<longrightarrow>
          (\<exists>s. runs (iter_do (TableIterator t cache ro)) [To [98], Forward] (Table_NewIterator t) = Some s \<and>
            shows_entry (TableIterator t cache ro) sample_entries 2 s)))"
    using table_iterator_cursor [OF sample_hypotheses(1) TrueI refl sample_hypotheses(2,3) _ cur] by auto
  have n: "length (tb_file b) < 2 ^ 32" using sample_small b by auto
  have "random_access (PosixMmapReadableFile disk_posix (lit ''000005.ldb'') (tb_file b)) (tb_file b)"
    by (rule mmap_file.random_access_axioms)
  moreover have "coherent t None" for t by (simp add: coherent_def)
  ultimately obtain t s where "Table_Open sample_options (PosixMmapReadableFile disk_posix (lit ''000005.ldb'') (tb_file b)) (FileSize b) 0 = Some (OK, Some t)"
    "runs (iter_do (TableIterator t None make_ReadOptions)) [To [98], Forward] (Table_NewIterator t) = Some s"
    "shows_entry (TableIterator t None make_ReadOptions) sample_entries 2 s"
    using t n by blast
  then show ?thesis using b by (auto simp: shows_entry_def sample_entries_def)
qed

theorem table_lookup_witness:
  "\<exists>b t. build_table memory_file sample_options sample_entries [] = Some (OK, b) \<and>
     Table_Open sample_options (PosixMmapReadableFile disk_posix (lit ''000005.ldb'') (tb_file b)) (FileSize b) 0 = Some (OK, Some t) \<and>
     InternalGet t None make_ReadOptions [98] = Some (OK, Some ([98], [50]))"
proof -
  obtain b where b: "build_table memory_file sample_options sample_entries [] = Some (OK, b)"
    and t: "\<forall>raf cache_id. length (tb_file b) < 2 ^ 32 \<longrightarrow> random_access raf (tb_file b) \<longrightarrow>
      (\<exists>t. Table_Open sample_options raf (FileSize b) cache_id = Some (OK, Some t) \<and>
        (\<exists>pos. ApproximateOffsetOf t [98] = Some pos \<and> unat pos < length (tb_file b)) \<and>
        (\<forall>cache ro. coherent t cache \<longrightarrow>
          (\<exists>r. InternalGet t cache ro [98] = Some (OK, r) \<and>
            (\<forall>e. r = Some e \<longrightarrow> seek_pos (Compare (op_comparator sample_options)) [98] sample_entries < length sample_entries \<and>
              e = sample_entries ! seek_pos (Compare (op_comparator sample_options)) [98] sample_entries) \<and>
            (\<forall>kv \<in> set sample_entries. (if op_filter_policy sample_options = None
               then Compare (op_comparator sample_options) (fst kv) [98] = 0 else fst kv = [98]) \<longrightarrow> r = Some kv))))"
    using table_lookup [OF sample_hypotheses(1) TrueI refl sample_hypotheses(2,3) TrueI sample_hypotheses(4), of "[98]"] by auto
  have n: "length (tb_file b) < 2 ^ 32" using sample_small b by auto
  have "random_access (PosixMmapReadableFile disk_posix (lit ''000005.ldb'') (tb_file b)) (tb_file b)"
    by (rule mmap_file.random_access_axioms)
  moreover have "coherent t None" for t by (simp add: coherent_def)
  moreover have "([98], [50]) \<in> set sample_entries" "op_filter_policy sample_options \<noteq> None"
    by (simp_all add: sample_entries_def sample_options_def)
  ultimately show ?thesis using b t n by fastforce
qed

end
