(* ===== verification/Spec2Isabelle.thy ===== *)
theory Spec2Isabelle
  imports Cct_Messages Firebasecore_Messages Pb_Roundtrip FBase64_Spec Ldb_Memtable Ldb_Log_Spec Ldb_Bloom Ldb_VersionEdit Ldb_Filename Ldb_Block_Safe Ldb_Merger_Spec Ldb_DBIter_Spec Ldb_Table_Spec
begin

text \<open>
  A verification library for the C and C++ code that the iOS build of the logo-guessing
  game carries. The game itself is a Flutter user interface (\<^verbatim>\<open>lib/\<close>) over Firebase
  services; what computes, below it, are the pods under \<^verbatim>\<open>ios/Pods\<close>. Three of their parts
  are self-contained programs, and they are modelled here:

  \<^item> \<^verbatim>\<open>nanopb\<close>, the protocol-buffers codec, with the generated messages of
    GoogleDataTransport (\<^verbatim>\<open>cct.nanopb\<close>) and FirebaseCoreDiagnostics (\<^verbatim>\<open>firebasecore.nanopb\<close>).
    The uploader of GoogleDataTransport encodes a batch of log requests with \<open>pb_encode\<close>,
    after a sizing pass, and decodes the backend's response with \<open>pb_decode\<close>.
  \<^item> \<^verbatim>\<open>fbase64.c\<close>, the Base64 codec of the WebSocket client of FirebaseDatabase.
  \<^item> \<^verbatim>\<open>leveldb-library\<close>, the key-value store in which FirebaseDatabase persists its cache:
    updates are collected in a \<open>WriteBatch\<close>, appended to a log with checksums, and inserted
    into a memtable, a skip list of internal keys that readers search without a lock.

  \<^bold>\<open>Target.\<close> LP64, little-endian, as on every iOS device; the configuration macros are those of
  the pods' build settings. C integers are words of their width, memory is a function from
  64-bit addresses to bytes (\<^verbatim>\<open>Prelude\<close>), C++ strings and slices are byte lists.

  \<^bold>\<open>Theories for nanopb.\<close>
  \<^item> \<^verbatim>\<open>Pb_Base\<close> (\<^verbatim>\<open>pb.h\<close>): field types, descriptors, structs and the macros of field tables.
    \<^verbatim>\<open>Pb_Descriptor\<close>: executable checks of tables. \<^verbatim>\<open>Pb_Common\<close> (\<^verbatim>\<open>pb_common.c\<close>): the field iterator.
  \<^item> \<^verbatim>\<open>Pb_Ostream\<close>, \<^verbatim>\<open>Pb_Encode\<close> (\<^verbatim>\<open>pb_encode.c\<close>): streams and encoders. \<^verbatim>\<open>Pb_Wire\<close> is the wire
    format as a specification; \<^verbatim>\<open>Pb_Encode_Spec\<close> proves the refinement inside the locale
    \<open>os_device\<close> (sizing and buffer streams); \<^verbatim>\<open>Pb_Encode_Safe\<close> proves the theorems on buffers,
    and memory safety for messages none of whose submessages is \<open>2 ^ 63\<close> bytes or longer on the
    wire (\<open>submessages_small\<close>): one check of the encoder may wrap around for longer ones.
  \<^item> \<^verbatim>\<open>Pb_Istream\<close>, \<^verbatim>\<open>Pb_Decode\<close> (\<^verbatim>\<open>pb_decode.c\<close>): input streams, decoders, allocation and release.
    \<^verbatim>\<open>Pb_Istream_Spec\<close>, \<^verbatim>\<open>Pb_Decode_Spec\<close>: reading and skipping of values, decoding of records;
    \<^verbatim>\<open>Pb_Roundtrip\<close>: decoding what was encoded.
  \<^item> \<^verbatim>\<open>Cct_Messages\<close>, \<^verbatim>\<open>Firebasecore_Messages\<close>: the generated code; their tables are checked
    against the struct layouts by evaluation.

  \<^bold>\<open>Theories for Base64.\<close> \<^verbatim>\<open>FBase64\<close> models the two functions with their loops and tails;
  \<^verbatim>\<open>FBase64_Spec\<close> defines Base64 from the bits of the source, with its own alphabet, and
  proves that they implement it.

  \<^bold>\<open>Theories for leveldb.\<close>
  \<^item> \<^verbatim>\<open>Varint\<close>, \<^verbatim>\<open>Ldb_Coding\<close> (\<^verbatim>\<open>util/coding\<close>, \<^verbatim>\<open>slice.h\<close>): integers and strings in byte strings; the
    locale \<open>codec\<close> is interpreted for three of them.
  \<^item> \<^verbatim>\<open>Ldb_Comparator\<close> (\<^verbatim>\<open>util/comparator.cc\<close>) and \<^verbatim>\<open>Ldb_Dbformat\<close> (\<^verbatim>\<open>db/dbformat\<close>): the contract of a
    comparator is the locale \<open>separating_comparator\<close>, met by the bytewise comparator and, by a
    sublocale, by the comparator of internal keys over any comparator that meets it.
  \<^item> \<^verbatim>\<open>Ldb_Logging\<close> (\<^verbatim>\<open>util/logging.cc\<close>, \<^verbatim>\<open>util/status.cc\<close>): numbers as text, \<open>Status\<close>.
  \<^item> \<^verbatim>\<open>Ldb_Bloom\<close> (\<^verbatim>\<open>util/hash.cc\<close>, \<^verbatim>\<open>util/bloom.cc\<close>): the Bloom filter, an interpretation of the
    locale \<open>filter_contract\<close>.
  \<^item> \<^verbatim>\<open>Ldb_WriteBatch\<close> (\<^verbatim>\<open>db/write_batch.cc\<close>): batches; the inductive relation \<open>batch_reaches\<close>
    says which updates a batch stands for, \<open>record_bytes\<close> and \<open>contents_of\<close> state the grammar of the
    contents of arbitrary strings.
  \<^item> \<^verbatim>\<open>Ldb_SkipList\<close>, \<^verbatim>\<open>Ldb_SkipList_Spec\<close> (\<^verbatim>\<open>db/skiplist.h\<close>, \<^verbatim>\<open>util/random.h\<close>): the list, its invariant
    \<open>shape\<close>, and the refinement to sorted lists in the locale \<open>key_order\<close>. Insertion is also
    given as its sequence of stores, and the relation \<open>sl_step\<close> interleaves them with the
    loads of a reader.
  \<^item> \<^verbatim>\<open>Ldb_Memtable\<close> (\<^verbatim>\<open>db/memtable.cc\<close>): entries, look-up and the insertion of batches, on the
    interpretation of \<open>key_order\<close> for encoded entries.
  \<^item> \<^verbatim>\<open>Ldb_Crc32c_Tables\<close>, \<^verbatim>\<open>Ldb_Crc32c\<close>, \<^verbatim>\<open>Ldb_Crc32c_Spec\<close> (\<^verbatim>\<open>util/crc32c\<close>): the checksum and its
    equivalence with the bit-by-bit definition.
  \<^item> \<^verbatim>\<open>Ldb_Env\<close> (\<^verbatim>\<open>env.h\<close>, \<^verbatim>\<open>util/env_posix.cc\<close>): sequential and writable files. Their contracts are the
    locales \<open>sequential_contract\<close> and \<open>writable_contract\<close>; the POSIX files meet them on every
    system that meets \<open>posix_disk\<close>, by sublocales, and \<open>posix_disk\<close> is interpreted on a disk with
    an arbitrary schedule of partial and interrupted transfers.
  \<^item> \<^verbatim>\<open>Ldb_Log\<close>, \<^verbatim>\<open>Ldb_Log_Spec\<close> (\<^verbatim>\<open>db/log_writer.cc\<close>, \<^verbatim>\<open>db/log_reader.cc\<close>): the log, its layout as a
    specification, recovery from every prefix of the file, and that reading always ends.
  \<^item> \<^verbatim>\<open>Ldb_VersionEdit\<close>, \<^verbatim>\<open>Ldb_Filename\<close> (\<^verbatim>\<open>db/version_edit.cc\<close>, \<^verbatim>\<open>db/filename.cc\<close>): the records
    of the manifest and the names of the files of a database, both with their round trips.
  \<^item> \<^verbatim>\<open>Ldb_Iterator\<close> (\<^verbatim>\<open>iterator.h\<close>, \<^verbatim>\<open>table/iterator.cc\<close>): the interface of iterators; its contract is
    the locale \<open>iterator_contract\<close> over a cursor in a list of entries, interpreted here for the
    empty iterator.
  \<^item> \<^verbatim>\<open>Ldb_Block\<close>, \<^verbatim>\<open>Ldb_Block_Spec\<close>, \<^verbatim>\<open>Ldb_Block_Safe\<close> (\<^verbatim>\<open>table/block_builder.cc\<close>, \<^verbatim>\<open>table/block.cc\<close>): the
    blocks of table files, their layout as a specification, the iterator over a built block
    as an interpretation of \<open>iterator_contract\<close>, and its safety on arbitrary contents.
  \<^item> \<^verbatim>\<open>Ldb_Wrapper\<close>, \<^verbatim>\<open>Ldb_Merger\<close>, \<^verbatim>\<open>Ldb_Merger_Spec\<close>, \<^verbatim>\<open>Ldb_TwoLevel\<close> (\<^verbatim>\<open>table/iterator_wrapper.h\<close>,
    \<^verbatim>\<open>table/merger.cc\<close>, \<^verbatim>\<open>table/two_level_iterator.cc\<close>): iterators over iterators. From children that meet
    \<open>iterator_contract\<close>, the locales \<open>merge_children\<close> and \<open>two_level_blocks\<close> prove that the merging
    and the two-level iterator meet it for the merged and the concatenated entries. A key that
    several children of a merging iterator have stays in the merged list once for each; since a
    change of direction skips its other copies, the specification is a cursor with a direction
    (\<open>merge_cursor_op\<close>).
  \<^item> \<^verbatim>\<open>Ldb_DBIter\<close>, \<^verbatim>\<open>Ldb_DBIter_Spec\<close> (\<^verbatim>\<open>db/db_iter.cc\<close>): the iterator over a database, which
    shows the newest entries up to a sequence number. \<open>db_view\<close> is the specification; in the
    locale \<open>db_internal\<close>, over any internal iterator that meets \<open>iterator_contract\<close>, it is proved
    to meet that contract for the view, by a sublocale.
  \<^item> \<^verbatim>\<open>Ldb_FilterBlock\<close> (\<^verbatim>\<open>table/filter_block.cc\<close>): the filters of a table, on the locale \<open>filter_contract\<close>.
  \<^item> \<^verbatim>\<open>Ldb_Format\<close>, \<^verbatim>\<open>Ldb_TableBuilder\<close>, \<^verbatim>\<open>Ldb_TableBuilder_Spec\<close>, \<^verbatim>\<open>Ldb_Table\<close>, \<^verbatim>\<open>Ldb_Table_Spec\<close>
    (\<^verbatim>\<open>table/format.cc\<close>, \<^verbatim>\<open>table/table_builder.cc\<close>, \<^verbatim>\<open>table/table.cc\<close>): table files. The builder writes to any
    file that meets \<open>writable_contract\<close>, the reader reads from any that meets \<open>random_access\<close> (memory-mapped
    files do). \<open>table_file\<close> is the layout as a specification, \<open>table_inv\<close> the invariant of the builder; the locale
    \<open>open_table\<close> is an opened table, a sublocale of \<open>two_level_blocks\<close>.

  \<^bold>\<open>Loops and fuel.\<close> Loops are recursive functions with measures. The searches of the skip
  list follow pointers and are partial functions into \<open>option\<close>; that they return is part of
  the theorems (on well-formed lists). The extension chains of nanopb messages are bounded
  by the depth that the environment record of a run fixes, since extension objects are data
  of the caller.

  \<^bold>\<open>Parameters.\<close> User callbacks, extension handlers and the placement of allocations in
  nanopb are arguments of the definitions (\<open>enc_env\<close>, \<open>dec_env\<close>).
  The system calls under the POSIX files are the record \<open>posix\<close>; comparators and filter
  policies are records as well, since leveldb calls them through virtual functions.

  \<^bold>\<open>Not modelled.\<close> The Objective-C, Swift, Kotlin and Dart sources (user interface, SDK glue,
  networking): they work on frameworks that are not in the repository. Of nanopb, the oneof
  macros and the variants for compilers without 64-bit integers, which this build does not
  use. Of leveldb: the block cache, version bookkeeping, compaction and recovery,
  which are threads and file-system work on top of the parts above; the thread pool, locks and directories of the POSIX
  environment, which only pass calls on; the C bindings and the test support.
\<close>

section \<open>The repository's messages\<close>

text \<open>
  (C21) The field tables of the generated code describe their structs: for every message
  and every address, the iterator finds each field with the tag of the header, its data at
  the offset of the struct member and its has-flag or count at the offset of that member.
\<close>

theorem message_tables_layout:
  assumes "(st, names, tags, fds) \<in> set (cct_tables @ firebasecore_tables)" and "i < length names"
  shows "f_tag (it_field (iter_at fds a i)) = tags ! i \<and>
    it_pData (iter_at fds a i) = a + of_nat (offsetof st (names ! i)) \<and>
    (f_size_offset (field_at fds i) \<noteq> 0 \<longrightarrow>
      it_pSize (iter_at fds a i) = PS_mem (a + of_nat (offsetof st
        (if PB_HTYPE (f_type (field_at fds i)) = PB_HTYPE_REPEATED
         then names ! i @ ''_count'' else ''has_'' @ names ! i))))"
proof -
  have "table_ok (st, names, tags, fds)"
    using assms(1) cct_tables_ok firebasecore_tables_ok by (auto simp: list_all_iff)
  then have ok: "table_describes st names fds" "map f_tag fds = tags @ [0]" "length tags = length names"
    by (simp_all add: table_ok_def)
  have n: "nfields fds = length names" "i < nfields fds"
    using ok(1) assms(2) by (simp_all add: table_describes_def)
  have "f_tag (field_at fds i) = map f_tag fds ! i"
    using n nfields_le [of fds] by (simp add: field_at_def)
  then have "f_tag (field_at fds i) = tags ! i"
    using ok(2,3) assms(2) by (simp add: nth_append)
  then show ?thesis
    using table_describes_at [OF ok(1) assms(2), of a] iter_at_pos [OF n(2), of a] by simp
qed

text \<open>
  (C22) The batch of log requests that GoogleDataTransport uploads, and the diagnostics
  record inside its events, can be encoded whatever the structs hold: the only way in which
  \<open>pb_encode\<close> into a buffer fails is lack of room.
\<close>

theorem upload_fails_only_for_room:
  assumes "fds = gdt_cct_BatchedLogRequest_fields \<or> fds = logs_proto_mobilesdk_ios_ICoreConfiguration_fields"
    and "unat n \<le> length buf" "unat n < 2 ^ 63"
  shows "\<exists>rs. abs_msg m fds a = Some rs \<and>
    (length (wire_records rs) < 2 ^ 63 \<longrightarrow>
      (fst (pb_encode env m (pb_ostream_from_buffer buf n) fds a) \<longleftrightarrow> length (wire_records rs) \<le> unat n))"
proof -
  have "plain_fields fds" "always_encodable fds"
    using assms(1) cct_plain(1) cct_always_encodable firebasecore_plain firebasecore_always_encodable
    by auto
  then obtain rs where rs: "abs_msg m fds a = Some rs"
    using always_abs_msg by blast
  have "buf.emit (\<lambda>s. pb_encode env m s fds a) (Some (wire_records rs))"
    using buf.emit_message [OF \<open>plain_fields fds\<close>, of env m a] rs by simp
  from encode_into_buffer [OF this assms(2,3)] rs show ?thesis
    by (metis fst_conv)
qed

section \<open>Instances\<close>

text \<open>
  A configuration of two quality-of-service tiers in memory: the struct at 4096, its array
  of two elements at 8192. No callbacks and no extensions are involved.
\<close>

definition qos_mem :: mem where
  "qos_mem = store_bytes (store_bytes (\<lambda>_. 0) 4096
      [2, 0, 0, 0, 0, 0, 0, 0, 0, 32, 0, 0, 0, 0, 0, 0, 1, 0, 0, 0, 0, 0, 0, 0, 44, 1, 0, 0, 0, 0, 0, 0])
    8192
      [1, 0, 0, 0, 3, 0, 0, 0, 0, 0, 0, 0, 0, 0, 0, 0,
       1, 0, 0, 0, 4, 0, 0, 0, 1, 0, 0, 0, 255, 255, 255, 255]"

definition no_callbacks :: enc_env where
  "no_callbacks =
     \<lparr>ee_callback = (\<lambda>_ _ s _ _. (False, s)),
      ee_ext_type = (\<lambda>_. \<lparr>et_encode = None, et_arg = PB_LAST_FIELD\<rparr>),
      ee_ext_chain = 0, ee_ext_depth = 0\<rparr>"

definition qos_records :: "pb_record list" where
  "qos_records =
     [Single 1 (V_message [Single 2 (V_varint 3)]),
      Single 1 (V_message [Single 2 (V_varint 4), Single 3 (V_varint (- 1))]),
      Single 2 (V_varint 300)]"

definition qos_wire :: "byte list" where
  "qos_wire =
     [10, 2, 16, 3, 10, 13, 16, 4, 24, 255, 255, 255, 255, 255, 255, 255, 255, 255, 1, 16, 172, 2]"

lemma qos_abs: "abs_msg qos_mem gdt_cct_QosTiersOverride_fields 4096 = Some qos_records"
  by code_simp

lemma qos_wire_records: "wire_records qos_records = qos_wire"
  by (simp add: qos_records_def qos_wire_def varint.simps wire_tag_def delimited_def)

lemma length_qos_wire: "length qos_wire = 22"
  by (simp add: qos_wire_def)

theorem pb_encode_buffer_witness:
  "pb_encode no_callbacks qos_mem (pb_ostream_from_buffer (replicate 24 0) 24)
     gdt_cct_QosTiersOverride_fields 4096 =
   (True, (pb_ostream_from_buffer (replicate 24 0) 24)
      \<lparr>os_state := (qos_wire @ replicate 2 0, 22), os_bytes_written := 22\<rparr>)"
  using pb_encode_buffer [OF cct_plain(2) qos_abs, of 24 "replicate 24 0" no_callbacks]
  by (simp add: qos_wire_records length_qos_wire)

theorem pb_encode_refuses_witness:
  "\<not> fst (pb_encode no_callbacks qos_mem PB_OSTREAM_SIZING
     [PB_REQUIRED_POINTER 1 gdt_cct_IosClientInfo ''country'' 24 PB_LTYPE_BYTES PtrNull, PB_LAST_FIELD] 0)"
  by (rule pb_encode_refuses) code_simp+

theorem pb_get_encoded_size_witness:
  "pb_get_encoded_size no_callbacks qos_mem gdt_cct_QosTiersOverride_fields 4096 = Some 22"
proof -
  have small: "\<And>rs. abs_msg qos_mem gdt_cct_QosTiersOverride_fields 4096 = Some rs \<Longrightarrow>
      length (wire_records rs) < 2 ^ 63"
    using qos_wire_records length_qos_wire by (simp add: qos_abs)
  show ?thesis
    using pb_get_encoded_size_correct [of gdt_cct_QosTiersOverride_fields qos_mem 4096 no_callbacks,
        OF cct_plain(2) small]
    by (simp add: qos_abs qos_wire_records length_qos_wire)
qed

lemma qos_size: "pb_get_encoded_size no_callbacks qos_mem gdt_cct_QosTiersOverride_fields 4096 = Some 22"
  by code_simp

lemma encode_after_sizing_witness:
  "\<exists>s. pb_encode no_callbacks qos_mem (pb_ostream_from_buffer (replicate 22 0) 22)
      gdt_cct_QosTiersOverride_fields 4096 = (True, s) \<and>
    fst (os_state s) = qos_wire \<and> os_bytes_written s = 22"
  using encode_after_sizing [OF cct_plain(2) qos_abs _ qos_size, of "replicate 22 0"]
  by (simp add: qos_wire_records length_qos_wire)

text \<open>
  The only submessages of a table of tiers are the tier configurations; each has two varints,
  hence at most 22 bytes.
\<close>

lemma tier_fields:
  "f \<in> set gdt_cct_QosTiersOverride_fields \<Longrightarrow> f_ptr f = PtrFields fs \<Longrightarrow> fs = gdt_cct_QosTierConfiguration_fields"
  "f \<in> set gdt_cct_QosTierConfiguration_fields \<Longrightarrow> f_ptr f \<noteq> PtrFields fs"
  by (auto simp: gdt_cct_QosTiersOverride_fields_code gdt_cct_QosTierConfiguration_fields_code PB_LAST_FIELD_def)

lemma tier_submessages:
  "submessage m fds a fs p \<Longrightarrow>
     (fds = gdt_cct_QosTiersOverride_fields \<longrightarrow> fs = gdt_cct_QosTierConfiguration_fields) \<and>
     fds \<noteq> gdt_cct_QosTierConfiguration_fields"
proof (induction rule: submessage.induct)
  case (submessage_field it fds a fs p)
  then show ?case using iters_field tier_fields by blast
qed blast

lemma tier_small: "submessages_small m gdt_cct_QosTiersOverride_fields a"
proof -
  have "length (wire_records rs) < 2 ^ 63" if "abs_msg m gdt_cct_QosTierConfiguration_fields p = Some rs" for p rs
  proof -
    have "length (wire_records rs) \<le> 22"
      by (rule two_varints_bound(1) [OF _ _ _ that]) (use cct_two_varints in simp_all)
    then show ?thesis by simp
  qed
  then show ?thesis unfolding submessages_small_def using tier_submessages by blast
qed

theorem pb_encode_in_bounds_witness:
  "case snd (pb_encode no_callbacks qos_mem (pb_ostream_from_buffer (replicate 24 7) 20)
      gdt_cct_QosTiersOverride_fields 4096) of s \<Rightarrow>
    length (fst (os_state s)) = 24 \<and> drop 20 (fst (os_state s)) = replicate 4 7 \<and>
    snd (os_state s) = unat (os_bytes_written s) \<and> os_bytes_written s \<le> 20"
  using pb_encode_in_bounds [OF cct_plain(2) tier_small [of qos_mem 4096], of 20 "replicate 24 7" no_callbacks] by simp

theorem pb_encode_framed_witness:
  "pb_encode_delimited no_callbacks qos_mem (pb_ostream_from_buffer (replicate 24 0) 24)
     gdt_cct_QosTiersOverride_fields 4096 =
   (True, (pb_ostream_from_buffer (replicate 24 0) 24)
      \<lparr>os_state := (22 # qos_wire @ replicate 1 0, 23), os_bytes_written := 23\<rparr>)"
  using pb_encode_framed [OF cct_plain(2) qos_abs, of 24 "replicate 24 0" "22 # qos_wire"
      "pb_encode_delimited no_callbacks qos_mem" no_callbacks]
  by (simp add: qos_wire_records length_qos_wire delimited_def varint_small)

lemma log_response_offset: "offsetof gdt_cct_LogResponse ''qos_tier'' = 24"
  by code_simp

theorem message_tables_layout_witness:
  "it_pData (iter_at gdt_cct_LogResponse_fields 4096 1) = 4120"
  using message_tables_layout [of gdt_cct_LogResponse "[''next_request_wait_millis'', ''qos_tier'']"
      "[gdt_cct_LogResponse_next_request_wait_millis_tag, gdt_cct_LogResponse_qos_tier_tag]"
      gdt_cct_LogResponse_fields 1 4096]
  by (simp add: cct_tables_def log_response_offset)

theorem upload_fails_only_for_room_witness:
  "\<exists>rs. abs_msg (\<lambda>_. 0) gdt_cct_BatchedLogRequest_fields 4096 = Some rs \<and>
    (length (wire_records rs) < 2 ^ 63 \<longrightarrow>
      (fst (pb_encode no_callbacks (\<lambda>_. 0) (pb_ostream_from_buffer [0] 1) gdt_cct_BatchedLogRequest_fields 4096) \<longleftrightarrow>
       length (wire_records rs) \<le> 1))"
  using upload_fails_only_for_room [of gdt_cct_BatchedLogRequest_fields 1 "[0]"] by simp

theorem cct_size_bounds_witness:
  "length (wire_records [Single 2 (V_varint 4), Single 3 (V_varint (- 1))]) \<le> gdt_cct_QosTierConfiguration_size"
proof (rule cct_size_bounds [of gdt_cct_QosTierConfiguration_fields qos_mem 8208])
  show "abs_msg qos_mem gdt_cct_QosTierConfiguration_fields 8208 =
    Some [Single 2 (V_varint 4), Single 3 (V_varint (- 1))]"
    by code_simp
  have "load_u32 qos_mem (8208 + of_nat (offsetof gdt_cct_QosTierConfiguration ''qos_tier'')) < 128"
    by code_simp
  then show "gdt_cct_QosTierConfiguration_fields = gdt_cct_NetworkConnectionInfo_fields \<and>
      load_u32 qos_mem (8208 + of_nat (offsetof gdt_cct_NetworkConnectionInfo ''mobile_subtype'')) < 128 \<and>
      gdt_cct_QosTierConfiguration_size = gdt_cct_NetworkConnectionInfo_size \<or>
    gdt_cct_QosTierConfiguration_fields = gdt_cct_QosTierConfiguration_fields \<and>
      load_u32 qos_mem (8208 + of_nat (offsetof gdt_cct_QosTierConfiguration ''qos_tier'')) < 128 \<and>
      gdt_cct_QosTierConfiguration_size = gdt_cct_QosTierConfiguration_size"
    by simp
qed

theorem pb_skip_field_exact_witness:
  "pb_skip_field (pb_istream_from_buffer [3, 9, 9, 9, 5] 5) 2 = (True, pb_istream_from_buffer [5] 1)"
proof -
  have w: "delimited [9, 9, 9] = [3, 9, 9, 9]"
    by (simp add: delimited_def varint_small)
  show ?thesis
  using pb_skip_field_exact [of "V_bytes [9, 9, 9]" 5 "[5]"]
  by (simp add: short_value_def w)
qed

definition no_allocation :: dec_env where
  "no_allocation =
     \<lparr>de_place = (\<lambda>_ _ _. NULL), de_callback = (\<lambda>_ st _ _. (False, st)),
      de_ext_type = (\<lambda>_. \<lparr>dt_decode = None, dt_arg = PB_LAST_FIELD\<rparr>), de_ext_chain = 0, de_ext_depth = 0\<rparr>"

definition fresh_heap :: heap where
  "fresh_heap = \<lparr>hp_mem = (\<lambda>_. 170), hp_blocks = [], hp_fixed_count_size = 0, hp_bad_free = False, hp_ext_bound = False\<rparr>"

lemma tier_layout: "flat_layout gdt_cct_QosTierConfiguration_fields" "flat_fields gdt_cct_QosTierConfiguration_fields"
  "plain_fields gdt_cct_QosTierConfiguration_fields" "nfields gdt_cct_QosTierConfiguration_fields = 2"
  by code_simp+

definition tier_records :: "pb_record list" where
  "tier_records = [Single 2 (V_varint 4), Single 9 (V_bytes [1]), Single 2 (V_varint 5)]"

theorem pb_decode_noinit_records_witness:
  "pb_decode_noinit no_allocation gdt_cct_QosTierConfiguration_fields 64
     (pb_istream_from_buffer [16, 4, 74, 1, 1, 16, 5] 7, fresh_heap) =
   (True, pb_istream_from_buffer [] 0,
     h_store 68 [5, 0, 0, 0] (h_store 64 [1] (h_store 68 [4, 0, 0, 0] (h_store 64 [1] fresh_heap))))"
proof -
  have w: "wire_records tier_records = [16, 4, 74, 1, 1, 16, 5]"
    by (simp add: tier_records_def varint.simps wire_tag_def delimited_def)
  have x: "field_index gdt_cct_QosTierConfiguration_fields 2 = Some 0"
    "field_index gdt_cct_QosTierConfiguration_fields 9 = None"
    "scalar_bytes (field_at gdt_cct_QosTierConfiguration_fields 0) (V_varint 4) = Some [4, 0, 0, 0]"
    "scalar_bytes (field_at gdt_cct_QosTierConfiguration_fields 0) (V_varint 5) = Some [5, 0, 0, 0]"
    "flag_addr gdt_cct_QosTierConfiguration_fields 64 0 = 64"
    "it_pData (iter_at gdt_cct_QosTierConfiguration_fields 64 0) = 68"
    by code_simp+
  have r: "list_all (flat_record gdt_cct_QosTierConfiguration_fields) tier_records"
    by (simp add: tier_records_def flat_record_def x short_value_def)
  have f: "fold (store_record gdt_cct_QosTierConfiguration_fields 64) tier_records h = 
    h_store 68 [5, 0, 0, 0] (h_store 64 [1] (h_store 68 [4, 0, 0, 0] (h_store 64 [1] h)))" for h
    by (simp add: tier_records_def store_record_def store_field_def x)
  show ?thesis
    using pb_decode_noinit_records [OF tier_layout(2) r, of no_allocation 64 "[]" fresh_heap]
    by (simp add: w f)
qed

theorem varint_roundtrip_witness:
  "\<exists>s s'. pb_encode_svarint (pb_ostream_from_buffer [0, 0, 0] 3) (- 200) = (True, s) \<and>
    pb_decode_svarint (pb_istream_from_buffer (fst (os_state s)) (os_bytes_written s)) = (Some (- 200), s') \<and>
    is_bytes_left s' = 0"
proof -
  have "fst (pb_encode_svarint (pb_ostream_from_buffer [0, 0, 0] 3) (- 200))" by code_simp
  then obtain s where s: "pb_encode_svarint (pb_ostream_from_buffer [0, 0, 0] 3) (- 200) = (True, s)"
    by (metis prod.collapse)
  show ?thesis
    using varint_roundtrip [of 3 "[0, 0, 0]" pb_encode_svarint pb_decode_svarint, OF _ _ _ s] s by auto
qed

theorem encode_decode_roundtrip_witness:
  "\<exists>s s' h'. pb_encode no_callbacks qos_mem (pb_ostream_from_buffer (replicate 24 0) 24)
      gdt_cct_QosTierConfiguration_fields 8208 = (True, s) \<and>
    pb_decode no_allocation gdt_cct_QosTierConfiguration_fields 64
      (pb_istream_from_buffer (fst (os_state s)) (os_bytes_written s), fresh_heap) = (True, s', h') \<and>
    is_bytes_left s' = 0 \<and>
    abs_msg (hp_mem h') gdt_cct_QosTierConfiguration_fields 64 = Some [Single 2 (V_varint 4), Single 3 (V_varint (- 1))]"
proof -
  have a: "abs_msg qos_mem gdt_cct_QosTierConfiguration_fields 8208 =
      Some [Single 2 (V_varint 4), Single 3 (V_varint (- 1))]"
    by code_simp
  have "fst (pb_encode no_callbacks qos_mem (pb_ostream_from_buffer (replicate 24 0) 24)
      gdt_cct_QosTierConfiguration_fields 8208)"
    by code_simp
  then obtain s where s: "pb_encode no_callbacks qos_mem (pb_ostream_from_buffer (replicate 24 0) 24)
      gdt_cct_QosTierConfiguration_fields 8208 = (True, s)"
    by (metis prod.collapse)
  show ?thesis
    using encode_decode_roundtrip [OF tier_layout(1,3) _ _ _ s, of no_allocation 64 fresh_heap] s
    by (simp add: a tier_layout)
qed
end
